(* ===== verification/Xv6_Prelude.thy ===== *)
theory Xv6_Prelude
  imports Main "HOL-Library.Word"
begin

text \<open>
  Shared vocabulary of the development: machine types, the result type of kernel code
  (a panic is a value), byte memory with little-endian 32-bit accesses, the table scan that
  every fixed-size kernel table is searched with, and reachability of step relations with the
  invariant rule.
\<close>

unbundle bit_operations_syntax

type_synonym byte = "8 word"
type_synonym u16 = "16 word"
type_synonym u32 = "32 word"
type_synonym mem = "u32 \<Rightarrow> byte"

text \<open>What a \<open>const char *\<close> points to: the byte at each offset from the pointer.\<close>

type_synonym cbuf = "nat \<Rightarrow> byte"

named_theorems res_simps \<open>unfolding of the result monad\<close>
named_theorems table_simps \<open>facts on scans of fixed-size tables\<close>


subsection \<open>Results of kernel code\<close>

text \<open>
  \<open>Panic s\<close> is a call of \<open>panic(s)\<close> (\<open>console.c\<close>), \<open>Blocked c\<close> a call that has to sleep on
  channel \<open>c\<close> before it can go on, \<open>Fault\<close> an access through a null pointer.
\<close>

type_synonym chan = "string \<times> nat"

datatype kerror = Panic string | Blocked chan | Fault

type_synonym 'a res = "kerror + 'a"

fun bindR :: "'a res \<Rightarrow> ('a \<Rightarrow> 'b res) \<Rightarrow> 'b res" where
  "bindR (Inl e) f = Inl e"
| "bindR (Inr x) f = f x"

lemma bindR_eq_Inr [res_simps]: "bindR m f = Inr y \<longleftrightarrow> (\<exists>x. m = Inr x \<and> f x = Inr y)"
  by (cases m) auto

lemma bindR_assoc: "bindR (bindR m f) g = bindR m (\<lambda>x. bindR (f x) g)"
  by (cases m) auto

lemma bindR_cong [fundef_cong]:
  "m = m' \<Longrightarrow> (\<And>x. m' = Inr x \<Longrightarrow> f x = f' x) \<Longrightarrow> bindR m f = bindR m' f'"
  by (cases m') auto

definition guardR :: "bool \<Rightarrow> kerror \<Rightarrow> unit res" where
  "guardR b e = (if b then Inr () else Inl e)"

lemma guardR_simps [simp]:
  "guardR True e = Inr ()" "guardR False e = Inl e" "guardR b e = Inr u \<longleftrightarrow> b"
  by (auto simp: guardR_def)


text \<open>The code returns, and what it returns satisfies \<open>Q\<close>.\<close>

definition runs :: "'a res \<Rightarrow> ('a \<Rightarrow> bool) \<Rightarrow> bool" where
  "runs m Q \<longleftrightarrow> (\<exists>x. m = Inr x \<and> Q x)"

lemma runs_simps [simp]: "runs (Inr x) Q \<longleftrightarrow> Q x" "\<not> runs (Inl e) Q"
  by (auto simp: runs_def)

lemma runs_bind: "runs (bindR m f) Q \<longleftrightarrow> runs m (\<lambda>x. runs (f x) Q)"
  by (cases m) auto

lemma runs_if: "(b \<Longrightarrow> runs m Q) \<Longrightarrow> (\<not> b \<Longrightarrow> runs m' Q) \<Longrightarrow> runs (if b then m else m') Q"
  by simp

lemma runs_mono: "runs m P \<Longrightarrow> (\<And>x. P x \<Longrightarrow> Q x) \<Longrightarrow> runs m Q"
  by (auto simp: runs_def)

lemma runs_pair: "runs m (\<lambda>(x, y). P x y) \<Longrightarrow> (\<And>x y. P x y \<Longrightarrow> Q (x, y)) \<Longrightarrow> runs m Q"
  by (auto simp: runs_def)


subsection \<open>Scanning a table for the first entry that fits\<close>

fun scan :: "('a \<Rightarrow> bool) \<Rightarrow> 'a list \<Rightarrow> nat option" where
  "scan P [] = None"
| "scan P (x # xs) = (if P x then Some 0 else map_option Suc (scan P xs))"

lemma scan_None_iff [table_simps]: "scan P xs = None \<longleftrightarrow> (\<forall>x \<in> set xs. \<not> P x)"
  by (induction xs) auto

lemma scan_Some_iff [table_simps]:
  "scan P xs = Some i \<longleftrightarrow> i < length xs \<and> P (xs ! i) \<and> (\<forall>j < i. \<not> P (xs ! j))"
proof (induction xs arbitrary: i)
  case (Cons x xs)
  show ?case
    by (cases i) (auto simp: Cons.IH All_less_Suc2 split: if_splits)
qed simp

lemma scan_SomeD:
  assumes "scan P xs = Some i"
  shows "i < length xs" "P (xs ! i)"
  using assms by (auto simp: scan_Some_iff)

lemma scan_exists: "j < length xs \<Longrightarrow> P (xs ! j) \<Longrightarrow> \<exists>i. scan P xs = Some i"
  by (cases "scan P xs") (auto simp: scan_None_iff)


subsection \<open>Little-endian words in byte memory\<close>

definition load32 :: "mem \<Rightarrow> u32 \<Rightarrow> u32" where
  "load32 m a = ucast (m a) OR push_bit 8 (ucast (m (a + 1)))
     OR push_bit 16 (ucast (m (a + 2))) OR push_bit 24 (ucast (m (a + 3)))"

definition byte_of :: "u32 \<Rightarrow> nat \<Rightarrow> byte" where
  "byte_of v k = ucast (drop_bit (8 * k) v)"

definition store32 :: "mem \<Rightarrow> u32 \<Rightarrow> u32 \<Rightarrow> mem" where
  "store32 m a v =
     m(a := byte_of v 0, a + 1 := byte_of v 1, a + 2 := byte_of v 2, a + 3 := byte_of v 3)"

lemma bit_byte_of: "bit (byte_of v k) n \<longleftrightarrow> n < 8 \<and> bit v (8 * k + n)"
  by (auto simp: byte_of_def bit_simps)

lemma ucast_up_down_byte [simp]: "ucast (ucast (v :: byte) :: u32) = v"
  by (rule bit_word_eqI) (simp add: bit_simps)

lemma bytes_join:
  "ucast (byte_of v 0) OR push_bit 8 (ucast (byte_of v 1))
     OR push_bit 16 (ucast (byte_of v 2)) OR push_bit 24 (ucast (byte_of v 3)) = (v :: u32)"
proof (rule bit_word_eqI)
  fix n
  assume n: "n < LENGTH(32)"
  consider "n < 8" | "8 \<le> n \<and> n < 16" | "16 \<le> n \<and> n < 24" | "24 \<le> n"
    by linarith
  then show "bit (ucast (byte_of v 0) OR push_bit 8 (ucast (byte_of v 1))
     OR push_bit 16 (ucast (byte_of v 2)) OR push_bit 24 (ucast (byte_of v 3)) :: u32) n = bit v n"
    using n by cases (auto simp: bit_simps bit_byte_of)
qed

lemma load_store32_same [simp]: "load32 (store32 m a v) a = v"
  using bytes_join [of v] by (simp add: load32_def store32_def)


subsection \<open>Step relations and their invariants\<close>

inductive reach :: "('s \<Rightarrow> bool) \<Rightarrow> ('s \<Rightarrow> 's \<Rightarrow> bool) \<Rightarrow> 's \<Rightarrow> bool"
  for init step where
  reach_init: "init s \<Longrightarrow> reach init step s"
| reach_step: "reach init step s \<Longrightarrow> step s t \<Longrightarrow> reach init step t"

text \<open>
  A component that runs concurrently promises an invariant of its step relation; its clients
  rely on it in every reachable state.
\<close>

locale invariant_system =
  fixes init :: "'s \<Rightarrow> bool"
    and step :: "'s \<Rightarrow> 's \<Rightarrow> bool"
    and inv :: "'s \<Rightarrow> bool"
  assumes inv_init: "init s \<Longrightarrow> inv s"
    and inv_step: "inv s \<Longrightarrow> step s t \<Longrightarrow> inv t"
begin

lemma inv_reach: "reach init step s \<Longrightarrow> inv s"
  by (induction rule: reach.induct) (auto intro: inv_init inv_step)

lemma inv_run: "step\<^sup>*\<^sup>* s t \<Longrightarrow> inv s \<Longrightarrow> inv t"
  by (induction rule: rtranclp_induct) (auto intro: inv_step)

end

text \<open>
  A lock is such a component with a notion of being inside the critical section, which the
  invariant grants to one thread at a time.
\<close>

locale mutex = invariant_system +
  fixes in_cs :: "'a \<Rightarrow> 't \<Rightarrow> bool"
  assumes exclusive: "inv s \<Longrightarrow> in_cs s i \<Longrightarrow> in_cs s j \<Longrightarrow> i = j"
begin

lemma mutual_exclusion:
  "reach init step s \<Longrightarrow> in_cs s i \<Longrightarrow> in_cs s j \<Longrightarrow> i = j"
  using exclusive inv_reach by blast

end

end
