(* ===== verification/Xv6_Spinlock.thy ===== *)
theory Xv6_Spinlock
  imports Xv6_Prelude
begin

text \<open>
  Kernel spin locks (\<open>spinlock.c\<close>): the nested interrupt disabling of each CPU, the lock
  operations as one CPU runs them, and their interleaving on several CPUs as a step relation.
\<close>

section \<open>State\<close>

text \<open>
  The fields of \<open>struct cpu\<close> (\<open>proc.h\<close>) that the locks use, and the CPU's interrupt flag
  \<open>FL_IF\<close>; the fields of \<open>struct spinlock\<close> but the debugging ones (\<open>name\<close>, \<open>pcs\<close>). A lock's \<open>cpu\<close>
  pointer is the index of the CPU, \<open>None\<close> the null pointer.
\<close>

record cpu =
  ncli :: int
  intena :: bool
  fl_if :: bool

record spinlock =
  locked :: u32
  lcpu :: "nat option"

definition initlock :: spinlock where
  "initlock = \<lparr>locked = 0, lcpu = None\<rparr>"

section \<open>Operations of one CPU\<close>

definition xchg :: "u32 \<Rightarrow> u32 \<Rightarrow> u32 \<times> u32" where
  "xchg mem_val newval = (mem_val, newval)"

definition pushcli :: "cpu \<Rightarrow> cpu" where
  "pushcli c =
     (let eflags = fl_if c;
          c = c\<lparr>fl_if := False\<rparr>;
          c = (if ncli c = 0 then c\<lparr>intena := eflags\<rparr> else c)
      in c\<lparr>ncli := ncli c + 1\<rparr>)"

definition popcli :: "cpu \<Rightarrow> cpu res" where
  "popcli c =
     (if fl_if c then Inl (Panic ''popcli - interruptible'')
      else let c = c\<lparr>ncli := ncli c - 1\<rparr>
           in if ncli c < 0 then Inl (Panic ''popcli'')
              else Inr (if ncli c = 0 \<and> intena c then c\<lparr>fl_if := True\<rparr> else c))"

definition holding :: "nat \<Rightarrow> spinlock \<Rightarrow> cpu \<Rightarrow> (bool \<times> cpu) res" where
  "holding me lk c =
     (let c = pushcli c;
          r = (locked lk \<noteq> 0 \<and> lcpu lk = Some me)
      in bindR (popcli c) (\<lambda>c. Inr (r, c)))"

text \<open>
  \<open>acquire\<close> as one CPU runs it: when another CPU has the lock it spins, which is \<open>Blocked\<close> here;
  the step relation below has the spinning.
\<close>

definition acquire :: "nat \<Rightarrow> spinlock \<Rightarrow> cpu \<Rightarrow> (spinlock \<times> cpu) res" where
  "acquire me lk c =
     (let c = pushcli c
      in bindR (holding me lk c) (\<lambda>(h, c).
           if h then Inl (Panic ''acquire'')
           else let (old, new) = xchg (locked lk) 1
                in if old \<noteq> 0 then Inl (Blocked (''spin'', 0))
                   else Inr (lk\<lparr>locked := new, lcpu := Some me\<rparr>, c)))"

definition release :: "nat \<Rightarrow> spinlock \<Rightarrow> cpu \<Rightarrow> (spinlock \<times> cpu) res" where
  "release me lk c =
     bindR (holding me lk c) (\<lambda>(h, c).
       if \<not> h then Inl (Panic ''release'')
       else let lk = lk\<lparr>lcpu := None\<rparr>;
                lk = lk\<lparr>locked := 0\<rparr>
            in bindR (popcli c) (\<lambda>c. Inr (lk, c)))"

section \<open>Several CPUs and one lock\<close>

text \<open>
  Where a CPU is in the code of \<open>acquire\<close> and \<open>release\<close>. Each step is one access to the shared
  lock, in the order of the source; \<open>Panicked\<close> is the failure of any of the checks on the way.
\<close>

datatype spc = Outside | Spinning | Acquired | Critical | Clearing | Leaving | Panicked

record smp =
  smp_cpus :: "nat \<Rightarrow> cpu"
  smp_lk :: spinlock
  smp_pc :: "nat \<Rightarrow> spc"

definition set_pc :: "smp \<Rightarrow> nat \<Rightarrow> cpu \<Rightarrow> spc \<Rightarrow> smp" where
  "set_pc s i c p = s\<lparr>smp_cpus := (smp_cpus s)(i := c), smp_pc := (smp_pc s)(i := p)\<rparr>"

inductive spin_step :: "smp \<Rightarrow> smp \<Rightarrow> bool" where
  acquire_enter:
    "smp_pc s i = Outside \<Longrightarrow> holding i (smp_lk s) (pushcli (smp_cpus s i)) = Inr (h, c) \<Longrightarrow>
     spin_step s (set_pc s i c (if h then Panicked else Spinning))"
| acquire_fail:
    "smp_pc s i = Outside \<Longrightarrow> holding i (smp_lk s) (pushcli (smp_cpus s i)) = Inl e \<Longrightarrow>
     spin_step s (set_pc s i (smp_cpus s i) Panicked)"
| acquire_xchg:
    "smp_pc s i = Spinning \<Longrightarrow> xchg (locked (smp_lk s)) 1 = (old, new) \<Longrightarrow>
     spin_step s ((set_pc s i (smp_cpus s i) (if old \<noteq> 0 then Spinning else Acquired))
       \<lparr>smp_lk := (smp_lk s)\<lparr>locked := new\<rparr>\<rparr>)"
| acquire_record:
    "smp_pc s i = Acquired \<Longrightarrow>
     spin_step s ((set_pc s i (smp_cpus s i) Critical)\<lparr>smp_lk := (smp_lk s)\<lparr>lcpu := Some i\<rparr>\<rparr>)"
| release_enter:
    "smp_pc s i = Critical \<Longrightarrow> holding i (smp_lk s) (smp_cpus s i) = Inr (True, c) \<Longrightarrow>
     spin_step s ((set_pc s i c Clearing)\<lparr>smp_lk := (smp_lk s)\<lparr>lcpu := None\<rparr>\<rparr>)"
| release_fail:
    "smp_pc s i = Critical \<Longrightarrow> (\<forall>c. holding i (smp_lk s) (smp_cpus s i) \<noteq> Inr (True, c)) \<Longrightarrow>
     spin_step s (set_pc s i (smp_cpus s i) Panicked)"
| release_clear:
    "smp_pc s i = Clearing \<Longrightarrow>
     spin_step s ((set_pc s i (smp_cpus s i) Leaving)\<lparr>smp_lk := (smp_lk s)\<lparr>locked := 0\<rparr>\<rparr>)"
| release_pop:
    "smp_pc s i = Leaving \<Longrightarrow> popcli (smp_cpus s i) = Inr c \<Longrightarrow> spin_step s (set_pc s i c Outside)"
| release_pop_fail:
    "smp_pc s i = Leaving \<Longrightarrow> popcli (smp_cpus s i) = Inl e \<Longrightarrow>
     spin_step s (set_pc s i (smp_cpus s i) Panicked)"

text \<open>At the start the lock is as \<open>initlock\<close> left it and no CPU holds any lock.\<close>

definition spin_init :: "smp \<Rightarrow> bool" where
  "spin_init s \<longleftrightarrow> smp_lk s = initlock \<and> (\<forall>i. smp_pc s i = Outside \<and> ncli (smp_cpus s i) = 0)"

definition spin_cs :: "smp \<Rightarrow> nat \<Rightarrow> bool" where
  "spin_cs s i \<longleftrightarrow> smp_pc s i = Critical"

section \<open>Nesting of \<open>pushcli\<close> and \<open>popcli\<close>\<close>

text \<open>A CPU between kernel operations: a positive depth means interrupts are off.\<close>

definition cpu_ok :: "cpu \<Rightarrow> bool" where
  "cpu_ok c \<longleftrightarrow> 0 \<le> ncli c \<and> (0 < ncli c \<longrightarrow> \<not> fl_if c)"

lemma pushcli_simps [simp]:
  "ncli (pushcli c) = ncli c + 1" "fl_if (pushcli c) = False"
  by (simp_all add: pushcli_def Let_def)

lemma cpu_ok_pushcli [simp]: "cpu_ok c \<Longrightarrow> cpu_ok (pushcli c)"
  by (simp add: cpu_ok_def)

lemma popcli_pushcli:
  "cpu_ok c \<Longrightarrow> popcli (pushcli c) = Inr (if ncli c = 0 then c\<lparr>intena := fl_if c\<rparr> else c)"
  by (cases c) (auto simp: popcli_def pushcli_def cpu_ok_def Let_def)

lemma holding_eq:
  "0 < ncli c \<Longrightarrow> \<not> fl_if c \<Longrightarrow>
   holding me lk c = Inr (locked lk \<noteq> 0 \<and> lcpu lk = Some me, c)"
  by (simp add: holding_def popcli_pushcli cpu_ok_def)

fun popclis :: "nat \<Rightarrow> cpu \<Rightarrow> cpu res" where
  "popclis 0 c = Inr c"
| "popclis (Suc n) c = bindR (popcli c) (popclis n)"

lemma popclis_last: "popclis (Suc n) c = bindR (popclis n c) popcli"
proof (induction n arbitrary: c)
  case 0
  then show ?case by (cases "popcli c") auto
next
  case (Suc n)
  then show ?case by (cases "popcli c") (auto simp del: popclis.simps(2) simp: popclis.simps(2) [of _ c])
qed

lemma popclis_pushclis: "cpu_ok c \<Longrightarrow> 0 < ncli c \<Longrightarrow> popclis n ((pushcli ^^ n) c) = Inr c"
proof (induction n arbitrary: c)
  case (Suc n)
  have "popclis (Suc n) ((pushcli ^^ Suc n) c) = bindR (popclis n ((pushcli ^^ n) (pushcli c))) popcli"
    by (simp add: popclis_last funpow_swap1 del: popclis.simps)
  also have "\<dots> = popcli (pushcli c)" using Suc.IH [of "pushcli c"] Suc.prems by simp
  finally show ?case using Suc.prems by (simp add: popcli_pushcli)
qed simp

text \<open>
  any number \<open>n > 0\<close> of \<open>pushcli\<close> calls is undone by as many \<open>popcli\<close> calls: none of them
  panics, interrupts are off in between, and at the end the depth and the interrupt flag are
  what they were before.
\<close>

lemma pushcli_popcli_nest:
  assumes "cpu_ok c" "0 < n"
  shows "\<not> fl_if ((pushcli ^^ n) c) \<and>
    (\<exists>c'. popclis n ((pushcli ^^ n) c) = Inr c' \<and> ncli c' = ncli c \<and> fl_if c' = fl_if c)"
proof -
  obtain k where k: "n = Suc k" using assms(2) by (cases n) auto
  have "popclis n ((pushcli ^^ n) c) = bindR (popclis k ((pushcli ^^ k) (pushcli c))) popcli"
    by (simp add: k popclis_last funpow_swap1 del: popclis.simps)
  also have "\<dots> = popcli (pushcli c)"
    using popclis_pushclis [of "pushcli c" k] assms(1) by (simp add: cpu_ok_def)
  finally show ?thesis using assms(1) by (auto simp: k popcli_pushcli)
qed

lemma pushcli_popcli_nest_witness:
  "cpu_ok \<lparr>ncli = 0, intena = False, fl_if = True\<rparr> \<and> (0::nat) < 2 \<and>
   \<not> fl_if ((pushcli ^^ 2) \<lparr>ncli = 0, intena = False, fl_if = True\<rparr>) \<and>
   (\<exists>c'. popclis 2 ((pushcli ^^ 2) \<lparr>ncli = 0, intena = False, fl_if = True\<rparr>) = Inr c' \<and>
      ncli c' = 0 \<and> fl_if c')"
proof -
  have h: "cpu_ok \<lparr>ncli = 0, intena = False, fl_if = True\<rparr>" "(0::nat) < 2"
    by (simp_all add: cpu_ok_def)
  show ?thesis using h pushcli_popcli_nest [OF h] by simp
qed

section \<open>Mutual exclusion\<close>

fun owner_pc :: "spc \<Rightarrow> bool" where
  "owner_pc Acquired = True"
| "owner_pc Critical = True"
| "owner_pc Clearing = True"
| "owner_pc _ = False"

definition spin_inv :: "smp \<Rightarrow> bool" where
  "spin_inv s \<longleftrightarrow>
     (\<forall>i. smp_pc s i \<noteq> Panicked) \<and>
     (\<forall>i. if smp_pc s i = Outside then ncli (smp_cpus s i) = 0
          else ncli (smp_cpus s i) = 1 \<and> \<not> fl_if (smp_cpus s i)) \<and>
     (\<forall>i j. owner_pc (smp_pc s i) \<longrightarrow> owner_pc (smp_pc s j) \<longrightarrow> i = j) \<and>
     (locked (smp_lk s) \<noteq> 0 \<longleftrightarrow> (\<exists>i. owner_pc (smp_pc s i))) \<and>
     (\<forall>i. lcpu (smp_lk s) = Some i \<longleftrightarrow> smp_pc s i = Critical)"

lemma holding_enter:
  "ncli c = 0 \<Longrightarrow>
   holding me l (pushcli c) = Inr (locked l \<noteq> 0 \<and> lcpu l = Some me, pushcli c)"
  by (simp add: holding_eq)

lemma popcli_one: "ncli c = 1 \<Longrightarrow> \<not> fl_if c \<Longrightarrow> \<exists>c'. popcli c = Inr c' \<and> ncli c' = 0"
  by (simp add: popcli_def Let_def)

lemmas spin_simps = spin_inv_def set_pc_def holding_eq xchg_def

lemma spin_inv_init: "spin_init s \<Longrightarrow> spin_inv s"
  by (simp add: spin_init_def spin_inv_def initlock_def)

lemma spin_inv_step: "spin_step s t \<Longrightarrow> spin_inv s \<Longrightarrow> spin_inv t"
proof (induction rule: spin_step.induct)
  case (acquire_enter s i h c)
  then have "ncli (smp_cpus s i) = 0" "\<not> h" "c = pushcli (smp_cpus s i)"
    by (auto simp: spin_inv_def holding_enter dest!: spec [of _ i])
  then show ?case using acquire_enter by (simp add: spin_simps) (metis owner_pc.simps)
next
  case (acquire_fail s i e)
  then show ?case by (auto simp: spin_inv_def holding_enter dest!: spec [of _ i])
next
  case (acquire_xchg s i old new)
  then show ?case by (simp add: spin_simps) (metis owner_pc.simps)
next
  case (acquire_record s i)
  then show ?case by (simp add: spin_simps) (metis owner_pc.simps)
next
  case (release_enter s i c)
  then have "c = smp_cpus s i"
    by (auto simp: spin_inv_def holding_eq dest!: spec [of _ i])
  then show ?case using release_enter by (simp add: spin_simps) (metis owner_pc.simps)
next
  case (release_fail s i)
  then have "ncli (smp_cpus s i) = 1 \<and> \<not> fl_if (smp_cpus s i)" "lcpu (smp_lk s) = Some i"
    "locked (smp_lk s) \<noteq> 0"
    by (auto simp: spin_inv_def) (metis owner_pc.simps(2))
  then show ?case using release_fail.hyps by (simp add: holding_eq)
next
  case (release_clear s i)
  then show ?case by (simp add: spin_simps) (metis owner_pc.simps)
next
  case (release_pop s i c)
  then have "ncli c = 0"
    using popcli_one [of "smp_cpus s i"] by (auto simp: spin_inv_def dest!: spec [of _ i])
  then show ?case using release_pop by (simp add: spin_simps) (metis owner_pc.simps)
next
  case (release_pop_fail s i e)
  then show ?case
    using popcli_one [of "smp_cpus s i"] by (auto simp: spin_inv_def dest!: spec [of _ i])
qed

interpretation kspin: mutex spin_init spin_step spin_inv spin_cs
proof unfold_locales
  show "spin_inv s" if "spin_init s" for s using that by (rule spin_inv_init)
  show "spin_inv t" if "spin_inv s" "spin_step s t" for s t
    using that by (blast intro: spin_inv_step)
  show "i = j" if "spin_inv s" "spin_cs s i" "spin_cs s j" for s i j
    using that by (metis owner_pc.simps(2) spin_cs_def spin_inv_def)
qed

text \<open>
  C29: on any number of CPUs that use \<open>acquire\<close> and \<open>release\<close>, at most one is in the critical
  section, no check of \<open>acquire\<close>, \<open>release\<close>, \<open>holding\<close> or \<open>popcli\<close> panics, interrupts are off on
  every CPU that is anywhere between the two calls, and a taken lock has an owner.
\<close>

theorem spinlock_safety:
  assumes "reach spin_init spin_step s"
  shows "(\<forall>i j. spin_cs s i \<longrightarrow> spin_cs s j \<longrightarrow> i = j) \<and>
    (\<forall>i. smp_pc s i \<noteq> Panicked \<and> (smp_pc s i \<noteq> Outside \<longrightarrow> \<not> fl_if (smp_cpus s i))) \<and>
    (locked (smp_lk s) \<noteq> 0 \<longrightarrow> (\<exists>i. owner_pc (smp_pc s i)))"
proof -
  have "spin_inv s" using assms by (rule kspin.inv_reach)
  then have "\<forall>i. smp_pc s i \<noteq> Panicked \<and> (smp_pc s i \<noteq> Outside \<longrightarrow> \<not> fl_if (smp_cpus s i))"
    "locked (smp_lk s) \<noteq> 0 \<longrightarrow> (\<exists>i. owner_pc (smp_pc s i))"
    unfolding spin_inv_def by metis+
  then show ?thesis using kspin.mutual_exclusion [OF assms] by blast
qed

text \<open>The run of CPU 0 through \<open>acquire\<close>, from a state in which interrupts are on.\<close>

definition smp0 :: smp where
  "smp0 = \<lparr>smp_cpus = (\<lambda>_. \<lparr>ncli = 0, intena = False, fl_if = True\<rparr>), smp_lk = initlock,
           smp_pc = (\<lambda>_. Outside)\<rparr>"

lemma smp0_critical:
  "\<exists>s. reach spin_init spin_step s \<and> spin_cs s 0 \<and> locked (smp_lk s) = 1"
proof -
  let ?c = "pushcli (smp_cpus smp0 0)"
  let ?s1 = "set_pc smp0 0 ?c Spinning"
  let ?s2 = "(set_pc ?s1 0 (smp_cpus ?s1 0) Acquired)\<lparr>smp_lk := (smp_lk ?s1)\<lparr>locked := 1\<rparr>\<rparr>"
  let ?s3 = "(set_pc ?s2 0 (smp_cpus ?s2 0) Critical)\<lparr>smp_lk := (smp_lk ?s2)\<lparr>lcpu := Some 0\<rparr>\<rparr>"
  have "reach spin_init spin_step smp0"
    by (rule reach_init) (simp add: spin_init_def smp0_def)
  moreover have "spin_step smp0 ?s1"
    using spin_step.acquire_enter [of smp0 0 False ?c]
    by (simp add: smp0_def holding_enter initlock_def)
  moreover have "spin_step ?s1 ?s2"
    using spin_step.acquire_xchg [of ?s1 0 0 1] by (simp add: set_pc_def xchg_def smp0_def initlock_def)
  moreover have "spin_step ?s2 ?s3"
    using spin_step.acquire_record [of ?s2 0] by (simp add: set_pc_def)
  ultimately have "reach spin_init spin_step ?s3"
    by (meson reach_step)
  then show ?thesis by (intro exI [of _ ?s3]) (simp add: spin_cs_def set_pc_def)
qed

theorem spinlock_safety_witness:
  "\<exists>s. reach spin_init spin_step s \<and> spin_cs s 0 \<and> (\<forall>j. spin_cs s j \<longrightarrow> j = 0) \<and>
       \<not> fl_if (smp_cpus s 0)"
proof -
  obtain s where s: "reach spin_init spin_step s" "spin_cs s 0" using smp0_critical by blast
  with spinlock_safety [OF s(1)] show ?thesis by (intro exI [of _ s]) (auto simp: spin_cs_def)
qed

text \<open>The uninterrupted run of \<open>acquire\<close> and \<open>release\<close> is what the operations compute.\<close>

lemma acquire_release_uncontended:
  assumes "cpu_ok c" "locked l = 0"
  shows "\<exists>l' c'. acquire me l c = Inr (l', c') \<and> locked l' = 1 \<and> lcpu l' = Some me \<and>
    (\<exists>c''. release me l' c' = Inr (l\<lparr>locked := 0, lcpu := None\<rparr>, c'') \<and> ncli c'' = ncli c \<and>
           fl_if c'' = fl_if c)"
  using assms popcli_pushcli [OF assms(1)]
  by (auto simp: acquire_def release_def holding_eq cpu_ok_def xchg_def Let_def)

end
