(* ===== verification/Xv6_Libthread.thy ===== *)
theory Xv6_Libthread
  imports Xv6_Prelude
begin

text \<open>
  The other parts of the thread library (\<open>libthread.c\<close>): the stack that \<open>thread_create\<close> prepares
  for a new thread, the spin lock \<open>lock_t\<close> and the sequence lock \<open>seqlock_t\<close>, the last two as threads
  interleave on them, one access to shared memory per step.
\<close>

section \<open>Thread creation\<close>

text \<open>
  The words pushed on the new stack, from \<open>stack + 4096\<close> downwards; the system call \<open>clone\<close> gets
  the stack and what is left of its size. The addresses of the two library functions are parameters.
\<close>

definition push32 :: "mem \<times> u32 \<Rightarrow> u32 \<Rightarrow> mem \<times> u32" where
  "push32 ms v = (case ms of (m, sp) \<Rightarrow> (store32 m (sp - 4) v, sp - 4))"

definition thread_create :: "u32 \<Rightarrow> u32 \<Rightarrow> mem \<Rightarrow> u32 \<Rightarrow> u32 \<Rightarrow> u32 \<Rightarrow> mem \<times> u32 \<times> u32" where
  "thread_create thread_panic thread_routine m stack start_routine arg =
     (let sz = 4096 :: u32;
          (m, endstack) = fold (\<lambda>v ms. push32 ms v)
             [stack, arg, start_routine, thread_panic, thread_routine] (m, stack + sz)
      in (m, stack, sz - 4 * 5))"

section \<open>The spin lock\<close>

datatype lpc = L_out | L_spin | L_crit

record ulock =
  l_lock :: u32
  l_pc :: "nat \<Rightarrow> lpc"

definition lock_init :: "ulock \<Rightarrow> bool" where
  "lock_init s \<longleftrightarrow> l_lock s = 0 \<and> (\<forall>i. l_pc s i = L_out)"

inductive lock_acquire :: "nat \<Rightarrow> ulock \<Rightarrow> ulock \<Rightarrow> bool" where
  call: "l_pc s i = L_out \<Longrightarrow> lock_acquire i s (s\<lparr>l_pc := (l_pc s)(i := L_spin)\<rparr>)"
| exchange: "l_pc s i = L_spin \<Longrightarrow>
    lock_acquire i s (s\<lparr>l_lock := 1, l_pc := (l_pc s)(i := if l_lock s \<noteq> 0 then L_spin else L_crit)\<rparr>)"

inductive lock_release :: "nat \<Rightarrow> ulock \<Rightarrow> ulock \<Rightarrow> bool" where
  exchange: "l_pc s i = L_crit \<Longrightarrow> lock_release i s (s\<lparr>l_lock := 0, l_pc := (l_pc s)(i := L_out)\<rparr>)"

definition lock_step :: "ulock \<Rightarrow> ulock \<Rightarrow> bool" where
  "lock_step s t \<longleftrightarrow> (\<exists>i. lock_acquire i s t \<or> lock_release i s t)"

definition lock_cs :: "ulock \<Rightarrow> nat \<Rightarrow> bool" where
  "lock_cs s i \<longleftrightarrow> l_pc s i = L_crit"

definition lock_inv :: "ulock \<Rightarrow> bool" where
  "lock_inv s \<longleftrightarrow> (\<forall>i. lock_cs s i \<longrightarrow> l_lock s \<noteq> 0 \<and> (\<forall>j. lock_cs s j \<longrightarrow> i = j))"

lemma lock_inv_acquire: "lock_acquire i s t \<Longrightarrow> lock_inv s \<Longrightarrow> lock_inv t"
  by (erule lock_acquire.cases) (auto simp: lock_inv_def lock_cs_def split: if_splits)

lemma lock_inv_release: "lock_release i s t \<Longrightarrow> lock_inv s \<Longrightarrow> lock_inv t"
  by (erule lock_release.cases) (auto simp: lock_inv_def lock_cs_def split: if_splits)

interpretation ulk: mutex lock_init lock_step lock_inv lock_cs
  by unfold_locales
    (auto simp: lock_init_def lock_step_def lock_inv_def lock_cs_def
       dest: lock_inv_acquire lock_inv_release [unfolded lock_inv_def lock_cs_def])

section \<open>The sequence lock\<close>

text \<open>
  Threads read and write one word \<open>*mem\<close> under a sequence lock. A reader's locals are \<open>seqi\<close> and
  \<open>retval\<close>, a writer's its argument \<open>val\<close>. Two counters that the code does not have, \<open>v_count\<close> (the
  increments of \<open>seq\<close>) and \<open>v_read\<close> (that counter when the reader read \<open>seqi\<close>), say when the 32-bit
  \<open>seq\<close> has come round between a reader's two looks at it.
\<close>

datatype vpc =
    V_out         \<comment> \<open>outside both calls\<close>
  | V_seqi        \<comment> \<open>\<open>seqi = lk->seq\<close>\<close>
  | V_val         \<comment> \<open>\<open>retval = *mem\<close>\<close>
  | V_seqf        \<comment> \<open>\<open>seqf = lk->seq\<close> and the test\<close>
  | V_lock        \<comment> \<open>\<open>while (xchg(&lk->splk, 1) != 0)\<close>\<close>
  | V_enter       \<comment> \<open>the first \<open>lk->seq++\<close>\<close>
  | V_store       \<comment> \<open>\<open>*mem = val\<close>\<close>
  | V_leave       \<comment> \<open>the second \<open>lk->seq++\<close>\<close>
  | V_unlock      \<comment> \<open>\<open>xchg(&lk->splk, 0)\<close>\<close>

record seqlk =
  v_seq :: u32
  v_splk :: u32
  v_mem :: u32
  v_pc :: "nat \<Rightarrow> vpc"
  v_seqi :: "nat \<Rightarrow> u32"
  v_retval :: "nat \<Rightarrow> u32"
  v_arg :: "nat \<Rightarrow> u32"
  v_count :: nat
  v_read :: "nat \<Rightarrow> nat"

definition seqlock_init :: "seqlk \<Rightarrow> bool" where
  "seqlock_init s \<longleftrightarrow> v_seq s = 0 \<and> v_splk s = 0 \<and> (\<forall>i. v_pc s i = V_out) \<and> v_count s = 0"

abbreviation vat :: "seqlk \<Rightarrow> nat \<Rightarrow> vpc \<Rightarrow> seqlk" where
  "vat s i p \<equiv> s\<lparr>v_pc := (v_pc s)(i := p)\<rparr>"

inductive seqlock_read :: "nat \<Rightarrow> seqlk \<Rightarrow> seqlk \<Rightarrow> bool" where
  call: "v_pc s i = V_out \<Longrightarrow> seqlock_read i s (vat s i V_seqi)"
| seqi: "v_pc s i = V_seqi \<Longrightarrow>
    seqlock_read i s (vat (s\<lparr>v_seqi := (v_seqi s)(i := v_seq s), v_read := (v_read s)(i := v_count s)\<rparr>) i V_val)"
| val: "v_pc s i = V_val \<Longrightarrow>
    seqlock_read i s (vat (s\<lparr>v_retval := (v_retval s)(i := v_mem s)\<rparr>) i V_seqf)"
| seqf: "v_pc s i = V_seqf \<Longrightarrow>
    seqlock_read i s (vat s i (if v_seqi s i \<noteq> v_seq s \<or> odd (unat (v_seqi s i)) then V_seqi else V_out))"

inductive seqlock_write :: "nat \<Rightarrow> seqlk \<Rightarrow> seqlk \<Rightarrow> bool" where
  call: "v_pc s i = V_out \<Longrightarrow> seqlock_write i s (vat (s\<lparr>v_arg := (v_arg s)(i := x)\<rparr>) i V_lock)"
| lock: "v_pc s i = V_lock \<Longrightarrow>
    seqlock_write i s (vat (s\<lparr>v_splk := 1\<rparr>) i (if v_splk s \<noteq> 0 then V_lock else V_enter))"
| enter: "v_pc s i = V_enter \<Longrightarrow>
    seqlock_write i s (vat (s\<lparr>v_seq := v_seq s + 1, v_count := v_count s + 1\<rparr>) i V_store)"
| assign: "v_pc s i = V_store \<Longrightarrow> seqlock_write i s (vat (s\<lparr>v_mem := v_arg s i\<rparr>) i V_leave)"
| leave: "v_pc s i = V_leave \<Longrightarrow>
    seqlock_write i s (vat (s\<lparr>v_seq := v_seq s + 1, v_count := v_count s + 1\<rparr>) i V_unlock)"
| unlock: "v_pc s i = V_unlock \<Longrightarrow> seqlock_write i s (vat (s\<lparr>v_splk := 0\<rparr>) i V_out)"

definition seq_step :: "seqlk \<Rightarrow> seqlk \<Rightarrow> bool" where
  "seq_step s t \<longleftrightarrow> (\<exists>i. seqlock_read i s t \<or> seqlock_write i s t)"

fun holds_splk :: "vpc \<Rightarrow> bool" where
  "holds_splk V_enter = True"
| "holds_splk V_store = True"
| "holds_splk V_leave = True"
| "holds_splk V_unlock = True"
| "holds_splk _ = False"

text \<open>Writers exclude each other; \<open>seq\<close> is odd while one is between its increments and even otherwise.\<close>

definition seq_writers_ok :: "seqlk \<Rightarrow> bool" where
  "seq_writers_ok s \<longleftrightarrow>
     v_seq s = of_nat (v_count s) \<and>
     (\<forall>i. holds_splk (v_pc s i) \<longrightarrow> v_splk s \<noteq> 0 \<and> (\<forall>j. holds_splk (v_pc s j) \<longrightarrow> i = j)) \<and>
     (v_splk s = 0 \<longrightarrow> even (v_count s)) \<and>
     (\<forall>i. (v_pc s i = V_store \<or> v_pc s i = V_leave \<longrightarrow> odd (v_count s)) \<and>
          (v_pc s i = V_enter \<or> v_pc s i = V_unlock \<longrightarrow> even (v_count s)))"

text \<open>What a reader has read is still there unless a writer has been or is at work since.\<close>

definition seq_readers_ok :: "seqlk \<Rightarrow> bool" where
  "seq_readers_ok s \<longleftrightarrow>
     (\<forall>i. v_pc s i \<in> {V_val, V_seqf} \<longrightarrow> v_read s i \<le> v_count s \<and> v_seqi s i = of_nat (v_read s i)) \<and>
     (\<forall>i. v_pc s i = V_seqf \<and> v_read s i = v_count s \<and> even (v_count s) \<longrightarrow> v_retval s i = v_mem s)"

definition seq_inv :: "seqlk \<Rightarrow> bool" where
  "seq_inv s \<longleftrightarrow> seq_writers_ok s \<and> seq_readers_ok s"

lemma seq_writers_ok_read: "seqlock_read i s t \<Longrightarrow> seq_writers_ok s \<Longrightarrow> seq_writers_ok t"
  by (erule seqlock_read.cases) (auto simp: seq_writers_ok_def split: if_splits)

lemma seq_writers_ok_write:
  assumes "seqlock_write i s t" "seq_writers_ok s"
  shows "seq_writers_ok t"
proof -
  have "holds_splk (v_pc s i) \<Longrightarrow> v_splk s \<noteq> 0" using assms(2) by (simp add: seq_writers_ok_def)
  with assms(1) show ?thesis
    using assms(2) by (cases rule: seqlock_write.cases) (auto simp: seq_writers_ok_def split: if_splits)
qed

lemma seq_readers_ok_read:
  assumes "seqlock_read i s t" "seq_readers_ok s" "seq_writers_ok s"
  shows "seq_readers_ok t"
  using assms by (cases rule: seqlock_read.cases) (auto simp: seq_readers_ok_def seq_writers_ok_def)

lemma seq_readers_ok_write:
  assumes "seqlock_write i s t" "seq_readers_ok s" "seq_writers_ok s"
  shows "seq_readers_ok t"
proof -
  have "v_pc s i = V_store \<Longrightarrow> odd (v_count s)" using assms(3) unfolding seq_writers_ok_def by blast
  with assms(1) show ?thesis
    using assms(2) by (cases rule: seqlock_write.cases) (auto simp: seq_readers_ok_def le_Suc_eq)
qed

interpretation seql: invariant_system seqlock_init seq_step seq_inv
proof unfold_locales
  show "seq_inv s" if "seqlock_init s" for s
    using that by (simp add: seqlock_init_def seq_inv_def seq_writers_ok_def seq_readers_ok_def)
  show "seq_inv t" if "seq_inv s" "seq_step s t" for s t
    using that seq_writers_ok_read seq_writers_ok_write seq_readers_ok_read seq_readers_ok_write
    unfolding seq_step_def seq_inv_def by blast
qed

lemma even_unat_of_nat: "even (unat (of_nat n :: u32)) \<longleftrightarrow> even n"
  by (simp add: unat_of_nat dvd_mod_iff)

text \<open>A reader that passes the test of \<open>seqlock_read\<close> saw \<open>seq\<close> unchanged, and even.\<close>

lemma seqlock_read_returns:
  assumes "seqlock_read i s t" "v_pc t i = V_out"
  shows "v_pc s i = V_seqf" "v_seqi s i = v_seq s" "even (unat (v_seqi s i))" "t = vat s i V_out"
  using assms by (auto elim!: seqlock_read.cases split: if_splits)

text \<open>
  C34: the guarantee of the sequence lock. When \<open>seqlock_read\<close> returns, in any interleaving with other readers and with writers, the
  value it returns is the one that \<open>*mem\<close> holds at that moment, and no writer is between its two increments of \<open>seq\<close>. The condition is that
  \<open>seq\<close>, a 32-bit counter, has not been incremented \<open>2 ^ 32\<close> times or more since the reader's last look at it before it read \<open>*mem\<close>.
\<close>

theorem seqlock_read_consistent:
  assumes "reach seqlock_init seq_step s" "seqlock_read i s t" "v_pc t i = V_out" "v_count s - v_read s i < 2 ^ 32"
  shows "v_retval t i = v_mem t \<and> (\<forall>j. v_pc t j \<noteq> V_store \<and> v_pc t j \<noteq> V_leave)"
proof -
  note ret = seqlock_read_returns [OF assms(2,3)]
  have inv: "seq_writers_ok s" "seq_readers_ok s"
    using seql.inv_reach [OF assms(1)] unfolding seq_inv_def by simp_all
  have r: "v_read s i \<le> v_count s" "v_seqi s i = of_nat (v_read s i)" "v_seq s = of_nat (v_count s)"
    using inv ret(1) unfolding seq_readers_ok_def seq_writers_ok_def by simp_all
  then have "(of_nat (v_read s i) :: u32) = of_nat (v_count s)" using ret(2) by simp
  then have "v_count s mod 2 ^ 32 = v_read s i mod 2 ^ 32"
    by (simp add: word_unat_eq_iff unat_of_nat)
  then have "2 ^ 32 dvd v_count s - v_read s i" using r(1) by (simp add: mod_eq_dvd_iff_nat)
  then have "v_read s i = v_count s" using assms(4) r(1) by (auto dest: dvd_imp_le)
  moreover from this have "even (v_count s)" using ret(3) r(2) even_unat_of_nat by metis
  ultimately have "v_retval s i = v_mem s" "\<forall>j. v_pc s j \<noteq> V_store \<and> v_pc s j \<noteq> V_leave"
    using inv ret(1) unfolding seq_readers_ok_def seq_writers_ok_def by blast+
  then show ?thesis by (simp add: ret(4))
qed

text \<open>The next step of thread \<open>i\<close>; a thread outside of both calls writes \<open>x\<close> if \<open>x\<close> is given and reads otherwise.\<close>

definition seq_exec :: "nat \<times> u32 option \<Rightarrow> seqlk \<Rightarrow> seqlk" where
  "seq_exec a s =
     (let i = fst a
      in case v_pc s i of
           V_out \<Rightarrow> (case snd a of None \<Rightarrow> vat s i V_seqi | Some x \<Rightarrow> vat (s\<lparr>v_arg := (v_arg s)(i := x)\<rparr>) i V_lock)
         | V_seqi \<Rightarrow> vat (s\<lparr>v_seqi := (v_seqi s)(i := v_seq s), v_read := (v_read s)(i := v_count s)\<rparr>) i V_val
         | V_val \<Rightarrow> vat (s\<lparr>v_retval := (v_retval s)(i := v_mem s)\<rparr>) i V_seqf
         | V_seqf \<Rightarrow> vat s i (if v_seqi s i \<noteq> v_seq s \<or> odd (unat (v_seqi s i)) then V_seqi else V_out)
         | V_lock \<Rightarrow> vat (s\<lparr>v_splk := 1\<rparr>) i (if v_splk s \<noteq> 0 then V_lock else V_enter)
         | V_enter \<Rightarrow> vat (s\<lparr>v_seq := v_seq s + 1, v_count := v_count s + 1\<rparr>) i V_store
         | V_store \<Rightarrow> vat (s\<lparr>v_mem := v_arg s i\<rparr>) i V_leave
         | V_leave \<Rightarrow> vat (s\<lparr>v_seq := v_seq s + 1, v_count := v_count s + 1\<rparr>) i V_unlock
         | V_unlock \<Rightarrow> vat (s\<lparr>v_splk := 0\<rparr>) i V_out)"

lemma seq_exec_step: "seq_step s (seq_exec a s)"
proof -
  have "seqlock_read (fst a) s (seq_exec a s) \<or> seqlock_write (fst a) s (seq_exec a s)"
    by (cases "v_pc s (fst a)"; cases "snd a")
      (use seqlock_read.intros [of s "fst a"] seqlock_write.intros [of s "fst a"] in \<open>simp_all add: seq_exec_def Let_def\<close>)
  then show ?thesis unfolding seq_step_def by blast
qed

lemma seq_exec_reach: "reach seqlock_init seq_step s \<Longrightarrow> reach seqlock_init seq_step (fold seq_exec as s)"
  by (induction as arbitrary: s) (auto intro: reach_step seq_exec_step)

definition seq0 :: seqlk where
  "seq0 = \<lparr>v_seq = 0, v_splk = 0, v_mem = 7, v_pc = (\<lambda>_. V_out), v_seqi = (\<lambda>_. 0), v_retval = (\<lambda>_. 0),
           v_arg = (\<lambda>_. 0), v_count = 0, v_read = (\<lambda>_. 0)\<rparr>"

text \<open>
  Thread 1 writes 9 in place of 7. Thread 0 reads after the first increment and before the store, so it finds \<open>seq\<close> odd and tries again; when the
  writer is through, it returns the 9.
\<close>

definition seq_sched :: "(nat \<times> u32 option) list" where
  "seq_sched = map (Pair 1) [Some 9, None, None] @ map (Pair 0) [None, None, None, None] @ map (Pair 1) [None, None, None] @ map (Pair 0) [None, None]"

theorem seqlock_read_consistent_witness:
  "let a = fold seq_exec (take 7 seq_sched) seq0; s = fold seq_exec seq_sched seq0; t = seq_exec (0, None) s
   in v_pc a 0 = V_seqi \<and> v_retval a 0 = 7 \<and>
      reach seqlock_init seq_step s \<and> seqlock_read 0 s t \<and> v_pc t 0 = V_out \<and> v_retval t 0 = v_mem t \<and> v_mem t = 9"
proof -
  let ?s = "fold seq_exec seq_sched seq0" and ?t = "seq_exec (0, None) (fold seq_exec seq_sched seq0)"
  have "reach seqlock_init seq_step seq0" by (rule reach_init) (simp add: seqlock_init_def seq0_def)
  then have r: "reach seqlock_init seq_step ?s" by (rule seq_exec_reach)
  have s: "v_pc ?s 0 = V_seqf" "v_count ?s - v_read ?s 0 < 2 ^ 32" "v_pc ?t 0 = V_out" "v_mem ?t = 9"
    by (simp_all add: seq_sched_def seq_exec_def seq0_def)
  then have step: "seqlock_read 0 ?s ?t" using seqlock_read.seqf [of ?s 0] by (simp add: seq_exec_def)
  have "v_pc (fold seq_exec (take 7 seq_sched) seq0) 0 = V_seqi" "v_retval (fold seq_exec (take 7 seq_sched) seq0) 0 = 7"
    by (simp_all add: seq_sched_def seq_exec_def seq0_def)
  then show ?thesis using seqlock_read_consistent [OF r step s(3,2)] r step s by (simp add: Let_def)
qed

text \<open>
  mutual exclusion of the thread library's spin lock: no reachable state has two threads between
  \<open>lock_acquire\<close> and \<open>lock_release\<close>.
\<close>

lemma lock_mutual_exclusion:
  assumes "reach lock_init lock_step s" "lock_cs s i" "lock_cs s j"
  shows "i = j"
  using ulk.mutual_exclusion [OF assms] .

definition lock0 :: ulock where
  "lock0 = \<lparr>l_lock = 0, l_pc = (\<lambda>_. L_out)\<rparr>"

lemma lock_mutual_exclusion_witness:
  "\<exists>s. reach lock_init lock_step s \<and> lock_cs s 0 \<and> l_pc s 1 = L_spin \<and> (\<forall>j. lock_cs s j \<longrightarrow> j = 0)"
proof -
  let ?a = "lock0\<lparr>l_pc := (l_pc lock0)(0 := L_spin)\<rparr>"
  let ?b = "\<lparr>l_lock = 1, l_pc = (\<lambda>_. L_out)(0 := L_crit)\<rparr>"
  let ?c = "?b\<lparr>l_pc := (l_pc ?b)(1 := L_spin)\<rparr>"
  have "reach lock_init lock_step lock0" by (rule reach_init) (simp add: lock_init_def lock0_def)
  moreover have "lock_step lock0 ?a"
    using lock_acquire.call [of lock0 0] unfolding lock_step_def
    by (intro exI [of _ 0] disjI1) (simp add: lock0_def)
  moreover have "lock_step ?a ?b"
    using lock_acquire.exchange [of ?a 0] unfolding lock_step_def
    by (intro exI [of _ 0] disjI1) (simp add: lock0_def)
  moreover have "lock_step ?b ?c"
    using lock_acquire.call [of ?b 1] unfolding lock_step_def by (intro exI [of _ 1] disjI1) simp
  ultimately have r: "reach lock_init lock_step ?c" by (meson reach_step)
  moreover have "lock_cs ?c 0" by (simp add: lock_cs_def)
  ultimately show ?thesis using lock_mutual_exclusion [OF r] by (intro exI [of _ ?c]) auto
qed

text \<open>
  the stack that \<open>thread_create\<close> hands to \<open>clone\<close>: execution resumes \<open>4096 - 20\<close> bytes into it,
  where the words are, in order, the entry point \<open>thread_routine\<close>, its return address
  \<open>thread_panic\<close>, and its three arguments, the routine, the routine's argument and the stack itself.
\<close>

lemma thread_create_stack:
  "\<exists>m'. thread_create panic_fn entry m stack f arg = (m', stack, 4076) \<and>
     map (\<lambda>k. load32 m' (stack + 4076 + of_nat (4 * k))) [0..<5] = [entry, panic_fn, f, arg, stack]"
  using bytes_join [unfolded One_nat_def]
  by (simp add: thread_create_def push32_def upt_rec load32_def store32_def)

end
