(* ===== verification/Xv6_Mcslock.thy ===== *)
theory Xv6_Mcslock
  imports Xv6_Prelude
begin

text \<open>
  The MCS queue lock of the thread library (\<open>libthread.c\<close>), as threads interleave on it. Every
  thread has one queue node of its own (\<open>qnode\<close>, on its stack), so a node is named by its thread;
  \<open>None\<close> is the null pointer. Every step is one access to shared memory.
\<close>

datatype mpc =
    M_out                    \<comment> \<open>outside both calls\<close>
  | M_clear_next             \<comment> \<open>\<open>qnode->next = NULL\<close>\<close>
  | M_clear_spin             \<comment> \<open>\<open>qnode->spin = 0\<close>\<close>
  | M_swap                   \<comment> \<open>\<open>tail = xchg(&lk->next, qnode)\<close>\<close>
  | M_link                   \<comment> \<open>\<open>tail->next = qnode\<close>\<close>
  | M_wait                   \<comment> \<open>\<open>while (!qnode->spin)\<close>\<close>
  | M_crit                   \<comment> \<open>the caller's critical section\<close>
  | M_test_next              \<comment> \<open>\<open>if (!qnode->next)\<close>\<close>
  | M_lock_spin              \<comment> \<open>\<open>while (xchg(&lk->spin, 1) != 0)\<close>\<close>
  | M_read_tail              \<comment> \<open>\<open>t = lk->next\<close>\<close>
  | M_clear_tail             \<comment> \<open>\<open>if (t == qnode) lk->next = NULL\<close>\<close>
  | M_unlock_spin            \<comment> \<open>\<open>xchg(&lk->spin, 0)\<close>\<close>
  | M_wait_succ              \<comment> \<open>\<open>while (!qnode->next)\<close>\<close>
  | M_read_succ              \<comment> \<open>the read of \<open>qnode->next\<close> in \<open>qnode->next->spin = 1\<close>\<close>
  | M_wake nat               \<comment> \<open>its write\<close>
  | M_fault                  \<comment> \<open>a null pointer was followed\<close>

record mcs =
  lk_next :: "nat option"
  lk_spin :: u32
  q_next :: "nat \<Rightarrow> nat option"
  q_spin :: "nat \<Rightarrow> u32"
  m_pc :: "nat \<Rightarrow> mpc"
  m_tail :: "nat \<Rightarrow> nat option"
  m_t :: "nat \<Rightarrow> nat option"

text \<open>\<open>mcslock_init\<close>; the queue nodes are uninitialised stack memory, so they hold anything.\<close>

definition mcs_init :: "mcs \<Rightarrow> bool" where
  "mcs_init s \<longleftrightarrow> lk_next s = None \<and> lk_spin s = 0 \<and> (\<forall>i. m_pc s i = M_out)"

abbreviation goto :: "mcs \<Rightarrow> nat \<Rightarrow> mpc \<Rightarrow> mcs" where
  "goto s i p \<equiv> s\<lparr>m_pc := (m_pc s)(i := p)\<rparr>"

inductive mcs_acquire_step :: "nat \<Rightarrow> mcs \<Rightarrow> mcs \<Rightarrow> bool" where
  call: "m_pc s i = M_out \<Longrightarrow> mcs_acquire_step i s (goto s i M_clear_next)"
| clear_next: "m_pc s i = M_clear_next \<Longrightarrow>
    mcs_acquire_step i s (goto (s\<lparr>q_next := (q_next s)(i := None)\<rparr>) i M_clear_spin)"
| clear_spin: "m_pc s i = M_clear_spin \<Longrightarrow>
    mcs_acquire_step i s (goto (s\<lparr>q_spin := (q_spin s)(i := 0)\<rparr>) i M_swap)"
| swap: "m_pc s i = M_swap \<Longrightarrow>
    mcs_acquire_step i s
      (goto (s\<lparr>lk_next := Some i, m_tail := (m_tail s)(i := lk_next s)\<rparr>) i
         (if lk_next s = None then M_crit else M_link))"
| link: "m_pc s i = M_link \<Longrightarrow> m_tail s i = Some j \<Longrightarrow>
    mcs_acquire_step i s (goto (s\<lparr>q_next := (q_next s)(j := Some i)\<rparr>) i M_wait)"
| wait: "m_pc s i = M_wait \<Longrightarrow>
    mcs_acquire_step i s (goto s i (if q_spin s i = 0 then M_wait else M_crit))"

inductive mcs_release_step :: "nat \<Rightarrow> mcs \<Rightarrow> mcs \<Rightarrow> bool" where
  call: "m_pc s i = M_crit \<Longrightarrow> mcs_release_step i s (goto s i M_test_next)"
| test_next: "m_pc s i = M_test_next \<Longrightarrow>
    mcs_release_step i s (goto s i (if q_next s i = None then M_lock_spin else M_read_succ))"
| lock_spin: "m_pc s i = M_lock_spin \<Longrightarrow>
    mcs_release_step i s
      (goto (s\<lparr>lk_spin := 1\<rparr>) i (if lk_spin s \<noteq> 0 then M_lock_spin else M_read_tail))"
| read_tail: "m_pc s i = M_read_tail \<Longrightarrow>
    mcs_release_step i s
      (goto (s\<lparr>m_t := (m_t s)(i := lk_next s)\<rparr>) i
         (if lk_next s = Some i then M_clear_tail else M_unlock_spin))"
| clear_tail: "m_pc s i = M_clear_tail \<Longrightarrow>
    mcs_release_step i s (goto (s\<lparr>lk_next := None\<rparr>) i M_unlock_spin)"
| unlock_spin: "m_pc s i = M_unlock_spin \<Longrightarrow>
    mcs_release_step i s
      (goto (s\<lparr>lk_spin := 0\<rparr>) i (if m_t s i = Some i then M_out else M_wait_succ))"
| wait_succ: "m_pc s i = M_wait_succ \<Longrightarrow>
    mcs_release_step i s (goto s i (if q_next s i = None then M_wait_succ else M_read_succ))"
| read_succ: "m_pc s i = M_read_succ \<Longrightarrow>
    mcs_release_step i s
      (goto s i (case q_next s i of None \<Rightarrow> M_fault | Some j \<Rightarrow> M_wake j))"
| wake: "m_pc s i = M_wake j \<Longrightarrow>
    mcs_release_step i s (goto (s\<lparr>q_spin := (q_spin s)(j := 1)\<rparr>) i M_out)"

definition mcs_step :: "mcs \<Rightarrow> mcs \<Rightarrow> bool" where
  "mcs_step s t \<longleftrightarrow> (\<exists>i. mcs_acquire_step i s t \<or> mcs_release_step i s t)"

definition mcs_cs :: "mcs \<Rightarrow> nat \<Rightarrow> bool" where
  "mcs_cs s i \<longleftrightarrow> m_pc s i = M_crit"

section \<open>Mutual exclusion\<close>

text \<open>
  The right to the critical section is a token. A thread has it inside the section and in
  \<open>mcslock_release\<close> until it gives it up, by clearing \<open>lk->next\<close> or by waking a successor; a
  thread in the queue has it once its \<open>spin\<close> was set. A free lock has the token itself.
\<close>

fun owns_at :: "mpc \<Rightarrow> bool \<Rightarrow> bool \<Rightarrow> bool" where
  "owns_at M_crit spin self = True"
| "owns_at M_test_next spin self = True"
| "owns_at M_lock_spin spin self = True"
| "owns_at M_read_tail spin self = True"
| "owns_at M_clear_tail spin self = True"
| "owns_at M_wait_succ spin self = True"
| "owns_at M_read_succ spin self = True"
| "owns_at (M_wake j) spin self = True"
| "owns_at M_unlock_spin spin self = (\<not> self)"
| "owns_at M_swap spin self = spin"
| "owns_at M_link spin self = spin"
| "owns_at M_wait spin self = spin"
| "owns_at _ spin self = False"

definition mcs_owns :: "mcs \<Rightarrow> nat \<Rightarrow> bool" where
  "mcs_owns s i \<longleftrightarrow> owns_at (m_pc s i) (q_spin s i \<noteq> 0) (m_t s i = Some i)"

definition mcs_inv :: "mcs \<Rightarrow> bool" where
  "mcs_inv s \<longleftrightarrow>
     (\<forall>i j. mcs_owns s i \<longrightarrow> mcs_owns s j \<longrightarrow> i = j) \<and>
     (\<forall>i. mcs_owns s i \<longrightarrow> lk_next s \<noteq> None) \<and>
     (\<forall>i. m_pc s i = M_clear_tail \<longrightarrow> m_t s i = Some i) \<and>
     (\<forall>i. m_pc s i = M_read_succ \<longrightarrow> q_next s i \<noteq> None) \<and>
     (\<forall>i. m_pc s i = M_link \<longrightarrow> m_tail s i \<noteq> None) \<and>
     (\<forall>i. m_pc s i \<noteq> M_fault)"

lemma mcs_inv_init: "mcs_init s \<Longrightarrow> mcs_inv s"
  by (simp add: mcs_init_def mcs_inv_def mcs_owns_def)

text \<open>What a step of thread \<open>i\<close> may do without breaking the invariant.\<close>

lemma mcs_inv_local:
  assumes inv: "mcs_inv s"
    and other: "\<And>j. j \<noteq> i \<Longrightarrow> m_pc t j = m_pc s j \<and> m_t t j = m_t s j \<and> m_tail t j = m_tail s j \<and>
      q_spin t j = q_spin s j"
    and succ: "\<And>j. j \<noteq> i \<Longrightarrow> q_next s j \<noteq> None \<Longrightarrow> q_next t j \<noteq> None"
    and own: "mcs_owns t i \<Longrightarrow> mcs_owns s i \<or> lk_next s = None \<and> lk_next t \<noteq> None"
    and free: "lk_next t = None \<Longrightarrow> lk_next s = None \<or> mcs_owns s i \<and> \<not> mcs_owns t i"
    and own_pc: "m_pc t i = M_clear_tail \<Longrightarrow> m_t t i = Some i"
      "m_pc t i = M_read_succ \<Longrightarrow> q_next t i \<noteq> None"
      "m_pc t i = M_link \<Longrightarrow> m_tail t i \<noteq> None" "m_pc t i \<noteq> M_fault"
  shows "mcs_inv t"
proof -
  have same: "mcs_owns t j = mcs_owns s j" if "j \<noteq> i" for j
    using other [OF that] by (simp add: mcs_owns_def)
  have uniq: "j = k" if "mcs_owns s j" "mcs_owns s k" for j k
    using inv that unfolding mcs_inv_def by blast
  have busy: "lk_next s \<noteq> None" if "mcs_owns s j" for j
    using inv that unfolding mcs_inv_def by blast
  have "j = k" if "mcs_owns t j" "mcs_owns t k" for j k
    using that same [of j] same [of k] own uniq busy by metis
  moreover have "lk_next t \<noteq> None" if "mcs_owns t j" for j
    using that same [of j] own free uniq busy by metis
  moreover have "(m_pc t j = M_clear_tail \<longrightarrow> m_t t j = Some j) \<and>
    (m_pc t j = M_read_succ \<longrightarrow> q_next t j \<noteq> None) \<and>
    (m_pc t j = M_link \<longrightarrow> m_tail t j \<noteq> None) \<and> m_pc t j \<noteq> M_fault" for j
    using inv own_pc other [of j] succ [of j] unfolding mcs_inv_def by (cases "j = i") simp_all
  ultimately show ?thesis unfolding mcs_inv_def by blast
qed

lemma mcs_inv_pcD:
  assumes "mcs_inv s"
  shows "m_pc s i = M_clear_tail \<Longrightarrow> m_t s i = Some i" "m_pc s i = M_read_succ \<Longrightarrow> q_next s i \<noteq> None"
  using assms unfolding mcs_inv_def by blast+

lemma mcs_inv_acquire: "mcs_acquire_step i s t \<Longrightarrow> mcs_inv s \<Longrightarrow> mcs_inv t"
  by (erule mcs_acquire_step.cases; rule mcs_inv_local [of s i])
    (auto simp: mcs_owns_def split: if_splits)

lemma mcs_inv_wake:
  assumes "mcs_inv s" "m_pc s i = M_wake j"
  shows "mcs_inv (goto (s\<lparr>q_spin := (q_spin s)(j := 1)\<rparr>) i M_out)" (is "mcs_inv ?t")
proof -
  have i: "mcs_owns s i" using assms(2) by (simp add: mcs_owns_def)
  have "mcs_owns ?t k \<Longrightarrow> k = j \<or> mcs_owns s k" for k
    by (cases "k = i") (auto simp: mcs_owns_def split: if_splits)
  moreover have "\<not> mcs_owns ?t i" by (simp add: mcs_owns_def)
  moreover have "k = i" if "mcs_owns s k" for k
    using assms(1) i that unfolding mcs_inv_def by blast
  ultimately have own: "mcs_owns ?t k \<Longrightarrow> k = j" for k by blast
  have lk: "lk_next ?t \<noteq> None" using assms(1) i by (auto simp: mcs_inv_def)
  have pcs: "(m_pc ?t k = M_clear_tail \<longrightarrow> m_t ?t k = Some k) \<and>
    (m_pc ?t k = M_read_succ \<longrightarrow> q_next ?t k \<noteq> None) \<and>
    (m_pc ?t k = M_link \<longrightarrow> m_tail ?t k \<noteq> None) \<and> m_pc ?t k \<noteq> M_fault" for k
    using assms(1) by (simp add: mcs_inv_def)
  show ?thesis unfolding mcs_inv_def using own lk pcs by blast
qed

lemma mcs_inv_release: "mcs_release_step i s t \<Longrightarrow> mcs_inv s \<Longrightarrow> mcs_inv t"
proof (cases "\<exists>j. m_pc s i = M_wake j")
  case True
  assume "mcs_release_step i s t" "mcs_inv s"
  with True show ?thesis by (auto elim!: mcs_release_step.cases intro: mcs_inv_wake)
next
  case False
  assume step: "mcs_release_step i s t" and inv: "mcs_inv s"
  show ?thesis
    by (rule mcs_release_step.cases [OF step]; rule mcs_inv_local [OF inv, of i])
      (use False in \<open>auto simp: mcs_owns_def dest: mcs_inv_pcD [OF inv] split: if_splits option.splits\<close>)
qed

interpretation mcsl: mutex mcs_init mcs_step mcs_inv mcs_cs
proof unfold_locales
  show "mcs_inv s" if "mcs_init s" for s using that by (rule mcs_inv_init)
  show "mcs_inv t" if "mcs_inv s" "mcs_step s t" for s t
    using that mcs_inv_acquire mcs_inv_release unfolding mcs_step_def by blast
  show "i = j" if "mcs_inv s" "mcs_cs s i" "mcs_cs s j" for s i j
    using that by (simp add: mcs_inv_def mcs_owns_def mcs_cs_def)
qed

text \<open>
  C27: threads that use \<open>mcslock_acquire\<close> and \<open>mcslock_release\<close> are never in the critical section
  together, whatever the interleaving, and the release never follows a null \<open>next\<close> pointer.
\<close>

theorem mcs_mutual_exclusion:
  assumes "reach mcs_init mcs_step s"
  shows "(mcs_cs s i \<longrightarrow> mcs_cs s j \<longrightarrow> i = j) \<and> m_pc s i \<noteq> M_fault"
  using mcsl.mutual_exclusion [OF assms] mcsl.inv_reach [OF assms] unfolding mcs_inv_def by blast

section \<open>A waiter that the release forgets\<close>

text \<open>The step each thread can take next, to run a schedule.\<close>

definition mcs_exec :: "nat \<Rightarrow> mcs \<Rightarrow> mcs" where
  "mcs_exec i s =
     (case m_pc s i of
        M_out \<Rightarrow> goto s i M_clear_next
      | M_clear_next \<Rightarrow> goto (s\<lparr>q_next := (q_next s)(i := None)\<rparr>) i M_clear_spin
      | M_clear_spin \<Rightarrow> goto (s\<lparr>q_spin := (q_spin s)(i := 0)\<rparr>) i M_swap
      | M_swap \<Rightarrow> goto (s\<lparr>lk_next := Some i, m_tail := (m_tail s)(i := lk_next s)\<rparr>) i
          (if lk_next s = None then M_crit else M_link)
      | M_link \<Rightarrow> goto (s\<lparr>q_next := (q_next s)(the (m_tail s i) := Some i)\<rparr>) i M_wait
      | M_wait \<Rightarrow> goto s i (if q_spin s i = 0 then M_wait else M_crit)
      | M_crit \<Rightarrow> goto s i M_test_next
      | M_test_next \<Rightarrow> goto s i (if q_next s i = None then M_lock_spin else M_read_succ)
      | M_lock_spin \<Rightarrow> goto (s\<lparr>lk_spin := 1\<rparr>) i (if lk_spin s \<noteq> 0 then M_lock_spin else M_read_tail)
      | M_read_tail \<Rightarrow> goto (s\<lparr>m_t := (m_t s)(i := lk_next s)\<rparr>) i
          (if lk_next s = Some i then M_clear_tail else M_unlock_spin)
      | M_clear_tail \<Rightarrow> goto (s\<lparr>lk_next := None\<rparr>) i M_unlock_spin
      | M_unlock_spin \<Rightarrow> goto (s\<lparr>lk_spin := 0\<rparr>) i (if m_t s i = Some i then M_out else M_wait_succ)
      | M_wait_succ \<Rightarrow> goto s i (if q_next s i = None then M_wait_succ else M_read_succ)
      | M_read_succ \<Rightarrow> goto s i (case q_next s i of None \<Rightarrow> M_fault | Some j \<Rightarrow> M_wake j)
      | M_wake j \<Rightarrow> goto (s\<lparr>q_spin := (q_spin s)(j := 1)\<rparr>) i M_out
      | M_fault \<Rightarrow> s)"

lemma mcs_exec_step:
  assumes "mcs_inv s"
  shows "mcs_step s (mcs_exec i s)"
proof -
  have ok: "m_pc s i \<noteq> M_fault" "m_pc s i = M_link \<Longrightarrow> \<exists>j. m_tail s i = Some j"
    using assms by (auto simp: mcs_inv_def)
  note A = mcs_acquire_step.intros(1-4,6) [of s i] mcs_acquire_step.link [of s i]
  note R = mcs_release_step.intros(1-8) [of s i] mcs_release_step.wake [of s i]
  have "mcs_acquire_step i s (mcs_exec i s) \<or> mcs_release_step i s (mcs_exec i s)"
    by (cases "m_pc s i") (use A R ok in \<open>auto simp: mcs_exec_def\<close>)
  then show ?thesis by (auto simp: mcs_step_def)
qed

lemma mcs_run_reach:
  "reach mcs_init mcs_step s \<Longrightarrow> reach mcs_init mcs_step (fold mcs_exec is s)"
proof (induction "is" arbitrary: s)
  case (Cons i "is")
  then have "reach mcs_init mcs_step (mcs_exec i s)"
    by (meson reach_step mcs_exec_step mcsl.inv_reach)
  then show ?case using Cons.IH by simp
qed simp

definition mcs0 :: mcs where
  "mcs0 = \<lparr>lk_next = None, lk_spin = 0, q_next = (\<lambda>_. None), q_spin = (\<lambda>_. 0), m_pc = (\<lambda>_. M_out),
           m_tail = (\<lambda>_. None), m_t = (\<lambda>_. None)\<rparr>"

lemma mcs0_reach: "reach mcs_init mcs_step (fold mcs_exec is mcs0)"
  by (intro mcs_run_reach reach_init) (simp add: mcs_init_def mcs0_def)

text \<open>
  Thread 1 is queued behind thread 0, waits, and nothing but thread 0's node leads to it: no
  other node, local \<open>tail\<close> or pending wake-up, and not the lock.
\<close>

definition mcs_forgotten :: "mcs \<Rightarrow> bool" where
  "mcs_forgotten s \<longleftrightarrow>
     m_pc s 0 = M_out \<and> m_pc s 1 = M_wait \<and> q_spin s 1 = 0 \<and> lk_next s \<noteq> Some 1 \<and>
     (\<forall>j. j \<noteq> 0 \<longrightarrow> q_next s j \<noteq> Some 1 \<and> m_pc s j \<noteq> M_wake 1 \<and>
        (m_pc s j = M_link \<longrightarrow> m_tail s j \<noteq> Some 1))"

definition mcs_step_but :: "nat \<Rightarrow> mcs \<Rightarrow> mcs \<Rightarrow> bool" where
  "mcs_step_but k s t \<longleftrightarrow> (\<exists>i. i \<noteq> k \<and> (mcs_acquire_step i s t \<or> mcs_release_step i s t))"

lemma mcs_forgotten_step:
  assumes "mcs_step_but 0 s t" "mcs_forgotten s"
  shows "mcs_forgotten t"
proof -
  obtain i where i: "i \<noteq> 0" and step: "mcs_acquire_step i s t \<or> mcs_release_step i s t"
    using assms(1) by (auto simp: mcs_step_but_def)
  show ?thesis using step
  proof
    assume "mcs_acquire_step i s t"
    then show ?thesis using assms(2) i
      by cases (auto simp: mcs_forgotten_def split: if_splits)
  next
    assume "mcs_release_step i s t"
    then show ?thesis using assms(2) i
      by cases (auto simp: mcs_forgotten_def split: if_splits option.splits)
  qed
qed

lemma mcs_forgotten_run:
  "(mcs_step_but 0)\<^sup>*\<^sup>* s t \<Longrightarrow> mcs_forgotten s \<Longrightarrow> mcs_forgotten t"
  by (induction rule: rtranclp_induct) (auto intro: mcs_forgotten_step)

text \<open>
  C36: \<open>mcslock_release\<close> reads and clears \<open>lk->next\<close> in two accesses that \<open>mcslock_acquire\<close>'s exchange
  does not respect: from \<open>mcslock_init\<close> two threads reach a state in which the lock is free and
  nobody but thread 1 is in a call, and thread 1 waits in \<open>mcslock_acquire\<close>; it goes on waiting
  whatever the other threads do, as long as thread 0 does not take the lock again.
\<close>

theorem mcs_release_forgets_waiter:
  "\<exists>s. reach mcs_init mcs_step s \<and> lk_next s = None \<and> m_pc s = (\<lambda>_. M_out)(1 := M_wait) \<and>
       {t. (mcs_step_but 0)\<^sup>*\<^sup>* s t} \<subseteq> {t. m_pc t 1 = M_wait}"
proof -
  let ?sched = "[0, 0, 0, 0, 0, 0, 0, 0, 1, 1, 1, 1, 0, 0, 1]"
  define s where "s = fold mcs_exec ?sched mcs0"
  have s: "lk_next s = None" "m_pc s = (\<lambda>_. M_out)(1 := M_wait)" "q_spin s = (\<lambda>_. 0)"
    "q_next s = (\<lambda>_. None)(0 := Some 1)"
    by (auto simp: s_def mcs0_def mcs_exec_def fun_eq_iff)
  have "reach mcs_init mcs_step s" unfolding s_def by (rule mcs0_reach)
  moreover have "mcs_forgotten s" by (simp add: mcs_forgotten_def s)
  then have "m_pc t 1 = M_wait" if "(mcs_step_but 0)\<^sup>*\<^sup>* s t" for t
    using mcs_forgotten_run [OF that] by (simp add: mcs_forgotten_def)
  ultimately show ?thesis using s by (intro exI [of _ s]) auto
qed

theorem mcs_mutual_exclusion_witness:
  "\<exists>s. reach mcs_init mcs_step s \<and> mcs_cs s 0 \<and> (\<forall>j. mcs_cs s j \<longrightarrow> j = 0) \<and> m_pc s 1 = M_wait"
proof -
  let ?s = "fold mcs_exec [0, 0, 0, 0, 1, 1, 1, 1, 1] mcs0"
  have r: "reach mcs_init mcs_step ?s" by (rule mcs0_reach)
  have "mcs_cs ?s 0" "m_pc ?s 1 = M_wait" by (simp_all add: mcs0_def mcs_exec_def mcs_cs_def)
  then show ?thesis using r mcs_mutual_exclusion [OF r] by (intro exI [of _ ?s]) blast
qed

end
