(* ===== verification/Xv6_Arraylock.thy ===== *)
theory Xv6_Arraylock
  imports Xv6_Prelude "HOL-Library.Sublist"
begin

text \<open>
  The array lock of the thread library (\<open>libthread.c\<close>), as threads interleave on it, one access
  to shared memory per step, and its refinement to a first-come-first-served queue of threads.
\<close>

datatype apc =
    A_out          \<comment> \<open>outside both calls\<close>
  | A_lock_m       \<comment> \<open>\<open>while (xchg(&lk->m, 1) != 0)\<close>\<close>
  | A_read         \<comment> \<open>\<open>pos = lk->next\<close>\<close>
  | A_write        \<comment> \<open>\<open>lk->next = pos + 1\<close>\<close>
  | A_wrap_test    \<comment> \<open>\<open>if(lk->next == lk->size)\<close>\<close>
  | A_wrap         \<comment> \<open>\<open>lk->next = 0\<close>\<close>
  | A_unlock_m     \<comment> \<open>\<open>xchg(&lk->m, 0)\<close>\<close>
  | A_wait         \<comment> \<open>\<open>while(lk->lock[pos] == 0)\<close>\<close>
  | A_setpos       \<comment> \<open>\<open>lk->lockpos = pos\<close>\<close>
  | A_crit         \<comment> \<open>the caller's critical section\<close>
  | A_clear        \<comment> \<open>\<open>lk->lock[lk->lockpos] = 0\<close>\<close>
  | A_set          \<comment> \<open>\<open>lk->lock[nextpos] = 1\<close>\<close>

text \<open>
  \<open>struct arraylock_t\<close>, and each thread's place in the code and locals \<open>pos\<close> and \<open>nextpos\<close>. The
  slots are indexed by the index the code computes; that it stays below \<open>size\<close> is proved.
\<close>

record arr =
  a_lock :: "u32 \<Rightarrow> u32"
  a_lockpos :: u32
  a_next :: u32
  a_size :: u32
  a_m :: u32
  a_pc :: "nat \<Rightarrow> apc"
  a_pos :: "nat \<Rightarrow> u32"
  a_nextpos :: "nat \<Rightarrow> u32"

definition arraylock_init :: "arr \<Rightarrow> u32 \<Rightarrow> arr" where
  "arraylock_init s sz =
     (let s = s\<lparr>a_size := sz\<rparr>;
          slots = fold (\<lambda>i l. l(of_nat i := 0)) [1..<unat sz] (a_lock s)
      in s\<lparr>a_lock := slots(0 := 1), a_next := 0, a_m := 0\<rparr>)"

abbreviation at :: "arr \<Rightarrow> nat \<Rightarrow> apc \<Rightarrow> arr" where
  "at s i p \<equiv> s\<lparr>a_pc := (a_pc s)(i := p)\<rparr>"

inductive arr_acquire_step :: "nat \<Rightarrow> arr \<Rightarrow> arr \<Rightarrow> bool" where
  call: "a_pc s i = A_out \<Longrightarrow> arr_acquire_step i s (at s i A_lock_m)"
| lock_m: "a_pc s i = A_lock_m \<Longrightarrow>
    arr_acquire_step i s (at (s\<lparr>a_m := 1\<rparr>) i (if a_m s \<noteq> 0 then A_lock_m else A_read))"
| read: "a_pc s i = A_read \<Longrightarrow>
    arr_acquire_step i s (at (s\<lparr>a_pos := (a_pos s)(i := a_next s)\<rparr>) i A_write)"
| store: "a_pc s i = A_write \<Longrightarrow>
    arr_acquire_step i s (at (s\<lparr>a_next := a_pos s i + 1\<rparr>) i A_wrap_test)"
| wrap_test: "a_pc s i = A_wrap_test \<Longrightarrow>
    arr_acquire_step i s (at s i (if a_next s = a_size s then A_wrap else A_unlock_m))"
| wrap: "a_pc s i = A_wrap \<Longrightarrow> arr_acquire_step i s (at (s\<lparr>a_next := 0\<rparr>) i A_unlock_m)"
| unlock_m: "a_pc s i = A_unlock_m \<Longrightarrow> arr_acquire_step i s (at (s\<lparr>a_m := 0\<rparr>) i A_wait)"
| wait: "a_pc s i = A_wait \<Longrightarrow>
    arr_acquire_step i s (at s i (if a_lock s (a_pos s i) = 0 then A_wait else A_setpos))"
| setpos: "a_pc s i = A_setpos \<Longrightarrow>
    arr_acquire_step i s (at (s\<lparr>a_lockpos := a_pos s i\<rparr>) i A_crit)"

inductive arr_release_step :: "nat \<Rightarrow> arr \<Rightarrow> arr \<Rightarrow> bool" where
  call: "a_pc s i = A_crit \<Longrightarrow>
    arr_release_step i s
      (at (s\<lparr>a_nextpos := (a_nextpos s)(i := if a_lockpos s + 1 = a_size s then 0 else a_lockpos s + 1)\<rparr>)
         i A_clear)"
| clear: "a_pc s i = A_clear \<Longrightarrow>
    arr_release_step i s (at (s\<lparr>a_lock := (a_lock s)(a_lockpos s := 0)\<rparr>) i A_set)"
| set: "a_pc s i = A_set \<Longrightarrow>
    arr_release_step i s (at (s\<lparr>a_lock := (a_lock s)(a_nextpos s i := 1)\<rparr>) i A_out)"

text \<open>\<open>n\<close> threads, numbered from 0, on a lock initialised for \<open>sz\<close> slots.\<close>

definition arr_step :: "nat \<Rightarrow> arr \<Rightarrow> arr \<Rightarrow> bool" where
  "arr_step n s t \<longleftrightarrow> (\<exists>i < n. arr_acquire_step i s t \<or> arr_release_step i s t)"

definition arr_start :: "u32 \<Rightarrow> arr \<Rightarrow> bool" where
  "arr_start sz s \<longleftrightarrow> (\<exists>s0. s = arraylock_init s0 sz \<and> (\<forall>i. a_pc s0 i = A_out))"

text \<open>The lock is meant for at most as many threads as it has slots.\<close>

definition arr_init :: "nat \<Rightarrow> arr \<Rightarrow> bool" where
  "arr_init n s \<longleftrightarrow> (\<exists>sz. 0 < sz \<and> n \<le> unat sz \<and> arr_start sz s)"

definition arr_cs :: "arr \<Rightarrow> nat \<Rightarrow> bool" where
  "arr_cs s i \<longleftrightarrow> a_pc s i = A_crit"

section \<open>The queue a state of the lock stands for\<close>

fun queued :: "apc \<Rightarrow> bool" where
  "queued A_wrap_test = True"
| "queued A_wrap = True"
| "queued A_unlock_m = True"
| "queued A_wait = True"
| "queued A_setpos = True"
| "queued A_crit = True"
| "queued A_clear = True"
| "queued A_set = True"
| "queued _ = False"

fun with_m :: "apc \<Rightarrow> bool" where
  "with_m A_read = True"
| "with_m A_write = True"
| "with_m A_wrap_test = True"
| "with_m A_wrap = True"
| "with_m A_unlock_m = True"
| "with_m _ = False"

fun served :: "apc \<Rightarrow> bool" where
  "served A_setpos = True"
| "served A_crit = True"
| "served A_clear = True"
| "served A_set = True"
| "served _ = False"

text \<open>The word \<open>m\<close> protects \<open>next\<close>.\<close>

definition arr_m_ok :: "arr \<Rightarrow> bool" where
  "arr_m_ok s \<longleftrightarrow> (\<forall>i. with_m (a_pc s i) \<longrightarrow> a_m s \<noteq> 0 \<and> (\<forall>j. with_m (a_pc s j) \<longrightarrow> i = j))"

text \<open>
  Thread \<open>q ! k\<close> has the slot \<open>k\<close> places after slot \<open>h\<close>; slots are handed out in a circle.
\<close>

definition arr_slots :: "nat \<Rightarrow> arr \<Rightarrow> nat \<Rightarrow> nat list \<Rightarrow> bool" where
  "arr_slots n s h q \<longleftrightarrow>
     h < unat (a_size s) \<and> n \<le> unat (a_size s) \<and> distinct q \<and>
     (\<forall>i. i \<in> set q \<longleftrightarrow> queued (a_pc s i)) \<and> (\<forall>i. a_pc s i \<noteq> A_out \<longrightarrow> i < n) \<and>
     (\<forall>k < length q. unat (a_pos s (q ! k)) = (h + k) mod unat (a_size s))"

text \<open>\<open>next\<close> is the slot after the last thread's, except while that thread brings it back to 0.\<close>

definition arr_next_ok :: "arr \<Rightarrow> nat \<Rightarrow> nat list \<Rightarrow> bool" where
  "arr_next_ok s h q \<longleftrightarrow>
     (\<forall>i. a_pc s i = A_write \<longrightarrow> a_pos s i = a_next s) \<and>
     (\<forall>i. a_pc s i = A_wrap_test \<longrightarrow> a_next s = a_pos s i + 1 \<and> q \<noteq> [] \<and> i = last q) \<and>
     (\<forall>i. a_pc s i = A_wrap \<longrightarrow> a_pos s i + 1 = a_size s \<and> q \<noteq> [] \<and> i = last q) \<and>
     ((\<forall>i. a_pc s i \<noteq> A_wrap_test \<and> a_pc s i \<noteq> A_wrap) \<longrightarrow>
        unat (a_next s) = (h + length q) mod unat (a_size s))"

text \<open>
  The flag of slot \<open>h\<close> is up and every other flag is down (no flag is up between the two writes
  of a release), and only the head of the queue has seen its flag up.
\<close>

definition arr_flags_ok :: "arr \<Rightarrow> nat \<Rightarrow> nat list \<Rightarrow> bool" where
  "arr_flags_ok s h q \<longleftrightarrow>
     (\<forall>i. served (a_pc s i) \<longrightarrow> q \<noteq> [] \<and> hd q = i \<and> unat (a_pos s i) = h) \<and>
     (\<forall>i. a_pc s i \<in> {A_crit, A_clear, A_set} \<longrightarrow> a_lockpos s = a_pos s i) \<and>
     (\<forall>i. a_pc s i \<in> {A_clear, A_set} \<longrightarrow> unat (a_nextpos s i) = (h + 1) mod unat (a_size s)) \<and>
     (\<forall>x < a_size s. a_lock s x \<noteq> 0 \<longleftrightarrow> unat x = h \<and> (\<forall>i. a_pc s i \<noteq> A_set))"

definition arr_queue :: "nat \<Rightarrow> arr \<Rightarrow> nat \<Rightarrow> nat list \<Rightarrow> bool" where
  "arr_queue n s h q \<longleftrightarrow> arr_m_ok s \<and> arr_slots n s h q \<and> arr_next_ok s h q \<and> arr_flags_ok s h q"

definition arr_inv :: "nat \<Rightarrow> arr \<Rightarrow> bool" where
  "arr_inv n s \<longleftrightarrow> (\<exists>h q. arr_queue n s h q)"

text \<open>
  A run of \<open>n\<close> threads with two logs: \<open>arrived\<close>, who took a slot (advanced \<open>next\<close>), and
  \<open>entered\<close>, who came out of \<open>arraylock_acquire\<close>, each in order.
\<close>

inductive arr_log :: "nat \<Rightarrow> arr \<Rightarrow> nat list \<Rightarrow> nat list \<Rightarrow> bool" for n where
  start: "arr_init n s \<Longrightarrow> arr_log n s [] []"
| acquire: "arr_log n s arrived entered \<Longrightarrow> i < n \<Longrightarrow> arr_acquire_step i s t \<Longrightarrow>
    arr_log n t (if a_pc s i = A_write then arrived @ [i] else arrived)
      (if a_pc t i = A_crit then entered @ [i] else entered)"
| release: "arr_log n s arrived entered \<Longrightarrow> i < n \<Longrightarrow> arr_release_step i s t \<Longrightarrow>
    arr_log n t arrived entered"

lemma arr_m_ok_acquire:
  assumes "arr_acquire_step i s t" "arr_m_ok s"
  shows "arr_m_ok t"
proof -
  have "with_m (a_pc s i) \<Longrightarrow> a_m s \<noteq> 0" using assms(2) by (simp add: arr_m_ok_def)
  with assms(1) show ?thesis
    using assms(2) by (cases rule: arr_acquire_step.cases) (auto simp: arr_m_ok_def split: if_splits)
qed

lemma arr_m_ok_release: "arr_release_step i s t \<Longrightarrow> arr_m_ok s \<Longrightarrow> arr_m_ok t"
  by (erule arr_release_step.cases) (auto simp: arr_m_ok_def split: if_splits)

lemma arr_slots_length:
  assumes "arr_slots n s h q"
  shows "length q \<le> n" "a_pc s i = A_write \<Longrightarrow> length q < n"
proof -
  have q: "distinct q" "\<And>i. i \<in> set q \<longleftrightarrow> queued (a_pc s i)" "\<And>i. a_pc s i \<noteq> A_out \<Longrightarrow> i < n"
    using assms unfolding arr_slots_def by simp_all
  then have sub: "set q \<subseteq> {..<n}" by force
  then have "card (set q) \<le> card {..<n}" by (intro card_mono) simp_all
  then show "length q \<le> n" using distinct_card [OF q(1)] by simp
  assume "a_pc s i = A_write"
  then have "set q \<subseteq> {..<n} - {i}" "i < n" using sub q(2) [of i] q(3) [of i] by auto
  then have "card (set q) \<le> card ({..<n} - {i})" "i < n" using card_mono [of "{..<n} - {i}"] by blast+
  then show "length q < n" using distinct_card [OF q(1)] by (cases n) simp_all
qed

lemma arr_slots_acquire:
  assumes "arr_acquire_step i s t" "arr_slots n s h q" "i < n" "a_pc s i \<noteq> A_write"
  shows "arr_slots n t h q"
proof -
  have "k < length q \<Longrightarrow> a_pc s i = A_read \<Longrightarrow> q ! k \<noteq> i" for k
    using assms(2) nth_mem [of k q] unfolding arr_slots_def by (metis queued.simps(11))
  with assms(1) show ?thesis
    using assms(2-) by (cases rule: arr_acquire_step.cases) (auto simp: arr_slots_def)
qed

lemma arr_slots_last:
  assumes "arr_slots n s h q" "q \<noteq> []"
  shows "(h + length q) mod unat (a_size s) =
    (if a_pos s (last q) + 1 = a_size s then 0 else unat (a_pos s (last q) + 1))"
proof -
  obtain p i where q: "q = p @ [i]" using assms(2) by (metis rev_exhaust)
  have pos: "unat (a_pos s i) = (h + length p) mod unat (a_size s)" "h < unat (a_size s)"
    using assms(1) unfolding q arr_slots_def by (auto simp: nth_append)
  then have "unat (a_pos s i) < unat (a_size s)" by simp
  moreover have "unat (a_size s) < 2 ^ 32" using unsigned_less [of "a_size s"] by simp
  ultimately have "unat (a_pos s i + 1) = unat (a_pos s i) + 1" by (simp add: unat_word_ariths)
  then show ?thesis
    using mod_Suc [of "h + length p" "unat (a_size s)"] pos q by (simp add: word_unat_eq_iff)
qed

lemma arr_next_ok_local:
  assumes "arr_next_ok s h q" "a_pc s i \<notin> {A_write, A_wrap_test, A_wrap}"
    "a_pc t i \<notin> {A_wrap_test, A_wrap}" "a_pc t i = A_write \<Longrightarrow> a_pos t i = a_next s"
    "\<And>j. j \<noteq> i \<Longrightarrow> a_pc t j = a_pc s j" "\<And>j. j \<noteq> i \<Longrightarrow> a_pos t j = a_pos s j"
    "a_next t = a_next s" "a_size t = a_size s"
  shows "arr_next_ok t h q"
proof -
  have "(\<forall>j. a_pc t j \<noteq> A_wrap_test \<and> a_pc t j \<noteq> A_wrap) \<longleftrightarrow>
      (\<forall>j. a_pc s j \<noteq> A_wrap_test \<and> a_pc s j \<noteq> A_wrap)"
    using assms(2,3,5) by (metis insertCI)
  moreover have "a_pc t j = A_write \<longrightarrow> a_pos t j = a_next t"
      "a_pc t j = A_wrap_test \<longrightarrow> a_next t = a_pos t j + 1 \<and> q \<noteq> [] \<and> j = last q"
      "a_pc t j = A_wrap \<longrightarrow> a_pos t j + 1 = a_size t \<and> q \<noteq> [] \<and> j = last q" for j
    using assms unfolding arr_next_ok_def by (cases "j = i"; simp)+
  ultimately show ?thesis using assms(1,7,8) unfolding arr_next_ok_def by simp
qed

lemma arr_next_ok_acquire:
  assumes "arr_acquire_step i s t" "arr_next_ok s h q" "arr_slots n s h q" "arr_m_ok s"
    "a_pc s i \<noteq> A_write"
  shows "arr_next_ok t h q"
  using assms(1)
proof cases
  case wrap_test
  have "a_pc s j \<in> {A_write, A_wrap_test, A_wrap} \<Longrightarrow> j = i" for j
    using assms(4) wrap_test unfolding arr_m_ok_def by auto
  moreover have "i = last q" "q \<noteq> []" "a_next s = a_pos s i + 1"
    using assms(2) wrap_test unfolding arr_next_ok_def by auto
  ultimately show ?thesis
    using wrap_test arr_slots_last [OF assms(3)] unfolding arr_next_ok_def by auto
next
  case wrap
  have "a_pc s j \<in> {A_write, A_wrap_test, A_wrap} \<Longrightarrow> j = i" for j
    using assms(4) wrap unfolding arr_m_ok_def by auto
  moreover have "i = last q" "q \<noteq> []" "a_pos s i + 1 = a_size s"
    using assms(2) wrap unfolding arr_next_ok_def by auto
  ultimately show ?thesis
    using wrap arr_slots_last [OF assms(3)] unfolding arr_next_ok_def by auto
qed (use assms(5) in \<open>auto intro!: arr_next_ok_local [OF assms(2), of i]\<close>)

lemma arr_flags_ok_local:
  assumes "arr_flags_ok s h q" "a_pc s i \<noteq> A_set" "a_pc t i \<noteq> A_set"
    "served (a_pc t i) \<Longrightarrow> q \<noteq> [] \<and> hd q = i \<and> unat (a_pos t i) = h"
    "a_pc t i \<in> {A_crit, A_clear} \<Longrightarrow> a_lockpos t = a_pos t i"
    "a_pc t i = A_clear \<Longrightarrow> unat (a_nextpos t i) = (h + 1) mod unat (a_size s)"
    "\<And>j. j \<noteq> i \<Longrightarrow> a_pc t j = a_pc s j" "\<And>j. j \<noteq> i \<Longrightarrow> a_pos t j = a_pos s j"
    "\<And>j. j \<noteq> i \<Longrightarrow> a_nextpos t j = a_nextpos s j"
    "a_lockpos t = a_lockpos s \<or> (\<forall>j. j \<noteq> i \<longrightarrow> \<not> served (a_pc s j))"
    "a_lock t = a_lock s" "a_size t = a_size s"
  shows "arr_flags_ok t h q"
proof -
  have "(\<forall>j. a_pc t j \<noteq> A_set) \<longleftrightarrow> (\<forall>j. a_pc s j \<noteq> A_set)" using assms(2,3,7) by metis
  moreover have "served (a_pc t j) \<longrightarrow> q \<noteq> [] \<and> hd q = j \<and> unat (a_pos t j) = h"
      "a_pc t j \<in> {A_crit, A_clear, A_set} \<longrightarrow> a_lockpos t = a_pos t j"
      "a_pc t j \<in> {A_clear, A_set} \<longrightarrow> unat (a_nextpos t j) = (h + 1) mod unat (a_size t)" for j
    using assms unfolding arr_flags_ok_def by (cases "j = i"; auto)+
  ultimately show ?thesis using assms(1,11,12) unfolding arr_flags_ok_def by simp
qed

lemma slot_head:
  assumes "(h + k) mod m = h" "k < m" "h < (m::nat)"
  shows "k = 0"
  using assms by (cases "h + k < m") (simp_all add: le_mod_geq)

text \<open>A thread that sees its flag up is the head of the queue.\<close>

lemma arr_slots_head:
  assumes "arr_slots n s h q" "arr_flags_ok s h q" "queued (a_pc s i)" "a_lock s (a_pos s i) \<noteq> 0"
  shows "q \<noteq> [] \<and> hd q = i \<and> unat (a_pos s i) = h"
proof -
  have "i \<in> set q" using assms(1,3) unfolding arr_slots_def by simp
  then obtain k where k: "k < length q" "i = q ! k" by (metis in_set_conv_nth)
  then have pos: "unat (a_pos s i) = (h + k) mod unat (a_size s)" "h < unat (a_size s)"
      "n \<le> unat (a_size s)"
    using assms(1) unfolding arr_slots_def by simp_all
  then have "a_pos s i < a_size s" by (simp add: word_less_nat_alt)
  then have "unat (a_pos s i) = h" using assms(2,4) unfolding arr_flags_ok_def by blast
  moreover from this have "k = 0"
    using pos k arr_slots_length(1) [OF assms(1)] by (intro slot_head [of h k "unat (a_size s)"]) simp_all
  ultimately show ?thesis using k by (cases q) simp_all
qed

lemma arr_flags_ok_acquire:
  assumes "arr_acquire_step i s t" "arr_flags_ok s h q" "arr_slots n s h q"
  shows "arr_flags_ok t h q"
  using assms(1)
proof cases
  case wait
  then have "a_lock s (a_pos s i) \<noteq> 0 \<Longrightarrow> q \<noteq> [] \<and> hd q = i \<and> unat (a_pos s i) = h"
    using arr_slots_head [OF assms(3,2), of i] by (metis queued.simps(4))
  then show ?thesis
    using wait by (intro arr_flags_ok_local [OF assms(2), of i]) (simp_all split: if_splits)
next
  case setpos
  have served: "served (a_pc s j) \<Longrightarrow> q \<noteq> [] \<and> hd q = j \<and> unat (a_pos s j) = h" for j
    using assms(2) unfolding arr_flags_ok_def by simp
  have "q \<noteq> [] \<and> hd q = i \<and> unat (a_pos s i) = h" using served [of i] setpos by (metis served.simps(1))
  moreover have "\<forall>j. j \<noteq> i \<longrightarrow> \<not> served (a_pc s j)" using served calculation by blast
  ultimately show ?thesis
    using setpos by (intro arr_flags_ok_local [OF assms(2), of i]) simp_all
qed (intro arr_flags_ok_local [OF assms(2), of i]; simp split: if_splits)+

lemma arr_flags_ok_snoc: "arr_flags_ok s h q \<Longrightarrow> arr_flags_ok s h (q @ [i])"
  unfolding arr_flags_ok_def by (simp add: hd_append)

lemma arr_queue_store:
  assumes "arr_queue n s h q" "i < n" "a_pc s i = A_write"
  shows "arr_queue n (at (s\<lparr>a_next := a_pos s i + 1\<rparr>) i A_wrap_test) h (q @ [i])"
    (is "arr_queue n ?t h _")
proof -
  have m: "arr_m_ok s" and sl: "arr_slots n s h q" and nx: "arr_next_ok s h q"
    and fl: "arr_flags_ok s h q" using assms(1) unfolding arr_queue_def by simp_all
  have "\<not> with_m (a_pc s j)" if "j \<noteq> i" for j
    using m assms(3) that unfolding arr_m_ok_def by (metis with_m.simps(2))
  then have only: "j \<noteq> i \<Longrightarrow> a_pc s j \<noteq> A_write \<and> a_pc s j \<noteq> A_wrap_test \<and> a_pc s j \<noteq> A_wrap" for j
    by fastforce
  have out: "i \<notin> set q" using sl assms(3) unfolding arr_slots_def by simp
  have "a_pc s j \<noteq> A_wrap_test \<and> a_pc s j \<noteq> A_wrap" for j
    using only [of j] assms(3) by (cases "j = i") simp_all
  then have next_pos: "unat (a_pos s i) = (h + length q) mod unat (a_size s)"
    using nx assms(3) unfolding arr_next_ok_def by simp
  have "arr_m_ok ?t" using arr_m_ok_acquire [OF arr_acquire_step.store m] assms(3) by simp
  moreover have "arr_slots n ?t h (q @ [i])"
    using sl out next_pos assms(2) unfolding arr_slots_def by (simp add: nth_append less_Suc_eq)
  moreover have "arr_next_ok ?t h (q @ [i])"
    unfolding arr_next_ok_def by (simp add: only)
  moreover have "arr_flags_ok ?t h (q @ [i])"
    by (intro arr_flags_ok_snoc arr_flags_ok_local [OF fl, of i]) (simp_all add: assms(3))
  ultimately show ?thesis unfolding arr_queue_def by simp
qed

lemma arr_queue_acquire:
  assumes "arr_acquire_step i s t" "arr_queue n s h q" "i < n"
  shows "arr_queue n t h (if a_pc s i = A_write then q @ [i] else q)"
proof (cases "a_pc s i = A_write")
  case True
  with assms(1) have "t = at (s\<lparr>a_next := a_pos s i + 1\<rparr>) i A_wrap_test"
    by (cases rule: arr_acquire_step.cases) simp_all
  then show ?thesis using arr_queue_store assms(2,3) True by simp
next
  case False
  have "arr_m_ok s" "arr_slots n s h q" "arr_next_ok s h q" "arr_flags_ok s h q"
    using assms(2) unfolding arr_queue_def by simp_all
  then show ?thesis
    using False arr_m_ok_acquire arr_slots_acquire arr_next_ok_acquire arr_flags_ok_acquire assms(1,3)
    unfolding arr_queue_def by simp
qed

lemma arr_flags_ok_served:
  assumes "arr_flags_ok s h q" "arr_slots n s h q" "served (a_pc s i)"
  shows "q \<noteq> []" "hd q = i" "unat (a_pos s i) = h" "a_pos s i < a_size s"
    "j \<noteq> i \<Longrightarrow> \<not> served (a_pc s j)"
proof -
  show "q \<noteq> []" "hd q = i" "unat (a_pos s i) = h"
    using assms(1,3) unfolding arr_flags_ok_def by simp_all
  then show "a_pos s i < a_size s" using assms(2) unfolding arr_slots_def by (simp add: word_less_nat_alt)
  show "j \<noteq> i \<Longrightarrow> \<not> served (a_pc s j)" using assms(1,3) unfolding arr_flags_ok_def by metis
qed

lemma arr_slots_release:
  assumes "arr_slots n s h q" "i < n" "queued (a_pc s i)" "queued (a_pc t i)"
    "\<And>j. j \<noteq> i \<Longrightarrow> a_pc t j = a_pc s j" "a_pos t = a_pos s" "a_size t = a_size s"
  shows "arr_slots n t h q"
proof -
  have "queued (a_pc t j) = queued (a_pc s j)" "a_pc t j \<noteq> A_out \<longrightarrow> j < n" for j
    using assms unfolding arr_slots_def by (cases "j = i"; simp)+
  then show ?thesis using assms(1,6,7) unfolding arr_slots_def by simp
qed

lemma arr_queue_release_call:
  assumes "arr_queue n s h q" "i < n" "a_pc s i = A_crit"
    "t = at (s\<lparr>a_nextpos := (a_nextpos s)(i := if a_lockpos s + 1 = a_size s then 0 else a_lockpos s + 1)\<rparr>)
         i A_clear"
  shows "arr_queue n t h q"
proof -
  have m: "arr_m_ok s" and sl: "arr_slots n s h q" and nx: "arr_next_ok s h q"
    and fl: "arr_flags_ok s h q" using assms(1) unfolding arr_queue_def by simp_all
  have lp: "a_lockpos s = a_pos s i" using fl assms(3) unfolding arr_flags_ok_def by simp
  have "served (a_pc s i)" by (simp add: assms(3))
  note i = arr_flags_ok_served [OF fl sl this]
  have "unat (a_size s) < 2 ^ 32" using unsigned_less [of "a_size s"] by simp
  then have "unat (a_pos s i + 1) = Suc h"
    using i(3,4) by (simp add: unat_word_ariths word_less_nat_alt)
  then have "unat (a_nextpos t i) = (h + 1) mod unat (a_size s)"
    using i(3,4) unfolding assms(4) lp by (simp add: word_unat_eq_iff mod_Suc word_less_nat_alt)
  then have "arr_flags_ok t h q"
    using i lp assms(3,4) by (intro arr_flags_ok_local [OF fl, of i]) simp_all
  moreover have "arr_m_ok t" using m assms(3,4) by (auto simp: arr_m_ok_def split: if_splits)
  moreover have "arr_slots n t h q"
    by (rule arr_slots_release [OF sl assms(2)]) (simp_all add: assms(3,4))
  moreover have "arr_next_ok t h q"
    by (rule arr_next_ok_local [OF nx, of i]) (simp_all add: assms(3,4))
  ultimately show ?thesis unfolding arr_queue_def by simp
qed

lemma arr_queue_release_clear:
  assumes "arr_queue n s h q" "i < n" "a_pc s i = A_clear"
    "t = at (s\<lparr>a_lock := (a_lock s)(a_lockpos s := 0)\<rparr>) i A_set"
  shows "arr_queue n t h q"
proof -
  have m: "arr_m_ok s" and sl: "arr_slots n s h q" and nx: "arr_next_ok s h q"
    and fl: "arr_flags_ok s h q" using assms(1) unfolding arr_queue_def by simp_all
  have lp: "a_lockpos s = a_pos s i" and np: "unat (a_nextpos s i) = (h + 1) mod unat (a_size s)"
    using fl assms(3) unfolding arr_flags_ok_def by simp_all
  have "served (a_pc s i)" by (simp add: assms(3))
  note i = arr_flags_ok_served [OF fl sl this]
  have "served (a_pc t j) \<Longrightarrow> j = i" for j
    using i(5) [of j] by (cases "j = i") (simp_all add: assms(4))
  moreover have "a_pc t j \<in> {A_crit, A_clear, A_set} \<Longrightarrow> served (a_pc t j)" for j by auto
  moreover have "a_lock t x = 0" if "x < a_size s" for x
    using fl that i(3) unfolding arr_flags_ok_def assms(4) lp by (auto simp: word_unat_eq_iff)
  moreover have "a_pc t i = A_set" "a_pos t = a_pos s" "a_nextpos t = a_nextpos s"
    "a_lockpos t = a_pos s i" "a_size t = a_size s" by (simp_all add: assms(4) lp)
  ultimately have "arr_flags_ok t h q"
    using i(1-3) np unfolding arr_flags_ok_def by (metis insertCI)
  moreover have "arr_m_ok t" using m assms(3,4) by (auto simp: arr_m_ok_def split: if_splits)
  moreover have "arr_slots n t h q"
    by (rule arr_slots_release [OF sl assms(2)]) (simp_all add: assms(3,4))
  moreover have "arr_next_ok t h q"
    by (rule arr_next_ok_local [OF nx, of i]) (simp_all add: assms(3,4))
  ultimately show ?thesis unfolding arr_queue_def by simp
qed

lemma arr_next_ok_tl:
  assumes "arr_next_ok t h (i # p)" "a_pc t i = A_out"
  shows "arr_next_ok t ((h + 1) mod unat (a_size t)) p"
proof (cases "p = []")
  case True
  have "a_pc t j \<noteq> A_wrap_test" "a_pc t j \<noteq> A_wrap" for j
    using assms True unfolding arr_next_ok_def by auto
  then show ?thesis using assms(1) True unfolding arr_next_ok_def by simp
next
  case False
  then show ?thesis using assms(1) unfolding arr_next_ok_def by (simp add: mod_simps)
qed

lemma arr_queue_release_set:
  assumes "arr_queue n s h q" "i < n" "a_pc s i = A_set"
    "t = at (s\<lparr>a_lock := (a_lock s)(a_nextpos s i := 1)\<rparr>) i A_out"
  shows "arr_queue n t ((h + 1) mod unat (a_size s)) (tl q)"
proof -
  have m: "arr_m_ok s" and sl: "arr_slots n s h q" and nx: "arr_next_ok s h q"
    and fl: "arr_flags_ok s h q" using assms(1) unfolding arr_queue_def by simp_all
  have np: "unat (a_nextpos s i) = (h + 1) mod unat (a_size s)"
    using fl assms(3) unfolding arr_flags_ok_def by simp
  have "served (a_pc s i)" by (simp add: assms(3))
  note i = arr_flags_ok_served [OF fl sl this]
  obtain p where q: "q = i # p" using i(1,2) by (cases q) auto
  have pos: "Suc k < length q \<Longrightarrow> unat (a_pos s (p ! k)) = (h + Suc k) mod unat (a_size s)" for k
    using sl unfolding arr_slots_def q by force
  have none: "\<not> served (a_pc t j)" for j
    using i(5) [of j] by (cases "j = i") (simp_all add: assms(4))
  have sl': "arr_slots n t ((h + 1) mod unat (a_size s)) p"
    using sl pos unfolding arr_slots_def q assms(4) by (auto simp: mod_simps)
  have fl': "arr_flags_ok t ((h + 1) mod unat (a_size s)) p"
  proof -
    have "a_pc t j \<notin> {A_crit, A_clear, A_set}" for j using none [of j] by auto
    moreover have "a_lock s x = 0" if "x < a_size s" for x
      using fl that assms(3) unfolding arr_flags_ok_def by blast
    ultimately show ?thesis
      using none np unfolding arr_flags_ok_def assms(4) by (auto simp: word_unat_eq_iff)
  qed
  have "arr_next_ok t h q"
    by (rule arr_next_ok_local [OF nx, of i]) (simp_all add: assms(3,4))
  then have "arr_next_ok t ((h + 1) mod unat (a_size t)) p"
    unfolding q by (rule arr_next_ok_tl) (simp add: assms(4))
  moreover have "arr_m_ok t" using m assms(3,4) by (auto simp: arr_m_ok_def split: if_splits)
  ultimately show ?thesis using sl' fl' unfolding arr_queue_def q by (simp add: assms(4))
qed

lemma arr_queue_release:
  assumes "arr_release_step i s t" "arr_queue n s h q" "i < n"
  shows "arr_queue n t (if a_pc s i = A_set then (h + 1) mod unat (a_size s) else h)
    (if a_pc s i = A_set then tl q else q)"
  using assms(1)
proof cases
  case call
  then show ?thesis using arr_queue_release_call [OF assms(2,3)] by simp
next
  case clear
  then show ?thesis using arr_queue_release_clear [OF assms(2,3)] by simp
next
  case set
  then show ?thesis using arr_queue_release_set [OF assms(2,3)] by simp
qed

lemma arraylock_init_slots:
  assumes "x < sz"
  shows "a_lock (arraylock_init s sz) x = (if x = 0 then 1 else 0)"
proof -
  have "fold (\<lambda>i l. l(of_nat i := 0)) xs l x = (if x \<in> of_nat ` set xs then 0 else l x)"
    for xs and l :: "u32 \<Rightarrow> u32"
    by (induction xs arbitrary: l) auto
  moreover have "x \<noteq> 0 \<Longrightarrow> x \<in> of_nat ` set [1..<unat sz]"
    using assms by (intro image_eqI [of _ _ "unat x"]) (simp_all add: word_less_nat_alt unat_gt_0 Suc_le_eq)
  ultimately show ?thesis by (simp add: arraylock_init_def Let_def)
qed

lemma arr_start_queue:
  assumes "arr_start sz s" "0 < sz" "n \<le> unat sz"
  shows "arr_queue n s 0 []"
proof -
  obtain s0 where s: "s = arraylock_init s0 sz" "\<And>i. a_pc s0 i = A_out"
    using assms(1) unfolding arr_start_def by blast
  then have "a_pc s i = A_out" "a_next s = 0" "a_size s = sz" for i
    by (simp_all add: arraylock_init_def Let_def)
  then show ?thesis
    using assms(2,3) s(1) arraylock_init_slots [of _ sz s0]
    unfolding arr_queue_def arr_m_ok_def arr_slots_def arr_next_ok_def arr_flags_ok_def
    by (simp add: word_less_nat_alt unat_eq_0)
qed

interpretation arrl: mutex "arr_init n" "arr_step n" "arr_inv n" arr_cs for n
proof unfold_locales
  show "arr_inv n s" if "arr_init n s" for s
    using that arr_start_queue unfolding arr_init_def arr_inv_def by blast
  show "arr_inv n t" if "arr_inv n s" "arr_step n s t" for s t
    using that arr_queue_acquire arr_queue_release unfolding arr_inv_def arr_step_def by meson
  show "i = j" if "arr_inv n s" "arr_cs s i" "arr_cs s j" for s i j
  proof -
    have "served (a_pc s i)" "served (a_pc s j)" using that by (simp_all add: arr_cs_def)
    then show ?thesis
      using that(1) unfolding arr_inv_def arr_queue_def arr_flags_ok_def by blast
  qed
qed

lemma arr_inv_slot:
  assumes "arr_inv n s" "queued (a_pc s i)"
  shows "a_pos s i < a_size s"
proof -
  obtain h q where sl: "arr_slots n s h q" using assms(1) unfolding arr_inv_def arr_queue_def by blast
  then obtain k where "k < length q" "i = q ! k"
    using assms(2) unfolding arr_slots_def by (metis in_set_conv_nth)
  then show ?thesis using sl unfolding arr_slots_def by (simp add: word_less_nat_alt)
qed

text \<open>Who has come out of \<open>arraylock_acquire\<close> and not yet finished \<open>arraylock_release\<close>.\<close>

fun inside :: "apc \<Rightarrow> bool" where
  "inside A_crit = True"
| "inside A_clear = True"
| "inside A_set = True"
| "inside _ = False"

lemma arr_acquire_pcs:
  assumes "arr_acquire_step i s t"
  shows "\<not> inside (a_pc s i)" "inside (a_pc t i) \<longleftrightarrow> a_pc t i = A_crit"
    "a_pc t i = A_crit \<Longrightarrow> a_pc s i = A_setpos" "a_pc s i = A_write \<Longrightarrow> a_pc t i = A_wrap_test"
    "j \<noteq> i \<Longrightarrow> a_pc t j = a_pc s j"
  using assms by (auto elim!: arr_acquire_step.cases split: if_splits)

lemma arr_release_pcs:
  assumes "arr_release_step i s t"
  shows "inside (a_pc s i)" "a_pc s i \<noteq> A_set \<Longrightarrow> inside (a_pc t i)"
    "j \<noteq> i \<Longrightarrow> a_pc t j = a_pc s j"
  using assms by (auto elim!: arr_release_step.cases split: if_splits)

lemma arr_queue_inside:
  assumes "arr_queue n s h q" "inside (a_pc s i) \<or> a_pc s i = A_setpos"
  shows "q \<noteq> []" "hd q = i"
proof -
  have "served (a_pc s i)" using assms(2) by (cases "a_pc s i") simp_all
  then show "q \<noteq> []" "hd q = i" using assms(1) unfolding arr_queue_def arr_flags_ok_def by simp_all
qed

lemma arr_log_queue:
  "arr_log n s arrived entered \<Longrightarrow>
    \<exists>h q d. arr_queue n s h q \<and> arrived = d @ q \<and>
      entered = d @ (if q \<noteq> [] \<and> inside (a_pc s (hd q)) then [hd q] else [])"
proof (induction rule: arr_log.induct)
  case (start s)
  then show ?case using arr_start_queue unfolding arr_init_def by fastforce
next
  case (acquire s arrived entered i t)
  then obtain h q d where q: "arr_queue n s h q" "arrived = d @ q"
    "entered = d @ (if q \<noteq> [] \<and> inside (a_pc s (hd q)) then [hd q] else [])" by blast
  let ?q = "if a_pc s i = A_write then q @ [i] else q"
  note pcs = arr_acquire_pcs [OF acquire(3)]
  have "arr_queue n t h ?q" by (rule arr_queue_acquire [OF acquire(3) q(1) acquire(2)])
  moreover have "(if a_pc s i = A_write then arrived @ [i] else arrived) = d @ ?q" using q(2) by simp
  moreover have "(if a_pc t i = A_crit then entered @ [i] else entered) =
      d @ (if ?q \<noteq> [] \<and> inside (a_pc t (hd ?q)) then [hd ?q] else [])"
  proof (cases "a_pc t i = A_crit")
    case True
    then have "a_pc s i = A_setpos" "q \<noteq> []" "hd q = i" using pcs(3) arr_queue_inside [OF q(1)] by blast+
    then show ?thesis using True pcs(1) q(3) by simp
  next
    case False
    then have "q \<noteq> [] \<Longrightarrow> inside (a_pc t (hd q)) \<longleftrightarrow> inside (a_pc s (hd q))"
      using pcs(1,2,5) by (cases "hd q = i") simp_all
    then show ?thesis using False pcs(2) q(3) by (simp add: hd_append)
  qed
  ultimately show ?case by blast
next
  case (release s arrived entered i t)
  then obtain h q d where q: "arr_queue n s h q" "arrived = d @ q"
    "entered = d @ (if q \<noteq> [] \<and> inside (a_pc s (hd q)) then [hd q] else [])" by blast
  note pcs = arr_release_pcs [OF release(3)]
  note hd = arr_queue_inside [OF q(1) disjI1, OF pcs(1)]
  have t: "arr_queue n t (if a_pc s i = A_set then (h + 1) mod unat (a_size s) else h)
      (if a_pc s i = A_set then tl q else q)"
    by (rule arr_queue_release [OF release(3) q(1) release(2)])
  show ?case
  proof (cases "a_pc s i = A_set")
    case True
    have "distinct q" using q(1) unfolding arr_queue_def arr_slots_def by simp
    then have "tl q \<noteq> [] \<Longrightarrow> hd (tl q) \<noteq> i" using hd by (cases q) auto
    then have "tl q \<noteq> [] \<Longrightarrow> \<not> inside (a_pc t (hd (tl q)))"
      using arr_queue_inside(2) [OF q(1), of "hd (tl q)"] hd pcs(3) by auto
    moreover have "q = i # tl q" using hd by (cases q) auto
    then have "arrived = (d @ [i]) @ tl q" using q(2) by simp
    moreover have "entered = d @ [i]" using hd pcs(1) q(3) by simp
    ultimately have "arr_queue n t ((h + 1) mod unat (a_size s)) (tl q) \<and> arrived = (d @ [i]) @ tl q \<and>
        entered = (d @ [i]) @ (if tl q \<noteq> [] \<and> inside (a_pc t (hd (tl q))) then [hd (tl q)] else [])"
      using t True by auto
    then show ?thesis by blast
  next
    case False
    then show ?thesis using t q hd pcs(1,2) by fastforce
  qed
qed

definition arr_exec :: "nat \<Rightarrow> arr \<Rightarrow> arr" where
  "arr_exec i s =
     (case a_pc s i of
        A_out \<Rightarrow> at s i A_lock_m
      | A_lock_m \<Rightarrow> at (s\<lparr>a_m := 1\<rparr>) i (if a_m s \<noteq> 0 then A_lock_m else A_read)
      | A_read \<Rightarrow> at (s\<lparr>a_pos := (a_pos s)(i := a_next s)\<rparr>) i A_write
      | A_write \<Rightarrow> at (s\<lparr>a_next := a_pos s i + 1\<rparr>) i A_wrap_test
      | A_wrap_test \<Rightarrow> at s i (if a_next s = a_size s then A_wrap else A_unlock_m)
      | A_wrap \<Rightarrow> at (s\<lparr>a_next := 0\<rparr>) i A_unlock_m
      | A_unlock_m \<Rightarrow> at (s\<lparr>a_m := 0\<rparr>) i A_wait
      | A_wait \<Rightarrow> at s i (if a_lock s (a_pos s i) = 0 then A_wait else A_setpos)
      | A_setpos \<Rightarrow> at (s\<lparr>a_lockpos := a_pos s i\<rparr>) i A_crit
      | A_crit \<Rightarrow> at (s\<lparr>a_nextpos := (a_nextpos s)(i := if a_lockpos s + 1 = a_size s then 0 else a_lockpos s + 1)\<rparr>)
          i A_clear
      | A_clear \<Rightarrow> at (s\<lparr>a_lock := (a_lock s)(a_lockpos s := 0)\<rparr>) i A_set
      | A_set \<Rightarrow> at (s\<lparr>a_lock := (a_lock s)(a_nextpos s i := 1)\<rparr>) i A_out)"

lemma arr_exec_step: "arr_acquire_step i s (arr_exec i s) \<or> arr_release_step i s (arr_exec i s)"
  using arr_acquire_step.intros [of s i] arr_release_step.intros [of s i]
  by (cases "a_pc s i") (simp_all add: arr_exec_def)

definition arr_log_exec :: "nat \<Rightarrow> arr \<times> nat list \<times> nat list \<Rightarrow> arr \<times> nat list \<times> nat list" where
  "arr_log_exec i x =
     (case x of (s, arrived, entered) \<Rightarrow>
        (arr_exec i s, if a_pc s i = A_write then arrived @ [i] else arrived,
         if a_pc s i = A_setpos then entered @ [i] else entered))"

lemma arr_log_exec:
  assumes "arr_log n s arrived entered" "i < n" "arr_log_exec i (s, arrived, entered) = (t, arrived', entered')"
  shows "arr_log n t arrived' entered'"
proof -
  have e: "t = arr_exec i s" "arrived' = (if a_pc s i = A_write then arrived @ [i] else arrived)"
    "entered' = (if a_pc s i = A_setpos then entered @ [i] else entered)"
    using assms(3) by (simp_all add: arr_log_exec_def)
  show ?thesis
  proof (cases "arr_acquire_step i s t")
    case True
    have "a_pc t i = A_crit \<longleftrightarrow> a_pc s i = A_setpos"
      using True e(1) by (cases "a_pc s i") (auto simp: arr_exec_def elim: arr_acquire_step.cases)
    then show ?thesis using arr_log.acquire [OF assms(1,2) True] e by simp
  next
    case False
    then have r: "arr_release_step i s t" using arr_exec_step e(1) by blast
    then have "a_pc s i \<noteq> A_write" "a_pc s i \<noteq> A_setpos" using arr_release_pcs(1) by force+
    then show ?thesis using arr_log.release [OF assms(1,2) r] e by simp
  qed
qed

lemma arr_log_run:
  "(\<forall>i \<in> set is. i < n) \<Longrightarrow> arr_log n s arrived entered \<Longrightarrow>
    fold arr_log_exec is (s, arrived, entered) = (t, arrived', entered') \<Longrightarrow>
    arr_log n t arrived' entered'"
proof (induction "is" arbitrary: s arrived entered)
  case (Cons i "is")
  obtain s1 a1 e1 where x: "arr_log_exec i (s, arrived, entered) = (s1, a1, e1)" by (cases rule: prod_cases3)
  then have "arr_log n s1 a1 e1" using arr_log_exec [OF Cons.prems(2) _ x] Cons.prems(1) by simp
  then show ?case using Cons.IH Cons.prems x by simp
qed simp

lemma arr_log_reach: "arr_log n s arrived entered \<Longrightarrow> reach (arr_init n) (arr_step n) s"
proof (induction rule: arr_log.induct)
  case (start s)
  then show ?case by (rule reach_init)
qed (auto intro: reach_step simp: arr_step_def)

text \<open>The slots that a release clears and sets are slots of the array.\<close>

lemma arr_inv_release_slots:
  assumes "arr_inv n s"
  shows "a_pc s i \<in> {A_crit, A_clear, A_set} \<Longrightarrow> a_lockpos s < a_size s"
    "a_pc s i \<in> {A_clear, A_set} \<Longrightarrow> a_nextpos s i < a_size s"
proof -
  obtain h q where q: "arr_slots n s h q" "arr_flags_ok s h q" using assms unfolding arr_inv_def arr_queue_def by blast
  show "a_lockpos s < a_size s" if "a_pc s i \<in> {A_crit, A_clear, A_set}"
    using that q(2) arr_inv_slot [OF assms, of i] unfolding arr_flags_ok_def by auto
  show "a_nextpos s i < a_size s" if "a_pc s i \<in> {A_clear, A_set}"
  proof -
    have "unat (a_nextpos s i) = (h + 1) mod unat (a_size s)" using that q(2) unfolding arr_flags_ok_def by blast
    moreover have "0 < unat (a_size s)" using q(1) unfolding arr_slots_def by simp
    ultimately show ?thesis by (simp add: word_less_nat_alt)
  qed
qed

lemma arr_step_inside:
  assumes "arr_inv n s" "arr_step n s t" "a_size s \<le> x"
  shows "a_lock t x = a_lock s x"
proof -
  obtain i where "arr_acquire_step i s t \<or> arr_release_step i s t" using assms(2) unfolding arr_step_def by blast
  then show ?thesis
    using arr_inv_release_slots [OF assms(1), of i] assms(3)
    by (auto elim!: arr_acquire_step.cases arr_release_step.cases)
qed

text \<open>
  C11: mutual exclusion and memory safety of the array lock, with at most as many threads as slots. No reachable state has two threads
  between \<open>arraylock_acquire\<close> and \<open>arraylock_release\<close>. Every index into the array is one of the \<open>size\<close> slots that \<open>arraylock_init\<close>
  allocated: the slot a thread spins on, the slot that a release clears and the slot that it sets; and no step changes a word
  outside of the array.
\<close>

theorem arraylock_mutual_exclusion:
  assumes "reach (arr_init n) (arr_step n) s"
  shows "(\<forall>i j. arr_cs s i \<longrightarrow> arr_cs s j \<longrightarrow> i = j) \<and>
    (\<forall>i. (a_pc s i = A_wait \<longrightarrow> a_pos s i < a_size s) \<and> (a_pc s i = A_clear \<longrightarrow> a_lockpos s < a_size s) \<and>
         (a_pc s i = A_set \<longrightarrow> a_nextpos s i < a_size s)) \<and>
    (\<forall>t x. arr_step n s t \<longrightarrow> a_size s \<le> x \<longrightarrow> a_lock t x = a_lock s x)"
proof -
  note inv = arrl.inv_reach [OF assms]
  show ?thesis
    using arrl.mutual_exclusion [OF assms] arr_step_inside [OF inv]
    by (auto intro: arr_inv_slot [OF inv] arr_inv_release_slots [OF inv])
qed

text \<open>
  C28: the array lock is first come, first served and forgets nobody: the threads enter in the order
  in which they took their slots, and whenever nobody is inside and somebody has arrived, the flag
  that the next one in line waits for is up.
\<close>

theorem arraylock_fifo:
  assumes "arr_log n s arrived entered"
  shows "prefix entered arrived \<and>
    (length entered < length arrived \<and> (\<forall>j. \<not> inside (a_pc s j)) \<longrightarrow>
       a_lock s (a_pos s (arrived ! length entered)) \<noteq> 0)"
proof -
  obtain h q d where q: "arr_queue n s h q" "arrived = d @ q"
    "entered = d @ (if q \<noteq> [] \<and> inside (a_pc s (hd q)) then [hd q] else [])"
    using arr_log_queue [OF assms] by blast
  then have "prefix entered arrived" by (cases q) (auto simp: prefix_def)
  moreover have "a_lock s (a_pos s (arrived ! length entered)) \<noteq> 0"
    if less: "length entered < length arrived" and out: "\<forall>j. \<not> inside (a_pc s j)"
  proof -
    have e: "q \<noteq> []" "arrived ! length entered = q ! 0" using less out q(2,3) by (auto simp: nth_append)
    have pos: "unat (a_pos s (q ! 0)) = h" "h < unat (a_size s)"
      using q(1) e(1) unfolding arr_queue_def arr_slots_def by simp_all
    moreover have "a_pc s j \<noteq> A_set" for j using out by (metis inside.simps(3))
    ultimately show ?thesis
      using q(1) e(2) unfolding arr_queue_def arr_flags_ok_def by (simp add: word_less_nat_alt)
  qed
  ultimately show ?thesis by blast
qed

definition arr0 :: arr where
  "arr0 = \<lparr>a_lock = (\<lambda>x. if x = 0 then 1 else 0), a_lockpos = 0, a_next = 0, a_size = 2, a_m = 0,
           a_pc = (\<lambda>_. A_out), a_pos = (\<lambda>_. 0), a_nextpos = (\<lambda>_. 0)\<rparr>"

lemma arr0_init: "arr_init 2 arr0"
proof -
  have "arr0 = arraylock_init arr0 2"
    by (auto simp: arr0_def arraylock_init_def fun_eq_iff upt_rec)
  then show ?thesis unfolding arr_init_def arr_start_def
    by (intro exI [of _ 2]) (auto simp: arr0_def)
qed

text \<open>Thread 0 takes slot 0 and enters; thread 1 takes slot 1 and waits; then thread 0 leaves.\<close>

definition arr_sched :: "nat list" where
  "arr_sched = [0, 0, 0, 0, 0, 0, 0, 0, 1, 1, 1, 1, 1, 1, 1, 1]"

text \<open>
  While thread 1 waits for slot 1 of two, thread 0 leaves: it clears slot 0 and sets slot 1. Later thread 1 leaves, and its release wraps around.
\<close>

definition arr_later :: "nat list" where
  "arr_later = arr_sched @ [0, 0, 0, 1, 1, 1, 1]"

theorem arraylock_mutual_exclusion_witness:
  "(\<exists>s. reach (arr_init 2) (arr_step 2) s \<and> arr_cs s 0 \<and> (\<forall>j. arr_cs s j \<longrightarrow> j = 0) \<and>
     a_pc s 1 = A_wait \<and> a_pos s 1 < a_size s) \<and>
   (\<exists>s. reach (arr_init 2) (arr_step 2) s \<and> a_pc s 1 = A_set \<and> a_lockpos s = 1 \<and> a_nextpos s 1 = 0 \<and> a_nextpos s 1 < a_size s)"
proof (intro conjI)
  obtain s arrived entered where x: "fold arr_log_exec arr_sched (arr0, [], []) = (s, arrived, entered)"
    by (cases rule: prod_cases3)
  have "arr_log 2 s arrived entered"
    using arr_log_run [OF _ arr_log.start [OF arr0_init] x] by (simp add: arr_sched_def)
  then have r: "reach (arr_init 2) (arr_step 2) s" by (rule arr_log_reach)
  moreover have "arr_cs s 0" "a_pc s 1 = A_wait"
    using x by (auto simp: arr_sched_def arr_log_exec_def arr_exec_def arr0_def arr_cs_def)
  ultimately show "\<exists>s. reach (arr_init 2) (arr_step 2) s \<and> arr_cs s 0 \<and> (\<forall>j. arr_cs s j \<longrightarrow> j = 0) \<and>
     a_pc s 1 = A_wait \<and> a_pos s 1 < a_size s"
    using arraylock_mutual_exclusion [OF r] by blast
next
  obtain s arrived entered where x: "fold arr_log_exec arr_later (arr0, [], []) = (s, arrived, entered)"
    by (cases rule: prod_cases3)
  have "arr_log 2 s arrived entered"
    using arr_log_run [OF _ arr_log.start [OF arr0_init] x] by (simp add: arr_later_def arr_sched_def)
  then have r: "reach (arr_init 2) (arr_step 2) s" by (rule arr_log_reach)
  moreover have "a_pc s 1 = A_set" "a_lockpos s = 1" "a_nextpos s 1 = 0"
    using x by (auto simp: arr_later_def arr_sched_def arr_log_exec_def arr_exec_def arr0_def)
  ultimately show "\<exists>s. reach (arr_init 2) (arr_step 2) s \<and> a_pc s 1 = A_set \<and> a_lockpos s = 1 \<and> a_nextpos s 1 = 0 \<and> a_nextpos s 1 < a_size s"
    using arraylock_mutual_exclusion [OF r] by blast
qed

theorem arraylock_fifo_witness:
  "\<exists>s. arr_log 2 s [0, 1] [0] \<and> (\<forall>j. \<not> inside (a_pc s j)) \<and> a_lock s (a_pos s 1) \<noteq> 0"
proof -
  obtain s arrived entered where x:
    "fold arr_log_exec (arr_sched @ [0, 0, 0]) (arr0, [], []) = (s, arrived, entered)"
    by (cases rule: prod_cases3)
  have l: "arr_log 2 s arrived entered"
    using arr_log_run [OF _ arr_log.start [OF arr0_init] x] by (simp add: arr_sched_def)
  moreover have "arrived = [0, 1]" "entered = [0]" "\<forall>j. \<not> inside (a_pc s j)"
    using x by (auto simp: arr_sched_def arr_log_exec_def arr_exec_def arr0_def split: if_splits)
  ultimately show ?thesis using arraylock_fifo [OF l] by auto
qed

end
