(* ===== verification/Xv6_Frisbee.thy ===== *)
theory Xv6_Frisbee
  imports Xv6_Libthread Xv6_Mcslock Xv6_Arraylock
begin

text \<open>
  The frisbee programs (\<open>frisbee.c\<close>, \<open>frisbee_mcs.c\<close>, \<open>frisbee_array.c\<close>): threads that pass a token
  round under a lock of the thread library. The loop \<open>frisbee_task\<close> is the same in the three
  programs but for the lock, the type of the counters and the comparisons, which are parameters;
  the game's property is proved once against the interface of a lock and then for each program.
\<close>

section \<open>The programs\<close>

text \<open>
  What a program uses of its lock: the steps of a thread's acquire and release, whether a thread is
  past its acquire, and whether its release has ended.
\<close>

record 'l lock_ops =
  lk_acquire :: "nat \<Rightarrow> 'l \<Rightarrow> 'l \<Rightarrow> bool"
  lk_release :: "nat \<Rightarrow> 'l \<Rightarrow> 'l \<Rightarrow> bool"
  lk_cs :: "'l \<Rightarrow> nat \<Rightarrow> bool"
  lk_idle :: "'l \<Rightarrow> nat \<Rightarrow> bool"

text \<open>
  The test for the end of the game, the test for the last thread, and whether the loop looks at
  \<open>passes\<close> before it takes the lock.
\<close>

record rules =
  over :: "u32 \<Rightarrow> u32 \<Rightarrow> bool"
  last_owner :: "u32 \<Rightarrow> u32 \<Rightarrow> bool"
  pretest :: bool

datatype gpc =
    G_pretest     \<comment> \<open>\<open>if(passes > maxpass) break\<close> before the lock\<close>
  | G_acquire
  | G_test        \<comment> \<open>\<open>if(passes > maxpass)\<close>\<close>
  | G_check       \<comment> \<open>\<open>if(cur_owner == tid)\<close>\<close>
  | G_inc         \<comment> \<open>\<open>cur_owner++\<close>\<close>
  | G_wrap        \<comment> \<open>\<open>if(cur_owner >= numthreads) cur_owner = 0\<close>\<close>
  | G_print
  | G_passes      \<comment> \<open>\<open>passes++\<close>\<close>
  | G_release
  | G_leave       \<comment> \<open>the release before \<open>break\<close>\<close>
  | G_done

record 'l game =
  g_lk :: 'l
  g_passes :: u32
  g_owner :: u32
  g_out :: "(u32 \<times> u32 \<times> u32) list"
  g_pc :: "nat \<Rightarrow> gpc"

abbreviation gat :: "'l game \<Rightarrow> nat \<Rightarrow> gpc \<Rightarrow> 'l game" where
  "gat g i p \<equiv> g\<lparr>g_pc := (g_pc g)(i := p)\<rparr>"

definition loop_pc :: "rules \<Rightarrow> gpc" where
  "loop_pc r = (if pretest r then G_pretest else G_acquire)"

inductive frisbee_task :: "'l lock_ops \<Rightarrow> rules \<Rightarrow> u32 \<Rightarrow> u32 \<Rightarrow> nat \<Rightarrow> 'l game \<Rightarrow> 'l game \<Rightarrow> bool"
  for L r numthreads maxpass i where
  look: "g_pc g i = G_pretest \<Longrightarrow>
    frisbee_task L r numthreads maxpass i g (gat g i (if over r (g_passes g) maxpass then G_done else G_acquire))"
| acquire: "g_pc g i = G_acquire \<Longrightarrow> lk_acquire L i (g_lk g) l \<Longrightarrow>
    frisbee_task L r numthreads maxpass i g (gat (g\<lparr>g_lk := l\<rparr>) i (if lk_cs L l i then G_test else G_acquire))"
| test: "g_pc g i = G_test \<Longrightarrow>
    frisbee_task L r numthreads maxpass i g (gat g i (if over r (g_passes g) maxpass then G_leave else G_check))"
| check: "g_pc g i = G_check \<Longrightarrow>
    frisbee_task L r numthreads maxpass i g (gat g i (if g_owner g = of_nat i then G_inc else G_release))"
| inc: "g_pc g i = G_inc \<Longrightarrow>
    frisbee_task L r numthreads maxpass i g (gat (g\<lparr>g_owner := g_owner g + 1\<rparr>) i G_wrap)"
| wrap: "g_pc g i = G_wrap \<Longrightarrow>
    frisbee_task L r numthreads maxpass i g
      (gat (g\<lparr>g_owner := if last_owner r (g_owner g) numthreads then 0 else g_owner g\<rparr>) i G_print)"
| print: "g_pc g i = G_print \<Longrightarrow>
    frisbee_task L r numthreads maxpass i g
      (gat (g\<lparr>g_out := g_out g @ [(g_passes g, of_nat i, g_owner g)]\<rparr>) i G_passes)"
| passes: "g_pc g i = G_passes \<Longrightarrow>
    frisbee_task L r numthreads maxpass i g (gat (g\<lparr>g_passes := g_passes g + 1\<rparr>) i G_release)"
| release: "g_pc g i = G_release \<Longrightarrow> lk_release L i (g_lk g) l \<Longrightarrow>
    frisbee_task L r numthreads maxpass i g (gat (g\<lparr>g_lk := l\<rparr>) i (if lk_idle L l i then loop_pc r else G_release))"
| leave: "g_pc g i = G_leave \<Longrightarrow> lk_release L i (g_lk g) l \<Longrightarrow>
    frisbee_task L r numthreads maxpass i g (gat (g\<lparr>g_lk := l\<rparr>) i (if lk_idle L l i then G_done else G_leave))"

text \<open>\<open>main\<close> initialises the lock and creates the threads \<open>0, ..., numthreads - 1\<close>.\<close>

definition game_start :: "('l \<Rightarrow> bool) \<Rightarrow> rules \<Rightarrow> 'l game \<Rightarrow> bool" where
  "game_start linit r g \<longleftrightarrow>
     linit (g_lk g) \<and> g_passes g = 1 \<and> g_owner g = 0 \<and> g_out g = [] \<and> (\<forall>i. g_pc g i = loop_pc r)"

definition game_step :: "'l lock_ops \<Rightarrow> rules \<Rightarrow> u32 \<Rightarrow> u32 \<Rightarrow> 'l game \<Rightarrow> 'l game \<Rightarrow> bool" where
  "game_step L r numthreads maxpass g h \<longleftrightarrow>
     (\<exists>i < unat numthreads. frisbee_task L r numthreads maxpass i g h)"

text \<open>The counters of \<open>frisbee.c\<close> are signed, those of the other two unsigned.\<close>

definition frisbee_rules :: rules where
  "frisbee_rules = \<lparr>over = (\<lambda>p m. sint p > sint m), last_owner = (\<lambda>c n. sint c \<ge> sint n), pretest = False\<rparr>"

definition uint_rules :: rules where
  "uint_rules = \<lparr>over = (\<lambda>p m. p > m), last_owner = (\<lambda>c n. c = n), pretest = True\<rparr>"

definition spin_ops :: "ulock lock_ops" where
  "spin_ops = \<lparr>lk_acquire = lock_acquire, lk_release = lock_release, lk_cs = lock_cs, lk_idle = (\<lambda>l i. l_pc l i = L_out)\<rparr>"

definition mcs_ops :: "mcs lock_ops" where
  "mcs_ops = \<lparr>lk_acquire = mcs_acquire_step, lk_release = mcs_release_step, lk_cs = mcs_cs,
     lk_idle = (\<lambda>l i. m_pc l i = M_out)\<rparr>"

definition array_ops :: "arr lock_ops" where
  "array_ops = \<lparr>lk_acquire = arr_acquire_step, lk_release = arr_release_step, lk_cs = arr_cs,
     lk_idle = (\<lambda>l i. a_pc l i = A_out)\<rparr>"

text \<open>What the game should print: pass \<open>k + 1\<close> goes from thread \<open>k mod n\<close> to the next one.\<close>

definition pass_line :: "nat \<Rightarrow> nat \<Rightarrow> u32 \<times> u32 \<times> u32" where
  "pass_line n k = (of_nat (k + 1), of_nat (k mod n), of_nat ((k + 1) mod n))"

section \<open>The game against the interface of a lock\<close>

text \<open>The thread that has the lock and what it has done of the pass it is making.\<close>

fun in_body :: "gpc \<Rightarrow> bool" where
  "in_body G_test = True"
| "in_body G_check = True"
| "in_body G_inc = True"
| "in_body G_wrap = True"
| "in_body G_print = True"
| "in_body G_passes = True"
| "in_body _ = False"

fun pass_ok :: "gpc \<Rightarrow> nat \<Rightarrow> nat \<Rightarrow> nat \<Rightarrow> u32 \<Rightarrow> u32 \<Rightarrow> nat \<Rightarrow> bool" where
  "pass_ok G_check i n m p c k = (k < m)"
| "pass_ok G_inc i n m p c k = (k < m \<and> i = k mod n)"
| "pass_ok G_wrap i n m p c k = (k < m \<and> i = k mod n \<and> p = of_nat (k + 1) \<and> c = of_nat (k mod n + 1))"
| "pass_ok G_print i n m p c k = (k < m \<and> i = k mod n \<and> p = of_nat (k + 1) \<and> c = of_nat ((k + 1) mod n))"
| "pass_ok G_passes i n m p c k = (k \<le> m \<and> p = of_nat k \<and> c = of_nat (k mod n))"
| "pass_ok G_leave i n m p c k = (k = m)"
| "pass_ok G_done i n m p c k = (k = m)"
| "pass_ok _ i n m p c k = True"

fun midway :: "gpc \<Rightarrow> bool" where
  "midway G_wrap = True"
| "midway G_print = True"
| "midway G_passes = True"
| "midway _ = False"

definition game_ok :: "'l lock_ops \<Rightarrow> nat \<Rightarrow> nat \<Rightarrow> 'l game \<Rightarrow> bool" where
  "game_ok L n m g \<longleftrightarrow>
     (\<forall>i. in_body (g_pc g i) \<longrightarrow> lk_cs L (g_lk g) i) \<and>
     length (g_out g) \<le> m \<and> g_out g = map (pass_line n) [0..<length (g_out g)] \<and>
     (\<forall>i. pass_ok (g_pc g i) i n m (g_passes g) (g_owner g) (length (g_out g))) \<and>
     ((\<forall>i. \<not> midway (g_pc g i)) \<longrightarrow>
        g_passes g = of_nat (length (g_out g) + 1) \<and> g_owner g = of_nat (length (g_out g) mod n))"

lemma pass_ok_outside: "\<not> in_body pc \<Longrightarrow> pass_ok pc i n m p c k \<Longrightarrow> pass_ok pc i n m p' c' k"
  by (cases pc) simp_all

lemma game_ok_local:
  assumes "game_ok L n m g" "\<And>j. j \<noteq> i \<Longrightarrow> lk_cs L l j = lk_cs L (g_lk g) j" "in_body p \<Longrightarrow> lk_cs L l i"
    "pass_ok p i n m (g_passes g) (g_owner g) (length (g_out g))" "\<not> midway (g_pc g i)" "\<not> midway p"
  shows "game_ok L n m (gat (g\<lparr>g_lk := l\<rparr>) i p)"
proof -
  have "(\<forall>j. \<not> midway (((g_pc g)(i := p)) j)) \<longleftrightarrow> (\<forall>j. \<not> midway (g_pc g j))"
    using assms(5,6) by (metis fun_upd_apply)
  then show ?thesis using assms unfolding game_ok_def by simp
qed

text \<open>A step of the thread that has the lock, when it changes the counters.\<close>

lemma game_ok_body:
  assumes "game_ok L n m g" "\<And>j. in_body (g_pc g j) \<Longrightarrow> j = i"
    "in_body p \<Longrightarrow> lk_cs L (g_lk g) i"
    "k \<le> m" "out = map (pass_line n) [0..<k]" "k = length (g_out g) \<or> k = Suc (length (g_out g))"
    "pass_ok p i n m ps c k"
    "\<not> midway p \<Longrightarrow> ps = of_nat (k + 1) \<and> c = of_nat (k mod n)" "length (g_out g) < m \<or> k = length (g_out g)"
  shows "game_ok L n m (gat (g\<lparr>g_passes := ps, g_owner := c, g_out := out\<rparr>) i p)"
proof -
  have other: "\<not> in_body (g_pc g j)" if "j \<noteq> i" for j using assms(2) that by blast
  have ok: "pass_ok (g_pc g j) j n m ps c k" if "j \<noteq> i" for j
  proof -
    have "pass_ok (g_pc g j) j n m ps c (length (g_out g))"
      using assms(1) pass_ok_outside [OF other [OF that]] unfolding game_ok_def by blast
    then show ?thesis using other [OF that] assms(6,9) by (cases "g_pc g j") auto
  qed
  have "\<not> midway (g_pc g j)" if "j \<noteq> i" for j using other [OF that] by (cases "g_pc g j") simp_all
  then show ?thesis using ok other assms(3-8) unfolding game_ok_def by auto
qed

locale frisbee_game =
  fixes L :: "'l lock_ops" and linit :: "'l \<Rightarrow> bool" and linv :: "'l \<Rightarrow> bool"
    and r :: rules and n m :: u32
  assumes lock_init: "linit l \<Longrightarrow> linv l"
    and lock_acquire: "linv l \<Longrightarrow> i < unat n \<Longrightarrow> lk_acquire L i l l' \<Longrightarrow>
      linv l' \<and> (\<forall>j. j \<noteq> i \<longrightarrow> lk_cs L l' j = lk_cs L l j)"
    and lock_release: "linv l \<Longrightarrow> i < unat n \<Longrightarrow> lk_release L i l l' \<Longrightarrow>
      linv l' \<and> (\<forall>j. j \<noteq> i \<longrightarrow> lk_cs L l' j = lk_cs L l j)"
    and lock_exclusive: "linv l \<Longrightarrow> lk_cs L l i \<Longrightarrow> lk_cs L l j \<Longrightarrow> i = j"
    and some_thread: "0 < n"
    and over: "p \<le> unat m + 1 \<Longrightarrow> over r (of_nat p) m \<longleftrightarrow> unat m < p"
    and last_owner: "c < unat n \<Longrightarrow> last_owner r (of_nat c + 1) n \<longleftrightarrow> c + 1 = unat n"
begin

definition inv :: "'l game \<Rightarrow> bool" where
  "inv g \<longleftrightarrow> linv (g_lk g) \<and> game_ok L (unat n) (unat m) g"

lemma only_body: "inv g \<Longrightarrow> in_body (g_pc g i) \<Longrightarrow> in_body (g_pc g j) \<Longrightarrow> j = i"
  using lock_exclusive unfolding inv_def game_ok_def by metis

lemma not_midway:
  assumes "inv g" "in_body (g_pc g i)" "\<not> midway (g_pc g i)"
  shows "\<not> midway (g_pc g j)"
proof -
  have "midway (g_pc g j) \<Longrightarrow> in_body (g_pc g j)" by (cases "g_pc g j") simp_all
  then show ?thesis using only_body [OF assms(1,2)] assms(3) by blast
qed

lemma counters:
  assumes "inv g" "in_body (g_pc g i)" "\<not> midway (g_pc g i)"
  shows "g_passes g = of_nat (length (g_out g) + 1) \<and> g_owner g = of_nat (length (g_out g) mod unat n)"
  using assms(1) not_midway [OF assms] unfolding inv_def game_ok_def by blast

lemma length_le: "inv g \<Longrightarrow> length (g_out g) \<le> unat m"
  unfolding inv_def game_ok_def by simp

lemma pass_okD: "inv g \<Longrightarrow> pass_ok (g_pc g i) i (unat n) (unat m) (g_passes g) (g_owner g) (length (g_out g))"
  unfolding inv_def game_ok_def by simp

lemma linvD: "inv g \<Longrightarrow> linv (g_lk g)"
  unfolding inv_def by simp

lemma outD: "inv g \<Longrightarrow> g_out g = map (pass_line (unat n)) [0..<length (g_out g)]"
  unfolding inv_def game_ok_def by simp

lemma over_end:
  assumes "inv g" "over r (g_passes g) m"
  shows "length (g_out g) = unat m"
proof (cases "\<exists>j. midway (g_pc g j)")
  case True
  then obtain j where j: "midway (g_pc g j)" by blast
  then have "\<exists>p. g_passes g = of_nat p \<and> p \<le> unat m"
    using pass_okD [OF assms(1), of j] by (cases "g_pc g j") (auto intro: exI [of _ "Suc (length (g_out g))"])
  then show ?thesis using over assms(2) by force
next
  case False
  then have "g_passes g = of_nat (length (g_out g) + 1)"
    using assms(1) unfolding inv_def game_ok_def by blast
  then show ?thesis using over [of "length (g_out g) + 1"] length_le [OF assms(1)] assms(2) by simp
qed

lemma of_nat_thread_eq:
  assumes "a < unat n" "b < unat n" "(of_nat a :: u32) = of_nat b"
  shows "a = b"
proof -
  have "unat n < 2 ^ 32" using unsigned_less [of n] by simp
  then show ?thesis using assms by (simp add: word_unat_eq_iff unat_of_nat)
qed

lemma next_owner:
  assumes "i < unat n"
  shows "(if last_owner r (of_nat i + 1) n then 0 else of_nat i + 1 :: u32) = of_nat (Suc i mod unat n)"
  using last_owner [OF assms] assms by (auto simp: not_le)

lemma task_lock:
  assumes "inv g" "h = g\<lparr>g_lk := l, g_pc := (g_pc g)(i := p)\<rparr>" "\<not> midway (g_pc g i)" "\<not> midway p"
    "linv l" "\<forall>j. j \<noteq> i \<longrightarrow> lk_cs L l j = lk_cs L (g_lk g) j" "in_body p \<Longrightarrow> lk_cs L l i"
    "pass_ok p i (unat n) (unat m) (g_passes g) (g_owner g) (length (g_out g))"
  shows "inv h"
  using assms game_ok_local [of L "unat n" "unat m" g i l p] unfolding inv_def by simp

lemma task_pure:
  assumes "inv g" "h = g\<lparr>g_pc := (g_pc g)(i := p)\<rparr>" "\<not> midway (g_pc g i)" "\<not> midway p"
    "in_body p \<Longrightarrow> in_body (g_pc g i)"
    "pass_ok p i (unat n) (unat m) (g_passes g) (g_owner g) (length (g_out g))"
  shows "inv h"
proof (rule task_lock [where g = g and l = "g_lk g" and i = i and p = p])
  show "linv (g_lk g)" using assms(1) by (simp add: inv_def)
  show "in_body p \<Longrightarrow> lk_cs L (g_lk g) i" using assms(1,5) by (simp add: inv_def game_ok_def)
qed (use assms in simp_all)

lemma task_body:
  assumes "inv g" "in_body (g_pc g i)" "p \<in> {G_wrap, G_print, G_passes, G_release}"
    "h = g\<lparr>g_passes := ps, g_owner := c, g_out := map (pass_line (unat n)) [0..<k], g_pc := (g_pc g)(i := p)\<rparr>"
    "k \<le> unat m" "k = length (g_out g) \<or> k = Suc (length (g_out g))"
    "pass_ok p i (unat n) (unat m) ps c k"
    "p = G_release \<Longrightarrow> ps = of_nat (k + 1) \<and> c = of_nat (k mod unat n)"
    "length (g_out g) < unat m \<or> k = length (g_out g)"
  shows "inv h"
proof -
  have "game_ok L (unat n) (unat m)
      (gat (g\<lparr>g_passes := ps, g_owner := c, g_out := map (pass_line (unat n)) [0..<k]\<rparr>) i p)"
  proof (rule game_ok_body [where k = k])
    show "in_body p \<Longrightarrow> lk_cs L (g_lk g) i" using assms(1,2) by (simp add: inv_def game_ok_def)
    show "game_ok L (unat n) (unat m) g" using assms(1) by (simp add: inv_def)
    show "\<And>j. in_body (g_pc g j) \<Longrightarrow> j = i" using only_body [OF assms(1,2)] .
    show "\<not> midway p \<Longrightarrow> ps = of_nat (k + 1) \<and> c = of_nat (k mod unat n)"
      using assms(3,8) by auto
  qed (use assms(5-7,9) in simp_all)
  then show ?thesis using assms(1,4) by (simp add: inv_def)
qed

lemma inv_task:
  assumes "inv g" "i < unat n" "frisbee_task L r n m i g h"
  shows "inv h"
proof -
  let ?k = "length (g_out g)"
  note ok = pass_okD [OF assms(1), of i] and le = length_le [OF assms(1)]
  note out = outD [OF assms(1), symmetric]
  show ?thesis using assms(3)
  proof cases
    case look
    then show ?thesis using over_end [OF assms(1)] by (intro task_pure [OF assms(1), OF look(1)]) (auto split: if_splits)
  next
    case (acquire l)
    then show ?thesis
      using lock_acquire [OF linvD [OF assms(1)] assms(2), of l]
      by (intro task_lock [OF assms(1), where l = l and i = i and p = "if lk_cs L l i then G_test else G_acquire"])
        (auto split: if_splits)
  next
    case test
    then have "over r (g_passes g) m \<longleftrightarrow> unat m < ?k + 1"
      using counters [OF assms(1), of i] over [of "?k + 1"] le by simp
    then show ?thesis using test le by (intro task_pure [OF assms(1), OF test(1)]) (auto split: if_splits)
  next
    case check
    have "g_owner g = of_nat i \<Longrightarrow> i = ?k mod unat n"
      using counters [OF assms(1), of i] check(2) of_nat_thread_eq [of i "?k mod unat n"] assms(2) by simp
    then show ?thesis using check ok by (intro task_pure [OF assms(1), OF check(1)]) (auto split: if_splits)
  next
    case inc
    then show ?thesis
      using counters [OF assms(1), of i] ok le out
      by (intro task_body [OF assms(1), where i = i and p = G_wrap and ps = "g_passes g" and c = "g_owner g + 1" and k = ?k]) simp_all
  next
    case wrap
    then have w: "i = ?k mod unat n" "g_owner g = of_nat i + 1" using ok by (simp_all add: add.commute)
    have "(if last_owner r (g_owner g) n then 0 else g_owner g) = of_nat (Suc ?k mod unat n)"
      unfolding w(2) next_owner [OF assms(2)] by (simp add: w(1) mod_Suc_eq)
    then show ?thesis
      using wrap ok le out
      by (intro task_body [OF assms(1), where i = i and p = G_print and ps = "g_passes g" and
            c = "of_nat (Suc ?k mod unat n)" and k = ?k]) simp_all
  next
    case print
    then show ?thesis
      using ok le out by (intro task_body [OF assms(1), where i = i and p = G_passes and ps = "g_passes g" and c = "g_owner g" and k = "Suc ?k"])
        (simp_all add: pass_line_def)
  next
    case passes
    then show ?thesis
      using ok le out by (intro task_body [OF assms(1), where i = i and p = G_release and ps = "g_passes g + 1" and c = "g_owner g" and k = ?k]) simp_all
  next
    case (release l)
    then show ?thesis
      using lock_release [OF linvD [OF assms(1)] assms(2), of l]
      by (intro task_lock [OF assms(1), where l = l and i = i and p = "if lk_idle L l i then loop_pc r else G_release"])
        (auto simp: loop_pc_def split: if_splits)
  next
    case (leave l)
    then show ?thesis
      using lock_release [OF linvD [OF assms(1)] assms(2), of l] ok
      by (intro task_lock [OF assms(1), where l = l and i = i and p = "if lk_idle L l i then G_done else G_leave"])
        (auto split: if_splits)
  qed
qed

lemma inv_start: "game_start linit r g \<Longrightarrow> inv g"
  using lock_init by (auto simp: game_start_def inv_def game_ok_def loop_pc_def)

lemma inv_game_step: "inv g \<Longrightarrow> game_step L r n m g h \<Longrightarrow> inv h"
  using inv_task unfolding game_step_def by blast

lemma lines:
  assumes "inv g"
  shows "g_out g = map (pass_line (unat n)) [0..<length (g_out g)] \<and> length (g_out g) \<le> unat m \<and>
    (\<forall>i. g_pc g i = G_done \<longrightarrow> length (g_out g) = unat m)"
  using outD [OF assms] length_le [OF assms] pass_okD [OF assms] by (metis pass_ok.simps(7))

end

sublocale frisbee_game \<subseteq> invariant_system "game_start linit r" "game_step L r n m" inv
  using inv_start inv_game_step by unfold_locales blast+

context frisbee_game begin

lemma reach_lines:
  assumes "reach (game_start linit r) (game_step L r n m) g"
  shows "g_out g = map (pass_line (unat n)) [0..<length (g_out g)] \<and> length (g_out g) \<le> unat m \<and>
    (\<forall>i. g_pc g i = G_done \<longrightarrow> length (g_out g) = unat m)"
  by (rule lines [OF inv_reach [OF assms]])

end

section \<open>The three programs\<close>

lemma sint_of_nat: "k < 2 ^ 31 \<Longrightarrow> sint (of_nat k :: u32) = int k"
  by (simp add: sint_uint uint_nat unat_of_nat signed_take_bit_int_eq_self)

lemma frisbee_rules_ok:
  assumes "unat n < 2 ^ 31" "unat m + 1 < 2 ^ 31"
  shows "p \<le> unat m + 1 \<Longrightarrow> over frisbee_rules (of_nat p) m \<longleftrightarrow> unat m < p"
    and "c < unat n \<Longrightarrow> last_owner frisbee_rules (of_nat c + 1) n \<longleftrightarrow> c + 1 = unat n"
proof -
  have nm: "sint n = int (unat n)" "sint m = int (unat m)"
    using sint_of_nat [of "unat n"] sint_of_nat [of "unat m"] assms by simp_all
  show "p \<le> unat m + 1 \<Longrightarrow> over frisbee_rules (of_nat p) m \<longleftrightarrow> unat m < p"
    using assms nm sint_of_nat [of p] by (simp only: frisbee_rules_def rules.simps) linarith
  show "c < unat n \<Longrightarrow> last_owner frisbee_rules (of_nat c + 1) n \<longleftrightarrow> c + 1 = unat n"
    using assms nm sint_of_nat [of "Suc c"] by (simp only: frisbee_rules_def rules.simps of_nat_Suc add.commute) linarith
qed

lemma uint_rules_ok:
  assumes "unat m + 1 < 2 ^ 32"
  shows "p \<le> unat m + 1 \<Longrightarrow> over uint_rules (of_nat p) m \<longleftrightarrow> unat m < p"
    and "c < unat n \<Longrightarrow> last_owner uint_rules (of_nat c + 1) n \<longleftrightarrow> c + 1 = unat n"
proof -
  show "p \<le> unat m + 1 \<Longrightarrow> over uint_rules (of_nat p) m \<longleftrightarrow> unat m < p"
    using assms by (simp add: uint_rules_def word_less_nat_alt unat_of_nat)
  have n: "unat n < 2 ^ 32" using unsigned_less [of n] by simp
  show "c < unat n \<Longrightarrow> last_owner uint_rules (of_nat c + 1) n \<longleftrightarrow> c + 1 = unat n"
    using n unat_of_nat [of "Suc c", where 'a = 32] of_nat_Suc [of c, where 'a = u32]
    by (simp add: uint_rules_def word_unat_eq_iff add.commute [of "of_nat c"])
qed

lemma spin_ops_other:
  "lock_acquire i l l' \<Longrightarrow> j \<noteq> i \<Longrightarrow> lock_cs l' j = lock_cs l j"
  "lock_release i l l' \<Longrightarrow> j \<noteq> i \<Longrightarrow> lock_cs l' j = lock_cs l j"
  by (auto elim!: lock_acquire.cases lock_release.cases simp: lock_cs_def)

lemma frisbee_game_spin:
  assumes "0 < n" "unat n < 2 ^ 31" "unat m + 1 < 2 ^ 31"
  shows "frisbee_game spin_ops lock_init lock_inv frisbee_rules n m"
proof
  show "lock_inv l" if "lock_init l" for l
    using that by (rule ulk.inv_init)
  show "lock_inv l' \<and> (\<forall>j. j \<noteq> i \<longrightarrow> lk_cs spin_ops l' j = lk_cs spin_ops l j)"
    if "lock_inv l" "i < unat n" "lk_acquire spin_ops i l l'" for l i l'
    using that lock_inv_acquire spin_ops_other(1) by (auto simp: spin_ops_def)
  show "lock_inv l' \<and> (\<forall>j. j \<noteq> i \<longrightarrow> lk_cs spin_ops l' j = lk_cs spin_ops l j)"
    if "lock_inv l" "i < unat n" "lk_release spin_ops i l l'" for l i l'
    using that lock_inv_release spin_ops_other(2) by (auto simp: spin_ops_def)
  show "i = j" if "lock_inv l" "lk_cs spin_ops l i" "lk_cs spin_ops l j" for l i j
    using ulk.exclusive [of l i j] that by (simp add: spin_ops_def)
qed (use assms frisbee_rules_ok [OF assms(2,3)] in blast)+

lemma mcs_ops_other:
  "mcs_acquire_step i l l' \<Longrightarrow> j \<noteq> i \<Longrightarrow> mcs_cs l' j = mcs_cs l j"
  "mcs_release_step i l l' \<Longrightarrow> j \<noteq> i \<Longrightarrow> mcs_cs l' j = mcs_cs l j"
  by (auto elim!: mcs_acquire_step.cases mcs_release_step.cases simp: mcs_cs_def)

lemma mcs_ops_inv:
  "mcs_inv l \<Longrightarrow> mcs_acquire_step i l l' \<Longrightarrow> mcs_inv l'" "mcs_inv l \<Longrightarrow> mcs_release_step i l l' \<Longrightarrow> mcs_inv l'"
  using mcsl.inv_step unfolding mcs_step_def by blast+

lemma frisbee_game_mcs:
  assumes "0 < n" "unat m + 1 < 2 ^ 32"
  shows "frisbee_game mcs_ops mcs_init mcs_inv uint_rules n m"
proof
  show "mcs_inv l" if "mcs_init l" for l
    using that by (rule mcsl.inv_init)
  show "mcs_inv l' \<and> (\<forall>j. j \<noteq> i \<longrightarrow> lk_cs mcs_ops l' j = lk_cs mcs_ops l j)"
    if "mcs_inv l" "i < unat n" "lk_acquire mcs_ops i l l'" for l i l'
    using that mcs_ops_inv(1) mcs_ops_other(1) by (auto simp: mcs_ops_def)
  show "mcs_inv l' \<and> (\<forall>j. j \<noteq> i \<longrightarrow> lk_cs mcs_ops l' j = lk_cs mcs_ops l j)"
    if "mcs_inv l" "i < unat n" "lk_release mcs_ops i l l'" for l i l'
    using that mcs_ops_inv(2) mcs_ops_other(2) by (auto simp: mcs_ops_def)
  show "i = j" if "mcs_inv l" "lk_cs mcs_ops l i" "lk_cs mcs_ops l j" for l i j
    using mcsl.exclusive [of l i j] that by (simp add: mcs_ops_def)
qed (use assms uint_rules_ok [OF assms(2)] in blast)+

lemma array_ops_other:
  "arr_acquire_step i l l' \<Longrightarrow> j \<noteq> i \<Longrightarrow> arr_cs l' j = arr_cs l j"
  "arr_release_step i l l' \<Longrightarrow> j \<noteq> i \<Longrightarrow> arr_cs l' j = arr_cs l j"
  by (auto elim!: arr_acquire_step.cases arr_release_step.cases simp: arr_cs_def)

lemma array_ops_inv:
  "arr_inv n l \<Longrightarrow> i < n \<Longrightarrow> arr_acquire_step i l l' \<Longrightarrow> arr_inv n l'"
  "arr_inv n l \<Longrightarrow> i < n \<Longrightarrow> arr_release_step i l l' \<Longrightarrow> arr_inv n l'"
  using arrl.inv_step unfolding arr_step_def by blast+

lemma frisbee_game_array:
  assumes "0 < n" "unat m + 1 < 2 ^ 32"
  shows "frisbee_game array_ops (arr_start n) (arr_inv (unat n)) uint_rules n m"
proof
  show "arr_inv (unat n) l" if "arr_start n l" for l
    using that assms(1) arrl.inv_init [of "unat n" l] unfolding arr_init_def by blast
  show "arr_inv (unat n) l' \<and> (\<forall>j. j \<noteq> i \<longrightarrow> lk_cs array_ops l' j = lk_cs array_ops l j)"
    if "arr_inv (unat n) l" "i < unat n" "lk_acquire array_ops i l l'" for l i l'
    using that array_ops_inv(1) array_ops_other(1) by (auto simp: array_ops_def)
  show "arr_inv (unat n) l' \<and> (\<forall>j. j \<noteq> i \<longrightarrow> lk_cs array_ops l' j = lk_cs array_ops l j)"
    if "arr_inv (unat n) l" "i < unat n" "lk_release array_ops i l l'" for l i l'
    using that array_ops_inv(2) array_ops_other(2) by (auto simp: array_ops_def)
  show "i = j" if "arr_inv (unat n) l" "lk_cs array_ops l i" "lk_cs array_ops l j" for l i j
    using arrl.exclusive [of "unat n" l i j] that by (simp add: array_ops_def)
qed (use assms uint_rules_ok [OF assms(2)] in blast)+

text \<open>The programs with the numbers of threads and passes they use when they get no arguments.\<close>

interpretation frisbee_c: frisbee_game spin_ops lock_init lock_inv frisbee_rules 4 6
  by (rule frisbee_game_spin) simp_all

interpretation frisbee_mcs_c: frisbee_game mcs_ops mcs_init mcs_inv uint_rules 20 60
  by (rule frisbee_game_mcs) simp_all

interpretation frisbee_array_c: frisbee_game array_ops "arr_start 20" "arr_inv (unat (20 :: u32))" uint_rules 20 60
  by (rule frisbee_game_array) simp_all

text \<open>
  C9: \<open>frisbee.c\<close> with \<open>n\<close> threads and \<open>m\<close> passes, however the threads interleave: what has been
  printed is always the first lines of the game, pass \<open>k + 1\<close> from thread \<open>k mod n\<close> to thread
  \<open>(k + 1) mod n\<close>, never more than \<open>m\<close> of them, and all \<open>m\<close> once any thread has finished.
\<close>

theorem frisbee_prints_game:
  assumes "0 < n" "unat n < 2 ^ 31" "unat m + 1 < 2 ^ 31"
    "reach (game_start lock_init frisbee_rules) (game_step spin_ops frisbee_rules n m) g"
  shows "g_out g = map (pass_line (unat n)) [0..<length (g_out g)] \<and> length (g_out g) \<le> unat m \<and>
    (\<forall>i. g_pc g i = G_done \<longrightarrow> length (g_out g) = unat m)"
  by (rule frisbee_game.reach_lines [OF frisbee_game_spin [OF assms(1-3)] assms(4)])

text \<open>
  the same for \<open>frisbee_mcs.c\<close>, whose counters are unsigned and which looks at \<open>passes\<close> also
  without the lock, with the MCS lock.
\<close>

lemma frisbee_mcs_prints_game:
  assumes "0 < n" "unat m + 1 < 2 ^ 32"
    "reach (game_start mcs_init uint_rules) (game_step mcs_ops uint_rules n m) g"
  shows "g_out g = map (pass_line (unat n)) [0..<length (g_out g)] \<and> length (g_out g) \<le> unat m \<and>
    (\<forall>i. g_pc g i = G_done \<longrightarrow> length (g_out g) = unat m)"
  by (rule frisbee_game.reach_lines [OF frisbee_game_mcs [OF assms(1,2)] assms(3)])

text \<open>
  the same for \<open>frisbee_array.c\<close>, with an array lock that has one slot for each thread.
\<close>

lemma frisbee_array_prints_game:
  assumes "0 < n" "unat m + 1 < 2 ^ 32"
    "reach (game_start (arr_start n) uint_rules) (game_step array_ops uint_rules n m) g"
  shows "g_out g = map (pass_line (unat n)) [0..<length (g_out g)] \<and> length (g_out g) \<le> unat m \<and>
    (\<forall>i. g_pc g i = G_done \<longrightarrow> length (g_out g) = unat m)"
  by (rule frisbee_game.reach_lines [OF frisbee_game_array [OF assms(1,2)] assms(3)])

text \<open>A game of one pass that thread 0 makes, by hand.\<close>

definition game0 :: "'l \<Rightarrow> rules \<Rightarrow> 'l game" where
  "game0 l r = \<lparr>g_lk = l, g_passes = 1, g_owner = 0, g_out = [], g_pc = (\<lambda>_. loop_pc r)\<rparr>"

definition game1 :: "ulock game" where
  "game1 = \<lparr>g_lk = \<lparr>l_lock = 1, l_pc = (\<lambda>_. L_out)(0 := L_crit)\<rparr>, g_passes = 1, g_owner = 1,
            g_out = [(1, 0, 1)], g_pc = (\<lambda>_. G_acquire)(0 := G_passes)\<rparr>"

lemma game_stepI: "i < unat n \<Longrightarrow> frisbee_task L r n m i g h \<Longrightarrow> game_step L r n m g h"
  unfolding game_step_def by blast

lemma game1_reach:
  "reach (game_start lock_init frisbee_rules) (game_step spin_ops frisbee_rules 2 1) game1"
proof -
  let ?crit = "\<lparr>l_lock = 1, l_pc = (\<lambda>_. L_out)(0 := L_crit)\<rparr> :: ulock"
  let ?spin = "\<lparr>l_lock = 0, l_pc = (\<lambda>_. L_out)(0 := L_spin)\<rparr> :: ulock"
  let ?g = "\<lambda>l c out p. \<lparr>g_lk = l, g_passes = 1, g_owner = c, g_out = out, g_pc = (\<lambda>_. G_acquire)(0 := p)\<rparr>"
  let ?task = "frisbee_task spin_ops frisbee_rules 2 1 0"
  have step: "reach (game_start lock_init frisbee_rules) (game_step spin_ops frisbee_rules 2 1) h"
    if "?task g h" "reach (game_start lock_init frisbee_rules) (game_step spin_ops frisbee_rules 2 1) g" for g h
    using that by (intro reach_step [OF that(2)] game_stepI [of 0]) simp_all
  have acq: "lock_acquire 0 lock0 ?spin" "lock_acquire 0 ?spin ?crit"
    using lock_acquire.call [of lock0 0] lock_acquire.exchange [of ?spin 0] by (simp_all add: lock0_def)
  have t1: "?task (game0 lock0 frisbee_rules) (?g ?spin 0 [] G_acquire)"
    using frisbee_task.acquire [of "game0 lock0 frisbee_rules" 0 spin_ops ?spin frisbee_rules 2 1] acq(1)
    by (simp add: game0_def loop_pc_def frisbee_rules_def spin_ops_def lock_cs_def fun_upd_idem)
  have t2: "?task (?g ?spin 0 [] G_acquire) (?g ?crit 0 [] G_test)"
    using frisbee_task.acquire [of "?g ?spin 0 [] G_acquire" 0 spin_ops ?crit frisbee_rules 2 1] acq(2)
    by (simp add: spin_ops_def lock_cs_def)
  have t3: "?task (?g ?crit 0 [] G_test) (?g ?crit 0 [] G_check)"
    using frisbee_task.test [of "?g ?crit 0 [] G_test" 0 spin_ops frisbee_rules 2 1] by (simp add: frisbee_rules_def)
  have t4: "?task (?g ?crit 0 [] G_check) (?g ?crit 0 [] G_inc)"
    using frisbee_task.check [of "?g ?crit 0 [] G_check" 0 spin_ops frisbee_rules 2 1] by simp
  have t5: "?task (?g ?crit 0 [] G_inc) (?g ?crit 1 [] G_wrap)"
    using frisbee_task.inc [of "?g ?crit 0 [] G_inc" 0 spin_ops frisbee_rules 2 1] by simp
  have t6: "?task (?g ?crit 1 [] G_wrap) (?g ?crit 1 [] G_print)"
    using frisbee_task.wrap [of "?g ?crit 1 [] G_wrap" 0 spin_ops frisbee_rules 2 1] by (simp add: frisbee_rules_def)
  have t7: "?task (?g ?crit 1 [] G_print) game1"
    using frisbee_task.print [of "?g ?crit 1 [] G_print" 0 spin_ops frisbee_rules 2 1] by (simp add: game1_def)
  have t8: "game_start lock_init frisbee_rules (game0 lock0 frisbee_rules)"
    by (simp add: game_start_def game0_def lock_init_def lock0_def)
  have r0: "reach (game_start lock_init frisbee_rules) (game_step spin_ops frisbee_rules 2 1) (game0 lock0 frisbee_rules)"
    using t8 by (rule reach_init)
  show ?thesis
    by (rule step [OF t7 step [OF t6 step [OF t5 step [OF t4 step [OF t3 step [OF t2 step [OF t1 r0]]]]]]])
qed

theorem frisbee_prints_game_witness:
  "reach (game_start lock_init frisbee_rules) (game_step spin_ops frisbee_rules 2 1) game1 \<and>
   g_out game1 = [pass_line 2 0] \<and> length (g_out game1) \<le> 1"
  using frisbee_prints_game [OF _ _ _ game1_reach] game1_reach by (simp add: game1_def pass_line_def)

lemma mcs_game0_reach:
  "reach (game_start mcs_init uint_rules) (game_step mcs_ops uint_rules 20 60) (game0 mcs0 uint_rules)"
  by (rule reach_init) (simp add: game_start_def game0_def mcs_init_def mcs0_def)

lemma frisbee_mcs_prints_game_witness:
  "reach (game_start mcs_init uint_rules) (game_step mcs_ops uint_rules 20 60) (game0 mcs0 uint_rules) \<and>
   length (g_out (game0 mcs0 uint_rules)) \<le> 60"
  using frisbee_mcs_prints_game [OF _ _ mcs_game0_reach] mcs_game0_reach by simp

lemma array_game0_reach:
  "reach (game_start (arr_start 2) uint_rules) (game_step array_ops uint_rules 2 60) (game0 arr0 uint_rules)"
proof (rule reach_init)
  have "arr_start 2 arr0"
    unfolding arr_start_def
    by (rule exI [of _ arr0]) (auto simp: arr0_def arraylock_init_def fun_eq_iff upt_rec)
  then show "game_start (arr_start 2) uint_rules (game0 arr0 uint_rules)"
    by (simp add: game_start_def game0_def)
qed

lemma frisbee_array_prints_game_witness:
  "reach (game_start (arr_start 2) uint_rules) (game_step array_ops uint_rules 2 60) (game0 arr0 uint_rules) \<and>
   length (g_out (game0 arr0 uint_rules)) \<le> 60"
  using frisbee_array_prints_game [OF _ _ array_game0_reach] array_game0_reach by simp

end
