(* ===== verification/Xv6_Seqgame.thy ===== *)
theory Xv6_Seqgame
  imports Xv6_Frisbee
begin

text \<open>
  The frisbee program with a sequence lock (\<open>frisbee_seq.c\<close>): no thread holds a lock while it makes its pass. A thread that finds itself
  to be the owner prints the pass and then writes \<open>passes\<close> and \<open>cur_owner\<close> with two calls of \<open>seqlock_write\<close>.
\<close>

section \<open>The program\<close>

datatype spc =
    S_read       \<comment> \<open>\<open>owner = seqlock_read(args->lock, &cur_owner)\<close>\<close>
  | S_look       \<comment> \<open>\<open>cpass = passes\<close> and the tests\<close>
  | S_print
  | S_passes     \<comment> \<open>\<open>seqlock_write(args->lock, &passes, passes + 1)\<close>\<close>
  | S_owner      \<comment> \<open>\<open>seqlock_write(args->lock, &cur_owner, owner)\<close>\<close>
  | S_done

text \<open>The local \<open>owner\<close> of a thread is \<open>sg_local\<close>. A call works on the lock with the variable in place of \<open>*mem\<close>.\<close>

record sgame =
  sg_lk :: seqlk
  sg_passes :: u32
  sg_owner :: u32
  sg_out :: "(u32 \<times> u32 \<times> u32) list"
  sg_pc :: "nat \<Rightarrow> spc"
  sg_local :: "nat \<Rightarrow> u32"

abbreviation sgat :: "sgame \<Rightarrow> nat \<Rightarrow> spc \<Rightarrow> sgame" where
  "sgat g i p \<equiv> g\<lparr>sg_pc := (sg_pc g)(i := p)\<rparr>"

inductive seq_task :: "u32 \<Rightarrow> u32 \<Rightarrow> nat \<Rightarrow> sgame \<Rightarrow> sgame \<Rightarrow> bool" for numthreads maxpass i where
  read: "sg_pc g i = S_read \<Longrightarrow> seqlock_read i ((sg_lk g)\<lparr>v_mem := sg_owner g\<rparr>) l \<Longrightarrow> v_pc l i \<noteq> V_out \<Longrightarrow>
    seq_task numthreads maxpass i g (g\<lparr>sg_lk := l\<rparr>)"
| returned: "sg_pc g i = S_read \<Longrightarrow> seqlock_read i ((sg_lk g)\<lparr>v_mem := sg_owner g\<rparr>) l \<Longrightarrow> v_pc l i = V_out \<Longrightarrow>
    seq_task numthreads maxpass i g (sgat (g\<lparr>sg_lk := l, sg_local := (sg_local g)(i := v_retval l i)\<rparr>) i S_look)"
| over: "sg_pc g i = S_look \<Longrightarrow> maxpass < sg_passes g \<Longrightarrow> seq_task numthreads maxpass i g (sgat g i S_done)"
| again: "sg_pc g i = S_look \<Longrightarrow> \<not> maxpass < sg_passes g \<Longrightarrow> sg_local g i \<noteq> of_nat i \<Longrightarrow> seq_task numthreads maxpass i g (sgat g i S_read)"
| turn: "sg_pc g i = S_look \<Longrightarrow> \<not> maxpass < sg_passes g \<Longrightarrow> sg_local g i = of_nat i \<Longrightarrow> w = sg_local g i + 1 \<Longrightarrow>
    seq_task numthreads maxpass i g (sgat (g\<lparr>sg_local := (sg_local g)(i := if numthreads \<le> w then 0 else w)\<rparr>) i S_print)"
| print: "sg_pc g i = S_print \<Longrightarrow>
    seq_task numthreads maxpass i g (sgat (g\<lparr>sg_out := sg_out g @ [(sg_passes g, of_nat i, sg_local g i)]\<rparr>) i S_passes)"
| passes: "sg_pc g i = S_passes \<Longrightarrow> seqlock_write i ((sg_lk g)\<lparr>v_mem := sg_passes g\<rparr>) l \<Longrightarrow>
    (v_pc (sg_lk g) i = V_out \<longrightarrow> v_arg l i = sg_passes g + 1) \<Longrightarrow>
    seq_task numthreads maxpass i g (sgat (g\<lparr>sg_lk := l, sg_passes := v_mem l\<rparr>) i (if v_pc l i = V_out then S_owner else S_passes))"
| owner: "sg_pc g i = S_owner \<Longrightarrow> seqlock_write i ((sg_lk g)\<lparr>v_mem := sg_owner g\<rparr>) l \<Longrightarrow>
    (v_pc (sg_lk g) i = V_out \<longrightarrow> v_arg l i = sg_local g i) \<Longrightarrow>
    seq_task numthreads maxpass i g (sgat (g\<lparr>sg_lk := l, sg_owner := v_mem l\<rparr>) i (if v_pc l i = V_out then S_read else S_owner))"

inductive_cases seq_taskE: "seq_task numthreads maxpass i g h"

definition seqgame_start :: "sgame \<Rightarrow> bool" where
  "seqgame_start g \<longleftrightarrow> seqlock_init (sg_lk g) \<and> sg_passes g = 1 \<and> sg_owner g = 0 \<and> sg_out g = [] \<and> (\<forall>i. sg_pc g i = S_read)"

definition seqgame_step :: "u32 \<Rightarrow> u32 \<Rightarrow> sgame \<Rightarrow> sgame \<Rightarrow> bool" where
  "seqgame_step numthreads maxpass g h \<longleftrightarrow> (\<exists>i < unat numthreads. seq_task numthreads maxpass i g h)"

section \<open>The invariant\<close>

text \<open>
  What a thread knows, with \<open>k\<close> lines printed: what it has read of \<open>cur_owner\<close> stays true if it is its own number, since only the owner changes
  the two variables; and how far it has come with its two writes.
\<close>

definition thread_ok :: "nat \<Rightarrow> nat \<Rightarrow> nat \<Rightarrow> u32 \<Rightarrow> u32 \<Rightarrow> nat \<Rightarrow> spc \<Rightarrow> vpc \<Rightarrow> u32 \<Rightarrow> u32 \<Rightarrow> u32 \<Rightarrow> bool" where
  "thread_ok n m k p c i pc v r a x \<longleftrightarrow>
     (case pc of
        S_read \<Rightarrow> v \<in> {V_out, V_seqi, V_val, V_seqf} \<and> (v = V_seqf \<longrightarrow> r = of_nat i \<longrightarrow> c = of_nat i)
      | S_look \<Rightarrow> v = V_out \<and> (x = of_nat i \<longrightarrow> c = of_nat i)
      | S_print \<Rightarrow> v = V_out \<and> c = of_nat i \<and> unat p \<le> m \<and> x = of_nat ((i + 1) mod n)
      | S_passes \<Rightarrow> v \<in> {V_out, V_lock, V_enter, V_store, V_leave, V_unlock} \<and> 0 < k \<and> i = (k - 1) mod n \<and> c = of_nat i \<and> x = of_nat (k mod n) \<and>
          p = of_nat (if v \<in> {V_leave, V_unlock} then k + 1 else k) \<and> (v \<noteq> V_out \<longrightarrow> a = of_nat (k + 1))
      | S_owner \<Rightarrow> v \<in> {V_out, V_lock, V_enter, V_store, V_leave, V_unlock} \<and> (v \<notin> {V_leave, V_unlock} \<longrightarrow>
          0 < k \<and> i = (k - 1) mod n \<and> c = of_nat i \<and> x = of_nat (k mod n) \<and> p = of_nat (k + 1) \<and> (v \<noteq> V_out \<longrightarrow> a = of_nat (k mod n)))
      | S_done \<Rightarrow> v = V_out \<and> k = m)"

text \<open>A thread between its line and the moment when it has handed over.\<close>

definition passing :: "spc \<Rightarrow> vpc \<Rightarrow> bool" where
  "passing pc v \<longleftrightarrow> pc = S_passes \<or> pc = S_owner \<and> v \<notin> {V_leave, V_unlock}"

abbreviation tok :: "nat \<Rightarrow> nat \<Rightarrow> sgame \<Rightarrow> nat \<Rightarrow> bool" where
  "tok n m g i \<equiv> thread_ok n m (length (sg_out g)) (sg_passes g) (sg_owner g) i (sg_pc g i) (v_pc (sg_lk g) i) (v_retval (sg_lk g) i)
     (v_arg (sg_lk g) i) (sg_local g i)"

definition seqgame_inv :: "u32 \<Rightarrow> u32 \<Rightarrow> sgame \<Rightarrow> bool" where
  "seqgame_inv n m g \<longleftrightarrow> length (sg_out g) \<le> unat m \<and> sg_out g = map (pass_line (unat n)) [0..<length (sg_out g)]
     \<and> (\<forall>i < unat n. tok (unat n) (unat m) g i)
     \<and> ((\<forall>i < unat n. \<not> passing (sg_pc g i) (v_pc (sg_lk g) i)) \<longrightarrow>
          sg_passes g = of_nat (length (sg_out g) + 1) \<and> sg_owner g = of_nat (length (sg_out g) mod unat n))"

text \<open>A thread that is not the owner knows nothing that the owner could make false.\<close>

lemma thread_ok_other:
  "thread_ok n m k p c i pc v r a x \<Longrightarrow> c \<noteq> of_nat i \<Longrightarrow> k' = k \<or> k \<noteq> m \<Longrightarrow> thread_ok n m k' p' c' i pc v r a x"
  by (cases pc) (auto simp: thread_ok_def)

lemma passing_owner: "thread_ok n m k p c i pc v r a x \<Longrightarrow> passing pc v \<Longrightarrow>
    c = of_nat i \<and> 0 < k \<and> i = (k - 1) mod n \<and> (p = of_nat k \<or> p = of_nat (k + 1))"
  by (auto simp: thread_ok_def passing_def split: if_splits)

lemma seqlock_read_frame:
  assumes "seqlock_read i s t"
  shows "v_mem t = v_mem s" "j \<noteq> i \<Longrightarrow> v_pc t j = v_pc s j \<and> v_retval t j = v_retval s j" "v_arg t = v_arg s"
  using assms by (cases rule: seqlock_read.cases; simp)+

lemma seqlock_write_frame:
  assumes "seqlock_write i s t"
  shows "j \<noteq> i \<Longrightarrow> v_pc t j = v_pc s j \<and> v_arg t j = v_arg s j" "v_retval t = v_retval s" "v_pc s i \<noteq> V_store \<Longrightarrow> v_mem t = v_mem s"
    "v_pc s i = V_store \<Longrightarrow> v_mem t = v_arg s i \<and> v_pc t i = V_leave" "v_pc s i \<noteq> V_out \<Longrightarrow> v_arg t = v_arg s"
  using assms by (cases rule: seqlock_write.cases; simp)+

lemma of_nat_thread: "i < unat (n :: u32) \<Longrightarrow> j < unat n \<Longrightarrow> (of_nat i :: u32) = of_nat j \<longleftrightarrow> i = j"
proof -
  assume "i < unat n" "j < unat n"
  moreover have "unat n < 2 ^ 32" using unsigned_less [of n] by simp
  ultimately show ?thesis by (simp add: word_unat_eq_iff unat_of_nat)
qed

text \<open>When \<open>cur_owner\<close> names a thread that is not passing, nobody is, and it is this thread's turn.\<close>

lemma my_turn:
  assumes "seqgame_inv n m g" "i < unat n" "sg_owner g = of_nat i" "\<not> passing (sg_pc g i) (v_pc (sg_lk g) i)"
  shows "sg_passes g = of_nat (length (sg_out g) + 1)" "i = length (sg_out g) mod unat n"
proof -
  have "\<not> passing (sg_pc g j) (v_pc (sg_lk g) j)" if "j < unat n" for j
    using assms that passing_owner of_nat_thread [OF that assms(2)] unfolding seqgame_inv_def by metis
  then have "sg_passes g = of_nat (length (sg_out g) + 1)" "sg_owner g = of_nat (length (sg_out g) mod unat n)"
    using assms(1) unfolding seqgame_inv_def by blast+
  then show "sg_passes g = of_nat (length (sg_out g) + 1)" "i = length (sg_out g) mod unat n"
    using assms(2,3) of_nat_thread [of i n "length (sg_out g) mod unat n"] by (simp_all add: order_le_less_trans [OF le0])
qed

definition same_others :: "nat \<Rightarrow> sgame \<Rightarrow> sgame \<Rightarrow> bool" where
  "same_others i g h \<longleftrightarrow> (\<forall>j. j \<noteq> i \<longrightarrow> sg_pc h j = sg_pc g j \<and> v_pc (sg_lk h) j = v_pc (sg_lk g) j \<and> v_retval (sg_lk h) j = v_retval (sg_lk g) j \<and>
     v_arg (sg_lk h) j = v_arg (sg_lk g) j \<and> sg_local h j = sg_local g j)"

text \<open>A step that changes nothing that the threads share.\<close>

lemma inv_private:
  assumes g: "seqgame_inv n m g" and s: "same_others i g h" "sg_passes h = sg_passes g" "sg_owner h = sg_owner g" "sg_out h = sg_out g"
    and i: "i < unat n" "tok (unat n) (unat m) h i" "passing (sg_pc h i) (v_pc (sg_lk h) i) = passing (sg_pc g i) (v_pc (sg_lk g) i)"
  shows "seqgame_inv n m h"
proof -
  have "tok (unat n) (unat m) h j" if "j < unat n" for j
    using g s i that unfolding seqgame_inv_def same_others_def by (cases "j = i") auto
  moreover have "passing (sg_pc h j) (v_pc (sg_lk h) j) = passing (sg_pc g j) (v_pc (sg_lk g) j)" for j
    using s(1) i(3) unfolding same_others_def by (cases "j = i") auto
  ultimately show ?thesis using g s unfolding seqgame_inv_def by simp
qed

text \<open>A step of the owner.\<close>

lemma inv_owner:
  assumes g: "seqgame_inv n m g" and s: "same_others i g h" "sg_owner g = of_nat i" "sg_out h = sg_out g \<or> length (sg_out g) \<noteq> unat m"
    and o: "length (sg_out h) \<le> unat m" "sg_out h = map (pass_line (unat n)) [0..<length (sg_out h)]"
    and i: "i < unat n" "tok (unat n) (unat m) h i"
    and p: "\<not> passing (sg_pc h i) (v_pc (sg_lk h) i) \<Longrightarrow> sg_passes h = of_nat (length (sg_out h) + 1) \<and> sg_owner h = of_nat (length (sg_out h) mod unat n)"
  shows "seqgame_inv n m h"
proof -
  have "tok (unat n) (unat m) h j" if "j < unat n" for j
  proof (cases "j = i")
    case False
    then have "sg_owner g \<noteq> of_nat j" using s(2) of_nat_thread [OF i(1) that] by simp
    moreover have "tok (unat n) (unat m) g j" using g that by (simp add: seqgame_inv_def)
    ultimately show ?thesis using s(1,3) False unfolding same_others_def by (auto intro: thread_ok_other)
  qed (use i in simp)
  then show ?thesis using o p i(1) unfolding seqgame_inv_def by blast
qed

lemma inv_read:
  assumes g: "seqgame_inv n m g" and i: "i < unat n" "sg_pc g i = S_read" and l: "seqlock_read i ((sg_lk g)\<lparr>v_mem := sg_owner g\<rparr>) l"
  shows "v_pc l i \<noteq> V_out \<Longrightarrow> seqgame_inv n m (g\<lparr>sg_lk := l\<rparr>)"
    "v_pc l i = V_out \<Longrightarrow> seqgame_inv n m (sgat (g\<lparr>sg_lk := l, sg_local := (sg_local g)(i := v_retval l i)\<rparr>) i S_look)"
proof -
  note f = seqlock_read_frame [OF l]
  have t: "tok (unat n) (unat m) g i" using g i(1) by (simp add: seqgame_inv_def)
  show "seqgame_inv n m (g\<lparr>sg_lk := l\<rparr>)" if "v_pc l i \<noteq> V_out"
    by (rule inv_private [OF g, where i = i])
      (use f t i l that in \<open>auto simp: same_others_def thread_ok_def passing_def elim!: seqlock_read.cases split: if_splits\<close>)
  show "seqgame_inv n m (sgat (g\<lparr>sg_lk := l, sg_local := (sg_local g)(i := v_retval l i)\<rparr>) i S_look)" if "v_pc l i = V_out"
    by (rule inv_private [OF g, where i = i])
      (use f t i l that in \<open>auto simp: same_others_def thread_ok_def passing_def elim!: seqlock_read.cases split: if_splits\<close>)
qed

lemma inv_print:
  assumes g: "seqgame_inv n m g" and m: "unat m + 1 < 2 ^ 32" and i: "i < unat n" "sg_pc g i = S_print"
  shows "seqgame_inv n m (sgat (g\<lparr>sg_out := sg_out g @ [(sg_passes g, of_nat i, sg_local g i)]\<rparr>) i S_passes)"
proof -
  let ?k = "length (sg_out g)"
  have t: "v_pc (sg_lk g) i = V_out" "sg_owner g = of_nat i" "unat (sg_passes g) \<le> unat m" "sg_local g i = of_nat ((i + 1) mod unat n)"
    using g i by (auto simp: seqgame_inv_def thread_ok_def)
  have "\<not> passing (sg_pc g i) (v_pc (sg_lk g) i)" using i(2) by (simp add: passing_def)
  note w = my_turn [OF g i(1) t(2) this]
  have k: "?k \<le> unat m" "sg_out g = map (pass_line (unat n)) [0..<?k]" using g by (simp_all add: seqgame_inv_def)
  have "unat (of_nat (?k + 1) :: u32) = ?k + 1" using k(1) m by (simp add: unat_of_nat del: of_nat_add of_nat_Suc)
  then have "?k < unat m" using t(3) unfolding w(1) by simp
  moreover have "sg_local g i = of_nat ((?k + 1) mod unat n)" using t(4) w(2) by (simp add: mod_Suc_eq del: of_nat_Suc)
  then have "sg_out g @ [(sg_passes g, of_nat i, sg_local g i)] = map (pass_line (unat n)) [0..<?k + 1]"
    using k(2) w by (simp add: pass_line_def)
  ultimately show ?thesis
    by (intro inv_owner [OF g, where i = i]) (use t w i in \<open>auto simp: same_others_def thread_ok_def passing_def mod_Suc_eq\<close>)
qed

text \<open>The two writes.\<close>

lemma write_places:
  assumes "seqlock_write i s l"
  shows "v_pc s i \<in> {V_out, V_lock, V_enter, V_store, V_leave, V_unlock}" "v_pc l i \<in> {V_out, V_lock, V_enter, V_store, V_leave, V_unlock}"
    "v_pc l i = V_out \<longleftrightarrow> v_pc s i = V_unlock" "v_pc l i \<in> {V_leave, V_unlock} \<longleftrightarrow> v_pc s i \<in> {V_store, V_leave}"
  using assms by (cases rule: seqlock_write.cases; simp)+

lemma inv_passes:
  assumes g: "seqgame_inv n m g" and i: "i < unat n" "sg_pc g i = S_passes" and l: "seqlock_write i ((sg_lk g)\<lparr>v_mem := sg_passes g\<rparr>) l"
    and a: "v_pc (sg_lk g) i = V_out \<longrightarrow> v_arg l i = sg_passes g + 1"
  shows "seqgame_inv n m (sgat (g\<lparr>sg_lk := l, sg_passes := v_mem l\<rparr>) i (if v_pc l i = V_out then S_owner else S_passes))" (is "seqgame_inv n m ?h")
proof -
  let ?k = "length (sg_out g)" and ?v = "v_pc (sg_lk g) i"
  note f = seqlock_write_frame [OF l, simplified] and w = write_places [OF l, simplified]
  have tk: "tok (unat n) (unat m) g i" using g i(1) by (simp add: seqgame_inv_def)
  have t: "0 < ?k" "i = (?k - 1) mod unat n" "sg_owner g = of_nat i" "sg_local g i = of_nat (?k mod unat n)"
    "sg_passes g = of_nat (if ?v \<in> {V_leave, V_unlock} then ?k + 1 else ?k)" "?v \<noteq> V_out \<Longrightarrow> v_arg (sg_lk g) i = of_nat (?k + 1)"
    using tk [unfolded thread_ok_def i(2) spc.case] by blast+
  have p: "v_mem l = of_nat (if v_pc l i \<in> {V_out, V_leave, V_unlock} then ?k + 1 else ?k)"
    using l t(5,6) by (cases rule: seqlock_write.cases) simp_all
  have arg: "v_arg l i = of_nat (?k + 1)" if "v_pc l i \<noteq> V_out"
    using l t(5,6) a by (cases rule: seqlock_write.cases) simp_all
  have k: "?k \<le> unat m" "sg_out g = map (pass_line (unat n)) [0..<?k]" using g by (simp_all add: seqgame_inv_def)
  show ?thesis
  proof (rule inv_owner [OF g _ t(3) _ _ _ i(1)])
    show "same_others i g ?h" using f(1,2) by (simp add: same_others_def)
    show "tok (unat n) (unat m) ?h i"
      using t(1,2,4) p arg w(2) t(3) by (cases "v_pc l i = V_out") (simp_all add: thread_ok_def)
  qed (use k in \<open>auto simp: passing_def split: if_splits\<close>)
qed

lemma inv_own:
  assumes g: "seqgame_inv n m g" and i: "i < unat n" "sg_pc g i = S_owner" and l: "seqlock_write i ((sg_lk g)\<lparr>v_mem := sg_owner g\<rparr>) l"
    and a: "v_pc (sg_lk g) i = V_out \<longrightarrow> v_arg l i = sg_local g i"
  shows "seqgame_inv n m (sgat (g\<lparr>sg_lk := l, sg_owner := v_mem l\<rparr>) i (if v_pc l i = V_out then S_read else S_owner))" (is "seqgame_inv n m ?h")
proof -
  let ?k = "length (sg_out g)" and ?v = "v_pc (sg_lk g) i"
  note f = seqlock_write_frame [OF l, simplified] and w = write_places [OF l, simplified]
  have k: "?k \<le> unat m" "sg_out g = map (pass_line (unat n)) [0..<?k]" using g by (simp_all add: seqgame_inv_def)
  have tk: "tok (unat n) (unat m) g i" using g i(1) by (simp add: seqgame_inv_def)
  have so: "same_others i g ?h" using f(1,2) by (simp add: same_others_def)
  show ?thesis
  proof (cases "?v \<in> {V_leave, V_unlock}")
    case True
    then have "v_mem l = sg_owner g" using f(3) by auto
    then show ?thesis
      by (intro inv_private [OF g so]) (use w True i in \<open>auto simp: thread_ok_def passing_def\<close>)
  next
    case False
    then have t: "0 < ?k" "i = (?k - 1) mod unat n" "sg_owner g = of_nat i" "sg_local g i = of_nat (?k mod unat n)"
      "sg_passes g = of_nat (?k + 1)" "?v \<noteq> V_out \<Longrightarrow> v_arg (sg_lk g) i = of_nat (?k mod unat n)"
      using tk [unfolded thread_ok_def i(2) spc.case] by blast+
    have p: "v_mem l = (if v_pc l i = V_leave then of_nat (?k mod unat n) else of_nat i)" "v_pc l i \<notin> {V_out, V_unlock}"
      using l t(3,6) False by (cases rule: seqlock_write.cases; simp)+
    have arg: "v_arg l i = of_nat (?k mod unat n)" if "v_pc l i \<noteq> V_leave"
      using l t(4,6) a False that by (cases rule: seqlock_write.cases) simp_all
    show ?thesis
    proof (rule inv_owner [OF g so t(3) _ _ _ i(1)])
      show "tok (unat n) (unat m) ?h i"
        using t(1,2,4,5) p arg w(2) by (cases "v_pc l i = V_leave") (simp_all add: thread_ok_def)
    qed (use k p t(5) in \<open>auto simp: passing_def split: if_splits\<close>)
  qed
qed

lemma passes_value:
  assumes "seqgame_inv n m g"
  shows "sg_passes g = of_nat (length (sg_out g)) \<and> 0 < length (sg_out g) \<or> sg_passes g = of_nat (length (sg_out g) + 1)"
proof (cases "\<exists>i < unat n. passing (sg_pc g i) (v_pc (sg_lk g) i)")
  case True
  then obtain i where "i < unat n" "passing (sg_pc g i) (v_pc (sg_lk g) i)" by blast
  then show ?thesis using assms passing_owner unfolding seqgame_inv_def by blast
next
  case False
  then show ?thesis using assms unfolding seqgame_inv_def by blast
qed

lemma inv_look:
  assumes g: "seqgame_inv n m g" and m: "unat m + 1 < 2 ^ 32" and i: "i < unat n" "sg_pc g i = S_look"
  shows "m < sg_passes g \<Longrightarrow> seqgame_inv n m (sgat g i S_done)" "seqgame_inv n m (sgat g i S_read)"
    "\<not> m < sg_passes g \<Longrightarrow> sg_local g i = of_nat i \<Longrightarrow>
      seqgame_inv n m (sgat (g\<lparr>sg_local := (sg_local g)(i := if n \<le> sg_local g i + 1 then 0 else sg_local g i + 1)\<rparr>) i S_print)"
proof -
  let ?k = "length (sg_out g)"
  have k: "?k \<le> unat m" and t: "v_pc (sg_lk g) i = V_out" "sg_local g i = of_nat i \<Longrightarrow> sg_owner g = of_nat i"
    using g i by (auto simp: seqgame_inv_def thread_ok_def)
  note loc = inv_private [OF g, where i = i]
  have "?k = unat m" if "m < sg_passes g"
  proof -
    have "unat m < unat (sg_passes g)" using that by (simp add: word_less_nat_alt)
    moreover have "unat (of_nat ?k :: u32) = ?k" "unat (of_nat (?k + 1) :: u32) = ?k + 1" using k m by (simp_all add: unat_of_nat del: of_nat_add of_nat_Suc)
    ultimately show ?thesis using passes_value [OF g] k by auto
  qed
  then show "m < sg_passes g \<Longrightarrow> seqgame_inv n m (sgat g i S_done)" "seqgame_inv n m (sgat g i S_read)"
    by (intro loc; use t i in \<open>simp add: same_others_def thread_ok_def passing_def\<close>)+
  assume p: "\<not> m < sg_passes g" "sg_local g i = of_nat i"
  have n: "unat n < 2 ^ 32" using unsigned_less [of n] by simp
  have "(of_nat i + 1 :: u32) = of_nat (i + 1)" by simp
  then have "(if n \<le> sg_local g i + 1 then 0 else sg_local g i + 1) = of_nat ((i + 1) mod unat n)"
    using i(1) n by (cases "i + 1 = unat n") (auto simp: p(2) word_le_nat_alt unat_of_nat simp del: of_nat_add of_nat_Suc)
  then show "seqgame_inv n m (sgat (g\<lparr>sg_local := (sg_local g)(i := if n \<le> sg_local g i + 1 then 0 else sg_local g i + 1)\<rparr>) i S_print)"
    using p by (intro loc) (use t i in \<open>simp_all add: same_others_def thread_ok_def passing_def word_less_nat_alt\<close>)
qed

interpretation seqgame: invariant_system seqgame_start "seqgame_step n m" "\<lambda>g. 0 < n \<and> unat m + 1 < 2 ^ 32 \<longrightarrow> seqgame_inv n m g" for n m
proof unfold_locales
  show "0 < n \<and> unat m + 1 < 2 ^ 32 \<longrightarrow> seqgame_inv n m g" if "seqgame_start g" for g
    using that by (auto simp: seqgame_start_def seqgame_inv_def seqlock_init_def thread_ok_def passing_def)
  fix g h
  assume g: "0 < n \<and> unat m + 1 < 2 ^ 32 \<longrightarrow> seqgame_inv n m g" and s: "seqgame_step n m g h"
  show "0 < n \<and> unat m + 1 < 2 ^ 32 \<longrightarrow> seqgame_inv n m h"
  proof
    assume nm: "0 < n \<and> unat m + 1 < 2 ^ 32"
    then have g: "seqgame_inv n m g" and m: "unat m + 1 < 2 ^ 32" using g by simp_all
    obtain i where i: "i < unat n" "seq_task n m i g h" using s by (auto simp: seqgame_step_def)
    from i(2) show "seqgame_inv n m h"
    proof (cases rule: seq_task.cases)
      case (turn w)
      show ?thesis unfolding turn(1) turn(5) by (rule inv_look(3) [OF g m i(1) turn(2-4)])
    qed (use inv_read [OF g i(1)] inv_print [OF g m i(1)] inv_passes [OF g i(1)] inv_own [OF g i(1)] inv_look(1,2) [OF g m i(1)] in simp_all)
  qed
qed

section \<open>Properties\<close>

text \<open>
  C10: \<open>frisbee_seq.c\<close> with \<open>n\<close> threads and \<open>m\<close> passes plays the same game as the programs with locks, however the threads interleave, although a
  thread reads \<open>passes\<close> without the lock and makes its pass in two separate writes: what has been printed is always the first lines of the
  game, never more than \<open>m\<close> of them, and all \<open>m\<close> once any thread has finished.
\<close>

theorem frisbee_seq_prints_game:
  assumes "0 < n" "unat m + 1 < 2 ^ 32" "reach seqgame_start (seqgame_step n m) g"
  shows "sg_out g = map (pass_line (unat n)) [0..<length (sg_out g)] \<and> length (sg_out g) \<le> unat m \<and>
    (\<forall>i < unat n. sg_pc g i = S_done \<longrightarrow> length (sg_out g) = unat m)"
proof -
  have g: "seqgame_inv n m g" using seqgame.inv_reach [OF assms(3)] assms(1,2) by blast
  then have "length (sg_out g) = unat m" if "i < unat n" "sg_pc g i = S_done" for i
    using that by (auto simp: seqgame_inv_def thread_ok_def)
  then show ?thesis using g unfolding seqgame_inv_def by blast
qed

text \<open>A game of one pass, up to its line.\<close>

definition seqgame_at :: "vpc \<Rightarrow> spc \<Rightarrow> u32 \<Rightarrow> (u32 \<times> u32 \<times> u32) list \<Rightarrow> sgame" where
  "seqgame_at v p x out = \<lparr>sg_lk = \<lparr>v_seq = 0, v_splk = 0, v_mem = 0, v_pc = (\<lambda>_. V_out)(0 := v), v_seqi = (\<lambda>_. 0), v_retval = (\<lambda>_. 0), v_arg = (\<lambda>_. 0),
       v_count = 0, v_read = (\<lambda>_. 0)\<rparr>,
     sg_passes = 1, sg_owner = 0, sg_out = out, sg_pc = (\<lambda>_. S_read)(0 := p), sg_local = (\<lambda>_. 0)(0 := x)\<rparr>"

lemma seqgame_at_reach: "reach seqgame_start (seqgame_step 2 1) (seqgame_at V_out S_passes 1 [(1, 0, 1)])"
proof -
  let ?g = seqgame_at
  have step: "reach seqgame_start (seqgame_step 2 1) h" if "seq_task 2 1 0 g h" "reach seqgame_start (seqgame_step 2 1) g" for g h
    unfolding seqgame_step_def by (rule reach_step [OF that(2) [unfolded seqgame_step_def]]) (use that(1) in \<open>auto intro: exI [of _ 0]\<close>)
  have t0: "reach seqgame_start (seqgame_step 2 1) (?g V_out S_read 0 [])"
    by (rule reach_init) (simp add: seqgame_start_def seqgame_at_def seqlock_init_def)
  have l: "sg_lk (?g v p x out)\<lparr>v_mem := sg_owner (?g v p x out)\<rparr> = sg_lk (?g v p x out)" for v p x out by (simp add: seqgame_at_def)
  have t1: "seq_task 2 1 0 (?g V_out S_read 0 []) (?g V_seqi S_read 0 [])"
    using seq_task.read [of "?g V_out S_read 0 []" 0 "sg_lk (?g V_seqi S_read 0 [])" 2 1] seqlock_read.call [of "sg_lk (?g V_out S_read 0 [])" 0] l
    by (simp add: seqgame_at_def)
  have t2: "seq_task 2 1 0 (?g V_seqi S_read 0 []) (?g V_val S_read 0 [])"
    using seq_task.read [of "?g V_seqi S_read 0 []" 0 "sg_lk (?g V_val S_read 0 [])" 2 1] seqlock_read.seqi [of "sg_lk (?g V_seqi S_read 0 [])" 0] l
    by (simp add: seqgame_at_def fun_upd_idem)
  have t3: "seq_task 2 1 0 (?g V_val S_read 0 []) (?g V_seqf S_read 0 [])"
    using seq_task.read [of "?g V_val S_read 0 []" 0 "sg_lk (?g V_seqf S_read 0 [])" 2 1] seqlock_read.val [of "sg_lk (?g V_val S_read 0 [])" 0] l
    by (simp add: seqgame_at_def fun_upd_idem)
  have t4: "seq_task 2 1 0 (?g V_seqf S_read 0 []) (?g V_out S_look 0 [])"
    using seq_task.returned [of "?g V_seqf S_read 0 []" 0 "sg_lk (?g V_out S_look 0 [])" 2 1] seqlock_read.seqf [of "sg_lk (?g V_seqf S_read 0 [])" 0] l
    by (simp add: seqgame_at_def fun_upd_idem)
  have t5: "seq_task 2 1 0 (?g V_out S_look 0 []) (?g V_out S_print 1 [])"
    using seq_task.turn [of "?g V_out S_look 0 []" 0 1 1 2] by (simp add: seqgame_at_def word_le_nat_alt)
  have t6: "seq_task 2 1 0 (?g V_out S_print 1 []) (?g V_out S_passes 1 [(1, 0, 1)])"
    using seq_task.print [of "?g V_out S_print 1 []" 0 2 1] by (simp add: seqgame_at_def)
  show ?thesis by (rule step [OF t6 step [OF t5 step [OF t4 step [OF t3 step [OF t2 step [OF t1 t0]]]]]])
qed

theorem frisbee_seq_prints_game_witness:
  "reach seqgame_start (seqgame_step 2 1) (seqgame_at V_out S_passes 1 [(1, 0, 1)]) \<and> [(1, 0, 1)] = map (pass_line 2) [0..<1]"
proof
  let ?g = "seqgame_at V_out S_passes 1 [(1, 0, 1)]"
  have "sg_out ?g = map (pass_line (unat (2 :: u32))) [0..<length (sg_out ?g)]"
    by (rule conjunct1 [OF frisbee_seq_prints_game [OF _ _ seqgame_at_reach]]) simp_all
  then show "[(1, 0, 1)] = map (pass_line 2) [0..<1]" by (simp add: seqgame_at_def)
qed (rule seqgame_at_reach)

end
