(* ===== verification/Xv6_String.thy ===== *)
theory Xv6_String
  imports Xv6_Prelude "HOL-Library.Signed_Division"
begin

text \<open>
  The kernel's string routines (\<open>string.c\<close>) and the user library's (\<open>ulib.c\<close>). Routines that
  move or fill memory act on flat byte memory, where source and destination may overlap;
  routines that read strings take the bytes behind their pointers (\<open>cbuf\<close>).
\<close>

section \<open>Memory\<close>

text \<open>\<open>rep stosb\<close> and \<open>rep stosl\<close> (\<open>x86.h\<close>): fill \<open>cnt\<close> bytes or 32-bit words from \<open>a\<close> up.\<close>

fun stosb :: "mem \<Rightarrow> u32 \<Rightarrow> u32 \<Rightarrow> nat \<Rightarrow> mem" where
  "stosb m a data 0 = m"
| "stosb m a data (Suc cnt) = stosb (m(a := ucast data)) (a + 1) data cnt"

fun stosl :: "mem \<Rightarrow> u32 \<Rightarrow> u32 \<Rightarrow> nat \<Rightarrow> mem" where
  "stosl m a data 0 = m"
| "stosl m a data (Suc cnt) = stosl (store32 m a data) (a + 4) data cnt"

definition memset :: "mem \<Rightarrow> u32 \<Rightarrow> u32 \<Rightarrow> u32 \<Rightarrow> mem" where
  "memset m dst c n =
     (if sint dst smod 4 = 0 \<and> n mod 4 = 0
      then (let c = c AND 0xFF
            in stosl m dst (push_bit 24 c OR push_bit 16 c OR push_bit 8 c OR c) (unat (n div 4)))
      else stosb m dst c (unat n))"

text \<open>The two loops of \<open>memmove\<close>: upwards, and downwards from the ends.\<close>

fun copy_up :: "mem \<Rightarrow> u32 \<Rightarrow> u32 \<Rightarrow> nat \<Rightarrow> mem" where
  "copy_up m d s 0 = m"
| "copy_up m d s (Suc n) = copy_up (m(d := m s)) (d + 1) (s + 1) n"

fun copy_down :: "mem \<Rightarrow> u32 \<Rightarrow> u32 \<Rightarrow> nat \<Rightarrow> mem" where
  "copy_down m d s 0 = m"
| "copy_down m d s (Suc n) = copy_down (m(d - 1 := m (s - 1))) (d - 1) (s - 1) n"

definition memmove :: "mem \<Rightarrow> u32 \<Rightarrow> u32 \<Rightarrow> u32 \<Rightarrow> mem" where
  "memmove m dst src n =
     (if src < dst \<and> src + n > dst
      then copy_down m (dst + n) (src + n) (unat n)
      else copy_up m dst src (unat n))"

definition memcpy :: "mem \<Rightarrow> u32 \<Rightarrow> u32 \<Rightarrow> u32 \<Rightarrow> mem" where
  "memcpy m dst src n = memmove m dst src n"

text \<open>The user library's \<open>memmove\<close> only copies upwards; its \<open>n\<close> is a signed \<open>int\<close>.\<close>

definition ulib_memmove :: "mem \<Rightarrow> u32 \<Rightarrow> u32 \<Rightarrow> int \<Rightarrow> mem" where
  "ulib_memmove m vdst vsrc n = copy_up m vdst vsrc (nat n)"

definition ulib_memset :: "mem \<Rightarrow> u32 \<Rightarrow> u32 \<Rightarrow> u32 \<Rightarrow> mem" where
  "ulib_memset m dst c n = stosb m dst c (unat n)"

section \<open>Comparing and copying strings\<close>

fun memcmp :: "cbuf \<Rightarrow> cbuf \<Rightarrow> nat \<Rightarrow> int" where
  "memcmp s1 s2 0 = 0"
| "memcmp s1 s2 (Suc n) =
     (if s1 0 \<noteq> s2 0 then uint (s1 0) - uint (s2 0)
      else memcmp (\<lambda>i. s1 (Suc i)) (\<lambda>i. s2 (Suc i)) n)"

fun strncmp :: "cbuf \<Rightarrow> cbuf \<Rightarrow> nat \<Rightarrow> int" where
  "strncmp p q 0 = 0"
| "strncmp p q (Suc n) =
     (if p 0 \<noteq> 0 \<and> p 0 = q 0 then strncmp (\<lambda>i. p (Suc i)) (\<lambda>i. q (Suc i)) n
      else uint (p 0) - uint (q 0))"

text \<open>
  \<open>strncpy\<close> on the destination array \<open>s\<close>, written from offset \<open>i\<close> on: the copying loop and
  the padding loop. \<open>safestrcpy\<close> writes its terminator at the offset its loop stopped at.
\<close>

fun zero_fill :: "cbuf \<Rightarrow> nat \<Rightarrow> nat \<Rightarrow> cbuf" where
  "zero_fill s i 0 = s"
| "zero_fill s i (Suc n) = zero_fill (s(i := 0)) (Suc i) n"

fun strncpy_loop :: "cbuf \<Rightarrow> cbuf \<Rightarrow> nat \<Rightarrow> nat \<Rightarrow> cbuf" where
  "strncpy_loop s t i 0 = s"
| "strncpy_loop s t i (Suc n) =
     (if t i \<noteq> 0 then strncpy_loop (s(i := t i)) t (Suc i) n
      else zero_fill (s(i := t i)) (Suc i) n)"

definition strncpy :: "cbuf \<Rightarrow> cbuf \<Rightarrow> int \<Rightarrow> cbuf" where
  "strncpy s t n = strncpy_loop s t 0 (nat n)"

fun safestrcpy_loop :: "cbuf \<Rightarrow> cbuf \<Rightarrow> nat \<Rightarrow> nat \<Rightarrow> cbuf" where
  "safestrcpy_loop s t i 0 = s(i := 0)"
| "safestrcpy_loop s t i (Suc n) =
     (if t i \<noteq> 0 then safestrcpy_loop (s(i := t i)) t (Suc i) n
      else (s(i := t i))(Suc i := 0))"

definition safestrcpy :: "cbuf \<Rightarrow> cbuf \<Rightarrow> int \<Rightarrow> cbuf" where
  "safestrcpy s t n = (if n \<le> 0 then s else safestrcpy_loop s t 0 (nat (n - 1)))"


text \<open>
  Loops that run to the terminating NUL do not end on a buffer without one: \<open>None\<close>.
  The counters are \<open>int\<close>s that stay below the length of the string.
\<close>

partial_function (option) strlen_loop :: "cbuf \<Rightarrow> nat \<Rightarrow> nat option" where
  "strlen_loop s n = (if s n = 0 then Some n else strlen_loop s (Suc n))"

definition strlen :: "cbuf \<Rightarrow> nat option" where
  "strlen s = strlen_loop s 0"

partial_function (option) strcpy_loop :: "cbuf \<Rightarrow> cbuf \<Rightarrow> nat \<Rightarrow> cbuf option" where
  "strcpy_loop s t i =
     (let s = s(i := t i) in if t i = 0 then Some s else strcpy_loop s t (Suc i))"

definition strcpy :: "cbuf \<Rightarrow> cbuf \<Rightarrow> cbuf option" where
  "strcpy s t = strcpy_loop s t 0"

partial_function (option) strcmp_loop :: "cbuf \<Rightarrow> cbuf \<Rightarrow> nat \<Rightarrow> int option" where
  "strcmp_loop p q i =
     (if p i \<noteq> 0 \<and> p i = q i then strcmp_loop p q (Suc i)
      else Some (uint (p i) - uint (q i)))"

definition strcmp :: "cbuf \<Rightarrow> cbuf \<Rightarrow> int option" where
  "strcmp p q = strcmp_loop p q 0"

text \<open>\<open>strchr\<close> returns the offset of the match; the inner \<open>None\<close> is its null pointer.\<close>

partial_function (option) strchr_loop :: "cbuf \<Rightarrow> byte \<Rightarrow> nat \<Rightarrow> nat option option" where
  "strchr_loop s c i =
     (if s i = 0 then Some None else if s i = c then Some (Some i) else strchr_loop s c (Suc i))"

definition strchr :: "cbuf \<Rightarrow> byte \<Rightarrow> nat option option" where
  "strchr s c = strchr_loop s c 0"

partial_function (option) atoi_loop :: "cbuf \<Rightarrow> nat \<Rightarrow> int \<Rightarrow> int option" where
  "atoi_loop s i n =
     (if 48 \<le> s i \<and> s i \<le> 57 then atoi_loop s (Suc i) (n * 10 + uint (s i) - 48) else Some n)"

definition atoi :: "cbuf \<Rightarrow> int option" where
  "atoi s = atoi_loop s 0 0"

section \<open>What the memory routines do\<close>

text \<open>
  The abstract effect of a move and of a fill: a range of \<open>n\<close> bytes at \<open>d\<close>, counted modulo the
  address space, takes the old bytes of the range at \<open>s\<close>, or the byte \<open>v\<close>.
\<close>

definition moved :: "mem \<Rightarrow> u32 \<Rightarrow> u32 \<Rightarrow> nat \<Rightarrow> mem" where
  "moved m d s n = (\<lambda>a. if unat (a - d) < n then m (s + (a - d)) else m a)"

definition filled :: "mem \<Rightarrow> u32 \<Rightarrow> byte \<Rightarrow> nat \<Rightarrow> mem" where
  "filled m d v n = (\<lambda>a. if unat (a - d) < n then v else m a)"

lemma unat_diff_Suc:
  fixes a d :: u32
  assumes "a \<noteq> d"
  shows "unat (a - d) = Suc (unat (a - (d + 1)))"
proof -
  have eq: "a - (d + 1) = (a - d) - 1" by (simp add: algebra_simps)
  have "unat (a - d) \<noteq> 0" using assms by (simp add: unat_eq_zero)
  then show ?thesis using assms by (simp only: eq) (simp add: unat_minus_one)
qed

lemma unat_before: "unat (d - (d + 1) :: u32) = 2 ^ 32 - 1"
  by (simp add: unsigned_minus_1_eq_mask mask_eq_exp_minus_1)

lemma stosb_filled: "n \<le> 2 ^ 32 \<Longrightarrow> stosb m d v n = filled m d (ucast v) n"
proof (induction n arbitrary: m d)
  case (Suc n)
  show ?case
  proof
    fix a
    have "stosb m d v (Suc n) a = filled (m(d := ucast v)) (d + 1) (ucast v) n a"
      using Suc by simp
    also have "\<dots> = filled m d (ucast v) (Suc n) a"
    proof (cases "a = d")
      case True
      then show ?thesis using Suc.prems unat_before [of d] by (simp add: filled_def)
    next
      case False
      then show ?thesis using unat_diff_Suc [OF False] by (simp add: filled_def)
    qed
    finally show "stosb m d v (Suc n) a = filled m d (ucast v) (Suc n) a" .
  qed
qed (simp add: filled_def)

lemma copy_up_moved:
  assumes "n \<le> 2 ^ 32" "\<And>i j. i < j \<Longrightarrow> j < n \<Longrightarrow> d + of_nat i \<noteq> s + of_nat j"
  shows "copy_up m d s n = moved m d s n"
  using assms
proof (induction n arbitrary: m d s)
  case 0
  then show ?case by (simp add: moved_def)
next
  case (Suc n)
  have "copy_up m d s (Suc n) = moved (m(d := m s)) (d + 1) (s + 1) n"
  proof -
    have "(d + 1) + of_nat i \<noteq> (s + 1) + of_nat j" if "i < j" "j < n" for i j
      using Suc.prems(2) [of "Suc i" "Suc j"] that by (simp add: algebra_simps)
    then show ?thesis using Suc.IH [of "d + 1" "s + 1"] Suc.prems(1) by simp
  qed
  also have "\<dots> = moved m d s (Suc n)"
  proof
    fix a
    show "moved (m(d := m s)) (d + 1) (s + 1) n a = moved m d s (Suc n) a"
    proof (cases "a = d")
      case True
      then show ?thesis using Suc.prems(1) unat_before [of d] by (simp add: moved_def)
    next
      case False
      have "s + (a - d) \<noteq> d" if "unat (a - d) < Suc n"
        using Suc.prems(2) [of 0 "unat (a - d)"] that False by (auto simp: unat_gt_0)
      then show ?thesis using False unat_diff_Suc [OF False]
        by (auto simp: moved_def algebra_simps)
    qed
  qed
  finally show ?case .
qed

lemma copy_down_moved:
  assumes "n \<le> 2 ^ 32" "\<And>i j. i < j \<Longrightarrow> j < n \<Longrightarrow> s + of_nat i \<noteq> d + of_nat j"
  shows "copy_down m (d + of_nat n) (s + of_nat n) n = moved m d s n"
  using assms
proof (induction n arbitrary: m)
  case 0
  then show ?case by (simp add: moved_def)
next
  case (Suc n)
  let ?m = "m(d + of_nat n := m (s + of_nat n))"
  have "copy_down m (d + of_nat (Suc n)) (s + of_nat (Suc n)) (Suc n)
        = copy_down ?m (d + of_nat n) (s + of_nat n) n"
    by (simp add: algebra_simps)
  also have "\<dots> = moved ?m d s n"
    by (rule Suc.IH) (use Suc.prems in auto)
  also have "\<dots> = moved m d s (Suc n)"
  proof
    fix a
    have n: "unat (of_nat n :: u32) = n"
      using Suc.prems(1) by (simp add: unat_of_nat)
    show "moved ?m d s n a = moved m d s (Suc n) a"
    proof (cases "unat (a - d) = n")
      case True
      then have "a = d + of_nat n"
        by auto
      then show ?thesis using n by (simp add: moved_def)
    next
      case False
      then have "a \<noteq> d + of_nat n" using n by auto
      moreover have "s + (a - d) \<noteq> d + of_nat n" if "unat (a - d) < n"
        using Suc.prems(2) [of "unat (a - d)" n] that by simp
      ultimately show ?thesis using False by (auto simp: moved_def)
    qed
  qed
  finally show ?case .
qed

lemma filled_append:
  assumes "k + n \<le> 2 ^ 32"
  shows "filled (filled m a v k) (a + of_nat k) v n = filled m a v (k + n)"
proof
  fix x :: u32
  define y where "y = x - a"
  have eq: "x - (a + of_nat k) = y - of_nat k" by (simp add: y_def algebra_simps)
  show "filled (filled m a v k) (a + of_nat k) v n x = filled m a v (k + n) x"
  proof (cases "n = 0")
    case False
    then have "unat (of_nat k :: u32) = k" using assms by (simp add: unat_of_nat)
    then have "unat (y - of_nat k) = (if k \<le> unat y then unat y - k else unat y + 2 ^ 32 - k)"
      by (simp add: unat_sub_if')
    then show ?thesis
      using assms unsigned_less [of y] by (auto simp: filled_def eq simp flip: y_def)
  qed (simp add: filled_def)
qed

lemma byte_of_rep:
  fixes c :: u32
  assumes "k < 4"
  shows "byte_of (push_bit 24 (c AND 0xFF) OR push_bit 16 (c AND 0xFF) OR push_bit 8 (c AND 0xFF)
           OR (c AND 0xFF)) k = ucast c"
proof (rule bit_word_eqI)
  fix n
  assume n: "n < LENGTH(8)"
  have m: "c AND 0xFF = take_bit 8 c"
    by (simp add: take_bit_eq_mask mask_eq_exp_minus_1)
  consider "k = 0" | "k = 1" | "k = 2" | "k = 3" using assms by linarith
  then show "bit (byte_of (push_bit 24 (c AND 0xFF) OR push_bit 16 (c AND 0xFF)
       OR push_bit 8 (c AND 0xFF) OR (c AND 0xFF)) k) n = bit (ucast c :: byte) n"
    using n by cases (auto simp: bit_byte_of bit_simps m)
qed

lemma store32_filled:
  assumes "\<And>k. k < 4 \<Longrightarrow> byte_of w k = v"
  shows "store32 m a w = filled m a v 4"
proof
  fix x
  have "store32 m a w x = stosb m a (ucast v) 4 x"
    using assms [of 0] assms [of 1] assms [of 2] assms [of 3]
    by (simp add: store32_def numeral_eq_Suc algebra_simps)
  then show "store32 m a w x = filled m a v 4 x" by (simp add: stosb_filled)
qed

lemma stosl_filled:
  assumes "4 * n \<le> 2 ^ 32" "\<And>k. k < 4 \<Longrightarrow> byte_of w k = v"
  shows "stosl m a w n = filled m a v (4 * n)"
  using assms(1)
proof (induction n arbitrary: m a)
  case (Suc n)
  then have "stosl m a w (Suc n) = filled (filled m a v 4) (a + of_nat 4) v (4 * n)"
    by (simp add: store32_filled [OF assms(2)])
  also have "\<dots> = filled m a v (4 + 4 * n)"
    by (rule filled_append) (use Suc.prems in simp)
  finally show ?case by simp
qed (simp add: filled_def)

lemma unat_le_max: "unat (n :: u32) \<le> 2 ^ 32"
  using unsigned_less [of n, where ?'a = nat] by simp

lemma memset_filled: "memset m dst c n = filled m dst (ucast c) (unat n)"
proof (cases "sint dst smod 4 = 0 \<and> n mod 4 = 0")
  case True
  then have "unat (n mod 4) = 0" by simp
  then have "unat n mod 4 = 0" by (simp only: unat_mod_distrib) simp
  then have len: "4 * unat (n div 4) = unat n"
    by (simp add: unat_div) presburger
  have "memset m dst c n = stosl m dst (push_bit 24 (c AND 0xFF) OR push_bit 16 (c AND 0xFF)
      OR push_bit 8 (c AND 0xFF) OR (c AND 0xFF)) (unat (n div 4))"
    using True by (simp only: memset_def Let_def if_True simp_thms)
  also have "\<dots> = filled m dst (ucast c) (4 * unat (n div 4))"
    by (rule stosl_filled [OF _ byte_of_rep]) (use len unat_le_max [of n] in simp_all)
  finally have "memset m dst c n = filled m dst (ucast c) (4 * unat (n div 4))" .
  with len show ?thesis by simp
next
  case False
  then show ?thesis by (auto simp: memset_def stosb_filled [OF unat_le_max])
qed

text \<open>
  \<open>memset\<close> sets exactly the \<open>n\<close> bytes from \<open>dst\<close> on to the low byte of \<open>c\<close>, whichever of its
  two paths (words or bytes) it takes, for every size and alignment.
\<close>

lemma memset_fills: "memset m dst c n = filled m dst (ucast c) (unat n)"
  by (rule memset_filled)

lemma copy_no_clash:
  fixes s d :: u32
  assumes "unat s + n \<le> 2 ^ 32" "unat d + n \<le> 2 ^ 32" "i < n" "j < n"
  shows "s + of_nat i = d + of_nat j \<longleftrightarrow> unat s + i = unat d + j"
proof -
  have "unat (s + of_nat i) = unat s + i" "unat (d + of_nat j) = unat d + j"
    using assms by (simp_all add: unat_word_ariths unat_of_nat)
  then show ?thesis by (metis word_unat_eq_iff)
qed

lemma memmove_moved:
  assumes src: "unat src + unat n < 2 ^ 32" and dst: "unat dst + unat n \<le> 2 ^ 32"
  shows "memmove m dst src n = moved m dst src (unat n)"
proof (cases "src < dst \<and> src + n > dst")
  case True
  have "src + of_nat i \<noteq> dst + of_nat j" if "i < j" "j < unat n" for i j
    using copy_no_clash [of src "unat n" dst i j] that src dst True
    by (auto simp: word_less_nat_alt)
  then have "copy_down m (dst + of_nat (unat n)) (src + of_nat (unat n)) (unat n)
      = moved m dst src (unat n)"
    by (intro copy_down_moved unat_le_max)
  then show ?thesis using True by (simp add: memmove_def)
next
  case False
  have "unat (src + n) = unat src + unat n" using src by (simp add: unat_word_ariths)
  then have "dst + of_nat i \<noteq> src + of_nat j" if "i < j" "j < unat n" for i j
    using copy_no_clash [of dst "unat n" src i j] that src dst False
    by (auto simp: word_less_nat_alt not_less)
  then have "copy_up m dst src (unat n) = moved m dst src (unat n)"
    by (intro copy_up_moved unat_le_max)
  then show ?thesis using False by (auto simp: memmove_def)
qed

text \<open>
  \<open>memmove\<close> copies the range as it was before the call, however source and destination
  overlap, as long as neither range runs past the end of the address space.
\<close>

lemma memmove_moves:
  assumes "unat src + unat n < 2 ^ 32" "unat dst + unat n \<le> 2 ^ 32"
  shows "memmove m dst src n = moved m dst src (unat n)"
  by (rule memmove_moved [OF assms])

lemma memmove_moves_witness:
  "unat (16 :: u32) + unat (4 :: u32) < 2 ^ 32 \<and> unat (18 :: u32) + unat (4 :: u32) \<le> 2 ^ 32 \<and>
   memmove (\<lambda>a. ucast a) 18 16 4 = moved (\<lambda>a. ucast a) 18 16 4 \<and>
   memmove (\<lambda>a. ucast a) 18 16 4 20 = 18"
proof -
  have h: "unat (16 :: u32) + unat (4 :: u32) < 2 ^ 32"
    "unat (18 :: u32) + unat (4 :: u32) \<le> 2 ^ 32"
    by simp_all
  show ?thesis using h memmove_moves [OF h, of "\<lambda>a. ucast a"] by (simp add: moved_def)
qed

text \<open>
  the user library's \<open>memmove\<close> agrees with the kernel's when the destination does not start
  inside the source range; it copies upwards only, so \<open>ulib_memmove_overlap\<close> below shows that it
  smears the first byte over an overlapping destination.
\<close>

lemma ulib_memmove_moves:
  assumes "0 \<le> n" "uint src + n < 2 ^ 32" "uint dst + n \<le> 2 ^ 32" "dst \<le> src \<or> src + of_int n \<le> dst"
  shows "ulib_memmove m dst src n = memmove m dst src (of_int n)"
proof -
  have "n < 2 ^ 32" using assms(2) uint_ge_0 [of src] by linarith
  then have n: "uint (of_int n :: u32) = n"
    using assms(1) by (simp add: uint_word_of_int_eq take_bit_int_eq_self_iff)
  then have un: "unat (of_int n :: u32) = nat n" by (simp add: unat_eq_nat_uint)
  have "\<not> (src < dst \<and> src + of_int n > dst)" using assms(4) by auto
  then show ?thesis by (auto simp: ulib_memmove_def memmove_def un)
qed

lemma ulib_memmove_moves_witness:
  "(0::int) \<le> 2 \<and> uint (8 :: u32) + 2 < 2 ^ 32 \<and> uint (4 :: u32) + 2 \<le> 2 ^ 32 \<and>
   ((4 :: u32) \<le> 8 \<or> 8 + of_int 2 \<le> (4 :: u32)) \<and>
   ulib_memmove (\<lambda>a. ucast a) 4 8 2 = memmove (\<lambda>a. ucast a) 4 8 (of_int 2)"
proof -
  have h: "(0::int) \<le> 2" "uint (8 :: u32) + 2 < 2 ^ 32" "uint (4 :: u32) + 2 \<le> 2 ^ 32"
    "(4 :: u32) \<le> 8 \<or> 8 + of_int 2 \<le> (4 :: u32)"
    by simp_all
  show ?thesis using h ulib_memmove_moves [OF h, of "\<lambda>a. ucast a"] by blast
qed

lemma ulib_memmove_overlap:
  "ulib_memmove (\<lambda>a. ucast a) 17 16 2 18 = 16 \<and> memmove (\<lambda>a. ucast a) 17 16 2 18 = 17"
proof -
  have "copy_up (\<lambda>a. ucast a) 17 16 2 18 = 16" "copy_down (\<lambda>a. ucast a) 19 18 2 18 = 17"
    by (simp_all only: numeral_2_eq_2 copy_up.simps copy_down.simps) simp_all
  then show ?thesis by (simp add: ulib_memmove_def memmove_def)
qed

section \<open>What the string routines do\<close>

text \<open>The string a bounded buffer holds: its bytes up to the first NUL, at most \<open>n\<close>.\<close>

definition cstrn :: "cbuf \<Rightarrow> nat \<Rightarrow> byte list" where
  "cstrn p n = takeWhile (\<lambda>b. b \<noteq> 0) (map p [0..<n])"

lemma cstrn_0 [simp]: "cstrn p 0 = []"
  by (simp add: cstrn_def)

lemma cstrn_Suc: "cstrn p (Suc n) = (if p 0 = 0 then [] else p 0 # cstrn (\<lambda>i. p (Suc i)) n)"
  by (simp add: cstrn_def map_upt_Suc del: upt_Suc)

lemma memcmp_zero_iff: "memcmp p q n = 0 \<longleftrightarrow> (\<forall>i < n. p i = q i)"
  by (induction p q n rule: memcmp.induct) (auto simp: All_less_Suc2 word_uint_eq_iff)

text \<open>
  \<open>strncmp\<close> returns 0 exactly when the two strings, cut at \<open>n\<close> bytes, are equal.
\<close>

lemma strncmp_zero_iff: "strncmp p q n = 0 \<longleftrightarrow> cstrn p n = cstrn q n"
  by (induction p q n rule: strncmp.induct) (auto simp: cstrn_Suc word_uint_eq_iff)

lemma zero_fill_eq: "zero_fill s i n = (\<lambda>k. if i \<le> k \<and> k < i + n then 0 else s k)"
  by (induction n arbitrary: s i) (auto simp: fun_eq_iff)

lemma strncpy_loop_eq:
  "strncpy_loop s t i n =
     (\<lambda>k. if i \<le> k \<and> k < i + n then (if \<exists>j. i \<le> j \<and> j < k \<and> t j = 0 then 0 else t k) else s k)"
proof (induction n arbitrary: s i)
  case (Suc n)
  show ?case
  proof
    fix k
    show "strncpy_loop s t i (Suc n) k =
      (if i \<le> k \<and> k < i + Suc n then (if \<exists>j. i \<le> j \<and> j < k \<and> t j = 0 then 0 else t k) else s k)"
    proof (cases "t i = 0")
      case True
      then show ?thesis by (auto simp: zero_fill_eq)
    next
      case False
      have "(\<exists>j \<ge> i. j < k \<and> t j = 0) \<longleftrightarrow> (\<exists>j \<ge> Suc i. j < k \<and> t j = 0)"
        using False by (metis Suc_leD Suc_leI le_neq_implies_less)
      with False show ?thesis by (auto simp: Suc.IH)
    qed
  qed
qed (auto simp: fun_eq_iff)

text \<open>
  \<open>strncpy\<close> writes exactly \<open>n\<close> bytes: the string \<open>t\<close>, then NULs.
\<close>

lemma strncpy_spec:
  "strncpy s t n k =
     (if k < nat n then (if \<exists>j < k. t j = 0 then 0 else t k) else s k)"
  by (simp add: strncpy_def strncpy_loop_eq)

lemma safestrcpy_loop_spec:
  assumes "r = safestrcpy_loop s t i n"
  shows "\<exists>k. i \<le> k \<and> k \<le> i + n \<and> r k = 0 \<and> (\<forall>j. i \<le> j \<and> j < k \<longrightarrow> r j = t j \<and> t j \<noteq> 0)
           \<and> (k < i + n \<longrightarrow> t k = 0)"
    and "\<forall>j. j < i \<or> i + n < j \<longrightarrow> r j = s j"
  using assms
proof (induction n arbitrary: s i r)
  case (Suc n)
  note IH = Suc.IH
  {
    case 1
    show ?case
    proof (cases "t i = 0")
      case True
      then show ?thesis using 1 by (intro exI [of _ i]) simp
    next
      case False
      then have r: "r = safestrcpy_loop (s(i := t i)) t (Suc i) n" using 1 by simp
      obtain k where k: "Suc i \<le> k" "k \<le> Suc i + n" "r k = 0"
        "\<forall>j. Suc i \<le> j \<and> j < k \<longrightarrow> r j = t j \<and> t j \<noteq> 0" "k < Suc i + n \<longrightarrow> t k = 0"
        using IH(1) [OF r] by blast
      have "r i = t i" using IH(2) [OF r] by simp
      then have "r j = t j \<and> t j \<noteq> 0" if "i \<le> j" "j < k" for j
        using k(4) that False by (cases "j = i") auto
      then show ?thesis using k by (intro exI [of _ k]) auto
    qed
  next
    case 2
    show ?case
    proof (cases "t i = 0")
      case False
      then have "r = safestrcpy_loop (s(i := t i)) t (Suc i) n" using 2 by simp
      from IH(2) [OF this] show ?thesis by simp
    qed (use 2 in auto)
  }
qed auto

text \<open>
  \<open>safestrcpy\<close> into an array of \<open>n > 0\<close> bytes always leaves a NUL-terminated string, the
  longest prefix of \<open>t\<close> that fits in \<open>n - 1\<close> bytes, and writes nothing past the array.
\<close>

lemma safestrcpy_spec:
  assumes "0 < n"
  shows "(\<exists>k < nat n. safestrcpy s t n k = 0 \<and>
            (\<forall>j < k. safestrcpy s t n j = t j \<and> t j \<noteq> 0) \<and> (k < nat n - 1 \<longrightarrow> t k = 0)) \<and>
         (\<forall>j \<ge> nat n. safestrcpy s t n j = s j)"
proof -
  have r: "safestrcpy s t n = safestrcpy_loop s t 0 (nat (n - 1))"
    using assms by (simp add: safestrcpy_def)
  have n: "nat (n - 1) = nat n - 1" "0 < nat n" using assms by auto
  obtain k where k: "0 \<le> k" "k \<le> 0 + nat (n - 1)" "safestrcpy s t n k = 0"
    "\<forall>j. 0 \<le> j \<and> j < k \<longrightarrow> safestrcpy s t n j = t j \<and> t j \<noteq> 0" "k < 0 + nat (n - 1) \<longrightarrow> t k = 0"
    using safestrcpy_loop_spec(1) [OF r] by blast
  have "k < nat n" using k(2) n by linarith
  moreover have "\<forall>j < k. safestrcpy s t n j = t j \<and> t j \<noteq> 0" using k(4) by blast
  moreover have "k < nat n - 1 \<longrightarrow> t k = 0" using k(5) n(1) by simp
  moreover have "safestrcpy s t n j = s j" if "nat n \<le> j" for j
    using safestrcpy_loop_spec(2) [OF r] that n by auto
  ultimately show ?thesis using k(3) by blast
qed

lemma safestrcpy_spec_witness:
  "(0::int) < 3 \<and> (\<exists>k < 3. safestrcpy (\<lambda>_. 7) (\<lambda>_. 65) 3 k = 0) \<and> safestrcpy (\<lambda>_. 7) (\<lambda>_. 65) 3 3 = 7"
proof -
  have h: "(0::int) < 3" by simp
  show ?thesis using h safestrcpy_spec [OF h, of "\<lambda>_. 7" "\<lambda>_. 65"] by auto
qed

text \<open>The loops to the NUL: they return whenever there is one, with the expected result.\<close>

lemma strlen_loop_eq: "s k = 0 \<Longrightarrow> (\<forall>j. n \<le> j \<and> j < k \<longrightarrow> s j \<noteq> 0) \<Longrightarrow> n \<le> k \<Longrightarrow> strlen_loop s n = Some k"
proof (induction "k - n" arbitrary: n)
  case 0
  then have "s n = 0" by auto
  then show ?case using 0 by (subst strlen_loop.simps) simp
next
  case (Suc d)
  then have "strlen_loop s (Suc n) = Some k" by (intro Suc.hyps(1)) auto
  moreover have "s n \<noteq> 0" using Suc.hyps(2) Suc.prems by auto
  ultimately show ?case by (subst strlen_loop.simps) simp
qed

text \<open>
  on a buffer whose first NUL is at \<open>k\<close>, \<open>strlen\<close> returns, and returns \<open>k\<close>.
\<close>

lemma strlen_spec: "s k = 0 \<Longrightarrow> \<forall>j < k. s j \<noteq> 0 \<Longrightarrow> strlen s = Some k"
  by (simp add: strlen_def strlen_loop_eq)

lemma strlen_spec_witness:
  "strlen (\<lambda>i. if i < 2 then 97 else 0) = Some 2"
  using strlen_spec [of "\<lambda>i. if i < 2 then 97 else 0" 2] by simp


text \<open>A string in memory: its characters and the terminating NUL.\<close>

definition cstr :: "byte list \<Rightarrow> cbuf" where
  "cstr cs = (\<lambda>i. if i < length cs then cs ! i else 0)"

lemma cstr_simps [simp]: "cstr [] n = 0" "cstr (c # cs) 0 = c" "cstr (c # cs) (Suc n) = cstr cs n"
  by (simp_all add: cstr_def)

lemma strchr_loop_shift: "strchr_loop (cstr (d # cs)) c (Suc i) = map_option (map_option Suc) (strchr_loop (cstr cs) c i)"
proof (induction "length cs - i" arbitrary: i)
  case 0
  then show ?case by (simp add: strchr_loop.simps [of _ _ i] strchr_loop.simps [of _ _ "Suc i"]) (simp add: cstr_def)
next
  case (Suc k)
  then have "strchr_loop (cstr (d # cs)) c (Suc (Suc i)) = map_option (map_option Suc) (strchr_loop (cstr cs) c (Suc i))"
    by (intro Suc.hyps(1)) simp
  then show ?case by (simp add: strchr_loop.simps [of _ _ i] strchr_loop.simps [of _ _ "Suc i"])
qed

text \<open>On the characters of a string, \<open>strchr\<close> returns the first position of the character before a NUL.\<close>

lemma strchr_list: "strchr (cstr cs) c = Some (scan (\<lambda>x. x = c) (takeWhile (\<lambda>x. x \<noteq> 0) cs))"
proof (induction cs)
  case Nil
  then show ?case by (simp add: strchr_def strchr_loop.simps)
next
  case (Cons d cs)
  then show ?case
    using strchr_loop_shift [of d cs c 0] by (simp add: strchr_def strchr_loop.simps [of _ c 0])
qed

lemma strchr_cstr: "0 \<notin> set cs \<Longrightarrow> strchr (cstr cs) c = Some (scan (\<lambda>x. x = c) cs)"
  by (metis (mono_tags, lifting) strchr_list takeWhile_eq_all_conv)

end
