(* ===== verification/Xv6_Kalloc.thy ===== *)
theory Xv6_Kalloc
  imports Xv6_String
begin

text \<open>
  The physical page allocator (\<open>kalloc.c\<close>): the free list threaded through the free pages, and its
  refinement to a stack of page addresses. The routines hold \<open>kmem.lock\<close> from end to end, so each
  is one step here.
\<close>

section \<open>The allocator\<close>

text \<open>
  Memory by kernel virtual address; \<open>kend\<close> is the address of the linker symbol \<open>end\<close>. The state
  records of the other kernel components extend this one.
\<close>

record kmem =
  ram :: mem
  freelist :: u32
  use_lock :: bool
  kend :: u32

abbreviation PGSIZE :: u32 where "PGSIZE \<equiv> 4096"
abbreviation KERNBASE :: u32 where "KERNBASE \<equiv> 0x80000000"
abbreviation PHYSTOP :: u32 where "PHYSTOP \<equiv> 0xE000000"
abbreviation EXTMEM :: u32 where "EXTMEM \<equiv> 0x100000"
abbreviation DEVSPACE :: u32 where "DEVSPACE \<equiv> 0xFE000000"

definition V2P :: "u32 \<Rightarrow> u32" where "V2P a = a - KERNBASE"
definition P2V :: "u32 \<Rightarrow> u32" where "P2V a = a + KERNBASE"

definition PGROUNDUP :: "u32 \<Rightarrow> u32" where "PGROUNDUP sz = (sz + PGSIZE - 1) AND NOT (PGSIZE - 1)"
definition PGROUNDDOWN :: "u32 \<Rightarrow> u32" where "PGROUNDDOWN a = a AND NOT (PGSIZE - 1)"

definition kfree :: "u32 \<Rightarrow> 'a kmem_scheme \<Rightarrow> 'a kmem_scheme res" where
  "kfree v s =
     (if v mod PGSIZE \<noteq> 0 \<or> v < kend s \<or> V2P v \<ge> PHYSTOP then Inl (Panic ''kfree'')
      else let m = memset (ram s) v 1 PGSIZE
           in Inr (s\<lparr>ram := store32 m v (freelist s), freelist := v\<rparr>))"

definition kalloc :: "'a kmem_scheme \<Rightarrow> u32 \<times> 'a kmem_scheme" where
  "kalloc s = (let r = freelist s in (r, if r \<noteq> 0 then s\<lparr>freelist := load32 (ram s) r\<rparr> else s))"

lemma kfree_Inr_page:
  assumes "kfree v s = Inr t"
  shows "v mod PGSIZE = 0" "kend s \<le> v" "V2P v < PHYSTOP"
  using assms by (auto simp: kfree_def split: if_splits)

lemma kfree_no_wrap:
  assumes "V2P v < PHYSTOP"
  shows "unat (v + PGSIZE) = unat v + 4096"
proof -
  have "unat (V2P v + KERNBASE) = unat (V2P v) + unat KERNBASE"
    using assms by (intro unat_plus_if' [THEN trans]) (simp add: word_less_nat_alt)
  then have "unat v = unat (V2P v) + 2147483648" by (simp add: V2P_def)
  then show ?thesis using assms by (simp add: unat_word_ariths word_less_nat_alt)
qed

function freerange_loop :: "u32 \<Rightarrow> u32 \<Rightarrow> 'a kmem_scheme \<Rightarrow> 'a kmem_scheme res" where
  "freerange_loop p vend s =
     (if p + PGSIZE \<le> vend
      then (case kfree p s of Inl e \<Rightarrow> Inl e | Inr s' \<Rightarrow> freerange_loop (p + PGSIZE) vend s')
      else Inr s)"
  by pat_completeness auto
termination
proof (relation "measure (\<lambda>(p, _, _). 2 ^ 32 - unat p)")
  fix p vend :: u32 and s t :: "'a kmem_scheme"
  assume "kfree p s = Inr t"
  then have "unat (p + PGSIZE) = unat p + 4096" by (intro kfree_no_wrap kfree_Inr_page)
  moreover have "unat p < 2 ^ 32" using unsigned_less [of p] by simp
  ultimately show "((p + PGSIZE, vend, t), p, vend, s) \<in> measure (\<lambda>(p, _, _). 2 ^ 32 - unat p)"
    by simp
qed simp

declare freerange_loop.simps [simp del]

definition freerange :: "u32 \<Rightarrow> u32 \<Rightarrow> 'a kmem_scheme \<Rightarrow> 'a kmem_scheme res" where
  "freerange vstart vend s = freerange_loop (PGROUNDUP vstart) vend s"

definition kinit1 :: "u32 \<Rightarrow> u32 \<Rightarrow> 'a kmem_scheme \<Rightarrow> 'a kmem_scheme res" where
  "kinit1 vstart vend s = freerange vstart vend (s\<lparr>use_lock := False\<rparr>)"

definition kinit2 :: "u32 \<Rightarrow> u32 \<Rightarrow> 'a kmem_scheme \<Rightarrow> 'a kmem_scheme res" where
  "kinit2 vstart vend s = bindR (freerange vstart vend s) (\<lambda>s. Inr (s\<lparr>use_lock := True\<rparr>))"

section \<open>Pages\<close>

definition in_page :: "u32 \<Rightarrow> u32 \<Rightarrow> bool" where
  "in_page v a \<longleftrightarrow> unat (a - v) < 4096"

lemma aligned_unat: "(v :: u32) mod PGSIZE = 0 \<longleftrightarrow> unat v mod 4096 = 0"
proof -
  have "unat (v mod PGSIZE) = unat v mod 4096" by (simp only: unat_mod_distrib) simp
  then show ?thesis by (metis unat_eq_zero)
qed

lemma in_page_div:
  assumes "v mod PGSIZE = 0"
  shows "in_page v a \<longleftrightarrow> unat a div 4096 = unat v div 4096"
proof -
  have b: "unat a < 2 ^ 32" "unat v < 2 ^ 32"
    using unsigned_less [of a] unsigned_less [of v] by simp_all
  have "unat v mod 4096 = 0" using aligned_unat [of v] assms by simp
  then obtain k where k: "unat v = 4096 * k" by (auto simp: mod_eq_0_iff_dvd)
  show ?thesis
  proof (cases "v \<le> a")
    case True
    then have "unat (a - v) = unat a - 4096 * k" "4096 * k \<le> unat a"
      using k by (simp_all add: unat_sub word_le_nat_alt)
    then show ?thesis using k by (auto simp: in_page_def)
  next
    case False
    then have "unat (a - v) = unat a + 2 ^ 32 - 4096 * k"
      using k by (simp add: unat_sub_if' word_le_nat_alt)
    moreover have "unat a < 4096 * k" using False k by (simp add: word_le_nat_alt)
    moreover have "4096 * k + 4096 \<le> 2 ^ 32" using b(2) k by simp
    moreover have "unat a div 4096 < k" using calculation(2) by (simp add: div_less_iff_less_mult mult.commute)
    ultimately show ?thesis using k by (simp add: in_page_def)
  qed
qed

lemma page_unique:
  assumes "v mod PGSIZE = 0" "w mod PGSIZE = 0" "in_page v a" "in_page w a"
  shows "v = w"
proof -
  have "unat v div 4096 = unat w div 4096" using in_page_div [OF assms(1), of a] in_page_div [OF assms(2), of a] assms(3,4) by simp
  moreover have "unat v mod 4096 = 0" "unat w mod 4096 = 0" using aligned_unat [of v] aligned_unat [of w] assms(1,2) by simp_all
  ultimately have "unat v = unat w" by (metis div_mult_mod_eq)
  then show ?thesis by (simp add: word_unat_eq_iff)
qed

lemma in_page_offset: "k < 4096 \<Longrightarrow> in_page v (v + of_nat k)"
  by (simp add: in_page_def unat_of_nat)

lemma in_page_word [simp]: "in_page v v" "in_page v (v + 1)" "in_page v (v + 2)" "in_page v (v + 3)"
  by (simp_all add: in_page_def)

text \<open>What is outside a page does not see a word that is stored at its start, or a fill of it.\<close>

lemma store32_outside: "\<not> in_page v a \<Longrightarrow> store32 m v x a = m a"
  by (auto simp: store32_def)

lemma load32_cong:
  "m a = m' a \<Longrightarrow> m (a + 1) = m' (a + 1) \<Longrightarrow> m (a + 2) = m' (a + 2) \<Longrightarrow> m (a + 3) = m' (a + 3) \<Longrightarrow>
    load32 m a = load32 m' a"
  by (simp add: load32_def)

lemma memset_page: "memset m v c PGSIZE a = (if in_page v a then ucast c else m a)"
  by (simp add: memset_filled filled_def in_page_def)

section \<open>Refinement to a stack of pages\<close>

fun chain :: "mem \<Rightarrow> u32 \<Rightarrow> u32 list \<Rightarrow> bool" where
  "chain m p [] \<longleftrightarrow> p = 0"
| "chain m p (x # xs) \<longleftrightarrow> p = x \<and> x \<noteq> 0 \<and> chain m (load32 m x) xs"

text \<open>What \<open>kfree\<close> accepts.\<close>

definition kpage :: "'a kmem_scheme \<Rightarrow> u32 \<Rightarrow> bool" where
  "kpage s v \<longleftrightarrow> v mod PGSIZE = 0 \<and> kend s \<le> v \<and> V2P v < PHYSTOP"

definition free_pages :: "'a kmem_scheme \<Rightarrow> u32 list \<Rightarrow> bool" where
  "free_pages s ps \<longleftrightarrow> chain (ram s) (freelist s) ps \<and> distinct ps \<and> list_all (kpage s) ps"

lemma kpage_cong: "kend t = kend s \<Longrightarrow> kpage t = kpage s"
  by (simp add: kpage_def fun_eq_iff)

lemma chain_cong: "(\<And>x. x \<in> set ps \<Longrightarrow> load32 m x = load32 m' x) \<Longrightarrow> chain m p ps = chain m' p ps"
  by (induction ps arbitrary: p) auto

lemma kpage_nonzero: "kpage s v \<Longrightarrow> v \<noteq> 0"
  by (auto simp: kpage_def V2P_def)

lemma free_pages_frame:
  assumes "free_pages s ps" "\<And>p a. p \<in> set ps \<Longrightarrow> in_page p a \<Longrightarrow> ram t a = ram s a"
    "freelist t = freelist s" "kend t = kend s"
  shows "free_pages t ps"
proof -
  have "load32 (ram t) x = load32 (ram s) x" if "x \<in> set ps" for x
    using assms(2) [OF that] by (intro load32_cong) simp_all
  then show ?thesis
    using assms chain_cong [of ps "ram t" "ram s"] kpage_cong [OF assms(4)] by (simp add: free_pages_def)
qed

lemma kalloc_free_pages:
  assumes "free_pages s ps"
  shows "case ps of [] \<Rightarrow> kalloc s = (0, s)
    | p # qs \<Rightarrow> fst (kalloc s) = p \<and> free_pages (snd (kalloc s)) qs \<and>
        snd (kalloc s) = s\<lparr>freelist := freelist (snd (kalloc s))\<rparr>"
proof (cases ps)
  case (Cons p qs)
  then show ?thesis
    using assms by (auto simp: kalloc_def free_pages_def kpage_def list_all_iff Let_def)
qed (use assms in \<open>auto simp: kalloc_def free_pages_def\<close>)

lemma kfree_free_pages:
  assumes "free_pages s ps" "kpage s v" "v \<notin> set ps"
  obtains t where "kfree v s = Inr t" "free_pages t (v # ps)" "\<And>a. \<not> in_page v a \<Longrightarrow> ram t a = ram s a"
    "t = s\<lparr>ram := ram t, freelist := v\<rparr>"
proof -
  let ?m = "store32 (memset (ram s) v 1 PGSIZE) v (freelist s)"
  let ?t = "s\<lparr>ram := ?m, freelist := v\<rparr>"
  have frame: "?m a = ram s a" if "\<not> in_page v a" for a
    using that by (simp add: store32_outside memset_page)
  have "load32 ?m x = load32 (ram s) x" if "x \<in> set ps" for x
  proof -
    have x: "x mod PGSIZE = 0" "x \<noteq> v" using assms that by (auto simp: free_pages_def kpage_def list_all_iff)
    then have "in_page x a \<Longrightarrow> ?m a = ram s a" for a
      using frame page_unique [of v x a] assms(2) by (auto simp: kpage_def)
    then show ?thesis by (intro load32_cong) simp_all
  qed
  then have "chain ?m (freelist s) ps" using assms(1) chain_cong [of ps ?m "ram s"] by (simp add: free_pages_def)
  moreover have "kfree v s = Inr ?t"
    using assms(2) by (auto simp: kfree_def kpage_def)
  ultimately show thesis
    using that [of ?t] frame assms kpage_nonzero [OF assms(2)] kpage_cong [of ?t s] by (simp add: free_pages_def)
qed

section \<open>The interface of the allocator\<close>

text \<open>What the clients of the allocator rely on: it is a stack of pages.\<close>

fun allocs :: "('s \<Rightarrow> u32 \<times> 's) \<Rightarrow> nat \<Rightarrow> 's \<Rightarrow> u32 list \<times> 's" where
  "allocs alloc 0 s = ([], s)"
| "allocs alloc (Suc n) s = (let (p, s) = alloc s; (ps, s) = allocs alloc n s in (p # ps, s))"

locale page_allocator =
  fixes alloc :: "'s \<Rightarrow> u32 \<times> 's" and free :: "u32 \<Rightarrow> 's \<Rightarrow> 's res"
    and pages :: "'s \<Rightarrow> u32 list \<Rightarrow> bool" and page :: "'s \<Rightarrow> u32 \<Rightarrow> bool"
  assumes alloc_none: "pages s [] \<Longrightarrow> alloc s = (0, s)"
    and alloc_some: "pages s (p # ps) \<Longrightarrow> \<exists>t. alloc s = (p, t) \<and> pages t ps \<and> page t = page s"
    and free_page: "pages s ps \<Longrightarrow> page s v \<Longrightarrow> v \<notin> set ps \<Longrightarrow>
      \<exists>t. free v s = Inr t \<and> pages t (v # ps) \<and> page t = page s"
    and pages_page: "pages s ps \<Longrightarrow> p \<in> set ps \<Longrightarrow> page s p \<and> p \<noteq> 0"
    and pages_distinct: "pages s ps \<Longrightarrow> distinct ps"
begin

lemma allocs_pages:
  assumes "pages s ps"
  shows "\<exists>t. allocs alloc n s = (take n ps @ replicate (n - length ps) 0, t) \<and> pages t (drop n ps)"
  using assms
proof (induction n arbitrary: s ps)
  case (Suc n)
  show ?case
  proof (cases ps)
    case Nil
    then have "alloc s = (0, s)" using Suc.prems alloc_none by simp
    then show ?thesis using Suc.IH [OF Suc.prems] Nil by auto
  next
    case (Cons p qs)
    then obtain t where "alloc s = (p, t)" "pages t qs" using Suc.prems alloc_some by blast
    then show ?thesis using Suc.IH [of t qs] Cons by auto
  qed
qed simp

lemma free_alloc:
  assumes "pages s ps" "page s v" "v \<notin> set ps"
  shows "\<exists>t u. free v s = Inr t \<and> alloc t = (v, u) \<and> pages u ps"
proof -
  obtain t where t: "free v s = Inr t" "pages t (v # ps)" using free_page [OF assms] by blast
  then obtain u where "alloc t = (v, u)" "pages u ps" using alloc_some by blast
  with t show ?thesis by blast
qed

lemma allocs_distinct:
  assumes "pages s ps"
  shows "\<exists>xs k. fst (allocs alloc n s) = xs @ replicate k 0 \<and> distinct xs \<and> (\<forall>x \<in> set xs. page s x \<and> x \<noteq> 0) \<and>
    length xs = min n (length ps)"
proof -
  obtain t where "allocs alloc n s = (take n ps @ replicate (n - length ps) 0, t)"
    using allocs_pages [OF assms] by blast
  moreover have "distinct (take n ps)" using pages_distinct [OF assms] by simp
  moreover have "\<forall>x \<in> set (take n ps). page s x \<and> x \<noteq> 0" using pages_page [OF assms] by (meson in_set_takeD)
  ultimately show ?thesis by (intro exI [of _ "take n ps"]) auto
qed

end

interpretation kmem: page_allocator kalloc kfree free_pages kpage
proof
  fix s :: "'a kmem_scheme" and p v :: u32 and ps :: "u32 list"
  show "kalloc s = (0, s)" if "free_pages s []"
    using kalloc_free_pages [OF that] by simp
  show "\<exists>t. kalloc s = (p, t) \<and> free_pages t ps \<and> kpage t = kpage s" if "free_pages s (p # ps)"
    using kalloc_free_pages [OF that] kpage_cong [of "snd (kalloc s)" s]
    by (cases "kalloc s") (auto simp: kalloc_def Let_def split: if_splits)
  show "\<exists>t. kfree v s = Inr t \<and> free_pages t (v # ps) \<and> kpage t = kpage s"
    if page: "free_pages s ps" "kpage s v" "v \<notin> set ps"
  proof -
    obtain t where t: "kfree v s = Inr t" "free_pages t (v # ps)" "t = s\<lparr>ram := ram t, freelist := v\<rparr>"
      using kfree_free_pages [OF page] by metis
    have "kend t = kend s" by (subst t(3)) simp
    with t show ?thesis using kpage_cong by blast
  qed
  show "kpage s p \<and> p \<noteq> 0" if "free_pages s ps" "p \<in> set ps"
    using that kpage_nonzero by (auto simp: free_pages_def list_all_iff)
  show "distinct ps" if "free_pages s ps" using that by (simp add: free_pages_def)
qed

text \<open>
  C35: the allocator never hands out a page twice: from a state whose free list holds the pages \<open>ps\<close>,
  \<open>n\<close> calls of \<open>kalloc\<close> return the first \<open>n\<close> of them, which are distinct pages that \<open>kfree\<close> would
  take back, and null from then on.
\<close>

theorem kalloc_pages:
  assumes "free_pages s ps"
  shows "fst (allocs kalloc n s) = take n ps @ replicate (n - length ps) 0 \<and> distinct ps \<and> list_all (kpage s) ps"
  using kmem.allocs_pages [OF assms, of n] assms by (auto simp: free_pages_def)

text \<open>
  freeing a page that is not free fills it with junk, pushes it on the free list and leaves the
  memory outside it alone; the next \<open>kalloc\<close> returns that page and the old free list is back.
\<close>

lemma kfree_then_kalloc:
  assumes "free_pages s ps" "kpage s v" "v \<notin> set ps"
  shows "\<exists>t. kfree v s = Inr t \<and> free_pages t (v # ps) \<and> kalloc t = (v, s\<lparr>ram := ram t\<rparr>) \<and>
    {a. ram t a \<noteq> ram s a} \<subseteq> {a. in_page v a} \<and> free_pages (s\<lparr>ram := ram t\<rparr>) ps"
proof -
  obtain t where t: "kfree v s = Inr t" "free_pages t (v # ps)" "\<And>a. \<not> in_page v a \<Longrightarrow> ram t a = ram s a"
    "t = s\<lparr>ram := ram t, freelist := v\<rparr>" using kfree_free_pages [OF assms] by metis
  have "ram t = store32 (memset (ram s) v 1 PGSIZE) v (freelist s)"
    using t(1) by (auto simp: kfree_def Let_def split: if_splits)
  then have "load32 (ram t) v = freelist s" by simp
  then have k: "kalloc t = (v, s\<lparr>ram := ram t\<rparr>)"
    using kpage_nonzero [OF assms(2)] unfolding kalloc_def by (subst (1 2 3 4) t(4)) (simp add: Let_def)
  moreover have "free_pages (snd (kalloc t)) ps"
    using kalloc_free_pages [OF t(2)] by simp
  ultimately show ?thesis using t by auto
qed

lemma freerange_loop_pages:
  assumes "free_pages s ps" "distinct (qs @ ps)" "list_all (kpage s) qs"
    "qs = map (\<lambda>i. p + of_nat (4096 * i)) [0..<n]" "unat vend < unat p + 4096 * (n + 1)"
    "unat p + 4096 * n \<le> unat vend" "unat vend < 2 ^ 32 - 4096"
  shows "\<exists>t. freerange_loop p vend s = Inr t \<and> free_pages t (rev qs @ ps)"
  using assms
proof (induction n arbitrary: s ps p qs)
  case 0
  then have "\<not> p + PGSIZE \<le> vend" by (simp add: word_le_nat_alt unat_word_ariths)
  then show ?case using 0 by (subst freerange_loop.simps) simp
next
  case (Suc n)
  define rs where "rs = map (\<lambda>i. (p + PGSIZE) + of_nat (4096 * i)) [0..<n]"
  have qs: "qs = p # rs"
    unfolding Suc.prems(4) rs_def by (simp add: upt_conv_Cons map_Suc_upt [symmetric] del: upt_Suc)
  have up: "unat (p + PGSIZE) = unat p + 4096" using Suc.prems(6,7) by (simp add: unat_word_ariths)
  then have le: "p + PGSIZE \<le> vend" using Suc.prems(6) by (simp add: word_le_nat_alt)
  obtain t where t: "kfree p s = Inr t" "free_pages t (p # ps)" "kpage t = kpage s"
    using kmem.free_page [OF Suc.prems(1), of p] Suc.prems(2,3) qs by auto
  have "\<exists>u. freerange_loop (p + PGSIZE) vend t = Inr u \<and> free_pages u (rev rs @ p # ps)"
    using Suc.prems(2,3,5-7) up qs t(3) by (intro Suc.IH [OF t(2) _ _ rs_def]) auto
  then show ?case using t(1) le qs by (subst freerange_loop.simps) simp
qed

text \<open>Below the range nothing changes.\<close>

lemma freerange_loop_frame:
  assumes "freerange_loop p vend s = Inr t"
  shows "kmem.more t = kmem.more s \<and> kend t = kend s \<and> (\<forall>a. unat a < unat p \<longrightarrow> ram t a = ram s a)"
  using assms
proof (induction p vend s rule: freerange_loop.induct)
  case (1 p vend s)
  show ?case
  proof (cases "p + PGSIZE \<le> vend")
    case True
    obtain u where u: "kfree p s = Inr u" "freerange_loop (p + PGSIZE) vend u = Inr t"
      using 1(2) True by (subst (asm) freerange_loop.simps) (auto split: sum.splits)
    note p = kfree_Inr_page [OF u(1)] and up = kfree_no_wrap [OF kfree_Inr_page(3) [OF u(1)]]
    have "ram u a = ram s a" if "unat a < unat p" for a
    proof -
      have "unat p mod 4096 = 0" using p(1) aligned_unat [of p] by simp
      then have "unat a div 4096 \<noteq> unat p div 4096" using that by (auto simp: mod_eq_0_iff_dvd)
      then have "\<not> in_page p a" using in_page_div [OF p(1)] by simp
      then show ?thesis using u(1) p by (simp add: kfree_def Let_def split: if_splits) (auto simp: store32_outside memset_page)
    qed
    moreover have "kmem.more u = kmem.more s" "kend u = kend s" using u(1) by (auto simp: kfree_def Let_def split: if_splits)
    ultimately show ?thesis using 1(1) [OF True u] up by auto
  next
    case False
    then show ?thesis using 1(2) by (subst (asm) freerange_loop.simps) simp
  qed
qed

text \<open>The pages of the half-open range between two page boundaries.\<close>

definition range_pages :: "u32 \<Rightarrow> nat \<Rightarrow> u32 list" where
  "range_pages p n = map (\<lambda>i. p + of_nat (4096 * i)) [0..<n]"

lemma range_pages_distinct: "n \<le> 2 ^ 20 \<Longrightarrow> distinct (range_pages p n)"
  unfolding range_pages_def distinct_map
proof (intro conjI inj_onI)
  fix x y
  assume n: "n \<le> 2 ^ 20" "x \<in> set [0..<n]" "y \<in> set [0..<n]"
    and eq: "p + of_nat (4096 * x) = p + of_nat (4096 * y)"
  from eq have "(of_nat (4096 * x) :: u32) = of_nat (4096 * y)" by (simp only: add_left_cancel)
  moreover have "4096 * x < 2 ^ 32" "4096 * y < 2 ^ 32" using n by auto
  ultimately have "4096 * x = 4096 * y" using unat_of_nat [of "4096 * x", where 'a = 32]
      unat_of_nat [of "4096 * y", where 'a = 32] by simp
  then show "x = y" by simp
qed simp

text \<open>
  at boot \<open>kinit1\<close> frees every whole page between the rounded-up start and the end of its range,
  each once, and leaves no others on the free list, as long as the range lies in the memory that
  the kernel manages.
\<close>

lemma kinit1_frees_range:
  assumes "free_pages s []" "list_all (kpage s) (range_pages (PGROUNDUP vstart) n)"
    "unat (PGROUNDUP vstart) + 4096 * n \<le> unat vend" "unat vend < unat (PGROUNDUP vstart) + 4096 * (n + 1)"
    "unat vend < 2 ^ 32 - 4096"
  shows "\<exists>t. kinit1 vstart vend s = Inr t \<and> free_pages t (rev (range_pages (PGROUNDUP vstart) n))"
proof -
  have "4096 * n < 2 ^ 32" using assms(3,5) by linarith
  then have "distinct (range_pages (PGROUNDUP vstart) n)" by (intro range_pages_distinct) simp
  moreover have "free_pages (s\<lparr>use_lock := False\<rparr>) []" "kpage (s\<lparr>use_lock := False\<rparr>) = kpage s"
    using assms(1) kpage_cong [of "s\<lparr>use_lock := False\<rparr>" s] by (simp_all add: free_pages_def)
  ultimately show ?thesis
    using freerange_loop_pages [of "s\<lparr>use_lock := False\<rparr>" "[]" "range_pages (PGROUNDUP vstart) n" _ n vend] assms
    unfolding kinit1_def freerange_def by (simp add: range_pages_def)
qed

definition kmem0 :: kmem where
  "kmem0 = \<lparr>ram = (\<lambda>_. 0), freelist = 0, use_lock = False, kend = 0x80100000\<rparr>"

lemma kmem0_empty: "free_pages kmem0 []"
  by (simp add: free_pages_def kmem0_def)

lemma kinit1_frees_range_witness:
  "\<exists>t. kinit1 0x80100001 0x80103800 kmem0 = Inr t \<and> free_pages t [0x80102000, 0x80101000]"
proof -
  have up: "PGROUNDUP 0x80100001 = 0x80101000" by (simp add: PGROUNDUP_def)
  have pages: "range_pages 0x80101000 2 = [0x80101000, 0x80102000]" by (simp add: range_pages_def upt_rec)
  show ?thesis
    using kinit1_frees_range [where s = kmem0 and vstart = "0x80100001" and n = 2 and vend = "0x80103800"] kmem0_empty
    by (simp add: up pages kpage_def kmem0_def V2P_def)
qed

lemma kfree_then_kalloc_witness:
  "free_pages kmem0 [] \<and> kpage kmem0 0x80200000 \<and>
   (\<exists>t. kfree 0x80200000 kmem0 = Inr t \<and> kalloc t = (0x80200000, kmem0\<lparr>ram := ram t\<rparr>))"
proof -
  have k: "kpage kmem0 0x80200000" by (simp add: kpage_def kmem0_def V2P_def)
  show ?thesis using kfree_then_kalloc [OF kmem0_empty k] kmem0_empty k by auto
qed

theorem kalloc_pages_witness:
  "\<exists>t :: kmem. free_pages t [0x80200000] \<and> fst (allocs kalloc 2 t) = [0x80200000, 0]"
proof -
  have "kpage kmem0 0x80200000" by (simp add: kpage_def kmem0_def V2P_def)
  then obtain t :: kmem where t: "free_pages t [0x80200000]"
    using kmem.free_page [OF kmem0_empty, of "0x80200000"] by auto
  show ?thesis using kalloc_pages [OF t, of 2] t by (intro exI [of _ t]) (simp add: numeral_2_eq_2)
qed

end
