(* ===== verification/Xv6_Vm.thy ===== *)
theory Xv6_Vm
  imports Xv6_Kalloc
begin

text \<open>
  Page tables (\<open>vm.c\<close>): the two-level x86 page tables in the pages of the allocator, walked, extended,
  copied and freed. \<open>loaduvm\<close>, which reads from an inode, is with the program loader. An access
  through a null pointer is the error \<open>Fault\<close>.
\<close>

section \<open>Page tables\<close>

abbreviation PTE_P :: u32 where "PTE_P \<equiv> 1"
abbreviation PTE_W :: u32 where "PTE_W \<equiv> 2"
abbreviation PTE_U :: u32 where "PTE_U \<equiv> 4"

definition PDX :: "u32 \<Rightarrow> u32" where "PDX va = drop_bit 22 va AND 0x3FF"
definition PTX :: "u32 \<Rightarrow> u32" where "PTX va = drop_bit 12 va AND 0x3FF"
definition PGADDR :: "u32 \<Rightarrow> u32 \<Rightarrow> u32 \<Rightarrow> u32" where "PGADDR d t x = push_bit 22 d OR push_bit 12 t OR x"
definition PTE_ADDR :: "u32 \<Rightarrow> u32" where "PTE_ADDR pte = pte AND NOT 0xFFF"
definition PTE_FLAGS :: "u32 \<Rightarrow> u32" where "PTE_FLAGS pte = pte AND 0xFFF"

text \<open>
  The state of the memory system: the allocator's, the kernel's page table, the page table register,
  the kernel stack pointer of the task state segment, and the linker symbol \<open>data\<close>.
\<close>

record vm = kmem +
  kpgdir :: u32
  cr3 :: u32
  tss_esp0 :: u32
  kdata :: u32

definition walkpgdir :: "u32 \<Rightarrow> u32 \<Rightarrow> bool \<Rightarrow> 'a kmem_scheme \<Rightarrow> u32 \<times> 'a kmem_scheme" where
  "walkpgdir pgdir va alloc s =
     (let pde = pgdir + 4 * PDX va; e = load32 (ram s) pde
      in if e AND PTE_P \<noteq> 0 then (P2V (PTE_ADDR e) + 4 * PTX va, s)
         else if \<not> alloc then (0, s)
         else let (pgtab, s) = kalloc s
              in if pgtab = 0 then (0, s)
                 else let m = memset (ram s) pgtab 0 PGSIZE
                      in (pgtab + 4 * PTX va,
                          s\<lparr>ram := store32 m pde (V2P pgtab OR PTE_P OR PTE_W OR PTE_U)\<rparr>))"

text \<open>
  The loop of \<open>mappages\<close>: the page \<open>a\<close> is \<open>last\<close> when \<open>n\<close>, the number of pages from \<open>a\<close> to \<open>last\<close>, is 0.
\<close>

fun mappages_loop :: "nat \<Rightarrow> u32 \<Rightarrow> u32 \<Rightarrow> u32 \<Rightarrow> u32 \<Rightarrow> 'a kmem_scheme \<Rightarrow> (int \<times> 'a kmem_scheme) res" where
  "mappages_loop n pgdir a pa perm s =
     (let (pte, s) = walkpgdir pgdir a True s
      in if pte = 0 then Inr (- 1, s)
         else if load32 (ram s) pte AND PTE_P \<noteq> 0 then Inl (Panic ''remap'')
         else let s = s\<lparr>ram := store32 (ram s) pte (pa OR perm OR PTE_P)\<rparr>
              in case n of 0 \<Rightarrow> Inr (0, s)
                 | Suc n \<Rightarrow> mappages_loop n pgdir (a + PGSIZE) (pa + PGSIZE) perm s)"

declare mappages_loop.simps [simp del]

definition mappages :: "u32 \<Rightarrow> u32 \<Rightarrow> u32 \<Rightarrow> u32 \<Rightarrow> u32 \<Rightarrow> 'a kmem_scheme \<Rightarrow> (int \<times> 'a kmem_scheme) res" where
  "mappages pgdir va sz pa perm s =
     (let a = PGROUNDDOWN va; last = PGROUNDDOWN (va + sz - 1)
      in mappages_loop (unat ((last - a) div PGSIZE)) pgdir a pa perm s)"

text \<open>
  The loops over pages below \<open>oldsz\<close>, \<open>newsz\<close> or \<open>sz\<close> take the number of pages of the address space as
  fuel; it is enough when the bound leaves the last page of the address space out, so that
  \<open>a += PGSIZE\<close> does not come round.
\<close>

definition npages :: nat where "npages = 2 ^ 20"

fun deallocuvm_loop :: "nat \<Rightarrow> u32 \<Rightarrow> u32 \<Rightarrow> u32 \<Rightarrow> 'a kmem_scheme \<Rightarrow> 'a kmem_scheme res" where
  "deallocuvm_loop 0 pgdir a oldsz s = (if a < oldsz then Inl Fault else Inr s)"
| "deallocuvm_loop (Suc n) pgdir a oldsz s =
     (if a < oldsz
      then let pte = fst (walkpgdir pgdir a False s)
           in if pte = 0 then deallocuvm_loop n pgdir (PGADDR (PDX a + 1) 0 0 - PGSIZE + PGSIZE) oldsz s
              else if load32 (ram s) pte AND PTE_P \<noteq> 0
              then let pa = PTE_ADDR (load32 (ram s) pte)
                   in if pa = 0 then Inl (Panic ''kfree'')
                      else bindR (kfree (P2V pa) s) (\<lambda>s.
                             deallocuvm_loop n pgdir (a + PGSIZE) oldsz (s\<lparr>ram := store32 (ram s) pte 0\<rparr>))
              else deallocuvm_loop n pgdir (a + PGSIZE) oldsz s
      else Inr s)"

definition deallocuvm :: "u32 \<Rightarrow> u32 \<Rightarrow> u32 \<Rightarrow> 'a kmem_scheme \<Rightarrow> (u32 \<times> 'a kmem_scheme) res" where
  "deallocuvm pgdir oldsz newsz s =
     (if newsz \<ge> oldsz then Inr (oldsz, s)
      else bindR (deallocuvm_loop npages pgdir (PGROUNDUP newsz) oldsz s) (\<lambda>s. Inr (newsz, s)))"

fun allocuvm_loop :: "nat \<Rightarrow> u32 \<Rightarrow> u32 \<Rightarrow> u32 \<Rightarrow> u32 \<Rightarrow> 'a kmem_scheme \<Rightarrow> (u32 \<times> 'a kmem_scheme) res" where
  "allocuvm_loop 0 pgdir a oldsz newsz s = (if a < newsz then Inl Fault else Inr (newsz, s))"
| "allocuvm_loop (Suc n) pgdir a oldsz newsz s =
     (if a < newsz
      then let (pg, s) = kalloc s
           in if pg = 0 then bindR (deallocuvm pgdir newsz oldsz s) (\<lambda>(_, s). Inr (0, s))
              else bindR (mappages pgdir a PGSIZE (V2P pg) (PTE_W OR PTE_U)
                            (s\<lparr>ram := memset (ram s) pg 0 PGSIZE\<rparr>)) (\<lambda>(r, s).
                     if r < 0
                     then bindR (deallocuvm pgdir newsz oldsz s) (\<lambda>(_, s).
                            bindR (kfree pg s) (\<lambda>s. Inr (0, s)))
                     else allocuvm_loop n pgdir (a + PGSIZE) oldsz newsz s)
      else Inr (newsz, s))"

definition allocuvm :: "u32 \<Rightarrow> u32 \<Rightarrow> u32 \<Rightarrow> 'a kmem_scheme \<Rightarrow> (u32 \<times> 'a kmem_scheme) res" where
  "allocuvm pgdir oldsz newsz s =
     (if newsz \<ge> KERNBASE then Inr (0, s)
      else if newsz < oldsz then Inr (oldsz, s)
      else allocuvm_loop npages pgdir (PGROUNDUP oldsz) oldsz newsz s)"

text \<open>The loop of \<open>freevm\<close> over the entries of the page directory.\<close>

fun free_pgtabs :: "nat list \<Rightarrow> u32 \<Rightarrow> 'a kmem_scheme \<Rightarrow> 'a kmem_scheme res" where
  "free_pgtabs [] pgdir s = Inr s"
| "free_pgtabs (i # is) pgdir s =
     (let e = load32 (ram s) (pgdir + of_nat (4 * i))
      in bindR (if e AND PTE_P \<noteq> 0 then kfree (P2V (PTE_ADDR e)) s else Inr s) (free_pgtabs is pgdir))"

definition freevm :: "u32 \<Rightarrow> 'a kmem_scheme \<Rightarrow> 'a kmem_scheme res" where
  "freevm pgdir s =
     (if pgdir = 0 then Inl (Panic ''freevm: no pgdir'')
      else bindR (deallocuvm pgdir KERNBASE 0 s) (\<lambda>(_, s).
           bindR (free_pgtabs [0..<1024] pgdir s) (kfree pgdir)))"

text \<open>The table \<open>kmap\<close>: virtual address, first and last physical address, permissions.\<close>

definition kmap :: "'a vm_scheme \<Rightarrow> (u32 \<times> u32 \<times> u32 \<times> u32) list" where
  "kmap s =
     [(KERNBASE, 0, EXTMEM, PTE_W),
      (KERNBASE + EXTMEM, V2P (KERNBASE + EXTMEM), V2P (kdata s), 0),
      (kdata s, V2P (kdata s), PHYSTOP, PTE_W),
      (DEVSPACE, DEVSPACE, 0, PTE_W)]"

fun setupkvm_loop :: "(u32 \<times> u32 \<times> u32 \<times> u32) list \<Rightarrow> u32 \<Rightarrow> 'a vm_scheme \<Rightarrow> (u32 \<times> 'a vm_scheme) res" where
  "setupkvm_loop [] pgdir s = Inr (pgdir, s)"
| "setupkvm_loop ((virt, phys_start, phys_end, perm) # ks) pgdir s =
     bindR (mappages pgdir virt (phys_end - phys_start) phys_start perm s) (\<lambda>(r, s).
       if r < 0 then bindR (freevm pgdir s) (\<lambda>s. Inr (0, s)) else setupkvm_loop ks pgdir s)"

definition setupkvm :: "'a vm_scheme \<Rightarrow> (u32 \<times> 'a vm_scheme) res" where
  "setupkvm s =
     (let (pgdir, s) = kalloc s
      in if pgdir = 0 then Inr (0, s)
         else let s = s\<lparr>ram := memset (ram s) pgdir 0 PGSIZE\<rparr>
              in if P2V PHYSTOP > DEVSPACE then Inl (Panic ''PHYSTOP too high'')
                 else setupkvm_loop (kmap s) pgdir s)"

definition switchkvm :: "'a vm_scheme \<Rightarrow> 'a vm_scheme" where
  "switchkvm s = s\<lparr>cr3 := V2P (kpgdir s)\<rparr>"

definition kvmalloc :: "'a vm_scheme \<Rightarrow> 'a vm_scheme res" where
  "kvmalloc s = bindR (setupkvm s) (\<lambda>(pgdir, s). Inr (switchkvm (s\<lparr>kpgdir := pgdir\<rparr>)))"

text \<open>\<open>switchuvm\<close>, given the process's \<open>kstack\<close> and \<open>pgdir\<close> (the process is not null).\<close>

definition switchuvm :: "u32 \<Rightarrow> u32 \<Rightarrow> 'a vm_scheme \<Rightarrow> 'a vm_scheme res" where
  "switchuvm kstack pgdir s =
     (if kstack = 0 then Inl (Panic ''switchuvm: no kstack'')
      else if pgdir = 0 then Inl (Panic ''switchuvm: no pgdir'')
      else Inr (s\<lparr>tss_esp0 := kstack + 4096, cr3 := V2P pgdir\<rparr>))"

definition inituvm :: "u32 \<Rightarrow> u32 \<Rightarrow> u32 \<Rightarrow> 'a kmem_scheme \<Rightarrow> 'a kmem_scheme res" where
  "inituvm pgdir init sz s =
     (if sz \<ge> PGSIZE then Inl (Panic ''inituvm: more than a page'')
      else let (pg, s) = kalloc s
           in if pg = 0 then Inl Fault
              else bindR (mappages pgdir 0 PGSIZE (V2P pg) (PTE_W OR PTE_U)
                            (s\<lparr>ram := memset (ram s) pg 0 PGSIZE\<rparr>)) (\<lambda>(_, s).
                     Inr (s\<lparr>ram := memmove (ram s) pg init sz\<rparr>)))"

definition clearpteu :: "u32 \<Rightarrow> u32 \<Rightarrow> 'a kmem_scheme \<Rightarrow> 'a kmem_scheme res" where
  "clearpteu pgdir uva s =
     (let pte = fst (walkpgdir pgdir uva False s)
      in if pte = 0 then Inl (Panic ''clearpteu'')
         else Inr (s\<lparr>ram := store32 (ram s) pte (load32 (ram s) pte AND NOT PTE_U)\<rparr>))"

fun copyuvm_loop :: "nat \<Rightarrow> u32 \<Rightarrow> u32 \<Rightarrow> u32 \<Rightarrow> u32 \<Rightarrow> 'a kmem_scheme \<Rightarrow> (u32 \<times> 'a kmem_scheme) res" where
  "copyuvm_loop 0 pgdir d i sz s = (if i < sz then Inl Fault else Inr (d, s))"
| "copyuvm_loop (Suc n) pgdir d i sz s =
     (if i < sz
      then let pte = fst (walkpgdir pgdir i False s)
           in if pte = 0 then Inl (Panic ''copyuvm: pte should exist'')
              else if load32 (ram s) pte AND PTE_P = 0 then Inl (Panic ''copyuvm: page not present'')
              else let pa = PTE_ADDR (load32 (ram s) pte); flags = PTE_FLAGS (load32 (ram s) pte);
                       (pg, s) = kalloc s
                   in if pg = 0 then bindR (freevm d s) (\<lambda>s. Inr (0, s))
                      else bindR (mappages d i PGSIZE (V2P pg) flags
                                    (s\<lparr>ram := memmove (ram s) pg (P2V pa) PGSIZE\<rparr>)) (\<lambda>(r, s).
                             if r < 0 then bindR (kfree pg s) (\<lambda>s. bindR (freevm d s) (\<lambda>s. Inr (0, s)))
                             else copyuvm_loop n pgdir d (i + PGSIZE) sz s)
      else Inr (d, s))"

definition copyuvm :: "u32 \<Rightarrow> u32 \<Rightarrow> 'a vm_scheme \<Rightarrow> (u32 \<times> 'a vm_scheme) res" where
  "copyuvm pgdir sz s =
     bindR (setupkvm s) (\<lambda>(d, s). if d = 0 then Inr (0, s) else copyuvm_loop npages pgdir d 0 sz s)"

definition uva2ka :: "u32 \<Rightarrow> u32 \<Rightarrow> 'a kmem_scheme \<Rightarrow> u32 res" where
  "uva2ka pgdir uva s =
     (let pte = fst (walkpgdir pgdir uva False s)
      in if pte = 0 then Inl Fault
         else if load32 (ram s) pte AND PTE_P = 0 then Inr 0
         else if load32 (ram s) pte AND PTE_U = 0 then Inr 0
         else Inr (P2V (PTE_ADDR (load32 (ram s) pte))))"

text \<open>The loop of \<open>copyout\<close> ends because \<open>len\<close> shrinks by at least one byte each time round.\<close>

definition copyout_n :: "u32 \<Rightarrow> u32 \<Rightarrow> u32" where
  "copyout_n va len = (let n = PGSIZE - (va - PGROUNDDOWN va) in if n > len then len else n)"

function copyout :: "u32 \<Rightarrow> u32 \<Rightarrow> u32 \<Rightarrow> u32 \<Rightarrow> 'a kmem_scheme \<Rightarrow> (int \<times> 'a kmem_scheme) res" where
  "copyout pgdir va p len s =
     (if len > 0
      then let va0 = PGROUNDDOWN va
           in bindR (uva2ka pgdir va0 s) (\<lambda>pa0.
                if pa0 = 0 then Inr (- 1, s)
                else let n = copyout_n va len
                     in copyout pgdir (va0 + PGSIZE) (p + n) (len - n)
                          (s\<lparr>ram := memmove (ram s) (pa0 + (va - va0)) p n\<rparr>))
      else Inr (0, s))"
  by pat_completeness auto

lemma page_offset: "va - PGROUNDDOWN va = va mod PGSIZE"
proof -
  have "(va AND NOT 0xFFF) + (va AND 0xFFF) = va"
    by (subst disjunctive_add) (auto simp: bit_simps intro!: bit_word_eqI)
  moreover have "va AND 0xFFF = va mod PGSIZE"
    using take_bit_eq_mask [of 12 va] by (simp add: mask_eq_exp_minus_1 take_bit_eq_mod)
  moreover have "PGROUNDDOWN va = va AND NOT 0xFFF" by (simp add: PGROUNDDOWN_def)
  ultimately show ?thesis by (simp add: diff_eq_eq add.commute)
qed

lemma copyout_n_pos: "0 < len \<Longrightarrow> 0 < copyout_n va len \<and> copyout_n va len \<le> len"
proof -
  assume len: "0 < len"
  have "unat (va mod PGSIZE) < 4096" using unat_mod_distrib [of va PGSIZE] by simp
  then have "0 < PGSIZE - va mod PGSIZE" by (simp add: word_less_nat_alt unat_sub_if')
  then show ?thesis using len by (auto simp: copyout_n_def page_offset Let_def)
qed

termination copyout
proof (relation "measure (\<lambda>(_, _, _, len, _). unat len)")
  fix va len va0 n :: u32
  assume "0 < len" "n = copyout_n va len"
  then have "unat (len - n) < unat len"
    using copyout_n_pos [of len va] by (simp add: unat_sub word_le_nat_alt word_less_nat_alt)
  then show "((pgdir, va0 + PGSIZE, p + n, len - n, t), pgdir, va, p, len, s)
      \<in> measure (\<lambda>(_, _, _, len, _). unat len)" for pgdir p and s t :: "'a kmem_scheme"
    by simp
qed simp

declare copyout.simps [simp del]

section \<open>Frames\<close>

text \<open>Operations on memory change the byte memory and the free list only.\<close>

named_theorems frames

lemma more_fields:
  assumes "kmem.more t = kmem.more s"
  shows "kpgdir t = kpgdir s" "cr3 t = cr3 s" "tss_esp0 t = tss_esp0 s" "kdata t = kdata s"
  using assms by (cases s, cases t, simp)+

lemma kalloc_more [frames]: "kalloc s = (p, t) \<Longrightarrow> kmem.more t = kmem.more s"
  by (auto simp: kalloc_def Let_def)

lemma kfree_more [frames]: "kfree v s = Inr t \<Longrightarrow> kmem.more t = kmem.more s"
  by (auto simp: kfree_def Let_def split: if_splits)

lemma walkpgdir_more [frames]: "walkpgdir pgdir va alloc s = (p, t) \<Longrightarrow> kmem.more t = kmem.more s"
  by (auto simp: walkpgdir_def Let_def split: if_splits prod.splits dest: kalloc_more)

lemma mappages_loop_more: "mappages_loop n pgdir a pa perm s = Inr (r, t) \<Longrightarrow> kmem.more t = kmem.more s"
proof (induction n arbitrary: a pa s)
  case 0
  then show ?case
    by (subst (asm) mappages_loop.simps) (auto simp: Let_def split: if_splits prod.splits dest: walkpgdir_more)
next
  case (Suc n)
  from Suc.prems show ?case
    by (subst (asm) mappages_loop.simps)
      (auto simp: Let_def split: if_splits prod.splits dest!: walkpgdir_more Suc.IH)
qed

lemma mappages_more [frames]: "mappages pgdir va sz pa perm s = Inr (r, t) \<Longrightarrow> kmem.more t = kmem.more s"
  unfolding mappages_def Let_def by (rule mappages_loop_more)

lemma deallocuvm_loop_more: "deallocuvm_loop n pgdir a oldsz s = Inr t \<Longrightarrow> kmem.more t = kmem.more s"
proof (induction n arbitrary: a s)
  case (Suc n)
  from Suc.prems show ?case
    by (auto simp: Let_def res_simps split: if_splits dest!: Suc.IH kfree_more)
qed (simp split: if_splits)

lemma deallocuvm_more [frames]: "deallocuvm pgdir o' n s = Inr (r, t) \<Longrightarrow> kmem.more t = kmem.more s"
  by (auto simp: deallocuvm_def res_simps split: if_splits dest: deallocuvm_loop_more)

lemma free_pgtabs_more: "free_pgtabs is pgdir s = Inr t \<Longrightarrow> kmem.more t = kmem.more s"
  by (induction "is" arbitrary: s) (auto simp: Let_def res_simps split: if_splits dest!: kfree_more)

lemma freevm_more [frames]: "freevm pgdir s = Inr t \<Longrightarrow> kmem.more t = kmem.more s"
  by (auto simp: freevm_def res_simps split: if_splits dest!: kfree_more free_pgtabs_more deallocuvm_more)

lemma setupkvm_loop_more: "setupkvm_loop ks pgdir s = Inr (r, t) \<Longrightarrow> kmem.more t = kmem.more s"
proof (induction ks arbitrary: s)
  case (Cons k ks)
  from Cons.prems show ?case
    by (cases k) (auto simp: res_simps split: if_splits dest!: mappages_more freevm_more Cons.IH)
qed simp

lemma setupkvm_more [frames]: "setupkvm s = Inr (r, t) \<Longrightarrow> kmem.more t = kmem.more s"
  by (auto simp: setupkvm_def Let_def split: if_splits prod.splits dest!: kalloc_more setupkvm_loop_more)

lemma copyuvm_loop_more: "copyuvm_loop n pgdir d i sz s = Inr (r, t) \<Longrightarrow> kmem.more t = kmem.more s"
proof (induction n arbitrary: i s)
  case (Suc n)
  from Suc.prems show ?case
    by (auto simp: Let_def res_simps split: if_splits prod.splits dest!: kalloc_more kfree_more freevm_more mappages_more Suc.IH)
qed (simp split: if_splits)

lemma copyuvm_more [frames]: "copyuvm pgdir sz s = Inr (r, t) \<Longrightarrow> kmem.more t = kmem.more s"
  by (auto simp: copyuvm_def res_simps split: if_splits dest!: setupkvm_more copyuvm_loop_more)

lemma allocuvm_loop_more: "allocuvm_loop n pgdir a oldsz newsz s = Inr (r, t) \<Longrightarrow> kmem.more t = kmem.more s"
proof (induction n arbitrary: a s)
  case (Suc n)
  from Suc.prems show ?case
    by (auto simp: Let_def res_simps split: if_splits prod.splits dest!: kalloc_more kfree_more deallocuvm_more mappages_more Suc.IH)
qed (simp split: if_splits)

lemma allocuvm_more [frames]: "allocuvm pgdir o' n s = Inr (r, t) \<Longrightarrow> kmem.more t = kmem.more s"
  by (auto simp: allocuvm_def split: if_splits dest: allocuvm_loop_more)

section \<open>Words in pages\<close>

definition entry :: "u32 \<Rightarrow> u32 \<Rightarrow> u32" where
  "entry p i = p + 4 * i"

lemma page_room: "p mod PGSIZE = 0 \<Longrightarrow> unat (p :: u32) + 4096 \<le> 2 ^ 32"
proof -
  assume "p mod PGSIZE = 0"
  then have "unat p mod 4096 = 0" using aligned_unat [of p] by simp
  then obtain k where "unat p = 4096 * k" by (auto simp: mod_eq_0_iff_dvd)
  moreover have "unat p < 2 ^ 32" using unsigned_less [of p] by simp
  ultimately show ?thesis by simp
qed

lemma unat_entry:
  assumes "p mod PGSIZE = 0" "i < 1024" "k < 4"
  shows "unat (entry p i + of_nat k) = unat p + 4 * unat i + k"
proof -
  have i: "unat i < 1024" using assms(2) by (simp add: word_less_nat_alt)
  then have "unat (4 * i) = 4 * unat i" by (simp add: unat_word_ariths)
  then have "unat (entry p i) = unat p + 4 * unat i"
    using page_room [OF assms(1)] i by (simp add: entry_def unat_word_ariths)
  then show ?thesis using page_room [OF assms(1)] i assms(3) by (simp add: unat_word_ariths unat_of_nat)
qed

lemma entry_in_page:
  assumes "p mod PGSIZE = 0" "i < 1024" "k < 4"
  shows "in_page p (entry p i + of_nat k)"
proof -
  have i: "unat i < 1024" using assms(2) by (simp add: word_less_nat_alt)
  have p: "unat p mod 4096 = 0" using aligned_unat [of p] assms(1) by simp
  have "(unat p + (4 * unat i + k)) div 4096 = unat p div 4096"
    using p i assms(3) by (auto simp: mod_eq_0_iff_dvd)
  then show ?thesis unfolding in_page_div [OF assms(1)] unat_entry [OF assms] by (simp add: add.assoc)
qed

lemma load32_bytes: "(\<And>k. k < 4 \<Longrightarrow> m (a + of_nat k) = m' (a + of_nat k)) \<Longrightarrow> load32 m a = load32 m' a"
proof -
  assume "\<And>k. k < 4 \<Longrightarrow> m (a + of_nat k) = m' (a + of_nat k)"
  from this [of 0] this [of 1] this [of 2] this [of 3] show ?thesis by (simp add: load32_def)
qed

lemma store32_bytes: "(\<And>k. k < 4 \<Longrightarrow> b + of_nat k \<noteq> a) \<Longrightarrow> store32 m b v a = m a"
proof -
  assume "\<And>k. k < 4 \<Longrightarrow> b + of_nat k \<noteq> a"
  from this [of 0] this [of 1] this [of 2] this [of 3] show ?thesis by (simp add: store32_def)
qed

lemma load_store_entry:
  assumes "p mod PGSIZE = 0" "i < 1024" "q mod PGSIZE = 0" "j < 1024" "(p, i) \<noteq> (q, j)"
  shows "load32 (store32 m (entry q j) v) (entry p i) = load32 m (entry p i)"
proof (rule load32_bytes)
  fix k :: nat
  assume k: "k < 4"
  show "store32 m (entry q j) v (entry p i + of_nat k) = m (entry p i + of_nat k)"
  proof (rule store32_bytes, rule notI)
    fix l :: nat
    assume l: "l < 4" and eq: "entry q j + of_nat l = entry p i + of_nat k"
    then have "p = q"
      using page_unique [OF assms(1,3)] entry_in_page [OF assms(1,2) k] entry_in_page [OF assms(3,4) l] by metis
    moreover have "unat p + 4 * unat i + k = unat q + 4 * unat j + l"
      using unat_entry [OF assms(1,2) k] unat_entry [OF assms(3,4) l] eq by simp
    ultimately have "unat i = unat j" using k l by presburger
    then show False using assms(5) \<open>p = q\<close> by (simp add: word_unat_eq_iff)
  qed
qed

lemma load_outside_page:
  assumes "p mod PGSIZE = 0" "i < 1024" "q mod PGSIZE = 0" "p \<noteq> q" "\<And>a. \<not> in_page q a \<Longrightarrow> m' a = m a"
  shows "load32 m' (entry p i) = load32 m (entry p i)"
  using assms(5) entry_in_page [OF assms(1,2)] page_unique [OF assms(1,3)] assms(4)
  by (intro load32_bytes) metis

lemma load_zeroed_page:
  assumes "p mod PGSIZE = 0" "i < 1024" "\<And>a. in_page p a \<Longrightarrow> m a = 0"
  shows "load32 m (entry p i) = 0"
proof -
  have "load32 m (entry p i) = load32 (\<lambda>_. 0) (entry p i)"
    using assms(3) entry_in_page [OF assms(1,2)] by (intro load32_bytes) simp
  then show ?thesis by (simp add: load32_def)
qed

section \<open>Well-formed page tables\<close>

definition present :: "u32 \<Rightarrow> bool" where
  "present e \<longleftrightarrow> e AND PTE_P \<noteq> 0"

definition pgtab_of :: "u32 \<Rightarrow> u32" where
  "pgtab_of e = P2V (PTE_ADDR e)"

definition pde_at :: "mem \<Rightarrow> u32 \<Rightarrow> u32 \<Rightarrow> u32" where
  "pde_at m pgdir d = load32 m (entry pgdir d)"

text \<open>The page table entry for a virtual address; 0, so not present, when there is no page table.\<close>

definition pte_at :: "mem \<Rightarrow> u32 \<Rightarrow> u32 \<Rightarrow> u32" where
  "pte_at m pgdir va =
     (let e = pde_at m pgdir (PDX va) in if present e then load32 m (entry (pgtab_of e) (PTX va)) else 0)"

text \<open>
  The page directory and its page tables are distinct pages of the allocator, none of them free.
\<close>

definition pt_ok :: "'a kmem_scheme \<Rightarrow> u32 \<Rightarrow> u32 list \<Rightarrow> bool" where
  "pt_ok s pgdir ps \<longleftrightarrow>
     pgdir mod PGSIZE = 0 \<and> free_pages s ps \<and> pgdir \<notin> set ps \<and>
     (\<forall>d < 1024. present (pde_at (ram s) pgdir d) \<longrightarrow>
        kpage s (pgtab_of (pde_at (ram s) pgdir d)) \<and> pgtab_of (pde_at (ram s) pgdir d) \<noteq> pgdir \<and>
        pgtab_of (pde_at (ram s) pgdir d) \<notin> set ps \<and>
        (\<forall>d' < 1024. present (pde_at (ram s) pgdir d') \<longrightarrow>
           pgtab_of (pde_at (ram s) pgdir d') = pgtab_of (pde_at (ram s) pgdir d) \<longrightarrow> d' = d))"

lemma and_masks: "(x :: u32) AND 0x3FF = x mod 1024" "x AND 0xFFF = x mod PGSIZE"
  using take_bit_eq_mask [of 10 x] take_bit_eq_mask [of 12 x]
  by (simp_all add: mask_eq_exp_minus_1 take_bit_eq_mod)

lemma mod_less_word: "(x :: u32) mod 1024 < 1024"
  using unat_mod_distrib [of x 1024] by (simp add: word_less_nat_alt)

lemma PDX_less: "PDX va < 1024" and PTX_less: "PTX va < 1024"
  by (simp_all add: PDX_def PTX_def and_masks mod_less_word)

lemma mod_page: "x mod PGSIZE = take_bit 12 (x :: u32)"
  by (simp add: take_bit_eq_mod)

lemma aligned_shift:
  "x mod PGSIZE = 0 \<Longrightarrow> (x + KERNBASE) mod PGSIZE = 0" "x mod PGSIZE = 0 \<Longrightarrow> (x - KERNBASE) mod PGSIZE = 0"
proof -
  show plus: "x mod PGSIZE = 0 \<Longrightarrow> (x + KERNBASE) mod PGSIZE = 0"
  proof -
    assume "x mod PGSIZE = 0"
    then have "4096 dvd unat x" using aligned_unat [of x] by auto
    then have "4096 dvd (unat x + 2147483648) mod 4294967296" by (simp add: dvd_mod)
    then show ?thesis unfolding aligned_unat by (simp add: unat_word_ariths)
  qed
  have "x - KERNBASE = x + KERNBASE" using diff_conv_add_uminus [of x KERNBASE] by simp
  then show "x mod PGSIZE = 0 \<Longrightarrow> (x - KERNBASE) mod PGSIZE = 0" using plus by metis
qed

lemma low_bits: "x mod PGSIZE = 0 \<longleftrightarrow> (\<forall>n < 12. \<not> bit (x :: u32) n)"
  unfolding mod_page by (auto simp: bit_eq_iff bit_simps)

lemma PTE_ADDR_mask: "PTE_ADDR e = e AND NOT (mask 12)"
  by (simp add: PTE_ADDR_def mask_eq_exp_minus_1)

lemma PTE_ADDR_aligned: "PTE_ADDR e mod PGSIZE = 0"
  unfolding low_bits by (auto simp: PTE_ADDR_mask bit_simps)

lemma pgtab_of_aligned: "pgtab_of e mod PGSIZE = 0"
  unfolding pgtab_of_def P2V_def by (rule aligned_shift(1) [OF PTE_ADDR_aligned])

lemma PTE_ADDR_flags:
  assumes "p mod PGSIZE = 0" "\<And>n. bit f n \<Longrightarrow> n < 12"
  shows "PTE_ADDR (p OR f) = p"
  using assms(1) unfolding low_bits PTE_ADDR_mask
  by (intro bit_word_eqI) (auto simp: bit_simps not_less dest!: assms(2))

lemma pgtab_of_new:
  assumes "p mod PGSIZE = 0"
  shows "pgtab_of (V2P p OR PTE_P OR PTE_W OR PTE_U) = p" "present (V2P p OR PTE_P OR PTE_W OR PTE_U)"
proof -
  have "V2P p mod PGSIZE = 0" unfolding V2P_def by (rule aligned_shift(2) [OF assms])
  then have "PTE_ADDR (V2P p OR mask 3) = V2P p" by (rule PTE_ADDR_flags) (simp add: bit_simps)
  moreover have e: "V2P p OR PTE_P OR PTE_W OR PTE_U = V2P p OR mask 3" by (simp add: mask_eq_exp_minus_1)
  ultimately show "pgtab_of (V2P p OR PTE_P OR PTE_W OR PTE_U) = p"
    by (simp only: e pgtab_of_def P2V_def V2P_def) simp
  have "bit ((V2P p OR mask 3) AND 1) 0" by (simp add: bit_simps)
  then show "present (V2P p OR PTE_P OR PTE_W OR PTE_U)"
    unfolding present_def e by (metis bit_0_eq bot_apply bot_bool_def)
qed

lemma walkpgdir_entry:
  "walkpgdir pgdir va alloc s =
     (let e = pde_at (ram s) pgdir (PDX va)
      in if present e then (entry (pgtab_of e) (PTX va), s)
         else if \<not> alloc then (0, s)
         else let (pgtab, s) = kalloc s
              in if pgtab = 0 then (0, s)
                 else (entry pgtab (PTX va),
                       s\<lparr>ram := store32 (memset (ram s) pgtab 0 PGSIZE) (entry pgdir (PDX va))
                          (V2P pgtab OR PTE_P OR PTE_W OR PTE_U)\<rparr>))"
  by (simp add: walkpgdir_def pde_at_def present_def pgtab_of_def entry_def Let_def split: prod.splits)

text \<open>
  A page directory \<open>pgdir\<close> in which entry \<open>i\<close> is set to the newly zeroed page \<open>p\<close>: what the other
  words of the memory are then.
\<close>

definition new_pgtab :: "mem \<Rightarrow> u32 \<Rightarrow> u32 \<Rightarrow> u32 \<Rightarrow> mem" where
  "new_pgtab m pgdir i p =
     store32 (memset m p 0 PGSIZE) (entry pgdir i) (V2P p OR PTE_P OR PTE_W OR PTE_U)"

lemma new_pgtab_outside:
  assumes "pgdir mod PGSIZE = 0" "i < 1024" "\<not> in_page p a" "\<not> in_page pgdir a"
  shows "new_pgtab m pgdir i p a = m a"
  using assms entry_in_page [OF assms(1,2)] unfolding new_pgtab_def
  by (subst store32_bytes) (auto simp: memset_page)

lemma new_pgtab_pde:
  assumes "pgdir mod PGSIZE = 0" "p mod PGSIZE = 0" "p \<noteq> pgdir" "i < 1024" "d < 1024"
  shows "pde_at (new_pgtab m pgdir i p) pgdir d =
    (if d = i then V2P p OR PTE_P OR PTE_W OR PTE_U else pde_at m pgdir d)"
proof -
  have "load32 (memset m p 0 PGSIZE) (entry pgdir d) = load32 m (entry pgdir d)"
    using assms by (intro load_outside_page [of pgdir d p]) (auto simp: memset_page)
  then show ?thesis
    using load_store_entry [OF assms(1,5) assms(1,4)] by (simp add: pde_at_def new_pgtab_def)
qed

lemma new_pgtab_entry:
  assumes "pgdir mod PGSIZE = 0" "p mod PGSIZE = 0" "p \<noteq> pgdir" "i < 1024"
    "q mod PGSIZE = 0" "q \<noteq> pgdir" "j < 1024"
  shows "load32 (new_pgtab m pgdir i p) (entry q j) = (if q = p then 0 else load32 m (entry q j))"
proof -
  have "load32 (new_pgtab m pgdir i p) (entry q j) = load32 (memset m p 0 PGSIZE) (entry q j)"
    using assms unfolding new_pgtab_def by (intro load_store_entry) auto
  moreover have "load32 (memset m p 0 PGSIZE) (entry q j) = load32 m (entry q j)" if "q \<noteq> p"
    using assms that by (intro load_outside_page [of q j p]) (auto simp: memset_page)
  moreover have "load32 (memset m p 0 PGSIZE) (entry p j) = 0"
    using assms by (intro load_zeroed_page) (auto simp: memset_page)
  ultimately show ?thesis by auto
qed

lemma pt_okD:
  assumes "pt_ok s pgdir ps"
  shows "pgdir mod PGSIZE = 0" "free_pages s ps" "pgdir \<notin> set ps"
    "\<And>d. d < 1024 \<Longrightarrow> present (pde_at (ram s) pgdir d) \<Longrightarrow> kpage s (pgtab_of (pde_at (ram s) pgdir d))"
    "\<And>d. d < 1024 \<Longrightarrow> present (pde_at (ram s) pgdir d) \<Longrightarrow> pgtab_of (pde_at (ram s) pgdir d) \<noteq> pgdir"
    "\<And>d. d < 1024 \<Longrightarrow> present (pde_at (ram s) pgdir d) \<Longrightarrow> pgtab_of (pde_at (ram s) pgdir d) \<notin> set ps"
    "\<And>d d'. d < 1024 \<Longrightarrow> present (pde_at (ram s) pgdir d) \<Longrightarrow> d' < 1024 \<Longrightarrow> present (pde_at (ram s) pgdir d') \<Longrightarrow>
       pgtab_of (pde_at (ram s) pgdir d') = pgtab_of (pde_at (ram s) pgdir d) \<Longrightarrow> d' = d"
  using assms unfolding pt_ok_def by blast+

lemma new_pgtab_ok:
  assumes "pt_ok s pgdir (p # ps)" "\<not> present (pde_at (ram s) pgdir i)" "i < 1024" "free_pages u ps"
    "ram u = ram s" "kend u = kend s"
  shows "pt_ok (u\<lparr>ram := new_pgtab (ram s) pgdir i p\<rparr>) pgdir ps"
proof -
  note D = pt_okD [OF assms(1)]
  have p: "p mod PGSIZE = 0" "p \<noteq> pgdir" "p \<notin> set ps" "kpage s p"
    using D(2,3) by (auto simp: free_pages_def kpage_def)
  let ?t = "u\<lparr>ram := new_pgtab (ram s) pgdir i p\<rparr>"
  have "free_pages ?t ps"
  proof (rule free_pages_frame [OF assms(4)])
    fix q a
    assume q: "q \<in> set ps" "in_page q a"
    then have "q mod PGSIZE = 0" "q \<noteq> p" "q \<noteq> pgdir"
      using D(2,3) p(3) by (auto simp: free_pages_def kpage_def list_all_iff)
    then have "\<not> in_page p a" "\<not> in_page pgdir a" using page_unique q(2) p(1) D(1) by metis+
    then show "ram ?t a = ram u a" using new_pgtab_outside [OF D(1) assms(3)] assms(5) by simp
  qed simp_all
  moreover have pde: "pde_at (ram ?t) pgdir d =
      (if d = i then V2P p OR PTE_P OR PTE_W OR PTE_U else pde_at (ram s) pgdir d)" if "d < 1024" for d
    using new_pgtab_pde [OF D(1) p(1,2) assms(3) that] by simp
  moreover have "kpage ?t = kpage s" using assms(6) by (intro kpage_cong) simp
  moreover have "pgtab_of (pde_at (ram s) pgdir d) \<noteq> p" "pgtab_of (pde_at (ram s) pgdir d) \<notin> set ps"
    if "d < 1024" "present (pde_at (ram s) pgdir d)" for d
    using D(6) [OF that] by auto
  ultimately show ?thesis
    using D(1,3,4,5,7) p pgtab_of_new [OF p(1)] unfolding pt_ok_def by auto
qed

lemma entry_nonzero: "kpage s p \<Longrightarrow> i < 1024 \<Longrightarrow> entry p i \<noteq> 0"
  using unat_entry [of p i 0] kpage_nonzero [of s p] by (auto simp: kpage_def unat_eq_zero)

lemma walkpgdir_alloc:
  assumes "pt_ok s pgdir ps" "present (pde_at (ram s) pgdir (PDX va)) \<or> ps \<noteq> []"
  obtains t qs where "walkpgdir pgdir va True s = (entry (pgtab_of (pde_at (ram t) pgdir (PDX va))) (PTX va), t)"
    "pt_ok t pgdir qs" "present (pde_at (ram t) pgdir (PDX va))" "\<And>x. pte_at (ram t) pgdir x = pte_at (ram s) pgdir x"
    "length ps \<le> Suc (length qs)"
proof (cases "present (pde_at (ram s) pgdir (PDX va))")
  case True
  then show thesis using that [of s ps] assms(1) by (simp add: walkpgdir_entry)
next
  case False
  then obtain p qs where ps: "ps = p # qs" using assms(2) by (cases ps) auto
  note D = pt_okD [OF assms(1)[unfolded ps]]
  have p: "p mod PGSIZE = 0" "p \<noteq> pgdir" "p \<noteq> 0"
    using D(2,3) kpage_nonzero [of s p] by (auto simp: free_pages_def kpage_def)
  obtain u where u: "kalloc s = (p, u)" "free_pages u qs" "u = s\<lparr>freelist := freelist u\<rparr>"
    using kalloc_free_pages [OF D(2)] by (cases "kalloc s") auto
  have r: "ram u = ram s" "kend u = kend s" by (subst u(3), simp)+
  let ?t = "u\<lparr>ram := new_pgtab (ram s) pgdir (PDX va) p\<rparr>"
  have w: "walkpgdir pgdir va True s = (entry p (PTX va), ?t)"
    using False p(3) u(1) r(1) by (simp add: walkpgdir_entry new_pgtab_def Let_def)
  note pde = new_pgtab_pde [OF D(1) p(1,2) PDX_less, of _ "ram s" va]
  have "pte_at (ram ?t) pgdir x = pte_at (ram s) pgdir x" for x
    using pde [OF PDX_less] new_pgtab_entry [OF D(1) p(1,2) PDX_less pgtab_of_aligned _ PTX_less]
      new_pgtab_entry [OF D(1) p(1,2) PDX_less p(1,2) PTX_less, of "ram s" va x]
      D(5,6) [OF PDX_less, of x] pgtab_of_new [OF p(1)] False
    by (auto simp: pte_at_def Let_def)
  moreover have "pt_ok ?t pgdir qs"
    using new_pgtab_ok [OF assms(1)[unfolded ps] False PDX_less u(2) r] .
  moreover have "pde_at (ram ?t) pgdir (PDX va) = V2P p OR PTE_P OR PTE_W OR PTE_U"
    using pde [OF PDX_less] by simp
  ultimately show thesis using that [of ?t qs] w ps pgtab_of_new [OF p(1)] by simp
qed

lemma same_pte:
  "PDX x = PDX y \<and> PTX x = PTX y \<longleftrightarrow> unat x div 4096 = unat y div 4096"
proof -
  have b: "unat (PDX z) = unat z div 4096 div 1024" "unat (PTX z) = unat z div 4096 mod 1024" for z
  proof -
    have "unat z < 2 ^ 32" using unsigned_less [of z] by simp
    then have "unat z div 4194304 < 1024" by simp
    then show "unat (PDX z) = unat z div 4096 div 1024"
      by (simp add: PDX_def and_masks unat_mod_distrib unat_drop_bit_eq drop_bit_eq_div unat_div_distrib div_mult2_eq [symmetric])
    show "unat (PTX z) = unat z div 4096 mod 1024"
      by (simp add: PTX_def and_masks unat_mod_distrib unat_drop_bit_eq drop_bit_eq_div unat_div_distrib)
  qed
  show ?thesis unfolding word_unat_eq_iff b by (metis div_mult_mod_eq)
qed

lemma set_pte:
  assumes "pt_ok s pgdir ps" "present (pde_at (ram s) pgdir (PDX va))"
  defines "a \<equiv> entry (pgtab_of (pde_at (ram s) pgdir (PDX va))) (PTX va)"
  shows "pt_ok (s\<lparr>ram := store32 (ram s) a v\<rparr>) pgdir ps"
    "pte_at (store32 (ram s) a v) pgdir x =
       (if unat x div 4096 = unat va div 4096 then v else pte_at (ram s) pgdir x)"
proof -
  note D = pt_okD [OF assms(1)]
  let ?p = "pgtab_of (pde_at (ram s) pgdir (PDX va))"
  have p: "?p mod PGSIZE = 0" "?p \<noteq> pgdir" "?p \<notin> set ps"
    using pgtab_of_aligned D(5,6) [OF PDX_less assms(2)] by simp_all
  have pde: "pde_at (store32 (ram s) a v) pgdir d = pde_at (ram s) pgdir d" if "d < 1024" for d
    using p that D(1) unfolding pde_at_def a_def
    by (intro load_store_entry) (auto simp: PTX_less pde_at_def)
  have "free_pages (s\<lparr>ram := store32 (ram s) a v\<rparr>) ps"
  proof (rule free_pages_frame [OF D(2)])
    fix q b
    assume q: "q \<in> set ps" "in_page q b"
    then have "q mod PGSIZE = 0" "q \<noteq> ?p" using D(2) p(3) by (auto simp: free_pages_def kpage_def list_all_iff)
    then have "\<not> in_page ?p b" using page_unique q(2) p(1) by metis
    then show "ram (s\<lparr>ram := store32 (ram s) a v\<rparr>) b = ram s b"
      using entry_in_page [OF p(1) PTX_less, of _ va] unfolding a_def by (simp, intro store32_bytes) metis
  qed simp_all
  then show "pt_ok (s\<lparr>ram := store32 (ram s) a v\<rparr>) pgdir ps"
    using D pde kpage_cong [of "s\<lparr>ram := store32 (ram s) a v\<rparr>" s] unfolding pt_ok_def by auto
  show "pte_at (store32 (ram s) a v) pgdir x =
       (if unat x div 4096 = unat va div 4096 then v else pte_at (ram s) pgdir x)"
  proof (cases "present (pde_at (ram s) pgdir (PDX x))")
    case True
    let ?q = "pgtab_of (pde_at (ram s) pgdir (PDX x))"
    have "load32 (store32 (ram s) a v) (entry ?q (PTX x)) =
        (if (?q, PTX x) = (?p, PTX va) then v else load32 (ram s) (entry ?q (PTX x)))"
      using load_store_entry [OF pgtab_of_aligned PTX_less p(1) PTX_less] unfolding a_def by auto
    moreover have "?q = ?p \<longleftrightarrow> PDX x = PDX va"
      using D(7) [OF PDX_less assms(2) PDX_less True] by auto
    ultimately show ?thesis using True pde [OF PDX_less] same_pte [of x va] by (auto simp: pte_at_def Let_def)
  next
    case False
    then have "PDX x \<noteq> PDX va" using assms(2) by auto
    then show ?thesis using False pde [OF PDX_less] same_pte [of x va] by (auto simp: pte_at_def Let_def)
  qed
qed

text \<open>One page: from not present to \<open>pa | perm | PTE_P\<close>, everything else as before.\<close>

lemma map_page:
  fixes v :: u32
  assumes "pt_ok s pgdir ps" "present (pde_at (ram s) pgdir (PDX va)) \<or> ps \<noteq> []"
    "\<not> present (pte_at (ram s) pgdir va)"
  defines "w \<equiv> walkpgdir pgdir va True s"
  defines "u \<equiv> (snd w)\<lparr>ram := store32 (ram (snd w)) (fst w) v\<rparr>"
  shows "fst w \<noteq> 0" "\<not> present (load32 (ram (snd w)) (fst w))"
    "\<exists>qs. pt_ok u pgdir qs \<and> length ps \<le> Suc (length qs)"
    "pte_at (ram u) pgdir x = (if unat x div 4096 = unat va div 4096 then v else pte_at (ram s) pgdir x)"
proof -
  obtain t qs where t: "w = (entry (pgtab_of (pde_at (ram t) pgdir (PDX va))) (PTX va), t)"
    "pt_ok t pgdir qs" "present (pde_at (ram t) pgdir (PDX va))" "\<And>x. pte_at (ram t) pgdir x = pte_at (ram s) pgdir x"
    "length ps \<le> Suc (length qs)" using walkpgdir_alloc [OF assms(1,2)] unfolding w_def by metis
  have "load32 (ram t) (fst w) = pte_at (ram t) pgdir va" using t(1,3) by (simp add: pte_at_def)
  then show "\<not> present (load32 (ram (snd w)) (fst w))" using t(1,4) assms(3) by simp
  show "fst w \<noteq> 0" using entry_nonzero [OF pt_okD(4) [OF t(2) PDX_less t(3)] PTX_less] t(1) by simp
  show "\<exists>qs. pt_ok u pgdir qs \<and> length ps \<le> Suc (length qs)"
    using set_pte(1) [OF t(2,3)] t(1,5) unfolding u_def by auto
  show "pte_at (ram u) pgdir x = (if unat x div 4096 = unat va div 4096 then v else pte_at (ram s) pgdir x)"
    using set_pte(2) [OF t(2,3)] t(1,4) unfolding u_def by simp
qed

lemma page_range: "unat a mod 4096 = 0 \<Longrightarrow> unat x div 4096 = unat a div 4096 \<longleftrightarrow> unat a \<le> unat x \<and> unat x < unat a + 4096"
  for a x :: u32
  by (auto simp: mod_eq_0_iff_dvd)

text \<open>What \<open>n + 1\<close> pages from \<open>a\<close> on are mapped to.\<close>

definition mapped :: "nat \<Rightarrow> u32 \<Rightarrow> u32 \<Rightarrow> u32 \<Rightarrow> (u32 \<Rightarrow> u32) \<Rightarrow> u32 \<Rightarrow> u32" where
  "mapped n a pa perm f x =
     (if unat a \<le> unat x \<and> unat x < unat a + 4096 * (n + 1)
      then (pa + of_nat (4096 * (unat x div 4096 - unat a div 4096))) OR perm OR PTE_P else f x)"

lemma mapped_0:
  assumes "unat a mod 4096 = 0"
  shows "mapped 0 a pa perm f x = (if unat x div 4096 = unat a div 4096 then pa OR perm OR PTE_P else f x)"
  using page_range [OF assms, of x] by (auto simp: mapped_def)

lemma mapped_Suc:
  assumes "unat a mod 4096 = 0" "unat (a + PGSIZE) = unat a + 4096"
    "\<And>x. g x = (if unat x div 4096 = unat a div 4096 then pa OR perm OR PTE_P else f x)"
  shows "mapped n (a + PGSIZE) (pa + PGSIZE) perm g x = mapped (Suc n) a pa perm f x"
proof -
  consider "unat x < unat a" | "unat a \<le> unat x" "unat x < unat a + 4096" | "unat a + 4096 \<le> unat x" by linarith
  then show ?thesis
  proof cases
    case 1
    then have "unat x div 4096 \<noteq> unat a div 4096" using page_range [OF assms(1), of x] by simp
    then show ?thesis using 1 assms(2,3) by (simp add: mapped_def)
  next
    case 2
    then have "unat x div 4096 = unat a div 4096" using page_range [OF assms(1), of x] by simp
    then show ?thesis using 2 assms(2,3) by (simp add: mapped_def)
  next
    case 3
    then have "unat x div 4096 \<noteq> unat a div 4096" using page_range [OF assms(1), of x] by simp
    moreover have "(unat a + 4096) div 4096 \<le> unat x div 4096" using 3 by (rule div_le_mono)
    then obtain k where k: "unat x div 4096 - unat a div 4096 = Suc k" "unat x div 4096 - (unat a + 4096) div 4096 = k"
      by (metis Suc_diff_Suc Suc_le_lessD add.commute div_add_self1 plus_1_eq_Suc zero_neq_numeral diff_Suc_Suc)
    ultimately show ?thesis using 3 assms(2,3) unfolding mapped_def by (simp add: k algebra_simps)
  qed
qed

lemma rest_unmapped:
  assumes "unat a mod 4096 = 0" "unat a + 4096 * Suc n < 2 ^ 32"
    "\<And>x. g x = (if unat x div 4096 = unat a div 4096 then v else f x)" "k \<le> n"
  shows "g (a + PGSIZE + of_nat (4096 * k)) = f (a + of_nat (4096 * Suc k))"
proof -
  have e: "a + PGSIZE + of_nat (4096 * k) = a + of_nat (4096 * Suc k)" by (simp add: algebra_simps)
  have "unat (a + of_nat (4096 * Suc k)) = unat a + 4096 * Suc k"
    using assms(2,4) by (simp add: unat_word_ariths unat_of_nat)
  then have "unat (a + of_nat (4096 * Suc k)) div 4096 \<noteq> unat a div 4096"
    using page_range [OF assms(1)] by simp
  then show ?thesis unfolding e assms(3) by simp
qed

lemma mappages_loop_step:
  assumes "walkpgdir pgdir a True s = w" "fst w \<noteq> 0" "\<not> present (load32 (ram (snd w)) (fst w))"
    "u = (snd w)\<lparr>ram := store32 (ram (snd w)) (fst w) (pa OR perm OR PTE_P)\<rparr>"
  shows "mappages_loop n pgdir a pa perm s =
    (case n of 0 \<Rightarrow> Inr (0, u) | Suc n \<Rightarrow> mappages_loop n pgdir (a + PGSIZE) (pa + PGSIZE) perm u)"
  using assms(1-3) unfolding assms(4)
  by (subst mappages_loop.simps) (simp add: present_def Let_def case_prod_beta)

lemma mappages_loop_maps:
  assumes "pt_ok s pgdir ps" "n < length ps" "unat a mod 4096 = 0" "unat a + 4096 * n < 2 ^ 32"
    "\<And>k. k \<le> n \<Longrightarrow> \<not> present (pte_at (ram s) pgdir (a + of_nat (4096 * k)))"
  shows "\<exists>t qs. mappages_loop n pgdir a pa perm s = Inr (0, t) \<and> pt_ok t pgdir qs \<and>
    pte_at (ram t) pgdir = mapped n a pa perm (pte_at (ram s) pgdir)"
  using assms
proof (induction n arbitrary: s a pa ps)
  case 0
  have h: "present (pde_at (ram s) pgdir (PDX a)) \<or> ps \<noteq> []" "\<not> present (pte_at (ram s) pgdir a)"
    using 0(2) 0(5) [of 0] by auto
  note m = map_page(1,2) [OF 0(1) h] map_page(3,4) [OF 0(1) h, where v = "pa OR perm OR PTE_P"]
  show ?case
    using mappages_loop_step [OF refl m(1,2) refl, where n = 0] m(3,4) mapped_0 [OF 0(3)]
    by (force simp: fun_eq_iff)
next
  case (Suc n)
  have h: "present (pde_at (ram s) pgdir (PDX a)) \<or> ps \<noteq> []" "\<not> present (pte_at (ram s) pgdir a)"
    using Suc.prems(2) Suc.prems(5) [of 0] by auto
  note m = map_page(1,2) [OF Suc.prems(1) h] map_page(3,4) [OF Suc.prems(1) h, where v = "pa OR perm OR PTE_P"]
  define w where "w = walkpgdir pgdir a True s"
  define u where "u = (snd w)\<lparr>ram := store32 (ram (snd w)) (fst w) (pa OR perm OR PTE_P)\<rparr>"
  obtain qs where qs: "pt_ok u pgdir qs" "length ps \<le> Suc (length qs)" using m(3) unfolding u_def w_def by blast
  have up: "unat (a + PGSIZE) = unat a + 4096" using Suc.prems(4) by (simp add: unat_word_ariths)
  have pte: "pte_at (ram u) pgdir x =
      (if unat x div 4096 = unat a div 4096 then pa OR perm OR PTE_P else pte_at (ram s) pgdir x)" for x
    using m(4) unfolding u_def w_def .
  have "\<not> present (pte_at (ram u) pgdir (a + PGSIZE + of_nat (4096 * k)))" if "k \<le> n" for k
    using rest_unmapped [OF Suc.prems(3,4) pte that] Suc.prems(5) [of "Suc k"] that by simp
  then obtain v rs where v: "mappages_loop n pgdir (a + PGSIZE) (pa + PGSIZE) perm u = Inr (0, v)" "pt_ok v pgdir rs"
    "pte_at (ram v) pgdir = mapped n (a + PGSIZE) (pa + PGSIZE) perm (pte_at (ram u) pgdir)"
    using Suc.IH [OF qs(1), of "a + PGSIZE" "pa + PGSIZE"] Suc.prems(2-4) qs(2) up by auto
  have "mappages_loop (Suc n) pgdir a pa perm s = Inr (0, v)"
    using mappages_loop_step [OF refl m(1,2) refl, where n = "Suc n"] v(1) unfolding u_def w_def by simp
  then show ?case using v(2,3) mapped_Suc [OF Suc.prems(3) up pte] by (auto simp: fun_eq_iff)
qed

section \<open>Growing by a page\<close>

lemma unat_PGROUNDDOWN: "unat (PGROUNDDOWN x) = unat x div 4096 * 4096"
proof -
  have "PGROUNDDOWN x = x div PGSIZE * PGSIZE"
    using page_offset [of x] by (metis diff_diff_eq2 add_diff_cancel_left' minus_mod_eq_div_mult)
  moreover have "unat (x div PGSIZE) = unat x div 4096" by (simp add: unat_div_distrib)
  moreover have "unat x < 2 ^ 32" using unsigned_less [of x] by simp
  ultimately show ?thesis by (simp add: unat_word_ariths)
qed

lemma round_aligned:
  assumes "unat a mod 4096 = 0" "unat a + 4096 < 2 ^ 32"
  shows "PGROUNDDOWN a = a" "PGROUNDUP a = a" "PGROUNDDOWN (a + PGSIZE - 1) = a"
proof -
  show "PGROUNDDOWN a = a"
    using assms(1) by (simp add: word_unat_eq_iff unat_PGROUNDDOWN minus_mod_eq_div_mult [symmetric])
  have "a + PGSIZE - 1 = a + 4095" by simp
  then have "unat (a + PGSIZE - 1) = unat a + 4095" using assms(2) by (simp add: unat_word_ariths)
  moreover have "(unat a + 4095) div 4096 * 4096 = unat a" using assms(1) by (auto simp: mod_eq_0_iff_dvd)
  ultimately show d: "PGROUNDDOWN (a + PGSIZE - 1) = a" by (simp add: word_unat_eq_iff unat_PGROUNDDOWN)
  then show "PGROUNDUP a = a" by (simp add: PGROUNDUP_def PGROUNDDOWN_def)
qed

lemma pt_ok_cong: "ram t = ram s \<Longrightarrow> freelist t = freelist s \<Longrightarrow> kend t = kend s \<Longrightarrow> pt_ok t pgdir ps = pt_ok s pgdir ps"
  by (simp add: pt_ok_def free_pages_def kpage_cong [of t s])

text \<open>A new page of memory is none of the page tables, whatever is written to it.\<close>

lemma new_page:
  assumes "pt_ok s pgdir (p # ps)" "kalloc s = (p, u)" "\<And>a. \<not> in_page p a \<Longrightarrow> m a = ram s a"
  shows "p \<noteq> 0" "pt_ok (u\<lparr>ram := m\<rparr>) pgdir ps" "pte_at m pgdir = pte_at (ram s) pgdir"
    "\<And>d. d < 1024 \<Longrightarrow> pde_at m pgdir d = pde_at (ram s) pgdir d" "ram u = ram s" "kend u = kend s"
proof -
  note D = pt_okD [OF assms(1)]
  have p: "p mod PGSIZE = 0" "p \<noteq> pgdir" "p \<notin> set ps"
    using D(2,3) by (auto simp: free_pages_def kpage_def)
  show "p \<noteq> 0" using D(2) kpage_nonzero [of s p] by (simp add: free_pages_def)
  have u: "free_pages u ps" "u = s\<lparr>freelist := freelist u\<rparr>"
    using kalloc_free_pages [OF D(2)] assms(2) by auto
  show r: "ram u = ram s" "kend u = kend s" by (subst u(2), simp)+
  have load: "load32 m (entry q i) = load32 (ram s) (entry q i)" if "q mod PGSIZE = 0" "q \<noteq> p" "i < 1024" for q i
    using that p(1) assms(3) entry_in_page [OF that(1,3)] page_unique by (intro load32_bytes) metis
  show pde: "pde_at m pgdir d = pde_at (ram s) pgdir d" if "d < 1024" for d
    using load [OF D(1) _ that] p(2) by (simp add: pde_at_def)
  have tab: "pgtab_of (pde_at (ram s) pgdir d) \<noteq> p" if "d < 1024" "present (pde_at (ram s) pgdir d)" for d
    using D(6) [OF that] by auto
  have "pte_at m pgdir x = pte_at (ram s) pgdir x" for x
    using load [OF pgtab_of_aligned tab [OF PDX_less] PTX_less] pde [OF PDX_less] by (auto simp: pte_at_def Let_def)
  then show "pte_at m pgdir = pte_at (ram s) pgdir" by (simp add: fun_eq_iff)
  have "free_pages (u\<lparr>ram := m\<rparr>) ps"
  proof (rule free_pages_frame [OF u(1)])
    fix q a
    assume q: "q \<in> set ps" "in_page q a"
    then have "q mod PGSIZE = 0" "q \<noteq> p" using D(2) p(3) by (auto simp: free_pages_def kpage_def list_all_iff)
    then have "\<not> in_page p a" using page_unique q(2) p(1) by metis
    then show "ram (u\<lparr>ram := m\<rparr>) a = ram u a" using assms(3) r(1) by simp
  qed simp_all
  then show "pt_ok (u\<lparr>ram := m\<rparr>) pgdir ps"
    using D pde kpage_cong [of "u\<lparr>ram := m\<rparr>" s] r(2) unfolding pt_ok_def by auto
qed

lemma zero_page:
  assumes "pt_ok s pgdir (p # ps)"
  obtains u where "kalloc s = (p, u)" "p \<noteq> 0" "pt_ok (u\<lparr>ram := memset (ram u) p 0 PGSIZE\<rparr>) pgdir ps"
    "pte_at (memset (ram u) p 0 PGSIZE) pgdir = pte_at (ram s) pgdir"
proof -
  obtain u where u: "kalloc s = (p, u)" using kalloc_free_pages [OF pt_okD(2) [OF assms]] by (cases "kalloc s") auto
  note n = new_page [OF assms u, of "memset (ram s) p 0 PGSIZE"]
  show thesis using that [OF u] n by (simp add: memset_page)
qed

lemma mappages_one:
  assumes "unat a mod 4096 = 0" "unat a + 4096 < 2 ^ 32"
  shows "mappages pgdir a PGSIZE pa perm s = mappages_loop 0 pgdir a pa perm s"
  unfolding mappages_def Let_def round_aligned(1,3) [OF assms] by simp

lemma mappages_range:
  assumes "va mod PGSIZE = 0" "sz = of_nat (4096 * (n + 1))" "unat va + 4096 * (n + 1) \<le> 2 ^ 32"
  shows "mappages pgdir va sz pa perm s = mappages_loop n pgdir va pa perm s"
proof -
  have va: "unat va mod 4096 = 0" using aligned_unat [of va] assms(1) by simp
  have "va + sz - 1 = va + of_nat (4096 * n + 4095)" by (simp add: assms(2) algebra_simps)
  then have last: "unat (va + sz - 1) = unat va + (4096 * n + 4095)"
    using assms(3) by (simp add: unat_word_ariths unat_of_nat)
  note down = unat_PGROUNDDOWN
  have a: "PGROUNDDOWN va = va" using va by (simp add: word_unat_eq_iff down minus_mod_eq_div_mult [symmetric])
  have "unat (PGROUNDDOWN (va + sz - 1)) = unat va + 4096 * n"
    unfolding down last using va by (auto simp: mod_eq_0_iff_dvd)
  then have "unat ((PGROUNDDOWN (va + sz - 1) - va) div PGSIZE) = n"
    by (simp add: unat_div_distrib unat_sub word_le_nat_alt)
  then show ?thesis unfolding mappages_def by (simp add: a)
qed

lemma present_or: "present (a OR b OR PTE_P)"
proof -
  have "bit ((a OR b OR PTE_P) AND PTE_P) 0" by (simp add: bit_simps)
  then show ?thesis unfolding present_def by (metis bit_0_eq bot_apply bot_bool_def)
qed

lemma npages_Suc: "\<exists>k. npages = Suc k"
  by (rule not0_implies_Suc) (simp add: npages_def)

text \<open>\<open>allocuvm\<close> by one page: the page is mapped; when it was mapped before, the kernel panics.\<close>

lemma allocuvm_page:
  assumes "pt_ok s pgdir (p # ps)" "ps \<noteq> []" "unat sz mod 4096 = 0" "sz + PGSIZE < KERNBASE" "sz < KERNBASE"
    "\<not> present (pte_at (ram s) pgdir sz)"
  shows "\<exists>t qs. allocuvm pgdir sz (sz + PGSIZE) s = Inr (sz + PGSIZE, t) \<and> pt_ok t pgdir qs \<and> length ps \<le> Suc (length qs) \<and>
    present (pte_at (ram t) pgdir sz)"
proof -
  have b: "unat sz + 4096 < 2 ^ 32" "unat (sz + PGSIZE) = unat sz + 4096"
    using assms(5) by (simp_all add: word_less_nat_alt unat_word_ariths)
  then have lt: "sz < sz + PGSIZE" "\<not> sz + PGSIZE < sz" by (simp_all add: word_less_nat_alt)
  have top: "\<not> KERNBASE \<le> sz + PGSIZE" using assms(4) by (simp only: not_le)
  obtain k where k: "npages = Suc k" using npages_Suc by blast
  obtain u where u: "kalloc s = (p, u)" "p \<noteq> 0" "pt_ok (u\<lparr>ram := memset (ram u) p 0 PGSIZE\<rparr>) pgdir ps"
    "pte_at (memset (ram u) p 0 PGSIZE) pgdir = pte_at (ram s) pgdir" using zero_page [OF assms(1)] by metis
  let ?u = "u\<lparr>ram := memset (ram u) p 0 PGSIZE\<rparr>"
  have h: "present (pde_at (ram ?u) pgdir (PDX sz)) \<or> ps \<noteq> []" "\<not> present (pte_at (ram ?u) pgdir sz)"
    using assms(2,6) u(4) by simp_all
  note m = map_page(1,2) [OF u(3) h] map_page(3,4) [OF u(3) h, where v = "V2P p OR (PTE_W OR PTE_U) OR PTE_P"]
  define w where "w = walkpgdir pgdir sz True ?u"
  define t where "t = (snd w)\<lparr>ram := store32 (ram (snd w)) (fst w) (V2P p OR (PTE_W OR PTE_U) OR PTE_P)\<rparr>"
  note m = m(1,2) [folded w_def] m(3,4) [folded w_def, folded t_def]
  obtain qs where qs: "pt_ok t pgdir qs" "length ps \<le> Suc (length qs)" using m(3) by blast
  have "mappages_loop 0 pgdir sz (V2P p) (PTE_W OR PTE_U) ?u = Inr (0, t)"
    using mappages_loop_step [OF w_def [symmetric] m(1,2) t_def, where n = 0] by simp
  then have t: "mappages pgdir sz PGSIZE (V2P p) (PTE_W OR PTE_U) ?u = Inr (0, t)"
    using mappages_one [OF assms(3) b(1)] by metis
  have e: "allocuvm_loop j pgdir (sz + PGSIZE) sz (sz + PGSIZE) t = Inr (sz + PGSIZE, t)" for j by (cases j) simp_all
  have "allocuvm pgdir sz (sz + PGSIZE) s = Inr (sz + PGSIZE, t)"
    using top lt u(1,2) t e by (simp add: allocuvm_def round_aligned(2) [OF assms(3) b(1)] k)
  moreover have "present (pte_at (ram t) pgdir sz)" unfolding m(4) by (simp only: present_or simp_thms if_True)
  ultimately show ?thesis using qs by blast
qed

lemma allocuvm_remap:
  assumes "pt_ok s pgdir (p # ps)" "unat sz mod 4096 = 0" "sz + PGSIZE < KERNBASE" "sz < KERNBASE"
    "present (pte_at (ram s) pgdir sz)"
  shows "allocuvm pgdir sz (sz + PGSIZE) s = Inl (Panic ''remap'')"
proof -
  have b: "unat sz + 4096 < 2 ^ 32" "unat (sz + PGSIZE) = unat sz + 4096"
    using assms(4) by (simp_all add: word_less_nat_alt unat_word_ariths)
  then have lt: "sz < sz + PGSIZE" "\<not> sz + PGSIZE < sz" by (simp_all add: word_less_nat_alt)
  have top: "\<not> KERNBASE \<le> sz + PGSIZE" using assms(3) by (simp only: not_le)
  obtain k where k: "npages = Suc k" using npages_Suc by blast
  obtain u where u: "kalloc s = (p, u)" "p \<noteq> 0" "pt_ok (u\<lparr>ram := memset (ram u) p 0 PGSIZE\<rparr>) pgdir ps"
    "pte_at (memset (ram u) p 0 PGSIZE) pgdir = pte_at (ram s) pgdir" using zero_page [OF assms(1)] by metis
  let ?u = "u\<lparr>ram := memset (ram u) p 0 PGSIZE\<rparr>"
  have pte: "present (pte_at (ram ?u) pgdir sz)" using u(4) assms(5) by simp
  then have pde: "present (pde_at (ram ?u) pgdir (PDX sz))" by (auto simp: pte_at_def Let_def present_def split: if_splits)
  then have "fst (walkpgdir pgdir sz True ?u) \<noteq> 0"
    using entry_nonzero [OF pt_okD(4) [OF u(3) PDX_less pde] PTX_less] by (simp add: walkpgdir_entry Let_def)
  then have "mappages_loop 0 pgdir sz (V2P p) (PTE_W OR PTE_U) ?u = Inl (Panic ''remap'')"
    using pte pde by (subst mappages_loop.simps) (simp add: walkpgdir_entry Let_def pte_at_def present_def)
  then have "mappages pgdir sz PGSIZE (V2P p) (PTE_W OR PTE_U) ?u = Inl (Panic ''remap'')"
    using mappages_one [OF assms(2) b(1)] by metis
  then show ?thesis
    using top lt u(1,2) by (simp add: allocuvm_def round_aligned(2) [OF assms(2) b(1)] k)
qed

section \<open>Properties\<close>

text \<open>
  C16: \<open>mappages\<close> of a page-aligned range that is not mapped yet and does not reach the end of the
  address space, with as many free pages as it could need page tables: it returns 0, each page of the
  range is mapped to the corresponding physical page with the given permissions, every other virtual
  address is mapped as before, and the page table stays well-formed.
\<close>

theorem mappages_maps:
  assumes "pt_ok s pgdir ps" "va mod PGSIZE = 0" "sz = of_nat (4096 * (n + 1))"
    "unat va + 4096 * (n + 1) < 2 ^ 32" "n < length ps"
    "\<forall>k \<le> n. \<not> present (pte_at (ram s) pgdir (va + of_nat (4096 * k)))"
  shows "\<exists>t qs. mappages pgdir va sz pa perm s = Inr (0, t) \<and> pt_ok t pgdir qs \<and>
    pte_at (ram t) pgdir = mapped n va pa perm (pte_at (ram s) pgdir)"
proof -
  have "unat va mod 4096 = 0" using aligned_unat [of va] assms(2) by simp
  moreover have "mappages pgdir va sz pa perm s = mappages_loop n pgdir va pa perm s"
    using assms(4) by (intro mappages_range [OF assms(2,3)]) simp
  ultimately show ?thesis using mappages_loop_maps [OF assms(1,5), of va pa perm] assms(4,6) by simp
qed

definition vm0 :: kmem where
  "vm0 = \<lparr>ram = (\<lambda>_. 0), freelist = 0x80200000, use_lock = False, kend = 0x80100000\<rparr>"

lemma vm0_ok: "pt_ok vm0 0x80400000 [0x80200000]"
proof -
  have "load32 (ram vm0) a = 0" for a by (simp add: vm0_def load32_def)
  then show ?thesis
    by (simp add: pt_ok_def free_pages_def kpage_def V2P_def pde_at_def present_def)
      (simp add: vm0_def)
qed

theorem mappages_maps_witness:
  "pt_ok vm0 0x80400000 [0x80200000] \<and>
   (\<exists>t. mappages 0x80400000 0x1000 4096 0x300000 6 vm0 = Inr (0, t) \<and>
        pte_at (ram t) 0x80400000 0x1234 = 0x300007 \<and> pte_at (ram t) 0x80400000 0x2000 = 0)"
proof -
  have z: "pte_at (ram vm0) 0x80400000 x = 0" for x
    by (simp add: pte_at_def pde_at_def present_def vm0_def load32_def)
  have "\<forall>k \<le> 0. \<not> present (pte_at (ram vm0) 0x80400000 (0x1000 + of_nat (4096 * k)))"
    unfolding z by (simp add: present_def)
  then have "\<exists>t qs. mappages 0x80400000 0x1000 4096 0x300000 6 vm0 = Inr (0, t) \<and> pt_ok t 0x80400000 qs \<and>
      pte_at (ram t) 0x80400000 = mapped 0 0x1000 0x300000 6 (pte_at (ram vm0) 0x80400000)"
    by (intro mappages_maps [OF vm0_ok]) simp_all
  then obtain t where t: "mappages 0x80400000 0x1000 4096 0x300000 6 vm0 = Inr (0, t)"
    "pte_at (ram t) 0x80400000 = mapped 0 0x1000 0x300000 6 (pte_at (ram vm0) 0x80400000)"
    by blast
  have "pte_at (ram t) 0x80400000 0x1234 = 0x300007" "pte_at (ram t) 0x80400000 0x2000 = 0"
    unfolding t(2) mapped_def z by simp_all
  then show ?thesis using vm0_ok t(1) by blast
qed

text \<open>
  \<open>uva2ka\<close> reads the entry that \<open>walkpgdir\<close> returns without looking whether it returned one: on a
  user address whose page directory entry is not present it reads through a null pointer, where for
  a page that is not present it returns 0.
\<close>

lemma uva2ka_null_pte:
  "(present (pde_at (ram s) pgdir (PDX va)) \<or> uva2ka pgdir va s = Inl Fault) \<and>
   (uva2ka pgdir va s = Inl Fault \<or> present (pte_at (ram s) pgdir va) \<or> uva2ka pgdir va s = Inr 0)"
  by (auto simp: uva2ka_def walkpgdir_entry pte_at_def Let_def present_def)
section \<open>The loops over pages end\<close>

text \<open>
  More fuel than the pages up to the bound changes nothing, so the loops end as those of the code do: an address never comes round when the bound
  leaves the last page of the address space out (the last four megabytes for \<open>deallocuvm\<close>, which skips whole page tables).
\<close>

lemma next_page: "a < sz \<Longrightarrow> unat sz + 4096 \<le> 2 ^ 32 \<Longrightarrow> unat (a + PGSIZE) = unat a + 4096"
  by (simp add: word_less_nat_alt unat_word_ariths)

lemma next_table:
  assumes "unat a < 2 ^ 32 - 2 ^ 22"
  shows "unat a < unat (PGADDR (PDX a + 1) 0 0 - PGSIZE + PGSIZE)" "2 ^ 22 dvd unat (PGADDR (PDX a + 1) 0 0 - PGSIZE + PGSIZE)"
proof -
  have "(0x3ff :: u32) = mask 10" by (simp add: mask_eq_exp_minus_1)
  then have p: "unat (PDX a) = unat a div 2 ^ 22 mod 2 ^ 10"
    by (simp only: PDX_def flip: take_bit_eq_mask) (simp only: unsigned_take_bit_eq unat_drop_bit_eq, simp only: take_bit_eq_mod drop_bit_eq_div)
  have u: "unat a < 2 ^ 32" using unsigned_less [of a] by simp
  then have q: "unat (PDX a) = unat a div 2 ^ 22" "unat a div 2 ^ 22 < 1023" using p assms by simp_all
  then have "unat (PDX a + 1) = unat a div 2 ^ 22 + 1" by (simp add: unat_word_ariths)
  moreover have "unat (push_bit 22 x) = 2 ^ 22 * unat x" if "unat x \<le> 1023" for x :: u32
    using that by (simp add: push_bit_eq_mult unat_word_ariths)
  ultimately have r: "unat (push_bit 22 (PDX a + 1)) = 2 ^ 22 * (unat a div 2 ^ 22 + 1)" using q(2) by simp
  show "unat a < unat (PGADDR (PDX a + 1) 0 0 - PGSIZE + PGSIZE)" "2 ^ 22 dvd unat (PGADDR (PDX a + 1) 0 0 - PGSIZE + PGSIZE)"
    using r div_mult_mod_eq [of "unat a" "2 ^ 22"] mod_less_divisor [of "2 ^ 22" "unat a"] by (simp_all add: PGADDR_def)
qed

lemma copyuvm_loop_fuel:
  fixes s :: "'a kmem_scheme"
  shows "unat sz + 4096 \<le> 2 ^ 32 \<Longrightarrow> unat sz \<le> unat i + 4096 * n \<Longrightarrow>
    copyuvm_loop (n + k) pgdir d i sz s = copyuvm_loop n pgdir d i sz s"
proof (induction n arbitrary: i s)
  case 0
  then show ?case by (cases k) (auto simp: word_less_nat_alt)
next
  case (Suc n)
  show ?case
  proof (cases "i < sz")
    case True
    have IH: "copyuvm_loop (n + k) pgdir d (i + PGSIZE) sz t = copyuvm_loop n pgdir d (i + PGSIZE) sz t" for t :: "'a kmem_scheme"
      using Suc.IH [OF Suc.prems(1)] Suc.prems(2) next_page [OF True Suc.prems(1)] by simp
    show ?thesis unfolding add_Suc copyuvm_loop.simps IH ..
  qed simp
qed

lemma allocuvm_loop_fuel:
  fixes s :: "'a kmem_scheme"
  shows "unat newsz + 4096 \<le> 2 ^ 32 \<Longrightarrow> unat newsz \<le> unat a + 4096 * n \<Longrightarrow>
    allocuvm_loop (n + k) pgdir a oldsz newsz s = allocuvm_loop n pgdir a oldsz newsz s"
proof (induction n arbitrary: a s)
  case 0
  then show ?case by (cases k) (auto simp: word_less_nat_alt)
next
  case (Suc n)
  show ?case
  proof (cases "a < newsz")
    case True
    have IH: "allocuvm_loop (n + k) pgdir (a + PGSIZE) oldsz newsz t = allocuvm_loop n pgdir (a + PGSIZE) oldsz newsz t" for t :: "'a kmem_scheme"
      using Suc.IH [OF Suc.prems(1)] Suc.prems(2) next_page [OF True Suc.prems(1)] by simp
    show ?thesis unfolding add_Suc allocuvm_loop.simps IH ..
  qed simp
qed

lemma deallocuvm_loop_fuel:
  fixes s :: "'a kmem_scheme"
  shows "unat oldsz \<le> 2 ^ 32 - 2 ^ 22 \<Longrightarrow> unat a mod 4096 = 0 \<Longrightarrow> unat oldsz \<le> unat a + 4096 * n \<Longrightarrow>
    deallocuvm_loop (n + k) pgdir a oldsz s = deallocuvm_loop n pgdir a oldsz s"
proof (induction n arbitrary: a s)
  case 0
  then show ?case by (cases k) (auto simp: word_less_nat_alt)
next
  case (Suc n)
  let ?b = "PGADDR (PDX a + 1) 0 0 - PGSIZE + PGSIZE"
  show ?case
  proof (cases "a < oldsz")
    case True
    have 1: "deallocuvm_loop (n + k) pgdir (a + PGSIZE) oldsz t = deallocuvm_loop n pgdir (a + PGSIZE) oldsz t" for t :: "'a kmem_scheme"
      using Suc.IH [OF Suc.prems(1), of "a + PGSIZE"] Suc.prems next_page [OF True] by simp
    have lt: "unat a < 2 ^ 32 - 2 ^ 22" using True Suc.prems(1) by (simp add: word_less_nat_alt)
    have "(2 :: nat) ^ 12 dvd 2 ^ 22" by (rule le_imp_power_dvd) simp
    then have "2 ^ 12 dvd unat ?b" using next_table(2) [OF lt] dvd_trans by blast
    then have b: "unat ?b mod 4096 = 0" by (simp add: dvd_eq_mod_eq_0 del: add_diff_cancel diff_add_cancel)
    then have "unat a + 4096 \<le> unat ?b" using next_table(1) [OF lt] Suc.prems(2) by (auto elim!: dvdE simp: mod_eq_0_iff_dvd)
    then have 2: "deallocuvm_loop (n + k) pgdir ?b oldsz t = deallocuvm_loop n pgdir ?b oldsz t" for t :: "'a kmem_scheme"
      using Suc.IH [OF Suc.prems(1) b] Suc.prems(3) by simp
    show ?thesis unfolding add_Suc deallocuvm_loop.simps 1 2 ..
  qed simp
qed

text \<open>The fuel of the model is enough.\<close>

lemma npages_enough: "unat (x :: u32) \<le> 4096 * npages"
proof -
  have "unat x < 2 ^ 32" using unsigned_less [of x] by simp
  then show ?thesis by (simp add: npages_def)
qed

lemma page_loops_end:
  fixes s :: "'a kmem_scheme"
  shows "unat sz + 4096 \<le> 2 ^ 32 \<Longrightarrow> copyuvm_loop (npages + k) pgdir d i sz s = copyuvm_loop npages pgdir d i sz s"
    "unat newsz + 4096 \<le> 2 ^ 32 \<Longrightarrow> allocuvm_loop (npages + k) pgdir a oldsz newsz s = allocuvm_loop npages pgdir a oldsz newsz s"
    "unat oldsz \<le> 2 ^ 32 - 2 ^ 22 \<Longrightarrow> unat a mod 4096 = 0 \<Longrightarrow>
       deallocuvm_loop (npages + k) pgdir a oldsz s = deallocuvm_loop npages pgdir a oldsz s"
  by (rule copyuvm_loop_fuel, assumption, rule trans_le_add2, rule npages_enough)
    (rule allocuvm_loop_fuel, assumption, rule trans_le_add2, rule npages_enough,
      rule deallocuvm_loop_fuel, assumption, assumption, rule trans_le_add2, rule npages_enough)

end
