(* ===== verification/Xv6_Ptable.thy ===== *)
theory Xv6_Ptable
  imports Xv6_Vm
begin

text \<open>
  The process table of \<open>proc.h\<close> and \<open>proc.c\<close>, as far as every part of the kernel uses it: the running process
  and \<open>wakeup\<close>. The trap frame and the kernel context lie at the top of a process's kernel stack; they are
  values of the process here. The operations on processes are in \<open>Xv6_Proc\<close>.
\<close>

abbreviation NPROC :: nat where "NPROC \<equiv> 64"
abbreviation NOFILE :: nat where "NOFILE \<equiv> 16"

datatype procstate = UNUSED | EMBRYO | SLEEPING | RUNNABLE | RUNNING | ZOMBIE

record trapframe =
  tf_edi :: u32
  tf_esi :: u32
  tf_ebp :: u32
  tf_ebx :: u32
  tf_edx :: u32
  tf_ecx :: u32
  tf_eax :: u32
  tf_ds :: u16
  tf_es :: u16
  tf_trapno :: u32
  tf_err :: u32
  tf_eip :: u32
  tf_cs :: u16
  tf_eflags :: u32
  tf_esp :: u32
  tf_ss :: u16

record kcontext =
  ctx_edi :: u32
  ctx_esi :: u32
  ctx_ebx :: u32
  ctx_ebp :: u32
  ctx_eip :: string

text \<open>Pointers into tables are indices; \<open>ofile\<close> and \<open>cwd\<close> refer to the file table and the inode cache.\<close>

record proc =
  p_sz :: u32
  p_pgdir :: u32
  p_kstack :: u32
  p_state :: procstate
  p_pid :: nat
  p_parent :: "nat option"
  p_tf :: trapframe
  p_context :: kcontext
  p_chan :: "chan option"
  p_killed :: bool
  p_ofile :: "nat \<Rightarrow> nat option"
  p_cwd :: "nat option"
  p_name :: "byte list"
  p_isthread :: bool
  p_stack :: u32
  p_stacksize :: u32

record procs = vm +
  ptable :: "nat \<Rightarrow> proc"
  nextpid :: nat
  initproc :: "nat option"
  cpu_proc :: "nat option"

abbreviation upd_proc :: "nat \<Rightarrow> (proc \<Rightarrow> proc) \<Rightarrow> 'a procs_scheme \<Rightarrow> 'a procs_scheme" where
  "upd_proc p f s \<equiv> s\<lparr>ptable := (ptable s)(p := f (ptable s p))\<rparr>"

abbreviation curproc :: "'a procs_scheme \<Rightarrow> nat" where
  "curproc s \<equiv> the (cpu_proc s)"

abbreviation myproc :: "'a procs_scheme \<Rightarrow> proc" where
  "myproc s \<equiv> ptable s (curproc s)"

abbreviation mypid :: "'a procs_scheme \<Rightarrow> nat" where
  "mypid s \<equiv> p_pid (myproc s)"

definition wakeup1 :: "chan \<Rightarrow> (nat \<Rightarrow> proc) \<Rightarrow> nat \<Rightarrow> proc" where
  "wakeup1 c m = (\<lambda>i. if i < NPROC \<and> p_state (m i) = SLEEPING \<and> p_chan (m i) = Some c
     then (m i)\<lparr>p_state := RUNNABLE\<rparr> else m i)"

definition wakeup :: "chan \<Rightarrow> 'a procs_scheme \<Rightarrow> 'a procs_scheme" where
  "wakeup c s = s\<lparr>ptable := wakeup1 c (ptable s)\<rparr>"

text \<open>Only the states of processes change.\<close>

lemma wakeup1_fields [simp]:
  "p_pid (wakeup1 c m i) = p_pid (m i)" "p_killed (wakeup1 c m i) = p_killed (m i)" "p_cwd (wakeup1 c m i) = p_cwd (m i)"
  "p_ofile (wakeup1 c m i) = p_ofile (m i)" "p_parent (wakeup1 c m i) = p_parent (m i)" "p_isthread (wakeup1 c m i) = p_isthread (m i)"
  by (simp_all add: wakeup1_def)

definition no_states :: "(nat \<Rightarrow> proc) \<Rightarrow> nat \<Rightarrow> proc" where
  "no_states m = (\<lambda>i. (m i)\<lparr>p_state := UNUSED\<rparr>)"

lemma no_states_fields [simp]:
  "p_pid (no_states m i) = p_pid (m i)" "p_killed (no_states m i) = p_killed (m i)" "p_cwd (no_states m i) = p_cwd (m i)"
  "p_ofile (no_states m i) = p_ofile (m i)"
  by (simp_all add: no_states_def)

lemma wakeup1_no_states [simp]: "no_states (wakeup1 c m) = no_states m"
  by (auto simp: no_states_def wakeup1_def)

lemma wakeup_fields [simp]:
  "cpu_proc (wakeup c s) = cpu_proc s" "p_pid (ptable (wakeup c s) i) = p_pid (ptable s i)"
  by (simp_all add: wakeup_def wakeup1_def)

end
