(* ===== verification/Xv6_Bio.thy ===== *)
theory Xv6_Bio
  imports Xv6_Ptable
begin

text \<open>
  Sleep locks (\<open>sleeplock.c\<close>), the disk in memory (\<open>memide.c\<close>) and the buffer cache (\<open>bio.c\<close>) as one
  process uses them. A process that would sleep gets the error \<open>Blocked\<close>. The cache is shown to
  refine a set of blocks: what a process reads and writes through it, and what reaches the disk.
\<close>

section \<open>Sleep locks\<close>

text \<open>A process is identified by its pid; \<open>c\<close> is the channel of the lock.\<close>

record sleeplock =
  sl_locked :: bool
  sl_pid :: nat

definition initsleeplock :: sleeplock where
  "initsleeplock = \<lparr>sl_locked = False, sl_pid = 0\<rparr>"

definition acquiresleep :: "chan \<Rightarrow> nat \<Rightarrow> sleeplock \<Rightarrow> sleeplock res" where
  "acquiresleep c pid lk =
     (if sl_locked lk then Inl (Blocked c) else Inr \<lparr>sl_locked = True, sl_pid = pid\<rparr>)"

definition releasesleep :: "sleeplock \<Rightarrow> sleeplock" where
  "releasesleep lk = \<lparr>sl_locked = False, sl_pid = 0\<rparr>"

definition holdingsleep :: "nat \<Rightarrow> sleeplock \<Rightarrow> bool" where
  "holdingsleep pid lk \<longleftrightarrow> sl_locked lk \<and> sl_pid lk = pid"

section \<open>Buffers and the disk\<close>

text \<open>
  A block is its bytes by index; only the first \<open>BSIZE\<close> are used. The disk records, next to its
  blocks, the writes it has performed since boot. Buffer \<open>NBUF\<close> is the head of the list of buffers.
\<close>

type_synonym block = "nat \<Rightarrow> byte"

abbreviation BSIZE :: nat where "BSIZE \<equiv> 512"
abbreviation NBUF :: nat where "NBUF \<equiv> 30"
abbreviation head :: nat where "head \<equiv> NBUF"

record buf =
  b_valid :: bool
  b_dirty :: bool
  b_dev :: nat
  b_blockno :: nat
  b_lock :: sleeplock
  b_refcnt :: nat
  b_prev :: nat
  b_next :: nat
  b_data :: block

record bio = procs +
  disk :: "nat \<Rightarrow> block"
  disksize :: nat
  writes :: "(nat \<times> block) list"
  bufs :: "nat \<Rightarrow> buf"

abbreviation upd_buf :: "nat \<Rightarrow> (buf \<Rightarrow> buf) \<Rightarrow> 'a bio_scheme \<Rightarrow> 'a bio_scheme" where
  "upd_buf i f s \<equiv> s\<lparr>bufs := (bufs s)(i := f (bufs s i))\<rparr>"

text \<open>\<open>ideinit\<close> of \<open>memide.c\<close>: the disk is the image that the linker put into the kernel.\<close>

definition ideinit :: "(nat \<Rightarrow> block) \<Rightarrow> nat \<Rightarrow> 'a bio_scheme \<Rightarrow> 'a bio_scheme" where
  "ideinit img_start img_size s = s\<lparr>disk := img_start, disksize := img_size div BSIZE\<rparr>"

definition iderw :: "nat \<Rightarrow> 'a bio_scheme \<Rightarrow> 'a bio_scheme res" where
  "iderw i s =
     (let b = bufs s i
      in if \<not> holdingsleep (mypid s) (b_lock b) then Inl (Panic ''iderw: buf not locked'')
         else if b_valid b \<and> \<not> b_dirty b then Inl (Panic ''iderw: nothing to do'')
         else if b_dev b \<noteq> 1 then Inl (Panic ''iderw: request not for disk 1'')
         else if b_blockno b \<ge> disksize s then Inl (Panic ''iderw: block out of range'')
         else if b_dirty b
         then Inr (s\<lparr>disk := (disk s)(b_blockno b := b_data b),
                    writes := writes s @ [(b_blockno b, b_data b)],
                    bufs := (bufs s)(i := b\<lparr>b_dirty := False, b_valid := True\<rparr>)\<rparr>)
         else Inr (s\<lparr>bufs := (bufs s)(i := b\<lparr>b_data := disk s (b_blockno b), b_valid := True\<rparr>)\<rparr>))"

section \<open>The buffer cache\<close>

text \<open>Putting a buffer behind the head of the list, as \<open>binit\<close> and \<open>brelse\<close> do.\<close>

definition insert_front :: "nat \<Rightarrow> (nat \<Rightarrow> buf) \<Rightarrow> nat \<Rightarrow> buf" where
  "insert_front i m =
     (let m = m(i := (m i)\<lparr>b_next := b_next (m head), b_prev := head\<rparr>);
          m = m(b_next (m head) := (m (b_next (m head)))\<lparr>b_prev := i\<rparr>)
      in m(head := (m head)\<lparr>b_next := i\<rparr>))"

definition binit_one :: "nat \<Rightarrow> (nat \<Rightarrow> buf) \<Rightarrow> nat \<Rightarrow> buf" where
  "binit_one i m = insert_front i (m(i := (m i)\<lparr>b_lock := initsleeplock\<rparr>))"

definition binit :: "'a bio_scheme \<Rightarrow> 'a bio_scheme" where
  "binit s =
     (let m = (bufs s)(head := (bufs s head)\<lparr>b_prev := head, b_next := head\<rparr>)
      in s\<lparr>bufs := fold binit_one [0..<NBUF] m\<rparr>)"

text \<open>
  The two searches of \<open>bget\<close>, along \<open>next\<close> and along \<open>prev\<close>, until they are back at the head. The fuel
  \<open>NBUF + 1\<close> is enough for a list of all the buffers.
\<close>

fun search :: "nat \<Rightarrow> (buf \<Rightarrow> nat) \<Rightarrow> (buf \<Rightarrow> bool) \<Rightarrow> (nat \<Rightarrow> buf) \<Rightarrow> nat \<Rightarrow> nat option res" where
  "search 0 link P m i = Inl Fault"
| "search (Suc fuel) link P m i =
     (if i = head then Inr None
      else if P (m i) then Inr (Some i)
      else search fuel link P m (link (m i)))"

definition lock_buf :: "nat \<Rightarrow> 'a bio_scheme \<Rightarrow> (nat \<times> 'a bio_scheme) res" where
  "lock_buf i s =
     bindR (acquiresleep (''buf'', i) (mypid s) (b_lock (bufs s i))) (\<lambda>lk. Inr (i, upd_buf i (b_lock_update (\<lambda>_. lk)) s))"

definition bget :: "nat \<Rightarrow> nat \<Rightarrow> 'a bio_scheme \<Rightarrow> (nat \<times> 'a bio_scheme) res" where
  "bget dev blockno s =
     bindR (search (NBUF + 1) b_next (\<lambda>b. b_dev b = dev \<and> b_blockno b = blockno) (bufs s) (b_next (bufs s head)))
       (\<lambda>r. case r of
          Some i \<Rightarrow> lock_buf i (upd_buf i (\<lambda>b. b\<lparr>b_refcnt := b_refcnt b + 1\<rparr>) s)
        | None \<Rightarrow>
            bindR (search (NBUF + 1) b_prev (\<lambda>b. b_refcnt b = 0 \<and> \<not> b_dirty b) (bufs s) (b_prev (bufs s head)))
              (\<lambda>r. case r of
                 Some i \<Rightarrow> lock_buf i (upd_buf i (\<lambda>b. b\<lparr>b_dev := dev, b_blockno := blockno, b_valid := False,
                                b_dirty := False, b_refcnt := 1\<rparr>) s)
               | None \<Rightarrow> Inl (Panic ''bget: no buffers'')))"

definition bread :: "nat \<Rightarrow> nat \<Rightarrow> 'a bio_scheme \<Rightarrow> (nat \<times> 'a bio_scheme) res" where
  "bread dev blockno s =
     bindR (bget dev blockno s) (\<lambda>(i, s).
       if \<not> b_valid (bufs s i) then bindR (iderw i s) (\<lambda>s. Inr (i, s)) else Inr (i, s))"

definition bwrite :: "nat \<Rightarrow> 'a bio_scheme \<Rightarrow> 'a bio_scheme res" where
  "bwrite i s =
     (if \<not> holdingsleep (mypid s) (b_lock (bufs s i)) then Inl (Panic ''bwrite'')
      else iderw i (upd_buf i (b_dirty_update (\<lambda>_. True)) s))"

definition brelse :: "nat \<Rightarrow> 'a bio_scheme \<Rightarrow> 'a bio_scheme res" where
  "brelse i s =
     (if \<not> holdingsleep (mypid s) (b_lock (bufs s i)) then Inl (Panic ''brelse'')
      else let s = upd_buf i (\<lambda>b. b\<lparr>b_lock := releasesleep (b_lock b), b_refcnt := b_refcnt b - 1\<rparr>) s;
               s = wakeup (''buf'', i) s;
               m = bufs s; b = m i
           in Inr (if b_refcnt b = 0
                   then let m = m(b_next b := (m (b_next b))\<lparr>b_prev := b_prev b\<rparr>);
                            m = m(b_prev (m i) := (m (b_prev (m i)))\<lparr>b_next := b_next (m i)\<rparr>)
                        in s\<lparr>bufs := insert_front i m\<rparr>
                   else s))"

text \<open>The data of a buffer, as its holder reads and changes it.\<close>

abbreviation bdata :: "nat \<Rightarrow> 'a bio_scheme \<Rightarrow> block" where
  "bdata i s \<equiv> b_data (bufs s i)"

definition bset :: "nat \<Rightarrow> block \<Rightarrow> 'a bio_scheme \<Rightarrow> 'a bio_scheme" where
  "bset i d s = upd_buf i (b_data_update (\<lambda>_. d)) s"

section \<open>The list of buffers\<close>

text \<open>The buffers \<open>xs\<close> are linked both ways between \<open>a\<close> and \<open>z\<close>.\<close>

fun links :: "(nat \<Rightarrow> buf) \<Rightarrow> nat \<Rightarrow> nat list \<Rightarrow> nat \<Rightarrow> bool" where
  "links m a [] z \<longleftrightarrow> b_next (m a) = z \<and> b_prev (m z) = a"
| "links m a (x # xs) z \<longleftrightarrow> b_next (m a) = x \<and> b_prev (m x) = a \<and> links m x xs z"

definition dll :: "(nat \<Rightarrow> buf) \<Rightarrow> nat list \<Rightarrow> bool" where
  "dll m xs \<longleftrightarrow> links m head xs head \<and> distinct xs \<and> head \<notin> set xs"

lemma links_append:
  "links m a (xs @ y # ys) z \<longleftrightarrow> links m a xs y \<and> links m y ys z"
  by (induction xs arbitrary: a) auto

lemma links_next: "links m a xs z \<Longrightarrow> b_next (m a) = (if xs = [] then z else hd xs)"
  by (cases xs) auto

lemma links_prev: "links m a xs z \<Longrightarrow> b_prev (m z) = (if xs = [] then a else last xs)"
  by (induction xs arbitrary: a) auto

lemma links_cong:
  assumes "links m a xs z" "b_next (m' a) = b_next (m a)" "b_prev (m' z) = b_prev (m z)"
    "\<And>x. x \<in> set xs \<Longrightarrow> b_next (m' x) = b_next (m x) \<and> b_prev (m' x) = b_prev (m x)"
  shows "links m' a xs z"
  using assms by (induction xs arbitrary: a) auto

lemma search_next:
  "links m a xs head \<Longrightarrow> head \<notin> set xs \<Longrightarrow> length xs < fuel \<Longrightarrow>
    search fuel b_next P m (b_next (m a)) = Inr (find (\<lambda>i. P (m i)) xs)"
proof (induction xs arbitrary: a fuel)
  case Nil
  then show ?case by (cases fuel) auto
next
  case (Cons x xs)
  then obtain f where "fuel = Suc f" "length xs < f" by (cases fuel) auto
  then show ?case using Cons by auto
qed

lemma search_prev:
  "links m head xs z \<Longrightarrow> head \<notin> set xs \<Longrightarrow> length xs < fuel \<Longrightarrow>
    search fuel b_prev P m (b_prev (m z)) = Inr (find (\<lambda>i. P (m i)) (rev xs))"
proof (induction xs arbitrary: z fuel rule: rev_induct)
  case Nil
  then show ?case by (cases fuel) auto
next
  case (snoc x xs)
  then obtain f where "fuel = Suc f" "length xs < f" by (cases fuel) auto
  then show ?case using snoc by (auto simp: links_append)
qed

lemma insert_front_dll:
  assumes "dll m xs" "i \<noteq> head" "i \<notin> set xs"
  shows "dll (insert_front i m) (i # xs)"
proof (cases xs)
  case Nil
  then show ?thesis using assms by (auto simp: dll_def insert_front_def Let_def)
next
  case (Cons x ys)
  then have l: "b_next (m head) = x" "links m x ys head" "x \<noteq> i" "x \<noteq> head" "head \<notin> set ys" "i \<notin> set ys" "x \<notin> set ys"
    using assms by (auto simp: dll_def)
  have "links (insert_front i m) x ys head"
    by (rule links_cong [OF l(2)]) (use l assms(2) in \<open>auto simp: insert_front_def Let_def\<close>)
  then show ?thesis using assms Cons l by (auto simp: dll_def insert_front_def Let_def)
qed

text \<open>Taking a buffer out of the list.\<close>

definition unlink :: "nat \<Rightarrow> (nat \<Rightarrow> buf) \<Rightarrow> nat \<Rightarrow> buf" where
  "unlink i m =
     (let m = m(b_next (m i) := (m (b_next (m i)))\<lparr>b_prev := b_prev (m i)\<rparr>)
      in m(b_prev (m i) := (m (b_prev (m i)))\<lparr>b_next := b_next (m i)\<rparr>))"

lemma unlink_fields:
  assumes "b_prev (m i) = p" "b_next (m i) = n" "i \<noteq> p" "i \<noteq> n"
  shows "b_next (unlink i m x) = (if x = p then n else b_next (m x))"
    "b_prev (unlink i m x) = (if x = n then p else b_prev (m x))"
  using assms by (auto simp: unlink_def Let_def)

lemma unlink_links:
  assumes "links m a xs i" "links m i ys z" "distinct (xs @ ys)" "i \<notin> set (xs @ ys)" "a \<notin> set (xs @ ys)"
    "z \<notin> set (xs @ ys)" "i \<noteq> a" "i \<noteq> z"
  shows "links (unlink i m) a (xs @ ys) z"
  using assms
proof (induction xs arbitrary: a)
  case Nil
  show ?case
  proof (cases ys)
    case Nil
    then have "b_prev (m i) = a" "b_next (m i) = z"
      using \<open>links m a [] i\<close> \<open>links m i ys z\<close> by simp_all
    then show ?thesis using Nil unlink_fields [of m i a z] \<open>i \<noteq> a\<close> \<open>i \<noteq> z\<close> by simp
  next
    case (Cons y ws)
    then have l: "b_prev (m i) = a" "b_next (m i) = y" "links m y ws z" "i \<noteq> y" "y \<noteq> a" "y \<notin> set ws" "a \<notin> set ws" "y \<noteq> z"
      using Nil.prems by auto
    note f = unlink_fields [of m i a y, OF l(1,2) \<open>i \<noteq> a\<close> l(4)]
    have "links (unlink i m) y ws z"
      by (rule links_cong [OF l(3)]) (use l in \<open>auto simp: f\<close>)
    then show ?thesis using Cons by (simp add: f)
  qed
next
  case (Cons x xs)
  have p: "b_prev (m i) \<in> set (x # xs)" "b_next (m i) \<in> insert z (set ys)"
    using links_prev [OF Cons.prems(1)] links_next [OF Cons.prems(2)] by (auto split: if_splits)
  have "a \<notin> set (x # xs)" "x \<notin> insert z (set ys)" "i \<notin> set (x # xs)" "i \<notin> insert z (set ys)"
    using Cons.prems by simp_all
  with p have ne: "a \<noteq> b_prev (m i)" "x \<noteq> b_next (m i)" "i \<noteq> b_prev (m i)" "i \<noteq> b_next (m i)"
    by metis+
  note f = unlink_fields [of m i "b_prev (m i)" "b_next (m i)", OF refl refl ne(3,4)]
  have "links (unlink i m) x (xs @ ys) z" using Cons.prems by (intro Cons.IH) auto
  then show ?case using Cons.prems(1) f [of a] f [of x] ne(1,2) by simp
qed

text \<open>What \<open>brelse\<close> does to the list: the buffer moves to the front.\<close>

lemma move_to_front:
  assumes "dll m xs" "i \<in> set xs"
  shows "dll (insert_front i (unlink i m)) (i # remove1 i xs)"
proof -
  obtain ys zs where xs: "xs = ys @ i # zs" "i \<notin> set ys" using split_list_first [OF assms(2)] by blast
  then have "links m head ys i" "links m i zs head" "distinct (ys @ zs)" "i \<notin> set (ys @ zs)" "head \<notin> set (ys @ zs)" "i \<noteq> head"
    using assms(1) by (auto simp: dll_def links_append)
  then have "dll (unlink i m) (ys @ zs)" using unlink_links by (auto simp: dll_def)
  moreover have "remove1 i xs = ys @ zs" using xs by (simp add: remove1_append)
  ultimately show ?thesis
    using insert_front_dll \<open>i \<noteq> head\<close> \<open>i \<notin> set (ys @ zs)\<close> by simp
qed

text \<open>The list operations touch nothing but the links.\<close>

definition same_but_links :: "buf \<Rightarrow> buf \<Rightarrow> bool" where
  "same_but_links b c \<longleftrightarrow> (\<exists>p n. c = b\<lparr>b_prev := p, b_next := n\<rparr>)"

lemma same_but_links_refl [simp]: "same_but_links b b"
  unfolding same_but_links_def by (metis buf.surjective buf.update_convs(7,8))

lemma same_but_linksD:
  assumes "same_but_links b c"
  shows "b_valid c = b_valid b" "b_dirty c = b_dirty b" "b_dev c = b_dev b" "b_blockno c = b_blockno b"
    "b_lock c = b_lock b" "b_refcnt c = b_refcnt b" "b_data c = b_data b"
  using assms by (auto simp: same_but_links_def)

lemma insert_front_same: "same_but_links (m x) (insert_front i m x)"
  unfolding same_but_links_def insert_front_def Let_def
  by (intro exI [of _ "b_prev (insert_front i m x)"] exI [of _ "b_next (insert_front i m x)"])
    (simp add: insert_front_def Let_def)

lemma unlink_same: "same_but_links (m x) (unlink i m x)"
  unfolding same_but_links_def
  by (intro exI [of _ "b_prev (unlink i m x)"] exI [of _ "b_next (unlink i m x)"]) (simp add: unlink_def Let_def)

lemma same_but_links_trans: "same_but_links b c \<Longrightarrow> same_but_links c d \<Longrightarrow> same_but_links b d"
  by (fastforce simp: same_but_links_def)

section \<open>What the cache holds\<close>

text \<open>
  Each buffer has a block of its own (buffers of device 0 are unused), the reference count is 1 for a
  locked buffer and 0 for any other (a process that would wait for the buffer does not get as far as
  counting itself), and a buffer that nobody has locked and that is not dirty agrees with the disk.
\<close>

definition buf_of :: "(nat \<Rightarrow> buf) \<Rightarrow> nat \<Rightarrow> nat \<Rightarrow> bool" where
  "buf_of m b i \<longleftrightarrow> i < NBUF \<and> b_dev (m i) = 1 \<and> b_blockno (m i) = b"

definition buf_ok :: "(nat \<Rightarrow> block) \<Rightarrow> buf \<Rightarrow> bool" where
  "buf_ok d c \<longleftrightarrow>
     b_refcnt c = (if sl_locked (b_lock c) then 1 else 0) \<and> (b_dirty c \<longrightarrow> b_valid c) \<and>
     (sl_locked (b_lock c) \<or> b_dirty c \<longrightarrow> b_dev c = 1) \<and>
     (b_dev c = 1 \<and> b_valid c \<and> \<not> b_dirty c \<and> \<not> sl_locked (b_lock c) \<longrightarrow> b_data c = d (b_blockno c))"

definition bufs_ok :: "(nat \<Rightarrow> block) \<Rightarrow> (nat \<Rightarrow> buf) \<Rightarrow> bool" where
  "bufs_ok d m \<longleftrightarrow> (\<forall>i < NBUF. buf_ok d (m i)) \<and> (\<forall>b i j. buf_of m b i \<longrightarrow> buf_of m b j \<longrightarrow> i = j)"

definition bio_inv :: "'a bio_scheme \<Rightarrow> bool" where
  "bio_inv s \<longleftrightarrow> (\<exists>xs. dll (bufs s) xs \<and> set xs = {..<NBUF}) \<and> bufs_ok (disk s) (bufs s)"

text \<open>The contents of block \<open>b\<close> of disk 1 as a process sees it: cached, or else on the disk.\<close>

definition view :: "'a bio_scheme \<Rightarrow> nat \<Rightarrow> block" where
  "view s b =
     (case find (\<lambda>i. b_dev (bufs s i) = 1 \<and> b_blockno (bufs s i) = b \<and> b_valid (bufs s i)) [0..<NBUF] of
        Some i \<Rightarrow> bdata i s | None \<Rightarrow> disk s b)"

text \<open>The blocks whose buffer is locked, the blocks pinned in the cache.\<close>

definition blocks_with :: "(buf \<Rightarrow> bool) \<Rightarrow> (nat \<Rightarrow> buf) \<Rightarrow> nat set" where
  "blocks_with P m = {b. \<exists>i. buf_of m b i \<and> P (m i)}"

abbreviation busy :: "'a bio_scheme \<Rightarrow> nat set" where
  "busy s \<equiv> blocks_with (\<lambda>c. sl_locked (b_lock c)) (bufs s)"

abbreviation pinned :: "'a bio_scheme \<Rightarrow> nat set" where
  "pinned s \<equiv> blocks_with b_dirty (bufs s)"

text \<open>The running process holds buffer \<open>i\<close>, which is that of block \<open>b\<close>.\<close>

definition holds :: "'a bio_scheme \<Rightarrow> nat \<Rightarrow> nat \<Rightarrow> bool" where
  "holds s i b \<longleftrightarrow> buf_of (bufs s) b i \<and> holdingsleep (mypid s) (b_lock (bufs s i)) \<and> b_valid (bufs s i)"

lemma buf_of_unique: "bufs_ok d m \<Longrightarrow> buf_of m b i \<Longrightarrow> buf_of m b j \<Longrightarrow> i = j"
  unfolding bufs_ok_def by blast

lemma buf_okI: "bufs_ok d m \<Longrightarrow> i < NBUF \<Longrightarrow> buf_ok d (m i)"
  unfolding bufs_ok_def by blast

lemma buf_of_upd:
  "buf_of (m(i := c)) b j \<longleftrightarrow> (if j = i then i < NBUF \<and> b_dev c = 1 \<and> b = b_blockno c else buf_of m b j)"
  by (auto simp: buf_of_def)

lemma bufs_ok_upd:
  assumes "bufs_ok d m" "buf_ok d c" "\<And>j. b_dev c = 1 \<Longrightarrow> j \<noteq> i \<Longrightarrow> \<not> buf_of m (b_blockno c) j"
  shows "bufs_ok d (m(i := c))"
proof -
  show ?thesis
    using assms(2) assms(3) buf_okI [OF assms(1)] buf_of_unique [OF assms(1)] unfolding bufs_ok_def buf_of_upd
    by (auto split: if_splits)
qed

lemma view_cached:
  assumes "bufs_ok (disk s) (bufs s)" "buf_of (bufs s) b i" "b_valid (bufs s i)"
  shows "view s b = bdata i s"
proof -
  let ?P = "\<lambda>i. b_dev (bufs s i) = 1 \<and> b_blockno (bufs s i) = b \<and> b_valid (bufs s i)"
  have "find ?P [0..<NBUF] \<noteq> None" using assms(2,3) by (auto simp: find_None_iff buf_of_def)
  then obtain j where j: "find ?P [0..<NBUF] = Some j" by blast
  then have "buf_of (bufs s) b j" by (auto simp: find_Some_iff buf_of_def)
  then have "j = i" using buf_of_unique [OF assms(1)] assms(2) by blast
  then show ?thesis using j by (simp add: view_def)
qed

lemma view_disk:
  assumes "\<And>i. buf_of (bufs s) b i \<Longrightarrow> \<not> b_valid (bufs s i)"
  shows "view s b = disk s b"
proof -
  have "find (\<lambda>i. b_dev (bufs s i) = 1 \<and> b_blockno (bufs s i) = b \<and> b_valid (bufs s i)) [0..<NBUF] = None"
    using assms by (auto simp: find_None_iff buf_of_def)
  then show ?thesis by (simp add: view_def)
qed

text \<open>A block that is neither locked nor pinned is on the disk as it is seen.\<close>

lemma view_clean:
  assumes "bufs_ok (disk s) (bufs s)" "b \<notin> busy s" "b \<notin> pinned s"
  shows "view s b = disk s b"
proof (cases "\<exists>i. buf_of (bufs s) b i \<and> b_valid (bufs s i)")
  case True
  then obtain i where i: "buf_of (bufs s) b i" "b_valid (bufs s i)" by blast
  then have "\<not> sl_locked (b_lock (bufs s i))" "\<not> b_dirty (bufs s i)"
    using assms(2,3) by (auto simp: blocks_with_def)
  then have "bdata i s = disk s b"
    using buf_okI [OF assms(1), of i] i by (simp add: buf_ok_def buf_of_def)
  then show ?thesis using view_cached [OF assms(1) i] by simp
next
  case False
  then show ?thesis using view_disk by blast
qed

lemma blocks_with_upd:
  assumes "bufs_ok d m" "buf_of m b i \<or> (\<forall>j. \<not> buf_of m b j) \<and> (b_dev (m i) = 1 \<longrightarrow> \<not> P (m i))"
    and c: "i < NBUF" "b_dev c = 1" "b_blockno c = b"
  shows "blocks_with P (m(i := c)) = (if P c then insert b (blocks_with P m) else blocks_with P m - {b})"
proof -
  have ne: "buf_of m b j \<Longrightarrow> j = i" for j using assms(2) buf_of_unique [OF assms(1)] by blast
  have other: "buf_of m x i \<Longrightarrow> x \<noteq> b \<Longrightarrow> \<not> P (m i)" for x using assms(2) by (auto simp: buf_of_def)
  have "x \<in> blocks_with P (m(i := c)) \<longleftrightarrow> (if x = b then P c else x \<in> blocks_with P m)" for x
  proof (cases "x = b")
    case True
    then show ?thesis using ne c by (auto simp: blocks_with_def buf_of_upd)
  next
    case False
    then have "(\<exists>j. buf_of (m(i := c)) x j \<and> P ((m(i := c)) j)) \<longleftrightarrow> (\<exists>j. j \<noteq> i \<and> buf_of m x j \<and> P (m j))"
      using c by (auto simp: buf_of_upd)
    also have "\<dots> \<longleftrightarrow> (\<exists>j. buf_of m x j \<and> P (m j))" using other False by metis
    finally show ?thesis using False by (simp add: blocks_with_def)
  qed
  then show ?thesis by (intro set_eqI) (simp split: if_splits)
qed

text \<open>Changing a buffer keeps the view of a block if what it held and what it holds is that view.\<close>

lemma view_upd:
  assumes ok: "bufs_ok (disk s) (bufs s)" "bufs_ok (disk t) (bufs t)"
    and t: "bufs t = (bufs s)(i := c)" "disk t b = disk s b"
    and old: "buf_of (bufs s) b i \<Longrightarrow> b_valid (bufs s i) \<Longrightarrow> buf_of (bufs t) b i \<and> b_valid c \<or> bdata i s = disk s b"
    and new: "buf_of (bufs t) b i \<Longrightarrow> b_valid c \<Longrightarrow> b_data c = view s b"
  shows "view t b = view s b"
proof (cases "\<exists>j. buf_of (bufs t) b j \<and> b_valid (bufs t j)")
  case True
  then obtain j where j: "buf_of (bufs t) b j" "b_valid (bufs t j)" by blast
  then have v: "view t b = bdata j t" using view_cached [OF ok(2)] by blast
  show ?thesis
  proof (cases "j = i")
    case True
    then show ?thesis using v j new by (simp add: t)
  next
    case False
    then have "buf_of (bufs s) b j" "b_valid (bufs s j)" "bdata j t = bdata j s" using j by (simp_all add: t buf_of_def)
    then show ?thesis using v view_cached [OF ok(1)] by simp
  qed
next
  case False
  then have v: "view t b = disk s b" using view_disk [of t b] t by auto
  show ?thesis
  proof (cases "\<exists>j. buf_of (bufs s) b j \<and> b_valid (bufs s j)")
    case True
    then obtain j where j: "buf_of (bufs s) b j" "b_valid (bufs s j)" by blast
    have "j = i"
    proof (rule ccontr)
      assume "j \<noteq> i"
      then have "buf_of (bufs t) b j \<and> b_valid (bufs t j)" using j by (simp add: t buf_of_def)
      then show False using False by blast
    qed
    then show ?thesis using v j old view_cached [OF ok(1) j] False by (auto simp: t)
  next
    case False
    then have "view s b = disk s b" by (intro view_disk) blast
    then show ?thesis using v by simp
  qed
qed

section \<open>Reading a block\<close>

lemma dll_cong:
  assumes "dll m xs" "\<And>x. b_next (m' x) = b_next (m x) \<and> b_prev (m' x) = b_prev (m x)"
  shows "dll m' xs"
  using assms links_cong [of m head xs head m'] by (auto simp: dll_def)

lemma find_unique:
  assumes "i \<in> set xs" "P i" "\<And>j. j \<in> set xs \<Longrightarrow> P j \<Longrightarrow> j = i"
  shows "find P xs = Some i"
proof -
  have "find P xs \<noteq> None" using assms(1,2) by (auto simp: find_None_iff)
  then obtain j where "find P xs = Some j" by blast
  moreover from this have "j \<in> set xs \<and> P j" by (auto simp: find_Some_iff)
  ultimately show ?thesis using assms(3) by blast
qed

lemma bget_search:
  assumes "bio_inv s"
  obtains xs where "set xs = {..<NBUF}"
    "search (NBUF + 1) b_next P (bufs s) (b_next (bufs s head)) = Inr (find (\<lambda>i. P (bufs s i)) xs)"
    "search (NBUF + 1) b_prev Q (bufs s) (b_prev (bufs s head)) = Inr (find (\<lambda>i. Q (bufs s i)) (rev xs))"
proof -
  obtain xs where xs: "dll (bufs s) xs" "set xs = {..<NBUF}" using assms unfolding bio_inv_def by blast
  then have "length xs = NBUF" using distinct_card [of xs] by (simp add: dll_def)
  then show thesis using that [of xs] xs search_next search_prev by (simp add: dll_def del: search.simps)
qed

text \<open>
  The buffer \<open>c\<close> that \<open>bread\<close> returns for block \<open>b\<close> in place \<open>i\<close>: the one that caches the block, or
  else one that was not in use.
\<close>

definition fetched :: "'a bio_scheme \<Rightarrow> nat \<Rightarrow> nat \<Rightarrow> buf \<Rightarrow> bool" where
  "fetched s b i c \<longleftrightarrow>
     i < NBUF \<and> \<not> sl_locked (b_lock (bufs s i)) \<and>
     (buf_of (bufs s) b i \<or> (\<forall>j. \<not> buf_of (bufs s) b j) \<and> b_refcnt (bufs s i) = 0 \<and> \<not> b_dirty (bufs s i)) \<and>
     b_dev c = 1 \<and> b_blockno c = b \<and> b_valid c \<and> b_lock c = \<lparr>sl_locked = True, sl_pid = mypid s\<rparr> \<and>
     b_refcnt c = 1 \<and> b_data c = view s b \<and>
     b_dirty c = b_dirty (bufs s i) \<and>
     b_next c = b_next (bufs s i) \<and> b_prev c = b_prev (bufs s i)"

abbreviation is_block :: "nat \<Rightarrow> buf \<Rightarrow> bool" where
  "is_block b c \<equiv> b_dev c = 1 \<and> b_blockno c = b"

abbreviation unused :: "buf \<Rightarrow> bool" where
  "unused c \<equiv> b_refcnt c = 0 \<and> \<not> b_dirty c"

lemma bread_cached:
  assumes "bio_inv s" "buf_of (bufs s) b i" "\<not> sl_locked (b_lock (bufs s i))" "b < disksize s"
  shows "\<exists>c. bread 1 b s = Inr (i, s\<lparr>bufs := (bufs s)(i := c)\<rparr>) \<and> fetched s b i c"
proof -
  have ok: "bufs_ok (disk s) (bufs s)" using assms(1) unfolding bio_inv_def by simp
  obtain xs where xs: "set xs = {..<NBUF}"
    "search (NBUF + 1) b_next (is_block b) (bufs s) (b_next (bufs s head)) = Inr (find (\<lambda>i. is_block b (bufs s i)) xs)"
    "search (NBUF + 1) b_prev unused (bufs s) (b_prev (bufs s head)) = Inr (find (\<lambda>i. unused (bufs s i)) (rev xs))"
    using bget_search [OF assms(1)] .
  have rc: "b_refcnt (bufs s i) = 0"
    using buf_okI [OF ok, of i] assms(2,3) by (simp add: buf_ok_def buf_of_def)
  have "find (\<lambda>i. is_block b (bufs s i)) xs = Some i"
  proof (rule find_unique)
    show "j = i" if "j \<in> set xs" "is_block b (bufs s j)" for j
      using that xs(1) buf_of_unique [OF ok _ assms(2), of j] by (simp add: buf_of_def)
  qed (use assms(2) xs(1) in \<open>simp_all add: buf_of_def\<close>)
  then have g: "bget 1 b s = Inr (i, s\<lparr>bufs := (bufs s)(i := (bufs s i)\<lparr>b_refcnt := 1,
      b_lock := \<lparr>sl_locked = True, sl_pid = mypid s\<rparr>\<rparr>)\<rparr>)"
    using xs(2) assms(3) rc by (simp add: bget_def lock_buf_def acquiresleep_def del: search.simps)
  show ?thesis
  proof (cases "b_valid (bufs s i)")
    case True
    then show ?thesis
      using g assms(2,3) view_cached [OF ok assms(2)]
      by (intro exI [of _ "(bufs s i)\<lparr>b_refcnt := 1,
            b_lock := \<lparr>sl_locked = True, sl_pid = mypid s\<rparr>\<rparr>"])
        (simp add: bread_def fetched_def buf_of_def)
  next
    case False
    have i: "i < NBUF" "b_dev (bufs s i) = 1" "b_blockno (bufs s i) = b" using assms(2) by (simp_all add: buf_of_def)
    have "\<not> b_dirty (bufs s i)" using buf_okI [OF ok i(1)] False by (simp add: buf_ok_def)
    moreover have "view s b = disk s b"
      using view_disk [of s b] buf_of_unique [OF ok assms(2)] False by blast
    ultimately show ?thesis
      using g False assms(3,4) i
      by (intro exI [of _ "(bufs s i)\<lparr>b_refcnt := 1,
            b_lock := \<lparr>sl_locked = True, sl_pid = mypid s\<rparr>, b_data := disk s b, b_valid := True\<rparr>"])
        (simp add: bread_def iderw_def fetched_def buf_of_def holdingsleep_def)
  qed
qed

lemma unused_exists:
  assumes "bufs_ok (disk s) (bufs s)" "card (busy s \<union> pinned s) < NBUF"
  shows "\<exists>i < NBUF. unused (bufs s i)"
proof (rule ccontr)
  let ?f = "\<lambda>i. b_blockno (bufs s i)"
  assume a: "\<not> ?thesis"
  have of: "buf_of (bufs s) (?f i) i" "sl_locked (b_lock (bufs s i)) \<or> b_dirty (bufs s i)" if "i < NBUF" for i
    using a buf_okI [OF assms(1) that] that by (auto simp: buf_ok_def buf_of_def split: if_splits)
  have "inj_on ?f {..<NBUF}"
  proof (rule inj_onI)
    fix i j
    assume "i \<in> {..<NBUF}" "j \<in> {..<NBUF}" "?f i = ?f j"
    then have "buf_of (bufs s) (?f i) i" "buf_of (bufs s) (?f i) j" using of(1) [of i] of(1) [of j] by simp_all
    then show "i = j" by (rule buf_of_unique [OF assms(1)])
  qed
  moreover have "?f ` {..<NBUF} \<subseteq> busy s \<union> pinned s"
    using of by (auto simp: blocks_with_def)
  moreover have "finite (busy s \<union> pinned s)"
    by (rule finite_subset [of _ "?f ` {..<NBUF}"]) (auto simp: blocks_with_def buf_of_def)
  ultimately show False using card_inj_on_le [of ?f "{..<NBUF}" "busy s \<union> pinned s"] assms(2) by simp
qed

lemma bread_new:
  assumes "bio_inv s" "\<And>i. \<not> buf_of (bufs s) b i" "card (busy s \<union> pinned s) < NBUF" "b < disksize s"
  shows "\<exists>i c. bread 1 b s = Inr (i, s\<lparr>bufs := (bufs s)(i := c)\<rparr>) \<and> fetched s b i c"
proof -
  have ok: "bufs_ok (disk s) (bufs s)" using assms(1) unfolding bio_inv_def by simp
  obtain xs where xs: "set xs = {..<NBUF}"
    "search (NBUF + 1) b_next (is_block b) (bufs s) (b_next (bufs s head)) = Inr (find (\<lambda>i. is_block b (bufs s i)) xs)"
    "search (NBUF + 1) b_prev unused (bufs s) (b_prev (bufs s head)) = Inr (find (\<lambda>i. unused (bufs s i)) (rev xs))"
    using bget_search [OF assms(1)] .
  have none: "find (\<lambda>i. is_block b (bufs s i)) xs = None"
    using assms(2) xs(1) by (simp add: find_None_iff buf_of_def)
  have "find (\<lambda>i. unused (bufs s i)) (rev xs) \<noteq> None"
    using unused_exists [OF ok assms(3)] xs(1) by (auto simp: find_None_iff)
  then obtain i where i: "find (\<lambda>i. unused (bufs s i)) (rev xs) = Some i" by blast
  then have "i \<in> set (rev xs) \<and> unused (bufs s i)"
    unfolding find_Some_iff by (metis nth_mem)
  then have f: "i < NBUF" "b_refcnt (bufs s i) = 0" "\<not> b_dirty (bufs s i)" using xs(1) by simp_all
  then have l: "\<not> sl_locked (b_lock (bufs s i))" using buf_okI [OF ok f(1)] by (simp add: buf_ok_def split: if_splits)
  let ?c = "(bufs s i)\<lparr>b_dev := 1, b_blockno := b, b_dirty := False, b_refcnt := 1,
      b_lock := \<lparr>sl_locked = True, sl_pid = mypid s\<rparr>, b_data := disk s b, b_valid := True\<rparr>"
  have "bget 1 b s = Inr (i, s\<lparr>bufs := (bufs s)(i := (bufs s i)\<lparr>b_dev := 1, b_blockno := b, b_valid := False,
      b_dirty := False, b_refcnt := 1, b_lock := \<lparr>sl_locked = True, sl_pid = mypid s\<rparr>\<rparr>)\<rparr>)"
    using xs(2,3) none i l by (simp add: bget_def lock_buf_def acquiresleep_def del: search.simps)
  then have "bread 1 b s = Inr (i, s\<lparr>bufs := (bufs s)(i := ?c)\<rparr>)"
    using f(1) assms(4) by (simp add: bread_def iderw_def holdingsleep_def)
  moreover have "fetched s b i ?c"
    using f l assms(2) view_disk [of s b] unfolding fetched_def by simp
  ultimately show ?thesis by blast
qed

text \<open>What follows for the blocks when a buffer has been fetched.\<close>

lemma fetched_facts:
  assumes "bio_inv s" "fetched s b i c" "t = s\<lparr>bufs := (bufs s)(i := c)\<rparr>"
  shows "bio_inv t" "view t = view s" "busy t = insert b (busy s)" "pinned t = pinned s"
    "holds t i b" "bdata i t = view s b"
    "\<And>j x. holds s j x \<Longrightarrow> j \<noteq> i \<and> holds t j x" "\<And>j. j \<noteq> i \<Longrightarrow> bufs t j = bufs s j"
proof -
  have ok: "bufs_ok (disk s) (bufs s)" using assms(1) unfolding bio_inv_def by simp
  have f: "i < NBUF" "\<not> sl_locked (b_lock (bufs s i))" "b_dev c = 1" "b_blockno c = b" "b_valid c"
    "b_lock c = \<lparr>sl_locked = True, sl_pid = mypid s\<rparr>" "b_refcnt c = 1" "b_data c = view s b"
    "b_dirty c = b_dirty (bufs s i)" "b_next c = b_next (bufs s i)" "b_prev c = b_prev (bufs s i)"
    and old: "buf_of (bufs s) b i \<or> (\<forall>j. \<not> buf_of (bufs s) b j) \<and> b_refcnt (bufs s i) = 0 \<and> \<not> b_dirty (bufs s i)"
    using assms(2) unfolding fetched_def by auto
  have t: "bufs t = (bufs s)(i := c)" "disk t = disk s" "mypid t = mypid s" by (simp_all add: assms(3))
  have of_t: "buf_of (bufs t) x j \<longleftrightarrow> (if j = i then x = b else buf_of (bufs s) x j)" for x j
    using f by (auto simp: t buf_of_def)
  have ne: "buf_of (bufs s) b j \<Longrightarrow> j = i" for j using old buf_of_unique [OF ok] by blast
  have "bufs_ok (disk s) ((bufs s)(i := c))"
    by (rule bufs_ok_upd [OF ok]) (use f ne buf_okI [OF ok f(1)] in \<open>auto simp: buf_ok_def\<close>)
  then have ok': "bufs_ok (disk t) (bufs t)" by (simp add: t)
  obtain xs where "dll (bufs s) xs" "set xs = {..<NBUF}" using assms(1) unfolding bio_inv_def by blast
  then have "dll (bufs t) xs" using f dll_cong [of "bufs s" xs "bufs t"] by (simp add: t)
  then show "bio_inv t" using ok' \<open>set xs = _\<close> unfolding bio_inv_def by blast
  show "holds t i b" using f by (simp add: holds_def buf_of_def t holdingsleep_def)
  show "bdata i t = view s b" using f by (simp add: t)
  show "\<And>j. j \<noteq> i \<Longrightarrow> bufs t j = bufs s j" by (simp add: t)
  show "\<And>j x. holds s j x \<Longrightarrow> j \<noteq> i \<and> holds t j x"
    using f(2) by (auto simp: holds_def holdingsleep_def buf_of_def t)
  have other: "x \<noteq> b \<Longrightarrow> buf_of (bufs s) x i \<Longrightarrow> \<not> b_dirty (bufs s i)" for x
    using old by (auto simp: buf_of_def)
  show "busy t = insert b (busy s)"
    unfolding t(1) by (subst blocks_with_upd [OF ok]) (use f old in auto)
  have "b \<in> pinned s \<longleftrightarrow> b_dirty (bufs s i)"
    using old ne by (auto simp: blocks_with_def)
  then show "pinned t = pinned s"
    unfolding t(1) by (subst blocks_with_upd [OF ok]) (use f old in auto)
  show "view t = view s"
  proof
    fix x
    have *: "buf_of (bufs t) x i \<longleftrightarrow> x = b" using f by (simp add: t buf_of_upd)
    have "bdata i s = disk s x" if "x \<noteq> b" "buf_of (bufs s) x i" "b_valid (bufs s i)"
      using other [of x] buf_okI [OF ok f(1)] that f(2) by (simp add: buf_ok_def buf_of_def)
    then show "view t x = view s x"
      by (intro view_upd [OF ok ok' t(1)]) (use f * in \<open>auto simp: t\<close>)
  qed
qed


section \<open>The cache as a set of blocks\<close>

text \<open>
  The abstract device that the cache implements: what is seen of each block and what the disk has, the
  blocks that are locked and pinned, and the writes performed so far.
\<close>

record bdev =
  dv_view :: "nat \<Rightarrow> block"
  dv_disk :: "nat \<Rightarrow> block"
  dv_size :: nat
  dv_busy :: "nat set"
  dv_pinned :: "nat set"
  dv_writes :: "(nat \<times> block) list"

definition bdev_of :: "'a bio_scheme \<Rightarrow> bdev" where
  "bdev_of s = \<lparr>dv_view = view s, dv_disk = disk s, dv_size = disksize s, dv_busy = busy s,
     dv_pinned = pinned s, dv_writes = writes s\<rparr>"

text \<open>The rest of the state, which the operations on blocks leave alone.\<close>

definition off_bio :: "'a bio_scheme \<Rightarrow> 'a bio_scheme" where
  "off_bio s = s\<lparr>bufs := (\<lambda>_. undefined), disk := (\<lambda>_ _. 0), writes := [], ptable := no_states (ptable s)\<rparr>"

lemma pinned_iff:
  assumes "bio_inv s" "buf_of (bufs s) b i"
  shows "b \<in> pinned s \<longleftrightarrow> b_dirty (bufs s i)"
proof -
  have "buf_of (bufs s) b j \<Longrightarrow> j = i" for j
    using assms buf_of_unique unfolding bio_inv_def by blast
  then show ?thesis using assms(2) unfolding blocks_with_def by blast
qed

lemma holds_facts:
  assumes "bio_inv s" "holds s i b"
  shows "i < NBUF" "buf_of (bufs s) b i" "bdata i s = view s b" "b \<in> busy s" "buf_ok (disk s) (bufs s i)"
    "b_refcnt (bufs s i) = 1" "b_valid (bufs s i)" "b_dev (bufs s i) = 1" "b_blockno (bufs s i) = b"
    "sl_locked (b_lock (bufs s i))"
proof -
  have ok: "bufs_ok (disk s) (bufs s)" using assms(1) unfolding bio_inv_def by simp
  show i: "i < NBUF" "buf_of (bufs s) b i" "b_dev (bufs s i) = 1" "b_blockno (bufs s i) = b" "b_valid (bufs s i)"
    "sl_locked (b_lock (bufs s i))"
    using assms(2) by (simp_all add: holds_def buf_of_def holdingsleep_def)
  then show "bdata i s = view s b" using view_cached [OF ok] by simp
  show "b \<in> busy s" using i by (auto simp: blocks_with_def)
  show "buf_ok (disk s) (bufs s i)" by (rule buf_okI [OF ok i(1)])
  then show "b_refcnt (bufs s i) = 1" using i(6) by (simp add: buf_ok_def)
qed

text \<open>A held buffer is changed, and with it perhaps its block on the disk.\<close>

lemma held_upd:
  assumes "bio_inv s" "holds s i b" "bufs t = (bufs s)(i := c)" "mypid t = mypid s"
    and c: "b_dev c = 1" "b_blockno c = b" "b_valid c" "buf_ok (disk t) c"
      "b_next c = b_next (bufs s i)" "b_prev c = b_prev (bufs s i)"
    and d: "\<And>x. x \<noteq> b \<Longrightarrow> disk t x = disk s x"
  shows "bio_inv t" "view t = (view s)(b := b_data c)"
    "blocks_with P (bufs t) = (if P c then insert b (blocks_with P (bufs s)) else blocks_with P (bufs s) - {b})"
    "b_lock c = b_lock (bufs s i) \<Longrightarrow> holds t = holds s"
    "holds s j x \<Longrightarrow> x \<noteq> b \<Longrightarrow> holds t j x"
proof -
  note i = holds_facts [OF assms(1,2)]
  have ok: "bufs_ok (disk s) (bufs s)" using assms(1) unfolding bio_inv_def by simp
  have of: "buf_of (bufs t) = buf_of (bufs s)"
    using c i by (intro ext) (simp add: assms(3) buf_of_upd, auto simp: buf_of_def)
  have "buf_ok (disk t) (bufs t j)" if "j < NBUF" for j
  proof (cases "j = i")
    case True
    then show ?thesis using c by (simp add: assms(3))
  next
    case False
    then have "b_dev (bufs s j) = 1 \<Longrightarrow> b_blockno (bufs s j) \<noteq> b"
      using buf_of_unique [OF ok i(2), of j] that by (auto simp: buf_of_def)
    then show ?thesis using buf_okI [OF ok that] False d by (auto simp: assms(3) buf_ok_def)
  qed
  then have ok': "bufs_ok (disk t) (bufs t)"
    using buf_of_unique [OF ok] unfolding bufs_ok_def of by blast
  obtain xs where "dll (bufs s) xs" "set xs = {..<NBUF}" using assms(1) unfolding bio_inv_def by blast
  then have "dll (bufs t) xs" using c dll_cong [of "bufs s" xs "bufs t"] by (simp add: assms(3))
  then show "bio_inv t" using ok' \<open>set xs = _\<close> unfolding bio_inv_def by blast
  show "view t = (view s)(b := b_data c)"
  proof
    fix x
    show "view t x = ((view s)(b := b_data c)) x"
    proof (cases "x = b")
      case True
      have "buf_of (bufs t) b i" using i(2) of by simp
      then show ?thesis using view_cached [OF ok', of b i] True c(3) by (simp add: assms(3))
    next
      case False
      then have "\<not> buf_of (bufs s) x i" using i(9) by (auto simp: buf_of_def)
      then have "view t x = view s x" by (intro view_upd [OF ok ok' assms(3)]) (use of d False in auto)
      then show ?thesis using False by simp
    qed
  qed
  show "blocks_with P (bufs t) = (if P c then insert b (blocks_with P (bufs s)) else blocks_with P (bufs s) - {b})"
    unfolding assms(3) by (rule blocks_with_upd [OF ok]) (use i c in auto)
  show "holds t = holds s" if "b_lock c = b_lock (bufs s i)"
    using that c i by (intro ext) (auto simp: holds_def of [unfolded assms(3)] assms(3,4))
  show "holds t j x" if "holds s j x" "x \<noteq> b"
  proof -
    have "j \<noteq> i" using that holds_facts(9) [OF assms(1) that(1)] i(9) by blast
    then show ?thesis using that by (simp add: holds_def of [unfolded assms(3)] assms(3,4))
  qed
qed

text \<open>Only the links change.\<close>

lemma relinked:
  assumes "bio_inv s" "\<And>x. same_but_links (bufs s x) (bufs t x)" "dll (bufs t) xs" "set xs = {..<NBUF}"
    "disk t = disk s" "mypid t = mypid s"
  shows "bio_inv t" "view t = view s" "busy t = busy s" "pinned t = pinned s" "holds t = holds s"
proof -
  note f = same_but_linksD [OF assms(2)]
  have of: "buf_of (bufs t) = buf_of (bufs s)" by (intro ext) (simp add: buf_of_def f)
  have "buf_ok (disk t) (bufs t i) = buf_ok (disk s) (bufs s i)" for i by (simp add: buf_ok_def f assms)
  then have "bufs_ok (disk t) (bufs t)" using assms(1) by (simp add: bio_inv_def bufs_ok_def of)
  then show "bio_inv t" using assms(3,4) unfolding bio_inv_def by blast
  show "view t = view s" by (intro ext) (simp add: view_def f assms(5) split: option.split)
  show "busy t = busy s" "pinned t = pinned s" by (simp_all add: blocks_with_def of f)
  show "holds t = holds s" by (intro ext) (simp add: holds_def of f assms(6))
qed


text \<open>Each operation of the cache is the corresponding one on the abstract device.\<close>

lemma bread_abs:
  assumes "bio_inv s" "b \<notin> busy s" "b < disksize s" "b \<in> pinned s \<or> card (busy s \<union> pinned s) < NBUF"
  shows "\<exists>i t. bread 1 b s = Inr (i, t) \<and> bio_inv t \<and> off_bio t = off_bio s \<and>
    bdev_of t = (bdev_of s)\<lparr>dv_busy := insert b (busy s)\<rparr> \<and> holds t i b \<and> (\<forall>j x. holds s j x \<longrightarrow> holds t j x)"
proof -
  have "\<exists>i c. bread 1 b s = Inr (i, s\<lparr>bufs := (bufs s)(i := c)\<rparr>) \<and> fetched s b i c"
  proof (cases "\<exists>i. buf_of (bufs s) b i")
    case True
    then obtain i where "buf_of (bufs s) b i" by blast
    moreover from this have "\<not> sl_locked (b_lock (bufs s i))" using assms(2) by (auto simp: blocks_with_def)
    ultimately show ?thesis using bread_cached [OF assms(1)] assms(3) by blast
  next
    case False
    then have "b \<notin> pinned s" by (auto simp: blocks_with_def)
    then show ?thesis using bread_new [OF assms(1)] False assms(3,4) by blast
  qed
  then obtain i c where b: "bread 1 b s = Inr (i, s\<lparr>bufs := (bufs s)(i := c)\<rparr>)" and f: "fetched s b i c" by blast
  note g = fetched_facts [OF assms(1) f refl]
  show ?thesis
    using b g by (intro exI [of _ i] exI [of _ "s\<lparr>bufs := (bufs s)(i := c)\<rparr>"]) (simp add: bdev_of_def off_bio_def)
qed

lemma bset_abs:
  assumes "bio_inv s" "holds s i b"
  shows "bio_inv (bset i d s) \<and> off_bio (bset i d s) = off_bio s \<and> holds (bset i d s) = holds s \<and>
    bdev_of (bset i d s) = (bdev_of s)\<lparr>dv_view := (view s)(b := d)\<rparr>"
proof -
  let ?c = "(bufs s i)\<lparr>b_data := d\<rparr>"
  note h = holds_facts [OF assms]
  have c: "b_dev ?c = 1" "b_blockno ?c = b" "b_valid ?c" "buf_ok (disk (bset i d s)) ?c" "b_next ?c = b_next (bufs s i)"
    "b_prev ?c = b_prev (bufs s i)"
    using h(5-10) by (simp_all add: buf_ok_def bset_def)
  have t: "bufs (bset i d s) = (bufs s)(i := ?c)" "mypid (bset i d s) = mypid s" by (simp_all add: bset_def)
  note u = held_upd [OF assms t c]
  have "b \<in> pinned s \<longleftrightarrow> b_dirty (bufs s i)" by (rule pinned_iff [OF assms(1) h(2)])
  then have "pinned (bset i d s) = pinned s" "busy (bset i d s) = busy s"
    using u(3) [of b_dirty] u(3) [of "\<lambda>c. sl_locked (b_lock c)"] h(4,10) by (auto simp: bset_def)
  then show ?thesis using u(1,2,4) by (simp add: bset_def bdev_of_def off_bio_def)
qed

lemma bwrite_abs:
  assumes "bio_inv s" "holds s i b" "b < disksize s"
  shows "\<exists>t. bwrite i s = Inr t \<and> bio_inv t \<and> off_bio t = off_bio s \<and> holds t = holds s \<and>
    bdev_of t = (bdev_of s)\<lparr>dv_disk := (disk s)(b := view s b), dv_pinned := pinned s - {b},
      dv_writes := writes s @ [(b, view s b)]\<rparr>"
proof -
  note h = holds_facts [OF assms(1,2)]
  let ?c = "(bufs s i)\<lparr>b_dirty := False, b_valid := True\<rparr>"
  let ?t = "s\<lparr>disk := (disk s)(b := view s b), writes := writes s @ [(b, view s b)], bufs := (bufs s)(i := ?c)\<rparr>"
  have w: "bwrite i s = Inr ?t"
    using assms(2,3) h by (simp add: bwrite_def iderw_def holds_def holdingsleep_def)
  have c: "b_dev ?c = 1" "b_blockno ?c = b" "b_valid ?c" "buf_ok (disk ?t) ?c" "b_next ?c = b_next (bufs s i)"
    "b_prev ?c = b_prev (bufs s i)"
    using h(5-10) by (simp_all add: buf_ok_def)
  note u = held_upd [OF assms(1,2), of ?t ?c, OF _ _ c]
  have "view ?t = view s" using u(2) h(3) by (simp add: fun_eq_iff)
  moreover have "pinned ?t = pinned s - {b}" "busy ?t = busy s"
    using u(3) [of b_dirty] u(3) [of "\<lambda>c. sl_locked (b_lock c)"] h(4,10) by auto
  moreover have "bio_inv ?t" "holds ?t = holds s" using u(1,4) by simp_all
  ultimately show ?thesis using w by (simp add: bdev_of_def off_bio_def)
qed


lemma brelse_abs:
  assumes "bio_inv s" "holds s i b" "b \<in> pinned s \<or> view s b = disk s b"
  shows "\<exists>t. brelse i s = Inr t \<and> bio_inv t \<and> off_bio t = off_bio s \<and>
    bdev_of t = (bdev_of s)\<lparr>dv_busy := busy s - {b}\<rparr> \<and> (\<forall>j x. holds s j x \<longrightarrow> x \<noteq> b \<longrightarrow> holds t j x)"
proof -
  note h = holds_facts [OF assms(1,2)]
  let ?c = "(bufs s i)\<lparr>b_lock := releasesleep (b_lock (bufs s i)), b_refcnt := 0\<rparr>"
  let ?s = "s\<lparr>ptable := wakeup1 (''buf'', i) (ptable s), bufs := (bufs s)(i := ?c)\<rparr>"
  let ?t = "?s\<lparr>bufs := insert_front i (unlink i (bufs ?s))\<rparr>"
  have d: "b \<in> pinned s \<longleftrightarrow> b_dirty (bufs s i)" by (rule pinned_iff [OF assms(1) h(2)])
  have w: "brelse i s = Inr ?t"
    using assms(2) h(6) by (simp add: brelse_def holds_def unlink_def wakeup_def Let_def)
  have c: "b_dev ?c = 1" "b_blockno ?c = b" "b_valid ?c" "buf_ok (disk ?s) ?c" "b_next ?c = b_next (bufs s i)"
    "b_prev ?c = b_prev (bufs s i)"
    using h(3,5-10) assms(3) d by (auto simp: buf_ok_def releasesleep_def)
  note u = held_upd [OF assms(1,2), of ?s ?c, OF _ _ c]
  have inv: "bio_inv ?s" using u(1) by simp
  then obtain xs where xs: "dll (bufs ?s) xs" "set xs = {..<NBUF}" unfolding bio_inv_def by blast
  then have "dll (bufs ?t) (i # remove1 i xs)" "set (i # remove1 i xs) = {..<NBUF}"
    using move_to_front [OF xs(1), of i] h(1) by (auto simp: dll_def)
  moreover have "same_but_links (bufs ?s x) (bufs ?t x)" for x
    using same_but_links_trans [OF unlink_same [of "bufs ?s" x i] insert_front_same [of "unlink i (bufs ?s)" x i]]
    by simp
  ultimately have r: "bio_inv ?t" "view ?t = view ?s" "busy ?t = busy ?s" "pinned ?t = pinned ?s" "holds ?t = holds ?s"
    using relinked [OF inv, of ?t "i # remove1 i xs"] by simp_all
  have "view ?s = view s" using u(2) h(3) by (simp add: fun_eq_iff)
  moreover have "pinned ?s = pinned s" "busy ?s = busy s - {b}"
    using u(3) [of b_dirty] u(3) [of "\<lambda>c. sl_locked (b_lock c)"] d by (auto simp: releasesleep_def)
  moreover have "holds s j x \<Longrightarrow> x \<noteq> b \<Longrightarrow> holds ?s j x" for j x using u(5) by simp
  ultimately have "bio_inv ?t" "bdev_of ?t = (bdev_of s)\<lparr>dv_busy := busy s - {b}\<rparr>"
    "\<forall>j x. holds s j x \<longrightarrow> x \<noteq> b \<longrightarrow> holds ?t j x" "off_bio ?t = off_bio s"
    using r by (simp_all add: bdev_of_def off_bio_def)
  then show ?thesis using w by blast
qed


section \<open>The interface of the cache\<close>

text \<open>
  What the log and the file system rely on. \<open>dv\<close> is the abstract device, \<open>rest\<close> the state that the
  operations leave alone, \<open>own s i b\<close> says that the running process holds buffer \<open>i\<close>, of block \<open>b\<close>, and
  \<open>cap\<close> is the number of buffers.
\<close>

text \<open>
  A block can be read: it is not locked, and it is cached or there is a free buffer. A block is
  written through to the disk.
\<close>

definition avail :: "nat \<Rightarrow> bdev \<Rightarrow> nat \<Rightarrow> bool" where
  "avail cap d b \<longleftrightarrow> b \<notin> dv_busy d \<and> b < dv_size d \<and> (b \<in> dv_pinned d \<or> card (dv_busy d \<union> dv_pinned d) < cap)"

definition store :: "nat \<Rightarrow> block \<Rightarrow> bdev \<Rightarrow> bdev" where
  "store b x d = d\<lparr>dv_view := (dv_view d)(b := x), dv_disk := (dv_disk d)(b := x), dv_pinned := dv_pinned d - {b},
     dv_writes := dv_writes d @ [(b, x)]\<rparr>"

locale block_cache =
  fixes read :: "nat \<Rightarrow> 's \<Rightarrow> (nat \<times> 's) res"
    and put :: "nat \<Rightarrow> block \<Rightarrow> 's \<Rightarrow> 's"
    and wr :: "nat \<Rightarrow> 's \<Rightarrow> 's res"
    and rel :: "nat \<Rightarrow> 's \<Rightarrow> 's res"
    and data :: "nat \<Rightarrow> 's \<Rightarrow> block"
    and inv :: "'s \<Rightarrow> bool"
    and dv :: "'s \<Rightarrow> bdev"
    and rest :: "'s \<Rightarrow> 'r"
    and own :: "'s \<Rightarrow> nat \<Rightarrow> nat \<Rightarrow> bool"
    and cap :: nat
  assumes read_ok: "inv s \<Longrightarrow> avail cap (dv s) b \<Longrightarrow>
        runs (read b s) (\<lambda>(i, t). inv t \<and> rest t = rest s \<and> own t i b \<and> (\<forall>j x. own s j x \<longrightarrow> own t j x) \<and>
          dv t = (dv s)\<lparr>dv_busy := insert b (dv_busy (dv s))\<rparr>)"
    and put_ok: "inv s \<Longrightarrow> own s i b \<Longrightarrow>
        inv (put i d s) \<and> rest (put i d s) = rest s \<and> own (put i d s) = own s \<and>
        dv (put i d s) = (dv s)\<lparr>dv_view := (dv_view (dv s))(b := d)\<rparr>"
    and wr_ok: "inv s \<Longrightarrow> own s i b \<Longrightarrow> b < dv_size (dv s) \<Longrightarrow>
        runs (wr i s) (\<lambda>t. inv t \<and> rest t = rest s \<and> own t = own s \<and>
          dv t = (dv s)\<lparr>dv_disk := (dv_disk (dv s))(b := dv_view (dv s) b), dv_pinned := dv_pinned (dv s) - {b},
            dv_writes := dv_writes (dv s) @ [(b, dv_view (dv s) b)]\<rparr>)"
    and rel_ok: "inv s \<Longrightarrow> own s i b \<Longrightarrow> b \<in> dv_pinned (dv s) \<or> dv_view (dv s) b = dv_disk (dv s) b \<Longrightarrow>
        runs (rel i s) (\<lambda>t. inv t \<and> rest t = rest s \<and> (\<forall>j x. own s j x \<longrightarrow> x \<noteq> b \<longrightarrow> own t j x) \<and>
          dv t = (dv s)\<lparr>dv_busy := dv_busy (dv s) - {b}\<rparr>)"
    and data_ok: "inv s \<Longrightarrow> own s i b \<Longrightarrow> data i s = dv_view (dv s) b"
    and own_busy: "inv s \<Longrightarrow> own s i b \<Longrightarrow> b \<in> dv_busy (dv s)"
    and clean: "inv s \<Longrightarrow> b \<notin> dv_busy (dv s) \<Longrightarrow> b \<notin> dv_pinned (dv s) \<Longrightarrow> dv_view (dv s) b = dv_disk (dv s) b"
    and finite_busy: "inv s \<Longrightarrow> finite (dv_busy (dv s) \<union> dv_pinned (dv s))"
begin

lemma read_block:
  assumes "inv s" "avail cap (dv s) b"
    and Q: "\<And>i t. inv t \<Longrightarrow> rest t = rest s \<Longrightarrow> dv t = (dv s)\<lparr>dv_busy := insert b (dv_busy (dv s))\<rparr> \<Longrightarrow> own t i b \<Longrightarrow>
      (\<And>j x. own s j x \<Longrightarrow> own t j x) \<Longrightarrow> data i t = dv_view (dv s) b \<Longrightarrow> Q (i, t)"
  shows "runs (read b s) Q"
proof -
  have "runs (read b s) (\<lambda>(i, t). inv t \<and> rest t = rest s \<and> own t i b \<and> (\<forall>j x. own s j x \<longrightarrow> own t j x) \<and>
          dv t = (dv s)\<lparr>dv_busy := insert b (dv_busy (dv s))\<rparr>)"
    by (rule read_ok [OF assms(1,2)])
  then show ?thesis by (rule runs_mono) (use Q data_ok in \<open>auto split: prod.splits\<close>)
qed

text \<open>Reading a block and releasing it changes nothing.\<close>

lemma read_rel:
  assumes "inv s" "avail cap (dv s) b"
    and Q: "\<And>i t u. data i t = dv_view (dv s) b \<Longrightarrow> rest t = rest s \<Longrightarrow> inv u \<Longrightarrow> rest u = rest s \<Longrightarrow> dv u = dv s \<Longrightarrow>
      rel i t = Inr u \<Longrightarrow> Q (i, t)"
  shows "runs (read b s) Q"
proof (rule read_block [OF assms(1,2)])
  fix i t
  assume t: "inv t" "rest t = rest s" "dv t = (dv s)\<lparr>dv_busy := insert b (dv_busy (dv s))\<rparr>" "own t i b"
    "data i t = dv_view (dv s) b"
  have b: "inv s" "b \<notin> dv_busy (dv s)" using assms(1,2) by (simp_all add: avail_def)
  then have "b \<in> dv_pinned (dv t) \<or> dv_view (dv t) b = dv_disk (dv t) b" using clean t(3) by auto
  then have "runs (rel i t) (\<lambda>u. inv u \<and> rest u = rest s \<and> dv u = dv s)"
    by (rule runs_mono [OF rel_ok [OF t(1,4)]]) (use t b in simp)
  then obtain u where "rel i t = Inr u" "inv u" "rest u = rest s" "dv u = dv s" by (auto simp: runs_def)
  then show "Q (i, t)" using Q t by blast
qed

text \<open>Reading a block, changing it and writing it to the disk.\<close>

lemma read_put_wr_rel:
  assumes "inv s" "avail cap (dv s) b"
    and Q: "\<And>u. inv u \<Longrightarrow> rest u = rest s \<Longrightarrow> dv u = store b (f (dv_view (dv s) b)) (dv s) \<Longrightarrow> Q u"
  shows "runs (bindR (read b s) (\<lambda>(i, s). bindR (wr i (put i (f (data i s)) s)) (rel i))) Q"
  unfolding runs_bind
proof (rule read_block [OF assms(1,2)], simp (no_asm) only: prod.case)
  fix i t
  assume t: "inv t" "rest t = rest s" "dv t = (dv s)\<lparr>dv_busy := insert b (dv_busy (dv s))\<rparr>" "own t i b"
    "data i t = dv_view (dv s) b"
  let ?d = "f (dv_view (dv s) b)"
  have b: "b \<notin> dv_busy (dv s)" "b < dv_size (dv s)" using assms(2) by (simp_all add: avail_def)
  note p = put_ok [OF t(1,4), of ?d]
  have "runs (bindR (wr i (put i ?d t)) (rel i)) Q"
    unfolding runs_bind
  proof (rule runs_mono [OF wr_ok])
    fix u
    assume u: "inv u \<and> rest u = rest (put i ?d t) \<and> own u = own (put i ?d t) \<and>
      dv u = (dv (put i ?d t))\<lparr>dv_disk := (dv_disk (dv (put i ?d t)))(b := dv_view (dv (put i ?d t)) b),
        dv_pinned := dv_pinned (dv (put i ?d t)) - {b},
        dv_writes := dv_writes (dv (put i ?d t)) @ [(b, dv_view (dv (put i ?d t)) b)]\<rparr>"
    show "runs (rel i u) Q"
      by (rule runs_mono [OF rel_ok [of u i b]]) (use u p t b in \<open>auto simp: store_def intro!: Q\<close>)
  qed (use p t b in auto)
  then show "runs (bindR (wr i (put i (f (data i t)) t)) (rel i)) Q" using t by simp
qed

text \<open>Both blocks held: the contents of the first go to the second, on the disk, and both are released.\<close>

lemma put_wr_rel_rel:
  assumes "inv s" "own s i a" "own s j b" "a \<noteq> b" "b < dv_size (dv s)"
    "a \<in> dv_pinned (dv s) \<or> dv_view (dv s) a = dv_disk (dv s) a"
    and Q: "\<And>u. inv u \<Longrightarrow> rest u = rest s \<Longrightarrow>
      dv u = store b (dv_view (dv s) a) ((dv s)\<lparr>dv_busy := dv_busy (dv s) - {a, b}\<rparr>) \<Longrightarrow> Q u"
  shows "runs (bindR (wr j (put j (data i s) s)) (\<lambda>s. bindR (rel i s) (rel j))) Q"
proof -
  let ?d = "dv_view (dv s) a"
  note p = put_ok [OF assms(1,3), of ?d]
  have "runs (bindR (wr j (put j ?d s)) (\<lambda>s. bindR (rel i s) (rel j))) Q"
    unfolding runs_bind
  proof (rule runs_mono [OF wr_ok])
    fix t
    assume t: "inv t \<and> rest t = rest (put j ?d s) \<and> own t = own (put j ?d s) \<and>
      dv t = (dv (put j ?d s))\<lparr>dv_disk := (dv_disk (dv (put j ?d s)))(b := dv_view (dv (put j ?d s)) b),
        dv_pinned := dv_pinned (dv (put j ?d s)) - {b},
        dv_writes := dv_writes (dv (put j ?d s)) @ [(b, dv_view (dv (put j ?d s)) b)]\<rparr>"
    show "runs (rel i t) (\<lambda>s. runs (rel j s) Q)"
    proof (rule runs_mono [OF rel_ok [of t i a]])
      fix u
      assume u: "inv u \<and> rest u = rest t \<and> (\<forall>j x. own t j x \<longrightarrow> x \<noteq> a \<longrightarrow> own u j x) \<and>
        dv u = (dv t)\<lparr>dv_busy := dv_busy (dv t) - {a}\<rparr>"
      then have "own u j b" using assms(3,4) t p by metis
      then show "runs (rel j u) Q"
        by (intro runs_mono [OF rel_ok [of u j b]])
          (use u t p in \<open>auto simp: store_def set_diff_eq [symmetric] insert_commute Diff_insert2 [symmetric] intro!: Q\<close>)
    qed (use t p assms in auto)
  qed (use p assms in auto)
  then show ?thesis using data_ok [OF assms(1,2)] by simp
qed

lemma copy_from:
  assumes "inv s" "avail cap (dv s) a" "avail cap ((dv s)\<lparr>dv_busy := insert a (dv_busy (dv s))\<rparr>) b"
    and Q: "\<And>u. inv u \<Longrightarrow> rest u = rest s \<Longrightarrow> dv u = store b (dv_view (dv s) a) (dv s) \<Longrightarrow> Q u"
  shows "runs (bindR (read a s) (\<lambda>(i, s). bindR (read b s) (\<lambda>(j, s).
    bindR (wr j (put j (data i s) s)) (\<lambda>s. bindR (rel i s) (rel j))))) Q"
  unfolding runs_bind
proof (rule read_block [OF assms(1,2)], simp (no_asm) only: prod.case runs_bind)
  fix i t
  assume t: "inv t" "rest t = rest s" "dv t = (dv s)\<lparr>dv_busy := insert a (dv_busy (dv s))\<rparr>" "own t i a"
  have ab: "a \<notin> dv_busy (dv s)" "b \<notin> dv_busy (dv s)" "a \<noteq> b" "b < dv_size (dv s)"
    using assms(2,3) by (auto simp: avail_def)
  show "runs (read b t) (\<lambda>x. runs (case x of (j, s) \<Rightarrow> bindR (wr j (put j (data i s) s)) (\<lambda>s. bindR (rel i s) (rel j))) Q)"
  proof (rule read_block [OF t(1)], simp add: t(3) assms(3), simp (no_asm) only: prod.case)
    fix j u
    assume u: "inv u" "rest u = rest t" "dv u = (dv t)\<lparr>dv_busy := insert b (dv_busy (dv t))\<rparr>" "own u j b"
      "\<And>j x. own t j x \<Longrightarrow> own u j x"
    show "runs (bindR (wr j (put j (data i u) u)) (\<lambda>s. bindR (rel i s) (rel j))) Q"
      by (rule put_wr_rel_rel [OF u(1) u(5) [OF t(4)] u(4) ab(3)])
        (use t u ab clean [OF assms(1), of a] in \<open>auto intro!: Q\<close>)
  qed
qed

lemma copy_to:
  assumes "inv s" "avail cap (dv s) b" "avail cap ((dv s)\<lparr>dv_busy := insert b (dv_busy (dv s))\<rparr>) a"
    and Q: "\<And>u. inv u \<Longrightarrow> rest u = rest s \<Longrightarrow> dv u = store b (dv_view (dv s) a) (dv s) \<Longrightarrow> Q u"
  shows "runs (bindR (read b s) (\<lambda>(j, s). bindR (read a s) (\<lambda>(i, s).
    bindR (wr j (put j (data i s) s)) (\<lambda>s. bindR (rel i s) (rel j))))) Q"
  unfolding runs_bind
proof (rule read_block [OF assms(1,2)], simp (no_asm) only: prod.case runs_bind)
  fix j t
  assume t: "inv t" "rest t = rest s" "dv t = (dv s)\<lparr>dv_busy := insert b (dv_busy (dv s))\<rparr>" "own t j b"
  have ab: "a \<notin> dv_busy (dv s)" "b \<notin> dv_busy (dv s)" "a \<noteq> b" "b < dv_size (dv s)"
    using assms(2,3) by (auto simp: avail_def)
  show "runs (read a t) (\<lambda>x. runs (case x of (i, s) \<Rightarrow> bindR (wr j (put j (data i s) s)) (\<lambda>s. bindR (rel i s) (rel j))) Q)"
  proof (rule read_block [OF t(1)], simp add: t(3) assms(3), simp (no_asm) only: prod.case)
    fix i u
    assume u: "inv u" "rest u = rest t" "dv u = (dv t)\<lparr>dv_busy := insert a (dv_busy (dv t))\<rparr>" "own u i a"
      "\<And>j x. own t j x \<Longrightarrow> own u j x"
    show "runs (bindR (wr j (put j (data i u) u)) (\<lambda>s. bindR (rel i s) (rel j))) Q"
      by (rule put_wr_rel_rel [OF u(1,4) u(5) [OF t(4)] ab(3)])
        (use t u ab clean [OF assms(1), of a] in \<open>auto intro!: Q\<close>)
  qed
qed
end


lemma finite_blocks_with: "finite (blocks_with P m)"
  by (rule finite_subset [of _ "(\<lambda>i. b_blockno (m i)) ` {..<NBUF}"]) (auto simp: blocks_with_def buf_of_def)

interpretation bcache: block_cache "bread 1" bset bwrite brelse "\<lambda>i s. bdata i s" bio_inv bdev_of off_bio holds NBUF
proof (unfold_locales)
  fix s :: "'a bio_scheme" and i b d
  assume s: "bio_inv s"
  show "runs (bread 1 b s) (\<lambda>(i, t). bio_inv t \<and> off_bio t = off_bio s \<and> holds t i b \<and>
      (\<forall>j x. holds s j x \<longrightarrow> holds t j x) \<and> bdev_of t = (bdev_of s)\<lparr>dv_busy := insert b (dv_busy (bdev_of s))\<rparr>)"
    if "avail NBUF (bdev_of s) b"
    using bread_abs [OF s, of b] that by (auto simp: runs_def avail_def bdev_of_def)
  show "finite (dv_busy (bdev_of s) \<union> dv_pinned (bdev_of s))"
    by (simp add: bdev_of_def finite_blocks_with)
  show "b \<notin> dv_busy (bdev_of s) \<Longrightarrow> b \<notin> dv_pinned (bdev_of s) \<Longrightarrow> dv_view (bdev_of s) b = dv_disk (bdev_of s) b"
    using s view_clean [of s b] by (simp add: bdev_of_def bio_inv_def)
  assume h: "holds s i b"
  show "bio_inv (bset i d s) \<and> off_bio (bset i d s) = off_bio s \<and> holds (bset i d s) = holds s \<and>
      bdev_of (bset i d s) = (bdev_of s)\<lparr>dv_view := (dv_view (bdev_of s))(b := d)\<rparr>"
    using bset_abs [OF s h] by (simp add: bdev_of_def)
  show "runs (bwrite i s) (\<lambda>t. bio_inv t \<and> off_bio t = off_bio s \<and> holds t = holds s \<and>
      bdev_of t = (bdev_of s)\<lparr>dv_disk := (dv_disk (bdev_of s))(b := dv_view (bdev_of s) b),
        dv_pinned := dv_pinned (bdev_of s) - {b},
        dv_writes := dv_writes (bdev_of s) @ [(b, dv_view (bdev_of s) b)]\<rparr>)"
    if "b < dv_size (bdev_of s)"
    using bwrite_abs [OF s h] that by (auto simp: runs_def bdev_of_def)
  show "runs (brelse i s) (\<lambda>t. bio_inv t \<and> off_bio t = off_bio s \<and> (\<forall>j x. holds s j x \<longrightarrow> x \<noteq> b \<longrightarrow> holds t j x) \<and>
      bdev_of t = (bdev_of s)\<lparr>dv_busy := dv_busy (bdev_of s) - {b}\<rparr>)"
    if "b \<in> dv_pinned (bdev_of s) \<or> dv_view (bdev_of s) b = dv_disk (bdev_of s) b"
    using brelse_abs [OF s h] that by (auto simp: runs_def bdev_of_def)
  show "b \<in> dv_busy (bdev_of s)" using holds_facts(4) [OF s h] by (simp add: bdev_of_def)
  show "bdata i s = dv_view (bdev_of s) b"
    using holds_facts(3) [OF s h] by (simp add: bdev_of_def)
qed

text \<open>The cache after \<open>binit\<close>, on buffers that are all zero as the kernel finds them.\<close>

definition zero_buf :: buf where
  "zero_buf = \<lparr>b_valid = False, b_dirty = False, b_dev = 0, b_blockno = 0, b_lock = initsleeplock, b_refcnt = 0,
     b_prev = 0, b_next = 0, b_data = (\<lambda>_. 0)\<rparr>"

lemma binit_list:
  assumes "dll m xs" "head \<notin> set is" "set is \<inter> set xs = {}" "distinct is"
  shows "dll (fold binit_one is m) (rev is @ xs)"
  using assms
proof (induction "is" arbitrary: m xs)
  case (Cons i js)
  have "dll (m(i := (m i)\<lparr>b_lock := initsleeplock\<rparr>)) xs"
    using dll_cong [OF Cons.prems(1)] by simp
  then have "dll (binit_one i m) (i # xs)"
    using Cons.prems unfolding binit_one_def by (intro insert_front_dll) auto
  then show ?case using Cons.IH [of _ "i # xs"] Cons.prems by simp
qed simp

lemma binit_bufs:
  assumes "\<And>i. same_but_links zero_buf (m i)"
  shows "same_but_links zero_buf (fold binit_one is m j)"
  using assms
proof (induction "is" arbitrary: m)
  case (Cons i js)
  have "same_but_links zero_buf ((m(i := (m i)\<lparr>b_lock := initsleeplock\<rparr>)) x)" for x
    using Cons.prems [of x] by (auto simp: same_but_links_def zero_buf_def)
  then have "same_but_links zero_buf (binit_one i m x)" for x
    unfolding binit_one_def using same_but_links_trans insert_front_same by blast
  then show ?case using Cons.IH by simp
qed simp

lemma binit_ok:
  assumes "bufs s = (\<lambda>_. zero_buf)"
  shows "bio_inv (binit s)" "bdev_of (binit s) = \<lparr>dv_view = disk s, dv_disk = disk s, dv_size = disksize s,
    dv_busy = {}, dv_pinned = {}, dv_writes = writes s\<rparr>" "off_bio (binit s) = off_bio s"
proof -
  let ?m = "(bufs s)(head := (bufs s head)\<lparr>b_prev := head, b_next := head\<rparr>)"
  have "dll ?m []" by (simp add: dll_def)
  then have d: "dll (bufs (binit s)) (rev [0..<NBUF] @ [])"
    using binit_list [of ?m "[]" "[0..<NBUF]"] by (simp add: binit_def Let_def del: upt_rec_numeral)
  have "same_but_links zero_buf (?m i)" for i
    using assms by (cases "i = head") (auto simp: same_but_links_def zero_buf_def)
  then have z: "same_but_links zero_buf (bufs (binit s) i)" for i
    using binit_bufs [of ?m "[0..<NBUF]"] by (simp add: binit_def Let_def del: upt_rec_numeral)
  note f = same_but_linksD [OF z, unfolded zero_buf_def, simplified]
  have of: "\<not> buf_of (bufs (binit s)) b i" for b i by (simp add: buf_of_def f)
  then have "bufs_ok (disk (binit s)) (bufs (binit s))"
    by (simp add: bufs_ok_def buf_ok_def f initsleeplock_def)
  then show "bio_inv (binit s)" using d unfolding bio_inv_def by (auto simp del: upt_rec_numeral)
  have "view (binit s) = disk s" using view_disk [of "binit s"] of by (auto simp: binit_def)
  then show "bdev_of (binit s) = \<lparr>dv_view = disk s, dv_disk = disk s, dv_size = disksize s,
    dv_busy = {}, dv_pinned = {}, dv_writes = writes s\<rparr>"
    by (simp add: bdev_of_def blocks_with_def of) (simp add: binit_def)
  show "off_bio (binit s) = off_bio s" by (simp add: off_bio_def binit_def)
qed


section \<open>Properties\<close>

text \<open>C15: A process that reads a block that nobody has locked, while not every buffer is in use, changes its
  data, writes and releases it, does so without a panic and without waiting: exactly one block of the disk
  changes and it changes to the new data, every process sees the new data in that block and the old data
  in all others, no lock is left behind and the cache stays well formed.\<close>

theorem bio_write_block:
  assumes "bio_inv s" "b \<notin> busy s" "b < disksize s" "card (busy s \<union> pinned s) < NBUF"
  shows "\<exists>t. bindR (bread 1 b s) (\<lambda>(i, s). bindR (bwrite i (bset i (f (bdata i s)) s)) (brelse i)) = Inr t \<and>
    bio_inv t \<and> disk t = (disk s)(b := f (view s b)) \<and> view t = (view s)(b := f (view s b)) \<and>
    writes t = writes s @ [(b, f (view s b))] \<and> busy t = busy s \<and> pinned t = pinned s - {b} \<and> off_bio t = off_bio s"
proof -
  have "avail NBUF (bdev_of s) b" using assms(2-4) by (simp add: avail_def bdev_of_def)
  then have "runs (bindR (bread 1 b s) (\<lambda>(i, s). bindR (bwrite i (bset i (f (bdata i s)) s)) (brelse i)))
    (\<lambda>t. bio_inv t \<and> off_bio t = off_bio s \<and> bdev_of t = store b (f (dv_view (bdev_of s) b)) (bdev_of s))"
    by (rule bcache.read_put_wr_rel [OF assms(1)]) simp
  then show ?thesis unfolding runs_def by (rule ex_forward) (simp add: bdev_of_def store_def)
qed

definition ex_proc :: proc where
  "ex_proc = \<lparr>p_sz = 0, p_pgdir = 0, p_kstack = 0, p_state = RUNNING, p_pid = 1, p_parent = None,
     p_tf = \<lparr>tf_edi = 0, tf_esi = 0, tf_ebp = 0, tf_ebx = 0, tf_edx = 0, tf_ecx = 0, tf_eax = 0, tf_ds = 0, tf_es = 0, tf_trapno = 0,
       tf_err = 0, tf_eip = 0, tf_cs = 0, tf_eflags = 0, tf_esp = 0, tf_ss = 0\<rparr>,
     p_context = \<lparr>ctx_edi = 0, ctx_esi = 0, ctx_ebx = 0, ctx_ebp = 0, ctx_eip = []\<rparr>,
     p_chan = None, p_killed = False, p_ofile = (\<lambda>_. None), p_cwd = None, p_name = [], p_isthread = False,
     p_stack = 0, p_stacksize = 0\<rparr>"

definition ex_bio :: bio where
  "ex_bio = binit \<lparr>ram = (\<lambda>_. 0), freelist = 0, use_lock = True, kend = 0, kpgdir = 0, cr3 = 0, tss_esp0 = 0, kdata = 0,
     ptable = (\<lambda>_. ex_proc), nextpid = 2, initproc = Some 0, cpu_proc = Some 0, disk = (\<lambda>_ _. 0), disksize = 1000, writes = [], bufs = (\<lambda>_. zero_buf)\<rparr>"

lemma ex_bio_facts:
  "bio_inv ex_bio" "view ex_bio = (\<lambda>_ _. 0)" "disk ex_bio = (\<lambda>_ _. 0)" "busy ex_bio = {}" "pinned ex_bio = {}"
  "disksize ex_bio = 1000"
proof -
  let ?s = "\<lparr>ram = (\<lambda>_. 0), freelist = 0, use_lock = True, kend = 0, kpgdir = 0, cr3 = 0, tss_esp0 = 0, kdata = 0,
     ptable = (\<lambda>_. ex_proc), nextpid = 2, initproc = Some 0, cpu_proc = Some 0, disk = (\<lambda>_ _. 0), disksize = 1000, writes = [], bufs = (\<lambda>_. zero_buf)\<rparr> :: bio"
  have "bufs ?s = (\<lambda>_. zero_buf)" by simp
  note b = binit_ok [OF this, folded ex_bio_def]
  show "bio_inv ex_bio" by (rule b(1))
  show "view ex_bio = (\<lambda>_ _. 0)" "disk ex_bio = (\<lambda>_ _. 0)" "busy ex_bio = {}" "pinned ex_bio = {}" "disksize ex_bio = 1000"
    using b(2) by (simp_all add: bdev_of_def)
qed

theorem bio_write_block_witness:
  "\<exists>t. bindR (bread 1 7 ex_bio) (\<lambda>(i, s). bindR (bwrite i (bset i (\<lambda>_. 5) s)) (brelse i)) = Inr t \<and>
    disk t 7 100 = 5 \<and> disk t 8 100 = 0"
  using bio_write_block [of ex_bio 7 "\<lambda>_ _. 5"] by (auto simp: ex_bio_facts)

end
