(* ===== verification/Xv6_Log.thy ===== *)
theory Xv6_Log
  imports Xv6_Bio
begin

text \<open>
  The write-ahead log (\<open>log.c\<close>) over the buffer cache, and the superblock (\<open>readsb\<close> of \<open>fs.c\<close>), which
  \<open>initlog\<close> reads. The main result is crash atomicity: whenever the machine stops during a commit, the
  recovery at the next boot yields the disk before the transaction or the disk after it.
\<close>

section \<open>Words in blocks\<close>

definition get32 :: "block \<Rightarrow> nat \<Rightarrow> u32" where
  "get32 d k = ucast (d k) OR push_bit 8 (ucast (d (k + 1))) OR push_bit 16 (ucast (d (k + 2)))
     OR push_bit 24 (ucast (d (k + 3)))"

definition put32 :: "nat \<Rightarrow> u32 \<Rightarrow> block \<Rightarrow> block" where
  "put32 k v d = d(k := byte_of v 0, k + 1 := byte_of v 1, k + 2 := byte_of v 2, k + 3 := byte_of v 3)"

lemma get_put32 [simp]: "get32 (put32 k v d) k = v"
  using bytes_join [of v] by (simp add: get32_def put32_def)

lemma get_put32_other: "k + 4 \<le> j \<or> j + 4 \<le> k \<Longrightarrow> get32 (put32 k v d) j = get32 d j"
  by (auto simp: get32_def put32_def)

lemma put32_other: "i < k \<or> k + 4 \<le> i \<Longrightarrow> put32 k v d i = d i"
  by (auto simp: put32_def)

lemma get32_cong: "(\<And>i. k \<le> i \<Longrightarrow> i < k + 4 \<Longrightarrow> d i = d' i) \<Longrightarrow> get32 d k = get32 d' k"
  by (simp add: get32_def)

section \<open>The superblock\<close>

record superblock =
  sb_size :: nat
  nblocks :: nat
  ninodes :: nat
  nlog :: nat
  logstart :: nat
  inodestart :: nat
  bmapstart :: nat

definition sb_of :: "block \<Rightarrow> superblock" where
  "sb_of d = (let w = (\<lambda>k. unat (get32 d (4 * k)))
     in \<lparr>sb_size = w 0, nblocks = w 1, ninodes = w 2, nlog = w 3, logstart = w 4, inodestart = w 5, bmapstart = w 6\<rparr>)"

definition readsb :: "nat \<Rightarrow> 'a bio_scheme \<Rightarrow> (superblock \<times> 'a bio_scheme) res" where
  "readsb dev s =
     bindR (bread dev 1 s) (\<lambda>(bp, s).
       let sb = sb_of (bdata bp s) in bindR (brelse bp s) (\<lambda>s. Inr (sb, s)))"

section \<open>The log\<close>

text \<open>
  The header in memory is the list of the block numbers \<open>log.lh.block[0..n-1]\<close>. A header on the disk
  with more than \<open>LOGSIZE\<close> blocks would overrun the array of the one in memory.
\<close>

abbreviation MAXOPBLOCKS :: nat where "MAXOPBLOCKS \<equiv> 10"
abbreviation LOGSIZE :: nat where "LOGSIZE \<equiv> 30"

record logst = bio +
  log_start :: nat
  log_size :: nat
  outstanding :: int
  committing :: bool
  log_dev :: nat
  lh :: "nat list"

text \<open>Copying from log to home location, from the entry \<open>tail\<close> of the header on.\<close>

fun install_from :: "nat \<Rightarrow> nat list \<Rightarrow> 'a logst_scheme \<Rightarrow> 'a logst_scheme res" where
  "install_from tail [] s = Inr s"
| "install_from tail (b # bs) s =
     (let dev = log_dev s in
      bindR (bindR (bread dev (log_start s + tail + 1) s) (\<lambda>(lbuf, s).
       bindR (bread dev b s) (\<lambda>(dbuf, s).
         bindR (bwrite dbuf (bset dbuf (bdata lbuf s) s)) (\<lambda>s.
           bindR (brelse lbuf s) (brelse dbuf)))))
     (install_from (tail + 1) bs))"

definition install_trans :: "'a logst_scheme \<Rightarrow> 'a logst_scheme res" where
  "install_trans s = install_from 0 (lh s) s"

definition read_head :: "'a logst_scheme \<Rightarrow> 'a logst_scheme res" where
  "read_head s =
     bindR (bread (log_dev s) (log_start s) s) (\<lambda>(buf, s).
       let n = sint (get32 (bdata buf s) 0)
       in if n > int LOGSIZE then Inl Fault
          else brelse buf (s\<lparr>lh := map (\<lambda>i. unat (get32 (bdata buf s) (4 + 4 * i))) [0..<nat n]\<rparr>))"

definition head_block :: "nat list \<Rightarrow> block \<Rightarrow> block" where
  "head_block bs d = fold (\<lambda>i. put32 (4 + 4 * i) (of_nat (bs ! i))) [0..<length bs] (put32 0 (of_nat (length bs)) d)"

definition write_head :: "'a logst_scheme \<Rightarrow> 'a logst_scheme res" where
  "write_head s =
     (let bs = lh s
      in bindR (bread (log_dev s) (log_start s) s) (\<lambda>(buf, s).
           bindR (bwrite buf (bset buf (head_block bs (bdata buf s)) s)) (brelse buf)))"

definition recover_from_log :: "'a logst_scheme \<Rightarrow> 'a logst_scheme res" where
  "recover_from_log s =
     bindR (read_head s) (\<lambda>s. bindR (install_trans s) (\<lambda>s. write_head (s\<lparr>lh := []\<rparr>)))"

definition initlog :: "nat \<Rightarrow> 'a logst_scheme \<Rightarrow> 'a logst_scheme res" where
  "initlog dev s =
     bindR (readsb dev s) (\<lambda>(sb, s).
       recover_from_log (s\<lparr>log_start := logstart sb, log_size := nlog sb, log_dev := dev\<rparr>))"

definition begin_op :: "'a logst_scheme \<Rightarrow> 'a logst_scheme res" where
  "begin_op s =
     (if committing s then Inl (Blocked (''log'', 0))
      else if int (length (lh s)) + (outstanding s + 1) * int MAXOPBLOCKS > int LOGSIZE then Inl (Blocked (''log'', 0))
      else Inr (s\<lparr>outstanding := outstanding s + 1\<rparr>))"

text \<open>Copying from the cache to the log, from the entry \<open>tail\<close> of the header on.\<close>

fun write_log_from :: "nat \<Rightarrow> nat list \<Rightarrow> 'a logst_scheme \<Rightarrow> 'a logst_scheme res" where
  "write_log_from tail [] s = Inr s"
| "write_log_from tail (b # bs) s =
     (let dev = log_dev s in
      bindR (bindR (bread dev (log_start s + tail + 1) s) (\<lambda>(to, s).
       bindR (bread dev b s) (\<lambda>(from, s).
         bindR (bwrite to (bset to (bdata from s) s)) (\<lambda>s.
           bindR (brelse from s) (brelse to)))))
     (write_log_from (tail + 1) bs))"

definition write_log :: "'a logst_scheme \<Rightarrow> 'a logst_scheme res" where
  "write_log s = write_log_from 0 (lh s) s"

definition commit :: "'a logst_scheme \<Rightarrow> 'a logst_scheme res" where
  "commit s =
     (if length (lh s) > 0
      then bindR (write_log s) (\<lambda>s. bindR (write_head s) (\<lambda>s. bindR (install_trans s) (\<lambda>s. write_head (s\<lparr>lh := []\<rparr>))))
      else Inr s)"

definition end_op :: "'a logst_scheme \<Rightarrow> 'a logst_scheme res" where
  "end_op s =
     (let s = s\<lparr>outstanding := outstanding s - 1\<rparr>
      in if committing s then Inl (Panic ''log.committing'')
         else if outstanding s = 0
         then bindR (commit (s\<lparr>committing := True\<rparr>)) (\<lambda>s.
           Inr (wakeup (''log'', 0) (s\<lparr>committing := False\<rparr>)))
         else Inr (wakeup (''log'', 0) s))"

definition log_write :: "nat \<Rightarrow> 'a logst_scheme \<Rightarrow> 'a logst_scheme res" where
  "log_write b s =
     (if length (lh s) \<ge> LOGSIZE \<or> int (length (lh s)) \<ge> int (log_size s) - 1
      then Inl (Panic ''too big a transaction'')
      else if outstanding s < 1 then Inl (Panic ''log_write outside of trans'')
      else let blockno = b_blockno (bufs s b);
               lh' = (case scan (\<lambda>x. x = blockno) (lh s) of Some i \<Rightarrow> (lh s)[i := blockno] | None \<Rightarrow> lh s @ [blockno])
           in Inr (upd_buf b (b_dirty_update (\<lambda>_. True)) (s\<lparr>lh := lh'\<rparr>)))"


section \<open>The header on the disk\<close>

lemma put_words_0: "get32 (fold (\<lambda>i. put32 (4 + 4 * i) (f i)) [0..<n] d) 0 = get32 d 0"
  by (induction n) (simp_all add: get_put32_other)

lemma put_words_nth: "i < n \<Longrightarrow> get32 (fold (\<lambda>i. put32 (k + 4 * i) (f i)) [0..<n] d) (k + 4 * i) = f i"
  by (induction n) (auto simp: less_Suc_eq get_put32_other)

lemma put_words_other: "i < k \<or> k + 4 * n \<le> i \<Longrightarrow> fold (\<lambda>i. put32 (k + 4 * i) (f i)) [0..<n] d i = d i"
  by (induction n) (auto simp: put32_other)

lemma head_block_words:
  shows "get32 (head_block bs d) 0 = of_nat (length bs)"
    and "i < length bs \<Longrightarrow> get32 (head_block bs d) (4 + 4 * i) = of_nat (bs ! i)"
  by (simp_all add: head_block_def put_words_0 put_words_nth)

text \<open>What \<open>read_head\<close> makes of a block: the inverse of \<open>head_block\<close>.\<close>

definition head_of :: "block \<Rightarrow> nat list" where
  "head_of d = map (\<lambda>i. unat (get32 d (4 + 4 * i))) [0..<nat (sint (get32 d 0))]"

lemma sint_small: "n < 2 ^ 31 \<Longrightarrow> sint (of_nat n :: u32) = int n"
  by (simp add: signed_of_nat signed_take_bit_eq_take_bit_shift take_bit_eq_mod)

lemma head_of_head_block:
  assumes "length bs \<le> LOGSIZE" "\<And>b. b \<in> set bs \<Longrightarrow> b < 2 ^ 32"
  shows "head_of (head_block bs d) = bs" "sint (get32 (head_block bs d) 0) \<le> int LOGSIZE"
proof -
  have n: "sint (get32 (head_block bs d) 0) = int (length bs)"
    using assms(1) sint_small [of "length bs"] by (simp add: head_block_words)
  then show "sint (get32 (head_block bs d) 0) \<le> int LOGSIZE" using assms(1) by simp
  show "head_of (head_block bs d) = bs"
  proof (rule nth_equalityI)
    fix i
    assume "i < length (head_of (head_block bs d))"
    then have i: "i < length bs" by (simp add: head_of_def n)
    then have "unat (of_nat (bs ! i) :: u32) = bs ! i" using assms(2) by (simp add: unat_of_nat take_bit_eq_mod)
    then show "head_of (head_block bs d) ! i = bs ! i" using i by (simp add: head_of_def n head_block_words(2))
  qed (simp add: head_of_def n)
qed

section \<open>Sequences of writes\<close>

definition stores :: "(nat \<times> block) list \<Rightarrow> bdev \<Rightarrow> bdev" where
  "stores ws d = fold (\<lambda>(b, x). store b x) ws d"

definition apply_writes :: "(nat \<times> block) list \<Rightarrow> (nat \<Rightarrow> block) \<Rightarrow> nat \<Rightarrow> block" where
  "apply_writes ws f = fold (\<lambda>(b, x) f. f(b := x)) ws f"

lemma stores_simps [simp]:
  "dv_view (stores ws d) = apply_writes ws (dv_view d)"
  "dv_disk (stores ws d) = apply_writes ws (dv_disk d)"
  "dv_size (stores ws d) = dv_size d"
  "dv_busy (stores ws d) = dv_busy d"
  "dv_pinned (stores ws d) = dv_pinned d - fst ` set ws"
  "dv_writes (stores ws d) = dv_writes d @ ws"
proof (induction ws arbitrary: d)
  case (Cons w ws)
  {
    case 1 show ?case using Cons(1) by (cases w) (simp add: stores_def apply_writes_def store_def)
  next
    case 2 show ?case using Cons(2) by (cases w) (simp add: stores_def apply_writes_def store_def)
  next
    case 3 show ?case using Cons(3) by (cases w) (simp add: stores_def store_def)
  next
    case 4 show ?case using Cons(4) by (cases w) (simp add: stores_def store_def)
  next
    case 5 show ?case using Cons(5) by (cases w) (auto simp: stores_def store_def)
  next
    case 6 show ?case using Cons(6) by (cases w) (simp add: stores_def store_def)
  }
qed (simp_all add: stores_def apply_writes_def)

lemma store_simps [simp]:
  "dv_view (store b x d) = (dv_view d)(b := x)" "dv_disk (store b x d) = (dv_disk d)(b := x)"
  "dv_size (store b x d) = dv_size d" "dv_busy (store b x d) = dv_busy d" "dv_pinned (store b x d) = dv_pinned d - {b}"
  "dv_writes (store b x d) = dv_writes d @ [(b, x)]"
  by (simp_all add: store_def)

lemma stores_append [simp]: "stores (vs @ ws) d = stores ws (stores vs d)"
  by (simp add: stores_def)

lemma stores_nil [simp]: "stores [] d = d" and stores_cons [simp]: "stores ((b, x) # ws) d = stores ws (store b x d)"
  by (simp_all add: stores_def)

lemma apply_writes_append: "apply_writes (vs @ ws) f = apply_writes ws (apply_writes vs f)"
  by (simp add: apply_writes_def)

lemma apply_writes_nil [simp]: "apply_writes [] f = f"
  and apply_writes_cons: "apply_writes ((b, x) # ws) f = apply_writes ws (f(b := x))"
  by (simp_all add: apply_writes_def)

lemma apply_writes_other: "b \<notin> fst ` set ws \<Longrightarrow> apply_writes ws f b = f b"
  by (induction ws arbitrary: f) (auto simp: apply_writes_def)

lemma apply_writes_at: "distinct (map fst ws) \<Longrightarrow> (b, x) \<in> set ws \<Longrightarrow> apply_writes ws f b = x"
proof (induction ws arbitrary: f)
  case (Cons w ws)
  obtain c y where w: "w = (c, y)" by fastforce
  show ?case
  proof (cases "b = c")
    case True
    then have "b \<notin> fst ` set ws" "x = y" using Cons.prems w by (auto simp: rev_image_eqI)
    then show ?thesis using True by (simp add: w apply_writes_cons apply_writes_other)
  next
    case False
    then show ?thesis using Cons w by (simp add: apply_writes_cons)
  qed
qed simp


section \<open>The steps of a commit\<close>

lemma log_fields [simp]:
  "bio_inv (s\<lparr>lh := x\<rparr>) = bio_inv s" "bdev_of (s\<lparr>lh := x\<rparr>) = bdev_of s" "holds (s\<lparr>lh := x\<rparr>) = holds s"
  "off_bio (s\<lparr>lh := x\<rparr>) = (off_bio s)\<lparr>lh := x\<rparr>"
  "bio_inv (s\<lparr>log_start := a, log_size := c, log_dev := e\<rparr>) = bio_inv s"
  "bdev_of (s\<lparr>log_start := a, log_size := c, log_dev := e\<rparr>) = bdev_of s"
  by (auto simp: bio_inv_def bdev_of_def holds_def off_bio_def view_def fun_eq_iff cong: option.case_cong)

lemma off_bio_log:
  assumes "off_bio t = off_bio s"
  shows "log_dev t = log_dev s" "log_start t = log_start s" "log_size t = log_size s" "lh t = lh s" "outstanding t = outstanding s"
    "committing t = committing s" "disksize t = disksize s" "mypid t = mypid s"
  using arg_cong [OF assms, of log_dev] arg_cong [OF assms, of log_start] arg_cong [OF assms, of log_size]
    arg_cong [OF assms, of lh] arg_cong [OF assms, of outstanding] arg_cong [OF assms, of committing]
    arg_cong [OF assms, of disksize] arg_cong [OF assms, of mypid]
  by (simp_all add: off_bio_def)

text \<open>The writes of \<open>write_log\<close> and \<open>install_trans\<close> when the blocks \<open>bs\<close> have the contents \<open>f\<close>.\<close>

fun log_writes :: "nat \<Rightarrow> nat list \<Rightarrow> (nat \<Rightarrow> block) \<Rightarrow> (nat \<times> block) list" where
  "log_writes start [] f = []"
| "log_writes start (b # bs) f = (start + 1, f b) # log_writes (start + 1) bs f"

lemma log_writes_length [simp]: "length (log_writes start bs f) = length bs"
  by (induction bs arbitrary: start) auto

lemma log_writes_nth:
  "i < length bs \<Longrightarrow> log_writes start bs f ! i = (start + 1 + i, f (bs ! i))"
proof (induction bs arbitrary: start i)
  case (Cons b bs)
  then show ?case by (cases i) auto
qed simp

lemma log_writes_cong: "map f bs = map g bs \<Longrightarrow> log_writes start bs f = log_writes start bs g"
  by (induction bs arbitrary: start) auto

lemma log_writes_fst: "map fst (log_writes start bs f) = map (\<lambda>i. start + 1 + i) [0..<length bs]"
  by (rule nth_equalityI) (auto simp: log_writes_nth)

lemma write_log_runs:
  assumes "bio_inv s" "log_dev s = 1" "busy s = {}" "card (pinned s) < NBUF" "set bs \<subseteq> pinned s"
    and bs: "\<And>b. b \<in> set bs \<Longrightarrow> b < disksize s \<and> \<not> (log_start s + tail < b \<and> b \<le> log_start s + tail + length bs)"
    and l: "log_start s + tail + length bs < disksize s" "\<And>x. log_start s + tail < x \<Longrightarrow> x \<le> log_start s + tail + length bs \<Longrightarrow> x \<notin> pinned s"
  shows "runs (write_log_from tail bs s) (\<lambda>t. bio_inv t \<and> off_bio t = off_bio s \<and>
    bdev_of t = stores (log_writes (log_start s + tail) bs (view s)) (bdev_of s))"
  using assms
proof (induction bs arbitrary: tail s)
  case (Cons b bs)
  note s = Cons.prems
  let ?a = "log_start s + tail + 1"
  let ?D = "bdev_of s"
  have dv: "dv_busy ?D = {}" "dv_pinned ?D = pinned s" "dv_size ?D = disksize s" "dv_view ?D = view s"
    using s(3) by (simp_all add: bdev_of_def)
  have "avail NBUF ?D ?a" using s(4,7) by (simp add: avail_def dv)
  moreover have "avail NBUF (?D\<lparr>dv_busy := insert ?a (dv_busy ?D)\<rparr>) b"
    using s(5) s(6) [of b] by (auto simp: avail_def dv)
  ultimately have "runs (bindR (bread 1 ?a s) (\<lambda>(j, s). bindR (bread 1 b s) (\<lambda>(i, s).
      bindR (bwrite j (bset j (bdata i s) s)) (\<lambda>s. bindR (brelse i s) (brelse j)))))
    (\<lambda>u. bio_inv u \<and> off_bio u = off_bio s \<and> bdev_of u = store ?a (view s b) ?D)"
    by (rule bcache.copy_to [OF s(1)]) (simp add: dv)
  then have "runs (bindR (bread 1 ?a s) (\<lambda>(j, s). bindR (bread 1 b s) (\<lambda>(i, s).
      bindR (bwrite j (bset j (bdata i s) s)) (\<lambda>s. bindR (brelse i s) (brelse j)))))
    (\<lambda>u. runs (write_log_from (tail + 1) bs u) (\<lambda>t. bio_inv t \<and> off_bio t = off_bio s \<and>
      bdev_of t = stores (log_writes (log_start s + tail) (b # bs) (view s)) ?D))"
  proof (rule runs_mono)
    fix u
    assume u: "bio_inv u \<and> off_bio u = off_bio s \<and> bdev_of u = store ?a (view s b) ?D"
    have o: "log_dev u = 1" "log_start u = log_start s" "disksize u = disksize s"
      using off_bio_log u s(2) by metis+
    have b: "view u = (view s)(?a := view s b)" "busy u = {}" "pinned u = pinned s - {?a}"
      using u s(3) by (auto simp: bdev_of_def store_def)
    have ap: "?a \<notin> pinned s" using s(8) [of ?a] by simp
    then have "map (view u) bs = map (view s) bs" using s(5) by (auto simp: b)
    note eq = log_writes_cong [OF this]
    have "runs (write_log_from (tail + 1) bs u) (\<lambda>t. bio_inv t \<and> off_bio t = off_bio u \<and>
      bdev_of t = stores (log_writes (log_start u + (tail + 1)) bs (view u)) (bdev_of u))"
    proof (rule Cons.IH)
      show "x \<notin> pinned u" if "log_start u + (tail + 1) < x" "x \<le> log_start u + (tail + 1) + length bs" for x
        using s(8) [of x] that by (simp add: o b)
      show "c < disksize u \<and> \<not> (log_start u + (tail + 1) < c \<and> c \<le> log_start u + (tail + 1) + length bs)"
        if "c \<in> set bs" for c using s(6) [of c] that by (auto simp: o)
    qed (use u o b s ap in auto)
    then show "runs (write_log_from (tail + 1) bs u) (\<lambda>t. bio_inv t \<and> off_bio t = off_bio s \<and>
      bdev_of t = stores (log_writes (log_start s + tail) (b # bs) (view s)) ?D)"
      using u by (simp add: o stores_cons eq)
  qed
  then show ?case using s(2) by (simp add: runs_bind)
qed (simp add: stores_nil)


fun install_writes :: "nat \<Rightarrow> nat list \<Rightarrow> (nat \<Rightarrow> block) \<Rightarrow> (nat \<times> block) list" where
  "install_writes start [] f = []"
| "install_writes start (b # bs) f = (b, f (start + 1)) # install_writes (start + 1) bs f"

lemma install_writes_fst [simp]: "map fst (install_writes start bs f) = bs"
  by (induction bs arbitrary: start) auto

lemma install_writes_cong:
  "(\<And>i. i < length bs \<Longrightarrow> f (start + 1 + i) = g (start + 1 + i)) \<Longrightarrow> install_writes start bs f = install_writes start bs g"
proof (induction bs arbitrary: start)
  case (Cons b bs)
  have "install_writes (start + 1) bs f = install_writes (start + 1) bs g"
    by (rule Cons.IH) (use Cons.prems [of "Suc i" for i] in simp)
  then show ?case using Cons.prems [of 0] by simp
qed simp

lemma install_writes_map:
  "(\<And>i. i < length bs \<Longrightarrow> f (start + 1 + i) = g (bs ! i)) \<Longrightarrow> install_writes start bs f = map (\<lambda>b. (b, g b)) bs"
proof (induction bs arbitrary: start)
  case (Cons b bs)
  have "install_writes (start + 1) bs f = map (\<lambda>b. (b, g b)) bs"
    by (rule Cons.IH) (use Cons.prems [of "Suc i" for i] in simp)
  then show ?case using Cons.prems [of 0] by simp
qed simp

lemma install_runs:
  assumes "bio_inv s" "log_dev s = 1" "busy s = {}" "card (pinned s) < NBUF" "distinct bs"
    "set bs \<subseteq> pinned s \<or> card (pinned s) + 1 < NBUF"
    and bs: "\<And>b. b \<in> set bs \<Longrightarrow> b < disksize s \<and> \<not> (log_start s + tail < b \<and> b \<le> log_start s + tail + length bs)"
    and l: "log_start s + tail + length bs < disksize s"
  shows "runs (install_from tail bs s) (\<lambda>t. bio_inv t \<and> off_bio t = off_bio s \<and>
    bdev_of t = stores (install_writes (log_start s + tail) bs (view s)) (bdev_of s))"
  using assms
proof (induction bs arbitrary: tail s)
  case (Cons b bs)
  note s = Cons.prems
  let ?a = "log_start s + tail + 1"
  let ?D = "bdev_of s"
  have dv: "dv_busy ?D = {}" "dv_pinned ?D = pinned s" "dv_size ?D = disksize s" "dv_view ?D = view s"
    using s(3) by (simp_all add: bdev_of_def)
  have "avail NBUF ?D ?a" using s(4,8) by (simp add: avail_def dv)
  moreover have "card (insert ?a (pinned s)) \<le> card (pinned s) + 1" 
    by (simp add: card_insert_if finite_blocks_with)
  then have "avail NBUF (?D\<lparr>dv_busy := insert ?a (dv_busy ?D)\<rparr>) b"
    using s(6) s(7) [of b] by (auto simp: avail_def dv)
  ultimately have "runs (bindR (bread 1 ?a s) (\<lambda>(i, s). bindR (bread 1 b s) (\<lambda>(j, s).
      bindR (bwrite j (bset j (bdata i s) s)) (\<lambda>s. bindR (brelse i s) (brelse j)))))
    (\<lambda>u. bio_inv u \<and> off_bio u = off_bio s \<and> bdev_of u = store b (view s ?a) ?D)"
    by (rule bcache.copy_from [OF s(1)]) (simp add: dv)
  then have "runs (bindR (bread 1 ?a s) (\<lambda>(i, s). bindR (bread 1 b s) (\<lambda>(j, s).
      bindR (bwrite j (bset j (bdata i s) s)) (\<lambda>s. bindR (brelse i s) (brelse j)))))
    (\<lambda>u. runs (install_from (tail + 1) bs u) (\<lambda>t. bio_inv t \<and> off_bio t = off_bio s \<and>
      bdev_of t = stores (install_writes (log_start s + tail) (b # bs) (view s)) ?D))"
  proof (rule runs_mono)
    fix u
    assume u: "bio_inv u \<and> off_bio u = off_bio s \<and> bdev_of u = store b (view s ?a) ?D"
    have o: "log_dev u = 1" "log_start u = log_start s" "disksize u = disksize s"
      using off_bio_log u s(2) by metis+
    have b: "view u = (view s)(b := view s ?a)" "busy u = {}" "pinned u = pinned s - {b}"
      using u s(3) by (auto simp: bdev_of_def store_def)
    have le: "card (pinned s - {b}) \<le> card (pinned s)" by (simp add: card_Diff1_le)
    have "install_writes (log_start s + (tail + 1)) bs (view u) = install_writes (log_start s + (tail + 1)) bs (view s)"
      by (rule install_writes_cong) (use s(7) [of b] in \<open>auto simp: b\<close>)
    note eq = this
    have "runs (install_from (tail + 1) bs u) (\<lambda>t. bio_inv t \<and> off_bio t = off_bio u \<and>
      bdev_of t = stores (install_writes (log_start u + (tail + 1)) bs (view u)) (bdev_of u))"
    proof (rule Cons.IH)
      show "c < disksize u \<and> \<not> (log_start u + (tail + 1) < c \<and> c \<le> log_start u + (tail + 1) + length bs)"
        if "c \<in> set bs" for c using s(7) [of c] that by (auto simp: o)
      show "set bs \<subseteq> pinned u \<or> card (pinned u) + 1 < NBUF"
        using s(5,6) le by (auto simp: b)
    qed (use u o b s le in auto)
    then show "runs (install_from (tail + 1) bs u) (\<lambda>t. bio_inv t \<and> off_bio t = off_bio s \<and>
      bdev_of t = stores (install_writes (log_start s + tail) (b # bs) (view s)) ?D)"
      using u eq by (simp add: o stores_cons)
  qed
  then show ?case using s(2) by (simp add: runs_bind)
qed (simp add: stores_nil)

lemma write_head_runs:
  assumes "bio_inv s" "log_dev s = 1" "busy s = {}" "card (pinned s) < NBUF" "log_start s < disksize s"
  shows "runs (write_head s) (\<lambda>t. bio_inv t \<and> off_bio t = off_bio s \<and>
    bdev_of t = store (log_start s) (head_block (lh s) (view s (log_start s))) (bdev_of s))"
proof -
  have "avail NBUF (bdev_of s) (log_start s)" using assms(3-5) by (simp add: avail_def bdev_of_def)
  then have "runs (bindR (bread 1 (log_start s) s) (\<lambda>(i, t). bindR (bwrite i (bset i (head_block (lh s) (bdata i t)) t)) (brelse i)))
    (\<lambda>t. bio_inv t \<and> off_bio t = off_bio s \<and>
      bdev_of t = store (log_start s) (head_block (lh s) (view s (log_start s))) (bdev_of s))"
    by (rule bcache.read_put_wr_rel [OF assms(1)]) (simp add: bdev_of_def)
  then show ?thesis using assms(2) unfolding write_head_def by simp
qed

lemma read_head_runs:
  assumes "bio_inv s" "log_dev s = 1" "busy s = {}" "card (pinned s) < NBUF" "log_start s < disksize s"
    "sint (get32 (view s (log_start s)) 0) \<le> int LOGSIZE"
  shows "runs (read_head s) (\<lambda>t. bio_inv t \<and> off_bio t = (off_bio s)\<lparr>lh := head_of (view s (log_start s))\<rparr> \<and>
    bdev_of t = bdev_of s)"
proof -
  let ?D = "bdev_of s" and ?b = "log_start s"
  have dv: "dv_busy ?D = {}" "dv_pinned ?D = pinned s" "dv_size ?D = disksize s" "dv_view ?D = view s"
    using assms(3) by (simp_all add: bdev_of_def)
  have av: "avail NBUF ?D ?b" using assms(3-5) by (simp add: avail_def dv)
  show ?thesis
    unfolding read_head_def runs_bind assms(2)
  proof (rule bcache.read_block [OF assms(1) av], simp (no_asm) only: prod.case Let_def)
    fix i t
    assume t: "bio_inv t" "off_bio t = off_bio s" "bdev_of t = ?D\<lparr>dv_busy := insert ?b (dv_busy ?D)\<rparr>" "holds t i ?b"
      "bdata i t = dv_view ?D ?b"
    let ?t = "t\<lparr>lh := head_of (view s ?b)\<rparr>"
    have c: "?b \<in> dv_pinned (bdev_of ?t) \<or> dv_view (bdev_of ?t) ?b = dv_disk (bdev_of ?t) ?b"
      using bcache.clean [OF assms(1), of ?b] by (auto simp: t(3) dv)
    have "runs (brelse i ?t) (\<lambda>u. bio_inv u \<and> off_bio u = (off_bio s)\<lparr>lh := head_of (view s ?b)\<rparr> \<and> bdev_of u = ?D)"
      by (rule runs_mono [OF bcache.rel_ok [OF _ _ c]]) (use t dv in auto)
    then show "runs (if int LOGSIZE < sint (get32 (bdata i t) 0) then Inl Fault
        else brelse i (t\<lparr>lh := map (\<lambda>k. unat (get32 (bdata i t) (4 + 4 * k))) [0..<nat (sint (get32 (bdata i t) 0))]\<rparr>))
      (\<lambda>u. bio_inv u \<and> off_bio u = (off_bio s)\<lparr>lh := head_of (view s ?b)\<rparr> \<and> bdev_of u = ?D)"
      using assms(6) t(5) by (simp add: dv head_of_def)
  qed
qed


section \<open>Commit and recovery\<close>

text \<open>
  The state of the log between commits: the blocks written in the current transaction are pinned, are
  beyond the log and fit into it, and the header on the disk is empty.
\<close>

definition in_log :: "'a logst_scheme \<Rightarrow> nat \<Rightarrow> bool" where
  "in_log s b \<longleftrightarrow> log_start s \<le> b \<and> b < log_start s + log_size s"

definition log_inv :: "'a logst_scheme \<Rightarrow> bool" where
  "log_inv s \<longleftrightarrow> bio_inv s \<and> log_dev s = 1 \<and> pinned s = set (lh s) \<and> distinct (lh s) \<and>
     length (lh s) < log_size s \<and> log_size s \<le> NBUF \<and> 2 \<le> log_start s \<and>
     log_start s + log_size s \<le> disksize s \<and> disksize s \<le> 2 ^ 32 \<and>
     (\<forall>b \<in> set (lh s). log_start s + log_size s \<le> b \<and> b < disksize s) \<and>
     logstart (sb_of (disk s 1)) = log_start s \<and> nlog (sb_of (disk s 1)) = log_size s \<and>
     get32 (disk s (log_start s)) 0 = 0"

lemma log_invD:
  assumes "log_inv s"
  shows "bio_inv s" "log_dev s = 1" "pinned s = set (lh s)" "distinct (lh s)" "length (lh s) < log_size s"
    "log_size s \<le> NBUF" "2 \<le> log_start s" "log_start s + log_size s \<le> disksize s" "disksize s \<le> 2 ^ 32"
    "\<And>b. b \<in> set (lh s) \<Longrightarrow> log_start s + log_size s \<le> b \<and> b < disksize s"
    "logstart (sb_of (disk s 1)) = log_start s" "nlog (sb_of (disk s 1)) = log_size s" "get32 (disk s (log_start s)) 0 = 0"
    "card (pinned s) < NBUF"
  using assms distinct_card [of "lh s"] unfolding log_inv_def by auto

definition commit_writes :: "nat \<Rightarrow> nat list \<Rightarrow> (nat \<Rightarrow> block) \<Rightarrow> (nat \<times> block) list" where
  "commit_writes start bs f =
     (let h = head_block bs (f start)
      in log_writes start bs f @ [(start, h)] @ map (\<lambda>b. (b, f b)) bs @ [(start, head_block [] h)])"

lemma bdev_of_simps:
  "dv_view (bdev_of s) = view s" "dv_disk (bdev_of s) = disk s" "dv_size (bdev_of s) = disksize s"
  "dv_busy (bdev_of s) = busy s" "dv_pinned (bdev_of s) = pinned s" "dv_writes (bdev_of s) = writes s"
  by (simp_all add: bdev_of_def)

lemma bdev_of_eq:
  "bdev_of t = stores ws (bdev_of s) \<Longrightarrow> view t = apply_writes ws (view s) \<and> disk t = apply_writes ws (disk s) \<and>
    busy t = busy s \<and> pinned t = pinned s - fst ` set ws \<and> writes t = writes s @ ws"
  using stores_simps [of ws "bdev_of s"] by (metis bdev_of_simps)

lemma log_writes_blocks: "fst ` set (log_writes start bs f) = {start + 1..<start + 1 + length bs}"
proof -
  have "fst ` set (log_writes start bs f) = (\<lambda>i. i + (start + 1)) ` {0..<length bs}"
    unfolding set_map [symmetric] log_writes_fst by (simp add: add.commute)
  then show ?thesis by (simp only: image_add_atLeastLessThan' add_0 add.commute)
qed

lemma log_writes_at:
  "i < length bs \<Longrightarrow> apply_writes (log_writes start bs f) g (start + 1 + i) = f (bs ! i)"
  by (rule apply_writes_at) (auto simp: log_writes_fst distinct_map inj_on_def in_set_conv_nth log_writes_nth)

lemma commit_runs:
  assumes "log_inv s" "busy s = {}" "lh s \<noteq> []"
  shows "runs (commit s) (\<lambda>t. bio_inv t \<and> off_bio t = (off_bio s)\<lparr>lh := []\<rparr> \<and>
    bdev_of t = stores (commit_writes (log_start s) (lh s) (view s)) (bdev_of s))"
proof -
  note s = log_invD [OF assms(1)]
  let ?st = "log_start s" and ?bs = "lh s" and ?D = "bdev_of s"
  let ?w1 = "log_writes ?st ?bs (view s)" and ?w2 = "[(?st, head_block ?bs (view s ?st))]"
  let ?w3 = "map (\<lambda>b. (b, view s b)) ?bs" and ?w4 = "[(?st, head_block [] (head_block ?bs (view s ?st)))]"
  have b: "b < disksize s \<and> ?st + log_size s \<le> b" if "b \<in> set ?bs" for b using s(10) that by blast
  let ?P1 = "\<lambda>t. bio_inv t \<and> off_bio t = off_bio s \<and> bdev_of t = stores ?w1 ?D"
  let ?P2 = "\<lambda>t. bio_inv t \<and> off_bio t = off_bio s \<and> bdev_of t = stores (?w1 @ ?w2) ?D"
  let ?P3 = "\<lambda>t. bio_inv t \<and> off_bio t = off_bio s \<and> bdev_of t = stores (?w1 @ ?w2 @ ?w3) ?D"
  let ?P4 = "\<lambda>t. bio_inv t \<and> off_bio t = (off_bio s)\<lparr>lh := []\<rparr> \<and> bdev_of t = stores (?w1 @ ?w2 @ ?w3 @ ?w4) ?D"
  have 1: "runs (write_log s) ?P1"
    unfolding write_log_def
    by (rule write_log_runs [of s ?bs 0, unfolded add_0_right]) (use s assms(2) b in fastforce)+
  have 2: "runs (write_head t) ?P2" if t: "?P1 t" for t
  proof -
    note o = off_bio_log [of t s] and d = bdev_of_eq [of t ?w1 s]
    have "view t ?st = view s ?st" using d t by (simp add: apply_writes_other log_writes_blocks)
    then show ?thesis
      by (intro runs_mono [OF write_head_runs [of t]])
        (use t o d s assms(2) card_mono [of "set ?bs" "set ?bs - fst ` set ?w1"] in \<open>auto\<close>)
  qed
  have 3: "runs (install_trans t) ?P3" if t: "?P2 t" for t
  proof -
    note o = off_bio_log [of t s] and d = bdev_of_eq [of t "?w1 @ ?w2" s]
    have "install_writes ?st ?bs (view t) = ?w3"
    proof (rule install_writes_map)
      fix i
      assume "i < length ?bs"
      then show "view t (?st + 1 + i) = view s (?bs ! i)"
        using d t log_writes_at [of i ?bs ?st "view s" "view s"] by (simp add: apply_writes_append apply_writes_cons)
    qed
    moreover have p: "pinned t = set ?bs"
      using d t s(3,5) b by (fastforce simp: log_writes_blocks)
    moreover have "runs (install_from 0 ?bs t) (\<lambda>u. bio_inv u \<and> off_bio u = off_bio t \<and>
        bdev_of u = stores (install_writes (log_start t + 0) ?bs (view t)) (bdev_of t))"
    proof (rule install_runs)
      show "c < disksize t \<and> \<not> (log_start t + 0 < c \<and> c \<le> log_start t + 0 + length ?bs)" if "c \<in> set ?bs" for c
        using b [OF that] o t s(5) by simp
    qed (use t o d s(2,4,5,8,14) p assms(2) s(3) in simp_all)
    ultimately show ?thesis
      unfolding install_trans_def using t o by simp
  qed
  have 4: "runs (write_head (t\<lparr>lh := []\<rparr>)) ?P4" if t: "?P3 t" for t
  proof -
    note o = off_bio_log [of t s] and d = bdev_of_eq [of t "?w1 @ ?w2 @ ?w3" s]
    have "?st \<notin> set ?bs" using b s(5) by fastforce
    then have v: "view t ?st = head_block ?bs (view s ?st)"
      using d t by (simp add: apply_writes_append apply_writes_cons apply_writes_other image_image)
    have p: "pinned t = {}" using d t s(3) by (auto simp: image_Un image_image)
    have vt: "view (t\<lparr>lh := []\<rparr>) = view t" by (simp add: view_def fun_eq_iff cong: option.case_cong)
    have "runs (write_head (t\<lparr>lh := []\<rparr>)) (\<lambda>u. bio_inv u \<and> off_bio u = off_bio (t\<lparr>lh := []\<rparr>) \<and>
      bdev_of u = store (log_start (t\<lparr>lh := []\<rparr>)) (head_block (lh (t\<lparr>lh := []\<rparr>)) (view (t\<lparr>lh := []\<rparr>) (log_start (t\<lparr>lh := []\<rparr>))))
        (bdev_of (t\<lparr>lh := []\<rparr>)))"
      by (rule write_head_runs) (use t o d s(2,5,8) p assms(2) in simp_all)
    then show ?thesis using t o v vt by simp
  qed
  have "runs (bindR (write_log s) (\<lambda>s. bindR (write_head s) (\<lambda>s. bindR (install_trans s) (\<lambda>s. write_head (s\<lparr>lh := []\<rparr>))))) ?P4"
    unfolding runs_bind by (rule runs_mono [OF 1], rule runs_mono [OF 2], assumption, rule runs_mono [OF 3], assumption, rule 4)
  then show ?thesis using assms(3) by (simp add: commit_def commit_writes_def Let_def)
qed


lemma readsb_runs:
  assumes "bio_inv s" "busy s = {}" "card (pinned s) < NBUF" "1 < disksize s"
  shows "runs (readsb 1 s) (\<lambda>(sb, t). sb = sb_of (view s 1) \<and> bio_inv t \<and> off_bio t = off_bio s \<and> bdev_of t = bdev_of s)"
proof -
  have av: "avail NBUF (bdev_of s) 1" using assms by (simp add: avail_def bdev_of_def)
  show ?thesis
    unfolding readsb_def runs_bind
    by (rule bcache.read_rel [OF assms(1) av]) (simp add: bdev_of_simps)
qed

text \<open>The first boot after a crash: nothing is cached, the disk is what the crash left.\<close>

definition log_at :: "nat \<Rightarrow> nat \<Rightarrow> nat list \<Rightarrow> bdev \<Rightarrow> 'a logst_scheme \<Rightarrow> bool" where
  "log_at st sz l D t \<longleftrightarrow> bio_inv t \<and> log_dev t = 1 \<and> log_start t = st \<and> log_size t = sz \<and> lh t = l \<and> bdev_of t = D"

lemma log_atD:
  assumes "log_at st sz l D t"
  shows "bio_inv t" "log_dev t = 1" "log_start t = st" "log_size t = sz" "lh t = l" "bdev_of t = D" "view t = dv_view D"
    "busy t = dv_busy D" "pinned t = dv_pinned D" "disksize t = dv_size D" "disk t = dv_disk D"
proof -
  show a: "bio_inv t" "log_dev t = 1" "log_start t = st" "log_size t = sz" "lh t = l" "bdev_of t = D"
    using assms unfolding log_at_def by simp_all
  show "view t = dv_view D" "busy t = dv_busy D" "pinned t = dv_pinned D" "disksize t = dv_size D" "disk t = dv_disk D"
    unfolding a(6) [symmetric] bdev_of_simps by (rule refl)+
qed

lemma log_at_off_bio:
  "off_bio t = off_bio s \<Longrightarrow> log_at st sz l D s \<Longrightarrow> bio_inv t \<Longrightarrow> bdev_of t = E \<Longrightarrow> log_at st sz l E t"
  using off_bio_log(1-4) [of t s] unfolding log_at_def by simp

lemma off_bio_lh [simp]: "lh (off_bio s) = lh s"
  by (simp add: off_bio_def)

lemma log_at_off_bio_lh:
  assumes "off_bio t = (off_bio s)\<lparr>lh := k\<rparr>" "log_at st sz l D s" "bio_inv t" "bdev_of t = E"
  shows "log_at st sz k E t"
proof -
  have "off_bio t = off_bio (s\<lparr>lh := k\<rparr>)" using assms(1) by simp
  moreover have "log_at st sz k D (s\<lparr>lh := k\<rparr>)" using assms(2) by (simp add: log_at_def)
  ultimately show ?thesis using assms(3,4) log_at_off_bio by blast
qed

lemma recover_steps:
  assumes D: "dv_busy D = {}" "dv_pinned D = {}" "st + sz \<le> dv_size D" "sz > 0"
  shows "log_at st sz l D t \<Longrightarrow> sint (get32 (dv_view D st) 0) \<le> int LOGSIZE \<Longrightarrow>
      runs (read_head t) (log_at st sz (head_of (dv_view D st)) D)"
    and "log_at st sz hs D t \<Longrightarrow> length hs < sz \<Longrightarrow> distinct hs \<Longrightarrow> (\<And>b. b \<in> set hs \<Longrightarrow> st + sz \<le> b \<and> b < dv_size D) \<Longrightarrow>
      runs (install_trans t) (log_at st sz hs (stores (install_writes st hs (dv_view D)) D))"
    and "log_at st sz l D t \<Longrightarrow>
      runs (write_head (t\<lparr>lh := []\<rparr>)) (log_at st sz [] (store st (head_block [] (dv_view D st)) D))"
proof -
  show "runs (read_head t) (log_at st sz (head_of (dv_view D st)) D)"
    if t: "log_at st sz l D t" and h: "sint (get32 (dv_view D st) 0) \<le> int LOGSIZE"
  proof -
    note f = log_atD [OF t]
    have "runs (read_head t) (\<lambda>u. bio_inv u \<and> off_bio u = (off_bio t)\<lparr>lh := head_of (view t (log_start t))\<rparr> \<and>
        bdev_of u = bdev_of t)"
      by (rule read_head_runs) (use f D h in simp_all)
    then show ?thesis unfolding f by (rule runs_mono) (use log_at_off_bio_lh [OF _ t] in blast)
  qed
  show "runs (install_trans t) (log_at st sz hs (stores (install_writes st hs (dv_view D)) D))"
    if t: "log_at st sz hs D t" and h: "length hs < sz" "distinct hs" "\<And>b. b \<in> set hs \<Longrightarrow> st + sz \<le> b \<and> b < dv_size D"
  proof -
    note f = log_atD [OF t]
    have "runs (install_from 0 hs t) (\<lambda>u. bio_inv u \<and> off_bio u = off_bio t \<and>
        bdev_of u = stores (install_writes (log_start t + 0) hs (view t)) (bdev_of t))"
    proof (rule install_runs)
      show "b < disksize t \<and> \<not> (log_start t + 0 < b \<and> b \<le> log_start t + 0 + length hs)" if "b \<in> set hs" for b
        using h(3) [OF that] h(1) by (simp add: f)
    qed (use f D h(1,2) in simp_all)
    then show ?thesis
      unfolding install_trans_def f add_0_right by (rule runs_mono) (use log_at_off_bio [OF _ t] in blast)
  qed
  show "runs (write_head (t\<lparr>lh := []\<rparr>)) (log_at st sz [] (store st (head_block [] (dv_view D st)) D))"
    if "log_at st sz l D t"
  proof -
    have t: "log_at st sz [] D (t\<lparr>lh := []\<rparr>)" using that by (simp add: log_at_def)
    note f = log_atD [OF t]
    have "runs (write_head (t\<lparr>lh := []\<rparr>)) (\<lambda>u. bio_inv u \<and> off_bio u = off_bio (t\<lparr>lh := []\<rparr>) \<and>
        bdev_of u = store st (head_block [] (dv_view D st)) D)"
      using write_head_runs [OF f(1,2)] unfolding f using D by simp
    then show ?thesis by (rule runs_mono) (use log_at_off_bio [OF _ t] in blast)
  qed
qed

lemma recover_runs:
  fixes r :: "'a logst_scheme"
  defines "d \<equiv> disk r" and "st \<equiv> logstart (sb_of (disk r 1))" and "sz \<equiv> nlog (sb_of (disk r 1))"
  defines "hs \<equiv> head_of (d st)"
  assumes r: "bufs r = (\<lambda>_. zero_buf)" "2 \<le> st" "st + sz \<le> disksize r" "sint (get32 (d st) 0) \<le> int LOGSIZE"
    and hs: "length hs < sz" "distinct hs" "\<And>b. b \<in> set hs \<Longrightarrow> st + sz \<le> b \<and> b < disksize r"
  shows "runs (initlog 1 (binit r)) (log_at st sz [] (stores (install_writes st hs d @ [(st, head_block [] (d st))])
    \<lparr>dv_view = d, dv_disk = d, dv_size = disksize r, dv_busy = {}, dv_pinned = {}, dv_writes = writes r\<rparr>))"
    (is "runs _ (log_at st sz [] (stores (?ow @ _) ?D))")
proof -
  have b0: "bio_inv (binit r)" "bdev_of (binit r) = ?D"
    using binit_ok [OF r(1)] by (simp_all add: d_def)
  note v0 = bdev_of_simps [of "binit r", unfolded b0(2), simplified, symmetric]
  have "runs (readsb 1 (binit r)) (\<lambda>(sb, t). sb = sb_of (view (binit r) 1) \<and> bio_inv t \<and> off_bio t = off_bio (binit r) \<and>
      bdev_of t = bdev_of (binit r))"
    by (rule readsb_runs [OF b0(1)]) (use v0 r(2,3) hs(1) in simp_all)
  then have 1: "runs (readsb 1 (binit r))
      (\<lambda>(sb, t). \<exists>l. log_at st sz l ?D (t\<lparr>log_start := logstart sb, log_size := nlog sb, log_dev := 1\<rparr>))"
    by (rule runs_mono) (use b0(2) v0(1) in \<open>auto simp: log_at_def st_def sz_def d_def\<close>)
  have sz: "sz > 0" using hs(1) by simp
  let ?E = "stores ?ow ?D"
  have "st \<notin> set hs" using hs(1,3) by fastforce
  then have E: "dv_view ?E st = d st" "dv_busy ?E = {}" "dv_pinned ?E = {}" "st + sz \<le> dv_size ?E"
    using apply_writes_other [of st ?ow d] r(3) by (simp_all flip: set_map)
  have D: "dv_busy ?D = {}" "dv_pinned ?D = {}" "st + sz \<le> dv_size ?D" using r(3) by simp_all
  note steps = recover_steps(1,2) [OF D sz] recover_steps(3) [OF E(2-4) sz]
  have "runs (recover_from_log t) (log_at st sz [] (stores (?ow @ [(st, head_block [] (d st))]) ?D))"
    if t: "log_at st sz l ?D t" for t :: "'a logst_scheme" and l
    unfolding recover_from_log_def runs_bind
  proof (rule runs_mono [OF steps(1) [OF t]])
    fix u :: "'a logst_scheme"
    assume u: "log_at st sz (head_of (dv_view ?D st)) ?D u"
    then have "runs (install_trans u) (log_at st sz hs ?E)" using steps(2) [of hs u] hs by (simp add: hs_def)
    then show "runs (install_trans u) (\<lambda>s. runs (write_head (s\<lparr>lh := []\<rparr>))
        (log_at st sz [] (stores (?ow @ [(st, head_block [] (d st))]) ?D)))"
      by (rule runs_mono) (use steps(3) E(1) in simp)
  qed (use r(4) in simp)
  then show ?thesis
    unfolding initlog_def runs_bind by (intro runs_mono [OF 1]) auto
qed


section \<open>Crash atomicity\<close>

text \<open>The disk after a crash in the middle of a commit, and what is read from it at the next boot.\<close>

lemma commit_writes_prefix:
  assumes "log_inv s"
  defines "bs \<equiv> lh s" and "st \<equiv> log_start s" and "f \<equiv> view s"
  defines "ws \<equiv> commit_writes st bs f"
  defines "d \<equiv> \<lambda>k. apply_writes (take k ws) (disk s)"
  shows "k \<le> length bs \<Longrightarrow> d k st = disk s st \<and> (\<forall>b. \<not> in_log s b \<longrightarrow> d k b = disk s b)"
    and "length bs < k \<Longrightarrow> k < length ws \<Longrightarrow>
      d k st = head_block bs (f st) \<and> (\<forall>i < length bs. d k (st + 1 + i) = f (bs ! i)) \<and>
      (\<forall>b. \<not> in_log s b \<longrightarrow> b \<notin> set bs \<longrightarrow> d k b = disk s b)"
    and "length ws \<le> k \<Longrightarrow>
      d k st = head_block [] (head_block bs (f st)) \<and>
      (\<forall>b. \<not> in_log s b \<longrightarrow> d k b = (if b \<in> set bs then f b else disk s b))"
proof -
  note s = log_invD [OF assms(1)]
  let ?w1 = "log_writes st bs f" and ?w3 = "map (\<lambda>b. (b, f b)) bs"
  let ?h = "head_block bs (f st)"
  have ws: "ws = ?w1 @ (st, ?h) # ?w3 @ [(st, head_block [] ?h)]"
    by (simp add: ws_def commit_writes_def Let_def)
  have bs: "st + log_size s \<le> b" if "b \<in> set bs" for b using s(10) [of b] that by (simp add: bs_def st_def)
  have n: "length bs < log_size s" using s(5) by (simp add: bs_def)
  have w1: "b \<in> fst ` set (take j ?w1) \<Longrightarrow> st < b \<and> in_log s b" for b j
  proof -
    assume "b \<in> fst ` set (take j ?w1)"
    then have "b \<in> fst ` set ?w1" using set_take_subset [of j ?w1] by blast
    then show "st < b \<and> in_log s b" using n by (auto simp: log_writes_blocks in_log_def st_def)
  qed
  have w3: "b \<in> fst ` set (take j ?w3) \<Longrightarrow> b \<in> set bs" for b j
    using set_take_subset [of j bs] by (auto simp: take_map image_image)
  have st: "st \<notin> set bs" "in_log s st" using bs n by (fastforce simp: in_log_def st_def)+
  show "d k st = disk s st \<and> (\<forall>b. \<not> in_log s b \<longrightarrow> d k b = disk s b)" if "k \<le> length bs"
  proof -
    have "take k ws = take k ?w1" using that by (simp add: ws)
    moreover have "st \<notin> fst ` set (take k ?w1)" using w1 by blast
    moreover have "b \<notin> fst ` set (take k ?w1)" if "\<not> in_log s b" for b using w1 that by blast
    ultimately show ?thesis by (simp add: d_def apply_writes_other)
  qed
  show "d k st = ?h \<and> (\<forall>i < length bs. d k (st + 1 + i) = f (bs ! i)) \<and>
      (\<forall>b. \<not> in_log s b \<longrightarrow> b \<notin> set bs \<longrightarrow> d k b = disk s b)" if k: "length bs < k" "k < length ws"
  proof -
    let ?j = "k - length bs - 1"
    have "take k ws = ?w1 @ (st, ?h) # take ?j ?w3"
      using k by (simp add: ws take_Cons' not_le)
    then have d: "d k = apply_writes (take ?j ?w3) ((apply_writes ?w1 (disk s))(st := ?h))"
      by (simp add: d_def apply_writes_append apply_writes_cons)
    have o: "d k b = ((apply_writes ?w1 (disk s))(st := ?h)) b" if "b \<notin> set bs" for b
      unfolding d using w3 that by (intro apply_writes_other) blast
    have l: "st + 1 + i \<notin> set bs" if "i < length bs" for i using bs [of "st + 1 + i"] that n by auto
    have "d k b = disk s b" if "\<not> in_log s b" "b \<notin> set bs" for b
      using o [OF that(2)] w1 [of b "length ?w1"] that st apply_writes_other [of b ?w1] by auto
    then show ?thesis using o [OF st(1)] o [OF l] log_writes_at [of _ bs st f "disk s"] by simp
  qed
  show "d k st = head_block [] ?h \<and> (\<forall>b. \<not> in_log s b \<longrightarrow> d k b = (if b \<in> set bs then f b else disk s b))"
    if "length ws \<le> k"
  proof -
    have d: "d k = (apply_writes ?w3 ((apply_writes ?w1 (disk s))(st := ?h)))(st := head_block [] ?h)"
      using that by (simp add: d_def ws apply_writes_append apply_writes_cons)
    have "d k b = (if b \<in> set bs then f b else disk s b)" if b: "\<not> in_log s b" for b
    proof (cases "b \<in> set bs")
      case True
      then have "apply_writes ?w3 g b = f b" for g
        using s(4) by (intro apply_writes_at) (auto simp: bs_def o_def)
      then show ?thesis using True st by (auto simp: d)
    next
      case False
      then have "apply_writes ?w3 g b = g b" for g by (intro apply_writes_other) (simp add: image_image)
      then show ?thesis using False b st w1 [of b "length ?w1"] apply_writes_other [of b ?w1] by (auto simp: d)
    qed
    then show ?thesis by (simp add: d)
  qed
qed


text \<open>
  Recovery of a disk \<open>d\<close> that has the superblock of \<open>s\<close>: nothing is installed if its header is empty, the
  logged blocks are if it is not.
\<close>

lemma recovered:
  assumes s: "log_inv s" and r: "bufs r = (\<lambda>_. zero_buf)" "disksize r = disksize s"
    and d: "disk r 1 = disk s 1" and h: "get32 (disk r (log_start s)) 0 = of_nat (length hs)" "head_of (disk r (log_start s)) = hs"
    and hs: "length hs < log_size s" "distinct hs" "\<And>b. b \<in> set hs \<Longrightarrow> log_start s + log_size s \<le> b \<and> b < disksize s"
  shows "runs (initlog 1 (binit r)) (\<lambda>u. log_inv u \<and> lh u = [] \<and> busy u = {} \<and>
    (\<forall>b. \<not> in_log s b \<longrightarrow> disk u b = apply_writes (install_writes (log_start s) hs (disk r)) (disk r) b))"
proof -
  note s = log_invD [OF s]
  let ?st = "log_start s" and ?sz = "log_size s"
  let ?ow = "install_writes ?st hs (disk r) @ [(?st, head_block [] (disk r ?st))]"
  let ?D = "\<lparr>dv_view = disk r, dv_disk = disk r, dv_size = disksize r, dv_busy = {}, dv_pinned = {}, dv_writes = writes r\<rparr>"
  have "runs (initlog 1 (binit r)) (log_at ?st ?sz [] (stores ?ow ?D))"
    by (rule recover_runs [of r, unfolded d s(11,12) h])
      (use hs r s(6-8) sint_small [of "length hs"] in auto)
  then show ?thesis
  proof (rule runs_mono)
    fix u :: "'b logst_scheme"
    assume "log_at ?st ?sz [] (stores ?ow ?D) u"
    note u = log_atD [OF this]
    let ?d = "apply_writes (install_writes ?st hs (disk r)) (disk r)"
    have du: "disk u = ?d(?st := head_block [] (disk r ?st))"
      using u(11) by (simp add: apply_writes_append apply_writes_cons)
    have "1 \<notin> set hs" using hs(3) [of 1] s(7) by auto
    then have "?d 1 = disk r 1" by (intro apply_writes_other) (simp flip: set_map)
    then have "disk u 1 = disk s 1" using s(7) d by (simp add: du)
    moreover have "get32 (disk u ?st) 0 = 0" using head_block_words(1) [of "[]"] by (simp add: du)
    ultimately have "log_inv u" unfolding log_inv_def u(2-5) using u r s hs(1) by simp
    moreover have "disk u b = ?d b" if "\<not> in_log s b" for b
      using that s(5) by (auto simp: du in_log_def)
    ultimately show "log_inv u \<and> lh u = [] \<and> busy u = {} \<and> (\<forall>b. \<not> in_log s b \<longrightarrow> disk u b = ?d b)"
      using u by simp
  qed
qed

lemma recovered_commit:
  fixes r :: "'b logst_scheme"
  assumes inv: "log_inv s" and busy: "busy s = {}"
    and r: "bufs r = (\<lambda>_. zero_buf)" "disksize r = disksize s"
    and d: "disk r = apply_writes (take k (commit_writes (log_start s) (lh s) (view s))) (disk s)"
  shows "runs (initlog 1 (binit r)) (\<lambda>u. log_inv u \<and> lh u = [] \<and> busy u = {} \<and>
    (\<forall>b. \<not> in_log s b \<longrightarrow> disk u b = (if k \<le> length (lh s) then disk s b else view s b)))"
proof -
  note s = log_invD [OF inv] and p = commit_writes_prefix [OF inv, of k, folded d]
  let ?st = "log_start s" and ?bs = "lh s" and ?ws = "commit_writes (log_start s) (lh s) (view s)"
  have clean: "b \<notin> set ?bs \<Longrightarrow> view s b = disk s b" for b
    using view_clean [of s b] s(1,3) busy by (simp add: bio_inv_def)
  have bs: "\<not> in_log s b" "b \<noteq> 1" if "b \<in> set ?bs" for b using s(7) s(10) [OF that] by (auto simp: in_log_def)
  have i1: "\<not> in_log s 1" "1 \<notin> set ?bs" using s(7) bs(2) by (auto simp: in_log_def)
  have r1: "disk r 1 = disk s 1" using p i1 by (metis not_le)
  consider (old) "k \<le> length ?bs" | (new) "length ?bs < k" "k < length ?ws" | (fin) "length ?bs < k" "length ?ws \<le> k" by linarith
  then show ?thesis
  proof cases
    case old
    then have "disk r ?st = disk s ?st" "\<And>b. \<not> in_log s b \<Longrightarrow> disk r b = disk s b" using p(1) by blast+
    moreover from this have "head_of (disk r ?st) = []" using s(13) by (simp add: head_of_def)
    ultimately show ?thesis
      by (intro runs_mono [OF recovered [OF inv r r1, of "[]"]]) (use old s(5,13) in auto)
  next
    case new
    note q = p(2) [OF new]
    have h: "head_of (disk r ?st) = ?bs" "get32 (disk r ?st) 0 = of_nat (length ?bs)"
      using q head_of_head_block(1) [of ?bs "view s ?st"] s(5,6,9,10) head_block_words(1) by fastforce+
    have "install_writes ?st ?bs (disk r) = map (\<lambda>b. (b, view s b)) ?bs"
      by (rule install_writes_map) (use q in blast)
    moreover have "apply_writes (map (\<lambda>b. (b, view s b)) ?bs) (disk r) b = view s b" if "\<not> in_log s b" for b
    proof (cases "b \<in> set ?bs")
      case True
      then show ?thesis using s(4) by (intro apply_writes_at) (auto simp: o_def)
    next
      case False
      then show ?thesis using q that clean by (subst apply_writes_other) (auto simp: image_image)
    qed
    ultimately show ?thesis
      by (intro runs_mono [OF recovered [OF inv r r1 h(2,1) s(5,4,10)]]) (use new in auto)
  next
    case fin
    note q = p(3) [OF fin(2)]
    have "get32 (disk r ?st) 0 = 0" using q head_block_words(1) [of "[]"] by simp
    moreover from this have "head_of (disk r ?st) = []" by (simp add: head_of_def)
    ultimately show ?thesis
      by (intro runs_mono [OF recovered [OF inv r r1, of "[]"]]) (use fin(1) s(5) q clean in auto)
  qed
qed


lemma log_op_fields [simp]:
  "log_inv (s\<lparr>outstanding := n\<rparr>) = log_inv s" "log_inv (s\<lparr>committing := c\<rparr>) = log_inv s"
  "bdev_of (s\<lparr>outstanding := n\<rparr>) = bdev_of s" "bdev_of (s\<lparr>committing := c\<rparr>) = bdev_of s"
  "view (s\<lparr>outstanding := n\<rparr>) = view s" "view (s\<lparr>committing := c\<rparr>) = view s"
  by (auto simp: log_inv_def bio_inv_def bdev_of_def view_def fun_eq_iff cong: option.case_cong)

lemma log_wakeup [simp]:
  "log_inv (wakeup c s) = log_inv s" "bdev_of (wakeup c s) = bdev_of s" "view (wakeup c s) = view s" "lh (wakeup c s) = lh s"
  "outstanding (wakeup c s) = outstanding s" "disk (wakeup c s) = disk s" "writes (wakeup c s) = writes s"
  by (auto simp: wakeup_def log_inv_def bio_inv_def bdev_of_def view_def fun_eq_iff cong: option.case_cong)

text \<open>What a commit leaves: the whole transaction on the disk, and an empty log.\<close>

lemma commit_done:
  assumes inv: "log_inv s" and busy: "busy s = {}"
  shows "runs (commit s) (\<lambda>t. log_inv t \<and> lh t = [] \<and> busy t = {} \<and> outstanding t = outstanding s \<and>
    committing t = committing s \<and> (\<forall>b. \<not> in_log s b \<longrightarrow> disk t b = view s b \<and> view t b = view s b) \<and>
    writes t = writes s @ (if lh s = [] then [] else commit_writes (log_start s) (lh s) (view s)))"
proof -
  note s = log_invD [OF inv]
  have clean: "b \<notin> set (lh s) \<Longrightarrow> view s b = disk s b" for b
    using view_clean [of s b] s(1,3) busy by (simp add: bio_inv_def)
  show ?thesis
  proof (cases "lh s = []")
    case True
    then show ?thesis using inv busy clean by (simp add: commit_def)
  next
    case False
    let ?ws = "commit_writes (log_start s) (lh s) (view s)"
    note p = commit_writes_prefix(3) [OF inv, of "length ?ws", simplified]
    show ?thesis
    proof (rule runs_mono [OF commit_runs [OF inv busy False]])
      fix t
      assume t: "bio_inv t \<and> off_bio t = (off_bio s)\<lparr>lh := []\<rparr> \<and> bdev_of t = stores ?ws (bdev_of s)"
      then have o: "off_bio t = off_bio (s\<lparr>lh := []\<rparr>)" by simp
      note o = off_bio_log [OF o] and e = bdev_of_eq [of t ?ws s]
      have pin: "pinned t = {}" using e t s(3) by (auto simp: commit_writes_def Let_def image_Un image_image)
      have bt: "busy t = {}" using e t busy by simp
      have d: "disk t b = view s b" if "\<not> in_log s b" for b using p that clean e t by auto
      moreover have "view t b = disk t b" for b using view_clean [of t b] t pin bt by (simp add: bio_inv_def)
      moreover have "1 \<notin> set (lh s)" "\<not> in_log s 1" using s(7) s(10) [of 1] by (auto simp: in_log_def)
      then have d1: "disk t 1 = disk s 1" using d [of 1] clean [of 1] by simp
      have "get32 (disk t (log_start s)) 0 = 0" using p e t head_block_words(1) [of "[]"] by simp
      then have "log_inv t" unfolding log_inv_def d1 using o t pin s by simp
      ultimately show "log_inv t \<and> lh t = [] \<and> busy t = {} \<and> outstanding t = outstanding s \<and> committing t = committing s \<and>
        (\<forall>b. \<not> in_log s b \<longrightarrow> disk t b = view s b \<and> view t b = view s b) \<and> writes t = writes s @ (if lh s = [] then [] else ?ws)"
        using o e t bt False by simp
    qed
  qed
qed

section \<open>Logged writes\<close>

lemma scan_absorb:
  "(case scan (\<lambda>x. x = b) xs of Some i \<Rightarrow> xs[i := b] | None \<Rightarrow> xs @ [b]) = (if b \<in> set xs then xs else xs @ [b])"
proof (cases "scan (\<lambda>x. x = b) xs")
  case None
  moreover from this have "b \<notin> set xs" by (auto simp: scan_None_iff)
  ultimately show ?thesis by simp
next
  case (Some i)
  then have "i < length xs" "xs ! i = b" using scan_SomeD [OF Some] by auto
  then show ?thesis using Some by (auto simp: list_update_same_conv)
qed

text \<open>A block that a file system operation may change, and how many more blocks fit into the log.\<close>

definition loggable :: "'a logst_scheme \<Rightarrow> nat \<Rightarrow> bool" where
  "loggable s b \<longleftrightarrow> log_start s + log_size s \<le> b \<and> b < disksize s \<and> outstanding s \<ge> 1"

definition room :: "'a logst_scheme \<Rightarrow> nat" where
  "room s = log_size s - 1 - length (lh s)"

definition off_log :: "'a logst_scheme \<Rightarrow> 'a logst_scheme" where
  "off_log s = (off_bio s)\<lparr>lh := []\<rparr>"

lemma log_write_abs:
  assumes inv: "log_inv s" and h: "holds s i b" and l: "loggable s b" "0 < room s"
  shows "\<exists>t. log_write i s = Inr t \<and> log_inv t \<and> holds t = holds s \<and> off_log t = off_log s \<and>
    bdev_of t = (bdev_of s)\<lparr>dv_pinned := insert b (pinned s)\<rparr> \<and> lh t = (if b \<in> set (lh s) then lh s else lh s @ [b])"
proof -
  note s = log_invD [OF inv]
  note f = holds_facts [OF s(1) h]
  let ?l = "if b \<in> set (lh s) then lh s else lh s @ [b]"
  let ?c = "(bufs s i)\<lparr>b_dirty := True\<rparr>"
  let ?t = "(s\<lparr>lh := ?l\<rparr>)\<lparr>bufs := (bufs s)(i := ?c)\<rparr>"
  have n: "length (lh s) + 1 < log_size s" using l(2) by (simp add: room_def)
  then have w: "log_write i s = Inr ?t"
    using s(6) l(1) by (simp add: log_write_def loggable_def scan_absorb f(9))
  have c: "b_dev ?c = 1" "b_blockno ?c = b" "b_valid ?c" "buf_ok (disk ?t) ?c" "b_next ?c = b_next (bufs s i)"
    "b_prev ?c = b_prev (bufs s i)"
    using f(5-10) by (simp_all add: buf_ok_def)
  note u = held_upd [OF s(1) h, of ?t ?c, OF _ _ c]
  have v: "view ?t = view s" using u(2) f(3) by (simp add: fun_eq_iff)
  have p: "pinned ?t = insert b (pinned s)" and b: "busy ?t = busy s"
    using u(3) [of b_dirty] u(3) [of "\<lambda>c. sl_locked (b_lock c)"] f(4,10) by auto
  have D: "bdev_of ?t = (bdev_of s)\<lparr>dv_pinned := insert b (pinned s)\<rparr>" using v p b by (simp add: bdev_of_def)
  have "distinct ?l" "length ?l < log_size s" "set ?l = insert b (set (lh s))" using s(4) n by auto
  then have "log_inv ?t"
    unfolding log_inv_def p using u(1) s l(1) by (simp add: loggable_def)
  moreover have "holds ?t = holds s" using u(4) by simp
  ultimately show ?thesis using w D by (simp add: off_log_def off_bio_def)
qed

text \<open>
  The interface that the file system uses: the cache with the log's \<open>log_write\<close> in place of \<open>bwrite\<close>.
\<close>

locale logged_cache = block_cache read put wr rel data inv dv rest own cap
  for read :: "nat \<Rightarrow> 's \<Rightarrow> (nat \<times> 's) res" and put wr rel data inv dv and rest :: "'s \<Rightarrow> 'r" and own cap +
  fixes lwr :: "nat \<Rightarrow> 's \<Rightarrow> 's res"
    and linv :: "'s \<Rightarrow> bool"
    and space :: "'s \<Rightarrow> nat"
    and may :: "'s \<Rightarrow> nat \<Rightarrow> bool"
    and frame :: "'s \<Rightarrow> 'f"
  assumes linv_inv: "linv s \<Longrightarrow> inv s"
    and linv_stable: "linv s \<Longrightarrow> inv t \<Longrightarrow> rest t = rest s \<Longrightarrow> dv_pinned (dv t) = dv_pinned (dv s) \<Longrightarrow>
        dv_disk (dv t) = dv_disk (dv s) \<Longrightarrow> linv t"
    and rest_frame: "rest t = rest s \<Longrightarrow> frame t = frame s \<and> space t = space s"
    and may_frame: "frame t = frame s \<Longrightarrow> may t = may s"
    and may_size: "may s b \<Longrightarrow> b < dv_size (dv s)"
    and cap_space: "linv s \<Longrightarrow> card (dv_pinned (dv s)) + space s < cap"
    and lwr_ok: "linv s \<Longrightarrow> own s i b \<Longrightarrow> may s b \<Longrightarrow> 0 < space s \<Longrightarrow>
        runs (lwr i s) (\<lambda>t. linv t \<and> frame t = frame s \<and> own t = own s \<and>
          dv t = (dv s)\<lparr>dv_pinned := insert b (dv_pinned (dv s))\<rparr> \<and> space s \<le> space t + 1)"
begin

lemma avail_space:
  assumes "linv s" "b \<notin> dv_busy (dv s)" "b < dv_size (dv s)" "card (dv_busy (dv s)) \<le> space s"
  shows "avail cap (dv s) b"
proof -
  have "card (dv_busy (dv s) \<union> dv_pinned (dv s)) \<le> card (dv_busy (dv s)) + card (dv_pinned (dv s))"
    by (rule card_Un_le)
  also have "\<dots> < cap" using cap_space [OF assms(1)] assms(4) by simp
  finally show ?thesis using assms(2,3) by (simp add: avail_def)
qed

lemma rel_log:
  assumes "linv t" "own t i b" "b \<in> dv_pinned (dv t) \<or> dv_view (dv t) b = dv_disk (dv t) b"
  shows "runs (rel i t) (\<lambda>u. linv u \<and> frame u = frame t \<and> space u = space t \<and>
    (\<forall>j x. own t j x \<longrightarrow> x \<noteq> b \<longrightarrow> own u j x) \<and> dv u = (dv t)\<lparr>dv_busy := dv_busy (dv t) - {b}\<rparr>)"
proof (rule runs_mono [OF rel_ok [OF linv_inv [OF assms(1)] assms(2,3)]], goal_cases)
  case (1 u)
  then show ?case using linv_stable [OF assms(1), of u] rest_frame [of u t] by simp
qed

text \<open>A block that is held is read, and changed through the log and released.\<close>

lemma read_log:
  assumes "linv s" "b \<notin> dv_busy (dv s)" "b < dv_size (dv s)" "card (dv_busy (dv s)) \<le> space s"
    and Q: "\<And>i t. linv t \<Longrightarrow> frame t = frame s \<Longrightarrow> space t = space s \<Longrightarrow>
      dv t = (dv s)\<lparr>dv_busy := insert b (dv_busy (dv s))\<rparr> \<Longrightarrow> own t i b \<Longrightarrow> (\<And>j x. own s j x \<Longrightarrow> own t j x) \<Longrightarrow>
      data i t = dv_view (dv s) b \<Longrightarrow> b \<in> dv_pinned (dv s) \<or> dv_view (dv s) b = dv_disk (dv s) b \<Longrightarrow> Q (i, t)"
  shows "runs (read b s) Q"
proof (rule read_block [OF linv_inv [OF assms(1)] avail_space [OF assms(1-4)]], goal_cases)
  case (1 i t)
  then show ?case
    using linv_stable [OF assms(1), of t] rest_frame [of t s] clean [OF linv_inv [OF assms(1)] assms(2)] by (intro Q) auto
qed

lemma put_lwr_rel:
  assumes "linv t" "own t i b" "may t b" "0 < space t"
  shows "runs (bindR (lwr i (put i d t)) (rel i)) (\<lambda>u. linv u \<and> frame u = frame t \<and> space t \<le> space u + 1 \<and>
    (\<forall>j x. own t j x \<longrightarrow> x \<noteq> b \<longrightarrow> own u j x) \<and>
    dv u = (dv t)\<lparr>dv_view := (dv_view (dv t))(b := d), dv_busy := dv_busy (dv t) - {b}, dv_pinned := insert b (dv_pinned (dv t))\<rparr>)"
proof -
  let ?p = "put i d t"
  note p = put_ok [OF linv_inv [OF assms(1)] assms(2), of d]
  have lt: "linv ?p" using linv_stable [OF assms(1), of ?p] p by simp
  have ft: "frame ?p = frame t" "space ?p = space t" using rest_frame [of ?p t] p by simp_all
  have "own ?p i b" "may ?p b" "0 < space ?p" using p assms(2-4) may_frame [OF ft(1)] ft(2) by simp_all
  note w = lwr_ok [OF lt this]
  show ?thesis
    unfolding runs_bind
  proof (rule runs_mono [OF w], goal_cases)
    case (1 u)
    note u = 1
    have "linv u" "own u i b" "b \<in> dv_pinned (dv u) \<or> dv_view (dv u) b = dv_disk (dv u) b" using u p assms(2) by simp_all
    from rel_log [OF this] show ?case by (rule runs_mono) (use u p ft in simp)
  qed
qed

text \<open>Reading a block and releasing it; reading a block, changing it through the log and releasing it.\<close>

lemma read_rel_log:
  assumes "linv s" "b \<notin> dv_busy (dv s)" "b < dv_size (dv s)" "card (dv_busy (dv s)) \<le> space s"
    and Q: "\<And>i t u. frame t = frame s \<Longrightarrow> data i t = dv_view (dv s) b \<Longrightarrow> rel i t = Inr u \<Longrightarrow> linv u \<Longrightarrow> frame u = frame s \<Longrightarrow>
      space u = space s \<Longrightarrow> (\<And>j x. own s j x \<Longrightarrow> own u j x) \<Longrightarrow> dv u = dv s \<Longrightarrow> Q (i, t)"
  shows "runs (read b s) Q"
proof (rule read_log [OF assms(1-4)], goal_cases)
  case (1 i t)
  note t = 1
  have own: "own s j x \<Longrightarrow> x \<noteq> b" for j x using own_busy [OF linv_inv [OF assms(1)]] assms(2) by blast
  have "b \<in> dv_pinned (dv t) \<or> dv_view (dv t) b = dv_disk (dv t) b" using t by simp
  from rel_log [OF t(1,5) this] obtain u where u: "rel i t = Inr u" "linv u" "frame u = frame t" "space u = space t"
    "\<And>j x. own t j x \<Longrightarrow> x \<noteq> b \<Longrightarrow> own u j x" "dv u = (dv t)\<lparr>dv_busy := dv_busy (dv t) - {b}\<rparr>" by (auto simp: runs_def)
  then have "dv u = dv s" using t(4) assms(2) by simp
  moreover have "own s j x \<Longrightarrow> own u j x" for j x using t(6) u(5) own by blast
  ultimately show ?case using t(2,3,7) u(1-4) by (intro Q [of t i u]) simp_all
qed

lemma read_put_lwr_rel:
  assumes "linv s" "b \<notin> dv_busy (dv s)" "may s b" "card (dv_busy (dv s)) < space s"
    and Q: "\<And>u. linv u \<Longrightarrow> frame u = frame s \<Longrightarrow> space s \<le> space u + 1 \<Longrightarrow> (\<And>j x. own s j x \<Longrightarrow> own u j x) \<Longrightarrow>
      dv u = (dv s)\<lparr>dv_view := (dv_view (dv s))(b := f (dv_view (dv s) b)), dv_pinned := insert b (dv_pinned (dv s))\<rparr> \<Longrightarrow> Q u"
  shows "runs (bindR (read b s) (\<lambda>(i, s). bindR (lwr i (put i (f (data i s)) s)) (rel i))) Q"
  unfolding runs_bind
proof (rule read_log [OF assms(1,2)], goal_cases)
  case (3 i t)
  note t = 3
  have own: "own s j x \<Longrightarrow> x \<noteq> b" for j x using own_busy [OF linv_inv [OF assms(1)]] assms(2) by blast
  have "may t b" "0 < space t" using t assms(3,4) may_frame [of t s] by simp_all
  from put_lwr_rel [OF t(1,5) this, of "f (dv_view (dv s) b)"]
  have "runs (bindR (lwr i (put i (f (dv_view (dv s) b)) t)) (rel i)) Q"
  proof (rule runs_mono, goal_cases)
    case (1 u)
    then have "own s j x \<Longrightarrow> own u j x" for j x using t(6) own by blast
    then show ?case using 1 t(2-4) assms(2) by (intro Q) simp_all
  qed
  then show ?case using t(7) by (simp add: runs_bind)
qed (use assms(3,4) may_size in auto)
end

lemma log_inv_stable:
  assumes "log_inv s" "bio_inv t" "off_bio t = off_bio s" "pinned t = pinned s" "disk t = disk s"
  shows "log_inv t"
  using assms(1,2,4,5) off_bio_log [OF assms(3)] by (simp add: log_inv_def)

lemma off_log_fields:
  assumes "off_log t = off_log s"
  shows "log_dev t = log_dev s" "log_start t = log_start s" "log_size t = log_size s" "outstanding t = outstanding s"
    "committing t = committing s" "disksize t = disksize s" "mypid t = mypid s"
proof -
  have "off_bio (t\<lparr>lh := []\<rparr>) = off_bio (s\<lparr>lh := []\<rparr>)" using assms by (simp add: off_log_def)
  note off_bio_log [OF this]
  then show "log_dev t = log_dev s" "log_start t = log_start s" "log_size t = log_size s" "outstanding t = outstanding s"
    "committing t = committing s" "disksize t = disksize s" "mypid t = mypid s" by simp_all
qed

interpretation lcache: logged_cache "bread 1" bset bwrite brelse "\<lambda>i s. bdata i s" bio_inv bdev_of off_bio holds NBUF
    log_write log_inv room loggable off_log
proof (unfold_locales, goal_cases)
  case (1 s)
  then show ?case by (rule log_invD)
next
  case (2 s t)
  then show ?case using log_inv_stable [of s t] by (simp add: bdev_of_simps)
next
  case (3 t s)
  then show ?case using off_bio_log(3,4) [OF 3] by (simp add: off_log_def room_def)
next
  case (4 t s)
  then show ?case by (auto simp: loggable_def fun_eq_iff off_log_fields [OF 4])
next
  case (5 s b)
  then show ?case by (simp add: loggable_def bdev_of_simps)
next
  case (6 s)
  note f = log_invD [OF 6]
  have "card (pinned s) = length (lh s)" using f(3,4) distinct_card by simp
  then show ?case using f(5,6) by (simp add: bdev_of_simps room_def)
next
  case (7 s i b)
  then obtain t where "log_write i s = Inr t" "log_inv t" "holds t = holds s" "off_log t = off_log s"
    "bdev_of t = (bdev_of s)\<lparr>dv_pinned := insert b (pinned s)\<rparr>" "lh t = (if b \<in> set (lh s) then lh s else lh s @ [b])"
    using log_write_abs by blast
  then show ?case using off_log_fields(3) [of t s] 7(4) by (simp add: bdev_of_simps room_def) arith
qed

text \<open>A small disk: the log has blocks 2 to 31, the header is empty.\<close>

definition ex_disk :: "nat \<Rightarrow> block" where
  "ex_disk = (\<lambda>_ _. 0)(1 := put32 12 30 (put32 16 2 (\<lambda>_. 0)))"

definition ex_boot :: logst where
  "ex_boot = \<lparr>ram = (\<lambda>_. 0), freelist = 0, use_lock = True, kend = 0, kpgdir = 0, cr3 = 0, tss_esp0 = 0, kdata = 0,
     ptable = (\<lambda>_. ex_proc), nextpid = 2, initproc = Some 0, cpu_proc = Some 0, disk = ex_disk, disksize = 1000, writes = [], bufs = (\<lambda>_. zero_buf),
     log_start = 2, log_size = 30, outstanding = 1, committing = False, log_dev = 1, lh = []\<rparr>"

lemma ex_boot_facts:
  "log_inv (binit ex_boot)" "view (binit ex_boot) = ex_disk" "disk (binit ex_boot) = ex_disk" "busy (binit ex_boot) = {}"
  "outstanding (binit ex_boot) = 1" "committing (binit ex_boot) = False" "room (binit ex_boot) = 29"
  "loggable (binit ex_boot) 40" "log_start (binit ex_boot) = 2" "log_size (binit ex_boot) = 30"
proof -
  have z: "bufs ex_boot = (\<lambda>_. zero_buf)" by (simp add: ex_boot_def)
  have f: "disk ex_boot = ex_disk" by (simp add: ex_boot_def)
  note b = binit_ok [OF z] and o = off_bio_log [OF binit_ok(3) [OF z]]
  show v: "view (binit ex_boot) = ex_disk" "disk (binit ex_boot) = ex_disk" "busy (binit ex_boot) = {}"
    using bdev_of_simps(1,2,4) [of "binit ex_boot"] by (simp_all add: b(2) f)
  have p: "pinned (binit ex_boot) = {}" using bdev_of_simps(5) [of "binit ex_boot"] by (simp add: b(2))
  have "logstart (sb_of (ex_disk 1)) = 2" "nlog (sb_of (ex_disk 1)) = 30" "get32 (ex_disk 2) 0 = 0"
    by (simp_all add: sb_of_def Let_def ex_disk_def get_put32_other) (simp add: get32_def)
  then show "log_inv (binit ex_boot)"
    unfolding log_inv_def p v(2) using b(1) o by (simp add: ex_boot_def)
  show "outstanding (binit ex_boot) = 1" "committing (binit ex_boot) = False" "room (binit ex_boot) = 29"
    "loggable (binit ex_boot) 40" "log_start (binit ex_boot) = 2" "log_size (binit ex_boot) = 30"
    using o by (simp_all add: ex_boot_def room_def loggable_def)
qed

section \<open>Properties\<close>

text \<open>C2: The log makes the file system operations of a transaction atomic with respect to crashes. When the
  last operation ends, \<open>end_op\<close> commits without a panic: every block outside the log is then on the disk as
  the operations left it and the log is empty. If the machine stops after any number of the disk writes
  of this commit, the next boot (an empty cache, and \<open>initlog\<close> with its recovery) succeeds and leaves the
  blocks outside the log all as they were before the transaction, or all as the transaction left
  them.\<close>

theorem end_op_crash_atomic:
  fixes s :: "'a logst_scheme"
  assumes "log_inv s" "busy s = {}" "outstanding s = 1" "\<not> committing s"
  shows "\<exists>t ws. end_op s = Inr t \<and> log_inv t \<and> lh t = [] \<and> outstanding t = 0 \<and>
    (\<forall>b. \<not> in_log s b \<longrightarrow> disk t b = view s b \<and> view t b = view s b) \<and> writes t = writes s @ ws \<and>
    (\<forall>k. \<forall>r :: 'a logst_scheme. bufs r = (\<lambda>_. zero_buf) \<and> disksize r = disksize s \<and>
        disk r = apply_writes (take k ws) (disk s) \<longrightarrow>
      (\<exists>u. initlog 1 (binit r) = Inr u \<and> log_inv u \<and> lh u = [] \<and>
        ((\<forall>b. \<not> in_log s b \<longrightarrow> disk u b = disk s b) \<or> (\<forall>b. \<not> in_log s b \<longrightarrow> disk u b = view s b))))"
proof -
  let ?s = "s\<lparr>outstanding := 0, committing := True\<rparr>"
  let ?ws = "if lh s = [] then [] else commit_writes (log_start s) (lh s) (view s)"
  have inv: "log_inv ?s" "busy ?s = {}" using assms(1,2) by simp_all
  obtain t where t: "commit ?s = Inr t" "log_inv t" "lh t = []" "outstanding t = 0" "writes t = writes s @ ?ws"
    "\<And>b. \<not> in_log s b \<Longrightarrow> disk t b = view s b \<and> view t b = view s b"
    using commit_done [OF inv] by (auto simp: runs_def in_log_def)
  have e: "end_op s = Inr (wakeup (''log'', 0) (t\<lparr>committing := False\<rparr>))"
    using assms(3,4) t(1) by (simp add: end_op_def)
  have "\<exists>u. initlog 1 (binit r) = Inr u \<and> log_inv u \<and> lh u = [] \<and>
      ((\<forall>b. \<not> in_log s b \<longrightarrow> disk u b = disk s b) \<or> (\<forall>b. \<not> in_log s b \<longrightarrow> disk u b = view s b))"
    if r: "bufs r = (\<lambda>_. zero_buf)" "disksize r = disksize s" "disk r = apply_writes (take k ?ws) (disk s)"
    for r :: "'a logst_scheme" and k
  proof -
    have "disk r = apply_writes (take (if lh s = [] then 0 else k) (commit_writes (log_start s) (lh s) (view s))) (disk s)"
      using r(3) by simp
    note q = recovered_commit [OF assms(1,2) r(1,2) this]
    then show ?thesis unfolding runs_def by (rule ex_forward) (simp split: if_splits)
  qed
  then show ?thesis
    using e t by (intro exI [of _ "wakeup (''log'', 0) (t\<lparr>committing := False\<rparr>)"] exI [of _ ?ws]) auto
qed

text \<open>A transaction that changes block 40, and its commit.\<close>

lemma ex_transaction:
  "\<exists>s. log_inv s \<and> busy s = {} \<and> outstanding s = 1 \<and> \<not> committing s \<and> view s 40 = (\<lambda>_. 7) \<and> disk s 40 = (\<lambda>_. 0) \<and>
    \<not> in_log (s :: logst) 40"
proof -
  let ?b = "binit ex_boot"
  have "runs (bindR (bread 1 40 ?b) (\<lambda>(i, s). bindR (log_write i (bset i (\<lambda>_. 7) s)) (brelse i)))
    (\<lambda>u. log_inv u \<and> off_log u = off_log ?b \<and> bdev_of u = (bdev_of ?b)\<lparr>dv_view := (dv_view (bdev_of ?b))(40 := (\<lambda>_. 7)),
      dv_pinned := insert 40 (dv_pinned (bdev_of ?b))\<rparr>)"
    by (rule lcache.read_put_lwr_rel [where f = "\<lambda>_ _. 7"]) (use ex_boot_facts in \<open>simp_all add: bdev_of_simps\<close>)
  then obtain u where u: "log_inv u" "off_log u = off_log ?b" "bdev_of u = (bdev_of ?b)\<lparr>dv_view := (dv_view (bdev_of ?b))(40 := (\<lambda>_. 7)),
      dv_pinned := insert 40 (dv_pinned (bdev_of ?b))\<rparr>" by (auto simp: runs_def)
  have "view u 40 = (\<lambda>_. 7)" "disk u 40 = (\<lambda>_. 0)" "busy u = {}"
    unfolding bdev_of_simps [symmetric, of u] u(3) by (simp_all add: bdev_of_simps ex_boot_facts ex_disk_def)
  then show ?thesis
    using u(1) off_log_fields [OF u(2)] ex_boot_facts by (intro exI [of _ u]) (simp add: in_log_def)
qed

theorem end_op_crash_atomic_witness:
  "\<exists>(s :: logst) t. disk s 40 0 = 0 \<and> end_op s = Inr t \<and> log_inv t \<and> disk t 40 0 = 7"
proof -
  obtain s :: logst where s: "log_inv s" "busy s = {}" "outstanding s = 1" "\<not> committing s" "view s 40 = (\<lambda>_. 7)"
    "disk s 40 = (\<lambda>_. 0)" "\<not> in_log s 40" using ex_transaction by blast
  then obtain t where t: "end_op s = Inr t" "log_inv t" "disk t 40 = view s 40"
    using end_op_crash_atomic [OF s(1-4)] by blast
  then show ?thesis using s(5,6) by (intro exI [of _ s] exI [of _ t]) simp
qed


text \<open>A file system operation that changes a block through the log (\<open>bread\<close>, change the data, \<open>log_write\<close>,
  \<open>brelse\<close>), when the block is not locked and the log has room, succeeds: every later read sees the new
  data, the block is recorded in the log header and stays in the cache, and nothing is written to the disk
  before the commit.\<close>

lemma log_write_defers:
  assumes "log_inv s" "b \<notin> busy s" "loggable s b" "card (busy s) < room s"
  shows "\<exists>t. bindR (bread 1 b s) (\<lambda>(i, s). bindR (log_write i (bset i (f (bdata i s)) s)) (brelse i)) = Inr t \<and>
    log_inv t \<and> view t = (view s)(b := f (view s b)) \<and> busy t = busy s \<and> set (lh t) = insert b (set (lh s)) \<and>
    disk t = disk s \<and> writes t = writes s"
proof -
  have "runs (bindR (bread 1 b s) (\<lambda>(i, s). bindR (log_write i (bset i (f (bdata i s)) s)) (brelse i)))
    (\<lambda>t. log_inv t \<and> bdev_of t = (bdev_of s)\<lparr>dv_view := (dv_view (bdev_of s))(b := f (dv_view (bdev_of s) b)),
      dv_pinned := insert b (dv_pinned (bdev_of s))\<rparr>)"
    by (rule lcache.read_put_lwr_rel) (use assms in \<open>simp_all add: bdev_of_simps\<close>)
  then show ?thesis
    unfolding runs_def
  proof (rule ex_forward)
    fix t
    assume t: "bindR (bread 1 b s) (\<lambda>(i, s). bindR (log_write i (bset i (f (bdata i s)) s)) (brelse i)) = Inr t \<and>
      log_inv t \<and> bdev_of t = (bdev_of s)\<lparr>dv_view := (dv_view (bdev_of s))(b := f (dv_view (bdev_of s) b)),
      dv_pinned := insert b (dv_pinned (bdev_of s))\<rparr>"
    then have "pinned t = insert b (pinned s)" "view t = (view s)(b := f (view s b))" "busy t = busy s" "disk t = disk s"
      "writes t = writes s"
      by (simp_all add: bdev_of_def)
    then show "bindR (bread 1 b s) (\<lambda>(i, s). bindR (log_write i (bset i (f (bdata i s)) s)) (brelse i)) = Inr t \<and>
      log_inv t \<and> view t = (view s)(b := f (view s b)) \<and> busy t = busy s \<and> set (lh t) = insert b (set (lh s)) \<and>
      disk t = disk s \<and> writes t = writes s"
      using t log_invD(3) [OF assms(1)] log_invD(3) [of t] by simp
  qed
qed

lemma log_write_defers_witness:
  "\<exists>t. bindR (bread 1 40 (binit ex_boot)) (\<lambda>(i, s). bindR (log_write i (bset i (\<lambda>_. 7) s)) (brelse i)) = Inr t \<and>
    view t 40 0 = 7 \<and> disk t 40 0 = 0"
  using log_write_defers [OF ex_boot_facts(1) _ ex_boot_facts(8), of "\<lambda>_ _. 7"]
  by (auto simp: ex_boot_facts ex_disk_def)

end
