(* ===== verification/Xv6_Inode.thy ===== *)
theory Xv6_Inode
  imports Xv6_Log
begin

text \<open>
  The lower half of \<open>fs.c\<close>: the free map of blocks, the inodes on the disk and the cache of inodes in
  memory, and the blocks of an inode. An inode is locked and referenced by the index of its entry in
  the cache. \<open>icache.lock\<close> makes each access to reference counts one step.
\<close>

section \<open>Data\<close>

abbreviation NINODE :: nat where "NINODE \<equiv> 50"
abbreviation NDIRECT :: nat where "NDIRECT \<equiv> 12"
abbreviation NINDIRECT :: nat where "NINDIRECT \<equiv> 128"
abbreviation MAXFILE :: nat where "MAXFILE \<equiv> 140"
abbreviation ROOTDEV :: nat where "ROOTDEV \<equiv> 1"
abbreviation ROOTINO :: nat where "ROOTINO \<equiv> 1"
abbreviation T_DIR :: u16 where "T_DIR \<equiv> 1"
abbreviation T_FILE :: u16 where "T_FILE \<equiv> 2"
abbreviation T_DEV :: u16 where "T_DEV \<equiv> 3"

text \<open>The inode on the disk: \<open>IPB\<close> of them, of 64 bytes each, make a block.\<close>

record dinode =
  d_type :: u16
  d_major :: u16
  d_minor :: u16
  d_nlink :: u16
  d_size :: nat
  d_addrs :: "nat list"

record inode =
  i_dev :: nat
  i_inum :: nat
  i_ref :: int
  i_lock :: sleeplock
  i_valid :: bool
  i_dinode :: dinode

record fsst = logst +
  sb :: superblock
  icache :: "nat \<Rightarrow> inode"

abbreviation IPB :: nat where "IPB \<equiv> 8"
abbreviation BPB :: nat where "BPB \<equiv> 4096"

definition IBLOCK :: "nat \<Rightarrow> superblock \<Rightarrow> nat" where
  "IBLOCK i x = i div IPB + inodestart x"

definition BBLOCK :: "nat \<Rightarrow> superblock \<Rightarrow> nat" where
  "BBLOCK b x = b div BPB + bmapstart x"

definition get16 :: "block \<Rightarrow> nat \<Rightarrow> u16" where
  "get16 d k = ucast (d k) OR push_bit 8 (ucast (d (k + 1)))"

definition put16 :: "nat \<Rightarrow> u16 \<Rightarrow> block \<Rightarrow> block" where
  "put16 k v d = d(k := ucast v, k + 1 := ucast (drop_bit 8 v))"

definition get_dinode :: "nat \<Rightarrow> block \<Rightarrow> dinode" where
  "get_dinode n d = (let k = 64 * n in
     \<lparr>d_type = get16 d k, d_major = get16 d (k + 2), d_minor = get16 d (k + 4), d_nlink = get16 d (k + 6),
      d_size = unat (get32 d (k + 8)), d_addrs = map (\<lambda>i. unat (get32 d (k + 12 + 4 * i))) [0..<NDIRECT + 1]\<rparr>)"

definition put_addrs :: "nat \<Rightarrow> nat list \<Rightarrow> block \<Rightarrow> block" where
  "put_addrs k as d = fold (\<lambda>i. put32 (k + 4 * i) (of_nat (as ! i))) [0..<NDIRECT + 1] d"

definition put_dinode :: "nat \<Rightarrow> dinode \<Rightarrow> block \<Rightarrow> block" where
  "put_dinode n x d = (let k = 64 * n in
     put_addrs (k + 12) (d_addrs x) (put32 (k + 8) (of_nat (d_size x)) (put16 (k + 6) (d_nlink x)
       (put16 (k + 4) (d_minor x) (put16 (k + 2) (d_major x) (put16 k (d_type x) d))))))"

abbreviation upd_inode :: "nat \<Rightarrow> (inode \<Rightarrow> inode) \<Rightarrow> 'a fsst_scheme \<Rightarrow> 'a fsst_scheme" where
  "upd_inode ip f s \<equiv> s\<lparr>icache := (icache s)(ip := f (icache s ip))\<rparr>"

abbreviation upd_dinode :: "nat \<Rightarrow> (dinode \<Rightarrow> dinode) \<Rightarrow> 'a fsst_scheme \<Rightarrow> 'a fsst_scheme" where
  "upd_dinode ip f s \<equiv> upd_inode ip (i_dinode_update f) s"

abbreviation idata :: "nat \<Rightarrow> 'a fsst_scheme \<Rightarrow> dinode" where
  "idata ip s \<equiv> i_dinode (icache s ip)"

section \<open>Blocks\<close>

text \<open>Changing a block through the log: \<open>bread\<close>, the change, \<open>log_write\<close>, \<open>brelse\<close>.\<close>

definition log_update :: "nat \<Rightarrow> nat \<Rightarrow> (block \<Rightarrow> block) \<Rightarrow> 'a logst_scheme \<Rightarrow> 'a logst_scheme res" where
  "log_update dev b f s =
     bindR (bread dev b s) (\<lambda>(bp, s). bindR (log_write bp (bset bp (f (bdata bp s)) s)) (brelse bp))"

definition zero_block :: "block \<Rightarrow> block" where
  "zero_block d = (\<lambda>k. if k < BSIZE then 0 else d k)"

definition bzero :: "nat \<Rightarrow> nat \<Rightarrow> 'a logst_scheme \<Rightarrow> 'a logst_scheme res" where
  "bzero dev bno s = log_update dev bno zero_block s"

text \<open>The bit of block \<open>b\<close> in a block of the free map.\<close>

definition bit_set :: "block \<Rightarrow> nat \<Rightarrow> bool" where
  "bit_set d bi \<longleftrightarrow> d (bi div 8) AND push_bit (bi mod 8) 1 \<noteq> 0"

definition set_bit_of :: "nat \<Rightarrow> block \<Rightarrow> block" where
  "set_bit_of bi d = d(bi div 8 := d (bi div 8) OR push_bit (bi mod 8) 1)"

definition clear_bit_of :: "nat \<Rightarrow> block \<Rightarrow> block" where
  "clear_bit_of bi d = d(bi div 8 := d (bi div 8) AND NOT (push_bit (bi mod 8) 1))"

text \<open>
  The loop of \<open>balloc\<close> over the blocks of the free map, of which \<open>n\<close> are left when the search is at the
  bit of block \<open>b\<close>.
\<close>

fun balloc_from :: "nat \<Rightarrow> nat \<Rightarrow> nat \<Rightarrow> 'a fsst_scheme \<Rightarrow> (nat \<times> 'a fsst_scheme) res" where
  "balloc_from 0 b dev s = Inl (Panic ''balloc: out of blocks'')"
| "balloc_from (Suc n) b dev s =
     bindR (bread dev (BBLOCK b (sb s)) s) (\<lambda>(bp, s).
       case find (\<lambda>bi. \<not> bit_set (bdata bp s) bi) [0..<min BPB (sb_size (sb s) - b)] of
         Some bi \<Rightarrow>
           bindR (log_write bp (bset bp (set_bit_of bi (bdata bp s)) s)) (\<lambda>s.
           bindR (brelse bp s) (\<lambda>s.
           bindR (bzero dev (b + bi) s) (\<lambda>s. Inr (b + bi, s))))
       | None \<Rightarrow> bindR (brelse bp s) (\<lambda>s. balloc_from n (b + BPB) dev s))"

definition balloc :: "nat \<Rightarrow> 'a fsst_scheme \<Rightarrow> (nat \<times> 'a fsst_scheme) res" where
  "balloc dev s = balloc_from ((sb_size (sb s) + BPB - 1) div BPB) 0 dev s"

definition bfree :: "nat \<Rightarrow> nat \<Rightarrow> 'a fsst_scheme \<Rightarrow> 'a fsst_scheme res" where
  "bfree dev b s =
     bindR (readsb dev s) (\<lambda>(sb', s).
     let s = s\<lparr>sb := sb'\<rparr>
     in bindR (bread dev (BBLOCK b (sb s)) s) (\<lambda>(bp, s).
          let bi = b mod BPB
          in if \<not> bit_set (bdata bp s) bi then Inl (Panic ''freeing free block'')
             else bindR (log_write bp (bset bp (clear_bit_of bi (bdata bp s)) s)) (brelse bp)))"

section \<open>Inodes\<close>

definition iinit :: "nat \<Rightarrow> 'a fsst_scheme \<Rightarrow> 'a fsst_scheme res" where
  "iinit dev s =
     (let s = s\<lparr>icache := (\<lambda>i. if i < NINODE then (icache s i)\<lparr>i_lock := initsleeplock\<rparr> else icache s i)\<rparr>
      in bindR (readsb dev s) (\<lambda>(sb', s). Inr (s\<lparr>sb := sb'\<rparr>)))"

definition iget :: "nat \<Rightarrow> nat \<Rightarrow> 'a fsst_scheme \<Rightarrow> (nat \<times> 'a fsst_scheme) res" where
  "iget dev inum s =
     (case find (\<lambda>i. i_ref (icache s i) > 0 \<and> i_dev (icache s i) = dev \<and> i_inum (icache s i) = inum) [0..<NINODE] of
        Some ip \<Rightarrow> Inr (ip, upd_inode ip (\<lambda>x. x\<lparr>i_ref := i_ref x + 1\<rparr>) s)
      | None \<Rightarrow>
          (case find (\<lambda>i. i_ref (icache s i) = 0) [0..<NINODE] of
             None \<Rightarrow> Inl (Panic ''iget: no inodes'')
           | Some ip \<Rightarrow> Inr (ip, upd_inode ip (\<lambda>x. x\<lparr>i_dev := dev, i_inum := inum, i_ref := 1, i_valid := False\<rparr>) s)))"

text \<open>The loop of \<open>ialloc\<close>, with \<open>n\<close> inodes left to look at.\<close>

definition zero_dinode :: dinode where
  "zero_dinode = \<lparr>d_type = 0, d_major = 0, d_minor = 0, d_nlink = 0, d_size = 0, d_addrs = replicate (NDIRECT + 1) 0\<rparr>"

fun ialloc_from :: "nat \<Rightarrow> nat \<Rightarrow> nat \<Rightarrow> u16 \<Rightarrow> 'a fsst_scheme \<Rightarrow> (nat \<times> 'a fsst_scheme) res" where
  "ialloc_from 0 inum dev type s = Inl (Panic ''ialloc: no inodes'')"
| "ialloc_from (Suc n) inum dev type s =
     bindR (bread dev (IBLOCK inum (sb s)) s) (\<lambda>(bp, s).
       let dip = get_dinode (inum mod IPB) (bdata bp s)
       in if d_type dip = 0
          then bindR (log_write bp (bset bp (put_dinode (inum mod IPB) (zero_dinode\<lparr>d_type := type\<rparr>) (bdata bp s)) s)) (\<lambda>s.
               bindR (brelse bp s) (\<lambda>s. iget dev inum s))
          else bindR (brelse bp s) (\<lambda>s. ialloc_from n (inum + 1) dev type s))"

definition ialloc :: "nat \<Rightarrow> u16 \<Rightarrow> 'a fsst_scheme \<Rightarrow> (nat \<times> 'a fsst_scheme) res" where
  "ialloc dev type s = ialloc_from (ninodes (sb s) - 1) 1 dev type s"

definition iupdate :: "nat \<Rightarrow> 'a fsst_scheme \<Rightarrow> 'a fsst_scheme res" where
  "iupdate ip s =
     (let x = icache s ip
      in log_update (i_dev x) (IBLOCK (i_inum x) (sb s)) (put_dinode (i_inum x mod IPB) (i_dinode x)) s)"

definition idup :: "nat \<Rightarrow> 'a fsst_scheme \<Rightarrow> 'a fsst_scheme" where
  "idup ip s = upd_inode ip (\<lambda>x. x\<lparr>i_ref := i_ref x + 1\<rparr>) s"

text \<open>A null pointer to an inode is \<open>None\<close>.\<close>

definition lock_inode :: "nat \<Rightarrow> 'a fsst_scheme \<Rightarrow> 'a fsst_scheme res" where
  "lock_inode ip s =
     bindR (acquiresleep (''inode'', ip) (mypid s) (i_lock (icache s ip))) (\<lambda>lk.
       Inr (upd_inode ip (i_lock_update (\<lambda>_. lk)) s))"

definition unlock_inode :: "nat \<Rightarrow> 'a fsst_scheme \<Rightarrow> 'a fsst_scheme" where
  "unlock_inode ip s = wakeup (''inode'', ip) (upd_inode ip (\<lambda>x. x\<lparr>i_lock := releasesleep (i_lock x)\<rparr>) s)"

definition ilock :: "nat option \<Rightarrow> 'a fsst_scheme \<Rightarrow> 'a fsst_scheme res" where
  "ilock ipp s =
     (case ipp of None \<Rightarrow> Inl (Panic ''ilock'')
      | Some ip \<Rightarrow>
          if i_ref (icache s ip) < 1 then Inl (Panic ''ilock'')
          else bindR (lock_inode ip s) (\<lambda>s.
            if \<not> i_valid (icache s ip)
            then bindR (bread (i_dev (icache s ip)) (IBLOCK (i_inum (icache s ip)) (sb s)) s) (\<lambda>(bp, s).
                 let s = upd_dinode ip (\<lambda>_. get_dinode (i_inum (icache s ip) mod IPB) (bdata bp s)) s
                 in bindR (brelse bp s) (\<lambda>s.
                    let s = upd_inode ip (i_valid_update (\<lambda>_. True)) s
                    in if d_type (idata ip s) = 0 then Inl (Panic ''ilock: no type'') else Inr s))
            else Inr s))"

definition iunlock :: "nat option \<Rightarrow> 'a fsst_scheme \<Rightarrow> 'a fsst_scheme res" where
  "iunlock ipp s =
     (case ipp of None \<Rightarrow> Inl (Panic ''iunlock'')
      | Some ip \<Rightarrow>
          if \<not> holdingsleep (mypid s) (i_lock (icache s ip)) \<or> i_ref (icache s ip) < 1 then Inl (Panic ''iunlock'')
          else Inr (unlock_inode ip s))"

text \<open>The loops of \<open>itrunc\<close> over the direct blocks and over the entries of the indirect block.\<close>

fun free_direct :: "nat list \<Rightarrow> nat \<Rightarrow> 'a fsst_scheme \<Rightarrow> 'a fsst_scheme res" where
  "free_direct [] ip s = Inr s"
| "free_direct (i # is) ip s =
     (if d_addrs (idata ip s) ! i \<noteq> 0
      then bindR (bfree (i_dev (icache s ip)) (d_addrs (idata ip s) ! i) s) (\<lambda>s.
           free_direct is ip (upd_dinode ip (\<lambda>x. x\<lparr>d_addrs := (d_addrs x)[i := 0]\<rparr>) s))
      else free_direct is ip s)"

fun free_indirect :: "nat list \<Rightarrow> nat \<Rightarrow> nat \<Rightarrow> 'a fsst_scheme \<Rightarrow> 'a fsst_scheme res" where
  "free_indirect [] ip bp s = Inr s"
| "free_indirect (j # js) ip bp s =
     (if get32 (bdata bp s) (4 * j) \<noteq> 0
      then bindR (bfree (i_dev (icache s ip)) (unat (get32 (bdata bp s) (4 * j))) s) (\<lambda>s. free_indirect js ip bp s)
      else free_indirect js ip bp s)"

definition itrunc :: "nat \<Rightarrow> 'a fsst_scheme \<Rightarrow> 'a fsst_scheme res" where
  "itrunc ip s =
     bindR (free_direct [0..<NDIRECT] ip s) (\<lambda>s.
     bindR (let addr = d_addrs (idata ip s) ! NDIRECT; dev = i_dev (icache s ip)
            in if addr \<noteq> 0
               then bindR (bread dev addr s) (\<lambda>(bp, s).
                    bindR (free_indirect [0..<NINDIRECT] ip bp s) (\<lambda>s.
                    bindR (brelse bp s) (\<lambda>s.
                    bindR (bfree dev addr s) (\<lambda>s.
                      Inr (upd_dinode ip (\<lambda>x. x\<lparr>d_addrs := (d_addrs x)[NDIRECT := 0]\<rparr>) s)))))
               else Inr s) (\<lambda>s.
     iupdate ip (upd_dinode ip (\<lambda>x. x\<lparr>d_size := 0\<rparr>) s)))"

definition iput :: "nat \<Rightarrow> 'a fsst_scheme \<Rightarrow> 'a fsst_scheme res" where
  "iput ip s =
     bindR (lock_inode ip s) (\<lambda>s.
     bindR (if i_valid (icache s ip) \<and> d_nlink (idata ip s) = 0 \<and> i_ref (icache s ip) = 1
            then bindR (itrunc ip s) (\<lambda>s.
                 bindR (iupdate ip (upd_dinode ip (\<lambda>x. x\<lparr>d_type := 0\<rparr>) s)) (\<lambda>s.
                   Inr (upd_inode ip (\<lambda>x. x\<lparr>i_valid := False\<rparr>) s)))
            else Inr s) (\<lambda>s.
     Inr (upd_inode ip (\<lambda>x. x\<lparr>i_ref := i_ref x - 1\<rparr>) (unlock_inode ip s))))"

definition iunlockput :: "nat \<Rightarrow> 'a fsst_scheme \<Rightarrow> 'a fsst_scheme res" where
  "iunlockput ip s = bindR (iunlock (Some ip) s) (iput ip)"

section \<open>The blocks of an inode\<close>

definition bmap :: "nat \<Rightarrow> nat \<Rightarrow> 'a fsst_scheme \<Rightarrow> (nat \<times> 'a fsst_scheme) res" where
  "bmap ip bn s =
     (let dev = i_dev (icache s ip); alloc = (\<lambda>i s.
            if d_addrs (idata ip s) ! i = 0
            then bindR (balloc dev s) (\<lambda>(addr, s).
                 Inr (addr, upd_dinode ip (\<lambda>x. x\<lparr>d_addrs := (d_addrs x)[i := addr]\<rparr>) s))
            else Inr (d_addrs (idata ip s) ! i, s))
      in if bn < NDIRECT then alloc bn s
         else if bn - NDIRECT < NINDIRECT
         then bindR (alloc NDIRECT s) (\<lambda>(addr, s).
              bindR (bread dev addr s) (\<lambda>(bp, s).
                let a = get32 (bdata bp s) (4 * (bn - NDIRECT))
                in if a = 0
                   then bindR (balloc dev s) (\<lambda>(addr, s).
                        bindR (log_write bp (bset bp (put32 (4 * (bn - NDIRECT)) (of_nat addr) (bdata bp s)) s)) (\<lambda>s.
                        bindR (brelse bp s) (\<lambda>s. Inr (addr, s))))
                   else bindR (brelse bp s) (\<lambda>s. Inr (unat a, s))))
         else Inl (Panic ''bmap: out of range''))"

record stat =
  st_type :: u16
  st_dev :: nat
  st_ino :: nat
  st_nlink :: u16
  st_size :: nat

definition stati :: "nat \<Rightarrow> 'a fsst_scheme \<Rightarrow> stat" where
  "stati ip s = \<lparr>st_type = d_type (idata ip s), st_dev = i_dev (icache s ip), st_ino = i_inum (icache s ip),
     st_nlink = d_nlink (idata ip s), st_size = d_size (idata ip s)\<rparr>"


section \<open>Blocks through the log\<close>

lemma off_log_fs:
  fixes s t :: "'a fsst_scheme"
  assumes "off_log t = off_log s"
  shows "sb t = sb s" "icache t = icache s" "loggable t = loggable s" "disksize t = disksize s" "mypid t = mypid s"
  using arg_cong [OF assms, of sb] arg_cong [OF assms, of icache] off_log_fields [OF assms]
  by (simp_all add: off_log_def off_bio_def loggable_def fun_eq_iff)

lemma bread_log:
  assumes "log_inv s" "b \<notin> busy s" "b < disksize s" "card (busy s) \<le> room s"
    and Q: "\<And>i t. log_inv t \<Longrightarrow> off_log t = off_log s \<Longrightarrow> room t = room s \<Longrightarrow> view t = view s \<Longrightarrow> busy t = insert b (busy s) \<Longrightarrow>
      holds t i b \<Longrightarrow> (\<And>j x. holds s j x \<Longrightarrow> holds t j x) \<Longrightarrow> bdata i t = view s b \<Longrightarrow> b \<in> pinned t \<or> view t b = disk t b \<Longrightarrow> Q (i, t)"
  shows "runs (bread 1 b s) Q"
proof (rule lcache.read_log, goal_cases)
  case (5 i t)
  from 5(4) have "view t = view s" "busy t = insert b (busy s)" "pinned t = pinned s" "disk t = disk s" by (simp_all add: bdev_of_def)
  then show ?case using 5 by (intro Q) (simp_all add: bdev_of_simps)
qed (use assms(1-4) in \<open>simp_all add: bdev_of_simps\<close>)

lemma bread_brelse:
  assumes "log_inv s" "b \<notin> busy s" "b < disksize s" "card (busy s) \<le> room s"
    and Q: "\<And>i t u. off_log t = off_log s \<Longrightarrow> bdata i t = view s b \<Longrightarrow> brelse i t = Inr u \<Longrightarrow> log_inv u \<Longrightarrow> off_log u = off_log s \<Longrightarrow>
      room u = room s \<Longrightarrow> view u = view s \<Longrightarrow> busy u = busy s \<Longrightarrow> (\<And>j x. holds s j x \<Longrightarrow> holds u j x) \<Longrightarrow> Q (i, t)"
  shows "runs (bread 1 b s) Q"
proof (rule lcache.read_rel_log, goal_cases)
  case (5 i t u)
  from 5(8) have "view u = view s" "busy u = busy s" by (simp_all add: bdev_of_def)
  then show ?case using 5 by (intro Q [of t i u]) (simp_all add: bdev_of_simps)
qed (use assms(1-4) in \<open>simp_all add: bdev_of_simps\<close>)

text \<open>A buffer that is held is changed through the log and released.\<close>

lemma log_write_brelse:
  assumes "log_inv t" "holds t i b" "loggable t b" "0 < room t"
  shows "runs (bindR (log_write i (bset i d t)) (brelse i)) (\<lambda>u. log_inv u \<and> off_log u = off_log t \<and> room t \<le> room u + 1 \<and>
    (\<forall>j x. holds t j x \<longrightarrow> x \<noteq> b \<longrightarrow> holds u j x) \<and> view u = (view t)(b := d) \<and> busy u = busy t - {b})"
proof (rule runs_mono [OF lcache.put_lwr_rel [OF assms, of d]], goal_cases)
  case (1 u)
  then have "bdev_of u = (bdev_of t)\<lparr>dv_view := (dv_view (bdev_of t))(b := d), dv_busy := dv_busy (bdev_of t) - {b},
      dv_pinned := insert b (dv_pinned (bdev_of t))\<rparr>" by simp
  then have "view u = (view t)(b := d)" "busy u = busy t - {b}" by (simp_all add: bdev_of_def)
  then show ?case using 1 by simp
qed

lemma log_update_runs:
  assumes "log_inv s" "b \<notin> busy s" "loggable s b" "card (busy s) < room s"
  shows "runs (log_update 1 b f s) (\<lambda>u. log_inv u \<and> off_log u = off_log s \<and> room s \<le> room u + 1 \<and>
    (\<forall>j x. holds s j x \<longrightarrow> holds u j x) \<and> view u = (view s)(b := f (view s b)) \<and> busy u = busy s)"
  unfolding log_update_def
proof (rule lcache.read_put_lwr_rel, goal_cases)
  case (5 u)
  from 5(5) have "view u = (view s)(b := f (view s b))" "busy u = busy s" by (simp_all add: bdev_of_def)
  then show ?case using 5 by simp
qed (use assms in \<open>simp_all add: bdev_of_simps\<close>)

section \<open>The free map\<close>

lemma bit_set_iff: "bit_set d bi \<longleftrightarrow> bit (d (bi div 8)) (bi mod 8)"
  by (simp add: bit_set_def bit_iff_and_push_bit_not_eq_0)

lemma same_bit: "bi = bj \<longleftrightarrow> bi div 8 = bj div 8 \<and> bi mod 8 = (bj :: nat) mod 8"
  by (metis div_mult_mod_eq)

lemma bit_set_set: "bit_set (set_bit_of bi d) bj \<longleftrightarrow> bj = bi \<or> bit_set d bj"
  unfolding same_bit [of bj bi] bit_set_iff set_bit_of_def by (auto simp: bit_simps)

lemma bit_set_clear: "bit_set (clear_bit_of bi d) bj \<longleftrightarrow> bj \<noteq> bi \<and> bit_set d bj"
  unfolding same_bit [of bj bi] bit_set_iff clear_bit_of_def by (auto simp: bit_simps)

lemma clear_set_bit: "\<not> bit_set d bi \<Longrightarrow> clear_bit_of bi (set_bit_of bi d) = d"
  unfolding clear_bit_of_def set_bit_of_def bit_set_iff
  by (rule ext) (auto simp: bit_simps intro!: bit_word_eqI)

text \<open>Block \<open>b\<close> is marked as used.\<close>

definition in_use :: "'a fsst_scheme \<Rightarrow> nat \<Rightarrow> bool" where
  "in_use s b \<longleftrightarrow> bit_set (view s (BBLOCK b (sb s))) (b mod BPB)"

text \<open>
  The blocks of the free map can be changed, and so can every free block; a free block is not a block of the map. No buffer is locked
  but those of \<open>B\<close>, which are blocks in use.
\<close>

definition map_ok :: "'a fsst_scheme \<Rightarrow> bool" where
  "map_ok s \<longleftrightarrow> log_inv s \<and>
     (\<forall>b < sb_size (sb s). loggable s (BBLOCK b (sb s)) \<and> BBLOCK b (sb s) \<notin> busy s \<and>
       (in_use s b \<or> loggable s b \<and> b \<notin> busy s \<and> b \<notin> (\<lambda>c. BBLOCK c (sb s)) ` {..<sb_size (sb s)}))"

lemma map_okD:
  assumes "map_ok s"
  shows "log_inv s" "\<And>b. b < sb_size (sb s) \<Longrightarrow> loggable s (BBLOCK b (sb s)) \<and> BBLOCK b (sb s) \<notin> busy s"
    "\<And>b. b < sb_size (sb s) \<Longrightarrow> \<not> in_use s b \<Longrightarrow> loggable s b \<and> b \<notin> busy s"
    "\<And>b c. b < sb_size (sb s) \<Longrightarrow> \<not> in_use s b \<Longrightarrow> c < sb_size (sb s) \<Longrightarrow> BBLOCK c (sb s) \<noteq> b"
  using assms unfolding map_ok_def by blast+

lemma map_ok_cong:
  assumes "map_ok s" "log_inv t" "off_log t = off_log s" "view t = view s" "busy t = busy s"
  shows "map_ok t" "in_use t = in_use s"
proof -
  show i: "in_use t = in_use s" using assms(4) off_log_fs [OF assms(3)] by (intro ext) (simp add: in_use_def)
  show "map_ok t" using assms(1,2,5) off_log_fs [OF assms(3)] unfolding map_ok_def i by simp
qed


text \<open>Block \<open>c\<close> has been taken from the free map and cleared.\<close>

definition taken :: "nat \<Rightarrow> 'a fsst_scheme \<Rightarrow> 'a fsst_scheme \<Rightarrow> bool" where
  "taken c s t \<longleftrightarrow> log_inv t \<and> off_log t = off_log s \<and> room s \<le> room t + 2 \<and> (\<forall>j x. holds s j x \<longrightarrow> holds t j x) \<and> busy t = busy s \<and>
     view t = (view s)(BBLOCK c (sb s) := set_bit_of (c mod BPB) (view s (BBLOCK c (sb s))), c := zero_block (view s c))"

lemma map_place:
  assumes "b mod BPB = 0" "x < BPB"
  shows "BBLOCK (b + x) y = BBLOCK b y" "(b + x) mod BPB = x"
proof -
  obtain k where "b = BPB * k" using assms(1) by (metis mod_0_imp_dvd dvdE)
  then show "BBLOCK (b + x) y = BBLOCK b y" "(b + x) mod BPB = x" using assms(2) by (simp_all add: BBLOCK_def)
qed

lemma take_block:
  assumes "map_ok s" "card (busy s) + 2 \<le> room s" "c < sb_size (sb s)" "\<not> in_use s c"
    and t: "log_inv t" "off_log t = off_log s" "room t = room s" "view t = view s" "busy t = insert (BBLOCK c (sb s)) (busy s)"
      "holds t i (BBLOCK c (sb s))" "\<And>j x. holds s j x \<Longrightarrow> holds t j x"
  shows "runs (bindR (bindR (log_write i (bset i (set_bit_of (c mod BPB) (view s (BBLOCK c (sb s)))) t)) (brelse i)) (bzero 1 c)) (taken c s)"
  unfolding runs_bind [of "bindR _ _"]
proof (rule runs_mono [OF log_write_brelse [OF t(1,6)]], goal_cases)
  let ?m = "BBLOCK c (sb s)"
  note s = map_okD [OF assms(1)]
  case (3 u)
  note u = 3 and f = off_log_fs [OF t(2)]
  have b: "busy u = busy s" using u t(5) s(2) [OF assms(3)] by auto
  have o: "off_log u = off_log s" using u t(2) by simp
  have h: "holds s j x \<Longrightarrow> x \<noteq> ?m" for j x
    using bcache.own_busy [OF log_invD(1) [OF s(1)]] s(2) [OF assms(3)] by (auto simp: bdev_of_simps)
  have r: "card (busy u) < room u" "room t \<le> room u + 1" using u t(3) b assms(2) by simp_all
  have l: "c \<notin> busy u" "loggable u c" using s(3) [OF assms(3,4)] b off_log_fs(3) [OF o] by simp_all
  have "log_inv u" using u by simp
  from log_update_runs [OF this l(1,2) r(1), of zero_block]
  show ?case
    unfolding bzero_def
  proof (rule runs_mono, goal_cases)
    case (1 v)
    have "?m \<noteq> c" using s(4) [OF assms(3,4,3)] .
    then have "view v = (view s)(?m := set_bit_of (c mod BPB) (view s ?m), c := zero_block (view s c))" using 1 u t(4) by simp
    then show ?case using 1 u o b r(2) t(3,7) h by (auto simp: taken_def)
  qed
qed (use off_log_fs [OF t(2)] map_okD(2) [OF assms(1,3)] assms(2) t(3) in simp_all)

lemma balloc_from_runs:
  assumes "map_ok s" "card (busy s) + 2 \<le> room s" "c < sb_size (sb s)" "\<not> in_use s c"
    "b mod BPB = 0" "b \<le> c" "\<And>x. b \<le> x \<Longrightarrow> x < c \<Longrightarrow> in_use s x" "sb_size (sb s) \<le> b + n * BPB"
  shows "runs (balloc_from n b 1 s) (\<lambda>(a, t). a = c \<and> taken c s t)"
  using assms
proof (induction n arbitrary: b s)
  case (Suc n)
  note s = map_okD [OF Suc.prems(1)] and place = map_place [OF Suc.prems(5)]
  have bs: "b < sb_size (sb s)" using Suc.prems(3,6) by simp
  have sz: "loggable s (BBLOCK b (sb s)) \<Longrightarrow> BBLOCK b (sb s) < disksize s" by (simp add: loggable_def)
  have used: "bit_set (view s (BBLOCK b (sb s))) x \<longleftrightarrow> in_use s (b + x)" if "x < BPB" for x
    using place [OF that] by (simp add: in_use_def)
  show ?case
  proof (cases "c < b + BPB")
    case True
    define x where "x = c - b"
    have x: "x < BPB" "c = b + x" using True Suc.prems(6) by (auto simp: x_def)
    have m: "BBLOCK b (sb s) = BBLOCK c (sb s)" "c mod BPB = x" using place [OF x(1)] x(2) by simp_all
    have fd: "find (\<lambda>bi. \<not> bit_set (view s (BBLOCK c (sb s))) bi) [0..<min BPB (sb_size (sb s) - b)] = Some x"
      unfolding find_Some_iff using x Suc.prems(3,4,7) used m(1) by (intro exI [of _ x]) auto
    show ?thesis
      unfolding balloc_from.simps runs_bind [of "bread _ _ _"] m(1)
    proof (rule bread_log, goal_cases)
      case (5 i t)
      from take_block [OF Suc.prems(1-4) 5(1-7)] show ?case
        using 5(8) off_log_fs(1) [OF 5(2)] m(2) x(2) fd by (simp add: runs_bind)
    qed (use s(1) s(2) [OF bs] sz m(1) Suc.prems(2) in simp_all)
  next
    case False
    then have nf: "find (\<lambda>bi. \<not> bit_set (view s (BBLOCK b (sb s))) bi) [0..<min BPB (sb_size (sb s) - b)] = None"
      unfolding find_None_iff using used Suc.prems(7) by auto
    show ?thesis
      unfolding balloc_from.simps runs_bind [of "bread _ _ _"]
    proof (rule bread_brelse, goal_cases)
      case (5 i t u)
      note f = off_log_fs [OF 5(5)] and c = map_ok_cong [OF Suc.prems(1) 5(4,5,7,8)]
      have "runs (balloc_from n (b + BPB) 1 u) (\<lambda>(a, v). a = c \<and> taken c u v)"
        by (rule Suc.IH) (use c f 5 Suc.prems False in auto)
      then have "runs (balloc_from n (b + BPB) 1 u) (\<lambda>(a, v). a = c \<and> taken c s v)"
        by (rule runs_mono) (use 5 f in \<open>auto simp: taken_def\<close>)
      then show ?case using 5(2,3) off_log_fs(1) [OF 5(1)] nf by (simp add: runs_bind)
    qed (use s(1) s(2) [OF bs] sz Suc.prems(2) in simp_all)
  qed
qed simp


lemma taken_in_use:
  assumes "map_ok s" "c < sb_size (sb s)" "\<not> in_use s c" "taken c s t" "b < sb_size (sb s)"
  shows "in_use t b \<longleftrightarrow> b = c \<or> in_use s b"
proof -
  have s: "sb t = sb s" using assms(4) off_log_fs(1) [of t s] by (simp add: taken_def)
  have v: "view t = (view s)(BBLOCK c (sb s) := set_bit_of (c mod BPB) (view s (BBLOCK c (sb s))), c := zero_block (view s c))"
    using assms(4) by (simp add: taken_def)
  have n: "BBLOCK b (sb s) \<noteq> c" using map_okD(4) [OF assms(1-3,5)] .
  show ?thesis
  proof (cases "BBLOCK b (sb s) = BBLOCK c (sb s)")
    case True
    then have "b = c \<longleftrightarrow> b mod BPB = c mod BPB" by (metis BBLOCK_def add_right_imp_eq div_mult_mod_eq)
    then show ?thesis using True n by (simp add: in_use_def s v bit_set_set)
  next
    case False
    then show ?thesis using n by (auto simp: in_use_def s v)
  qed
qed

lemma taken_map_ok:
  assumes "map_ok s" "c < sb_size (sb s)" "\<not> in_use s c" "taken c s t"
  shows "map_ok t"
proof -
  note i = taken_in_use [OF assms]
  have t: "log_inv t" "off_log t = off_log s" "busy t = busy s" using assms(4) by (simp_all add: taken_def)
  show ?thesis
    using assms(1) t(1) unfolding map_ok_def off_log_fs(1,3) [OF t(2)] t(3) by (auto simp: i)
qed

lemma balloc_runs:
  assumes "map_ok s" "card (busy s) + 2 \<le> room s" "find (\<lambda>b. \<not> in_use s b) [0..<sb_size (sb s)] = Some c"
  shows "runs (balloc 1 s) (\<lambda>(a, t). a = c \<and> taken c s t)" "c < sb_size (sb s)" "\<not> in_use s c"
proof -
  have c: "c < sb_size (sb s)" "\<not> in_use s c" "\<forall>x < c. in_use s x" using assms(3) unfolding find_Some_iff by auto
  show "c < sb_size (sb s)" "\<not> in_use s c" by (fact c)+
  have "sb_size (sb s) \<le> (sb_size (sb s) + BPB - 1) div BPB * BPB" by simp
  then show "runs (balloc 1 s) (\<lambda>(a, t). a = c \<and> taken c s t)"
    unfolding balloc_def by (intro balloc_from_runs [OF assms(1,2) c(1,2)]) (use c(3) in simp_all)
qed

lemma balloc_from_full:
  assumes "map_ok s" "card (busy s) \<le> room s" "\<forall>c < sb_size (sb s). in_use s c" "b mod BPB = 0" "n = 0 \<or> b + (n - 1) * BPB < sb_size (sb s)"
  shows "balloc_from n b 1 s = Inl (Panic ''balloc: out of blocks'')"
  using assms
proof (induction n arbitrary: b s)
  case (Suc n)
  note s = map_okD [OF Suc.prems(1)]
  have bs: "b < sb_size (sb s)" using Suc.prems(5) by simp
  have sz: "loggable s (BBLOCK b (sb s)) \<Longrightarrow> BBLOCK b (sb s) < disksize s" by (simp add: loggable_def)
  have nf: "find (\<lambda>bi. \<not> bit_set (view s (BBLOCK b (sb s))) bi) [0..<min BPB (sb_size (sb s) - b)] = None"
  proof -
    have "bit_set (view s (BBLOCK b (sb s))) x" if "x < BPB" "x < sb_size (sb s) - b" for x
    proof -
      have "b + x < sb_size (sb s)" using that(2) by linarith
      then have "in_use s (b + x)" using Suc.prems(3) by blast
      then show ?thesis unfolding in_use_def map_place [OF Suc.prems(4) that(1)] .
    qed
    then show ?thesis unfolding find_None_iff by simp
  qed
  have "runs (bread 1 (BBLOCK b (sb s)) s) (\<lambda>(i, t). off_log t = off_log s \<and> bdata i t = view s (BBLOCK b (sb s)) \<and>
    (\<exists>u. brelse i t = Inr u \<and> balloc_from n (b + BPB) 1 u = Inl (Panic ''balloc: out of blocks'')))"
  proof (rule bread_brelse, goal_cases)
    case (5 i t u)
    note f = off_log_fs [OF 5(5)] and c = map_ok_cong [OF Suc.prems(1) 5(4,5,7,8)]
    have "balloc_from n (b + BPB) 1 u = Inl (Panic ''balloc: out of blocks'')"
      by (rule Suc.IH) (use c f 5 Suc.prems in \<open>cases n; simp\<close>)+
    then show ?case using 5(1-3) by simp
  qed (use s(1) s(2) [OF bs] sz Suc.prems(2) in simp_all)
  then obtain i t u where t: "bread 1 (BBLOCK b (sb s)) s = Inr (i, t)" "off_log t = off_log s" "bdata i t = view s (BBLOCK b (sb s))"
    "brelse i t = Inr u" "balloc_from n (b + BPB) 1 u = Inl (Panic ''balloc: out of blocks'')" by (auto simp: runs_def)
  then show ?case using nf off_log_fs(1) [OF t(2)] by simp
qed simp

lemma balloc_full:
  assumes "map_ok s" "card (busy s) \<le> room s" "find (\<lambda>b. \<not> in_use s b) [0..<sb_size (sb s)] = None"
  shows "balloc 1 s = Inl (Panic ''balloc: out of blocks'')"
proof -
  let ?n = "(sb_size (sb s) + BPB - 1) div BPB"
  have "\<forall>c < sb_size (sb s). in_use s c" using assms(3) unfolding find_None_iff by simp
  moreover have "?n * BPB \<le> sb_size (sb s) + BPB - 1" by simp
  then have "?n = 0 \<or> 0 + (?n - 1) * BPB < sb_size (sb s)" by (cases ?n) auto
  ultimately show ?thesis using balloc_from_full [OF assms(1,2), of 0 ?n] by (simp add: balloc_def)
qed

lemma readsb_log:
  fixes s :: "'a fsst_scheme"
  assumes "log_inv s" "1 \<notin> busy s" "card (busy s) \<le> room s" "sb_of (view s 1) = sb s"
    and Q: "\<And>u. log_inv u \<Longrightarrow> off_log u = off_log s \<Longrightarrow> room u = room s \<Longrightarrow> view u = view s \<Longrightarrow> busy u = busy s \<Longrightarrow>
      (\<And>j x. holds s j x \<Longrightarrow> holds u j x) \<Longrightarrow> u\<lparr>sb := sb s\<rparr> = u \<Longrightarrow> Q (sb s, u)"
  shows "runs (readsb 1 s) Q"
  unfolding readsb_def runs_bind
proof (rule bread_brelse, goal_cases)
  case (5 i t u)
  have "u\<lparr>sb := sb u\<rparr> = u" by simp
  then show ?case using 5 assms(4) off_log_fs(1) [OF 5(5)] by (simp add: Q)
qed (use assms log_invD(7,8) [OF assms(1)] in simp_all)

lemma bfree_runs:
  assumes "map_ok s" "card (busy s) < room s" "1 \<notin> busy s" "sb_of (view s 1) = sb s" "b < sb_size (sb s)" "in_use s b"
  shows "runs (bfree 1 b s) (\<lambda>t. log_inv t \<and> off_log t = off_log s \<and> room s \<le> room t + 1 \<and> (\<forall>j x. holds s j x \<longrightarrow> holds t j x) \<and>
    busy t = busy s \<and> view t = (view s)(BBLOCK b (sb s) := clear_bit_of (b mod BPB) (view s (BBLOCK b (sb s)))))"
  unfolding bfree_def runs_bind [of "readsb _ _"]
proof (rule readsb_log, goal_cases)
  let ?m = "BBLOCK b (sb s)" and ?d = "clear_bit_of (b mod BPB) (view s (BBLOCK b (sb s)))"
  note s = map_okD [OF assms(1)]
  case (5 u)
  note u = 5 and f = off_log_fs [OF 5(2)]
  have h: "holds s j x \<Longrightarrow> x \<noteq> ?m" for j x
    using bcache.own_busy [OF log_invD(1) [OF s(1)]] s(2) [OF assms(5)] by (auto simp: bdev_of_simps)
  have "runs (bread 1 ?m u) (\<lambda>(i, t). runs (bindR (log_write i (bset i ?d t)) (brelse i)) (\<lambda>t. log_inv t \<and> off_log t = off_log s \<and>
      room s \<le> room t + 1 \<and> (\<forall>j x. holds s j x \<longrightarrow> holds t j x) \<and> busy t = busy s \<and> view t = (view s)(?m := ?d)) \<and> bdata i t = view s ?m)"
  proof (rule bread_log, goal_cases)
    case (5 i t)
    have o: "off_log t = off_log s" using 5(2) u(2) by simp
    have "loggable t ?m" "0 < room t" using off_log_fs(3) [OF o] s(2) [OF assms(5)] 5(3) u(3) assms(2) by simp_all
    from log_write_brelse [OF 5(1,6) this, of ?d] have
      "runs (bindR (log_write i (bset i ?d t)) (brelse i)) (\<lambda>t. log_inv t \<and> off_log t = off_log s \<and>
        room s \<le> room t + 1 \<and> (\<forall>j x. holds s j x \<longrightarrow> holds t j x) \<and> busy t = busy s \<and> view t = (view s)(?m := ?d))"
    proof (rule runs_mono, goal_cases)
      case (1 v)
      then have "holds t j x \<Longrightarrow> x \<noteq> ?m \<Longrightarrow> holds v j x" for j x by simp
      then have "holds s j x \<Longrightarrow> holds v j x" for j x using h [of j x] u(6) [of j x] 5(7) [of j x] by simp
      moreover have "busy v = busy s" using 1 5(5) u(5) s(2) [OF assms(5)] by simp
      ultimately show ?case using 1 o 5(3,4) u(3,4) by simp
    qed
    then show ?case using 5(8) u(4) by simp
  qed (use s(2) [OF assms(5)] f(3,4) u(1,3,5) assms(2) in \<open>simp_all add: loggable_def\<close>)
  then show ?case
    unfolding Let_def prod.case u(7) runs_bind [of "bread _ _ _"] f(1)
  proof (rule runs_mono, goal_cases)
    case (1 x)
    then show ?case using assms(6) by (cases x) (simp add: in_use_def)
  qed
qed (use map_okD(1) [OF assms(1)] assms in simp_all)


lemma bfree_not_used:
  assumes "log_inv s" "card (busy s) \<le> room s" "1 \<notin> busy s" "sb_of (view s 1) = sb s" "BBLOCK b (sb s) \<notin> busy s"
    "BBLOCK b (sb s) < disksize s" "\<not> in_use s b"
  shows "bfree 1 b s = Inl (Panic ''freeing free block'')"
proof -
  have "runs (readsb 1 s) (\<lambda>(x, u). x = sb s \<and> runs (bread 1 (BBLOCK b (sb s)) (u\<lparr>sb := sb s\<rparr>)) (\<lambda>(i, t). bdata i t = view s (BBLOCK b (sb s))))"
  proof (rule readsb_log, goal_cases)
    case (5 u)
    note f = off_log_fs [OF 5(2)]
    have "runs (bread 1 (BBLOCK b (sb s)) u) (\<lambda>(i, t). bdata i t = view s (BBLOCK b (sb s)))"
    proof (rule bread_log, goal_cases)
      case (5 i t)
      then show ?case using \<open>view u = view s\<close> by simp
    qed (use 5(1,3,5) f(4) assms(2,5,6) in simp_all)
    then show ?case unfolding prod.case 5(7) by simp
  qed (use assms(1-4) in simp_all)
  then show ?thesis using assms(7) by (auto simp: runs_def bfree_def Let_def in_use_def)
qed

text \<open>
  A small file system, as \<open>mkfs\<close> lays it out: 1000 blocks, of which the first 59 are in use: the boot block and the superblock, a
  log of 30 blocks, 26 blocks of inodes and the free map, block 58.
\<close>

definition ex_super :: superblock where
  "ex_super = \<lparr>sb_size = 1000, nblocks = 941, ninodes = 200, nlog = 30, logstart = 2, inodestart = 32, bmapstart = 58\<rparr>"

definition ex_fsdisk :: "nat \<Rightarrow> block" where
  "ex_fsdisk = (\<lambda>_ _. 0)(1 := put32 0 1000 (put32 4 941 (put32 8 200 (put32 12 30 (put32 16 2 (put32 20 32 (put32 24 58 (\<lambda>_. 0))))))),
     58 := (\<lambda>k. if k < 7 then - 1 else if k = 7 then 7 else 0))"

definition ex_fsboot :: fsst where
  "ex_fsboot = logst.extend (ex_boot\<lparr>disk := ex_fsdisk\<rparr>) (fsst_ext ex_super
     (\<lambda>i. \<lparr>i_dev = 1, i_inum = i, i_ref = 1, i_lock = initsleeplock, i_valid = False, i_dinode = zero_dinode\<rparr>) ())"

definition ex_fs :: fsst where
  "ex_fs = binit ex_fsboot"

text \<open>The same holds of every kernel state with this disk and an empty cache.\<close>

definition ex_booted :: "'a fsst_scheme \<Rightarrow> bool" where
  "ex_booted s \<longleftrightarrow> bufs s = (\<lambda>_. zero_buf) \<and> disk s = ex_fsdisk \<and> log_dev s = 1 \<and> log_start s = 2 \<and> log_size s = 30 \<and> lh s = [] \<and>
     outstanding s = 1 \<and> disksize s = 1000 \<and> sb s = ex_super"

lemma ex_booted_facts:
  fixes s :: "'a fsst_scheme"
  assumes "ex_booted s"
  shows "log_inv (binit s)" "view (binit s) = ex_fsdisk" "busy (binit s) = {}" "room (binit s) = 29" "sb (binit s) = ex_super"
    "icache (binit s) = icache s" "loggable (binit s) b \<longleftrightarrow> 32 \<le> b \<and> b < 1000" "disksize (binit s) = 1000" "off_log (binit s) = off_log s"
proof -
  have z: "bufs s = (\<lambda>_. zero_buf)" and f: "disk s = ex_fsdisk" and g: "log_dev s = 1" "log_start s = 2" "log_size s = 30" "lh s = []"
    "outstanding s = 1" "disksize s = 1000" "sb s = ex_super" using assms by (simp_all add: ex_booted_def)
  note b = binit_ok [OF z] and o = off_bio_log [OF binit_ok(3) [OF z]]
  show l: "off_log (binit s) = off_log s" using o(4) b(3) by (simp add: off_log_def)
  show "view (binit s) = ex_fsdisk" "busy (binit s) = {}"
    using bdev_of_simps(1,4) [of "binit s"] by (simp_all add: b(2) f)
  have d: "disk (binit s) = ex_fsdisk" "pinned (binit s) = {}" using bdev_of_simps(2,5) [of "binit s"] by (simp_all add: b(2) f)
  have "logstart (sb_of (ex_fsdisk 1)) = 2" "nlog (sb_of (ex_fsdisk 1)) = 30" "get32 (ex_fsdisk 2) 0 = 0"
    by (simp_all add: sb_of_def Let_def ex_fsdisk_def get_put32_other) (simp add: get32_def)
  then show "log_inv (binit s)" unfolding log_inv_def d o g using b(1) by simp
  show "room (binit s) = 29" "loggable (binit s) b \<longleftrightarrow> 32 \<le> b \<and> b < 1000" "disksize (binit s) = 1000"
    by (auto simp: o g room_def loggable_def)
  show "sb (binit s) = ex_super" "icache (binit s) = icache s" using off_log_fs [OF l] g by simp_all
qed

lemma ex_booted_in_use:
  fixes s :: "'a fsst_scheme"
  assumes "ex_booted s" "b < 1000"
  shows "in_use (binit s) b \<longleftrightarrow> b < 59"
proof -
  have "in_use (binit s) b \<longleftrightarrow> bit (if b div 8 < 7 then - 1 else if b div 8 = 7 then 7 else 0 :: byte) (b mod 8)"
    using assms(2) by (simp add: in_use_def ex_booted_facts [OF assms(1)] bit_set_iff BBLOCK_def ex_super_def ex_fsdisk_def)
  moreover have "bit (7 :: byte) n \<longleftrightarrow> n < 3" if "n < 8" for n
    using that by (simp add: bit_iff_odd less_Suc_eq numeral_eq_Suc) auto
  moreover have "b div 8 = 7 \<Longrightarrow> b < 59 \<longleftrightarrow> b mod 8 < 3" using div_mult_mod_eq [of b 8] by linarith
  moreover have "b div 8 < 7 \<Longrightarrow> b < 59" "7 < b div 8 \<Longrightarrow> 59 \<le> b" by linarith+
  ultimately show ?thesis by (cases "b div 8" "7 :: nat" rule: linorder_cases) simp_all
qed

lemma ex_fsboot_booted: "ex_booted ex_fsboot"
  by (simp add: ex_booted_def ex_fsboot_def ex_boot_def logst.defs)

lemmas ex_fs_facts = ex_booted_facts [OF ex_fsboot_booted, folded ex_fs_def]
  and ex_fs_in_use = ex_booted_in_use [OF ex_fsboot_booted, folded ex_fs_def]

lemma ex_fs_super: "sb_of (view ex_fs 1) = ex_super"
  by (simp add: ex_fs_facts sb_of_def Let_def ex_fsdisk_def get_put32_other ex_super_def)

lemma ex_fs_map_ok: "map_ok ex_fs"
proof -
  have "BBLOCK b ex_super = 58" if "b < 1000" for b using that by (simp add: BBLOCK_def ex_super_def)
  moreover have "sb_size ex_super = 1000" by (simp add: ex_super_def)
  ultimately show ?thesis
    unfolding map_ok_def using ex_fs_in_use ex_fs_facts by (auto simp: not_less)
qed


text \<open>C26: \<open>balloc\<close> takes the first free block of the disk: it marks this block and no other as used in the free map, clears it, and changes
  no other block, and the map stays well-formed. When no block is free it panics. It searches all blocks of the free map and stops at
  the size of the file system.\<close>

theorem balloc_first_free:
  assumes "map_ok s" "card (busy s) + 2 \<le> room s"
  shows "case find (\<lambda>b. \<not> in_use s b) [0..<sb_size (sb s)] of
      None \<Rightarrow> balloc 1 s = Inl (Panic ''balloc: out of blocks'')
    | Some c \<Rightarrow> \<exists>t. balloc 1 s = Inr (c, t) \<and> map_ok t \<and> icache t = icache s \<and> (\<forall>b < sb_size (sb s). in_use t b \<longleftrightarrow> b = c \<or> in_use s b) \<and>
        (\<forall>k < BSIZE. view t c k = 0) \<and> (\<forall>b. b \<noteq> c \<and> b \<noteq> BBLOCK c (sb s) \<longrightarrow> view t b = view s b)"
proof (cases "find (\<lambda>b. \<not> in_use s b) [0..<sb_size (sb s)]")
  case None
  then show ?thesis using balloc_full [OF assms(1)] assms(2) by simp
next
  case (Some c)
  note c = balloc_runs [OF assms Some]
  obtain t where t: "balloc 1 s = Inr (c, t)" "taken c s t" using c(1) by (auto simp: runs_def)
  have "view t = (view s)(BBLOCK c (sb s) := set_bit_of (c mod BPB) (view s (BBLOCK c (sb s))), c := zero_block (view s c))"
    "off_log t = off_log s" using t(2) by (simp_all add: taken_def)
  then show ?thesis
    using t(1) taken_map_ok [OF assms(1) c(2,3) t(2)] taken_in_use [OF assms(1) c(2,3) t(2)] off_log_fs(2) [of t s]
    by (simp add: Some zero_block_def)
qed

lemma ex_fs_first: "find (\<lambda>b. \<not> in_use ex_fs b) [0..<sb_size (sb ex_fs)] = Some 59"
  unfolding find_Some_iff using ex_fs_in_use by (intro exI [of _ 59]) (auto simp: ex_fs_facts ex_super_def)

theorem balloc_first_free_witness:
  "\<exists>t. balloc 1 ex_fs = Inr (59, t) \<and> in_use t 59 \<and> \<not> in_use t 60 \<and> view t 1 = view ex_fs 1"
proof -
  have "card (busy ex_fs) + 2 \<le> room ex_fs" by (simp add: ex_fs_facts)
  from balloc_first_free [OF ex_fs_map_ok this] obtain t where t: "balloc 1 ex_fs = Inr (59, t)"
    "\<forall>b < sb_size (sb ex_fs). in_use t b \<longleftrightarrow> b = 59 \<or> in_use ex_fs b" "\<forall>b. b \<noteq> 59 \<and> b \<noteq> BBLOCK 59 (sb ex_fs) \<longrightarrow> view t b = view ex_fs b"
    unfolding ex_fs_first by auto
  then show ?thesis using ex_fs_in_use [of 60] by (simp add: ex_fs_facts ex_super_def BBLOCK_def)
qed

text \<open>\<open>bfree\<close> undoes \<open>balloc\<close>: after a block has been taken and freed again, the free map has the same bytes as before and
  no block but the one freed has changed. Freeing it once more panics.\<close>

lemma bfree_balloc:
  assumes "map_ok s" "card (busy s) + 4 \<le> room s" "1 \<notin> busy s" "sb_of (view s 1) = sb s" "balloc 1 s = Inr (c, t)"
  shows "\<exists>u. bfree 1 c t = Inr u \<and> (\<forall>b. b \<noteq> c \<longrightarrow> view u b = view s b) \<and> busy u = busy s \<and>
    bfree 1 c u = Inl (Panic ''freeing free block'')"
proof -
  let ?m = "BBLOCK c (sb s)"
  obtain d where d: "find (\<lambda>b. \<not> in_use s b) [0..<sb_size (sb s)] = Some d"
    using balloc_full [OF assms(1)] assms(2,5) by fastforce
  have "card (busy s) + 2 \<le> room s" using assms(2) by simp
  from balloc_runs [OF assms(1) this d] assms(5)
  have t: "taken c s t" "c < sb_size (sb s)" "\<not> in_use s c" by (auto simp: runs_def)
  then have v: "off_log t = off_log s" "busy t = busy s" "room s \<le> room t + 2"
    "view t = (view s)(?m := set_bit_of (c mod BPB) (view s ?m), c := zero_block (view s c))" by (simp_all add: taken_def)
  note f = off_log_fs [OF v(1)] and m = map_okD [OF assms(1)]
  have l: "2 \<le> b" if "loggable s b" for b using that log_invD(7) [OF m(1)] by (simp add: loggable_def)
  have n: "?m \<noteq> c" "1 \<noteq> ?m" "1 \<noteq> c" using m(4) [OF t(2,3,2)] l m(2) [OF t(2)] m(3) [OF t(2,3)] by fastforce+
  have "view t 1 = view s 1" using n by (simp add: v(4))
  then have "sb_of (view t 1) = sb t" using assms(4) f(1) by simp
  moreover have "in_use t c" using taken_in_use [OF assms(1) t(2,3,1,2)] by simp
  ultimately have "runs (bfree 1 c t) (\<lambda>u. log_inv u \<and> off_log u = off_log t \<and> room t \<le> room u + 1 \<and> (\<forall>j x. holds t j x \<longrightarrow> holds u j x) \<and>
    busy u = busy t \<and> view u = (view t)(?m := clear_bit_of (c mod BPB) (view t ?m)))"
    using bfree_runs [OF taken_map_ok [OF assms(1) t(2,3,1)], of c] v f(1) assms(2,3) t(2) by simp
  then obtain u where u: "bfree 1 c t = Inr u" "log_inv u" "off_log u = off_log t" "room t \<le> room u + 1" "busy u = busy t"
    "view u = (view t)(?m := clear_bit_of (c mod BPB) (view t ?m))" by (auto simp: runs_def)
  have "\<not> bit_set (view s ?m) (c mod BPB)" using t(3) by (simp add: in_use_def)
  then have e: "view u b = view s b" if "b \<noteq> c" for b
    using that n(1) clear_set_bit [of "view s ?m" "c mod BPB"] by (simp add: u(6) v(4))
  have o: "off_log u = off_log s" using u(3) v(1) by simp
  have "bfree 1 c u = Inl (Panic ''freeing free block'')"
  proof (rule bfree_not_used [OF u(2)])
    show "\<not> in_use u c" using t(3) e [OF n(1)] off_log_fs(1) [OF o] by (simp add: in_use_def)
    show "sb_of (view u 1) = sb u" using assms(4) e [of 1] n(3) off_log_fs(1) [OF o] by simp
    show "BBLOCK c (sb u) < disksize u" "BBLOCK c (sb u) \<notin> busy u"
      using m(2) [OF t(2)] off_log_fs(1,4) [OF o] u(5) v(2) by (simp_all add: loggable_def)
  qed (use assms(2,3) u(4,5) v(2,3) in simp_all)
  then show ?thesis using u(1,5) v(2) e by auto
qed

lemma bfree_balloc_witness:
  "\<exists>t u. balloc 1 ex_fs = Inr (59, t) \<and> bfree 1 59 t = Inr u \<and> view t 58 \<noteq> view ex_fs 58 \<and> view u 58 = view ex_fs 58"
proof -
  have r: "card (busy ex_fs) + 2 \<le> room ex_fs" "card (busy ex_fs) + 4 \<le> room ex_fs" "1 \<notin> busy ex_fs" by (simp_all add: ex_fs_facts)
  obtain t where t: "balloc 1 ex_fs = Inr (59, t)" "taken 59 ex_fs t"
    using balloc_runs(1) [OF ex_fs_map_ok r(1) ex_fs_first] by (auto simp: runs_def)
  from bfree_balloc [OF ex_fs_map_ok r(2,3) _ t(1)] obtain u where "bfree 1 59 t = Inr u" "view u 58 = view ex_fs 58"
    using ex_fs_super ex_fs_facts(5) by auto
  moreover have "view t 58 = set_bit_of 59 (view ex_fs 58)" using t(2) by (simp add: taken_def ex_fs_facts BBLOCK_def ex_super_def)
  moreover have "\<not> bit_set (view ex_fs 58) 59"
    using ex_fs_in_use [of 59] by (simp add: in_use_def ex_fs_facts BBLOCK_def ex_super_def)
  ultimately show ?thesis using t(1) bit_set_set [of 59 "view ex_fs 58" 59] by (intro exI [of _ t] exI [of _ u]) auto
qed


section \<open>Inodes on the disk\<close>

lemma get_put16 [simp]: "get16 (put16 k v d) k = v"
  by (rule bit_word_eqI) (auto simp: get16_def put16_def bit_simps)

lemma put16_other: "i < k \<or> k + 2 \<le> i \<Longrightarrow> put16 k v d i = d i"
  by (auto simp: put16_def)

lemma put_addrs_other: "i < k \<or> k + 52 \<le> i \<Longrightarrow> put_addrs k as d i = d i"
  unfolding put_addrs_def by (rule put_words_other) simp

lemma get_put_addrs: "j < NDIRECT + 1 \<Longrightarrow> get32 (put_addrs k as d) (k + 4 * j) = of_nat (as ! j)"
  unfolding put_addrs_def by (rule put_words_nth)

lemma get16_other:
  "k + 2 \<le> j \<or> j + 2 \<le> k \<Longrightarrow> get16 (put16 k v d) j = get16 d j"
  "k + 4 \<le> j \<or> j + 2 \<le> k \<Longrightarrow> get16 (put32 k w d) j = get16 d j"
  "j + 2 \<le> k \<Longrightarrow> get16 (put_addrs k as d) j = get16 d j"
  by (auto simp: get16_def put16_def put32_other put_addrs_other)

definition dinode_ok :: "dinode \<Rightarrow> bool" where
  "dinode_ok x \<longleftrightarrow> d_size x < 2 ^ 32 \<and> length (d_addrs x) = NDIRECT + 1 \<and> (\<forall>a \<in> set (d_addrs x). a < 2 ^ 32)"

lemma put_dinode_other: "i < 64 * n \<or> 64 * n + 64 \<le> i \<Longrightarrow> put_dinode n x d i = d i"
  by (auto simp: put_dinode_def Let_def put_addrs_other put32_other put16_other)

lemma get_dinode_cong:
  assumes "\<And>i. 64 * n \<le> i \<Longrightarrow> i < 64 * n + 64 \<Longrightarrow> d i = d' i"
  shows "get_dinode n d = get_dinode n d'"
proof -
  have "get32 d (64 * n + j) = get32 d' (64 * n + j)" if "j + 4 \<le> 64" for j using that by (intro get32_cong assms) auto
  from this [of 8] this [of "12 + 4 * _"] have "get32 d (64 * n + 8) = get32 d' (64 * n + 8)"
    "\<And>i. i < 13 \<Longrightarrow> get32 d (64 * n + 12 + 4 * i) = get32 d' (64 * n + 12 + 4 * i)" by (simp_all add: add.assoc)
  moreover have "get16 d (64 * n + j) = get16 d' (64 * n + j)" if "j + 2 \<le> 64" for j using that by (simp add: get16_def assms)
  from this [of 0] this [of 2] this [of 4] this [of 6] have "get16 d (64 * n) = get16 d' (64 * n)" "get16 d (64 * n + 2) = get16 d' (64 * n + 2)"
    "get16 d (64 * n + 4) = get16 d' (64 * n + 4)" "get16 d (64 * n + 6) = get16 d' (64 * n + 6)" by simp_all
  ultimately show ?thesis unfolding get_dinode_def Let_def by (simp del: upt_Suc)
qed

lemma get_put_dinode_other: "m \<noteq> n \<Longrightarrow> get_dinode m (put_dinode n x d) = get_dinode m d"
  by (rule get_dinode_cong) (auto intro!: put_dinode_other)

lemma get_put_dinode:
  assumes "dinode_ok x"
  shows "get_dinode n (put_dinode n x d) = x"
proof -
  have a: "map (\<lambda>i. unat (get32 (put_dinode n x d) (64 * n + 12 + 4 * i))) [0..<NDIRECT + 1] = d_addrs x"
  proof (rule nth_equalityI)
    fix i
    assume "i < length (map (\<lambda>i. unat (get32 (put_dinode n x d) (64 * n + 12 + 4 * i))) [0..<NDIRECT + 1])"
    then have i: "i < NDIRECT + 1" by simp
    then have "get32 (put_dinode n x d) (64 * n + 12 + 4 * i) = of_nat (d_addrs x ! i)"
      unfolding put_dinode_def Let_def by (rule get_put_addrs)
    moreover have "d_addrs x ! i < 2 ^ 32" using assms i by (auto simp: dinode_ok_def)
    ultimately have "unat (get32 (put_dinode n x d) (64 * n + 12 + 4 * i)) = d_addrs x ! i" by (simp add: unat_of_nat)
    then show "map (\<lambda>i. unat (get32 (put_dinode n x d) (64 * n + 12 + 4 * i))) [0..<NDIRECT + 1] ! i = d_addrs x ! i"
      using i by (simp del: upt_Suc)
  qed (use assms in \<open>simp add: dinode_ok_def\<close>)
  have w: "get32 (put_dinode n x d) (64 * n + 8) = of_nat (d_size x)"
    unfolding put_dinode_def Let_def
    by (subst get32_cong [where d' = "put32 (64 * n + 8) (of_nat (d_size x)) _"]) (auto intro!: put_addrs_other)
  have h: "get16 (put_dinode n x d) (64 * n) = d_type x" "get16 (put_dinode n x d) (64 * n + 2) = d_major x"
    "get16 (put_dinode n x d) (64 * n + 4) = d_minor x" "get16 (put_dinode n x d) (64 * n + 6) = d_nlink x"
    by (simp_all add: put_dinode_def Let_def get16_other)
  have "d_size x < 2 ^ 32" using assms by (simp add: dinode_ok_def)
  then show ?thesis unfolding get_dinode_def Let_def a w h by (simp add: unat_of_nat)
qed


text \<open>What the cache of inodes holds does not matter to the blocks.\<close>

lemma icache_blocks [simp]:
  "log_inv (s\<lparr>icache := x\<rparr>) = log_inv s" "view (s\<lparr>icache := x\<rparr>) = view s" "room (s\<lparr>icache := x\<rparr>) = room s"
  "loggable (s\<lparr>icache := x\<rparr>) = loggable s" "holds (s\<lparr>icache := x\<rparr>) = holds s"
  by (auto simp: log_inv_def bio_inv_def view_def room_def loggable_def holds_def fun_eq_iff split: option.split)

lemma brelse_log:
  assumes "log_inv t" "holds t i b" "b \<in> pinned t \<or> view t b = disk t b"
  shows "runs (brelse i t) (\<lambda>u. log_inv u \<and> off_log u = off_log t \<and> room u = room t \<and> (\<forall>j x. holds t j x \<longrightarrow> x \<noteq> b \<longrightarrow> holds u j x) \<and>
    view u = view t \<and> busy u = busy t - {b})"
proof -
  from assms(3) have "b \<in> dv_pinned (bdev_of t) \<or> dv_view (bdev_of t) b = dv_disk (bdev_of t) b" by (simp add: bdev_of_simps)
  from lcache.rel_log [OF assms(1,2) this] show ?thesis
  proof (rule runs_mono, goal_cases)
    case (1 u)
    then have "bdev_of u = (bdev_of t)\<lparr>dv_busy := dv_busy (bdev_of t) - {b}\<rparr>" by simp
    then have "view u = view t" "busy u = busy t - {b}" by (simp_all add: bdev_of_def)
    then show ?case using 1 by simp
  qed
qed

lemma iupdate_runs:
  assumes "log_inv s" "i_dev (icache s ip) = 1" "loggable s (IBLOCK (i_inum (icache s ip)) (sb s))"
    "IBLOCK (i_inum (icache s ip)) (sb s) \<notin> busy s" "card (busy s) < room s"
  shows "runs (iupdate ip s) (\<lambda>t. log_inv t \<and> off_log t = off_log s \<and> room s \<le> room t + 1 \<and> (\<forall>j x. holds s j x \<longrightarrow> holds t j x) \<and> busy t = busy s \<and>
    view t = (view s)(IBLOCK (i_inum (icache s ip)) (sb s) :=
      put_dinode (i_inum (icache s ip) mod IPB) (idata ip s) (view s (IBLOCK (i_inum (icache s ip)) (sb s)))))"
  unfolding iupdate_def Let_def assms(2)
  by (rule runs_mono [OF log_update_runs [OF assms(1,4,3,5)]]) simp

text \<open>The first \<open>ilock\<close> of an inode reads it from its block.\<close>

lemma ilock_reads:
  assumes "log_inv s" "i_dev (icache s ip) = 1" "IBLOCK (i_inum (icache s ip)) (sb s) < disksize s"
    "IBLOCK (i_inum (icache s ip)) (sb s) \<notin> busy s" "card (busy s) \<le> room s" "i_ref (icache s ip) \<ge> 1" "\<not> i_valid (icache s ip)"
    "\<not> sl_locked (i_lock (icache s ip))"
    "d_type (get_dinode (i_inum (icache s ip) mod IPB) (view s (IBLOCK (i_inum (icache s ip)) (sb s)))) \<noteq> 0"
  shows "runs (ilock (Some ip) s) (\<lambda>t. log_inv t \<and> view t = view s \<and> busy t = busy s \<and> i_valid (icache t ip) \<and>
    holdingsleep (mypid s) (i_lock (icache t ip)) \<and>
    idata ip t = get_dinode (i_inum (icache s ip) mod IPB) (view s (IBLOCK (i_inum (icache s ip)) (sb s))))"
proof -
  let ?b = "IBLOCK (i_inum (icache s ip)) (sb s)" and ?d = "get_dinode (i_inum (icache s ip) mod IPB) (view s (IBLOCK (i_inum (icache s ip)) (sb s)))"
  obtain lk where lk: "acquiresleep (''inode'', ip) (mypid s) (i_lock (icache s ip)) = Inr lk" "holdingsleep (mypid s) lk"
    using assms(8) that [of "\<lparr>sl_locked = True, sl_pid = mypid s\<rparr>"] by (simp add: acquiresleep_def holdingsleep_def)
  define s1 where "s1 = upd_inode ip (i_lock_update (\<lambda>_. lk)) s"
  have s1: "log_inv s1" "view s1 = view s" "room s1 = room s" "busy s1 = busy s" "disksize s1 = disksize s" "sb s1 = sb s"
    "i_dev (icache s1 ip) = 1" "i_inum (icache s1 ip) = i_inum (icache s ip)" "\<not> i_valid (icache s1 ip)" "i_lock (icache s1 ip) = lk"
    using assms(1,2,7) by (simp_all add: s1_def)
  have "runs (bread 1 ?b s1) (\<lambda>(i, t). runs (brelse i (upd_dinode ip (\<lambda>_. get_dinode (i_inum (icache t ip) mod IPB) (bdata i t)) t))
    (\<lambda>u. log_inv u \<and> view u = view s \<and> busy u = busy s \<and> i_lock (icache u ip) = lk \<and> idata ip u = ?d))"
  proof (rule bread_log, goal_cases)
    case (5 i t)
    let ?t = "upd_dinode ip (\<lambda>_. get_dinode (i_inum (icache t ip) mod IPB) (bdata i t)) t"
    note f = off_log_fs [OF 5(2)]
    have "log_inv ?t" "holds ?t i ?b" "?b \<in> pinned ?t \<or> view ?t ?b = disk ?t ?b" using 5(1,6,9) by simp_all
    from brelse_log [OF this] have "runs (brelse i ?t) (\<lambda>u. log_inv u \<and> view u = view s \<and> busy u = busy s \<and> i_lock (icache u ip) = lk \<and> idata ip u = ?d)"
    proof (rule runs_mono, goal_cases)
      case (1 u)
      then have "icache u = icache ?t" using off_log_fs(2) [of u ?t] by simp
      then show ?case using 1 5(4,5,8) s1 f(2) assms(4) by simp
    qed
    then show ?case by simp
  qed (use s1 assms(3-5) in simp_all)
  then have "runs (bindR (bread 1 ?b s1) (\<lambda>(i, t). brelse i (upd_dinode ip (\<lambda>_. get_dinode (i_inum (icache t ip) mod IPB) (bdata i t)) t)))
    (\<lambda>u. log_inv u \<and> view u = view s \<and> busy u = busy s \<and> i_lock (icache u ip) = lk \<and> idata ip u = ?d)"
    by (auto simp: runs_bind runs_def)
  then obtain i t u where u: "bread 1 ?b s1 = Inr (i, t)"
    "brelse i (upd_dinode ip (\<lambda>_. get_dinode (i_inum (icache t ip) mod IPB) (bdata i t)) t) = Inr u"
    "log_inv u" "view u = view s" "busy u = busy s" "i_lock (icache u ip) = lk" "idata ip u = ?d" by (auto simp: runs_def res_simps)
  show ?thesis
    using assms(6,9) lk u s1 by (simp add: ilock_def lock_inode_def s1_def [symmetric] Let_def runs_def)
qed


text \<open>What \<open>iupdate\<close> writes is what \<open>ilock\<close> reads back: when the copy of an inode in memory has been written and is
  then lost, in whatever way, the next \<open>ilock\<close> restores every field of it, and locks it. The other inodes, also
  those in the same block, stay as they are on the disk.\<close>

lemma ilock_iupdate:
  assumes "log_inv s" "i_dev (icache s ip) = 1" "loggable s (IBLOCK (i_inum (icache s ip)) (sb s))"
    "IBLOCK (i_inum (icache s ip)) (sb s) \<notin> busy s" "card (busy s) + 2 \<le> room s" "dinode_ok (idata ip s)" "d_type (idata ip s) \<noteq> 0"
    "i_ref (icache s ip) \<ge> 1" "\<not> sl_locked lk"
  shows "\<exists>t u. iupdate ip s = Inr t \<and>
    ilock (Some ip) (upd_inode ip (\<lambda>x. x\<lparr>i_valid := False, i_dinode := y, i_lock := lk\<rparr>) t) = Inr u \<and>
    idata ip u = idata ip s \<and> i_valid (icache u ip) \<and> holdingsleep (mypid s) (i_lock (icache u ip)) \<and>
    (\<forall>m. m \<noteq> i_inum (icache s ip) \<longrightarrow>
      get_dinode (m mod IPB) (view u (IBLOCK m (sb s))) = get_dinode (m mod IPB) (view s (IBLOCK m (sb s))))"
proof -
  let ?n = "i_inum (icache s ip)"
  let ?b = "IBLOCK ?n (sb s)"
  have "card (busy s) < room s" using assms(5) by simp
  from iupdate_runs [OF assms(1-4) this] obtain t where t: "iupdate ip s = Inr t" "log_inv t" "off_log t = off_log s" "room s \<le> room t + 1"
    "busy t = busy s" "view t = (view s)(?b := put_dinode (?n mod IPB) (idata ip s) (view s ?b))" by (auto simp: runs_def)
  let ?t = "upd_inode ip (\<lambda>x. x\<lparr>i_valid := False, i_dinode := y, i_lock := lk\<rparr>) t"
  note f = off_log_fs [OF t(3)]
  have d: "get_dinode (?n mod IPB) (view t ?b) = idata ip s" using get_put_dinode [OF assms(6)] by (simp add: t(6))
  have "?b < disksize t" using assms(3) f(4) by (simp add: loggable_def)
  then have "runs (ilock (Some ip) ?t) (\<lambda>u. log_inv u \<and> view u = view ?t \<and> busy u = busy ?t \<and> i_valid (icache u ip) \<and>
      holdingsleep (mypid ?t) (i_lock (icache u ip)) \<and>
      idata ip u = get_dinode (i_inum (icache ?t ip) mod IPB) (view ?t (IBLOCK (i_inum (icache ?t ip)) (sb ?t))))"
    by (intro ilock_reads) (use t f assms d in simp_all)
  then obtain u where u: "ilock (Some ip) ?t = Inr u" "view u = view t" "i_valid (icache u ip)" "holdingsleep (mypid s) (i_lock (icache u ip))"
    "idata ip u = idata ip s" using f d by (auto simp: runs_def)
  have "get_dinode (m mod IPB) (view u (IBLOCK m (sb s))) = get_dinode (m mod IPB) (view s (IBLOCK m (sb s)))" if "m \<noteq> ?n" for m
  proof (cases "IBLOCK m (sb s) = ?b")
    case True
    then have "m mod IPB \<noteq> ?n mod IPB" using that by (metis IBLOCK_def add_right_imp_eq div_mult_mod_eq)
    then show ?thesis using get_put_dinode_other True by (simp add: u(2) t(6))
  qed (simp add: u(2) t(6))
  then show ?thesis using t(1) u(1,3-5) by blast
qed

text \<open>Inode 1, a directory, is written and read back.\<close>

lemma ilock_iupdate_witness:
  "\<exists>t u. iupdate 1 (upd_dinode 1 (\<lambda>x. x\<lparr>d_type := T_DIR, d_size := 512\<rparr>) ex_fs) = Inr t \<and>
    ilock (Some 1) (upd_inode 1 (\<lambda>x. x\<lparr>i_valid := False, i_dinode := zero_dinode, i_lock := initsleeplock\<rparr>) t) = Inr u \<and>
    d_size (idata 1 u) = 512"
proof -
  let ?s = "upd_dinode 1 (\<lambda>x. x\<lparr>d_type := T_DIR, d_size := 512\<rparr>) ex_fs"
  have i: "icache ex_fs 1 = \<lparr>i_dev = 1, i_inum = 1, i_ref = 1, i_lock = initsleeplock, i_valid = False, i_dinode = zero_dinode\<rparr>"
    by (simp add: ex_fs_facts(6) ex_fsboot_def logst.defs)
  note i = i [simplified]
  let ?l = initsleeplock
  have b: "IBLOCK (i_inum (icache ?s 1)) (sb ?s) = 32" by (simp add: i ex_fs_facts(5) IBLOCK_def ex_super_def)
  have a: "log_inv ?s" "i_dev (icache ?s 1) = 1" "loggable ?s (IBLOCK (i_inum (icache ?s 1)) (sb ?s))"
    "IBLOCK (i_inum (icache ?s 1)) (sb ?s) \<notin> busy ?s" "card (busy ?s) + 2 \<le> room ?s" "dinode_ok (idata 1 ?s)" "d_type (idata 1 ?s) \<noteq> 0"
    "i_ref (icache ?s 1) \<ge> 1" "\<not> sl_locked ?l" "d_size (idata 1 ?s) = 512"
    unfolding b by (simp_all add: i ex_fs_facts(1,3,4,7) initsleeplock_def dinode_ok_def zero_dinode_def)
  obtain t u where "iupdate 1 ?s = Inr t" "idata 1 u = idata 1 ?s"
    "ilock (Some 1) (upd_inode 1 (\<lambda>x. x\<lparr>i_valid := False, i_dinode := zero_dinode, i_lock := ?l\<rparr>) t) = Inr u"
    using ilock_iupdate [OF a(1-9), of zero_dinode] by blast
  then show ?thesis using a(10) by auto
qed

end
