(* ===== verification/Xv6_Print.thy ===== *)
theory Xv6_Print
  imports Xv6_String
begin

text \<open>
  Formatted output: \<open>printint\<close> and \<open>cprintf\<close> of the kernel (\<open>console.c\<close>) and \<open>printint\<close> and \<open>printf\<close> of the user
  library (\<open>printf.c\<close>), as the characters that they put out. An argument is a word or, for \<open>%s\<close>, the
  string that the word points to (\<open>None\<close> for the null pointer).
\<close>

abbreviation ch :: "char \<Rightarrow> byte" where "ch c \<equiv> of_char c"

definition hex_lower :: "nat \<Rightarrow> byte" where
  "hex_lower d = (if d < 10 then 48 + of_nat d else 97 + of_nat (d - 10))"

definition hex_upper :: "nat \<Rightarrow> byte" where
  "hex_upper d = (if d < 10 then 48 + of_nat d else 65 + of_nat (d - 10))"

text \<open>The digits that fill \<open>buf\<close>, the last one first.\<close>

function digits_of :: "(nat \<Rightarrow> byte) \<Rightarrow> nat \<Rightarrow> nat \<Rightarrow> byte list" where
  "digits_of dig base x =
     dig (x mod base) # (if x div base = 0 \<or> base < 2 then [] else digits_of dig base (x div base))"
  by pat_completeness auto
termination
  by (relation "measure (\<lambda>(dig, base, x). x)") (auto simp: div_eq_0_iff not_less)

declare digits_of.simps [simp del]

definition printint :: "(nat \<Rightarrow> byte) \<Rightarrow> u32 \<Rightarrow> nat \<Rightarrow> bool \<Rightarrow> byte list" where
  "printint dig xx base sign =
     (let neg = (sign \<and> sint xx < 0); x = (if neg then - xx else xx)
      in rev (digits_of dig base (unat x) @ (if neg then [ch CHR ''-''] else [])))"

abbreviation kprintint :: "u32 \<Rightarrow> nat \<Rightarrow> bool \<Rightarrow> byte list" where
  "kprintint \<equiv> printint hex_lower"

abbreviation uprintint :: "u32 \<Rightarrow> nat \<Rightarrow> bool \<Rightarrow> byte list" where
  "uprintint \<equiv> printint hex_upper"

datatype carg = CNum u32 | CStr "byte list option"

definition null_text :: "byte list" where
  "null_text = map of_char ''(null)''"

text \<open>An argument that is missing or of the wrong kind is an access to whatever is on the stack.\<close>

fun num_arg :: "carg list \<Rightarrow> (u32 \<times> carg list) res" where
  "num_arg (CNum w # as) = Inr (w, as)"
| "num_arg as = Inl Fault"

fun str_arg :: "carg list \<Rightarrow> (byte list \<times> carg list) res" where
  "str_arg (CStr (Some t) # as) = Inr (t, as)"
| "str_arg (CStr None # as) = Inr (null_text, as)"
| "str_arg as = Inl Fault"

fun cprintf_chars :: "byte list \<Rightarrow> carg list \<Rightarrow> byte list res" where
  "cprintf_chars [] as = Inr []"
| "cprintf_chars (c # fmt) as =
     (if c \<noteq> ch CHR ''%'' then bindR (cprintf_chars fmt as) (\<lambda>out. Inr (c # out))
      else case fmt of [] \<Rightarrow> Inr []
        | c # fmt \<Rightarrow>
            if c = ch CHR ''d''
            then bindR (num_arg as) (\<lambda>(w, as). bindR (cprintf_chars fmt as) (\<lambda>out. Inr (kprintint w 10 True @ out)))
            else if c = ch CHR ''x'' \<or> c = ch CHR ''p''
            then bindR (num_arg as) (\<lambda>(w, as). bindR (cprintf_chars fmt as) (\<lambda>out. Inr (kprintint w 16 False @ out)))
            else if c = ch CHR ''s''
            then bindR (str_arg as) (\<lambda>(t, as). bindR (cprintf_chars fmt as) (\<lambda>out. Inr (t @ out)))
            else if c = ch CHR ''%'' then bindR (cprintf_chars fmt as) (\<lambda>out. Inr (c # out))
            else bindR (cprintf_chars fmt as) (\<lambda>out. Inr (ch CHR ''%'' # c # out)))"

text \<open>\<open>printf\<close> of the user library reads the format with a state: \<open>pct\<close> after a percent sign.\<close>

fun printf_chars :: "bool \<Rightarrow> byte list \<Rightarrow> carg list \<Rightarrow> byte list res" where
  "printf_chars pct [] as = Inr []"
| "printf_chars pct (c # fmt) as =
     (if \<not> pct
      then if c = ch CHR ''%'' then printf_chars True fmt as
           else bindR (printf_chars False fmt as) (\<lambda>out. Inr (c # out))
      else if c = ch CHR ''d''
      then bindR (num_arg as) (\<lambda>(w, as). bindR (printf_chars False fmt as) (\<lambda>out. Inr (uprintint w 10 True @ out)))
      else if c = ch CHR ''x'' \<or> c = ch CHR ''p''
      then bindR (num_arg as) (\<lambda>(w, as). bindR (printf_chars False fmt as) (\<lambda>out. Inr (uprintint w 16 False @ out)))
      else if c = ch CHR ''s''
      then bindR (str_arg as) (\<lambda>(t, as). bindR (printf_chars False fmt as) (\<lambda>out. Inr (t @ out)))
      else if c = ch CHR ''c''
      then bindR (num_arg as) (\<lambda>(w, as). bindR (printf_chars False fmt as) (\<lambda>out. Inr (ucast w # out)))
      else if c = ch CHR ''%'' then bindR (printf_chars False fmt as) (\<lambda>out. Inr (c # out))
      else bindR (printf_chars False fmt as) (\<lambda>out. Inr (ch CHR ''%'' # c # out)))"

section \<open>Numbers\<close>

lemma digits_of_length:
  "2 \<le> base \<Longrightarrow> x < base ^ n \<Longrightarrow> 0 < n \<Longrightarrow> length (digits_of dig base x) \<le> n"
proof (induction n arbitrary: x)
  case (Suc n)
  show ?case
  proof (cases "x div base = 0")
    case True
    then show ?thesis by (simp add: digits_of.simps [of dig base x])
  next
    case False
    have "x div base < base ^ n" using Suc.prems by (simp add: less_mult_imp_div_less mult.commute)
    moreover from this False have "0 < n" by (cases n) auto
    ultimately show ?thesis using Suc.IH [of "x div base"] Suc.prems(1) by (simp add: digits_of.simps [of dig base x])
  qed
qed simp

text \<open>The value of a numeral, its last digit first.\<close>

fun val_of :: "nat \<Rightarrow> nat list \<Rightarrow> nat" where
  "val_of base [] = 0"
| "val_of base (d # ds) = d + base * val_of base ds"

lemma digits_of_val:
  assumes "2 \<le> base"
  shows "\<exists>ds. digits_of dig base x = map dig ds \<and> val_of base ds = x \<and> (\<forall>d \<in> set ds. d < base)"
proof (induction x rule: less_induct)
  case (less x)
  show ?case
  proof (cases "x div base = 0")
    case True
    then show ?thesis using assms
      by (intro exI [of _ "[x]"]) (auto simp: digits_of.simps [of dig base x] div_eq_0_iff)
  next
    case False
    then have "0 < x" by (cases x) auto
    then have "x div base < x" using assms by (intro div_less_dividend) auto
    then obtain ds where ds: "digits_of dig base (x div base) = map dig ds" "val_of base ds = x div base" "\<forall>d \<in> set ds. d < base"
      using less by blast
    then show ?thesis using assms False
      by (intro exI [of _ "x mod base # ds"]) (simp add: digits_of.simps [of dig base x])
  qed
qed

lemma atoi_loop_digits:
  "(\<And>k. k < length ds \<Longrightarrow> s (i + k) = 48 + of_nat (ds ! k)) \<Longrightarrow> \<forall>d \<in> set ds. d < 10 \<Longrightarrow> s (i + length ds) = 0 \<Longrightarrow>
    atoi_loop s i n = Some (fold (\<lambda>d n. n * 10 + int d) ds n)"
proof (induction ds arbitrary: i n)
  case Nil
  then show ?case by (simp add: atoi_loop.simps [of s i])
next
  case (Cons d ds)
  have d: "s i = 48 + of_nat d" "d < 10" using Cons.prems(1) [of 0] Cons.prems(2) by simp_all
  then have "s i = of_nat (48 + d)" by simp
  then have u: "uint (s i) = 48 + int d" using d(2) by (simp add: uint_nat unat_of_nat take_bit_eq_mod del: of_nat_add)
  then have "48 \<le> s i \<and> s i \<le> 57" using d(2) by (simp add: word_le_def)
  moreover have "atoi_loop s (Suc i) (n * 10 + uint (s i) - 48) = Some (fold (\<lambda>d n. n * 10 + int d) ds (n * 10 + int d))"
    using Cons.IH [of "Suc i"] Cons.prems(1) [of "Suc k" for k] Cons.prems(2,3) by (simp add: u)
  ultimately show ?case by (simp add: atoi_loop.simps [of s i])
qed

lemma fold_digits: "fold (\<lambda>d n. n * 10 + int d) (rev ds) 0 = int (val_of 10 ds)"
  by (induction ds) simp_all

lemma hex_digit: "d < 10 \<Longrightarrow> hex_upper d = 48 + of_nat d" "d < 10 \<Longrightarrow> hex_lower d = 48 + of_nat d"
  by (simp_all add: hex_upper_def hex_lower_def)

lemma sint_nonneg:
  assumes "0 \<le> sint (w :: u32)"
  shows "sint w = int (unat w)"
proof -
  have b: "\<not> bit (uint w) 31" using assms by (simp add: sint_uint signed_take_bit_nonnegative_iff)
  have u: "uint w = take_bit 31 (uint w)"
  proof (rule bit_eqI)
    fix n
    show "bit (uint w) n = bit (take_bit 31 (uint w)) n"
      using b bit_imp_le_length [of w n] by (cases "n = 31") (auto simp: bit_simps)
  qed
  have "sint w = take_bit 31 (uint w)" using b by (simp add: sint_uint signed_take_bit_eq_if_positive)
  also have "\<dots> = uint w" by (rule u [symmetric])
  finally show ?thesis by simp
qed

section \<open>Properties\<close>

text \<open>What \<open>printf\<close> of the user library prints for \<open>%d\<close> and a number that is not negative, \<open>atoi\<close> reads back as that
  number.\<close>

lemma printint_atoi:
  assumes "0 \<le> sint w"
  shows "atoi (cstr (uprintint w 10 True)) = Some (sint w)"
proof -
  obtain ds where ds: "digits_of hex_upper 10 (unat w) = map hex_upper ds" "val_of 10 ds = unat w" "\<forall>d \<in> set ds. d < 10"
    using digits_of_val [of 10 hex_upper "unat w"] by auto
  let ?r = "rev ds"
  have p: "uprintint w 10 True = map hex_upper ?r"
    using assms ds(1) by (simp add: printint_def Let_def rev_map)
  have k: "cstr (map hex_upper ?r) (0 + k) = 48 + of_nat (?r ! k)" if "k < length ?r" for k
    using that ds(3) by (simp add: cstr_def rev_nth hex_digit)
  have "atoi (cstr (uprintint w 10 True)) = Some (fold (\<lambda>d n. n * 10 + int d) ?r 0)"
    unfolding atoi_def p by (rule atoi_loop_digits) (use k ds(3) in \<open>auto simp: cstr_def\<close>)
  moreover have "sint w = int (unat w)" by (rule sint_nonneg [OF assms])
  ultimately show ?thesis by (simp add: fold_digits ds(2))
qed

lemma printint_atoi_witness: "atoi (cstr (uprintint 2047 10 True)) = Some 2047"
  using printint_atoi [of 2047] by simp

text \<open>For every word, sign flag and each of the bases that the kernel and the library use, \<open>printint\<close> puts out
  at least one and at most 11 characters, so its 16-byte buffer does not overflow.\<close>

lemma printint_fits:
  "length (printint dig w 10 sign) \<in> {1..11} \<and> length (printint dig w 16 sign) \<in> {1..11}"
proof -
  have x: "unat x < 10 ^ 10" "unat x < 16 ^ 8" for x :: u32
  proof -
    have "unat x < 2 ^ 32" using unsigned_less [of x] by simp
    then show "unat x < 10 ^ 10" "unat x < 16 ^ 8" by simp_all
  qed
  have "length (digits_of dig 10 (unat x)) \<le> 10" "length (digits_of dig 16 (unat x)) \<le> 8" for x :: u32
    using digits_of_length [OF _ x(1), of dig] digits_of_length [OF _ x(2), of dig] by simp_all
  moreover have "0 < length (digits_of dig b y)" for b y by (simp add: digits_of.simps [of dig b y])
  ultimately have "length (digits_of dig 10 (unat x)) \<in> {1..10}" "length (digits_of dig 16 (unat x)) \<in> {1..10}" for x :: u32
    by (simp_all add: Suc_le_eq order.trans [of _ 8 10])
  from this [of w] this [of "- w"] show ?thesis
    unfolding printint_def Let_def by simp
qed

end
