(* ===== verification/Xv6_Ring.thy ===== *)
theory Xv6_Ring
  imports Xv6_Prelude
begin

text \<open>
  Ring buffers that are indexed by 32-bit counters which only ever go up and wrap around: the pipes and the
  input of the console. It works because the size of the ring divides the range of the counters; that is
  the assumption of the locale, which is interpreted for both sizes.
\<close>

text \<open>The \<open>k\<close> bytes from counter \<open>r\<close> on.\<close>

definition ring_list :: "nat \<Rightarrow> (nat \<Rightarrow> byte) \<Rightarrow> u32 \<Rightarrow> nat \<Rightarrow> byte list" where
  "ring_list n buf r k = map (\<lambda>i. buf (unat (r + of_nat i) mod n)) [0..<k]"

lemma ring_list_0 [simp]: "ring_list n buf r 0 = []"
  by (simp add: ring_list_def)

lemma length_ring_list [simp]: "length (ring_list n buf r k) = k"
  by (simp add: ring_list_def)

lemma ring_list_Suc: "ring_list n buf r (Suc k) = buf (unat r mod n) # ring_list n buf (r + 1) k"
  by (simp add: ring_list_def upt_conv_Cons map_Suc_upt [symmetric] add.assoc del: upt_Suc)

lemma ring_list_add: "ring_list n buf r (i + j) = ring_list n buf r i @ ring_list n buf (r + of_nat i) j"
proof (induction i arbitrary: r)
  case (Suc i)
  have "ring_list n buf r (Suc i + j) = buf (unat r mod n) # ring_list n buf (r + 1) (i + j)" by (simp add: ring_list_Suc)
  then show ?case unfolding Suc.IH by (simp add: ring_list_Suc add.assoc)
qed simp

lemma ring_list_snoc: "ring_list n buf r (Suc k) = ring_list n buf r k @ [buf (unat (r + of_nat k) mod n)]"
  by (simp add: ring_list_def)

text \<open>The number of bytes between two counters.\<close>

lemma counter_diff: "w - r = of_nat k \<Longrightarrow> k < 2 ^ 32 \<Longrightarrow> unat (w - r :: u32) = k"
  by (simp only: unat_of_nat) simp

lemma counter_eq: "w = r + of_nat (unat (w - r :: u32))"
  by simp

locale byte_ring =
  fixes n :: nat
  assumes pos: "0 < n" and dvd: "n dvd 2 ^ 32"
begin

lemma place_mod: "unat (a + of_nat k :: u32) mod n = (unat a + k) mod n"
proof -
  have "unat (a + of_nat k) = (unat a + k) mod 2 ^ 32"
    by (simp add: unat_word_ariths unat_of_nat mod_simps)
  then show ?thesis using dvd by (simp only: mod_mod_cancel)
qed

lemma place_ne: "i < j \<Longrightarrow> j < n \<Longrightarrow> unat (a + of_nat i :: u32) mod n \<noteq> unat (a + of_nat j) mod n"
  unfolding place_mod using mod_eq_dvd_iff_nat [of "unat a + i" "unat a + j" n] by (auto dest: dvd_imp_le)

lemma update_after: "k \<le> j \<Longrightarrow> j < n \<Longrightarrow> ring_list n (buf(unat (r + of_nat j) mod n := c)) r k = ring_list n buf r k"
  using place_ne [of _ j r] unfolding ring_list_def by (intro map_cong) auto

lemma put_byte:
  assumes "k < n"
  shows "ring_list n (buf(unat (r + of_nat k) mod n := c)) r (Suc k) = ring_list n buf r k @ [c]"
  using ring_list_add [of n "buf(unat (r + of_nat k) mod n := c)" r k 1] update_after [of k k buf r c] assms
  by (simp add: ring_list_Suc)

end

end
