(* ===== verification/Xv6_Console.thy ===== *)
theory Xv6_Console
  imports Xv6_Inode Xv6_Print Xv6_Ring
begin

text \<open>
  The console (\<open>console.c\<close>) with the serial port (\<open>uart.c\<close>) and the keyboard (\<open>kbd.c\<close>): output to the screen, the
  line editing of the input, and reading and writing of the console device. The cursor registers of the
  screen keep what was written to them; the characters sent to the serial port are recorded.
\<close>

section \<open>State\<close>

abbreviation INPUT_BUF :: nat where "INPUT_BUF \<equiv> 128"
abbreviation BACKSPACE :: nat where "BACKSPACE \<equiv> 0x100"
abbreviation CONSOLE :: nat where "CONSOLE \<equiv> 1"

text \<open>The entries of \<open>devsw\<close>: a device is known by its driver.\<close>

datatype driver = Console_driver

record conss = fsst +
  panicked :: bool
  cons_locking :: bool
  uart :: bool
  serial :: "byte list"
  crtc14 :: byte
  crtc15 :: byte
  crt :: "nat \<Rightarrow> u16"
  input_buf :: "nat \<Rightarrow> byte"
  input_r :: u32
  input_w :: u32
  input_e :: u32
  devsw :: "nat \<Rightarrow> driver option"

section \<open>Output\<close>

definition uartputc :: "nat \<Rightarrow> 'a conss_scheme \<Rightarrow> 'a conss_scheme" where
  "uartputc c s = (if \<not> uart s then s else s\<lparr>serial := serial s @ [of_nat c]\<rparr>)"

definition uartinit :: "byte \<Rightarrow> 'a conss_scheme \<Rightarrow> 'a conss_scheme" where
  "uartinit status s =
     (if status = 0xFF then s
      else fold (\<lambda>c. uartputc c) (map of_char ''xv6...\<newline>'') (s\<lparr>uart := True\<rparr>))"

text \<open>The cursor position: column + 80 * row.\<close>

definition cursor :: "'a conss_scheme \<Rightarrow> nat" where
  "cursor s = unat (crtc14 s) * 256 + unat (crtc15 s)"

text \<open>The character on the screen, and scrolling up.\<close>

definition cga_char :: "nat \<Rightarrow> (nat \<Rightarrow> u16) \<Rightarrow> nat \<Rightarrow> (nat \<Rightarrow> u16) \<times> nat" where
  "cga_char c m pos =
     (if c = 10 then (m, pos + (80 - pos mod 80))
      else if c = BACKSPACE then (m, if pos > 0 then pos - 1 else pos)
      else (m(pos := (of_nat c AND 0xFF) OR 0x0700), pos + 1))"

definition cga_scroll :: "(nat \<Rightarrow> u16) \<Rightarrow> nat \<Rightarrow> (nat \<Rightarrow> u16) \<times> nat" where
  "cga_scroll m pos =
     (if pos div 80 \<ge> 24
      then (\<lambda>i. if pos - 80 \<le> i \<and> i < 24 * 80 then 0 else if i < 23 * 80 then m (i + 80) else m i, pos - 80)
      else (m, pos))"

definition cga_set :: "(nat \<Rightarrow> u16) \<Rightarrow> nat \<Rightarrow> 'a conss_scheme \<Rightarrow> 'a conss_scheme" where
  "cga_set m pos s = s\<lparr>crt := m(pos := 32 OR 0x0700), crtc14 := of_nat (pos div 256), crtc15 := of_nat pos\<rparr>"

definition cgaputc :: "nat \<Rightarrow> 'a conss_scheme \<Rightarrow> 'a conss_scheme res" where
  "cgaputc c s =
     (case cga_char c (crt s) (cursor s) of (m, pos) \<Rightarrow>
        if pos > 25 * 80 then Inl (Panic ''pos under/overflow'')
        else case cga_scroll m pos of (m, pos) \<Rightarrow> Inr (cga_set m pos s))"

text \<open>After a panic on another CPU, \<open>consputc\<close> spins forever.\<close>

definition consputc :: "nat \<Rightarrow> 'a conss_scheme \<Rightarrow> 'a conss_scheme res" where
  "consputc c s =
     (if panicked s then Inl (Blocked (''panicked'', 0))
      else cgaputc c (if c = BACKSPACE then uartputc 8 (uartputc 32 (uartputc 8 s)) else uartputc c s))"

fun consputs :: "byte list \<Rightarrow> 'a conss_scheme \<Rightarrow> 'a conss_scheme res" where
  "consputs [] s = Inr s"
| "consputs (c # cs) s = bindR (consputc (unat c) s) (consputs cs)"

definition cprintf :: "byte list \<Rightarrow> carg list \<Rightarrow> 'a conss_scheme \<Rightarrow> 'a conss_scheme res" where
  "cprintf fmt args s = bindR (cprintf_chars fmt args) (\<lambda>out. consputs out s)"

text \<open>The list of processes that \<open>^P\<close> prints (\<open>procdump\<close> of \<open>proc.c\<close>, \<open>getcallerpcs\<close> of \<open>spinlock.c\<close>).\<close>

fun callerpcs :: "nat \<Rightarrow> mem \<Rightarrow> u32 \<Rightarrow> u32 list" where
  "callerpcs 0 m ebp = []"
| "callerpcs (Suc n) m ebp =
     (if ebp = 0 \<or> ebp < KERNBASE \<or> ebp = 0xFFFFFFFF then replicate (Suc n) 0
      else load32 m (ebp + 4) # callerpcs n m (load32 m ebp))"

definition getcallerpcs :: "mem \<Rightarrow> u32 \<Rightarrow> u32 list" where
  "getcallerpcs m v = callerpcs 10 m (v - 8)"

definition state_name :: "procstate \<Rightarrow> byte list" where
  "state_name st = map of_char (case st of UNUSED \<Rightarrow> ''unused'' | EMBRYO \<Rightarrow> ''embryo'' | SLEEPING \<Rightarrow> ''sleep ''
     | RUNNABLE \<Rightarrow> ''runble'' | RUNNING \<Rightarrow> ''run   '' | ZOMBIE \<Rightarrow> ''zombie'')"

definition procdump_one :: "'a conss_scheme \<Rightarrow> proc \<Rightarrow> (byte list \<times> carg list) list" where
  "procdump_one s p =
     (if p_state p = UNUSED then []
      else (map of_char ''%d %s %s'', [CNum (of_nat (p_pid p)), CStr (Some (state_name (p_state p))), CStr (Some (p_name p))])
           # (if p_state p = SLEEPING
              then map (\<lambda>pc. (map of_char '' %p'', [CNum pc]))
                     (takeWhile (\<lambda>pc. pc \<noteq> 0) (getcallerpcs (ram s) (ctx_ebp (p_context p) + 8)))
              else [])
           @ [(map of_char ''\<newline>'', [])])"

fun cprintfs :: "(byte list \<times> carg list) list \<Rightarrow> 'a conss_scheme \<Rightarrow> 'a conss_scheme res" where
  "cprintfs [] s = Inr s"
| "cprintfs ((fmt, args) # l) s = bindR (cprintf fmt args s) (cprintfs l)"

definition procdump :: "'a conss_scheme \<Rightarrow> 'a conss_scheme res" where
  "procdump s = cprintfs (concat (map (\<lambda>i. procdump_one s (ptable s i)) [0..<NPROC])) s"

section \<open>Input\<close>

definition input_at :: "'a conss_scheme \<Rightarrow> u32 \<Rightarrow> byte" where
  "input_at s i = input_buf s (unat i mod INPUT_BUF)"

text \<open>The loop of \<open>^U\<close>; there are at most \<open>e - w\<close> characters to erase.\<close>

fun kill_line :: "nat \<Rightarrow> 'a conss_scheme \<Rightarrow> 'a conss_scheme res" where
  "kill_line 0 s = Inr s"
| "kill_line (Suc n) s =
     (if input_e s \<noteq> input_w s \<and> input_at s (input_e s - 1) \<noteq> 10
      then bindR (consputc BACKSPACE (s\<lparr>input_e := input_e s - 1\<rparr>)) (kill_line n)
      else Inr s)"

definition insert_char :: "nat \<Rightarrow> 'a conss_scheme \<Rightarrow> 'a conss_scheme res" where
  "insert_char c s =
     bindR (consputc c (s\<lparr>input_buf := (input_buf s)(unat (input_e s) mod INPUT_BUF := of_nat c), input_e := input_e s + 1\<rparr>)) (\<lambda>s.
       if c = 10 \<or> c = 4 \<or> input_e s = input_r s + of_nat INPUT_BUF
       then Inr (wakeup (''input'', 0) (s\<lparr>input_w := input_e s\<rparr>))
       else Inr s)"

definition consoleintr_char :: "nat \<Rightarrow> 'a conss_scheme \<Rightarrow> 'a conss_scheme res" where
  "consoleintr_char c s =
     (if c = 16 then Inr s
      else if c = 21 then kill_line (unat (input_e s - input_w s)) s
      else if c = 8 \<or> c = 127
      then if input_e s \<noteq> input_w s then consputc BACKSPACE (s\<lparr>input_e := input_e s - 1\<rparr>) else Inr s
      else if c \<noteq> 0 \<and> input_e s - input_r s < of_nat INPUT_BUF
      then insert_char (if c = 13 then 10 else c) s
      else Inr s)"

fun consoleintr_chars :: "nat list \<Rightarrow> 'a conss_scheme \<Rightarrow> 'a conss_scheme res" where
  "consoleintr_chars [] s = Inr s"
| "consoleintr_chars (c # cs) s = bindR (consoleintr_char c s) (consoleintr_chars cs)"

text \<open>\<open>cs\<close> are the characters that \<open>getc\<close> delivers before it returns -1.\<close>

definition consoleintr :: "nat list \<Rightarrow> 'a conss_scheme \<Rightarrow> 'a conss_scheme res" where
  "consoleintr cs s =
     bindR (consoleintr_chars cs s) (\<lambda>s. if 16 \<in> set cs then procdump s else Inr s)"

text \<open>
  The loop of \<open>consoleread\<close>, with \<open>n\<close> bytes to go: how many are left at the end, and the bytes read.
  \<open>CR_wait\<close> is the loop asleep, with what it has so far; it goes on when it is woken up.
\<close>

datatype cr_result = CR_done nat "byte list" | CR_killed "byte list" | CR_wait nat "byte list"

fun cr_more :: "byte \<Rightarrow> cr_result \<Rightarrow> cr_result" where
  "cr_more c (CR_done n cs) = CR_done n (c # cs)"
| "cr_more c (CR_killed cs) = CR_killed (c # cs)"
| "cr_more c (CR_wait n cs) = CR_wait n (c # cs)"

fun consoleread_loop :: "nat \<Rightarrow> nat \<Rightarrow> 'a conss_scheme \<Rightarrow> cr_result \<times> 'a conss_scheme" where
  "consoleread_loop target 0 s = (CR_done 0 [], s)"
| "consoleread_loop target (Suc n) s =
     (if input_r s = input_w s
      then if p_killed (myproc s) then (CR_killed [], s) else (CR_wait (Suc n) [], s)
      else let c = input_at s (input_r s); s' = s\<lparr>input_r := input_r s + 1\<rparr>
           in if c = 4 then (CR_done (Suc n) [], if Suc n < target then s else s')
              else if c = 10 then (CR_done n [c], s')
              else case consoleread_loop target n s' of (r, t) \<Rightarrow> (cr_more c r, t))"

text \<open>\<open>consoleread\<close> returns its result, the bytes read, and the state.\<close>

definition consoleread :: "nat \<Rightarrow> int \<Rightarrow> 'a conss_scheme \<Rightarrow> (int \<times> byte list \<times> 'a conss_scheme) res" where
  "consoleread ip n s =
     bindR (iunlock (Some ip) s) (\<lambda>s.
       case consoleread_loop (nat n) (nat n) s of
         (CR_done k cs, s) \<Rightarrow> bindR (ilock (Some ip) s) (\<lambda>s. Inr (int (nat n) - int k, cs, s))
       | (CR_killed cs, s) \<Rightarrow> bindR (ilock (Some ip) s) (\<lambda>s. Inr (- 1, cs, s))
       | (CR_wait k cs, s) \<Rightarrow> Inl (Blocked (''input'', 0)))"

definition consolewrite :: "nat \<Rightarrow> byte list \<Rightarrow> 'a conss_scheme \<Rightarrow> (int \<times> 'a conss_scheme) res" where
  "consolewrite ip cs s =
     bindR (iunlock (Some ip) s) (\<lambda>s.
     bindR (consputs cs s) (\<lambda>s.
     bindR (ilock (Some ip) s) (\<lambda>s. Inr (int (length cs), s))))"

definition consoleinit :: "'a conss_scheme \<Rightarrow> 'a conss_scheme" where
  "consoleinit s = s\<lparr>devsw := (devsw s)(CONSOLE := Some Console_driver), cons_locking := True\<rparr>"


section \<open>The screen\<close>

lemma cga_char_on_screen:
  assumes "cga_char c m pos = (m', pos')" "pos < 24 * 80"
  shows "pos' \<le> 24 * 80" "25 * 80 \<le> i \<Longrightarrow> m' i = m i"
proof -
  have "pos mod 80 < 80" "pos div 80 * 80 + pos mod 80 = pos" "pos div 80 < 24" using assms(2) by simp_all
  then have "pos + (80 - pos mod 80) \<le> 24 * 80" by linarith
  then show "pos' \<le> 24 * 80" using assms by (auto simp: cga_char_def split: if_splits)
  show "25 * 80 \<le> i \<Longrightarrow> m' i = m i" using assms by (auto simp: cga_char_def split: if_splits)
qed

lemma cga_scroll_on_screen:
  assumes "cga_scroll m pos = (m', pos')" "pos \<le> 24 * 80"
  shows "pos' < 24 * 80" "25 * 80 \<le> i \<Longrightarrow> m' i = m i"
proof -
  have "pos div 80 * 80 + pos mod 80 = pos" "pos mod 80 < 80" by simp_all
  then show "pos' < 24 * 80" using assms unfolding cga_scroll_def by (cases "24 \<le> pos div 80"; simp; linarith)
  show "25 * 80 \<le> i \<Longrightarrow> m' i = m i" using assms by (auto simp: cga_scroll_def split: if_splits)
qed

lemma cursor_set:
  assumes "pos < 24 * 80"
  shows "cursor (cga_set m pos s) = pos"
proof -
  have "unat (of_nat (pos div 256) :: byte) = pos div 256" using assms by (simp only: unat_of_nat) simp
  moreover have "unat (of_nat pos :: byte) = pos mod 256" by (simp only: unat_of_nat) simp
  ultimately show ?thesis by (simp add: cursor_def cga_set_def)
qed

text \<open>What the output of a character leaves alone.\<close>

definition input_same :: "'a conss_scheme \<Rightarrow> 'a conss_scheme \<Rightarrow> bool" where
  "input_same s t \<longleftrightarrow> input_buf t = input_buf s \<and> input_r t = input_r s \<and> input_w t = input_w s \<and> input_e t = input_e s \<and>
     panicked t = panicked s \<and> uart t = uart s"

lemma cgaputc_runs:
  assumes "cursor s < 24 * 80"
  shows "\<exists>t. cgaputc c s = Inr t \<and> cursor t < 24 * 80 \<and> input_same s t \<and> (\<forall>i \<ge> 25 * 80. crt t i = crt s i) \<and> serial t = serial s"
proof -
  obtain m1 p1 where 1: "cga_char c (crt s) (cursor s) = (m1, p1)" by fastforce
  obtain m2 p2 where 2: "cga_scroll m1 p1 = (m2, p2)" by fastforce
  note c = cga_char_on_screen [OF 1 assms] and d = cga_scroll_on_screen [OF 2 c(1)]
  have "cgaputc c s = Inr (cga_set m2 p2 s)" using c(1) by (simp add: cgaputc_def 1 2)
  moreover have "cursor (cga_set m2 p2 s) < 24 * 80" using d(1) cursor_set [OF d(1), of m2 s] by simp
  moreover have "crt (cga_set m2 p2 s) i = crt s i" if "25 * 80 \<le> i" for i
    using c(2) [OF that] d(1) d(2) [OF that] that by (simp add: cga_set_def)
  ultimately show ?thesis by (auto simp: input_same_def cga_set_def)
qed

lemma uartputc_same: "input_same s (uartputc c s)" "cursor (uartputc c s) = cursor s" "crt (uartputc c s) = crt s"
  by (simp_all add: uartputc_def input_same_def cursor_def)

lemma input_same_trans: "input_same s t \<Longrightarrow> input_same t u \<Longrightarrow> input_same s u"
  by (simp add: input_same_def)

lemma consputc_runs:
  assumes "cursor s < 24 * 80" "\<not> panicked s"
  shows "\<exists>t. consputc c s = Inr t \<and> cursor t < 24 * 80 \<and> input_same s t \<and> (\<forall>i \<ge> 25 * 80. crt t i = crt s i) \<and>
    (uart s \<longrightarrow> c \<noteq> BACKSPACE \<longrightarrow> serial t = serial s @ [of_nat c])"
proof -
  define u where "u = (if c = BACKSPACE then uartputc 8 (uartputc 32 (uartputc 8 s)) else uartputc c s)"
  have u: "input_same s u" "cursor u = cursor s" "crt u = crt s" "uart s \<Longrightarrow> c \<noteq> BACKSPACE \<Longrightarrow> serial u = serial s @ [of_nat c]"
    by (simp_all add: u_def uartputc_def input_same_def cursor_def)
  obtain t where t: "cgaputc c u = Inr t" "cursor t < 24 * 80" "input_same u t" "\<forall>i \<ge> 25 * 80. crt t i = crt u i" "serial t = serial u"
    using cgaputc_runs [of u c] assms(1) u(2) by auto
  then show ?thesis
    using assms(2) u input_same_trans [OF u(1) t(3)] by (simp add: consputc_def u_def)
qed

lemma consputc_same:
  assumes "consputc c s = Inr t"
  shows "input_same s t"
proof -
  define u where "u = (if c = BACKSPACE then uartputc 8 (uartputc 32 (uartputc 8 s)) else uartputc c s)"
  have "input_same s u" by (simp add: u_def uartputc_def input_same_def)
  moreover have "cgaputc c u = Inr t" using assms by (simp add: consputc_def u_def split: if_splits)
  then have "input_same u t" by (auto simp: cgaputc_def cga_set_def input_same_def split: prod.splits if_splits)
  ultimately show ?thesis by (rule input_same_trans)
qed


lemma consputs_runs:
  assumes "cursor s < 24 * 80" "\<not> panicked s"
  shows "\<exists>t. consputs cs s = Inr t \<and> cursor t < 24 * 80 \<and> input_same s t \<and> (\<forall>i \<ge> 25 * 80. crt t i = crt s i) \<and>
    (uart s \<longrightarrow> serial t = serial s @ cs)"
  using assms
proof (induction cs arbitrary: s)
  case (Cons c cs)
  have "unat c < 256" using unsigned_less [of c] by simp
  then have "unat c \<noteq> BACKSPACE" by simp
  then obtain u where u: "consputc (unat c) s = Inr u" "cursor u < 24 * 80" "input_same s u" "\<forall>i \<ge> 25 * 80. crt u i = crt s i"
    "uart s \<longrightarrow> serial u = serial s @ [c]" using consputc_runs [OF Cons.prems, of "unat c"] by auto
  have "\<not> panicked u" "uart u = uart s" using u(3) Cons.prems(2) by (simp_all add: input_same_def)
  from Cons.IH [OF u(2) this(1)] this(2) u show ?case by (auto intro: input_same_trans)
qed (simp add: input_same_def)

section \<open>The input line\<close>

interpretation cring: byte_ring INPUT_BUF
  by unfold_locales simp_all

text \<open>The bytes that a reader can get, and those that are still being edited.\<close>

definition clen :: "'a conss_scheme \<Rightarrow> nat" where "clen s = unat (input_w s - input_r s)"
definition elen :: "'a conss_scheme \<Rightarrow> nat" where "elen s = unat (input_e s - input_w s)"

definition committed :: "'a conss_scheme \<Rightarrow> byte list" where
  "committed s = ring_list INPUT_BUF (input_buf s) (input_r s) (clen s)"

definition editing :: "'a conss_scheme \<Rightarrow> byte list" where
  "editing s = ring_list INPUT_BUF (input_buf s) (input_w s) (elen s)"

definition input_ok :: "'a conss_scheme \<Rightarrow> bool" where
  "input_ok s \<longleftrightarrow> clen s + elen s \<le> INPUT_BUF \<and> 10 \<notin> set (editing s)"

lemma input_same_line: "input_same s t \<Longrightarrow> clen t = clen s \<and> elen t = elen s \<and> committed t = committed s \<and> editing t = editing s"
  by (simp add: input_same_def clen_def elen_def committed_def editing_def)

lemma line_lengths [simp]: "length (committed s) = clen s" "length (editing s) = elen s"
  by (simp_all add: committed_def editing_def)

lemma input_counters: "input_w s = input_r s + of_nat (clen s)" "input_e s = input_w s + of_nat (elen s)"
  by (simp_all add: clen_def elen_def)

lemma input_used: "input_ok s \<Longrightarrow> unat (input_e s - input_r s) = clen s + elen s"
  by (rule counter_diff) (simp_all add: input_counters(2) [of s] input_counters(1) [of s] input_ok_def)

text \<open>What the driver does, on the two lists.\<close>

fun edit_char :: "nat \<Rightarrow> byte list \<times> byte list \<Rightarrow> byte list \<times> byte list" where
  "edit_char c (q, l) =
     (if c = 16 then (q, l)
      else if c = 21 then (q, [])
      else if c = 8 \<or> c = 127 then (q, butlast l)
      else if c \<noteq> 0 \<and> length q + length l < INPUT_BUF
      then let c = (if c = 13 then 10 else c); l = l @ [of_nat c]
           in if c = 10 \<or> c = 4 \<or> length q + length l = INPUT_BUF then (q @ l, []) else (q, l)
      else (q, l))"

lemma erase_one:
  assumes "input_ok s" "elen s = Suc k"
  defines "t \<equiv> s\<lparr>input_e := input_e s - 1\<rparr>"
  shows "clen t = clen s" "elen t = k" "committed t = committed s" "editing t = butlast (editing s)" "input_ok t"
    "input_at s (input_e s - 1) \<noteq> 10" "input_e s \<noteq> input_w s"
proof -
  have e: "input_e s - 1 = input_w s + of_nat k" using input_counters(2) [of s] assms(2) by simp
  have l: "editing s = ring_list INPUT_BUF (input_buf s) (input_w s) k @ [input_at s (input_e s - 1)]"
    by (simp add: editing_def assms(2) ring_list_snoc input_at_def e)
  show "elen t = k"
    using counter_diff [of "input_e t" "input_w t" k] e assms(1,2) by (simp add: elen_def t_def input_ok_def)
  then show "editing t = butlast (editing s)" unfolding l by (simp add: editing_def t_def)
  then show "input_ok t" using assms(1,2) \<open>elen t = k\<close> l by (simp add: input_ok_def clen_def t_def)
  show "clen t = clen s" "committed t = committed s" by (simp_all add: clen_def committed_def t_def)
  show "input_at s (input_e s - 1) \<noteq> 10" using assms(1) l by (auto simp: input_ok_def)
  show "input_e s \<noteq> input_w s" using assms(2) by (auto simp: elen_def)
qed


lemma same_ok: "input_same s t \<Longrightarrow> input_ok t = input_ok s"
  using input_same_line [of s t] by (simp add: input_ok_def)

lemma kill_line_spec:
  assumes "kill_line n s = Inr t" "input_ok s" "elen s = n"
  shows "input_ok t \<and> committed t = committed s \<and> editing t = []"
  using assms
proof (induction n arbitrary: s)
  case 0
  then show ?case by (simp add: editing_def)
next
  case (Suc n)
  note e = erase_one [OF Suc.prems(2,3)]
  let ?u = "s\<lparr>input_e := input_e s - 1\<rparr>"
  obtain u where u: "consputc BACKSPACE ?u = Inr u" "kill_line n u = Inr t"
    using Suc.prems(1) e(6,7) by (auto simp: res_simps)
  note c = consputc_same [OF u(1)]
  from Suc.IH [OF u(2)] same_ok [OF c] input_same_line [OF c] e show ?case by simp
qed

text \<open>A character at the end of the line.\<close>

lemma add_one:
  fixes c :: byte
  assumes "input_ok s" "clen s + elen s < INPUT_BUF"
  defines "t \<equiv> s\<lparr>input_buf := (input_buf s)(unat (input_e s) mod INPUT_BUF := c), input_e := input_e s + 1\<rparr>"
  shows "clen t = clen s" "elen t = Suc (elen s)" "committed t = committed s" "editing t = editing s @ [c]"
proof -
  show c: "clen t = clen s" by (simp add: clen_def t_def)
  have "input_e t - input_w t = of_nat (Suc (elen s))" using input_counters(2) [of s] by (simp add: t_def)
  from counter_diff [OF this] show e: "elen t = Suc (elen s)" using assms(2) by (simp add: elen_def [of t])
  have w: "input_r s + of_nat (clen s + elen s) = input_e s" "input_w s + of_nat (elen s) = input_e s"
    using input_counters [of s] by simp_all
  show "committed t = committed s"
    using cring.update_after [of "clen s" "clen s + elen s" "input_buf s" "input_r s" c, unfolded w] assms(2)
    unfolding committed_def c by (simp add: t_def)
  show "editing t = editing s @ [c]"
    using cring.put_byte [of "elen s" "input_buf s" "input_w s" c, unfolded w] assms(2)
    unfolding editing_def e by (simp add: t_def)
qed

text \<open>The line is handed to the readers.\<close>

lemma commit_line:
  assumes "clen s + elen s \<le> INPUT_BUF"
  defines "t \<equiv> s\<lparr>input_w := input_e s\<rparr>"
  shows "committed t = committed s @ editing s" "editing t = []" "input_ok t"
proof -
  have "input_e s = input_r s + of_nat (clen s + elen s)" using input_counters [of s] by simp
  then have c: "clen t = clen s + elen s"
    using counter_diff [of "input_w t" "input_r t" "clen s + elen s"] assms(1) by (simp add: clen_def t_def)
  show "committed t = committed s @ editing s"
    using ring_list_add [of INPUT_BUF "input_buf s" "input_r s" "clen s" "elen s"] input_counters(1) [of s]
    unfolding committed_def editing_def c by (simp add: t_def)
  show e: "editing t = []" by (simp add: editing_def elen_def t_def)
  then show "input_ok t" using assms(1) c by (simp add: input_ok_def elen_def t_def)
qed

lemma wakeup_same: "input_same s (wakeup c s)"
  by (simp add: wakeup_def input_same_def)

lemma consoleintr_char_spec:
  assumes "input_ok s" "c < 256" "consoleintr_char c s = Inr t"
  shows "input_ok t \<and> (committed t, editing t) = edit_char c (committed s, editing s)"
proof -
  consider "c = 16" | "c = 21" | "c = 8 \<or> c = 127" | "c \<notin> {16, 21, 8, 127}" "c = 0 \<or> clen s + elen s \<ge> INPUT_BUF"
    | "c \<notin> {0, 16, 21, 8, 127}" "clen s + elen s < INPUT_BUF" by fastforce
  then show ?thesis
  proof cases
    case 1
    then show ?thesis using assms by (simp add: consoleintr_char_def)
  next
    case 2
    then show ?thesis using assms kill_line_spec [of "elen s" s t] by (simp add: consoleintr_char_def elen_def)
  next
    case 3
    show ?thesis
    proof (cases "elen s")
      case 0
      then have "input_e s = input_w s" by (simp add: elen_def unat_eq_0)
      moreover have "editing s = []" using 0 by (simp add: editing_def)
      ultimately show ?thesis using 3 assms by (auto simp: consoleintr_char_def)
    next
      case (Suc k)
      note e = erase_one [OF assms(1) Suc]
      have "consputc BACKSPACE (s\<lparr>input_e := input_e s - 1\<rparr>) = Inr t" using 3 assms(3) e(7) by (auto simp: consoleintr_char_def)
      note c = consputc_same [OF this]
      have "edit_char c (committed s, editing s) = (committed s, butlast (editing s))" using 3 by auto
      then show ?thesis using e(3-5) input_same_line [OF c] same_ok [OF c] by simp
    qed
  next
    case 4
    then have "\<not> (c \<noteq> 0 \<and> input_e s - input_r s < of_nat INPUT_BUF)"
      using input_used [OF assms(1)] by (auto simp: word_less_nat_alt)
    with 4(1) have "consoleintr_char c s = Inr s" unfolding consoleintr_char_def by (cases "c = 0") simp_all
    moreover have "edit_char c (committed s, editing s) = (committed s, editing s)" using 4 by (cases "c = 0") simp_all
    ultimately show ?thesis using assms by simp
  next
    case 5
    define d where "d = (if c = 13 then 10 else c)"
    define u where "u = s\<lparr>input_buf := (input_buf s)(unat (input_e s) mod INPUT_BUF := of_nat d), input_e := input_e s + 1\<rparr>"
    note a = add_one [OF assms(1) 5(2), of "of_nat d", folded u_def]
    have "input_e s - input_r s < of_nat INPUT_BUF" using 5(2) input_used [OF assms(1)] by (simp add: word_less_nat_alt)
    then have "bindR (consputc d u) (\<lambda>v. if d = 10 \<or> d = 4 \<or> input_e v = input_r v + of_nat INPUT_BUF
        then Inr (wakeup (''input'', 0) (v\<lparr>input_w := input_e v\<rparr>)) else Inr v) = Inr t"
      using 5 assms(3) by (simp add: consoleintr_char_def insert_char_def d_def u_def)
    from this [unfolded bindR_eq_Inr] obtain v where "consputc d u = Inr v \<and> (if d = 10 \<or> d = 4 \<or> input_e v = input_r v + of_nat INPUT_BUF
        then Inr (wakeup (''input'', 0) (v\<lparr>input_w := input_e v\<rparr>)) else Inr v) = (Inr t :: _ res)"
      ..
    note v = conjunct1 [OF this] conjunct2 [OF this]
    note s = input_same_line [OF consputc_same [OF v(1)]]
    have "input_e v = input_r v + of_nat (clen v) + of_nat (elen v)" using input_counters [of v] by metis
    then have "input_e v - input_r v = of_nat (clen v + elen v)" by simp
    then have "input_e v - input_r v = of_nat (clen s + Suc (elen s))" using s a(1,2) by simp
    then have "unat (input_e v - input_r v) = clen s + Suc (elen s)" using 5(2) by (intro counter_diff) simp_all
    moreover have "input_e v = input_r v + of_nat INPUT_BUF \<longleftrightarrow> input_e v - input_r v = of_nat INPUT_BUF"
      by (simp add: diff_eq_eq add.commute)
    ultimately have full: "input_e v = input_r v + of_nat INPUT_BUF \<longleftrightarrow> clen s + Suc (elen s) = INPUT_BUF"
      by (simp add: word_unat_eq_iff)
    have ten: "of_nat d \<noteq> (10 :: byte)" if "d \<noteq> 10"
      using that assms(2) by (auto simp: d_def word_unat_eq_iff unat_of_nat split: if_splits)
    have spec: "edit_char c (committed s, editing s) = (if d = 10 \<or> d = 4 \<or> clen s + Suc (elen s) = INPUT_BUF
        then (committed s @ editing s @ [of_nat d], []) else (committed s, editing s @ [of_nat d]))"
      using 5 by (simp add: d_def)
    show ?thesis
    proof (cases "d = 10 \<or> d = 4 \<or> clen s + Suc (elen s) = INPUT_BUF")
      case True
      then have "t = wakeup (''input'', 0) (v\<lparr>input_w := input_e v\<rparr>)" using v(2) full by auto
      then have "input_same (v\<lparr>input_w := input_e v\<rparr>) t" using wakeup_same by blast
      note w = input_same_line [OF this] same_ok [OF this]
      have "clen v + elen v \<le> INPUT_BUF" using s a 5(2) by simp
      from commit_line [OF this] w s a True show ?thesis unfolding spec by simp
    next
      case False
      then have "t = v" using v(2) full by simp
      then show ?thesis using s a False 5(2) assms(1) ten unfolding spec by (auto simp: input_ok_def)
    qed
  qed
qed


definition console_ok :: "'a conss_scheme \<Rightarrow> bool" where
  "console_ok s \<longleftrightarrow> cursor s < 24 * 80 \<and> \<not> panicked s"

lemma consputc_ok: "console_ok s \<Longrightarrow> \<exists>t. consputc c s = Inr t \<and> console_ok t"
  using consputc_runs [of s c] by (auto simp: console_ok_def input_same_def)

lemma kill_line_ok: "console_ok s \<Longrightarrow> \<exists>t. kill_line n s = Inr t \<and> console_ok t"
proof (induction n arbitrary: s)
  case (Suc n)
  have "console_ok (s\<lparr>input_e := input_e s - 1\<rparr>)" using Suc.prems by (simp add: console_ok_def cursor_def)
  then obtain u where "consputc BACKSPACE (s\<lparr>input_e := input_e s - 1\<rparr>) = Inr u" "console_ok u" using consputc_ok by blast
  then show ?case using Suc by (cases "input_e s \<noteq> input_w s \<and> input_at s (input_e s - 1) \<noteq> 10") auto
qed simp

lemma insert_char_ok:
  assumes "console_ok s"
  shows "\<exists>t. insert_char c s = Inr t \<and> console_ok t"
proof -
  have "console_ok (s\<lparr>input_buf := (input_buf s)(unat (input_e s) mod INPUT_BUF := of_nat c), input_e := input_e s + 1\<rparr>)"
    using assms by (simp add: console_ok_def cursor_def)
  from consputc_ok [OF this] obtain u where
    u: "consputc c (s\<lparr>input_buf := (input_buf s)(unat (input_e s) mod INPUT_BUF := of_nat c), input_e := input_e s + 1\<rparr>) = Inr u"
      "console_ok u" by blast
  then show ?thesis by (simp add: insert_char_def) (simp add: console_ok_def cursor_def wakeup_def)
qed

lemma consoleintr_char_ok:
  assumes "console_ok s"
  shows "\<exists>t. consoleintr_char c s = Inr t \<and> console_ok t"
proof -
  have "console_ok (s\<lparr>input_e := input_e s - 1\<rparr>)" using assms by (simp add: console_ok_def cursor_def)
  note ok = consputc_ok [OF this, of BACKSPACE] insert_char_ok [OF assms, of "if c = 13 then 10 else c"]
    kill_line_ok [OF assms, of "unat (input_e s - input_w s)"]
  have "runs (consoleintr_char c s) console_ok"
    unfolding consoleintr_char_def using assms by (intro runs_if ok [folded runs_def]) simp_all
  then show ?thesis by (simp add: runs_def)
qed

section \<open>Properties\<close>

text \<open>Output on the console cannot go wrong: from a cursor on the first 24 lines, any text is printed without a
  panic, the cursor stays on these lines, nothing is written outside the 25 lines of the screen, and the
  serial port gets exactly the text.\<close>

lemma consputs_on_screen:
  assumes "cursor s < 24 * 80" "\<not> panicked s"
  shows "\<exists>t. consputs cs s = Inr t \<and> cursor t < 24 * 80 \<and> (\<forall>i \<ge> 25 * 80. crt t i = crt s i) \<and>
    (\<not> uart s \<or> serial t = serial s @ cs)"
  using consputs_runs [OF assms, of cs] by auto

definition ex_cons :: conss where
  "ex_cons = \<lparr>ram = (\<lambda>_. 0), freelist = 0, use_lock = True, kend = 0, kpgdir = 0, cr3 = 0, tss_esp0 = 0, kdata = 0,
     ptable = (\<lambda>_. ex_proc), nextpid = 2, initproc = Some 0, cpu_proc = Some 0, disk = ex_disk, disksize = 1000, writes = [], bufs = (\<lambda>_. zero_buf),
     log_start = 2, log_size = 30, outstanding = 0, committing = False, log_dev = 1, lh = [],
     sb = sb_of (ex_disk 1), icache = (\<lambda>_. \<lparr>i_dev = 0, i_inum = 0, i_ref = 0, i_lock = initsleeplock, i_valid = False, i_dinode = zero_dinode\<rparr>),
     panicked = False, cons_locking = True, uart = True, serial = [], crtc14 = 7, crtc15 = 127, crt = (\<lambda>_. 0),
     input_buf = (\<lambda>_. 0), input_r = 0xFFFFFFFF, input_w = 0xFFFFFFFF, input_e = 0xFFFFFFFF, devsw = (\<lambda>_. None)\<rparr>"

lemma ex_cons_facts: "cursor ex_cons = 1919" "\<not> panicked ex_cons" "uart ex_cons" "serial ex_cons = []"
  "input_ok ex_cons" "committed ex_cons = []" "editing ex_cons = []"
  by (simp_all add: input_ok_def committed_def editing_def clen_def elen_def) (simp_all add: cursor_def ex_cons_def)

lemma consputs_on_screen_witness:
  "\<exists>t. consputs [104, 105, 10] ex_cons = Inr t \<and> cursor t < 24 * 80 \<and> serial t = [104, 105, 10]"
  using consputs_on_screen [of ex_cons "[104, 105, 10]"] ex_cons_facts by auto

text \<open>C30: The input of the console is a line editor. Whatever characters arrive, the interrupt handler returns, its
  ring buffer, whose counters wrap around, holds at most 128 bytes, and its contents are what a simple
  editor on two lists makes of the characters: the bytes that readers can get and the line being edited,
  with erase, kill, end of line and end of file.\<close>

theorem console_line_edit:
  assumes "input_ok s" "cursor s < 24 * 80" "\<not> panicked s" "\<forall>c \<in> set cs. c < 256"
  shows "\<exists>t. consoleintr_chars cs s = Inr t \<and> length (committed t) + length (editing t) \<le> INPUT_BUF \<and>
    (committed t, editing t) = fold edit_char cs (committed s, editing s)"
proof -
  have "\<exists>t. consoleintr_chars cs s = Inr t \<and> input_ok t \<and> (committed t, editing t) = fold edit_char cs (committed s, editing s)"
    if "console_ok s" using that assms(1,4)
  proof (induction cs arbitrary: s)
    case (Cons c cs)
    obtain u where u: "consoleintr_char c s = Inr u" "console_ok u" using consoleintr_char_ok [OF Cons.prems(1)] by blast
    have c: "input_ok u" "(committed u, editing u) = edit_char c (committed s, editing s)"
      using consoleintr_char_spec [OF Cons.prems(2) _ u(1)] Cons.prems(3) by auto
    from Cons.IH [OF u(2) c(1)] Cons.prems(3) c(2) u(1) show ?case by (auto simp del: edit_char.simps)
  qed simp
  then show ?thesis using assms(2,3) by (auto simp: console_ok_def input_ok_def)
qed

text \<open>A line typed with a correction, while the counters wrap around.\<close>

theorem console_line_edit_witness:
  "\<exists>t. consoleintr_chars [97, 98, 8, 99, 13, 100] ex_cons = Inr t \<and> committed t = [97, 99, 10] \<and> editing t = [100]"
  using console_line_edit [of ex_cons "[97, 98, 8, 99, 13, 100]"] ex_cons_facts
  by (auto simp del: consoleintr_chars.simps)

end
