(* ===== verification/Xv6_Fs.thy ===== *)
theory Xv6_Fs
  imports Xv6_Console
begin

text \<open>
  The upper half of \<open>fs.c\<close>: reading and writing of inodes, directories and path names. The bytes read are
  returned as a list and the bytes written are given as one; the callers copy them to and from memory.
\<close>

section \<open>The contents of an inode\<close>

abbreviation NDEV :: nat where "NDEV \<equiv> 10"

definition dev_of :: "nat \<Rightarrow> 'a conss_scheme \<Rightarrow> driver option" where
  "dev_of ip s =
     (let major = sint (d_major (idata ip s))
      in if major < 0 \<or> major \<ge> int NDEV then None else devsw s (nat major))"

text \<open>
  The loops of \<open>readi\<close> and \<open>writei\<close> go through the range of \<open>k\<close> bytes at \<open>off\<close> in chunks that lie in one block
  each: the value of \<open>off\<close> and \<open>m\<close> in each iteration.
\<close>

function chunks :: "nat \<Rightarrow> nat \<Rightarrow> (nat \<times> nat) list" where
  "chunks off k =
     (if k = 0 then []
      else let m = min k (BSIZE - off mod BSIZE) in (off, m) # chunks (off + m) (k - m))"
  by pat_completeness auto
termination
  by (relation "measure snd") (auto simp: less_diff_conv)

declare chunks.simps [simp del]

fun readi_loop :: "nat \<Rightarrow> (nat \<times> nat) list \<Rightarrow> 'a conss_scheme \<Rightarrow> (byte list \<times> 'a conss_scheme) res" where
  "readi_loop ip [] s = Inr ([], s)"
| "readi_loop ip ((off, m) # l) s =
     bindR (bmap ip (off div BSIZE) s) (\<lambda>(addr, s).
     bindR (bread (i_dev (icache s ip)) addr s) (\<lambda>(bp, s).
       let bytes = map (\<lambda>i. bdata bp s (off mod BSIZE + i)) [0..<m]
       in bindR (brelse bp s) (\<lambda>s.
          bindR (readi_loop ip l s) (\<lambda>(bs, s). Inr (bytes @ bs, s)))))"

definition readi :: "nat \<Rightarrow> nat \<Rightarrow> nat \<Rightarrow> 'a conss_scheme \<Rightarrow> (int \<times> byte list \<times> 'a conss_scheme) res" where
  "readi ip off n s =
     (if d_type (idata ip s) = T_DEV
      then case dev_of ip s of None \<Rightarrow> Inr (- 1, [], s)
             | Some Console_driver \<Rightarrow> consoleread ip (sint (of_nat n :: u32)) s
      else let sz = d_size (idata ip s)
           in if off > sz \<or> (off + n) mod 2 ^ 32 < off then Inr (- 1, [], s)
              else let n = (if off + n > sz then sz - off else n)
                   in bindR (readi_loop ip (chunks off n) s) (\<lambda>(bs, s). Inr (int n, bs, s)))"

text \<open>The bytes \<open>bs\<close> replace those of a block from \<open>k\<close> on.\<close>

definition put_bytes :: "nat \<Rightarrow> byte list \<Rightarrow> block \<Rightarrow> block" where
  "put_bytes k bs d = (\<lambda>i. if k \<le> i \<and> i < k + length bs then bs ! (i - k) else d i)"

fun writei_loop :: "nat \<Rightarrow> (nat \<times> nat) list \<Rightarrow> byte list \<Rightarrow> 'a conss_scheme \<Rightarrow> 'a conss_scheme res" where
  "writei_loop ip [] bs s = Inr s"
| "writei_loop ip ((off, m) # l) bs s =
     bindR (bmap ip (off div BSIZE) s) (\<lambda>(addr, s).
     bindR (log_update (i_dev (icache s ip)) addr (put_bytes (off mod BSIZE) (take m bs)) s) (\<lambda>s.
       writei_loop ip l (drop m bs) s))"

definition writei :: "nat \<Rightarrow> nat \<Rightarrow> byte list \<Rightarrow> 'a conss_scheme \<Rightarrow> (int \<times> 'a conss_scheme) res" where
  "writei ip off bs s =
     (let n = length bs
      in if d_type (idata ip s) = T_DEV
         then case dev_of ip s of None \<Rightarrow> Inr (- 1, s) | Some Console_driver \<Rightarrow> consolewrite ip bs s
         else if off > d_size (idata ip s) \<or> (off + n) mod 2 ^ 32 < off then Inr (- 1, s)
         else if off + n > MAXFILE * BSIZE then Inr (- 1, s)
         else bindR (writei_loop ip (chunks off n) bs s) (\<lambda>s.
              if n > 0 \<and> off + n > d_size (idata ip s)
              then bindR (iupdate ip (upd_dinode ip (\<lambda>x. x\<lparr>d_size := off + n\<rparr>) s)) (\<lambda>s. Inr (int n, s))
              else Inr (int n, s)))"

section \<open>Directories\<close>

abbreviation DIRSIZ :: nat where "DIRSIZ \<equiv> 14"

text \<open>A directory entry: the inode number in two bytes, then the name.\<close>

definition de_inum :: "byte list \<Rightarrow> nat" where
  "de_inum de = unat (de ! 0) + 256 * unat (de ! 1)"

definition de_name :: "byte list \<Rightarrow> cbuf" where
  "de_name de = (\<lambda>i. de ! (i + 2))"

definition mk_dirent :: "nat \<Rightarrow> byte list \<Rightarrow> byte list" where
  "mk_dirent inum name =
     [of_nat inum, of_nat (inum div 256)] @ map (\<lambda>i. cstr name i) [0..<DIRSIZ]"

text \<open>A name is its characters, at most \<open>DIRSIZ\<close> of them.\<close>

definition namecmp :: "cbuf \<Rightarrow> cbuf \<Rightarrow> int" where
  "namecmp s t = strncmp s t DIRSIZ"

text \<open>The search of \<open>dirlookup\<close>, with \<open>n\<close> entries left: the inode and the offset of the entry.\<close>

fun dirlookup_from :: "nat \<Rightarrow> nat \<Rightarrow> nat \<Rightarrow> byte list \<Rightarrow> 'a conss_scheme \<Rightarrow>
    ((nat \<times> nat) option \<times> 'a conss_scheme) res" where
  "dirlookup_from 0 off dp name s = Inr (None, s)"
| "dirlookup_from (Suc n) off dp name s =
     bindR (readi dp off 16 s) (\<lambda>(r, de, s).
       if r \<noteq> 16 then Inl (Panic ''dirlookup read'')
       else if de_inum de = 0 then dirlookup_from n (off + 16) dp name s
       else if namecmp (cstr name) (de_name de) = 0
       then bindR (iget (i_dev (icache s dp)) (de_inum de) s) (\<lambda>(ip, s). Inr (Some (ip, off), s))
       else dirlookup_from n (off + 16) dp name s)"

definition entries :: "nat \<Rightarrow> nat" where
  "entries sz = (sz + 15) div 16"

definition dirlookup :: "nat \<Rightarrow> byte list \<Rightarrow> 'a conss_scheme \<Rightarrow> ((nat \<times> nat) option \<times> 'a conss_scheme) res" where
  "dirlookup dp name s =
     (if d_type (idata dp s) \<noteq> T_DIR then Inl (Panic ''dirlookup not DIR'')
      else dirlookup_from (entries (d_size (idata dp s))) 0 dp name s)"

fun empty_dirent_from :: "nat \<Rightarrow> nat \<Rightarrow> nat \<Rightarrow> 'a conss_scheme \<Rightarrow> (nat \<times> 'a conss_scheme) res" where
  "empty_dirent_from 0 off dp s = Inr (off, s)"
| "empty_dirent_from (Suc n) off dp s =
     bindR (readi dp off 16 s) (\<lambda>(r, de, s).
       if r \<noteq> 16 then Inl (Panic ''dirlink read'')
       else if de_inum de = 0 then Inr (off, s)
       else empty_dirent_from n (off + 16) dp s)"

definition dirlink :: "nat \<Rightarrow> byte list \<Rightarrow> nat \<Rightarrow> 'a conss_scheme \<Rightarrow> (int \<times> 'a conss_scheme) res" where
  "dirlink dp name inum s =
     bindR (dirlookup dp name s) (\<lambda>(r, s).
       case r of Some (ip, off) \<Rightarrow> bindR (iput ip s) (\<lambda>s. Inr (- 1, s))
       | None \<Rightarrow>
           bindR (empty_dirent_from (entries (d_size (idata dp s))) 0 dp s) (\<lambda>(off, s).
           bindR (writei dp off (mk_dirent inum name) s) (\<lambda>(r, s).
             if r \<noteq> 16 then Inl (Panic ''dirlink'') else Inr (0, s))))"

section \<open>Paths\<close>

abbreviation slash :: byte where "slash \<equiv> 47"

text \<open>A path is its bytes up to the terminating NUL; the result is the element and the rest of the path.\<close>

definition skipelem :: "byte list \<Rightarrow> (byte list \<times> byte list) option" where
  "skipelem path =
     (let path = dropWhile (\<lambda>c. c = slash) path
      in if path = [] then None
         else let elem = takeWhile (\<lambda>c. c \<noteq> slash) path
              in Some (take DIRSIZ elem, dropWhile (\<lambda>c. c = slash) (drop (length elem) path)))"

lemma skipelem_shorter:
  assumes "skipelem path = Some (name, rest)"
  shows "length rest < length path"
proof -
  let ?p = "dropWhile (\<lambda>c. c = slash) path"
  have p: "?p \<noteq> []" "rest = dropWhile (\<lambda>c. c = slash) (drop (length (takeWhile (\<lambda>c. c \<noteq> slash) ?p)) ?p)"
    using assms by (auto simp: skipelem_def Let_def split: if_splits)
  then have "hd ?p \<noteq> slash" using hd_dropWhile [of "\<lambda>c. c = slash" path] by blast
  then have "0 < length (takeWhile (\<lambda>c. c \<noteq> slash) ?p)" using p(1) by (cases ?p) auto
  moreover have "length rest \<le> length ?p - length (takeWhile (\<lambda>c. c \<noteq> slash) ?p)"
    unfolding p(2) using length_dropWhile_le [of "\<lambda>c. c = slash"] length_drop by metis
  moreover have "0 < length ?p" using p(1) by blast
  ultimately have "length rest < length ?p" by linarith
  then show ?thesis using length_dropWhile_le [of "\<lambda>c. c = slash" path] by linarith
qed

function namex_loop :: "byte list \<Rightarrow> bool \<Rightarrow> nat \<Rightarrow> 'a conss_scheme \<Rightarrow>
    ((nat \<times> byte list) option \<times> 'a conss_scheme) res" where
  "namex_loop path parent ip s =
     (case skipelem path of
        None \<Rightarrow> if parent then bindR (iput ip s) (\<lambda>s. Inr (None, s)) else Inr (Some (ip, []), s)
      | Some (name, path) \<Rightarrow>
          bindR (ilock (Some ip) s) (\<lambda>s.
            if d_type (idata ip s) \<noteq> T_DIR then bindR (iunlockput ip s) (\<lambda>s. Inr (None, s))
            else if parent \<and> path = [] then bindR (iunlock (Some ip) s) (\<lambda>s. Inr (Some (ip, name), s))
            else bindR (dirlookup ip name s) (\<lambda>(r, s).
              case r of None \<Rightarrow> bindR (iunlockput ip s) (\<lambda>s. Inr (None, s))
              | Some (next, off) \<Rightarrow> bindR (iunlockput ip s) (\<lambda>s. namex_loop path parent next s))))"
  by pat_completeness auto
termination
proof (relation "measure (\<lambda>(path, parent, ip, s). length path)", goal_cases)
  case (2 path parent ip s x name rest)
  then have "skipelem path = Some (name, rest)" by simp
  then show ?case using skipelem_shorter [of path name rest] by simp
qed simp

declare namex_loop.simps [simp del]

definition namex :: "byte list \<Rightarrow> bool \<Rightarrow> 'a conss_scheme \<Rightarrow> ((nat \<times> byte list) option \<times> 'a conss_scheme) res" where
  "namex path parent s =
     bindR (if path \<noteq> [] \<and> hd path = slash then iget ROOTDEV ROOTINO s
            else case p_cwd (myproc s) of None \<Rightarrow> Inl Fault | Some ip \<Rightarrow> Inr (ip, idup ip s))
       (\<lambda>(ip, s). namex_loop path parent ip s)"

definition namei :: "byte list \<Rightarrow> 'a conss_scheme \<Rightarrow> (nat option \<times> 'a conss_scheme) res" where
  "namei path s = bindR (namex path False s) (\<lambda>(r, s). Inr (map_option fst r, s))"

definition nameiparent :: "byte list \<Rightarrow> 'a conss_scheme \<Rightarrow> ((nat \<times> byte list) option \<times> 'a conss_scheme) res" where
  "nameiparent path s = namex path True s"


section \<open>How many bytes are read\<close>

lemma chunks_sum: "sum_list (map snd (chunks off k)) = k"
proof (induction off k rule: chunks.induct)
  case (1 off k)
  show ?case
    by (subst chunks.simps) (use "1.IH" in \<open>simp add: Let_def\<close>)
qed

lemma readi_loop_length: "readi_loop ip l s = Inr (bs, t) \<Longrightarrow> length bs = sum_list (map snd l)"
  by (induction ip l s arbitrary: bs t rule: readi_loop.induct) (auto simp: res_simps Let_def split: prod.splits)

lemma consoleread_loop_length:
  "consoleread_loop target n s = (r, t) \<Longrightarrow>
    (case r of CR_done k cs \<Rightarrow> length cs + k = n | CR_killed cs \<Rightarrow> length cs \<le> n | CR_wait k cs \<Rightarrow> length cs \<le> n)"
proof (induction target n s arbitrary: r t rule: consoleread_loop.induct)
  case (2 target n s)
  show ?case
  proof (cases "input_r s = input_w s \<or> input_at s (input_r s) = 4 \<or> input_at s (input_r s) = 10")
    case True
    then show ?thesis using "2.prems" by (auto simp: Let_def split: if_splits)
  next
    case False
    obtain r' t' where r': "consoleread_loop target n (s\<lparr>input_r := input_r s + 1\<rparr>) = (r', t')" by fastforce
    with "2.prems" False have "r = cr_more (input_at s (input_r s)) r'" by (simp add: Let_def)
    then show ?thesis using "2.IH" [OF _ refl refl _ _ r'] False by (cases r') auto
  qed
qed auto

lemma consoleread_length:
  assumes "consoleread ip n s = Inr (r, bs, t)"
  shows "length bs \<le> nat n \<and> (r = - 1 \<or> r = int (length bs))"
proof -
  obtain s1 where s1: "iunlock (Some ip) s = Inr s1" using assms by (auto simp: consoleread_def res_simps)
  obtain x s2 where x: "consoleread_loop (nat n) (nat n) s1 = (x, s2)" by fastforce
  show ?thesis
    using assms consoleread_loop_length [OF x] by (cases x) (auto simp: consoleread_def s1 x res_simps)
qed

lemma sint_le_unat: "sint (w :: u32) \<le> int (unat w)"
proof -
  have "signed_take_bit 31 k \<le> k" if "0 \<le> k" for k :: int
    using that by (simp add: signed_take_bit_int_less_eq_self_iff)
  from this [of "uint w"] show ?thesis by (simp add: sint_uint)
qed

lemma readi_length:
  assumes "readi ip off n s = Inr (r, bs, t)"
  shows "length bs \<le> n \<and> (r = - 1 \<or> r = int (length bs))"
proof (cases "d_type (idata ip s) = T_DEV")
  case True
  have "unat (of_nat n :: u32) \<le> n" by (simp add: unat_of_nat)
  then have "nat (sint (of_nat n :: u32)) \<le> n" using sint_le_unat [of "of_nat n"] by linarith
  then show ?thesis using assms True
    by (auto simp: readi_def split: option.splits driver.splits dest!: consoleread_length)
next
  case False
  then show ?thesis using assms
    by (auto simp: readi_def Let_def res_simps chunks_sum split: if_splits dest!: readi_loop_length)
qed

end
