(* ===== verification/Xv6_Pipe.thy ===== *)
theory Xv6_Pipe
  imports Xv6_Ring "HOL-Library.Sublist"
begin

text \<open>
  Pipes (\<open>pipe.c\<close>): the ring buffer and the loops of \<open>pipewrite\<close> and \<open>piperead\<close>. A loop that has to sleep stops with
  what it has still to do and goes on from there when it is woken up; \<open>p->lock\<close> makes what happens between two
  sleeps one step. The calls on the kernel's state are in \<open>Xv6_File\<close>.
\<close>

section \<open>The loops\<close>

abbreviation PIPESIZE :: nat where "PIPESIZE \<equiv> 512"

record pipe =
  pi_data :: "nat \<Rightarrow> byte"
  nread :: u32
  nwrite :: u32
  readopen :: bool
  writeopen :: bool

definition new_pipe :: "pipe \<Rightarrow> pipe" where
  "new_pipe p = p\<lparr>readopen := True, writeopen := True, nwrite := 0, nread := 0\<rparr>"

datatype pw_result = PW_done | PW_fail | PW_wait "byte list"

fun pipewrite_loop :: "bool \<Rightarrow> byte list \<Rightarrow> pipe \<Rightarrow> pw_result \<times> pipe" where
  "pipewrite_loop killed [] p = (PW_done, p)"
| "pipewrite_loop killed (c # cs) p =
     (if nwrite p = nread p + of_nat PIPESIZE
      then if \<not> readopen p \<or> killed then (PW_fail, p) else (PW_wait (c # cs), p)
      else pipewrite_loop killed cs
             (p\<lparr>pi_data := (pi_data p)(unat (nwrite p) mod PIPESIZE := c), nwrite := nwrite p + 1\<rparr>))"

fun piperead_copy :: "nat \<Rightarrow> pipe \<Rightarrow> byte list \<times> pipe" where
  "piperead_copy 0 p = ([], p)"
| "piperead_copy (Suc n) p =
     (if nread p = nwrite p then ([], p)
      else case piperead_copy n (p\<lparr>nread := nread p + 1\<rparr>) of
             (cs, q) \<Rightarrow> (pi_data p (unat (nread p) mod PIPESIZE) # cs, q))"

datatype pr_result = PR_data "byte list" | PR_fail | PR_wait

definition piperead_loop :: "bool \<Rightarrow> nat \<Rightarrow> pipe \<Rightarrow> pr_result \<times> pipe" where
  "piperead_loop killed n p =
     (if nread p = nwrite p \<and> writeopen p
      then if killed then (PR_fail, p) else (PR_wait, p)
      else case piperead_copy n p of (cs, p) \<Rightarrow> (PR_data cs, p))"

definition pipe_close :: "bool \<Rightarrow> pipe \<Rightarrow> pipe" where
  "pipe_close writable p = (if writable then p\<lparr>writeopen := False\<rparr> else p\<lparr>readopen := False\<rparr>)"

section \<open>The ring as a queue\<close>

definition pipe_len :: "pipe \<Rightarrow> nat" where
  "pipe_len p = unat (nwrite p - nread p)"

definition pipe_ok :: "pipe \<Rightarrow> bool" where
  "pipe_ok p \<longleftrightarrow> pipe_len p \<le> PIPESIZE"

definition contents :: "pipe \<Rightarrow> byte list" where
  "contents p = ring_list PIPESIZE (pi_data p) (nread p) (pipe_len p)"

interpretation pring: byte_ring PIPESIZE
  by unfold_locales simp_all

lemma length_contents [simp]: "length (contents p) = pipe_len p"
  by (simp add: contents_def)

lemma nwrite_eq: "nwrite p = nread p + of_nat (pipe_len p)"
  by (simp add: pipe_len_def)

lemma full_iff: "pipe_ok p \<Longrightarrow> nwrite p = nread p + of_nat PIPESIZE \<longleftrightarrow> pipe_len p = PIPESIZE"
proof -
  assume "pipe_ok p"
  have "nwrite p = nread p + of_nat PIPESIZE \<longleftrightarrow> nwrite p - nread p = of_nat PIPESIZE" 
    by (simp add: diff_eq_eq add.commute)
  also have "\<dots> \<longleftrightarrow> pipe_len p = PIPESIZE" by (simp add: pipe_len_def word_unat_eq_iff)
  finally show ?thesis .
qed

lemma empty_iff: "nread p = nwrite p \<longleftrightarrow> pipe_len p = 0"
  by (auto simp: pipe_len_def unat_eq_0)

text \<open>One byte in, one byte out.\<close>

lemma put_one:
  fixes c :: byte
  assumes "pipe_ok p" "pipe_len p < PIPESIZE"
  defines "q \<equiv> p\<lparr>pi_data := (pi_data p)(unat (nwrite p) mod PIPESIZE := c), nwrite := nwrite p + 1\<rparr>"
  shows "contents q = contents p @ [c]" "pipe_ok q"
proof -
  have "nwrite q - nread q = of_nat (pipe_len p + 1)" by (simp add: q_def nwrite_eq [of p])
  then have l: "pipe_len q = Suc (pipe_len p)"
    using counter_diff [of "nwrite q" "nread q" "pipe_len p + 1"] assms(2) by (simp add: pipe_len_def)
  then show "pipe_ok q" using assms(2) by (simp add: pipe_ok_def)
  show "contents q = contents p @ [c]"
    using pring.put_byte [OF assms(2), of "pi_data p" "nread p" c] by (simp add: contents_def l) (simp add: q_def nwrite_eq [of p])
qed

lemma get_one:
  assumes "pipe_ok p" "pipe_len p > 0"
  defines "q \<equiv> p\<lparr>nread := nread p + 1\<rparr>"
  shows "contents p = pi_data p (unat (nread p) mod PIPESIZE) # contents q" "pipe_ok q"
proof -
  obtain k where k: "pipe_len p = Suc k" using assms(2) by (cases "pipe_len p") auto
  then have "nwrite q - nread q = of_nat k" by (simp add: q_def nwrite_eq [of p])
  then have l: "pipe_len q = k"
    using counter_diff [of "nwrite q" "nread q" k] assms(1) k by (simp add: pipe_len_def pipe_ok_def)
  then show "pipe_ok q" using assms(1) k by (simp add: pipe_ok_def)
  show "contents p = pi_data p (unat (nread p) mod PIPESIZE) # contents q"
    by (simp add: contents_def l k ring_list_Suc) (simp add: q_def)
qed

section \<open>Writers and readers\<close>

lemma pipewrite_loop_spec:
  "pipe_ok p \<Longrightarrow> pipewrite_loop killed cs p = (r, q) \<Longrightarrow>
    \<exists>done left. cs = done @ left \<and> pipe_ok q \<and> contents q = contents p @ done \<and> nread q = nread p \<and>
      readopen q = readopen p \<and> writeopen q = writeopen p \<and>
      (r = PW_done \<and> left = [] \<or> length (contents q) = PIPESIZE \<and> left \<noteq> [] \<and>
        (if \<not> readopen p \<or> killed then r = PW_fail else r = PW_wait left))"
proof (induction cs arbitrary: p)
  case (Cons c cs)
  show ?case
  proof (cases "pipe_len p = PIPESIZE")
    case True
    then show ?thesis using Cons.prems full_iff [OF Cons.prems(1)]
      by (intro exI [of _ "[]"] exI [of _ "c # cs"]) (auto simp: contents_def split: if_splits)
  next
    case False
    then have l: "pipe_len p < PIPESIZE" using Cons.prems(1) by (simp add: pipe_ok_def)
    let ?p = "p\<lparr>pi_data := (pi_data p)(unat (nwrite p) mod PIPESIZE := c), nwrite := nwrite p + 1\<rparr>"
    note o = put_one [OF Cons.prems(1) l, of c]
    have "pipewrite_loop killed cs ?p = (r, q)" using Cons.prems full_iff [OF Cons.prems(1)] False by simp
    from Cons.IH [OF o(2) this] obtain d l where "cs = d @ l" "pipe_ok q" "contents q = contents ?p @ d" "nread q = nread ?p"
      "readopen q = readopen ?p" "writeopen q = writeopen ?p"
      "r = PW_done \<and> l = [] \<or> length (contents q) = PIPESIZE \<and> l \<noteq> [] \<and>
        (if \<not> readopen ?p \<or> killed then r = PW_fail else r = PW_wait l)" by blast
    then show ?thesis by (intro exI [of _ "c # d"] exI [of _ l]) (simp add: o(1))
  qed
qed auto

lemma piperead_copy_spec:
  "pipe_ok p \<Longrightarrow> piperead_copy n p = (cs, q) \<Longrightarrow>
    contents p = cs @ contents q \<and> pipe_ok q \<and> length cs = min n (length (contents p)) \<and>
    readopen q = readopen p \<and> writeopen q = writeopen p"
proof (induction n arbitrary: p cs)
  case (Suc n)
  show ?case
  proof (cases "pipe_len p = 0")
    case True
    then show ?thesis using Suc.prems empty_iff [of p] by (auto simp: contents_def)
  next
    case False
    then have "pipe_len p > 0" by simp
    note o = get_one [OF Suc.prems(1) this]
    obtain ds where ds: "piperead_copy n (p\<lparr>nread := nread p + 1\<rparr>) = (ds, q)" "cs = pi_data p (unat (nread p) mod PIPESIZE) # ds"
      using Suc.prems(2) False empty_iff [of p] by (auto split: prod.splits)
    define p' where "p' = p\<lparr>nread := nread p + 1\<rparr>"
    note f = Suc.IH [OF o(2) ds(1), folded p'_def]
    have c: "contents p = pi_data p (unat (nread p) mod PIPESIZE) # contents p'" using o(1) by (simp add: p'_def)
    have "readopen p' = readopen p" "writeopen p' = writeopen p" by (simp_all add: p'_def)
    with f show ?thesis unfolding ds(2) c by (simp only: length_Cons min_Suc_Suc append_Cons simp_thms)
  qed
qed simp

text \<open>
  A pipe in use: any sequence of calls of writers, whose loops may stop in the middle and go on later,
  and readers. \<open>ps_in\<close> and \<open>ps_out\<close> are the bytes put in and got out so far, \<open>ps_todo\<close> what each writer has
  still to write.
\<close>

record pipesys =
  ps_pipe :: pipe
  ps_todo :: "nat \<Rightarrow> byte list"
  ps_in :: "byte list"
  ps_out :: "byte list"

definition ps_init :: "pipesys \<Rightarrow> bool" where
  "ps_init s \<longleftrightarrow> (\<exists>p. ps_pipe s = new_pipe p) \<and> (\<forall>w. ps_todo s w = []) \<and> ps_in s = [] \<and> ps_out s = []"

fun left_of :: "pw_result \<Rightarrow> byte list" where
  "left_of (PW_wait l) = l"
| "left_of r = []"

inductive ps_step :: "pipesys \<Rightarrow> pipesys \<Rightarrow> bool" where
  ps_call: "ps_todo s w = [] \<Longrightarrow> ps_step s (s\<lparr>ps_todo := (ps_todo s)(w := cs)\<rparr>)"
| ps_write: "pipewrite_loop killed (ps_todo s w) (ps_pipe s) = (r, q) \<Longrightarrow>
    ps_step s (s\<lparr>ps_pipe := q, ps_todo := (ps_todo s)(w := left_of r),
      ps_in := ps_in s @ take (length (contents q) - length (contents (ps_pipe s))) (ps_todo s w)\<rparr>)"
| ps_read: "piperead_loop killed n (ps_pipe s) = (PR_data cs, q) \<Longrightarrow>
    ps_step s (s\<lparr>ps_pipe := q, ps_out := ps_out s @ cs\<rparr>)"
| ps_close: "ps_step s (s\<lparr>ps_pipe := pipe_close writable (ps_pipe s)\<rparr>)"

definition ps_inv :: "pipesys \<Rightarrow> bool" where
  "ps_inv s \<longleftrightarrow> pipe_ok (ps_pipe s) \<and> ps_in s = ps_out s @ contents (ps_pipe s)"

lemma pipe_close_contents [simp]: "pipe_ok (pipe_close w p) = pipe_ok p" "contents (pipe_close w p) = contents p"
  by (simp_all add: pipe_close_def pipe_ok_def pipe_len_def contents_def)

lemma ps_inv_step: "ps_step s t \<Longrightarrow> ps_inv s \<Longrightarrow> ps_inv t"
proof (induction rule: ps_step.induct)
  case (ps_write killed s w r q)
  then obtain d l where "ps_todo s w = d @ l" "pipe_ok q" "contents q = contents (ps_pipe s) @ d"
    using pipewrite_loop_spec [OF _ ps_write(1)] by (auto simp: ps_inv_def)
  then show ?case using ps_write by (simp add: ps_inv_def)
next
  case (ps_read killed n s cs q)
  then have "piperead_copy n (ps_pipe s) = (cs, q)"
    by (auto simp: piperead_loop_def split: if_splits prod.splits)
  then show ?case using piperead_copy_spec [of "ps_pipe s" n cs q] ps_read by (simp add: ps_inv_def)
qed (simp_all add: ps_inv_def)

lemma new_pipe_ok: "pipe_ok (new_pipe p)" "contents (new_pipe p) = []"
  by (simp_all add: new_pipe_def pipe_ok_def pipe_len_def contents_def)

interpretation pipesys: invariant_system ps_init ps_step ps_inv
proof unfold_locales
  show "ps_init s \<Longrightarrow> ps_inv s" for s by (auto simp: ps_init_def ps_inv_def new_pipe_ok)
  show "ps_inv s \<Longrightarrow> ps_step s t \<Longrightarrow> ps_inv t" for s t by (rule ps_inv_step)
qed

section \<open>Properties\<close>

text \<open>C12: A pipe is a queue. Whatever the order in which writers and readers use it, with writers that stop when
  the ring is full and go on later, and with counters that wrap around, the bytes read so far are the
  first of the bytes written so far, in order, and at most 512 bytes are between the two.\<close>

theorem pipe_fifo:
  assumes "reach ps_init ps_step s"
  shows "prefix (ps_out s) (ps_in s) \<and> length (ps_in s) \<le> length (ps_out s) + PIPESIZE"
  using pipesys.inv_reach [OF assms] by (auto simp: ps_inv_def pipe_ok_def contents_def prefix_def)

text \<open>A writer puts in two bytes, a reader gets one.\<close>

definition ex_pipe :: pipe where
  "ex_pipe = new_pipe \<lparr>pi_data = (\<lambda>_. 0), nread = 0, nwrite = 0, readopen = True, writeopen = True\<rparr>"

lemma ex_pipe_run:
  "\<exists>s. reach ps_init ps_step s \<and> ps_in s = [7, 8] \<and> ps_out s = [7]"
proof -
  let ?s0 = "\<lparr>ps_pipe = ex_pipe, ps_todo = (\<lambda>_. []), ps_in = [], ps_out = []\<rparr>"
  let ?s1 = "?s0\<lparr>ps_todo := (ps_todo ?s0)(0 := [7, 8])\<rparr>"
  obtain r q where w: "pipewrite_loop False [7, 8] ex_pipe = (r, q)" by fastforce
  have q: "r = PW_done" "contents q = [7, 8]" "pipe_ok q"
    using pipewrite_loop_spec [OF _ w] new_pipe_ok
    by (auto simp: ex_pipe_def dest: arg_cong [of _ _ length])
  let ?s2 = "?s1\<lparr>ps_pipe := q, ps_todo := (ps_todo ?s1)(0 := left_of r),
      ps_in := ps_in ?s1 @ take (length (contents q) - length (contents (ps_pipe ?s1))) (ps_todo ?s1 0)\<rparr>"
  obtain cs p where c: "piperead_copy 1 q = (cs, p)" by fastforce
  have "cs = [7]" using piperead_copy_spec [OF q(3) c] q(2) by (cases cs) auto
  moreover have "nread q \<noteq> nwrite q" using q(2) empty_iff [of q] by (auto simp: contents_def)
  ultimately have p: "piperead_loop False 1 q = (PR_data [7], p)" using c by (simp add: piperead_loop_def)
  let ?s3 = "?s2\<lparr>ps_pipe := p, ps_out := ps_out ?s2 @ [7]\<rparr>"
  have "reach ps_init ps_step ?s0" by (rule reach_init) (auto simp: ps_init_def ex_pipe_def)
  moreover have "ps_step ?s0 ?s1" by (rule ps_call) simp
  moreover have "ps_step ?s1 ?s2" by (rule ps_write [of False]) (simp add: w del: pipewrite_loop.simps)
  moreover have "ps_step ?s2 ?s3" by (rule ps_read [of False 1]) (simp add: p [unfolded One_nat_def])
  ultimately have "reach ps_init ps_step ?s3" by (meson reach_step)
  then show ?thesis
    using q(2) new_pipe_ok by (intro exI [of _ ?s3]) (simp add: ex_pipe_def)
qed

theorem pipe_fifo_witness:
  "\<exists>s. reach ps_init ps_step s \<and> ps_out s = [7] \<and> prefix (ps_out s) (ps_in s)"
  using ex_pipe_run pipe_fifo by blast

end
