(* ===== verification/Xv6_File.thy ===== *)
theory Xv6_File
  imports Xv6_Fs Xv6_Pipe
begin

text \<open>
  Open files (\<open>file.c\<close>) and the pipe calls on the kernel's state (\<open>pipe.c\<close>). A file is known by its index in
  \<open>ftable\<close>, a pipe by the address of its page; the fields of the pipes are kept beside the byte memory.
  \<open>ftable.lock\<close> makes each access to reference counts one step.
\<close>

section \<open>State\<close>

abbreviation NFILE :: nat where "NFILE \<equiv> 100"

datatype ftype = FD_NONE | FD_PIPE | FD_INODE

record kfile =
  f_type :: ftype
  f_ref :: int
  f_readable :: bool
  f_writable :: bool
  f_pipe :: u32
  f_ip :: "nat option"
  f_off :: u32

record filest = conss +
  ftable :: "nat \<Rightarrow> kfile"
  pipes :: "u32 \<Rightarrow> pipe"

abbreviation upd_file :: "nat \<Rightarrow> (kfile \<Rightarrow> kfile) \<Rightarrow> 'a filest_scheme \<Rightarrow> 'a filest_scheme" where
  "upd_file f g s \<equiv> s\<lparr>ftable := (ftable s)(f := g (ftable s f))\<rparr>"

section \<open>References\<close>

definition filealloc :: "'a filest_scheme \<Rightarrow> nat option \<times> 'a filest_scheme" where
  "filealloc s =
     (case find (\<lambda>f. f_ref (ftable s f) = 0) [0..<NFILE] of
        Some f \<Rightarrow> (Some f, upd_file f (f_ref_update (\<lambda>_. 1)) s)
      | None \<Rightarrow> (None, s))"

definition filedup :: "nat \<Rightarrow> 'a filest_scheme \<Rightarrow> 'a filest_scheme res" where
  "filedup f s =
     (if f_ref (ftable s f) < 1 then Inl (Panic ''filedup'')
      else Inr (upd_file f (\<lambda>x. x\<lparr>f_ref := f_ref x + 1\<rparr>) s))"

definition nread_chan :: "u32 \<Rightarrow> chan" where "nread_chan p = (''nread'', unat p)"
definition nwrite_chan :: "u32 \<Rightarrow> chan" where "nwrite_chan p = (''nwrite'', unat p)"

definition pipeclose :: "u32 \<Rightarrow> bool \<Rightarrow> 'a filest_scheme \<Rightarrow> 'a filest_scheme res" where
  "pipeclose p writable s =
     (let q = pipe_close writable (pipes s p);
          s = wakeup (if writable then nread_chan p else nwrite_chan p) (s\<lparr>pipes := (pipes s)(p := q)\<rparr>)
      in if \<not> readopen q \<and> \<not> writeopen q then kfree p s else Inr s)"

definition fileclose :: "nat \<Rightarrow> 'a filest_scheme \<Rightarrow> 'a filest_scheme res" where
  "fileclose f s =
     (let ff = ftable s f
      in if f_ref ff < 1 then Inl (Panic ''fileclose'')
         else if f_ref ff - 1 > 0 then Inr (upd_file f (\<lambda>x. x\<lparr>f_ref := f_ref x - 1\<rparr>) s)
         else let s = upd_file f (\<lambda>x. x\<lparr>f_ref := 0, f_type := FD_NONE\<rparr>) s
              in case f_type ff of
                   FD_PIPE \<Rightarrow> pipeclose (f_pipe ff) (f_writable ff) s
                 | FD_INODE \<Rightarrow>
                     (case f_ip ff of None \<Rightarrow> Inl Fault
                      | Some ip \<Rightarrow> bindR (begin_op s) (\<lambda>s. bindR (iput ip s) end_op))
                 | FD_NONE \<Rightarrow> Inr s)"

section \<open>Pipes\<close>

definition close_opt :: "nat option \<Rightarrow> 'a filest_scheme \<Rightarrow> 'a filest_scheme res" where
  "close_opt fo s = (case fo of None \<Rightarrow> Inr s | Some f \<Rightarrow> fileclose f s)"

text \<open>The exit \<open>bad\<close> of \<open>pipealloc\<close> is only reached while there is no page for the pipe.\<close>

definition pipealloc :: "'a filest_scheme \<Rightarrow> ((nat \<times> nat) option \<times> 'a filest_scheme) res" where
  "pipealloc s =
     (let bad = (\<lambda>f0 f1 s. bindR (close_opt f0 s) (\<lambda>s. bindR (close_opt f1 s) (\<lambda>s. Inr (None, s))));
          (f0o, s) = filealloc s
      in case f0o of None \<Rightarrow> bad None None s
         | Some f0 \<Rightarrow>
             let (f1o, s) = filealloc s
             in case f1o of None \<Rightarrow> bad (Some f0) None s
                | Some f1 \<Rightarrow>
                    let (p, s) = kalloc s
                    in if p = 0 then bad (Some f0) (Some f1) s
                       else let s = s\<lparr>pipes := (pipes s)(p := new_pipe (pipes s p))\<rparr>;
                                s = upd_file f0 (\<lambda>x. x\<lparr>f_type := FD_PIPE, f_readable := True, f_writable := False, f_pipe := p\<rparr>) s;
                                s = upd_file f1 (\<lambda>x. x\<lparr>f_type := FD_PIPE, f_readable := False, f_writable := True, f_pipe := p\<rparr>) s
                            in Inr (Some (f0, f1), s))"

definition pipewrite :: "u32 \<Rightarrow> byte list \<Rightarrow> 'a filest_scheme \<Rightarrow> (int \<times> 'a filest_scheme) res" where
  "pipewrite p cs s =
     (case pipewrite_loop (p_killed (myproc s)) cs (pipes s p) of
        (PW_done, q) \<Rightarrow> Inr (int (length cs), wakeup (nread_chan p) (s\<lparr>pipes := (pipes s)(p := q)\<rparr>))
      | (PW_fail, q) \<Rightarrow> Inr (- 1, s\<lparr>pipes := (pipes s)(p := q)\<rparr>)
      | (PW_wait l, q) \<Rightarrow> Inl (Blocked (nwrite_chan p)))"

definition piperead :: "u32 \<Rightarrow> nat \<Rightarrow> 'a filest_scheme \<Rightarrow> (int \<times> byte list \<times> 'a filest_scheme) res" where
  "piperead p n s =
     (case piperead_loop (p_killed (myproc s)) n (pipes s p) of
        (PR_data cs, q) \<Rightarrow> Inr (int (length cs), cs, wakeup (nwrite_chan p) (s\<lparr>pipes := (pipes s)(p := q)\<rparr>))
      | (PR_fail, q) \<Rightarrow> Inr (- 1, [], s)
      | (PR_wait, q) \<Rightarrow> Inl (Blocked (nread_chan p)))"

section \<open>Reading and writing\<close>

definition filestat :: "nat \<Rightarrow> 'a filest_scheme \<Rightarrow> (stat option \<times> 'a filest_scheme) res" where
  "filestat f s =
     (case (f_type (ftable s f), f_ip (ftable s f)) of
        (FD_INODE, None) \<Rightarrow> Inl (Panic ''ilock'')
      | (FD_INODE, Some ip) \<Rightarrow>
          bindR (ilock (Some ip) s) (\<lambda>s.
            let st = stati ip s in bindR (iunlock (Some ip) s) (\<lambda>s. Inr (Some st, s)))
      | _ \<Rightarrow> Inr (None, s))"

definition advance :: "nat \<Rightarrow> int \<Rightarrow> 'a filest_scheme \<Rightarrow> 'a filest_scheme" where
  "advance f r s = (if r > 0 then upd_file f (\<lambda>x. x\<lparr>f_off := f_off x + of_int r\<rparr>) s else s)"

text \<open>The result of the call, the bytes it puts at \<open>addr\<close>, and the state.\<close>

definition fileread :: "nat \<Rightarrow> nat \<Rightarrow> 'a filest_scheme \<Rightarrow> (int \<times> byte list \<times> 'a filest_scheme) res" where
  "fileread f n s =
     (if \<not> f_readable (ftable s f) then Inr (- 1, [], s)
      else case f_type (ftable s f) of
             FD_PIPE \<Rightarrow> piperead (f_pipe (ftable s f)) n s
           | FD_INODE \<Rightarrow>
               (case f_ip (ftable s f) of None \<Rightarrow> Inl (Panic ''ilock'')
                | Some ip \<Rightarrow>
                    bindR (ilock (Some ip) s) (\<lambda>s.
                    bindR (readi ip (unat (f_off (ftable s f))) n s) (\<lambda>(r, bs, s).
                    bindR (iunlock (Some ip) (advance f r s)) (\<lambda>s. Inr (r, bs, s)))))
           | FD_NONE \<Rightarrow> Inl (Panic ''fileread''))"

text \<open>What one transaction of \<open>filewrite\<close> writes at most: \<open>((MAXOPBLOCKS-1-1-2) / 2) * 512\<close> bytes.\<close>

abbreviation WRITE_MAX :: nat where "WRITE_MAX \<equiv> 1536"

function pieces :: "byte list \<Rightarrow> byte list list" where
  "pieces bs = (if bs = [] then [] else take WRITE_MAX bs # pieces (drop WRITE_MAX bs))"
  by pat_completeness auto
termination
  by (relation "measure length") auto

declare pieces.simps [simp del]

text \<open>The loop of \<open>filewrite\<close>: whether all the pieces were written.\<close>

fun filewrite_loop :: "nat \<Rightarrow> nat \<Rightarrow> byte list list \<Rightarrow> 'a filest_scheme \<Rightarrow> (bool \<times> 'a filest_scheme) res" where
  "filewrite_loop f ip [] s = Inr (True, s)"
| "filewrite_loop f ip (bs # bss) s =
     bindR (begin_op s) (\<lambda>s.
     bindR (ilock (Some ip) s) (\<lambda>s.
     bindR (writei ip (unat (f_off (ftable s f))) bs s) (\<lambda>(r, s).
     bindR (iunlock (Some ip) (advance f r s)) (\<lambda>s.
     bindR (end_op s) (\<lambda>s.
       if r < 0 then Inr (False, s)
       else if r \<noteq> int (length bs) then Inl (Panic ''short filewrite'')
       else filewrite_loop f ip bss s)))))"

definition filewrite :: "nat \<Rightarrow> byte list \<Rightarrow> 'a filest_scheme \<Rightarrow> (int \<times> 'a filest_scheme) res" where
  "filewrite f bs s =
     (if \<not> f_writable (ftable s f) then Inr (- 1, s)
      else case f_type (ftable s f) of
             FD_PIPE \<Rightarrow> pipewrite (f_pipe (ftable s f)) bs s
           | FD_INODE \<Rightarrow>
               (case f_ip (ftable s f) of
                  None \<Rightarrow> if bs = [] then Inr (0, s) else Inl (Panic ''ilock'')
                | Some ip \<Rightarrow>
                    bindR (filewrite_loop f ip (pieces bs) s) (\<lambda>(ok, s). Inr (if ok then int (length bs) else - 1, s)))
           | FD_NONE \<Rightarrow> Inl (Panic ''filewrite''))"


section \<open>How many bytes are read\<close>

lemma piperead_copy_length: "piperead_copy n p = (cs, q) \<Longrightarrow> length cs \<le> n"
  by (induction n p arbitrary: cs q rule: piperead_copy.induct) (auto split: if_splits prod.splits)

lemma fileread_length:
  assumes "fileread f n s = Inr (r, bs, t)"
  shows "length bs \<le> n \<and> (r = - 1 \<or> r = int (length bs))"
  using assms
  by (auto simp: fileread_def piperead_def piperead_loop_def res_simps
      split: if_splits ftype.splits option.splits pr_result.splits prod.splits dest!: readi_length piperead_copy_length)

end
