(* ===== verification/Xv6_Uvm.thy ===== *)
theory Xv6_Uvm
  imports Xv6_Vm
begin

text \<open>
  What \<open>copyuvm\<close> (\<open>vm.c\<close>) builds: a second page table in which every page of the user's memory is mapped, with
  the same permissions, to a new page with the same bytes. The pages that it takes come off the free list one by one
  and nothing else in memory changes; it gives up only when the list runs out.
\<close>

section \<open>Building a page table from free pages\<close>

text \<open>The pages that make up a page table, and how many entries of its directory have no table yet.\<close>

definition tables :: "mem \<Rightarrow> u32 \<Rightarrow> u32 set" where
  "tables m d = insert d {pgtab_of (pde_at m d e) |e. e < 1024 \<and> present (pde_at m d e)}"

definition missing :: "mem \<Rightarrow> u32 \<Rightarrow> nat" where
  "missing m d = card {e. e < 1024 \<and> \<not> present (pde_at m d e)}"

text \<open>
  From \<open>s\<close> to \<open>t\<close> the free list shrinks from \<open>ps\<close> to \<open>qs\<close>; of the pages taken, \<open>k\<close> are for data and the others have become page
  tables of \<open>d\<close>. Only these pages and the page table are written.
\<close>

definition grows :: "u32 \<Rightarrow> nat \<Rightarrow> 'a kmem_scheme \<Rightarrow> u32 list \<Rightarrow> 'a kmem_scheme \<Rightarrow> u32 list \<Rightarrow> bool" where
  "grows d k s ps t qs \<longleftrightarrow>
     (\<exists>us. ps = us @ qs \<and> pt_ok t d qs \<and> kend t = kend s \<and> length us + missing (ram t) d = missing (ram s) d + k \<and>
        tables (ram t) d \<subseteq> tables (ram s) d \<union> set us \<and>
        (\<forall>a. (\<forall>p \<in> tables (ram s) d \<union> set us. \<not> in_page p a) \<longrightarrow> ram t a = ram s a))"

lemma growsI:
  assumes "ps = us @ qs" "pt_ok t d qs" "kend t = kend s" "length us + missing (ram t) d = missing (ram s) d + k"
    "tables (ram t) d \<subseteq> tables (ram s) d \<union> set us"
    "\<And>a. (\<And>p. p \<in> tables (ram s) d \<union> set us \<Longrightarrow> \<not> in_page p a) \<Longrightarrow> ram t a = ram s a"
  shows "grows d k s ps t qs"
  using assms unfolding grows_def by blast

lemma growsE:
  assumes "grows d k s ps t qs"
  obtains us where "ps = us @ qs" "pt_ok t d qs" "kend t = kend s" "length us + missing (ram t) d = missing (ram s) d + k"
    "tables (ram t) d \<subseteq> tables (ram s) d \<union> set us"
    "\<forall>a. (\<forall>p \<in> tables (ram s) d \<union> set us. \<not> in_page p a) \<longrightarrow> ram t a = ram s a"
  using assms unfolding grows_def by (elim exE conjE)

lemma grows_refl: "pt_ok s d ps \<Longrightarrow> grows d 0 s ps s ps"
  by (rule growsI [of _ "[]"]) simp_all

lemma grows_trans:
  assumes "grows d k s ps t qs" "grows d l t qs u rs"
  shows "grows d (k + l) s ps u rs"
proof -
  obtain us where us: "ps = us @ qs" "kend t = kend s" "length us + missing (ram t) d = missing (ram s) d + k"
    "tables (ram t) d \<subseteq> tables (ram s) d \<union> set us"
    "\<forall>a. (\<forall>p \<in> tables (ram s) d \<union> set us. \<not> in_page p a) \<longrightarrow> ram t a = ram s a" using growsE [OF assms(1)] by metis
  obtain vs where vs: "qs = vs @ rs" "pt_ok u d rs" "kend u = kend t" "length vs + missing (ram u) d = missing (ram t) d + l"
    "tables (ram u) d \<subseteq> tables (ram t) d \<union> set vs"
    "\<forall>a. (\<forall>p \<in> tables (ram t) d \<union> set vs. \<not> in_page p a) \<longrightarrow> ram u a = ram t a" using growsE [OF assms(2)] by metis
  show ?thesis
  proof (rule growsI [of _ "us @ vs"])
    show "ps = (us @ vs) @ rs" "pt_ok u d rs" "kend u = kend s"
      "length (us @ vs) + missing (ram u) d = missing (ram s) d + (k + l)"
      "tables (ram u) d \<subseteq> tables (ram s) d \<union> set (us @ vs)"
      using us vs by auto
    show "ram u a = ram s a" if "\<And>p. p \<in> tables (ram s) d \<union> set (us @ vs) \<Longrightarrow> \<not> in_page p a" for a
    proof -
      have "\<forall>p \<in> tables (ram s) d \<union> set us. \<not> in_page p a" "\<forall>p \<in> tables (ram t) d \<union> set vs. \<not> in_page p a"
        using that us(4) by auto
      then show ?thesis using us(5) vs(6) by metis
    qed
  qed
qed

lemma tables_aligned: "d mod PGSIZE = 0 \<Longrightarrow> p \<in> tables m d \<Longrightarrow> p mod PGSIZE = 0"
  unfolding tables_def by (elim insertE CollectE exE conjE) (simp_all only: pgtab_of_aligned)

lemma table_in: "present (pde_at m d (PDX va)) \<Longrightarrow> pgtab_of (pde_at m d (PDX va)) \<in> tables m d"
  using PDX_less [of va] by (auto simp: tables_def)

lemma free_aligned: "free_pages s ps \<Longrightarrow> p \<in> set ps \<Longrightarrow> p mod PGSIZE = 0"
  by (auto simp: free_pages_def kpage_def list_all_iff)

text \<open>A page that is neither free nor part of the page table stays as it is.\<close>

lemma grows_keeps:
  assumes "grows d k s ps t qs" "pt_ok s d ps" "f mod PGSIZE = 0" "f \<notin> tables (ram s) d \<union> set ps"
  shows "f \<notin> tables (ram t) d \<union> set qs" "in_page f a \<Longrightarrow> ram t a = ram s a"
proof -
  obtain us where us: "ps = us @ qs" "tables (ram t) d \<subseteq> tables (ram s) d \<union> set us"
    "\<forall>a. (\<forall>p \<in> tables (ram s) d \<union> set us. \<not> in_page p a) \<longrightarrow> ram t a = ram s a" using growsE [OF assms(1)] by metis
  show "f \<notin> tables (ram t) d \<union> set qs" using us(1,2) assms(4) by auto
  assume a: "in_page f a"
  have "\<not> in_page p a" if "p \<in> tables (ram s) d \<union> set us" for p
  proof -
    have "p \<noteq> f" using that assms(4) us(1) by auto
    moreover have "p mod PGSIZE = 0"
      using that tables_aligned [OF pt_okD(1) [OF assms(2)]] free_aligned [OF pt_okD(2) [OF assms(2)]] us(1) by auto
    ultimately show ?thesis using page_unique assms(3) a by metis
  qed
  then show "ram t a = ram s a" using us(3) by blast
qed

section \<open>One page\<close>

lemma finite_missing: "finite {e :: u32. e < 1024 \<and> P e}"
  by (rule finite_subset [of _ "of_nat ` {..<1024}"])
    (auto simp: word_less_nat_alt intro!: image_eqI [of e "of_nat" "unat e" for e])

lemma missing_le: "missing m d \<le> 1024"
proof -
  have "{e :: u32. e < 1024 \<and> \<not> present (pde_at m d e)} \<subseteq> of_nat ` {..<1024}"
    by (auto simp: word_less_nat_alt intro!: image_eqI [of e "of_nat" "unat e" for e])
  then have "missing m d \<le> card (of_nat ` {..<1024} :: u32 set)" unfolding missing_def by (intro card_mono) simp_all
  then show ?thesis using card_image_le [of "{..<1024 :: nat}" "of_nat :: nat \<Rightarrow> u32"] by simp
qed

lemma missing_pos: "\<not> present (pde_at m d (PDX va)) \<Longrightarrow> 0 < missing m d"
  unfolding missing_def using PDX_less [of va] by (subst card_gt_0_iff) (auto simp: finite_missing)

lemma new_table_grows:
  assumes "pt_ok s d (p # ps)" "\<not> present (pde_at (ram s) d (PDX va))"
  obtains t where "walkpgdir d va True s = (entry p (PTX va), t)" "grows d 0 s (p # ps) t ps"
proof -
  note D = pt_okD [OF assms(1)]
  have p: "p mod PGSIZE = 0" "p \<noteq> d" "p \<noteq> 0" using D(2,3) kpage_nonzero [of s p] by (auto simp: free_pages_def kpage_def)
  obtain u where u: "kalloc s = (p, u)" "free_pages u ps" "u = s\<lparr>freelist := freelist u\<rparr>"
    using kalloc_free_pages [OF D(2)] by (cases "kalloc s") auto
  have r: "ram u = ram s" "kend u = kend s" by (subst u(3), simp)+
  let ?m = "new_pgtab (ram s) d (PDX va) p"
  note pde = new_pgtab_pde [OF D(1) p(1,2) PDX_less, of _ "ram s" va]
  have "grows d 0 s (p # ps) (u\<lparr>ram := ?m\<rparr>) ps"
  proof (rule growsI [of _ "[p]"])
    show "pt_ok (u\<lparr>ram := ?m\<rparr>) d ps" using new_pgtab_ok [OF assms(1,2) PDX_less u(2) r] .
    have "{e. e < 1024 \<and> \<not> present (pde_at ?m d e)} = {e. e < 1024 \<and> \<not> present (pde_at (ram s) d e)} - {PDX va}"
      using pde pgtab_of_new(2) [OF p(1)] by (auto split: if_splits)
    then have "missing ?m d = missing (ram s) d - 1"
      using assms(2) PDX_less [of va] by (simp add: missing_def finite_missing)
    then show "length [p] + missing (ram (u\<lparr>ram := ?m\<rparr>)) d = missing (ram s) d + 0"
      using missing_pos [OF assms(2)] by simp
    show "tables (ram (u\<lparr>ram := ?m\<rparr>)) d \<subseteq> tables (ram s) d \<union> set [p]"
      using pde pgtab_of_new(1) [OF p(1)] by (auto simp: tables_def split: if_splits)
    show "ram (u\<lparr>ram := ?m\<rparr>) a = ram s a" if "\<And>q. q \<in> tables (ram s) d \<union> set [p] \<Longrightarrow> \<not> in_page q a" for a
      using that [of p] that [of d] new_pgtab_outside [OF D(1) PDX_less] by (simp add: tables_def)
  qed (simp_all add: r)
  then show thesis
    using that assms(2) p(3) u(1) r(1) by (simp add: walkpgdir_entry new_pgtab_def Let_def)
qed

lemma set_pte_grows:
  assumes "pt_ok s d ps" "present (pde_at (ram s) d (PDX va))"
  defines "a \<equiv> entry (pgtab_of (pde_at (ram s) d (PDX va))) (PTX va)"
  shows "grows d 0 s ps (s\<lparr>ram := store32 (ram s) a v\<rparr>) ps"
proof -
  note D = pt_okD [OF assms(1)]
  let ?p = "pgtab_of (pde_at (ram s) d (PDX va))"
  have p: "?p mod PGSIZE = 0" "?p \<noteq> d" using pgtab_of_aligned D(5) [OF PDX_less assms(2)] by simp_all
  have pde: "pde_at (store32 (ram s) a v) d e = pde_at (ram s) d e" if "e < 1024" for e
    using p that D(1) unfolding pde_at_def a_def by (intro load_store_entry) (auto simp: PTX_less pde_at_def)
  show ?thesis
  proof (rule growsI [of _ "[]"])
    show "pt_ok (s\<lparr>ram := store32 (ram s) a v\<rparr>) d ps" using set_pte(1) [OF assms(1,2)] unfolding a_def .
    have "{e. e < 1024 \<and> \<not> present (pde_at (store32 (ram s) a v) d e)} = {e. e < 1024 \<and> \<not> present (pde_at (ram s) d e)}"
      using pde by auto
    then show "length [] + missing (ram (s\<lparr>ram := store32 (ram s) a v\<rparr>)) d = missing (ram s) d + 0" by (simp add: missing_def)
    show "tables (ram (s\<lparr>ram := store32 (ram s) a v\<rparr>)) d \<subseteq> tables (ram s) d \<union> set []"
      using pde by (auto simp: tables_def)
    show "ram (s\<lparr>ram := store32 (ram s) a v\<rparr>) b = ram s b" if "\<And>q. q \<in> tables (ram s) d \<union> set [] \<Longrightarrow> \<not> in_page q b" for b
      using that [of ?p] table_in [OF assms(2)] entry_in_page [OF p(1) PTX_less, of _ va]
      unfolding a_def by (simp, intro store32_bytes) metis
  qed simp_all
qed

text \<open>A page for data, whatever is written to it.\<close>

lemma data_page_grows:
  assumes "pt_ok s d (p # ps)" "kalloc s = (p, u)" "\<And>a. \<not> in_page p a \<Longrightarrow> m a = ram s a"
  shows "grows d 1 s (p # ps) (u\<lparr>ram := m\<rparr>) ps" "tables m d = tables (ram s) d"
proof -
  note n = new_page [OF assms]
  show t: "tables m d = tables (ram s) d" using n(4) unfolding tables_def by (metis (no_types, lifting))
  have "{e. e < 1024 \<and> \<not> present (pde_at m d e)} = {e. e < 1024 \<and> \<not> present (pde_at (ram s) d e)}" using n(4) by auto
  then have "missing m d = missing (ram s) d" by (simp add: missing_def)
  then show "grows d 1 s (p # ps) (u\<lparr>ram := m\<rparr>) ps"
    using n(2,6) t assms(3) by (intro growsI [of _ "[p]"]) auto
qed

section \<open>Mapping\<close>

lemma walkpgdir_grows:
  assumes "pt_ok s d ps" "present (pde_at (ram s) d (PDX va)) \<or> ps \<noteq> []"
  obtains t qs where "walkpgdir d va True s = (entry (pgtab_of (pde_at (ram t) d (PDX va))) (PTX va), t)"
    "grows d 0 s ps t qs" "present (pde_at (ram t) d (PDX va))" "pte_at (ram t) d = pte_at (ram s) d"
proof -
  obtain t where t: "walkpgdir d va True s = (entry (pgtab_of (pde_at (ram t) d (PDX va))) (PTX va), t)"
    "present (pde_at (ram t) d (PDX va))" "pte_at (ram t) d = pte_at (ram s) d"
    using walkpgdir_alloc [OF assms] by (metis ext)
  have "\<exists>qs. grows d 0 s ps t qs"
  proof (cases "present (pde_at (ram s) d (PDX va))")
    case True
    then have "t = s" using t(1) by (simp add: walkpgdir_entry Let_def)
    then show ?thesis using grows_refl [OF assms(1)] by blast
  next
    case False
    then obtain p qs where ps: "ps = p # qs" using assms(2) by (cases ps) auto
    show ?thesis using new_table_grows [OF assms(1)[unfolded ps] False] t(1) ps by (metis prod.inject)
  qed
  then show thesis using that t by blast
qed

lemma map_page_grows:
  fixes v :: u32
  assumes "pt_ok s d ps" "\<not> present (pte_at (ram s) d va)"
  defines "w \<equiv> walkpgdir d va True s"
  defines "u \<equiv> (snd w)\<lparr>ram := store32 (ram (snd w)) (fst w) v\<rparr>"
  shows "fst w \<noteq> 0 \<and> \<not> present (load32 (ram (snd w)) (fst w)) \<and> (\<exists>qs. grows d 0 s ps u qs) \<and>
      (\<forall>x. pte_at (ram u) d x = (if unat x div 4096 = unat va div 4096 then v else pte_at (ram s) d x)) \<or>
    fst w = 0 \<and> length ps < missing (ram s) d"
proof (cases "present (pde_at (ram s) d (PDX va)) \<or> ps \<noteq> []")
  case True
  obtain t qs where t: "w = (entry (pgtab_of (pde_at (ram t) d (PDX va))) (PTX va), t)" "grows d 0 s ps t qs"
    "present (pde_at (ram t) d (PDX va))" using walkpgdir_grows [OF assms(1) True] unfolding w_def by metis
  have "pt_ok t d qs" using growsE [OF t(2)] by metis
  from grows_trans [OF t(2) set_pte_grows [OF this t(3), of v]] have "grows d 0 s ps u qs"
    using t(1) unfolding u_def by simp
  then show ?thesis
    using map_page(1,2) [OF assms(1) True assms(2)] map_page(4) [OF assms(1) True assms(2), where v = v]
    unfolding u_def w_def by blast
next
  case False
  then have "kalloc s = (0, s)" using kalloc_free_pages [OF pt_okD(2) [OF assms(1)]] by simp
  then have "fst w = 0" using False unfolding w_def by (simp add: walkpgdir_entry Let_def)
  then show ?thesis using False missing_pos by fastforce
qed

lemma grows_short: "grows d k s ps t qs \<Longrightarrow> length qs < missing (ram t) d + l \<Longrightarrow> length ps < missing (ram s) d + (k + l)"
  by (erule growsE) simp

text \<open>Once round the loop of \<open>mappages\<close>, and all the rounds.\<close>

lemma mappages_loop_page:
  assumes "pt_ok s d ps" "\<not> present (pte_at (ram s) d a)"
  shows "(\<exists>u qs. mappages_loop n d a pa perm s =
        (case n of 0 \<Rightarrow> Inr (0, u) | Suc n \<Rightarrow> mappages_loop n d (a + PGSIZE) (pa + PGSIZE) perm u) \<and> grows d 0 s ps u qs \<and>
        (\<forall>x. pte_at (ram u) d x = (if unat x div 4096 = unat a div 4096 then pa OR perm OR PTE_P else pte_at (ram s) d x))) \<or>
    (\<exists>t. mappages_loop n d a pa perm s = Inr (- 1, t)) \<and> length ps < missing (ram s) d"
proof -
  define w where "w = walkpgdir d a True s"
  define u where "u = (snd w)\<lparr>ram := store32 (ram (snd w)) (fst w) (pa OR perm OR PTE_P)\<rparr>"
  have full: "mappages_loop n d a pa perm s = Inr (- 1, snd w)" if "fst w = 0"
    using that unfolding w_def by (subst mappages_loop.simps) (simp add: case_prod_beta Let_def)
  note m = map_page_grows [OF assms, where v = "pa OR perm OR PTE_P", folded w_def, folded u_def]
  from m show ?thesis
  proof (elim disjE conjE)
    assume "fst w \<noteq> 0" "\<not> present (load32 (ram (snd w)) (fst w))"
    from mappages_loop_step [OF w_def [symmetric] this u_def] m this(1) show ?thesis by blast
  qed (use full in blast)
qed

lemma mappages_loop_grows:
  assumes "pt_ok s d ps" "unat a mod 4096 = 0" "unat a + 4096 * n < 2 ^ 32"
    "\<And>k. k \<le> n \<Longrightarrow> \<not> present (pte_at (ram s) d (a + of_nat (4096 * k)))"
  shows "(\<exists>t qs. mappages_loop n d a pa perm s = Inr (0, t) \<and> grows d 0 s ps t qs \<and>
      pte_at (ram t) d = mapped n a pa perm (pte_at (ram s) d)) \<or>
    (\<exists>t. mappages_loop n d a pa perm s = Inr (- 1, t)) \<and> length ps < missing (ram s) d"
  using assms
proof (induction n arbitrary: s a pa ps)
  case 0
  then have "\<not> present (pte_at (ram s) d a)" using 0(4) [of 0] by simp
  from mappages_loop_page [OF 0(1) this, of 0 pa perm] show ?case unfolding fun_eq_iff mapped_0 [OF 0(2)] nat.case by blast
next
  case (Suc n)
  have "\<not> present (pte_at (ram s) d a)" using Suc.prems(4) [of 0] by simp
  from mappages_loop_page [OF Suc.prems(1) this, of "Suc n" pa perm] show ?case
  proof (elim disjE exE conjE)
    fix u qs
    assume u: "mappages_loop (Suc n) d a pa perm s =
        (case Suc n of 0 \<Rightarrow> Inr (0, u) | Suc n \<Rightarrow> mappages_loop n d (a + PGSIZE) (pa + PGSIZE) perm u)" "grows d 0 s ps u qs"
      "\<forall>x. pte_at (ram u) d x = (if unat x div 4096 = unat a div 4096 then pa OR perm OR PTE_P else pte_at (ram s) d x)"
    have up: "unat (a + PGSIZE) = unat a + 4096" using Suc.prems(3) by (simp add: unat_word_ariths)
    have pt: "pt_ok u d qs" using growsE [OF u(2)] by metis
    have pte: "pte_at (ram u) d x = (if unat x div 4096 = unat a div 4096 then pa OR perm OR PTE_P else pte_at (ram s) d x)" for x
      using u(3) by blast
    have "\<not> present (pte_at (ram u) d (a + PGSIZE + of_nat (4096 * k)))" if "k \<le> n" for k
      using rest_unmapped [OF Suc.prems(2,3) pte that] Suc.prems(4) [of "Suc k"] that by simp
    from Suc.IH [OF pt _ _ this, of "pa + PGSIZE"] Suc.prems(2,3) up
    have "(\<exists>t rs. mappages_loop n d (a + PGSIZE) (pa + PGSIZE) perm u = Inr (0, t) \<and> grows d 0 u qs t rs \<and>
        pte_at (ram t) d = mapped n (a + PGSIZE) (pa + PGSIZE) perm (pte_at (ram u) d)) \<or>
      (\<exists>t. mappages_loop n d (a + PGSIZE) (pa + PGSIZE) perm u = Inr (- 1, t)) \<and> length qs < missing (ram u) d" by simp
    then show ?thesis
      using u(1) grows_trans [OF u(2), of 0] grows_short [OF u(2), of 0] mapped_Suc [OF Suc.prems(2) up pte]
      by (simp add: fun_eq_iff) blast
  qed blast
qed

text \<open>A range that is not mapped yet, at most up to the end of the address space.\<close>

lemma mappages_grows:
  assumes "pt_ok s d ps" "va mod PGSIZE = 0" "sz = of_nat (4096 * (n + 1))" "unat va + 4096 * (n + 1) \<le> 2 ^ 32"
    "\<forall>x. unat va \<le> unat x \<and> unat x < unat va + 4096 * (n + 1) \<longrightarrow> \<not> present (pte_at (ram s) d x)"
  shows "(\<exists>t qs. mappages d va sz pa perm s = Inr (0, t) \<and> grows d 0 s ps t qs \<and>
      pte_at (ram t) d = mapped n va pa perm (pte_at (ram s) d)) \<or>
    (\<exists>t. mappages d va sz pa perm s = Inr (- 1, t)) \<and> length ps < missing (ram s) d"
proof -
  have "unat (va + of_nat (4096 * k)) = unat va + 4096 * k" if "k \<le> n" for k
    using that assms(4) by (simp add: unat_word_ariths unat_of_nat)
  then have "\<not> present (pte_at (ram s) d (va + of_nat (4096 * k)))" if "k \<le> n" for k
    using that assms(5) by simp
  moreover have "unat va mod 4096 = 0" using aligned_unat [of va] assms(2) by simp
  ultimately show ?thesis
    using mappages_loop_grows [OF assms(1), of va n pa perm] mappages_range [OF assms(2-4), of d pa perm s] assms(4) by simp
qed

section \<open>The kernel's part\<close>

text \<open>The entries of \<open>kmap\<close> lie one after the other, from \<open>b\<close> on.\<close>

fun regions :: "nat \<Rightarrow> (u32 \<times> u32 \<times> u32 \<times> u32) list \<Rightarrow> bool" where
  "regions b [] \<longleftrightarrow> True"
| "regions b ((virt, phys_start, phys_end, perm) # ks) \<longleftrightarrow>
     b \<le> unat virt \<and> virt mod PGSIZE = 0 \<and>
     (\<exists>n. phys_end - phys_start = of_nat (4096 * (n + 1)) \<and> unat virt + 4096 * (n + 1) \<le> 2 ^ 32 \<and>
        regions (unat virt + 4096 * (n + 1)) ks)"

declare regions.simps(2) [simp del]

lemma setupkvm_loop_grows:
  fixes s :: "'a vm_scheme"
  assumes "pt_ok s d ps" "regions b ks" "\<forall>x. b \<le> unat x \<longrightarrow> \<not> present (pte_at (ram s) d x)"
  shows "(\<exists>t qs. setupkvm_loop ks d s = Inr (d, t) \<and> grows d 0 s ps t qs \<and>
      (\<forall>x. unat x < b \<longrightarrow> pte_at (ram t) d x = pte_at (ram s) d x)) \<or>
    (\<forall>r t. setupkvm_loop ks d s = Inr (r, t) \<longrightarrow> r = 0) \<and> length ps < missing (ram s) d"
  using assms
proof (induction ks arbitrary: b s ps)
  case Nil
  then show ?case using grows_refl [OF Nil(1)] by auto
next
  case (Cons k ks)
  obtain virt pstart pend perm where k: "k = (virt, pstart, pend, perm)" by (cases k)
  obtain n where n: "b \<le> unat virt" "virt mod PGSIZE = 0" "pend - pstart = of_nat (4096 * (n + 1))"
    "unat virt + 4096 * (n + 1) \<le> 2 ^ 32" "regions (unat virt + 4096 * (n + 1)) ks"
    using Cons.prems(2) unfolding k regions.simps by (elim conjE exE)
  have "\<forall>x. unat virt \<le> unat x \<and> unat x < unat virt + 4096 * (n + 1) \<longrightarrow> \<not> present (pte_at (ram s) d x)"
    using n(1) Cons.prems(3) by simp
  from mappages_grows [OF Cons.prems(1) n(2-4) this, of pstart perm] show ?case
  proof (elim disjE exE conjE)
    fix u qs
    assume u: "mappages d virt (pend - pstart) pstart perm s = Inr (0, u)" "grows d 0 s ps u qs"
      "pte_at (ram u) d = mapped n virt pstart perm (pte_at (ram s) d)"
    have pt: "pt_ok u d qs" using growsE [OF u(2)] by metis
    have "\<forall>x. unat virt + 4096 * (n + 1) \<le> unat x \<longrightarrow> \<not> present (pte_at (ram u) d x)"
      using n(1) Cons.prems(3) unfolding u(3) mapped_def by simp
    note IH = Cons.IH [OF pt n(5) this]
    have low: "pte_at (ram u) d x = pte_at (ram s) d x" if "unat x < b" for x
      using that n(1) unfolding u(3) mapped_def by simp
    from IH show ?thesis
    proof (elim disjE exE conjE)
      fix t rs
      assume "setupkvm_loop ks d u = Inr (d, t)" "grows d 0 u qs t rs"
        "\<forall>x. unat x < unat virt + 4096 * (n + 1) \<longrightarrow> pte_at (ram t) d x = pte_at (ram u) d x"
      then have "setupkvm_loop (k # ks) d s = Inr (d, t)" "grows d 0 s ps t rs" "\<forall>x. unat x < b \<longrightarrow> pte_at (ram t) d x = pte_at (ram s) d x"
        using u(1) n(1) low grows_trans [OF u(2), of 0 t rs] unfolding k by (simp_all add: res_simps)
      then show ?thesis by blast
    next
      assume "\<forall>r t. setupkvm_loop ks d u = Inr (r, t) \<longrightarrow> r = 0" "length qs < missing (ram u) d"
      then show ?thesis using u(1) grows_short [OF u(2), of 0] unfolding k by (simp add: res_simps)
    qed
  next
    fix t
    assume "mappages d virt (pend - pstart) pstart perm s = Inr (- 1, t)" "length ps < missing (ram s) d"
    then show ?thesis unfolding k by (auto simp: res_simps)
  qed
qed

text \<open>The linker puts the kernel's data at a page boundary, above its text.\<close>

definition kdata_ok :: "'a vm_scheme \<Rightarrow> bool" where
  "kdata_ok s \<longleftrightarrow> kdata s mod PGSIZE = 0 \<and> KERNBASE + EXTMEM < kdata s \<and> kdata s < P2V PHYSTOP"

lemma regionsI:
  assumes "b \<le> unat virt" "virt mod PGSIZE = 0" "phys_end - phys_start = of_nat (4096 * (n + 1))"
    "unat virt + 4096 * (n + 1) = e" "e \<le> 2 ^ 32" "regions e ks"
  shows "regions b ((virt, phys_start, phys_end, perm) # ks)"
  using assms unfolding regions.simps by blast

lemma kmap_regions:
  fixes s :: "'a vm_scheme"
  assumes "kdata_ok s"
  shows "regions (2 ^ 31) (kmap s)"
proof -
  have k: "unat (kdata s) mod 4096 = 0" "0x80100000 < unat (kdata s)" "unat (kdata s) < 0x8E000000"
    using assms aligned_unat [of "kdata s"] by (simp_all add: kdata_ok_def word_less_nat_alt P2V_def)
  then obtain q where q: "unat (kdata s) = 4096 * q" by (auto simp: mod_eq_0_iff_dvd)
  define n where "n = q - 0x80101"
  define l where "l = 0x8E000 - q - 1"
  have n: "4096 * (n + 1) = unat (kdata s) - 0x80100000" "4096 * (l + 1) = 0x8E000000 - unat (kdata s)"
    using k(2,3) q unfolding n_def l_def by simp_all
  have of_unat: "of_nat (unat x) = x" for x :: u32 by simp
  have "unat (kdata s - 0x80100000) = unat (kdata s) - 0x80100000" "unat (0x8E000000 - kdata s) = 0x8E000000 - unat (kdata s)"
    using k(2,3) by (simp_all add: unat_sub_if' word_le_nat_alt)
  then have w: "kdata s - 0x80100000 = of_nat (4096 * (n + 1))" "0x8E000000 - kdata s = of_nat (4096 * (l + 1))"
    unfolding n by (metis of_unat)+
  have a: "kdata s mod PGSIZE = 0" using assms by (simp only: kdata_ok_def)
  have v: "V2P (kdata s) - V2P (KERNBASE + EXTMEM) = of_nat (4096 * (n + 1))" "PHYSTOP - V2P (kdata s) = of_nat (4096 * (l + 1))"
    using w by (simp_all add: V2P_def)
  have e: "unat (KERNBASE + EXTMEM) + 4096 * (n + 1) = unat (kdata s)" "unat (kdata s) + 4096 * (l + 1) = 0x8E000000"
    "unat (kdata s) \<le> 2 ^ 32" using n k(2,3) by simp_all
  have r: "regions 0x8E000000 [(DEVSPACE, DEVSPACE, 0, PTE_W)]"
    by (rule regionsI [where n = 8191 and e = "2 ^ 32"]) simp_all
  have r: "regions (unat (kdata s)) [(kdata s, V2P (kdata s), PHYSTOP, PTE_W), (DEVSPACE, DEVSPACE, 0, PTE_W)]"
    by (rule regionsI [OF order_refl a v(2) e(2) _ r]) simp
  have r: "regions 0x80100000 [(KERNBASE + EXTMEM, V2P (KERNBASE + EXTMEM), V2P (kdata s), 0),
      (kdata s, V2P (kdata s), PHYSTOP, PTE_W), (DEVSPACE, DEVSPACE, 0, PTE_W)]"
    by (rule regionsI [OF _ _ v(1) e(1,3) r]) simp_all
  show ?thesis
    unfolding kmap_def by (rule regionsI [OF _ _ _ _ _ r, where n = 255]) simp_all
qed

text \<open>A new page table \<open>d\<close>, \<open>k\<close> pages of data included, in pages off the free list.\<close>

definition built :: "'a kmem_scheme \<Rightarrow> u32 list \<Rightarrow> u32 \<Rightarrow> nat \<Rightarrow> 'a kmem_scheme \<Rightarrow> u32 list \<Rightarrow> bool" where
  "built s ps d k t qs \<longleftrightarrow>
     (\<exists>us. ps = us @ qs \<and> pt_ok t d qs \<and> kend t = kend s \<and> length us + missing (ram t) d \<le> 1025 + k \<and>
        tables (ram t) d \<subseteq> set us \<and> (\<forall>a. (\<forall>p \<in> set us. \<not> in_page p a) \<longrightarrow> ram t a = ram s a))"

lemma builtE:
  assumes "built s ps d k t qs"
  obtains us where "ps = us @ qs" "pt_ok t d qs" "kend t = kend s" "length us + missing (ram t) d \<le> 1025 + k"
    "tables (ram t) d \<subseteq> set us" "\<forall>a. (\<forall>p \<in> set us. \<not> in_page p a) \<longrightarrow> ram t a = ram s a"
  using assms unfolding built_def by (elim exE conjE)

lemma built_grows:
  assumes "built s ps d k t qs" "grows d l t qs u rs"
  shows "built s ps d (k + l) u rs"
proof -
  obtain us where us: "ps = us @ qs" "kend t = kend s" "length us + missing (ram t) d \<le> 1025 + k"
    "tables (ram t) d \<subseteq> set us" "\<forall>a. (\<forall>p \<in> set us. \<not> in_page p a) \<longrightarrow> ram t a = ram s a" using builtE [OF assms(1)] by metis
  obtain vs where vs: "qs = vs @ rs" "pt_ok u d rs" "kend u = kend t" "length vs + missing (ram u) d = missing (ram t) d + l"
    "tables (ram u) d \<subseteq> tables (ram t) d \<union> set vs"
    "\<forall>a. (\<forall>p \<in> tables (ram t) d \<union> set vs. \<not> in_page p a) \<longrightarrow> ram u a = ram t a" using growsE [OF assms(2)] by metis
  have "ram u a = ram s a" if "\<forall>p \<in> set (us @ vs). \<not> in_page p a" for a
  proof -
    have "\<forall>p \<in> set us. \<not> in_page p a" "\<forall>p \<in> tables (ram t) d \<union> set vs. \<not> in_page p a" using that us(4) by auto
    then show ?thesis using us(5) vs(6) by metis
  qed
  then show ?thesis using us(1-4) vs(1-5) unfolding built_def by (intro exI [of _ "us @ vs"]) auto
qed

lemma built_keeps:
  assumes "built s ps d k t qs" "free_pages s ps" "f mod PGSIZE = 0" "f \<notin> set ps" "in_page f a"
  shows "ram t a = ram s a"
proof -
  obtain us where us: "ps = us @ qs" "\<forall>a. (\<forall>p \<in> set us. \<not> in_page p a) \<longrightarrow> ram t a = ram s a" using builtE [OF assms(1)] by metis
  have "\<not> in_page p a" if "p \<in> set us" for p
    using that us(1) free_aligned [OF assms(2), of p] page_unique [OF _ assms(3) _ assms(5), of p] assms(4) by auto
  then show ?thesis using us(2) by blast
qed

lemma setupkvm_builds:
  fixes s :: "'a vm_scheme"
  assumes "free_pages s ps" "kdata_ok s"
  shows "(\<exists>d t qs. setupkvm s = Inr (d, t) \<and> d \<noteq> 0 \<and> built s ps d 0 t qs \<and>
      (\<forall>x. unat x < 2 ^ 31 \<longrightarrow> \<not> present (pte_at (ram t) d x))) \<or>
    (\<forall>r t. setupkvm s = Inr (r, t) \<longrightarrow> r = 0) \<and> length ps < 1025"
proof (cases ps)
  case Nil
  then show ?thesis using kalloc_free_pages [OF assms(1)] by (simp add: setupkvm_def)
next
  case (Cons d qs)
  have d: "d mod PGSIZE = 0" "d \<noteq> 0" "d \<notin> set qs"
    using assms(1) kpage_nonzero [of s d] unfolding Cons by (auto simp: free_pages_def kpage_def)
  obtain u where u: "kalloc s = (d, u)" "free_pages u qs" "u = s\<lparr>freelist := freelist u\<rparr>"
    using kalloc_free_pages [OF assms(1)[unfolded Cons]] by (cases "kalloc s") auto
  have r: "ram u = ram s" "kend u = kend s" "kdata u = kdata s" by (subst u(3), simp)+
  define v where "v = u\<lparr>ram := memset (ram u) d 0 PGSIZE\<rparr>"
  have pde: "pde_at (ram v) d e = 0" if "e < 1024" for e
    using that load_zeroed_page [OF d(1) that] by (simp add: v_def pde_at_def memset_page)
  have "free_pages v qs"
  proof (rule free_pages_frame [OF u(2)])
    fix q a
    assume q: "q \<in> set qs" "in_page q a"
    then have "\<not> in_page d a" using page_unique [OF free_aligned [OF u(2)] d(1)] d(3) by metis
    then show "ram v a = ram u a" by (simp add: v_def memset_page)
  qed (simp_all add: v_def)
  then have pt: "pt_ok v d qs" using d pde by (simp add: pt_ok_def present_def)
  have pte: "\<not> present (pte_at (ram v) d x)" for x using pde [OF PDX_less] by (simp add: pte_at_def present_def)
  have t: "tables (ram v) d = {d}" using pde by (auto simp: tables_def present_def)
  have "built s ps d 0 v qs"
    unfolding built_def using pt t missing_le [of "ram v" d] r by (intro exI [of _ "[d]"]) (simp add: Cons v_def memset_page)
  note b = built_grows [OF this, of 0]
  have loop: "setupkvm s = setupkvm_loop (kmap v) d v"
    using u(1) d(2) by (simp add: setupkvm_def v_def P2V_def Let_def)
  have "kdata_ok v" using assms(2) r(3) by (simp add: kdata_ok_def v_def)
  from setupkvm_loop_grows [OF pt kmap_regions [OF this]] pte
  show ?thesis unfolding loop using b d(2) missing_le [of "ram v" d] Cons by fastforce
qed

section \<open>The user's part\<close>

text \<open>The page in which a user address lies, and the byte there.\<close>

definition uframe :: "mem \<Rightarrow> u32 \<Rightarrow> u32 \<Rightarrow> u32" where
  "uframe m pgdir va = P2V (PTE_ADDR (pte_at m pgdir va))"

definition ubyte :: "mem \<Rightarrow> u32 \<Rightarrow> u32 \<Rightarrow> byte" where
  "ubyte m pgdir va = m (uframe m pgdir va + va mod PGSIZE)"

text \<open>
  A user memory of \<open>sz\<close> bytes: every page of it is present; its page tables and its pages are pages of the allocator
  that are not free.
\<close>

definition user_space :: "'a kmem_scheme \<Rightarrow> u32 \<Rightarrow> u32 \<Rightarrow> u32 list \<Rightarrow> bool" where
  "user_space s pgdir sz ps \<longleftrightarrow>
     free_pages s ps \<and> pgdir mod PGSIZE = 0 \<and> pgdir \<notin> set ps \<and> sz \<le> KERNBASE \<and>
     (\<forall>va < sz. kpage s (pgtab_of (pde_at (ram s) pgdir (PDX va))) \<and> pgtab_of (pde_at (ram s) pgdir (PDX va)) \<notin> set ps \<and>
        present (pte_at (ram s) pgdir va) \<and> kpage s (uframe (ram s) pgdir va) \<and> uframe (ram s) pgdir va \<notin> set ps)"

lemma user_spaceD:
  assumes "user_space s pgdir sz ps"
  shows "free_pages s ps" "pgdir mod PGSIZE = 0" "pgdir \<notin> set ps" "unat sz \<le> 2 ^ 31"
    "\<And>va. va < sz \<Longrightarrow> pgtab_of (pde_at (ram s) pgdir (PDX va)) \<notin> set ps" "\<And>va. va < sz \<Longrightarrow> present (pte_at (ram s) pgdir va)"
    "\<And>va. va < sz \<Longrightarrow> kpage s (uframe (ram s) pgdir va)" "\<And>va. va < sz \<Longrightarrow> uframe (ram s) pgdir va \<notin> set ps"
    "\<And>va. va < sz \<Longrightarrow> kpage s (pgtab_of (pde_at (ram s) pgdir (PDX va)))"
  using assms unfolding user_space_def by (simp_all add: word_le_nat_alt)

text \<open>
  The memory at \<open>d\<close> is a copy of that at \<open>pgdir\<close>: the same bytes with the same permissions, in pages of its own, one for each
  page; and the original is as it was.
\<close>

definition memory_copied :: "mem \<Rightarrow> u32 \<Rightarrow> u32 \<Rightarrow> mem \<Rightarrow> u32 \<Rightarrow> bool" where
  "memory_copied m pgdir sz m' d \<longleftrightarrow>
     (\<forall>va < sz. present (pte_at m' d va) \<and> PTE_FLAGS (pte_at m' d va) = PTE_FLAGS (pte_at m pgdir va) \<and>
        ubyte m' d va = ubyte m pgdir va \<and>
        pte_at m' pgdir va = pte_at m pgdir va \<and> ubyte m' pgdir va = ubyte m pgdir va \<and>
        (\<forall>vb < sz. uframe m' d va \<noteq> uframe m' pgdir vb \<and>
           (uframe m' d va = uframe m' d vb \<longrightarrow> unat va div 4096 = unat vb div 4096)))"

lemma uframe_aligned: "uframe m pgdir va mod PGSIZE = 0"
  using pgtab_of_aligned [of "pte_at m pgdir va"] by (simp only: uframe_def pgtab_of_def)

lemma ubyte_in_page: "in_page (uframe m pgdir va) (uframe m pgdir va + va mod PGSIZE)"
  using unat_mod_distrib [of va PGSIZE] by (simp add: in_page_def)

lemma same_page:
  assumes "unat x div 4096 = unat y div 4096"
  shows "pte_at m d x = pte_at m d y" "uframe m d x = uframe m d y"
  using same_pte [of x y] assms by (simp_all add: pte_at_def uframe_def Let_def)

lemma new_pte:
  assumes "p mod PGSIZE = 0" "present e"
  shows "PTE_FLAGS (V2P p OR PTE_FLAGS e OR PTE_P) = PTE_FLAGS e" "P2V (PTE_ADDR (V2P p OR PTE_FLAGS e OR PTE_P)) = p"
proof -
  have v: "V2P p mod PGSIZE = 0" unfolding V2P_def by (rule aligned_shift(2) [OF assms(1)])
  have m: "PTE_FLAGS x = x AND mask 12" for x by (simp add: PTE_FLAGS_def mask_eq_exp_minus_1)
  have e: "bit e 0" using assms(2) by (simp add: present_def and_one_eq mod_2_eq_odd bit_0)
  then have o: "PTE_FLAGS e OR PTE_P = PTE_FLAGS e" unfolding m by (intro bit_word_eqI) (auto simp: bit_simps)
  show "PTE_FLAGS (V2P p OR PTE_FLAGS e OR PTE_P) = PTE_FLAGS e"
    unfolding o using v unfolding low_bits m by (intro bit_word_eqI) (auto simp: bit_simps)
  have "PTE_ADDR (V2P p OR PTE_FLAGS e) = V2P p" by (rule PTE_ADDR_flags [OF v]) (simp add: m bit_simps)
  then show "P2V (PTE_ADDR (V2P p OR PTE_FLAGS e OR PTE_P)) = p" unfolding o by (simp add: P2V_def V2P_def)
qed

text \<open>What is not in a free page is as it was.\<close>

lemma user_kept:
  assumes "user_space s pgdir sz ps" "\<And>f a. f mod PGSIZE = 0 \<Longrightarrow> f \<notin> set ps \<Longrightarrow> in_page f a \<Longrightarrow> m a = ram s a" "va < sz"
  shows "pde_at m pgdir (PDX va) = pde_at (ram s) pgdir (PDX va)" "pte_at m pgdir va = pte_at (ram s) pgdir va"
    "uframe m pgdir va = uframe (ram s) pgdir va" "ubyte m pgdir va = ubyte (ram s) pgdir va"
proof -
  note U = user_spaceD [OF assms(1)]
  have load: "load32 m (entry q i) = load32 (ram s) (entry q i)" if "q mod PGSIZE = 0" "q \<notin> set ps" "i < 1024" for q i
    using assms(2) [OF that(1,2)] entry_in_page [OF that(1,3)] by (intro load32_bytes) blast
  show pde: "pde_at m pgdir (PDX va) = pde_at (ram s) pgdir (PDX va)"
    using load [OF U(2,3) PDX_less] by (simp add: pde_at_def)
  show "pte_at m pgdir va = pte_at (ram s) pgdir va"
    using load [OF pgtab_of_aligned U(5) [OF assms(3)] PTX_less] pde by (simp add: pte_at_def Let_def)
  then show f: "uframe m pgdir va = uframe (ram s) pgdir va" by (simp add: uframe_def)
  show "ubyte m pgdir va = ubyte (ram s) pgdir va"
    using assms(2) [OF uframe_aligned U(8) [OF assms(3)] ubyte_in_page] by (simp add: ubyte_def f)
qed

section \<open>Copying\<close>

text \<open>The pages below \<open>b\<close> have been copied: their new pages are neither free nor part of the new page table.\<close>

definition copy_at :: "'a kmem_scheme \<Rightarrow> u32 \<Rightarrow> u32 list \<Rightarrow> u32 \<Rightarrow> 'a kmem_scheme \<Rightarrow> u32 list \<Rightarrow> u32 \<Rightarrow> bool" where
  "copy_at s pgdir ps d t qs va \<longleftrightarrow>
     present (pte_at (ram t) d va) \<and> PTE_FLAGS (pte_at (ram t) d va) = PTE_FLAGS (pte_at (ram s) pgdir va) \<and>
     ubyte (ram t) d va = ubyte (ram s) pgdir va \<and>
     uframe (ram t) d va \<in> set ps \<and> uframe (ram t) d va \<notin> tables (ram t) d \<union> set qs"

definition pages_copied :: "'a kmem_scheme \<Rightarrow> u32 \<Rightarrow> u32 list \<Rightarrow> u32 \<Rightarrow> nat \<Rightarrow> 'a kmem_scheme \<Rightarrow> u32 list \<Rightarrow> bool" where
  "pages_copied s pgdir ps d b t qs \<longleftrightarrow>
     (\<forall>va. unat va < b \<longrightarrow> copy_at s pgdir ps d t qs va) \<and>
     (\<forall>va vb. unat va < b \<and> unat vb < b \<and> uframe (ram t) d va = uframe (ram t) d vb \<longrightarrow> unat va div 4096 = unat vb div 4096)"

lemma copied_mono: "pages_copied s pgdir ps d b t qs \<Longrightarrow> b' \<le> b \<Longrightarrow> pages_copied s pgdir ps d b' t qs"
  unfolding pages_copied_def by (meson less_le_trans)

lemma copied_grows:
  assumes "pages_copied s pgdir ps d b t qs" "grows d k t qs u rs" "pt_ok t d qs"
    "\<And>va. unat va < b \<Longrightarrow> pte_at (ram u) d va = pte_at (ram t) d va"
  shows "pages_copied s pgdir ps d b u rs"
proof -
  have f: "uframe (ram u) d va = uframe (ram t) d va" if "unat va < b" for va
    using assms(4) [OF that] by (simp add: uframe_def)
  have "copy_at s pgdir ps d u rs va" if "unat va < b" for va
  proof -
    have c: "copy_at s pgdir ps d t qs va" using assms(1) that by (simp add: pages_copied_def)
    then have "uframe (ram t) d va \<notin> tables (ram t) d \<union> set qs" by (simp add: copy_at_def)
    note g = grows_keeps [OF assms(2,3) uframe_aligned this]
    have "ubyte (ram u) d va = ubyte (ram t) d va" using g(2) [OF ubyte_in_page] by (simp add: ubyte_def f [OF that])
    then show ?thesis using c g(1) by (simp add: copy_at_def f [OF that] assms(4) [OF that])
  qed
  then show ?thesis using assms(1) f unfolding pages_copied_def by metis
qed

text \<open>The page at \<open>i\<close> is copied to the new page \<open>p\<close> and mapped.\<close>

lemma copied_page:
  assumes "pages_copied s pgdir ps d (unat i) t qs" "unat i mod 4096 = 0" "p \<in> set ps" "p \<notin> tables (ram t) d \<union> set qs" "p mod PGSIZE = 0"
    "\<And>x. pte_at (ram t) d x = (if unat x div 4096 = unat i div 4096 then V2P p OR PTE_FLAGS (pte_at (ram s) pgdir i) OR PTE_P else f x)"
    "\<And>k. k < 4096 \<Longrightarrow> ram t (p + of_nat k) = ram s (uframe (ram s) pgdir i + of_nat k)" "present (pte_at (ram s) pgdir i)"
    "\<And>va. unat va < unat i \<Longrightarrow> uframe (ram t) d va \<noteq> p"
  shows "pages_copied s pgdir ps d (unat i + 4096) t qs"
proof -
  have new: "uframe (ram t) d va = p" "copy_at s pgdir ps d t qs va" if e: "unat va div 4096 = unat i div 4096" for va
  proof -
    have pte: "pte_at (ram t) d va = V2P p OR PTE_FLAGS (pte_at (ram s) pgdir i) OR PTE_P" using assms(6) e by simp
    note n = new_pte [OF assms(5,8)]
    show f: "uframe (ram t) d va = p" unfolding uframe_def pte by (rule n(2))
    have "unat (va mod PGSIZE) < 4096" using unat_mod_distrib [of va PGSIZE] by simp
    from assms(7) [OF this] have "ubyte (ram t) d va = ubyte (ram s) pgdir va"
      unfolding ubyte_def f same_page(2) [OF e, of "ram s" pgdir] by simp
    moreover have "PTE_FLAGS (pte_at (ram t) d va) = PTE_FLAGS (pte_at (ram s) pgdir va)"
      unfolding pte n(1) same_page(1) [OF e, of "ram s" pgdir] ..
    ultimately show "copy_at s pgdir ps d t qs va" using assms(3,4) by (simp add: copy_at_def f) (simp only: pte present_or)
  qed
  have c: "unat va < unat i \<or> unat va div 4096 = unat i div 4096" if "unat va < unat i + 4096" for va :: u32
    using that page_range [OF assms(2), of va] by auto
  have "unat va div 4096 = unat vb div 4096"
    if v: "unat va < unat i + 4096" "unat vb < unat i + 4096" "uframe (ram t) d va = uframe (ram t) d vb" for va vb
    using c [OF v(1)] c [OF v(2)] new(1) assms(9) v(3) assms(1) unfolding pages_copied_def by metis
  then show ?thesis using assms(1) new(2) c unfolding pages_copied_def by blast
qed

text \<open>\<open>memmove\<close> of a page to a page.\<close>

lemma copy_page:
  assumes "kpage s src" "kpage s dst"
  shows "\<not> in_page dst a \<Longrightarrow> memmove m dst src PGSIZE a = m a"
    "k < 4096 \<Longrightarrow> memmove m dst src PGSIZE (dst + of_nat k) = m (src + of_nat k)"
proof -
  have "unat p + 4096 < 2 ^ 32" if "kpage s p" for p
  proof -
    have "unat (p + PGSIZE) = unat p + 4096" using that by (intro kfree_no_wrap) (simp add: kpage_def)
    moreover have "unat (p + PGSIZE) < 2 ^ 32" using unsigned_less [of "p + PGSIZE"] by simp
    ultimately show ?thesis by simp
  qed
  then have m: "memmove m dst src PGSIZE = moved m dst src (unat PGSIZE)"
    using assms by (intro memmove_moved) (simp_all add: less_imp_le)
  show "\<not> in_page dst a \<Longrightarrow> memmove m dst src PGSIZE a = m a"
    unfolding m by (simp add: moved_def in_page_def)
  show "k < 4096 \<Longrightarrow> memmove m dst src PGSIZE (dst + of_nat k) = m (src + of_nat k)"
    unfolding m by (simp add: moved_def unat_of_nat)
qed

lemma built_user:
  assumes "user_space s pgdir sz ps" "built s ps d k t qs" "va < sz"
  shows "pde_at (ram t) pgdir (PDX va) = pde_at (ram s) pgdir (PDX va)" "pte_at (ram t) pgdir va = pte_at (ram s) pgdir va"
    "uframe (ram t) pgdir va = uframe (ram s) pgdir va" "ubyte (ram t) pgdir va = ubyte (ram s) pgdir va"
  by (rule user_kept [OF assms(1) _ assms(3)], rule built_keeps [OF assms(2) user_spaceD(1) [OF assms(1)]], assumption+)+

text \<open>Once round the loop.\<close>

lemma copyuvm_round:
  assumes "user_space s pgdir sz ps" "built s ps d k t qs" "i < sz"
  shows "copyuvm_loop (Suc n) pgdir d i sz t =
    (case kalloc t of (pg, v) \<Rightarrow>
       if pg = 0 then bindR (freevm d v) (\<lambda>s. Inr (0, s))
       else bindR (mappages d i PGSIZE (V2P pg) (PTE_FLAGS (pte_at (ram s) pgdir i))
              (v\<lparr>ram := memmove (ram v) pg (uframe (ram s) pgdir i) PGSIZE\<rparr>)) (\<lambda>(r, s).
            if r < 0 then bindR (kfree pg s) (\<lambda>s. bindR (freevm d s) (\<lambda>s. Inr (0, s)))
            else copyuvm_loop n pgdir d (i + PGSIZE) sz s))"
proof -
  note U = user_spaceD [OF assms(1)]
  note K = built_user(1,2) [OF assms]
  have pde: "present (pde_at (ram s) pgdir (PDX i))"
    using U(6) [OF assms(3)] by (auto simp: pte_at_def Let_def present_def split: if_splits)
  define a where "a = entry (pgtab_of (pde_at (ram s) pgdir (PDX i))) (PTX i)"
  have w: "walkpgdir pgdir i False t = (a, t)" using pde K(1) by (simp add: walkpgdir_entry a_def)
  have z: "a \<noteq> 0" unfolding a_def by (rule entry_nonzero [OF U(9) [OF assms(3)] PTX_less])
  have l: "load32 (ram t) a = pte_at (ram s) pgdir i"
    using K pde by (simp add: pte_at_def a_def)
  have p: "pte_at (ram s) pgdir i AND PTE_P \<noteq> 0" using U(6) [OF assms(3)] unfolding present_def .
  show ?thesis
    unfolding copyuvm_loop.simps w fst_conv Let_def l uframe_def using assms(3) z p by (simp split: prod.split)
qed

text \<open>A page taken and filled with the bytes of the page at \<open>i\<close>.\<close>

lemma copyuvm_fill:
  assumes "user_space s pgdir sz ps" "built s ps d k t (p # rs)" "i < sz" "kalloc t = (p, v)"
  defines "w \<equiv> v\<lparr>ram := memmove (ram v) p (uframe (ram s) pgdir i) PGSIZE\<rparr>"
  shows "p \<noteq> 0" "grows d 1 t (p # rs) w rs" "built s ps d (k + 1) w rs" "tables (ram w) d = tables (ram t) d"
    "pte_at (ram w) d = pte_at (ram t) d" "p \<in> set ps" "p mod PGSIZE = 0" "p \<notin> tables (ram w) d \<union> set rs"
    "j < 4096 \<Longrightarrow> ram w (p + of_nat j) = ram s (uframe (ram s) pgdir i + of_nat j)"
proof -
  note U = user_spaceD [OF assms(1)]
  let ?src = "uframe (ram s) pgdir i"
  obtain us where us: "ps = us @ p # rs" "pt_ok t d (p # rs)" "kend t = kend s" "tables (ram t) d \<subseteq> set us"
    using builtE [OF assms(2)] by metis
  have kp: "kpage s ?src" "kpage s p" "distinct ps" using U(1,7) assms(3) us(1) by (auto simp: free_pages_def)
  have r: "ram v = ram t" using new_page(5) [OF us(2) assms(4), of "ram t"] by simp
  note c = copy_page [OF kp(1,2), of _ "ram v"]
  have out: "\<not> in_page p a \<Longrightarrow> ram w a = ram t a" for a using c(1) r by (simp add: w_def)
  note n = new_page [OF us(2) assms(4) out] and g = data_page_grows [OF us(2) assms(4) out]
  have w: "w = v\<lparr>ram := ram w\<rparr>" by (simp add: w_def)
  show "p \<noteq> 0" "pte_at (ram w) d = pte_at (ram t) d" "tables (ram w) d = tables (ram t) d" using n(1,3) g(2) by simp_all
  show gr: "grows d 1 t (p # rs) w rs" by (subst w) (rule g(1))
  show "built s ps d (k + 1) w rs" by (rule built_grows [OF assms(2) gr])
  show "p \<in> set ps" "p mod PGSIZE = 0" using us(1) kp(2) unfolding kpage_def by simp_all
  show "p \<notin> tables (ram w) d \<union> set rs" using us(1,4) kp(3) g(2) by auto
  show "ram w (p + of_nat j) = ram s (?src + of_nat j)" if "j < 4096"
    using c(2) [OF that] r built_keeps [OF assms(2) U(1) uframe_aligned U(8) [OF assms(3)] in_page_offset [OF that]] by (simp add: w_def)
qed

lemma copyuvm_map:
  assumes "user_space s pgdir sz ps" "built s ps d k t (p # rs)" "pages_copied s pgdir ps d (unat i) t (p # rs)" "unat i mod 4096 = 0"
    "i < sz" "kalloc t = (p, v)"
  defines "w \<equiv> v\<lparr>ram := memmove (ram v) p (uframe (ram s) pgdir i) PGSIZE\<rparr>"
  assumes "grows d 0 w rs u qs"
    "pte_at (ram u) d = mapped 0 i (V2P p) (PTE_FLAGS (pte_at (ram s) pgdir i)) (pte_at (ram t) d)"
  shows "built s ps d (k + 1) u qs" "pages_copied s pgdir ps d (unat i + 4096) u qs"
proof -
  note f = copyuvm_fill [OF assms(1,2,5,6), folded w_def]
  have pt: "pt_ok t d (p # rs)" "pt_ok w d rs" using builtE [OF assms(2)] growsE [OF f(2)] by metis+
  show "built s ps d (k + 1) u qs" using built_grows [OF f(3) assms(8)] by simp
  have pte: "pte_at (ram u) d x = (if unat x div 4096 = unat i div 4096 then V2P p OR PTE_FLAGS (pte_at (ram s) pgdir i) OR PTE_P
      else pte_at (ram t) d x)" for x unfolding assms(9) mapped_0 [OF assms(4)] ..
  have low: "pte_at (ram u) d x = pte_at (ram t) d x" if "unat x < unat i" for x
    unfolding pte using that page_range [OF assms(4), of x] by simp
  note g = grows_keeps [OF assms(8) pt(2) f(7,8)]
  have "pages_copied s pgdir ps d (unat i) w rs" using copied_grows [OF assms(3) f(2) pt(1)] f(5) by simp
  then have c: "pages_copied s pgdir ps d (unat i) u qs"
    using copied_grows [OF _ assms(8) pt(2)] low f(5) by simp
  have "uframe (ram u) d va \<noteq> p" if "unat va < unat i" for va
  proof -
    have "uframe (ram u) d va = uframe (ram t) d va" using low [OF that] by (simp add: uframe_def)
    moreover have "copy_at s pgdir ps d t (p # rs) va" using assms(3) that by (simp add: pages_copied_def)
    ultimately show ?thesis by (auto simp: copy_at_def)
  qed
  moreover have "ram u (p + of_nat j) = ram s (uframe (ram s) pgdir i + of_nat j)" if "j < 4096" for j
    using g(2) [OF in_page_offset [OF that]] f(9) [OF that] by simp
  ultimately show "pages_copied s pgdir ps d (unat i + 4096) u qs"
    using user_spaceD(6) [OF assms(1,5)] by (intro copied_page [OF c assms(4) f(6) g(1) f(7) pte]) simp_all
qed

text \<open>The page is copied, or there is no room for it or for the page table that it needs.\<close>

lemma copyuvm_page:
  assumes "user_space s pgdir sz ps" "built s ps d k t qs" "pages_copied s pgdir ps d (unat i) t qs" "unat i mod 4096 = 0" "i < sz"
    "\<forall>x. unat i \<le> unat x \<and> unat x < 2 ^ 31 \<longrightarrow> \<not> present (pte_at (ram t) d x)"
  shows "(\<exists>u rs. copyuvm_loop (Suc n) pgdir d i sz t = copyuvm_loop n pgdir d (i + PGSIZE) sz u \<and>
      built s ps d (k + 1) u rs \<and> pages_copied s pgdir ps d (unat i + 4096) u rs \<and>
      (\<forall>x. unat i + 4096 \<le> unat x \<and> unat x < 2 ^ 31 \<longrightarrow> \<not> present (pte_at (ram u) d x))) \<or>
    (\<forall>r u. copyuvm_loop (Suc n) pgdir d i sz t = Inr (r, u) \<longrightarrow> r = 0) \<and> length ps \<le> 1025 + k"
proof (cases qs)
  case Nil
  obtain us where us: "ps = us @ qs" "pt_ok t d qs" "length us + missing (ram t) d \<le> 1025 + k" using builtE [OF assms(2)] by metis
  then have "kalloc t = (0, t)" using kalloc_free_pages [OF pt_okD(2) [OF us(2)]] Nil by simp
  then show ?thesis using us Nil unfolding copyuvm_round [OF assms(1,2,5)] by (simp add: res_simps)
next
  case (Cons p rs)
  note U = user_spaceD [OF assms(1)]
  have pt: "pt_ok t d (p # rs)" using builtE [OF assms(2)] Cons by metis
  then obtain v where v: "kalloc t = (p, v)" using kalloc_free_pages [OF pt_okD(2) [OF pt]] by (cases "kalloc t") auto
  define w where "w = v\<lparr>ram := memmove (ram v) p (uframe (ram s) pgdir i) PGSIZE\<rparr>"
  note f = copyuvm_fill [OF assms(1) assms(2)[unfolded Cons] assms(5) v, folded w_def]
  let ?fl = "PTE_FLAGS (pte_at (ram s) pgdir i)"
  have pw: "pt_ok w d rs" using growsE [OF f(2)] by metis
  have "4096 dvd (2 :: nat) ^ 31" by simp
  then have i: "unat i + 4096 \<le> 2 ^ 31" "i mod PGSIZE = 0"
    using assms(4,5) U(4) aligned_unat [of i] by (auto simp: word_less_nat_alt)
  have un: "\<forall>x. unat i \<le> unat x \<and> unat x < unat i + 4096 * (0 + 1) \<longrightarrow> \<not> present (pte_at (ram w) d x)"
    using assms(6) i(1) unfolding f(5) by simp
  have round: "copyuvm_loop (Suc n) pgdir d i sz t =
      bindR (mappages d i PGSIZE (V2P p) ?fl w) (\<lambda>(r, s). if r < 0 then bindR (kfree p s) (\<lambda>s. bindR (freevm d s) (\<lambda>s. Inr (0, s)))
        else copyuvm_loop n pgdir d (i + PGSIZE) sz s)"
    unfolding copyuvm_round [OF assms(1,2,5)] v using f(1) by (simp add: w_def)
  have "PGSIZE = of_nat (4096 * (0 + 1))" by simp
  then have "(\<exists>u qs. mappages d i PGSIZE (V2P p) ?fl w = Inr (0, u) \<and> grows d 0 w rs u qs \<and>
      pte_at (ram u) d = mapped 0 i (V2P p) ?fl (pte_at (ram t) d)) \<or>
    (\<exists>u. mappages d i PGSIZE (V2P p) ?fl w = Inr (- 1, u)) \<and> length rs < missing (ram w) d"
    using mappages_grows [OF pw i(2) _ _ un, of PGSIZE "V2P p" ?fl] i(1) f(5) by simp
  then show ?thesis
  proof (elim disjE exE conjE)
    fix u qs
    assume u: "mappages d i PGSIZE (V2P p) ?fl w = Inr (0, u)" "grows d 0 w rs u qs"
      "pte_at (ram u) d = mapped 0 i (V2P p) ?fl (pte_at (ram t) d)"
    note c = copyuvm_map [OF assms(1) assms(2,3)[unfolded Cons] assms(4,5) v, folded w_def, OF u(2,3)]
    have "\<forall>x. unat i + 4096 \<le> unat x \<and> unat x < 2 ^ 31 \<longrightarrow> \<not> present (pte_at (ram u) d x)"
      using assms(6) unfolding u(3) mapped_def by simp
    moreover have "copyuvm_loop (Suc n) pgdir d i sz t = copyuvm_loop n pgdir d (i + PGSIZE) sz u" unfolding round u(1) by simp
    ultimately show ?thesis using c by blast
  next
    fix u
    assume "mappages d i PGSIZE (V2P p) ?fl w = Inr (- 1, u)" "length rs < missing (ram w) d"
    moreover obtain us where "ps = us @ rs" "length us + missing (ram w) d \<le> 1025 + (k + 1)" using builtE [OF f(3)] by metis
    ultimately have "length ps \<le> 1025 + k" "copyuvm_loop (Suc n) pgdir d i sz t = Inr (r, x) \<longrightarrow> r = 0" for r x
      unfolding round by (auto simp: res_simps)
    then show ?thesis by blast
  qed
qed

lemma copyuvm_loop_copies:
  assumes "user_space s pgdir sz ps" "built s ps d k t qs" "pages_copied s pgdir ps d (unat i) t qs" "unat i mod 4096 = 0"
    "\<forall>x. unat i \<le> unat x \<and> unat x < 2 ^ 31 \<longrightarrow> \<not> present (pte_at (ram t) d x)" "unat sz \<le> unat i + 4096 * n"
  shows "(\<exists>l u rs. copyuvm_loop n pgdir d i sz t = Inr (d, u) \<and> built s ps d l u rs \<and> pages_copied s pgdir ps d (unat sz) u rs) \<or>
    (\<forall>r u. copyuvm_loop n pgdir d i sz t = Inr (r, u) \<longrightarrow> r = 0) \<and> length ps < 1025 + k + n"
  using assms(2-)
proof (induction n arbitrary: k t qs i)
  case 0
  then show ?case using copied_mono [OF 0(2)] by (auto simp: word_less_nat_alt)
next
  case (Suc n)
  show ?case
  proof (cases "i < sz")
    case True
    have "unat sz \<le> 2 ^ 31" using user_spaceD(4) [OF assms(1)] .
    then have i: "unat (i + PGSIZE) = unat i + 4096" "unat (i + PGSIZE) mod 4096 = 0"
      using next_page [OF True] Suc.prems(3) by simp_all
    from copyuvm_page [OF assms(1) Suc.prems(1-3) True Suc.prems(4), of n] show ?thesis
    proof (elim disjE exE conjE)
      fix u rs
      assume u: "copyuvm_loop (Suc n) pgdir d i sz t = copyuvm_loop n pgdir d (i + PGSIZE) sz u" "built s ps d (k + 1) u rs"
        "pages_copied s pgdir ps d (unat i + 4096) u rs" "\<forall>x. unat i + 4096 \<le> unat x \<and> unat x < 2 ^ 31 \<longrightarrow> \<not> present (pte_at (ram u) d x)"
      show ?thesis using Suc.IH [OF u(2), of "i + PGSIZE"] u(3,4) i Suc.prems(5) unfolding u(1) by (simp add: add.assoc)
    qed (use Suc.prems(5) in auto)
  next
    case False
    then show ?thesis using Suc.prems(1) copied_mono [OF Suc.prems(2), of "unat sz"] by (auto simp: word_less_nat_alt)
  qed
qed

lemma copied_memory:
  assumes "user_space s pgdir sz ps" "built s ps d l u rs" "pages_copied s pgdir ps d (unat sz) u rs"
  shows "memory_copied (ram s) pgdir sz (ram u) d"
  unfolding memory_copied_def
proof (intro allI impI conjI)
  fix va vb
  assume v: "va < sz"
  then have c: "copy_at s pgdir ps d u rs va" using assms(3) by (simp add: pages_copied_def word_less_nat_alt)
  note U = user_spaceD [OF assms(1)]
  note k = built_user [OF assms(1,2)]
  show "present (pte_at (ram u) d va)" "PTE_FLAGS (pte_at (ram u) d va) = PTE_FLAGS (pte_at (ram s) pgdir va)"
    "ubyte (ram u) d va = ubyte (ram s) pgdir va" using c by (simp_all add: copy_at_def)
  show "pte_at (ram u) pgdir va = pte_at (ram s) pgdir va" "ubyte (ram u) pgdir va = ubyte (ram s) pgdir va" using k(2,4) v by blast+
  assume w: "vb < sz"
  have "uframe (ram u) pgdir vb = uframe (ram s) pgdir vb" using k(3) w by blast
  then show "uframe (ram u) d va \<noteq> uframe (ram u) pgdir vb" using c U(8) [OF w] by (auto simp: copy_at_def)
  show "uframe (ram u) d va = uframe (ram u) d vb \<Longrightarrow> unat va div 4096 = unat vb div 4096"
    using assms(3) v w unfolding pages_copied_def word_less_nat_alt by blast
qed

text \<open>
  \<open>copyuvm\<close> gives a page table with a copy of the memory, or 0 (or an error) when there were not 1025 free pages, the most that a
  page table can take, and one for each page of the memory.
\<close>

lemma copyuvm_copies:
  fixes s :: "'a vm_scheme"
  assumes "user_space s pgdir sz ps" "kdata_ok s"
  shows "(\<exists>d t. copyuvm pgdir sz s = Inr (d, t) \<and> d \<noteq> 0 \<and> memory_copied (ram s) pgdir sz (ram t) d) \<or>
    (\<forall>d t. copyuvm pgdir sz s = Inr (d, t) \<longrightarrow> d = 0) \<and> length ps < 1025 + (unat sz + 4095) div 4096"
proof -
  note U = user_spaceD [OF assms(1)]
  define n where "n = (unat sz + 4095) div 4096"
  have n: "unat sz \<le> 4096 * n" unfolding n_def by simp
  from setupkvm_builds [OF U(1) assms(2)] show ?thesis
  proof (elim disjE exE conjE)
    fix d t qs
    assume d: "setupkvm s = Inr (d, t)" "d \<noteq> 0" "built s ps d 0 t qs" "\<forall>x. unat x < 2 ^ 31 \<longrightarrow> \<not> present (pte_at (ram t) d x)"
    have "unat sz + 4096 \<le> 2 ^ 32" "n \<le> npages" using U(4) by (simp_all add: n_def npages_def)
    then have e: "copyuvm pgdir sz s = copyuvm_loop n pgdir d 0 sz t"
      using copyuvm_loop_fuel [of sz 0 n "npages - n" pgdir d t] n d(1,2) by (simp add: copyuvm_def res_simps)
    have "pages_copied s pgdir ps d (unat (0 :: u32)) t qs" by (simp add: pages_copied_def)
    from copyuvm_loop_copies [OF assms(1) d(3) this, of n] n d(4)
    consider l u rs where "copyuvm_loop n pgdir d 0 sz t = Inr (d, u)" "built s ps d l u rs" "pages_copied s pgdir ps d (unat sz) u rs"
      | "\<forall>r u. copyuvm_loop n pgdir d 0 sz t = Inr (r, u) \<longrightarrow> r = 0" "length ps < 1025 + n" by auto
    then show ?thesis
    proof cases
      case 1
      have "memory_copied (ram s) pgdir sz (ram u) d"
        by (rule copied_memory [OF assms(1) 1(2,3)])
      then show ?thesis using e 1(1) d(2) by auto
    qed (use e n_def in auto)
  next
    assume "\<forall>r t. setupkvm s = Inr (r, t) \<longrightarrow> r = 0" "length ps < 1025"
    then show ?thesis by (auto simp: copyuvm_def res_simps)
  qed
qed

end
