(* ===== verification/Xv6_Proc.thy ===== *)
theory Xv6_Proc
  imports Xv6_File Xv6_Uvm
begin

text \<open>
  Processes and threads (\<open>proc.c\<close>): their creation by \<open>fork\<close> and \<open>clone\<close>, their end, sleeping, killing and the
  scheduler. \<open>ptable.lock\<close> makes each passage through the process table one step. A call that switches to
  the scheduler and does not come back returns the state at the switch.
\<close>

section \<open>State\<close>

record kernel = filest +
  ticks :: u32
  first :: bool

abbreviation SEG_UCODE :: u16 where "SEG_UCODE \<equiv> 3"
abbreviation SEG_UDATA :: u16 where "SEG_UDATA \<equiv> 4"
abbreviation DPL_USER :: u16 where "DPL_USER \<equiv> 3"
abbreviation FL_IF :: u32 where "FL_IF \<equiv> 0x200"

text \<open>The CPU with the given APIC id; interrupts have to be off.\<close>

definition mycpu :: "bool \<Rightarrow> nat \<Rightarrow> nat list \<Rightarrow> nat res" where
  "mycpu interrupts apicid cpus =
     (if interrupts then Inl (Panic ''mycpu called with interrupts enabled\<newline>'')
      else case scan (\<lambda>a. a = apicid) cpus of
             Some i \<Rightarrow> Inr i
           | None \<Rightarrow> Inl (Panic ''unknown apicid\<newline>''))"

definition cpuid :: "bool \<Rightarrow> nat \<Rightarrow> nat list \<Rightarrow> nat res" where
  "cpuid interrupts apicid cpus = mycpu interrupts apicid cpus"

text \<open>\<open>safestrcpy\<close> into a name of 16 bytes, of which the last is the NUL.\<close>

definition name16 :: "byte list \<Rightarrow> byte list" where
  "name16 n = take 15 (takeWhile (\<lambda>c. c \<noteq> 0) n)"

section \<open>Creation\<close>

definition new_context :: kcontext where
  "new_context = \<lparr>ctx_edi = 0, ctx_esi = 0, ctx_ebx = 0, ctx_ebp = 0, ctx_eip = ''forkret''\<rparr>"

definition allocproc :: "'a procs_scheme \<Rightarrow> nat option \<times> 'a procs_scheme" where
  "allocproc s =
     (case find (\<lambda>p. p_state (ptable s p) = UNUSED) [0..<NPROC] of
        None \<Rightarrow> (None, s)
      | Some p \<Rightarrow>
          let s = upd_proc p (\<lambda>x. x\<lparr>p_state := EMBRYO, p_pid := nextpid s\<rparr>) (s\<lparr>nextpid := nextpid s + 1\<rparr>);
              (k, s) = kalloc s;
              s = upd_proc p (\<lambda>x. x\<lparr>p_kstack := k\<rparr>) s
          in if k = 0 then (None, upd_proc p (\<lambda>x. x\<lparr>p_state := UNUSED\<rparr>) s)
             else (Some p, upd_proc p (\<lambda>x. x\<lparr>p_context := new_context, p_isthread := False\<rparr>) s))"

definition user_frame :: trapframe where
  "user_frame = \<lparr>tf_edi = 0, tf_esi = 0, tf_ebp = 0, tf_ebx = 0, tf_edx = 0, tf_ecx = 0, tf_eax = 0,
     tf_ds = push_bit 3 SEG_UDATA OR DPL_USER, tf_es = push_bit 3 SEG_UDATA OR DPL_USER, tf_trapno = 0, tf_err = 0,
     tf_eip = 0, tf_cs = push_bit 3 SEG_UCODE OR DPL_USER, tf_eflags = FL_IF, tf_esp = PGSIZE,
     tf_ss = push_bit 3 SEG_UDATA OR DPL_USER\<rparr>"

text \<open>\<open>start\<close> and \<open>len\<close> are the linker's symbols for \<open>initcode\<close>.\<close>

definition userinit :: "u32 \<Rightarrow> u32 \<Rightarrow> 'a filest_scheme \<Rightarrow> 'a filest_scheme res" where
  "userinit start len s =
     (let (po, s) = allocproc s
      in case po of None \<Rightarrow> Inl Fault
         | Some p \<Rightarrow>
             bindR (setupkvm (s\<lparr>initproc := Some p\<rparr>)) (\<lambda>(pgdir, s).
             if pgdir = 0 then Inl (Panic ''userinit: out of memory?'')
             else bindR (inituvm pgdir start len (upd_proc p (\<lambda>x. x\<lparr>p_pgdir := pgdir\<rparr>) s)) (\<lambda>s.
                  let s = upd_proc p (\<lambda>x. x\<lparr>p_sz := PGSIZE, p_tf := user_frame, p_name := name16 (map of_char ''initcode'')\<rparr>) s
                  in bindR (namei [slash] s) (\<lambda>(cwd, s).
                     Inr (upd_proc p (\<lambda>x. x\<lparr>p_cwd := cwd, p_state := RUNNABLE\<rparr>) s)))))"

definition growproc :: "int \<Rightarrow> 'a procs_scheme \<Rightarrow> (int \<times> 'a procs_scheme) res" where
  "growproc n s =
     (let sz = p_sz (myproc s); pgdir = p_pgdir (myproc s); finish = (\<lambda>sz s.
            let s = upd_proc (curproc s) (\<lambda>x. x\<lparr>p_sz := sz\<rparr>) s
            in bindR (switchuvm (p_kstack (myproc s)) (p_pgdir (myproc s)) s) (\<lambda>s. Inr (0, s)))
      in if n > 0
         then bindR (allocuvm pgdir sz (sz + of_int n) s) (\<lambda>(sz, s). if sz = 0 then Inr (- 1, s) else finish sz s)
         else if n < 0
         then bindR (deallocuvm pgdir sz (sz + of_int n) s) (\<lambda>(sz, s). if sz = 0 then Inr (- 1, s) else finish sz s)
         else finish sz s)"

text \<open>The loop of \<open>fork\<close> over the open files: an entry that is null in the parent is left alone in the child.\<close>

fun dup_ofiles :: "nat list \<Rightarrow> nat \<Rightarrow> 'a filest_scheme \<Rightarrow> 'a filest_scheme res" where
  "dup_ofiles [] np s = Inr s"
| "dup_ofiles (i # is) np s =
     (case p_ofile (myproc s) i of
        None \<Rightarrow> dup_ofiles is np s
      | Some f \<Rightarrow>
          bindR (filedup f s) (\<lambda>s.
            dup_ofiles is np (upd_proc np (\<lambda>x. x\<lparr>p_ofile := (p_ofile x)(i := Some f)\<rparr>) s)))"

definition fork :: "'a filest_scheme \<Rightarrow> (int \<times> 'a filest_scheme) res" where
  "fork s =
     (let me = curproc s; (npo, s) = allocproc s
      in case npo of None \<Rightarrow> Inr (- 1, s)
         | Some np \<Rightarrow>
             bindR (copyuvm (p_pgdir (ptable s me)) (p_sz (ptable s me)) s) (\<lambda>(pgdir, s).
             let s = upd_proc np (\<lambda>x. x\<lparr>p_pgdir := pgdir\<rparr>) s
             in if pgdir = 0
                then bindR (kfree (p_kstack (ptable s np)) s) (\<lambda>s.
                     Inr (- 1, upd_proc np (\<lambda>x. x\<lparr>p_kstack := 0, p_state := UNUSED\<rparr>) s))
                else let s = upd_proc np (\<lambda>x. x\<lparr>p_sz := p_sz (ptable s me), p_parent := Some me,
                               p_tf := (p_tf (ptable s me))\<lparr>tf_eax := 0\<rparr>\<rparr>) s
                     in bindR (dup_ofiles [0..<NOFILE] np s) (\<lambda>s.
                        case p_cwd (ptable s me) of None \<Rightarrow> Inl Fault
                        | Some cwd \<Rightarrow>
                            let s = idup cwd s;
                                s = upd_proc np (\<lambda>x. x\<lparr>p_cwd := Some cwd, p_name := name16 (p_name (ptable s me))\<rparr>) s;
                                pid = p_pid (ptable s np)
                            in Inr (int pid, upd_proc np (\<lambda>x. x\<lparr>p_state := RUNNABLE\<rparr>) s))))"

text \<open>A thread shares the page table of its creator and copies its file table as it is.\<close>

definition clone :: "u32 \<Rightarrow> int \<Rightarrow> 'a filest_scheme \<Rightarrow> (int \<times> 'a filest_scheme) res" where
  "clone stack len s =
     (let me = curproc s; (npo, s) = allocproc s
      in case npo of None \<Rightarrow> Inr (- 1, s)
         | Some np \<Rightarrow>
             let p = ptable s me;
                 s = upd_proc np (\<lambda>x. x\<lparr>p_pgdir := p_pgdir p, p_sz := p_sz p, p_parent := Some me,
                       p_stack := stack, p_isthread := True, p_stacksize := of_int len,
                       p_tf := (p_tf p)\<lparr>tf_eax := 0, tf_esp := stack + of_int len\<rparr>\<rparr>) s;
                 s = upd_proc np (\<lambda>x. x\<lparr>p_ofile := (\<lambda>i. if i < NOFILE then p_ofile p i else p_ofile x i),
                       p_cwd := p_cwd p, p_name := name16 (p_name p)\<rparr>) s;
                 pid = p_pid (ptable s np)
             in Inr (int pid, upd_proc np (\<lambda>x. x\<lparr>p_state := RUNNABLE\<rparr>) s))"

section \<open>Switching\<close>

text \<open>
  The checks of \<open>sched\<close>; the caller says whether \<open>ptable.lock\<close> is held, how deep \<open>pushcli\<close> is nested and whether
  interrupts are on. At the switch the state is that of the caller.
\<close>

definition sched :: "bool \<Rightarrow> int \<Rightarrow> bool \<Rightarrow> 'a procs_scheme \<Rightarrow> 'a procs_scheme res" where
  "sched locked ncli interrupts s =
     (if \<not> locked then Inl (Panic ''sched ptable.lock'')
      else if ncli \<noteq> 1 then Inl (Panic ''sched locks'')
      else if p_state (myproc s) = RUNNING then Inl (Panic ''sched running'')
      else if interrupts then Inl (Panic ''sched interruptible'')
      else Inr s)"

definition yield :: "'a procs_scheme \<Rightarrow> 'a procs_scheme res" where
  "yield s = sched True 1 False (upd_proc (curproc s) (\<lambda>x. x\<lparr>p_state := RUNNABLE\<rparr>) s)"

text \<open>\<open>sleep\<close> up to the switch, and what it does when the process runs again.\<close>

definition sleep :: "chan \<Rightarrow> bool \<Rightarrow> 'a procs_scheme \<Rightarrow> 'a procs_scheme res" where
  "sleep c lk s =
     (case cpu_proc s of None \<Rightarrow> Inl (Panic ''sleep'')
      | Some p \<Rightarrow>
          if \<not> lk then Inl (Panic ''sleep without lk'')
          else sched True 1 False (upd_proc p (\<lambda>x. x\<lparr>p_chan := Some c, p_state := SLEEPING\<rparr>) s))"

definition sleep_return :: "'a procs_scheme \<Rightarrow> 'a procs_scheme" where
  "sleep_return s = upd_proc (curproc s) (\<lambda>x. x\<lparr>p_chan := None\<rparr>) s"

text \<open>The scheduler switches to process \<open>p\<close>, and gets the CPU back.\<close>

definition sched_to :: "nat \<Rightarrow> 'a procs_scheme \<Rightarrow> 'a procs_scheme res" where
  "sched_to p s =
     bindR (switchuvm (p_kstack (ptable s p)) (p_pgdir (ptable s p)) (s\<lparr>cpu_proc := Some p\<rparr>)) (\<lambda>s.
       Inr (upd_proc p (\<lambda>x. x\<lparr>p_state := RUNNING\<rparr>) s))"

definition sched_back :: "'a procs_scheme \<Rightarrow> 'a procs_scheme" where
  "sched_back s = (switchkvm s)\<lparr>cpu_proc := None\<rparr>"

text \<open>
  The loop of \<open>scheduler\<close>: at entry \<open>p\<close> of the table, with the lock held, or process \<open>p\<close> running. While a process
  runs and at the end of each pass, when the lock is free, the rest of the kernel may change the state.
\<close>

datatype sched_pc = Scan nat | Running nat

inductive scheduler :: "sched_pc \<times> 'a procs_scheme \<Rightarrow> sched_pc \<times> 'a procs_scheme \<Rightarrow> bool" where
  sched_skip: "p < NPROC \<Longrightarrow> p_state (ptable s p) \<noteq> RUNNABLE \<Longrightarrow> scheduler (Scan p, s) (Scan (p + 1), s)"
| sched_run: "p < NPROC \<Longrightarrow> p_state (ptable s p) = RUNNABLE \<Longrightarrow> sched_to p s = Inr t \<Longrightarrow>
    scheduler (Scan p, s) (Running p, t)"
| sched_done: "scheduler (Running p, s) (Scan (p + 1), sched_back t)"
| sched_again: "scheduler (Scan NPROC, s) (Scan 0, t)"

definition forkret :: "'a kernel_scheme \<Rightarrow> 'a kernel_scheme res" where
  "forkret s =
     (if first s then bindR (iinit ROOTDEV (s\<lparr>first := False\<rparr>)) (initlog ROOTDEV) else Inr s)"

section \<open>The end\<close>

text \<open>A process is also the channel on which it waits for its children.\<close>

definition proc_chan :: "nat \<Rightarrow> chan" where "proc_chan p = (''proc'', p)"

definition wake_proc :: "nat option \<Rightarrow> (nat \<Rightarrow> proc) \<Rightarrow> nat \<Rightarrow> proc" where
  "wake_proc po m = (case po of None \<Rightarrow> m | Some p \<Rightarrow> wakeup1 (proc_chan p) m)"

fun close_ofiles :: "nat list \<Rightarrow> 'a filest_scheme \<Rightarrow> 'a filest_scheme res" where
  "close_ofiles [] s = Inr s"
| "close_ofiles (fd # fds) s =
     (case p_ofile (myproc s) fd of
        None \<Rightarrow> close_ofiles fds s
      | Some f \<Rightarrow>
          bindR (fileclose f s) (\<lambda>s.
            close_ofiles fds (upd_proc (curproc s) (\<lambda>x. x\<lparr>p_ofile := (p_ofile x)(fd := None)\<rparr>) s)))"

definition reparent1 :: "nat \<Rightarrow> nat option \<Rightarrow> nat \<Rightarrow> (nat \<Rightarrow> proc) \<Rightarrow> nat \<Rightarrow> proc" where
  "reparent1 me init p m =
     (if p_parent (m p) = Some me
      then let m' = m(p := (m p)\<lparr>p_parent := init\<rparr>)
           in if p_state (m p) = ZOMBIE then wake_proc init m' else m'
      else m)"

definition exit :: "'a filest_scheme \<Rightarrow> 'a filest_scheme res" where
  "exit s =
     (let me = curproc s; thread = p_isthread (myproc s)
      in if cpu_proc s = initproc s then Inl (Panic ''init exiting'')
         else bindR (close_ofiles (if thread then [] else [0..<NOFILE]) s) (\<lambda>s.
              bindR (begin_op s) (\<lambda>s.
              bindR (if thread then Inr s
                     else case p_cwd (myproc s) of None \<Rightarrow> Inl Fault | Some ip \<Rightarrow> iput ip s) (\<lambda>s.
              bindR (end_op s) (\<lambda>s.
              let s = upd_proc me (\<lambda>x. x\<lparr>p_cwd := None\<rparr>) s;
                  m = wake_proc (p_parent (ptable s me)) (ptable s);
                  m = fold (reparent1 me (initproc s)) [0..<NPROC] m
              in sched True 1 False (s\<lparr>ptable := m(me := (m me)\<lparr>p_state := ZOMBIE\<rparr>)\<rparr>))))))"

definition wait :: "'a procs_scheme \<Rightarrow> (int \<times> 'a procs_scheme) res" where
  "wait s =
     (let me = curproc s; child = (\<lambda>p. p_parent (ptable s p) = Some me)
      in case find (\<lambda>p. child p \<and> p_state (ptable s p) = ZOMBIE) [0..<NPROC] of
           Some p \<Rightarrow>
             bindR (kfree (p_kstack (ptable s p)) s) (\<lambda>s.
             let s = upd_proc p (\<lambda>x. x\<lparr>p_kstack := 0\<rparr>) s
             in bindR (if \<not> p_isthread (ptable s p) then freevm (p_pgdir (ptable s p)) s else Inr s) (\<lambda>s.
                Inr (int (p_pid (ptable s p)),
                     upd_proc p (\<lambda>x. x\<lparr>p_pid := 0, p_parent := None, p_name := [], p_killed := False, p_state := UNUSED\<rparr>) s)))
         | None \<Rightarrow>
             if (\<forall>p \<in> set [0..<NPROC]. \<not> child p) \<or> p_killed (ptable s me) then Inr (- 1, s)
             else Inl (Blocked (proc_chan me)))"

definition kill :: "int \<Rightarrow> 'a procs_scheme \<Rightarrow> int \<times> 'a procs_scheme" where
  "kill pid s =
     (case find (\<lambda>p. int (p_pid (ptable s p)) = pid) [0..<NPROC] of
        None \<Rightarrow> (- 1, s)
      | Some p \<Rightarrow>
          (0, upd_proc p (\<lambda>x. x\<lparr>p_killed := True,
                p_state := if p_state x = SLEEPING then RUNNABLE else p_state x\<rparr>) s))"

section \<open>Open files and their counts\<close>

lemma more_tables:
  fixes s t :: "'a filest_scheme"
  assumes "kmem.more t = kmem.more s"
  shows "ptable t = ptable s \<and> cpu_proc t = cpu_proc s \<and> nextpid t = nextpid s \<and> ftable t = ftable s \<and> icache t = icache s"
  using assms by (cases s, cases t, simp)

text \<open>The descriptors that refer to a file.\<close>

definition file_refs :: "(nat \<Rightarrow> proc) \<Rightarrow> nat \<Rightarrow> (nat \<times> nat) set" where
  "file_refs m f = {(p, fd). p < NPROC \<and> fd < NOFILE \<and> p_ofile (m p) fd = Some f}"

definition files_counted :: "'a filest_scheme \<Rightarrow> bool" where
  "files_counted s \<longleftrightarrow> (\<forall>f. f_ref (ftable s f) = int (card (file_refs (ptable s) f)))"

definition slots_clean :: "(nat \<Rightarrow> proc) \<Rightarrow> bool" where
  "slots_clean m \<longleftrightarrow> (\<forall>p < NPROC. p_state (m p) = UNUSED \<longrightarrow> (\<forall>fd < NOFILE. p_ofile (m p) fd = None))"

lemma finite_file_refs [simp]: "finite (file_refs m f)"
  by (rule finite_subset [of _ "{..<NPROC} \<times> {..<NOFILE}"]) (auto simp: file_refs_def)

lemma file_refs_cong: "(\<And>p. p_ofile (m p) = p_ofile (m' p)) \<Longrightarrow> file_refs m f = file_refs m' f"
  by (simp add: file_refs_def)

lemma card_file_refs_add:
  assumes "np < NPROC" "\<And>p. p \<noteq> np \<Longrightarrow> p_ofile (m' p) = p_ofile (m p)"
    "\<And>fd. fd < NOFILE \<Longrightarrow> p_ofile (m np) fd = None" "\<And>fd. fd < NOFILE \<Longrightarrow> p_ofile (m' np) fd = g fd"
  shows "card (file_refs m' f) = card (file_refs m f) + card {fd \<in> {0..<NOFILE}. g fd = Some f}"
proof -
  let ?new = "Pair np ` {fd \<in> {0..<NOFILE}. g fd = Some f}"
  have "file_refs m' f = file_refs m f \<union> ?new"
  proof (intro set_eqI, clarify)
    fix p fd
    show "(p, fd) \<in> file_refs m' f \<longleftrightarrow> (p, fd) \<in> file_refs m f \<union> ?new"
      using assms(1) assms(2) [of p] assms(3,4) [of fd] by (cases "p = np") (auto simp: file_refs_def)
  qed
  moreover have "file_refs m f \<inter> ?new = {}" using assms(3) by (auto simp: file_refs_def)
  moreover have "card ?new = card {fd \<in> {0..<NOFILE}. g fd = Some f}" by (simp add: card_image inj_on_def)
  ultimately show ?thesis by (simp add: card_Un_disjoint)
qed

lemma dup_ofiles_spec:
  assumes "dup_ofiles is np s = Inr t" "distinct is" "curproc s \<noteq> np"
  shows "ptable t = (ptable s)(np := (ptable s np)\<lparr>p_ofile := \<lambda>i. if i \<in> set is \<and> p_ofile (myproc s) i \<noteq> None
      then p_ofile (myproc s) i else p_ofile (ptable s np) i\<rparr>) \<and>
    (\<forall>f. f_ref (ftable t f) = f_ref (ftable s f) + int (card {i \<in> set is. p_ofile (myproc s) i = Some f})) \<and>
    cpu_proc t = cpu_proc s"
  using assms
proof (induction "is" arbitrary: s)
  case (Cons i "is")
  have card_i: "card {j \<in> set (i # is). g j = Some f} = (if g i = Some f then 1 else 0) + card {j \<in> set is. g j = Some f}"
    for f and g :: "nat \<Rightarrow> nat option"
  proof -
    have "{j \<in> set (i # is). g j = Some f} = (if g i = Some f then insert i else id) {j \<in> set is. g j = Some f}" by auto
    then show ?thesis using Cons.prems(2) by simp
  qed
  show ?case
  proof (cases "p_ofile (myproc s) i")
    case None
    then have "dup_ofiles is np s = Inr t" using Cons.prems(1) by simp
    from Cons.IH [OF this] Cons.prems None show ?thesis unfolding card_i by (auto simp: fun_eq_iff)
  next
    case (Some f)
    then obtain s1 where s1: "filedup f s = Inr s1"
      "dup_ofiles is np (upd_proc np (\<lambda>x. x\<lparr>p_ofile := (p_ofile x)(i := Some f)\<rparr>) s1) = Inr t"
      using Cons.prems(1) by (auto simp: res_simps)
    have "s1 = upd_file f (\<lambda>x. x\<lparr>f_ref := f_ref x + 1\<rparr>) s" using s1(1) by (auto simp: filedup_def split: if_splits)
    with Cons.IH [OF s1(2)] Cons.prems Some show ?thesis unfolding card_i by (auto simp: fun_eq_iff)
  qed
qed simp


lemma dup_ofiles_frame: "dup_ofiles is np s = Inr t \<Longrightarrow> ram t = ram s \<and> icache t = icache s"
  by (induction "is" arbitrary: s) (auto simp: res_simps filedup_def split: option.splits if_splits)

lemma dup_ofiles_total:
  assumes "curproc s \<noteq> np" "\<forall>i \<in> set is. \<forall>f. p_ofile (myproc s) i = Some f \<longrightarrow> 1 \<le> f_ref (ftable s f)"
  shows "\<exists>t. dup_ofiles is np s = Inr t"
  using assms
proof (induction "is" arbitrary: s)
  case (Cons i "is")
  show ?case
  proof (cases "p_ofile (myproc s) i")
    case None
    then show ?thesis using Cons by simp
  next
    case (Some f)
    let ?t = "upd_proc np (\<lambda>x. x\<lparr>p_ofile := (p_ofile x)(i := Some f)\<rparr>) (upd_file f (\<lambda>x. x\<lparr>f_ref := f_ref x + 1\<rparr>) s)"
    have "\<exists>t. dup_ofiles is np ?t = Inr t" by (rule Cons.IH) (use Cons.prems in auto)
    then show ?thesis using Some Cons.prems(2) by (simp add: filedup_def)
  qed
qed simp

lemma find_table: "find P [0..<n] = Some p \<Longrightarrow> p < n \<and> P p"
  by (auto simp: find_Some_iff)

text \<open>A new process: nothing but its entry in the table changes, and that keeps its descriptors.\<close>

lemma allocproc_spec:
  fixes s :: "'a filest_scheme"
  assumes "allocproc s = (r, t)"
  shows "cpu_proc t = cpu_proc s" "ftable t = ftable s" "p_ofile (ptable t q) = p_ofile (ptable s q)"
    "r = Some p \<Longrightarrow> p < NPROC \<and> p_state (ptable s p) = UNUSED \<and> p_pid (ptable t p) = nextpid s \<and>
       p_killed (ptable t p) = p_killed (ptable s p)"
    "r = Some p \<Longrightarrow> q \<noteq> p \<Longrightarrow> ptable t q = ptable s q" "icache t = icache s"
proof -
  let ?f = "find (\<lambda>p. p_state (ptable s p) = UNUSED) [0..<NPROC]"
  note d = assms [unfolded allocproc_def Let_def kalloc_def]
  show "cpu_proc t = cpu_proc s" using d by (cases ?f) (auto split: if_splits)
  show "ftable t = ftable s" "icache t = icache s" using d by (cases ?f, auto split: if_splits)+
  show "p_ofile (ptable t q) = p_ofile (ptable s q)" using d by (cases ?f) (auto split: if_splits)
  assume "r = Some p"
  then have f: "?f = Some p" using d by (cases ?f) (auto split: if_splits)
  show "p < NPROC \<and> p_state (ptable s p) = UNUSED \<and> p_pid (ptable t p) = nextpid s \<and>
       p_killed (ptable t p) = p_killed (ptable s p)"
    using d f find_table [OF f] \<open>r = Some p\<close> by (auto split: if_splits)
  show "q \<noteq> p \<Longrightarrow> ptable t q = ptable s q" using d f \<open>r = Some p\<close> by (auto split: if_splits)
qed

text \<open>The kernel stack of the new process is the first free page.\<close>

lemma allocproc_memory:
  fixes s :: "'a procs_scheme"
  assumes "free_pages s ps" "allocproc s = (Some p, t)"
  obtains k qs where "ps = k # qs" "free_pages t qs" "ram t = ram s" "kend t = kend s" "kdata t = kdata s"
proof -
  let ?s = "upd_proc p (\<lambda>x. x\<lparr>p_state := EMBRYO, p_pid := nextpid s\<rparr>) (s\<lparr>nextpid := nextpid s + 1\<rparr>)"
  have "free_pages ?s ps" using assms(1) kpage_cong [of ?s s] by (simp add: free_pages_def)
  note k = kalloc_free_pages [OF this]
  have f: "find (\<lambda>p. p_state (ptable s p) = UNUSED) [0..<NPROC] = Some p"
    using assms(2) by (auto simp: allocproc_def Let_def split: option.splits if_splits prod.splits)
  note a = assms(2) [unfolded allocproc_def f option.case Let_def case_prod_beta]
  have "fst (kalloc ?s) \<noteq> 0" using a by (auto split: if_splits)
  then obtain q qs where ps: "ps = q # qs" using k by (cases ps) auto
  have t: "ram t = ram (snd (kalloc ?s))" "kend t = kend (snd (kalloc ?s))" "kdata t = kdata (snd (kalloc ?s))"
    "freelist t = freelist (snd (kalloc ?s))" using a by (auto split: if_splits)
  have k': "free_pages (snd (kalloc ?s)) qs" "snd (kalloc ?s) = ?s\<lparr>freelist := freelist (snd (kalloc ?s))\<rparr>" using k ps by auto
  have "free_pages t qs" using k'(1) t kpage_cong [of t "snd (kalloc ?s)"] by (simp add: free_pages_def)
  moreover have "ram t = ram s" "kend t = kend s" "kdata t = kdata s" unfolding t by (subst k'(2), simp)+
  ultimately show thesis using that ps by blast
qed

lemma allocproc_succeeds:
  fixes s :: "'a procs_scheme"
  assumes "free_pages s ps" "ps \<noteq> []" "\<exists>p < NPROC. p_state (ptable s p) = UNUSED"
  shows "\<exists>p t. allocproc s = (Some p, t)"
proof -
  obtain p where p: "find (\<lambda>p. p_state (ptable s p) = UNUSED) [0..<NPROC] = Some p"
    using assms(3) by (cases "find (\<lambda>p. p_state (ptable s p) = UNUSED) [0..<NPROC]") (auto simp: find_None_iff)
  have "freelist s \<noteq> 0" using assms(1,2) by (cases ps) (auto simp: free_pages_def)
  then show ?thesis using p by (simp add: allocproc_def Let_def kalloc_def)
qed

lemma user_space_alloc:
  assumes "user_space s pgdir sz (k # qs)" "free_pages t qs" "ram t = ram s" "kend t = kend s"
  shows "user_space t pgdir sz qs"
  using assms kpage_cong [OF assms(4)] unfolding user_space_def by auto

text \<open>What \<open>fork\<close> and \<open>clone\<close> do to the tables, when they make a child and when they do not.\<close>

lemma fork_fails:
  assumes "fork s = Inr (- 1, t)"
  shows "ftable t = ftable s" "p_ofile (ptable t q) = p_ofile (ptable s q)"
proof -
  obtain r s1 where a: "allocproc s = (r, s1)" by fastforce
  note a' = allocproc_spec [OF a]
  have "ftable t = ftable s1 \<and> p_ofile (ptable t q) = p_ofile (ptable s1 q)"
  proof (cases r)
    case None
    then show ?thesis using assms a by (simp add: fork_def)
  next
    case (Some np)
    then show ?thesis using assms a
      by (auto simp: fork_def Let_def res_simps split: if_splits option.splits dest!: copyuvm_more kfree_more more_tables)
  qed
  then show "ftable t = ftable s" "p_ofile (ptable t q) = p_ofile (ptable s q)" using a' by simp_all
qed


lemma fork_child:
  assumes "fork s = Inr (r, t)" "r \<noteq> - 1" "p_state (myproc s) \<noteq> UNUSED"
  obtains np s1 s2 cwd where "np < NPROC" "p_state (ptable s np) = UNUSED" "r = int (nextpid s)" "p_pid (ptable t np) = nextpid s"
    "p_state (ptable t np) = RUNNABLE" "p_parent (ptable t np) = Some (curproc s)"
    "p_tf (ptable t np) = (p_tf (myproc s))\<lparr>tf_eax := 0\<rparr>" "p_killed (ptable t np) = p_killed (ptable s np)"
    "\<And>q. q \<noteq> np \<Longrightarrow> ptable t q = ptable s q"
    "p_ofile (ptable t np) = (\<lambda>i. if i < NOFILE \<and> p_ofile (myproc s) i \<noteq> None then p_ofile (myproc s) i else p_ofile (ptable s np) i)"
    "\<And>f. f_ref (ftable t f) = f_ref (ftable s f) + int (card {i \<in> {0..<NOFILE}. p_ofile (myproc s) i = Some f})"
    "p_sz (ptable t np) = p_sz (myproc s)" "p_name (ptable t np) = name16 (p_name (myproc s))"
    "p_cwd (myproc s) = Some cwd" "p_cwd (ptable t np) = Some cwd"
    "icache t = (icache s)(cwd := (icache s cwd)\<lparr>i_ref := i_ref (icache s cwd) + 1\<rparr>)"
    "allocproc s = (Some np, s1)" "copyuvm (p_pgdir (myproc s)) (p_sz (myproc s)) s1 = Inr (p_pgdir (ptable t np), s2)"
    "p_pgdir (ptable t np) \<noteq> 0" "ram t = ram s2"
proof -
  obtain ro s1 where a: "allocproc s = (ro, s1)" by fastforce
  note a' = allocproc_spec [OF a]
  obtain np where np: "ro = Some np" using assms(1,2) a by (cases ro) (auto simp: fork_def)
  have ne: "curproc s \<noteq> np" using a'(4) [OF np] assms(3) by auto
  have me: "ptable s1 (curproc s) = myproc s" using a'(5) [OF np ne] .
  from assms(1,2) a np obtain pgdir s2 where c: "copyuvm (p_pgdir (myproc s)) (p_sz (myproc s)) s1 = Inr (pgdir, s2)" "pgdir \<noteq> 0"
    by (auto simp: fork_def Let_def res_simps me split: if_splits)
  note m = more_tables [OF copyuvm_more [OF c(1)]]
  define s3 where "s3 = upd_proc np (\<lambda>x. x\<lparr>p_sz := p_sz (myproc s), p_parent := Some (curproc s),
    p_tf := (p_tf (myproc s))\<lparr>tf_eax := 0\<rparr>\<rparr>) (upd_proc np (\<lambda>x. x\<lparr>p_pgdir := pgdir\<rparr>) s2)"
  from assms(1) a np c m ne me obtain s4 cwd where
    d: "dup_ofiles [0..<NOFILE] np s3 = Inr s4" "p_cwd (ptable s4 (curproc s)) = Some cwd" and
    t: "r = int (p_pid (ptable s4 np))" "t = upd_proc np (\<lambda>x. x\<lparr>p_state := RUNNABLE\<rparr>)
      (upd_proc np (\<lambda>x. x\<lparr>p_cwd := Some cwd, p_name := name16 (p_name (ptable s4 (curproc s)))\<rparr>) (idup cwd s4))"
    by (auto simp: fork_def Let_def res_simps s3_def idup_def split: if_splits option.splits)
  have c3: "cpu_proc s3 = cpu_proc s" "ptable s3 (curproc s) = myproc s" using m a'(1) ne me by (simp_all add: s3_def)
  have "curproc s3 \<noteq> np" using c3 ne by simp
  note o = dup_ofiles_spec [OF d(1) distinct_upt this, unfolded c3]
  show thesis
  proof (rule that [of np cwd s1 s2])
    show "np < NPROC" "p_state (ptable s np) = UNUSED" using a'(4) [OF np] by auto
    show "r = int (nextpid s)" "p_pid (ptable t np) = nextpid s" "p_state (ptable t np) = RUNNABLE"
      "p_parent (ptable t np) = Some (curproc s)" "p_tf (ptable t np) = (p_tf (myproc s))\<lparr>tf_eax := 0\<rparr>"
      "p_killed (ptable t np) = p_killed (ptable s np)"
      using t o m a'(4) [OF np] by (simp_all add: idup_def s3_def)
    show "ptable t q = ptable s q" if "q \<noteq> np" for q
      using t o m a'(5) [OF np that] that by (simp add: idup_def s3_def)
    show "p_ofile (ptable t np) = (\<lambda>i. if i < NOFILE \<and> p_ofile (myproc s) i \<noteq> None then p_ofile (myproc s) i else p_ofile (ptable s np) i)"
      using t o m a'(3) [of np] by (simp add: idup_def s3_def cong: if_cong)
    show "f_ref (ftable t f) = f_ref (ftable s f) + int (card {i \<in> {0..<NOFILE}. p_ofile (myproc s) i = Some f})" for f
      using t o m a'(2) by (simp add: idup_def s3_def)
    show "p_sz (ptable t np) = p_sz (myproc s)" "p_name (ptable t np) = name16 (p_name (myproc s))"
      "p_cwd (myproc s) = Some cwd" "p_cwd (ptable t np) = Some cwd"
      using t o m d(2) c3 ne me by (simp_all add: idup_def s3_def)
    have e: "p_pgdir (ptable t np) = pgdir" using t o by (simp add: idup_def s3_def)
    show "allocproc s = (Some np, s1)" "copyuvm (p_pgdir (myproc s)) (p_sz (myproc s)) s1 = Inr (p_pgdir (ptable t np), s2)"
      "p_pgdir (ptable t np) \<noteq> 0" using a np c e by simp_all
    show "ram t = ram s2" "icache t = (icache s)(cwd := (icache s cwd)\<lparr>i_ref := i_ref (icache s cwd) + 1\<rparr>)"
      using t dup_ofiles_frame [OF d(1)] m a'(6) by (simp_all add: idup_def s3_def)
  qed
qed


lemma clone_child:
  assumes "clone stack len s = Inr (r, t)" "r \<noteq> - 1" "p_state (myproc s) \<noteq> UNUSED"
  shows "\<exists>np < NPROC. p_state (ptable s np) = UNUSED \<and> ftable t = ftable s \<and> (\<forall>q. q \<noteq> np \<longrightarrow> ptable t q = ptable s q) \<and>
    (\<forall>fd < NOFILE. p_ofile (ptable t np) fd = p_ofile (myproc s) fd)"
proof -
  obtain ro s1 where a: "allocproc s = (ro, s1)" by fastforce
  note a' = allocproc_spec [OF a]
  obtain np where np: "ro = Some np" using assms(1,2) a by (cases ro) (auto simp: clone_def)
  have ne: "curproc s \<noteq> np" using a'(4) [OF np] assms(3) by auto
  have me: "ptable s1 (curproc s) = myproc s" using a'(5) [OF np ne] .
  show ?thesis
    by (rule exI [of _ np]) (insert assms(1) a np me a'; auto simp: clone_def Let_def)
qed

section \<open>Properties\<close>

text \<open>A kernel with one process, which has a file open.\<close>

definition ex_kernel :: filest where
  "ex_kernel = \<lparr>ram = (\<lambda>_. 0), freelist = 0x80200000, use_lock = True, kend = 0x80100000, kpgdir = 0, cr3 = 0, tss_esp0 = 0, kdata = 0,
     ptable = (\<lambda>_. ex_proc\<lparr>p_state := UNUSED, p_pid := 0, p_ofile := \<lambda>_. None\<rparr>)
       (0 := ex_proc\<lparr>p_state := RUNNING, p_pid := 1, p_kstack := 0x80300000, p_pgdir := 0x80400000, p_sz := 0x1000,
         p_ofile := (\<lambda>_. None)(0 := Some 0), p_cwd := Some 0\<rparr>),
     nextpid = 2, initproc = Some 0, cpu_proc = Some 0, disk = ex_disk, disksize = 1000, writes = [], bufs = (\<lambda>_. zero_buf),
     log_start = 2, log_size = 30, outstanding = 0, committing = False, log_dev = 1, lh = [],
     sb = sb_of (ex_disk 1), icache = (\<lambda>_. \<lparr>i_dev = 1, i_inum = 1, i_ref = 1, i_lock = initsleeplock, i_valid = False, i_dinode = zero_dinode\<rparr>),
     panicked = False, cons_locking = True, uart = True, serial = [], crtc14 = 0, crtc15 = 0, crt = (\<lambda>_. 0),
     input_buf = (\<lambda>_. 0), input_r = 0, input_w = 0, input_e = 0, devsw = (\<lambda>_. None),
     ftable = (\<lambda>f. \<lparr>f_type = FD_NONE, f_ref = (if f = 0 then 1 else 0), f_readable = True, f_writable = True, f_pipe = 0, f_ip = Some 0, f_off = 0\<rparr>),
     pipes = (\<lambda>_. \<lparr>pi_data = (\<lambda>_. 0), nread = 0, nwrite = 0, readopen = False, writeopen = False\<rparr>)\<rparr>"

lemma ex_kernel_facts:
  "files_counted ex_kernel" "slots_clean (ptable ex_kernel)" "p_state (myproc ex_kernel) = RUNNING"
  "find (\<lambda>p. p_state (ptable ex_kernel p) = UNUSED) [0..<NPROC] = Some 1"
proof -
  have "file_refs (ptable ex_kernel) f = (if f = 0 then {(0, 0)} else {})" for f
    by (auto simp: file_refs_def ex_kernel_def split: if_splits)
  then show "files_counted ex_kernel" by (simp add: files_counted_def) (simp add: ex_kernel_def)
  show "slots_clean (ptable ex_kernel)" by (simp add: slots_clean_def ex_kernel_def)
  show "p_state (myproc ex_kernel) = RUNNING" by (simp add: ex_kernel_def)
  have "[0..<NPROC] = 0 # 1 # [2..<NPROC]" by (simp add: upt_conv_Cons)
  then show "find (\<lambda>p. p_state (ptable ex_kernel p) = UNUSED) [0..<NPROC] = Some 1"
    by (simp add: ex_kernel_def)
qed

lemma fork_counts:
  assumes "files_counted s" "slots_clean (ptable s)" "p_state (myproc s) \<noteq> UNUSED" "fork s = Inr (r, t)"
  shows "files_counted t"
proof (cases "r = - 1")
  case True
  have "file_refs (ptable t) f = file_refs (ptable s) f" for f
    using fork_fails(2) [of s t] assms(4) True by (intro file_refs_cong) simp
  then show ?thesis using fork_fails(1) [of s t] assms(1,4) True by (simp add: files_counted_def)
next
  case False
  show ?thesis
  proof (rule fork_child [OF assms(4) False assms(3)])
    fix np
    assume np: "np < NPROC" "p_state (ptable s np) = UNUSED" "\<And>q. q \<noteq> np \<Longrightarrow> ptable t q = ptable s q"
      "p_ofile (ptable t np) = (\<lambda>i. if i < NOFILE \<and> p_ofile (myproc s) i \<noteq> None then p_ofile (myproc s) i else p_ofile (ptable s np) i)"
      "\<And>f. f_ref (ftable t f) = f_ref (ftable s f) + int (card {i \<in> {0..<NOFILE}. p_ofile (myproc s) i = Some f})"
    have e: "p_ofile (ptable s np) fd = None" if "fd < NOFILE" for fd using assms(2) np(1,2) that by (simp add: slots_clean_def)
    then have o: "p_ofile (ptable t np) fd = p_ofile (myproc s) fd" if "fd < NOFILE" for fd using that by (simp add: np(4))
    have "card (file_refs (ptable t) f) = card (file_refs (ptable s) f) + card {i \<in> {0..<NOFILE}. p_ofile (myproc s) i = Some f}" for f
      by (rule card_file_refs_add [OF np(1)]) (simp_all add: np(3) e o)
    then show ?thesis using assms(1) np(5) by (simp add: files_counted_def)
  qed
qed

lemma fork_copies:
  assumes "slots_clean (ptable s)" "p_state (myproc s) \<noteq> UNUSED" "p_cwd (myproc s) = Some cwd"
    "user_space s (p_pgdir (myproc s)) (p_sz (myproc s)) ps" "kdata_ok s" "fork s = Inr (r, t)"
  shows "r = - 1 \<or> (\<exists>np < NPROC. p_state (ptable s np) = UNUSED \<and> r = int (nextpid s) \<and> p_pid (ptable t np) = nextpid s \<and>
    p_state (ptable t np) = RUNNABLE \<and> p_parent (ptable t np) = Some (curproc s) \<and>
    p_tf (ptable t np) = (p_tf (myproc s))\<lparr>tf_eax := 0\<rparr> \<and> p_sz (ptable t np) = p_sz (myproc s) \<and>
    p_name (ptable t np) = name16 (p_name (myproc s)) \<and> p_cwd (ptable t np) = Some cwd \<and>
    icache t = (icache s)(cwd := (icache s cwd)\<lparr>i_ref := i_ref (icache s cwd) + 1\<rparr>) \<and>
    (\<forall>fd < NOFILE. p_ofile (ptable t np) fd = p_ofile (myproc s) fd) \<and>
    memory_copied (ram s) (p_pgdir (myproc s)) (p_sz (myproc s)) (ram t) (p_pgdir (ptable t np)) \<and>
    (\<forall>q. q \<noteq> np \<longrightarrow> ptable t q = ptable s q))"
proof (cases "r = - 1")
  case False
  show ?thesis
  proof (rule fork_child [OF assms(6) False assms(2)])
    fix np s1 s2 c
    assume np: "np < NPROC" "p_state (ptable s np) = UNUSED"
      and o: "p_ofile (ptable t np) = (\<lambda>i. if i < NOFILE \<and> p_ofile (myproc s) i \<noteq> None then p_ofile (myproc s) i else p_ofile (ptable s np) i)"
      and m: "allocproc s = (Some np, s1)" "copyuvm (p_pgdir (myproc s)) (p_sz (myproc s)) s1 = Inr (p_pgdir (ptable t np), s2)"
        "p_pgdir (ptable t np) \<noteq> 0" "ram t = ram s2"
      and c: "p_cwd (myproc s) = Some c" "p_cwd (ptable t np) = Some c"
        "icache t = (icache s)(c := (icache s c)\<lparr>i_ref := i_ref (icache s c) + 1\<rparr>)"
      and r: "r = int (nextpid s)" "p_pid (ptable t np) = nextpid s" "p_state (ptable t np) = RUNNABLE"
        "p_parent (ptable t np) = Some (curproc s)" "p_tf (ptable t np) = (p_tf (myproc s))\<lparr>tf_eax := 0\<rparr>"
        "p_sz (ptable t np) = p_sz (myproc s)" "p_name (ptable t np) = name16 (p_name (myproc s))"
        "\<And>q. q \<noteq> np \<Longrightarrow> ptable t q = ptable s q"
    obtain k qs where k: "ps = k # qs" "free_pages s1 qs" "ram s1 = ram s" "kend s1 = kend s" "kdata s1 = kdata s"
      using allocproc_memory [OF user_spaceD(1) [OF assms(4)] m(1)] by metis
    have "kdata_ok s1" using assms(5) k(5) by (simp add: kdata_ok_def)
    from copyuvm_copies [OF user_space_alloc [OF assms(4)[unfolded k(1)] k(2-4)] this] m(2,3)
    have "memory_copied (ram s) (p_pgdir (myproc s)) (p_sz (myproc s)) (ram t) (p_pgdir (ptable t np))"
      using k(3) m(4) by auto
    moreover have "p_ofile (ptable t np) fd = p_ofile (myproc s) fd" if "fd < NOFILE" for fd
      using that assms(1) np unfolding o by (simp add: slots_clean_def)
    moreover have "c = cwd" using c(1) assms(3) by simp
    ultimately show ?thesis using np r c by blast
  qed
qed simp

lemma fork_succeeds:
  fixes s :: "'a filest_scheme"
  assumes "files_counted s" "p_state (myproc s) \<noteq> UNUSED" "curproc s < NPROC" "p_cwd (myproc s) = Some cwd"
    "user_space s (p_pgdir (myproc s)) (p_sz (myproc s)) ps" "kdata_ok s" "\<exists>np < NPROC. p_state (ptable s np) = UNUSED"
    "1026 + (unat (p_sz (myproc s)) + 4095) div 4096 \<le> length ps"
  shows "\<exists>r t. fork s = Inr (r, t) \<and> r \<noteq> - 1"
proof -
  note F = user_spaceD(1) [OF assms(5)]
  have "ps \<noteq> []" using assms(8) by auto
  from allocproc_succeeds [OF F this assms(7)] obtain np s1 where a: "allocproc s = (Some np, s1)" by blast
  note a' = allocproc_spec [OF a]
  obtain k qs where k: "ps = k # qs" "free_pages s1 qs" "ram s1 = ram s" "kend s1 = kend s" "kdata s1 = kdata s"
    using allocproc_memory [OF F a] by metis
  have ne: "curproc s \<noteq> np" using a'(4) [OF refl] assms(2) by auto
  have me: "ptable s1 (curproc s) = myproc s" using a'(5) [OF refl ne] .
  have "kdata_ok s1" using assms(6) k(5) by (simp add: kdata_ok_def)
  from copyuvm_copies [OF user_space_alloc [OF assms(5)[unfolded k(1)] k(2-4)] this] assms(8) k(1)
  obtain d s2 where d: "copyuvm (p_pgdir (myproc s)) (p_sz (myproc s)) s1 = Inr (d, s2)" "d \<noteq> 0" by auto
  note m = more_tables [OF copyuvm_more [OF d(1)]]
  define s3 where "s3 = upd_proc np (\<lambda>x. x\<lparr>p_sz := p_sz (myproc s), p_parent := Some (curproc s),
    p_tf := (p_tf (myproc s))\<lparr>tf_eax := 0\<rparr>\<rparr>) (upd_proc np (\<lambda>x. x\<lparr>p_pgdir := d\<rparr>) s2)"
  have c3: "cpu_proc s3 = cpu_proc s" "ptable s3 (curproc s) = myproc s" "ftable s3 = ftable s"
    using m a'(1,2) ne me by (simp_all add: s3_def)
  have "1 \<le> f_ref (ftable s f)" if "i < NOFILE" "p_ofile (myproc s) i = Some f" for i f
  proof -
    have "(curproc s, i) \<in> file_refs (ptable s) f" using that assms(3) by (simp add: file_refs_def)
    then have "0 < card (file_refs (ptable s) f)" by (auto simp: card_gt_0_iff)
    then show ?thesis using assms(1) by (simp add: files_counted_def)
  qed
  then have "\<exists>s4. dup_ofiles [0..<NOFILE] np s3 = Inr s4" using c3 ne by (intro dup_ofiles_total) simp_all
  then obtain s4 where s4: "dup_ofiles [0..<NOFILE] np s3 = Inr s4" by blast
  have "curproc s3 \<noteq> np" using c3 ne by simp
  note o = dup_ofiles_spec [OF s4 distinct_upt this, unfolded c3]
  have "p_cwd (ptable s4 (curproc s)) = Some cwd" using o c3(2) ne assms(4) by simp
  then show ?thesis
    using a d s4 m ne me unfolding fork_def by (simp add: Let_def res_simps s3_def)
qed

text \<open>C17: \<open>fork\<close> makes a copy of the calling process. The process table and the file table are consistent (each file's reference
  count is the number of descriptors, of all processes, that refer to it; entries not in use have no open files), the caller
  has a current directory, its memory is well-formed (every page below its size is mapped, and neither its page tables nor its pages are on the
  free list), and the kernel's data begins at a page boundary above its text. Then whatever \<open>fork\<close> returns, the reference counts stay exact. It
  returns -1, or exactly one unused entry of the process table has become a runnable process with a fresh pid that is also the
  result, the caller as its parent, the caller's registers except \<open>%eax\<close>, which is 0, its size, name, current directory (counted once
  more) and descriptors, and a copy of its memory: the same bytes with the same permissions at the same
  addresses, in pages of its own, while the caller's memory stays as it was. It does return the new pid when there is an unused entry and there
  are as many free pages as the stack, the page table and the memory of the child can take.\<close>

theorem fork_counted:
  assumes "files_counted s" "slots_clean (ptable s)" "p_state (myproc s) \<noteq> UNUSED" "curproc s < NPROC"
    "p_cwd (myproc s) = Some cwd" "user_space s (p_pgdir (myproc s)) (p_sz (myproc s)) ps" "kdata_ok s"
  shows "(\<forall>r t. fork s = Inr (r, t) \<longrightarrow> files_counted t \<and>
    (r = - 1 \<or>
      (\<exists>np < NPROC. p_state (ptable s np) = UNUSED \<and> r = int (nextpid s) \<and> p_pid (ptable t np) = nextpid s \<and>
        p_state (ptable t np) = RUNNABLE \<and> p_parent (ptable t np) = Some (curproc s) \<and>
        p_tf (ptable t np) = (p_tf (myproc s))\<lparr>tf_eax := 0\<rparr> \<and> p_sz (ptable t np) = p_sz (myproc s) \<and>
        p_name (ptable t np) = name16 (p_name (myproc s)) \<and> p_cwd (ptable t np) = Some cwd \<and>
        icache t = (icache s)(cwd := (icache s cwd)\<lparr>i_ref := i_ref (icache s cwd) + 1\<rparr>) \<and>
        (\<forall>fd < NOFILE. p_ofile (ptable t np) fd = p_ofile (myproc s) fd) \<and>
        memory_copied (ram s) (p_pgdir (myproc s)) (p_sz (myproc s)) (ram t) (p_pgdir (ptable t np)) \<and>
        (\<forall>q. q \<noteq> np \<longrightarrow> ptable t q = ptable s q)))) \<and>
    ((\<exists>np < NPROC. p_state (ptable s np) = UNUSED) \<and> 1026 + (unat (p_sz (myproc s)) + 4095) div 4096 \<le> length ps \<longrightarrow>
      (\<exists>t. fork s = Inr (int (nextpid s), t)))"
proof (intro conjI allI impI, goal_cases)
  case (1 r t)
  then show ?case by (rule fork_counts [OF assms(1-3)])
next
  case (2 r t)
  then show ?case by (rule fork_copies [OF assms(2,3,5-7)])
next
  case 3
  then show ?case using fork_succeeds [OF assms(1,3-7)] fork_child [OF _ _ assms(3)] by metis
qed

text \<open>
  The kernel with one page of memory mapped for its process, one byte of it set, and with the pages between 4 and 10 megabytes free.
\<close>

definition ex_parent :: filest where
  "ex_parent = ex_kernel\<lparr>ram := (store32 (store32 (\<lambda>_. 0) 0x80200000 0x201007) 0x80201000 0x202007)(0x80202005 := 42),
     freelist := 0, kdata := 0x80102000, ptable := (ptable ex_kernel)(0 := (ptable ex_kernel 0)\<lparr>p_pgdir := 0x80200000\<rparr>)\<rparr>"

definition ex_forking :: filest where
  "ex_forking = (case freerange 0x80400000 0x80A00000 ex_parent of Inl _ \<Rightarrow> ex_parent | Inr s \<Rightarrow> s)"

lemma ex_parent_facts:
  "files_counted ex_parent" "slots_clean (ptable ex_parent)" "p_state (myproc ex_parent) = RUNNING" "curproc ex_parent = 0"
  "p_cwd (myproc ex_parent) = Some 0" "p_pgdir (myproc ex_parent) = 0x80200000" "p_sz (myproc ex_parent) = 0x1000"
  "nextpid ex_parent = 2" "p_ofile (myproc ex_parent) 0 = Some 0" "p_state (ptable ex_parent 1) = UNUSED"
proof -
  have "file_refs (ptable ex_parent) f = file_refs (ptable ex_kernel) f" for f by (rule file_refs_cong) (simp add: ex_parent_def)
  then show "files_counted ex_parent" using ex_kernel_facts(1) by (simp add: files_counted_def) (simp add: ex_parent_def)
  show "slots_clean (ptable ex_parent)" using ex_kernel_facts(2) by (simp add: slots_clean_def ex_parent_def)
qed (simp_all add: ex_parent_def ex_kernel_def)

lemma range_bounds:
  assumes "p \<in> set (range_pages 0x80400000 1536)"
  shows "0x80400000 \<le> unat p" "unat p < 0x80A00000" "unat p mod 4096 = 0"
proof -
  obtain i where i: "i < 1536" "p = 0x80400000 + of_nat (4096 * i)" using assms by (auto simp: range_pages_def)
  then have "unat p = 4096 * (0x80400 + i)" by (simp add: unat_word_ariths unat_of_nat)
  then show "0x80400000 \<le> unat p" "unat p < 0x80A00000" "unat p mod 4096 = 0" using i(1) by simp_all
qed

lemma ex_forking_frees:
  "free_pages ex_forking (rev (range_pages 0x80400000 1536)) \<and> kmem.more ex_forking = kmem.more ex_parent \<and>
   kend ex_forking = 0x80100000 \<and> (\<forall>a. unat a < 0x80400000 \<longrightarrow> ram ex_forking a = ram ex_parent a)"
proof -
  have e: "free_pages ex_parent []" "kend ex_parent = 0x80100000" by (simp_all add: free_pages_def ex_parent_def ex_kernel_def)
  have "kpage ex_parent p" if "p \<in> set (range_pages 0x80400000 1536)" for p
    using range_bounds [OF that] e(2) aligned_unat [of p] by (auto simp: kpage_def V2P_def word_le_nat_alt word_less_nat_alt unat_sub_if')
  then have "list_all (kpage ex_parent) (range_pages 0x80400000 1536)" by (simp add: list_all_iff)
  then have "\<exists>t. freerange_loop 0x80400000 0x80A00000 ex_parent = Inr t \<and> free_pages t (rev (range_pages 0x80400000 1536) @ [])"
    using range_pages_distinct [of 1536 "0x80400000"] by (intro freerange_loop_pages [OF e(1), where n = 1536]) (simp_all add: range_pages_def)
  moreover have "PGROUNDUP 0x80400000 = 0x80400000" by (simp add: PGROUNDUP_def)
  ultimately obtain t where t: "freerange_loop 0x80400000 0x80A00000 ex_parent = Inr t" "ex_forking = t"
    "free_pages t (rev (range_pages 0x80400000 1536))" by (auto simp: ex_forking_def freerange_def)
  show ?thesis using freerange_loop_frame [OF t(1)] t(2,3) e(2) by simp
qed

lemma ex_forking_ptes:
  assumes "va < (0x1000 :: u32)"
  shows "pde_at (ram ex_forking) 0x80200000 (PDX va) = 0x201007" "pte_at (ram ex_forking) 0x80200000 va = 0x202007"
proof -
  have "unat va div 4096 = unat (0 :: u32) div 4096" using assms by (simp add: word_less_nat_alt)
  note z = same_pte [of va 0, THEN iffD2, OF this] same_page(1) [OF this]
  have l: "load32 (ram ex_forking) a = load32 (ram ex_parent) a" if "unat a + 3 < 0x80400000" for a
    using that ex_forking_frees by (intro load32_cong) (simp_all add: unat_word_ariths)
  have p: "pde_at (ram ex_forking) 0x80200000 (PDX 0) = 0x201007"
    by (simp add: pde_at_def entry_def l PDX_def) (simp add: ex_parent_def load32_def store32_def byte_of_def)
  then show "pde_at (ram ex_forking) 0x80200000 (PDX va) = 0x201007" using z(1) by simp
  have "pgtab_of 0x201007 = 0x80201000" by (simp add: pgtab_of_def PTE_ADDR_def P2V_def)
  then show "pte_at (ram ex_forking) 0x80200000 va = 0x202007" unfolding z(2)
    by (simp add: pte_at_def p entry_def l PTX_def present_def) (simp add: ex_parent_def load32_def store32_def byte_of_def)
qed

lemma ex_forking_user: "user_space ex_forking 0x80200000 0x1000 (rev (range_pages 0x80400000 1536))"
proof -
  have n: "p \<notin> set (range_pages 0x80400000 1536)" if "unat p < 0x80400000" for p using range_bounds(1) [of p] that by auto
  have "pgtab_of 0x201007 = 0x80201000" "P2V (PTE_ADDR 0x202007) = 0x80202000" by (simp_all add: pgtab_of_def PTE_ADDR_def P2V_def)
  then show ?thesis using ex_forking_frees
    by (auto simp: user_space_def uframe_def ex_forking_ptes n kpage_def V2P_def present_def)
qed

lemma ex_forking_byte: "ubyte (ram ex_forking) 0x80200000 5 = 42"
proof -
  have "P2V (PTE_ADDR 0x202007) = 0x80202000" by (simp add: PTE_ADDR_def P2V_def)
  then show ?thesis using ex_forking_frees by (simp add: ubyte_def uframe_def ex_forking_ptes(2)) (simp add: ex_parent_def)
qed

theorem fork_counted_witness:
  "\<exists>t np. fork ex_forking = Inr (2, t) \<and> files_counted t \<and> np \<noteq> 0 \<and> p_state (ptable t np) = RUNNABLE \<and>
    p_ofile (ptable t np) 0 = Some 0 \<and> p_sz (ptable t np) = 0x1000 \<and> ubyte (ram t) (p_pgdir (ptable t np)) 5 = 42"
proof -
  note F = ex_forking_frees
  have m: "ptable ex_forking = ptable ex_parent" "cpu_proc ex_forking = cpu_proc ex_parent" "nextpid ex_forking = nextpid ex_parent"
    "ftable ex_forking = ftable ex_parent" using F more_tables [of ex_forking ex_parent] by auto
  have k: "kdata_ok ex_forking" using more_fields [of ex_forking ex_parent] F by (simp add: kdata_ok_def ex_parent_def P2V_def)
  have h: "files_counted ex_forking" "slots_clean (ptable ex_forking)" "p_state (myproc ex_forking) \<noteq> UNUSED" "curproc ex_forking < NPROC"
    "p_cwd (myproc ex_forking) = Some 0"
    "user_space ex_forking (p_pgdir (myproc ex_forking)) (p_sz (myproc ex_forking)) (rev (range_pages 0x80400000 1536))"
    using ex_parent_facts(1-7) ex_forking_user m by (simp_all add: files_counted_def)
  note c = fork_counted [OF h k]
  have "\<exists>np < NPROC. p_state (ptable ex_forking np) = UNUSED" using ex_parent_facts(10) m(1) by (intro exI [of _ 1]) simp
  moreover have "1026 + (unat (p_sz (myproc ex_forking)) + 4095) div 4096 \<le> length (rev (range_pages 0x80400000 1536))"
    using ex_parent_facts(7) m by (simp add: range_pages_def)
  ultimately have "\<exists>t. fork ex_forking = Inr (int (nextpid ex_forking), t)" using c [THEN conjunct2] by blast
  then obtain t where t: "fork ex_forking = Inr (2, t)" using ex_parent_facts(8) m(3) by auto
  from c [THEN conjunct1, rule_format, OF t] obtain np where np: "files_counted t" "p_state (ptable ex_forking np) = UNUSED"
    "p_state (ptable t np) = RUNNABLE" "p_sz (ptable t np) = p_sz (myproc ex_forking)"
    "\<forall>fd < NOFILE. p_ofile (ptable t np) fd = p_ofile (myproc ex_forking) fd"
    "memory_copied (ram ex_forking) (p_pgdir (myproc ex_forking)) (p_sz (myproc ex_forking)) (ram t) (p_pgdir (ptable t np))" by auto
  have "ubyte (ram t) (p_pgdir (ptable t np)) 5 = ubyte (ram ex_forking) 0x80200000 5"
    using np(6) ex_parent_facts(6,7) m by (simp add: memory_copied_def)
  moreover have "p_state (ptable ex_forking 0) = RUNNING" using ex_parent_facts(3,4) m(1) by simp
  then have "np \<noteq> 0" using np(2) by (cases np) simp_all
  ultimately show ?thesis using t np(1,3-5) ex_forking_byte ex_parent_facts(7,9) m(1,2) by auto
qed

text \<open>C37: \<open>clone\<close> copies the creator's descriptors without counting them: after it, a file that the creator has
  open has more descriptors than its reference count says. The creator can close the file and the entry of
  the file table is free for another file while the thread still refers to it.\<close>

theorem clone_uncounted:
  assumes "files_counted s" "slots_clean (ptable s)" "p_state (myproc s) \<noteq> UNUSED" "clone stack len s = Inr (r, t)" "r \<noteq> - 1"
    "fd < NOFILE" "p_ofile (myproc s) fd = Some f"
  shows "f_ref (ftable t f) < int (card (file_refs (ptable t) f))"
proof -
  obtain np where np: "np < NPROC" "p_state (ptable s np) = UNUSED" "ftable t = ftable s"
    "\<And>q. q \<noteq> np \<Longrightarrow> ptable t q = ptable s q" "\<And>fd. fd < NOFILE \<Longrightarrow> p_ofile (ptable t np) fd = p_ofile (myproc s) fd"
    using clone_child [OF assms(4,5,3)] by auto
  have e: "p_ofile (ptable s np) fd = None" if "fd < NOFILE" for fd using assms(2) np(1,2) that by (simp add: slots_clean_def)
  have "card (file_refs (ptable t) f) = card (file_refs (ptable s) f) + card {i \<in> {0..<NOFILE}. p_ofile (myproc s) i = Some f}"
    by (rule card_file_refs_add [OF np(1)]) (simp_all add: np(4,5) e)
  moreover have "fd \<in> {i \<in> {0..<NOFILE}. p_ofile (myproc s) i = Some f}" using assms(6,7) by simp
  then have "card {i \<in> {0..<NOFILE}. p_ofile (myproc s) i = Some f} > 0" by (auto simp: card_gt_0_iff)
  ultimately show ?thesis using assms(1) np(3) by (simp add: files_counted_def)
qed

theorem clone_uncounted_witness:
  "\<exists>r t. clone 0x2000 0x1000 ex_kernel = Inr (r, t) \<and> f_ref (ftable t 0) < int (card (file_refs (ptable t) 0))"
proof -
  have "load32 (\<lambda>_. 0) a = 0" for a by (simp add: load32_def)
  then have "\<exists>t. clone 0x2000 0x1000 ex_kernel = Inr (2, t)"
    using ex_kernel_facts(4) by (simp add: clone_def allocproc_def Let_def kalloc_def ex_kernel_def)
  then obtain t where t: "clone 0x2000 0x1000 ex_kernel = Inr (2, t)" by blast
  have "p_ofile (myproc ex_kernel) 0 = Some 0" by (simp add: ex_kernel_def)
  then have "f_ref (ftable t 0) < int (card (file_refs (ptable t) 0))"
    using ex_kernel_facts(3) by (intro clone_uncounted [OF ex_kernel_facts(1,2) _ t, of 0]) simp_all
  then show ?thesis using t by blast
qed

text \<open>\<open>kill(0)\<close> finds an unused entry of the process table, whose pid is 0, and reports success. The mark is not
  cleared when the entry is used again: the next process made from it is born killed.\<close>

lemma kill_zero:
  assumes "p < NPROC" "p_state (ptable s p) = UNUSED" "p_pid (ptable s p) = 0"
    "\<forall>q < p. p_state (ptable s q) \<noteq> UNUSED \<and> p_pid (ptable s q) \<noteq> 0" "freelist s \<noteq> 0"
  shows "\<exists>t u. kill 0 s = (0, t) \<and> allocproc t = (Some p, u) \<and> p_killed (ptable u p)"
proof -
  have f: "find P [0..<NPROC] = Some p" if "P p" "\<And>q. q < p \<Longrightarrow> \<not> P q" for P
    using that assms(1) by (auto simp: find_Some_iff intro!: exI [of _ p])
  let ?t = "upd_proc p (\<lambda>x. x\<lparr>p_killed := True, p_state := UNUSED\<rparr>) s"
  have "find (\<lambda>q. int (p_pid (ptable s q)) = 0) [0..<NPROC] = Some p" using assms by (intro f) auto
  then have "kill 0 s = (0, ?t)" using assms(2) by (simp add: kill_def)
  moreover have "find (\<lambda>q. p_state (ptable ?t q) = UNUSED) [0..<NPROC] = Some p" using assms by (intro f) auto
  then have "\<exists>u. allocproc ?t = (Some p, u) \<and> p_killed (ptable u p)"
    using assms(5) by (auto simp: allocproc_def Let_def kalloc_def)
  ultimately show ?thesis by blast
qed

lemma kill_zero_witness:
  "\<exists>t u. kill 0 ex_kernel = (0, t) \<and> allocproc t = (Some 1, u) \<and> p_killed (ptable u 1)"
  by (rule kill_zero) (simp_all add: ex_kernel_def)

section \<open>The scheduler\<close>

text \<open>How many steps of the scheduler it takes at most until process \<open>q\<close> runs.\<close>

fun turns_left :: "nat \<Rightarrow> sched_pc \<Rightarrow> nat" where
  "turns_left q (Scan p) = (if p \<le> q then 2 * (q - p) + 1 else 2 * (NPROC - p) + 2 * q + 2)"
| "turns_left q (Running p) = (if p = q then 0 else if p < q then 2 * (q - p) else 2 * (NPROC - p) + 2 * q + 1)"

fun pc_ok :: "sched_pc \<Rightarrow> bool" where
  "pc_ok (Scan p) \<longleftrightarrow> p \<le> NPROC"
| "pc_ok (Running p) \<longleftrightarrow> p < NPROC"

lemma scheduler_turn:
  assumes "scheduler c d" "q < NPROC" "pc_ok (fst c)" "fst c \<noteq> Running q" "p_state (ptable (snd c) q) = RUNNABLE"
  shows "turns_left q (fst d) < turns_left q (fst c) \<and> pc_ok (fst d)"
  using assms
proof (induction rule: scheduler.induct)
  case (sched_skip p s)
  then have "p \<noteq> q" by auto
  then show ?case using sched_skip by auto
qed auto

lemma turns_left_bounds:
  "q < NPROC \<Longrightarrow> pc_ok c \<Longrightarrow> turns_left q c \<le> 2 * NPROC" "turns_left q c = 0 \<longleftrightarrow> c = Running q"
  by (cases c; auto)+

text \<open>C18: No runnable process is passed over. In any run of the scheduler's loop, whatever the processes and the
  interrupts do to the table in between, a process that stays runnable until it is its turn gets the CPU
  within 128 steps of the loop.\<close>

theorem scheduler_round_robin:
  assumes "\<forall>k < 2 * NPROC. scheduler (c k) (c (Suc k))" "q < NPROC" "pc_ok (fst (c 0))"
    "\<forall>k < 2 * NPROC. p_state (ptable (snd (c k)) q) = RUNNABLE \<or> (\<exists>j \<le> k. fst (c j) = Running q)"
  shows "\<exists>k \<le> 2 * NPROC. fst (c k) = Running q"
proof (rule ccontr)
  assume no: "\<not> ?thesis"
  have "pc_ok (fst (c k)) \<and> turns_left q (fst (c k)) + k \<le> 2 * NPROC" if "k \<le> 2 * NPROC" for k
    using that
  proof (induction k)
    case 0
    then show ?case using assms(2,3) turns_left_bounds(1) by simp
  next
    case (Suc k)
    then have k: "k < 2 * NPROC" "pc_ok (fst (c k))" "turns_left q (fst (c k)) + k \<le> 2 * NPROC" by auto
    then have "fst (c j) \<noteq> Running q" if "j \<le> k" for j using no that by auto
    then have "fst (c k) \<noteq> Running q" "p_state (ptable (snd (c k)) q) = RUNNABLE" using assms(4) k(1) by blast+
    from scheduler_turn [OF _ assms(2) k(2) this] assms(1) k show ?case by fastforce
  qed
  from this [of "2 * NPROC"] have "turns_left q (fst (c (2 * NPROC))) = 0" by simp
  then show False using no turns_left_bounds(2) by blast
qed


text \<open>A run in which all processes are runnable and each gives the CPU back at once.\<close>

definition ex_cpu :: procs where
  "ex_cpu = sched_back \<lparr>ram = (\<lambda>_. 0), freelist = 0, use_lock = True, kend = 0, kpgdir = 0, cr3 = 0, tss_esp0 = 0, kdata = 0,
     ptable = (\<lambda>_. ex_proc\<lparr>p_state := RUNNABLE, p_kstack := 0x80300000, p_pgdir := 0x80400000\<rparr>), nextpid = 65, initproc = Some 0, cpu_proc = None\<rparr>"

definition ex_running :: "nat \<Rightarrow> procs" where
  "ex_running p = (case sched_to p ex_cpu of Inr t \<Rightarrow> t | Inl e \<Rightarrow> ex_cpu)"

definition ex_run :: "nat \<Rightarrow> sched_pc \<times> procs" where
  "ex_run k = (if even k then (Scan (k div 2), ex_cpu) else (Running (k div 2), ex_running (k div 2)))"

lemma ex_run_step: "k < 2 * NPROC \<Longrightarrow> scheduler (ex_run k) (ex_run (Suc k))"
proof (cases "even k")
  case True
  assume "k < 2 * NPROC"
  moreover have "sched_to (k div 2) ex_cpu = Inr (ex_running (k div 2))"
    by (simp add: ex_running_def sched_to_def switchuvm_def ex_cpu_def sched_back_def switchkvm_def)
  ultimately have "scheduler (Scan (k div 2), ex_cpu) (Running (k div 2), ex_running (k div 2))"
    by (intro sched_run) (auto simp: ex_cpu_def sched_back_def switchkvm_def)
  then show ?thesis using True by (simp add: ex_run_def)
next
  case False
  then obtain p where "k = 2 * p + 1" by (metis oddE)
  moreover have "scheduler (Running p, ex_running p) (Scan (p + 1), ex_cpu)"
    unfolding ex_cpu_def by (rule sched_done)
  ultimately show ?thesis by (simp add: ex_run_def)
qed

lemma ex_run_runnable: "p_state (ptable (snd (ex_run k)) 5) = RUNNABLE \<or> (\<exists>j \<le> k. fst (ex_run j) = Running 5)"
proof (cases "k < 11")
  case True
  then have "k div 2 \<noteq> 5 \<or> even k" by presburger
  then show ?thesis
    by (auto simp: ex_run_def ex_running_def sched_to_def switchuvm_def ex_cpu_def sched_back_def switchkvm_def)
next
  case False
  then have "11 \<le> k" "fst (ex_run 11) = Running 5" by (simp_all add: ex_run_def)
  then show ?thesis by blast
qed

theorem scheduler_round_robin_witness:
  "\<exists>c :: nat \<Rightarrow> sched_pc \<times> procs. (\<forall>k < 2 * NPROC. scheduler (c k) (c (Suc k))) \<and> fst (c 0) = Scan 0 \<and>
     (\<exists>k \<le> 2 * NPROC. fst (c k) = Running 5)"
proof (intro exI [of _ ex_run] conjI)
  have z: "fst (ex_run 0) = Scan 0" by (simp add: ex_run_def)
  then show "\<exists>k \<le> 2 * NPROC. fst (ex_run k) = Running 5"
    using ex_run_step ex_run_runnable by (intro scheduler_round_robin) auto
qed (use ex_run_step in \<open>auto simp: ex_run_def\<close>)


section \<open>Memory shared by threads\<close>

lemma more_procs:
  fixes s t :: "'a procs_scheme"
  assumes "kmem.more t = kmem.more s"
  shows "ptable t = ptable s \<and> cpu_proc t = cpu_proc s"
  using assms by (cases s, cases t, simp)

text \<open>C38: Threads share a page table but each keeps a size of its own. When one thread has grown the memory by a
  page with \<open>sbrk\<close>, the same call by another thread of the process maps the page a second time and the kernel
  panics.\<close>

theorem thread_sbrk_panics:
  assumes "cpu_proc s = Some a" "a \<noteq> b" "p_pgdir (ptable s b) = p_pgdir (ptable s a)" "p_sz (ptable s b) = p_sz (ptable s a)"
    "pt_ok s (p_pgdir (ptable s a)) ps" "3 \<le> length ps" "unat (p_sz (ptable s a)) mod 4096 = 0"
    "p_sz (ptable s a) < KERNBASE" "p_sz (ptable s a) + PGSIZE < KERNBASE"
    "\<not> present (pte_at (ram s) (p_pgdir (ptable s a)) (p_sz (ptable s a)))" "p_kstack (ptable s a) \<noteq> 0" "p_pgdir (ptable s a) \<noteq> 0"
  shows "\<exists>t. growproc 4096 s = Inr (0, t) \<and> growproc 4096 (t\<lparr>cpu_proc := Some b\<rparr>) = Inl (Panic ''remap'')"
proof -
  let ?pgdir = "p_pgdir (ptable s a)" and ?sz = "p_sz (ptable s a)"
  obtain p qs where ps: "ps = p # qs" "2 \<le> length qs" using assms(6) by (cases ps) auto
  then have "qs \<noteq> []" by auto
  from allocuvm_page [OF assms(5) [unfolded ps(1)] this assms(7,9,8,10)] ps(2) obtain u rs where
    u: "allocuvm ?pgdir ?sz (?sz + PGSIZE) s = Inr (?sz + PGSIZE, u)" "pt_ok u ?pgdir rs" "present (pte_at (ram u) ?pgdir ?sz)"
    "rs \<noteq> []" by fastforce
  note m = more_procs [OF allocuvm_more [OF u(1)]]
  let ?v = "upd_proc a (\<lambda>x. x\<lparr>p_sz := ?sz + PGSIZE\<rparr>) u"
  let ?t = "?v\<lparr>tss_esp0 := p_kstack (ptable s a) + 4096, cr3 := V2P ?pgdir\<rparr>"
  have "?sz + PGSIZE \<noteq> 0"
    using assms(8) by (auto simp: word_unat_eq_iff word_less_nat_alt unat_word_ariths)
  then have "growproc 4096 s = Inr (0, ?t)"
    using assms(1,11,12) u(1) m by (simp add: growproc_def switchuvm_def)
  moreover have "growproc 4096 (?t\<lparr>cpu_proc := Some b\<rparr>) = Inl (Panic ''remap'')"
  proof -
    obtain q rs' where rs: "rs = q # rs'" using u(4) by (cases rs) auto
    have "pt_ok (?t\<lparr>cpu_proc := Some b\<rparr>) ?pgdir (q # rs')" using u(2) rs by (subst pt_ok_cong [of _ u]) simp_all
    from allocuvm_remap [OF this assms(7,9,8)] u(3) show ?thesis
      using assms(2,3,4) m by (simp add: growproc_def)
  qed
  ultimately show ?thesis by blast
qed

definition ex_threads :: procs where
  "ex_threads = \<lparr>ram = store32 (store32 (\<lambda>_. 0) 0x80200000 0x80201000) 0x80201000 0x80202000, freelist = 0x80200000, use_lock = True,
     kend = 0x80100000, kpgdir = 0, cr3 = 0, tss_esp0 = 0, kdata = 0,
     ptable = (\<lambda>_. ex_proc\<lparr>p_sz := 0x1000, p_kstack := 0x80300000, p_pgdir := 0x80400000\<rparr>), nextpid = 3, initproc = None, cpu_proc = Some 0\<rparr>"

lemma ex_threads_ok:
  "pt_ok ex_threads 0x80400000 [0x80200000, 0x80201000, 0x80202000]"
  "\<not> present (pte_at (ram ex_threads) 0x80400000 va)"
proof -
  have a: "0x80400000 mod PGSIZE = 0" by simp
  have "pde_at (ram ex_threads) 0x80400000 d = 0" if "d < 1024" for d
  proof -
    have "ram ex_threads (entry 0x80400000 d + of_nat k) = 0" if "k < 4" for k
      using unat_entry [OF a \<open>d < 1024\<close> that] by (auto simp: ex_threads_def store32_def word_unat_eq_iff)
    then show ?thesis using load32_bytes [of "ram ex_threads" "entry 0x80400000 d" "\<lambda>_. 0"]
      by (simp add: pde_at_def load32_def)
  qed
  then show "pt_ok ex_threads 0x80400000 [0x80200000, 0x80201000, 0x80202000]" "\<not> present (pte_at (ram ex_threads) 0x80400000 va)"
    using PDX_less [of va]
    by (simp_all add: pt_ok_def free_pages_def kpage_def V2P_def present_def pte_at_def)
      (simp_all add: ex_threads_def load32_def store32_def byte_of_def)
qed

theorem thread_sbrk_panics_witness:
  "\<exists>t. growproc 4096 ex_threads = Inr (0, t) \<and> growproc 4096 (t\<lparr>cpu_proc := Some 1\<rparr>) = Inl (Panic ''remap'')"
proof -
  have f: "cpu_proc ex_threads = Some 0" "ptable ex_threads p = ex_proc\<lparr>p_sz := 0x1000, p_kstack := 0x80300000, p_pgdir := 0x80400000\<rparr>" for p
    by (simp_all add: ex_threads_def)
  show ?thesis
    by (rule thread_sbrk_panics [of _ 0 1 "[0x80200000, 0x80201000, 0x80202000]"]) (simp_all add: f ex_threads_ok)
qed

end
