(* ===== verification/Xv6_Args.thy ===== *)
theory Xv6_Args
  imports Xv6_Proc
begin

text \<open>
  The arguments of system calls (the first half of \<open>syscall.c\<close>). The kernel reads user memory through the page
  table that is loaded; a page that is not there is a page fault in the kernel, on which \<open>trap\<close> panics. The
  result -1 of the C functions is \<open>None\<close> here.
\<close>

section \<open>User memory\<close>

text \<open>The address at which the kernel sees the byte \<open>va\<close> of the current address space.\<close>

definition user_addr :: "u32 \<Rightarrow> 'a vm_scheme \<Rightarrow> u32 res" where
  "user_addr va s =
     (let e = pte_at (ram s) (P2V (cr3 s)) va
      in if present e then Inr (P2V (PTE_ADDR e) + (va AND 0xFFF)) else Inl (Panic ''trap''))"

fun load_user :: "nat \<Rightarrow> u32 \<Rightarrow> 'a vm_scheme \<Rightarrow> byte list res" where
  "load_user 0 va s = Inr []"
| "load_user (Suc n) va s =
     bindR (user_addr va s) (\<lambda>a. bindR (load_user n (va + 1) s) (\<lambda>bs. Inr (ram s a # bs)))"

lemma load_user_word:
  "load_user 4 va s =
     bindR (user_addr va s) (\<lambda>a. bindR (user_addr (va + 1) s) (\<lambda>b. bindR (user_addr (va + 2) s) (\<lambda>c.
     bindR (user_addr (va + 3) s) (\<lambda>d. Inr [ram s a, ram s b, ram s c, ram s d]))))"
  by (simp add: eval_nat_numeral bindR_assoc add.assoc)

fun store_user :: "byte list \<Rightarrow> u32 \<Rightarrow> 'a vm_scheme \<Rightarrow> 'a vm_scheme res" where
  "store_user [] va s = Inr s"
| "store_user (b # bs) va s =
     bindR (user_addr va s) (\<lambda>a. store_user bs (va + 1) (s\<lparr>ram := (ram s)(a := b)\<rparr>))"

text \<open>Little-endian numbers in a list of bytes.\<close>

definition word_bytes :: "u32 \<Rightarrow> byte list" where
  "word_bytes v = map (byte_of v) [0..<4]"

definition word16_at :: "byte list \<Rightarrow> nat \<Rightarrow> nat" where
  "word16_at bs k = unat (bs ! k) + 256 * unat (bs ! (k + 1))"

definition word_at :: "byte list \<Rightarrow> nat \<Rightarrow> u32" where
  "word_at bs k = of_nat (word16_at bs k + 65536 * word16_at bs (k + 2))"

section \<open>Arguments\<close>

definition fetchint :: "u32 \<Rightarrow> 'a procs_scheme \<Rightarrow> u32 option res" where
  "fetchint addr s =
     (if addr \<ge> p_sz (myproc s) \<or> addr + 4 > p_sz (myproc s) then Inr None
      else bindR (load_user 4 addr s) (\<lambda>bs. Inr (Some (word_at bs 0))))"

text \<open>The loop of \<open>fetchstr\<close>, with \<open>n\<close> bytes left before the end of the process: the string up to its NUL.\<close>

fun fetchstr_loop :: "nat \<Rightarrow> u32 \<Rightarrow> 'a procs_scheme \<Rightarrow> byte list option res" where
  "fetchstr_loop 0 p s = Inr None"
| "fetchstr_loop (Suc n) p s =
     bindR (user_addr p s) (\<lambda>a.
       if ram s a = 0 then Inr (Some [])
       else bindR (fetchstr_loop n (p + 1) s) (\<lambda>r. Inr (map_option (Cons (ram s a)) r)))"

definition fetchstr :: "u32 \<Rightarrow> 'a procs_scheme \<Rightarrow> byte list option res" where
  "fetchstr addr s =
     (if addr \<ge> p_sz (myproc s) then Inr None
      else fetchstr_loop (unat (p_sz (myproc s) - addr)) addr s)"

definition argint :: "nat \<Rightarrow> 'a procs_scheme \<Rightarrow> u32 option res" where
  "argint n s = fetchint (tf_esp (p_tf (myproc s)) + 4 + 4 * of_nat n) s"

definition argptr :: "nat \<Rightarrow> int \<Rightarrow> 'a procs_scheme \<Rightarrow> u32 option res" where
  "argptr n len s =
     bindR (argint n s) (\<lambda>r.
       case r of None \<Rightarrow> Inr None
       | Some i \<Rightarrow>
           if len < 0 \<or> i \<ge> p_sz (myproc s) \<or> i + of_int len > p_sz (myproc s) then Inr None
           else Inr (Some i))"

definition argstr :: "nat \<Rightarrow> 'a procs_scheme \<Rightarrow> byte list option res" where
  "argstr n s =
     bindR (argint n s) (\<lambda>r. case r of None \<Rightarrow> Inr None | Some addr \<Rightarrow> fetchstr addr s)"

end
