(* ===== verification/Xv6_Exec.thy ===== *)
theory Xv6_Exec
  imports Xv6_Args
begin

text \<open>
  The program loader (\<open>exec.c\<close>), with \<open>loaduvm\<close> of \<open>vm.c\<close>. The argument strings are given as lists of bytes.
\<close>

section \<open>The executable file\<close>

abbreviation ELF_MAGIC :: u32 where "ELF_MAGIC \<equiv> 0x464C457F"
abbreviation ELF_PROG_LOAD :: u32 where "ELF_PROG_LOAD \<equiv> 1"
abbreviation MAXARG :: nat where "MAXARG \<equiv> 32"

text \<open>The fields of the headers that are used, and where they are in the file.\<close>

record elfhdr =
  e_magic :: u32
  e_entry :: u32
  e_phoff :: u32
  e_phnum :: nat

record proghdr =
  ph_type :: u32
  ph_off :: u32
  ph_vaddr :: u32
  ph_filesz :: u32
  ph_memsz :: u32

definition elfhdr_of :: "byte list \<Rightarrow> elfhdr" where
  "elfhdr_of bs = \<lparr>e_magic = word_at bs 0, e_entry = word_at bs 24, e_phoff = word_at bs 28, e_phnum = word16_at bs 44\<rparr>"

definition proghdr_of :: "byte list \<Rightarrow> proghdr" where
  "proghdr_of bs = \<lparr>ph_type = word_at bs 0, ph_off = word_at bs 4, ph_vaddr = word_at bs 8,
     ph_filesz = word_at bs 16, ph_memsz = word_at bs 20\<rparr>"

definition set_bytes :: "mem \<Rightarrow> u32 \<Rightarrow> byte list \<Rightarrow> mem" where
  "set_bytes m p bs = (\<lambda>a. if unat (a - p) < length bs then bs ! unat (a - p) else m a)"

section \<open>Loading\<close>

text \<open>The loop of \<open>loaduvm\<close>; the number of pages of the address space is enough fuel, as in \<open>copyuvm\<close>.\<close>

fun loaduvm_loop :: "nat \<Rightarrow> u32 \<Rightarrow> u32 \<Rightarrow> nat \<Rightarrow> u32 \<Rightarrow> u32 \<Rightarrow> u32 \<Rightarrow> 'a conss_scheme \<Rightarrow> (int \<times> 'a conss_scheme) res" where
  "loaduvm_loop 0 pgdir addr ip off i sz s = (if i < sz then Inl Fault else Inr (0, s))"
| "loaduvm_loop (Suc k) pgdir addr ip off i sz s =
     (if i < sz
      then let pte = fst (walkpgdir pgdir (addr + i) False s)
           in if pte = 0 then Inl (Panic ''loaduvm: address should exist'')
              else let pa = PTE_ADDR (load32 (ram s) pte);
                       n = (if sz - i < PGSIZE then sz - i else PGSIZE)
                   in bindR (readi ip (unat (off + i)) (unat n) s) (\<lambda>(r, bs, s).
                        let s = s\<lparr>ram := set_bytes (ram s) (P2V pa) bs\<rparr>
                        in if r \<noteq> int (unat n) then Inr (- 1, s)
                           else loaduvm_loop k pgdir addr ip off (i + PGSIZE) sz s)
      else Inr (0, s))"

definition loaduvm :: "u32 \<Rightarrow> u32 \<Rightarrow> nat \<Rightarrow> u32 \<Rightarrow> u32 \<Rightarrow> 'a conss_scheme \<Rightarrow> (int \<times> 'a conss_scheme) res" where
  "loaduvm pgdir addr ip off sz s =
     (if addr mod PGSIZE \<noteq> 0 then Inl (Panic ''loaduvm: addr must be page aligned'')
      else loaduvm_loop npages pgdir addr ip off 0 sz s)"

text \<open>The loop of \<open>exec\<close> over the program headers, with \<open>n\<close> left; \<open>None\<close> is \<open>goto bad\<close>.\<close>

fun exec_load :: "nat \<Rightarrow> u32 \<Rightarrow> nat \<Rightarrow> u32 \<Rightarrow> u32 \<Rightarrow> 'a conss_scheme \<Rightarrow> (u32 option \<times> 'a conss_scheme) res" where
  "exec_load 0 off ip pgdir sz s = Inr (Some sz, s)"
| "exec_load (Suc n) off ip pgdir sz s =
     bindR (readi ip (unat off) 32 s) (\<lambda>(r, bs, s).
       let ph = proghdr_of bs
       in if r \<noteq> 32 then Inr (None, s)
          else if ph_type ph \<noteq> ELF_PROG_LOAD then exec_load n (off + 32) ip pgdir sz s
          else if ph_memsz ph < ph_filesz ph then Inr (None, s)
          else if ph_vaddr ph + ph_memsz ph < ph_vaddr ph then Inr (None, s)
          else bindR (allocuvm pgdir sz (ph_vaddr ph + ph_memsz ph) s) (\<lambda>(sz, s).
            if sz = 0 then Inr (None, s)
            else if ph_vaddr ph mod PGSIZE \<noteq> 0 then Inr (None, s)
            else bindR (loaduvm pgdir (ph_vaddr ph) ip (ph_off ph) (ph_filesz ph) s) (\<lambda>(r, s).
              if r < 0 then Inr (None, s) else exec_load n (off + 32) ip pgdir sz s)))"

section \<open>The stack\<close>

text \<open>\<open>copyout\<close> of bytes that are not in the kernel's part of the memory.\<close>

definition page_part :: "u32 \<Rightarrow> nat \<Rightarrow> nat" where
  "page_part va len = min len (4096 - unat (va AND 0xFFF))"

lemma page_part_pos: "len > 0 \<Longrightarrow> page_part va len > 0"
proof -
  assume "len > 0"
  have "unat (va AND 0xFFF) = unat va mod 4096" by (simp add: and_masks(2) unat_mod_distrib)
  then have "unat (va AND 0xFFF) < 4096" by simp
  with \<open>len > 0\<close> show ?thesis unfolding page_part_def by linarith
qed

function copyout_bytes :: "u32 \<Rightarrow> u32 \<Rightarrow> byte list \<Rightarrow> 'a kmem_scheme \<Rightarrow> (int \<times> 'a kmem_scheme) res" where
  "copyout_bytes pgdir va bs s =
     (if bs = [] then Inr (0, s)
      else let va0 = PGROUNDDOWN va; n = page_part va (length bs)
           in bindR (uva2ka pgdir va0 s) (\<lambda>pa0.
                if pa0 = 0 then Inr (- 1, s)
                else copyout_bytes pgdir (va0 + PGSIZE) (drop n bs)
                       (s\<lparr>ram := set_bytes (ram s) (pa0 + (va - va0)) (take n bs)\<rparr>)))"
  by pat_completeness auto
termination
proof (relation "measure (\<lambda>(pgdir, va, bs, s). length bs)", goal_cases)
  case (2 pgdir va bs s va0 n pa0)
  then show ?case using page_part_pos [of "length bs" va] by simp
qed simp

declare copyout_bytes.simps [simp del]

text \<open>The loop of \<open>exec\<close> over the arguments: the stack pointer and the addresses of the strings pushed.\<close>

fun exec_args :: "byte list list \<Rightarrow> u32 \<Rightarrow> u32 \<Rightarrow> u32 list \<Rightarrow> 'a kmem_scheme \<Rightarrow> ((u32 \<times> u32 list) option \<times> 'a kmem_scheme) res" where
  "exec_args [] pgdir sp ptrs s = Inr (Some (sp, ptrs), s)"
| "exec_args (a # as) pgdir sp ptrs s =
     (if length ptrs \<ge> MAXARG then Inr (None, s)
      else let sp = (sp - of_nat (length a + 1)) AND NOT 3
           in bindR (copyout_bytes pgdir sp (a @ [0]) s) (\<lambda>(r, s).
                if r < 0 then Inr (None, s) else exec_args as pgdir sp (ptrs @ [sp]) s))"

definition last_elem :: "byte list \<Rightarrow> byte list" where
  "last_elem path = rev (takeWhile (\<lambda>c. c \<noteq> slash) (rev path))"

text \<open>The second half of \<open>exec\<close>, after the inode is released.\<close>

definition exec_image :: "byte list \<Rightarrow> byte list list \<Rightarrow> u32 \<Rightarrow> u32 \<Rightarrow> u32 \<Rightarrow> 'a procs_scheme \<Rightarrow> (int \<times> 'a procs_scheme) res" where
  "exec_image path argv pgdir sz start s =
     (let sz = PGROUNDUP sz; bad = (\<lambda>s. bindR (freevm pgdir s) (\<lambda>s. Inr (- 1, s)))
      in bindR (allocuvm pgdir sz (sz + 2 * PGSIZE) s) (\<lambda>(sz, s).
         if sz = 0 then bad s
         else bindR (clearpteu pgdir (sz - 2 * PGSIZE) s) (\<lambda>s.
              bindR (exec_args argv pgdir sz [] s) (\<lambda>(r, s).
              case r of None \<Rightarrow> bad s
              | Some (sp, ptrs) \<Rightarrow>
                  let argc = length ptrs;
                      ustack = [0xFFFFFFFF, of_nat argc, sp - of_nat ((argc + 1) * 4)] @ ptrs @ [0];
                      sp = sp - of_nat ((3 + argc + 1) * 4)
                  in bindR (copyout_bytes pgdir sp (concat (map word_bytes ustack)) s) (\<lambda>(r, s).
                     if r < 0 then bad s
                     else let me = curproc s; oldpgdir = p_pgdir (myproc s);
                              s = upd_proc me (\<lambda>x. x\<lparr>p_name := name16 (last_elem path), p_pgdir := pgdir, p_sz := sz,
                                    p_tf := (p_tf x)\<lparr>tf_eip := start, tf_esp := sp\<rparr>\<rparr>) s
                          in bindR (switchuvm (p_kstack (myproc s)) (p_pgdir (myproc s)) s) (\<lambda>s.
                             bindR (freevm oldpgdir s) (\<lambda>s. Inr (0, s))))))))"

definition exec :: "byte list \<Rightarrow> byte list list \<Rightarrow> 'a conss_scheme \<Rightarrow> (int \<times> 'a conss_scheme) res" where
  "exec path argv s =
     bindR (begin_op s) (\<lambda>s.
     bindR (namei path s) (\<lambda>(ipo, s).
       case ipo of
         None \<Rightarrow> bindR (end_op s) (\<lambda>s. bindR (cprintf (map of_char ''exec: fail\<newline>'') [] s) (\<lambda>s. Inr (- 1, s)))
       | Some ip \<Rightarrow>
           let close = (\<lambda>s. bindR (iunlockput ip s) end_op);
               bad = (\<lambda>pgdir s. bindR (if pgdir \<noteq> 0 then freevm pgdir s else Inr s) (\<lambda>s.
                                bindR (close s) (\<lambda>s. Inr (- 1, s))))
           in bindR (ilock (Some ip) s) (\<lambda>s.
              bindR (readi ip 0 52 s) (\<lambda>(r, bs, s).
              let elf = elfhdr_of bs
              in if r \<noteq> 52 then bad 0 s
                 else if e_magic elf \<noteq> ELF_MAGIC then bad 0 s
                 else bindR (setupkvm s) (\<lambda>(pgdir, s).
                      if pgdir = 0 then bad 0 s
                      else bindR (exec_load (e_phnum elf) (e_phoff elf) ip pgdir 0 s) (\<lambda>(szo, s).
                           case szo of None \<Rightarrow> bad pgdir s
                           | Some sz \<Rightarrow> bindR (close s) (exec_image path argv pgdir sz (e_entry elf))))))))"
section \<open>The loop of loaduvm ends\<close>

lemma loaduvm_loop_fuel:
  fixes s :: "'a conss_scheme"
  shows "unat sz + 4096 \<le> 2 ^ 32 \<Longrightarrow> unat sz \<le> unat i + 4096 * n \<Longrightarrow>
    loaduvm_loop (n + k) pgdir addr ip off i sz s = loaduvm_loop n pgdir addr ip off i sz s"
proof (induction n arbitrary: i s)
  case 0
  then show ?case by (cases k) (auto simp: word_less_nat_alt)
next
  case (Suc n)
  show ?case
  proof (cases "i < sz")
    case True
    have IH: "loaduvm_loop (n + k) pgdir addr ip off (i + PGSIZE) sz t = loaduvm_loop n pgdir addr ip off (i + PGSIZE) sz t"
      for t :: "'a conss_scheme"
      using Suc.IH [OF Suc.prems(1)] Suc.prems(2) next_page [OF True Suc.prems(1)] by simp
    show ?thesis unfolding add_Suc loaduvm_loop.simps IH ..
  qed simp
qed

lemma loaduvm_loop_ends:
  "unat sz + 4096 \<le> 2 ^ 32 \<Longrightarrow> loaduvm_loop (npages + k) pgdir addr ip off i sz s = loaduvm_loop npages pgdir addr ip off i sz s"
  by (rule loaduvm_loop_fuel, assumption, rule trans_le_add2, rule npages_enough)

end
