(* ===== verification/Xv6_Sysfile.thy ===== *)
theory Xv6_Sysfile
  imports Xv6_Exec
begin

text \<open>
  The system calls on files (\<open>sysfile.c\<close>). The result of each is the value for \<open>%eax\<close> and the state.
\<close>

section \<open>Descriptors\<close>

text \<open>The descriptor and the file of an argument.\<close>

definition argfd :: "nat \<Rightarrow> 'a filest_scheme \<Rightarrow> (nat \<times> nat) option res" where
  "argfd n s =
     bindR (argint n s) (\<lambda>r.
       case r of None \<Rightarrow> Inr None
       | Some v \<Rightarrow>
           let fd = sint v
           in if fd < 0 \<or> fd \<ge> int NOFILE then Inr None
              else Inr (map_option (Pair (nat fd)) (p_ofile (myproc s) (nat fd))))"

definition fdalloc :: "nat \<Rightarrow> 'a filest_scheme \<Rightarrow> nat option \<times> 'a filest_scheme" where
  "fdalloc f s =
     (case find (\<lambda>fd. p_ofile (myproc s) fd = None) [0..<NOFILE] of
        Some fd \<Rightarrow> (Some fd, upd_proc (curproc s) (\<lambda>x. x\<lparr>p_ofile := (p_ofile x)(fd := Some f)\<rparr>) s)
      | None \<Rightarrow> (None, s))"

definition sys_dup :: "'a filest_scheme \<Rightarrow> (int \<times> 'a filest_scheme) res" where
  "sys_dup s =
     bindR (argfd 0 s) (\<lambda>r.
       case r of None \<Rightarrow> Inr (- 1, s)
       | Some (_, f) \<Rightarrow>
           (case fdalloc f s of (None, s) \<Rightarrow> Inr (- 1, s)
            | (Some fd, s) \<Rightarrow> bindR (filedup f s) (\<lambda>s. Inr (int fd, s))))"

text \<open>The arguments of \<open>read\<close> and \<open>write\<close>: the file, the number of bytes and the address.\<close>

definition rw_args :: "'a filest_scheme \<Rightarrow> (nat \<times> nat \<times> u32) option res" where
  "rw_args s =
     bindR (argfd 0 s) (\<lambda>r. case r of None \<Rightarrow> Inr None | Some (_, f) \<Rightarrow>
     bindR (argint 2 s) (\<lambda>r. case r of None \<Rightarrow> Inr None | Some n \<Rightarrow>
     bindR (argptr 1 (sint n) s) (\<lambda>r. case r of None \<Rightarrow> Inr None | Some p \<Rightarrow> Inr (Some (f, nat (sint n), p)))))"

definition sys_read :: "'a filest_scheme \<Rightarrow> (int \<times> 'a filest_scheme) res" where
  "sys_read s =
     bindR (rw_args s) (\<lambda>r. case r of None \<Rightarrow> Inr (- 1, s)
       | Some (f, n, p) \<Rightarrow>
           bindR (fileread f n s) (\<lambda>(r, bs, s). bindR (store_user bs p s) (\<lambda>s. Inr (r, s))))"

definition sys_write :: "'a filest_scheme \<Rightarrow> (int \<times> 'a filest_scheme) res" where
  "sys_write s =
     bindR (rw_args s) (\<lambda>r. case r of None \<Rightarrow> Inr (- 1, s)
       | Some (f, n, p) \<Rightarrow>
           bindR (if f_writable (ftable s f) then load_user n p s else Inr []) (\<lambda>bs. filewrite f bs s))"

definition sys_close :: "'a filest_scheme \<Rightarrow> (int \<times> 'a filest_scheme) res" where
  "sys_close s =
     bindR (argfd 0 s) (\<lambda>r. case r of None \<Rightarrow> Inr (- 1, s)
       | Some (fd, f) \<Rightarrow>
           bindR (fileclose f (upd_proc (curproc s) (\<lambda>x. x\<lparr>p_ofile := (p_ofile x)(fd := None)\<rparr>) s)) (\<lambda>s. Inr (0, s)))"

text \<open>The fields of \<open>struct stat\<close>, which has padding after the two shorts.\<close>

definition store_stat :: "stat \<Rightarrow> u32 \<Rightarrow> 'a vm_scheme \<Rightarrow> 'a vm_scheme res" where
  "store_stat st p s =
     bindR (store_user (word_bytes (of_nat (st_dev st))) (p + 4) s) (\<lambda>s.
     bindR (store_user (word_bytes (of_nat (st_ino st))) (p + 8) s) (\<lambda>s.
     bindR (store_user (take 2 (word_bytes (ucast (st_type st)))) p s) (\<lambda>s.
     bindR (store_user (take 2 (word_bytes (ucast (st_nlink st)))) (p + 12) s) (\<lambda>s.
       store_user (word_bytes (of_nat (st_size st))) (p + 16) s))))"

definition sys_fstat :: "'a filest_scheme \<Rightarrow> (int \<times> 'a filest_scheme) res" where
  "sys_fstat s =
     bindR (argfd 0 s) (\<lambda>r. case r of None \<Rightarrow> Inr (- 1, s) | Some (_, f) \<Rightarrow>
     bindR (argptr 1 20 s) (\<lambda>r. case r of None \<Rightarrow> Inr (- 1, s) | Some p \<Rightarrow>
     bindR (filestat f s) (\<lambda>(sto, s). case sto of None \<Rightarrow> Inr (- 1, s)
       | Some st \<Rightarrow> bindR (store_stat st p s) (\<lambda>s. Inr (0, s)))))"

section \<open>Links\<close>

definition fail_op :: "'a conss_scheme \<Rightarrow> (int \<times> 'a conss_scheme) res" where
  "fail_op s = bindR (end_op s) (\<lambda>s. Inr (- 1, s))"

definition sys_link :: "'a conss_scheme \<Rightarrow> (int \<times> 'a conss_scheme) res" where
  "sys_link s =
     bindR (argstr 0 s) (\<lambda>r. case r of None \<Rightarrow> Inr (- 1, s) | Some old \<Rightarrow>
     bindR (argstr 1 s) (\<lambda>r. case r of None \<Rightarrow> Inr (- 1, s) | Some new \<Rightarrow>
     bindR (begin_op s) (\<lambda>s.
     bindR (namei old s) (\<lambda>(ipo, s). case ipo of None \<Rightarrow> fail_op s | Some ip \<Rightarrow>
     bindR (ilock (Some ip) s) (\<lambda>s.
       if d_type (idata ip s) = T_DIR then bindR (iunlockput ip s) fail_op
       else let bad = (\<lambda>s.
                  bindR (ilock (Some ip) s) (\<lambda>s.
                  bindR (iupdate ip (upd_dinode ip (\<lambda>x. x\<lparr>d_nlink := d_nlink x - 1\<rparr>) s)) (\<lambda>s.
                  bindR (iunlockput ip s) fail_op)))
            in bindR (iupdate ip (upd_dinode ip (\<lambda>x. x\<lparr>d_nlink := d_nlink x + 1\<rparr>) s)) (\<lambda>s.
               bindR (iunlock (Some ip) s) (\<lambda>s.
               bindR (nameiparent new s) (\<lambda>(dpo, s). case dpo of None \<Rightarrow> bad s | Some (dp, name) \<Rightarrow>
               bindR (ilock (Some dp) s) (\<lambda>s.
               bindR (if i_dev (icache s dp) \<noteq> i_dev (icache s ip) then Inr (- 1, s)
                      else dirlink dp name (i_inum (icache s ip)) s) (\<lambda>(r, s).
               bindR (iunlockput dp s) (\<lambda>s.
                 if r < 0 then bad s
                 else bindR (iput ip s) (\<lambda>s. bindR (end_op s) (\<lambda>s. Inr (0, s))))))))))))))"

fun isdirempty_from :: "nat \<Rightarrow> nat \<Rightarrow> nat \<Rightarrow> 'a conss_scheme \<Rightarrow> (bool \<times> 'a conss_scheme) res" where
  "isdirempty_from 0 off dp s = Inr (True, s)"
| "isdirempty_from (Suc n) off dp s =
     bindR (readi dp off 16 s) (\<lambda>(r, de, s).
       if r \<noteq> 16 then Inl (Panic ''isdirempty: readi'')
       else if de_inum de \<noteq> 0 then Inr (False, s)
       else isdirempty_from n (off + 16) dp s)"

definition isdirempty :: "nat \<Rightarrow> 'a conss_scheme \<Rightarrow> (bool \<times> 'a conss_scheme) res" where
  "isdirempty dp s = isdirempty_from (entries (d_size (idata dp s)) - 2) 32 dp s"

definition sys_unlink :: "'a conss_scheme \<Rightarrow> (int \<times> 'a conss_scheme) res" where
  "sys_unlink s =
     bindR (argstr 0 s) (\<lambda>r. case r of None \<Rightarrow> Inr (- 1, s) | Some path \<Rightarrow>
     bindR (begin_op s) (\<lambda>s.
     bindR (nameiparent path s) (\<lambda>(dpo, s). case dpo of None \<Rightarrow> fail_op s | Some (dp, name) \<Rightarrow>
     let bad = (\<lambda>s. bindR (iunlockput dp s) fail_op)
     in bindR (ilock (Some dp) s) (\<lambda>s.
        if namecmp (cstr name) (cstr (map of_char ''.'')) = 0 \<or> namecmp (cstr name) (cstr (map of_char ''..'')) = 0 then bad s
        else bindR (dirlookup dp name s) (\<lambda>(r, s). case r of None \<Rightarrow> bad s | Some (ip, off) \<Rightarrow>
             bindR (ilock (Some ip) s) (\<lambda>s.
             if sint (d_nlink (idata ip s)) < 1 then Inl (Panic ''unlink: nlink < 1'')
             else bindR (if d_type (idata ip s) = T_DIR then isdirempty ip s else Inr (True, s)) (\<lambda>(ok, s).
               if \<not> ok then bindR (iunlockput ip s) bad
               else bindR (writei dp off (replicate 16 0) s) (\<lambda>(r, s).
                    if r \<noteq> 16 then Inl (Panic ''unlink: writei'')
                    else bindR (if d_type (idata ip s) = T_DIR
                                then iupdate dp (upd_dinode dp (\<lambda>x. x\<lparr>d_nlink := d_nlink x - 1\<rparr>) s) else Inr s) (\<lambda>s.
                         bindR (iunlockput dp s) (\<lambda>s.
                         bindR (iupdate ip (upd_dinode ip (\<lambda>x. x\<lparr>d_nlink := d_nlink x - 1\<rparr>) s)) (\<lambda>s.
                         bindR (iunlockput ip s) (\<lambda>s.
                         bindR (end_op s) (\<lambda>s. Inr (0, s))))))))))))))"

section \<open>Creation\<close>

definition create :: "byte list \<Rightarrow> u16 \<Rightarrow> u16 \<Rightarrow> u16 \<Rightarrow> 'a conss_scheme \<Rightarrow> (nat option \<times> 'a conss_scheme) res" where
  "create path type major minor s =
     bindR (nameiparent path s) (\<lambda>(dpo, s). case dpo of None \<Rightarrow> Inr (None, s) | Some (dp, name) \<Rightarrow>
     bindR (ilock (Some dp) s) (\<lambda>s.
     bindR (dirlookup dp name s) (\<lambda>(r, s). case r of
       Some (ip, off) \<Rightarrow>
         bindR (iunlockput dp s) (\<lambda>s.
         bindR (ilock (Some ip) s) (\<lambda>s.
           if type = T_FILE \<and> d_type (idata ip s) = T_FILE then Inr (Some ip, s)
           else bindR (iunlockput ip s) (\<lambda>s. Inr (None, s))))
     | None \<Rightarrow>
         bindR (ialloc (i_dev (icache s dp)) type s) (\<lambda>(ip, s).
         bindR (ilock (Some ip) s) (\<lambda>s.
         bindR (iupdate ip (upd_dinode ip (\<lambda>x. x\<lparr>d_major := major, d_minor := minor, d_nlink := 1\<rparr>) s)) (\<lambda>s.
         bindR (if type = T_DIR
                then bindR (iupdate dp (upd_dinode dp (\<lambda>x. x\<lparr>d_nlink := d_nlink x + 1\<rparr>) s)) (\<lambda>s.
                     bindR (dirlink ip (map of_char ''.'') (i_inum (icache s ip)) s) (\<lambda>(r, s).
                       if r < 0 then Inl (Panic ''create dots'')
                       else bindR (dirlink ip (map of_char ''..'') (i_inum (icache s dp)) s) (\<lambda>(r, s).
                            if r < 0 then Inl (Panic ''create dots'') else Inr s)))
                else Inr s) (\<lambda>s.
         bindR (dirlink dp name (i_inum (icache s ip)) s) (\<lambda>(r, s).
           if r < 0 then Inl (Panic ''create: dirlink'')
           else bindR (iunlockput dp s) (\<lambda>s. Inr (Some ip, s))))))))))"

abbreviation O_WRONLY :: u32 where "O_WRONLY \<equiv> 1"
abbreviation O_RDWR :: u32 where "O_RDWR \<equiv> 2"
abbreviation O_CREATE :: u32 where "O_CREATE \<equiv> 0x200"

text \<open>The inode that \<open>open\<close> gives a descriptor to, locked; the mode \<open>O_RDONLY\<close> is 0.\<close>

definition open_inode :: "byte list \<Rightarrow> u32 \<Rightarrow> 'a conss_scheme \<Rightarrow> (nat option \<times> 'a conss_scheme) res" where
  "open_inode path omode s =
     (if omode AND O_CREATE \<noteq> 0 then create path T_FILE 0 0 s
      else bindR (namei path s) (\<lambda>(ipo, s). case ipo of None \<Rightarrow> Inr (None, s) | Some ip \<Rightarrow>
           bindR (ilock (Some ip) s) (\<lambda>s.
             if d_type (idata ip s) = T_DIR \<and> omode \<noteq> 0 then bindR (iunlockput ip s) (\<lambda>s. Inr (None, s))
             else Inr (Some ip, s))))"

definition sys_open :: "'a filest_scheme \<Rightarrow> (int \<times> 'a filest_scheme) res" where
  "sys_open s =
     bindR (argstr 0 s) (\<lambda>r. case r of None \<Rightarrow> Inr (- 1, s) | Some path \<Rightarrow>
     bindR (argint 1 s) (\<lambda>r. case r of None \<Rightarrow> Inr (- 1, s) | Some omode \<Rightarrow>
     bindR (begin_op s) (\<lambda>s.
     bindR (open_inode path omode s) (\<lambda>(ipo, s). case ipo of None \<Rightarrow> fail_op s | Some ip \<Rightarrow>
       case filealloc s of
         (None, s) \<Rightarrow> bindR (iunlockput ip s) fail_op
       | (Some f, s) \<Rightarrow>
           (case fdalloc f s of
              (None, s) \<Rightarrow> bindR (fileclose f s) (\<lambda>s. bindR (iunlockput ip s) fail_op)
            | (Some fd, s) \<Rightarrow>
                bindR (iunlock (Some ip) s) (\<lambda>s.
                bindR (end_op s) (\<lambda>s.
                  Inr (int fd, upd_file f (\<lambda>x. x\<lparr>f_type := FD_INODE, f_ip := Some ip, f_off := 0,
                    f_readable := omode AND O_WRONLY = 0,
                    f_writable := omode AND O_WRONLY \<noteq> 0 \<or> omode AND O_RDWR \<noteq> 0\<rparr>) s))))))))"

definition made :: "nat option \<times> 'a conss_scheme \<Rightarrow> (int \<times> 'a conss_scheme) res" where
  "made = (\<lambda>(ipo, s). case ipo of None \<Rightarrow> fail_op s
     | Some ip \<Rightarrow> bindR (iunlockput ip s) (\<lambda>s. bindR (end_op s) (\<lambda>s. Inr (0, s))))"

definition sys_mkdir :: "'a conss_scheme \<Rightarrow> (int \<times> 'a conss_scheme) res" where
  "sys_mkdir s =
     bindR (begin_op s) (\<lambda>s.
     bindR (argstr 0 s) (\<lambda>r. case r of None \<Rightarrow> fail_op s | Some path \<Rightarrow>
     bindR (create path T_DIR 0 0 s) made))"

definition sys_mknod :: "'a conss_scheme \<Rightarrow> (int \<times> 'a conss_scheme) res" where
  "sys_mknod s =
     bindR (begin_op s) (\<lambda>s.
     bindR (argstr 0 s) (\<lambda>r. case r of None \<Rightarrow> fail_op s | Some path \<Rightarrow>
     bindR (argint 1 s) (\<lambda>r. case r of None \<Rightarrow> fail_op s | Some major \<Rightarrow>
     bindR (argint 2 s) (\<lambda>r. case r of None \<Rightarrow> fail_op s | Some minor \<Rightarrow>
     bindR (create path T_DEV (ucast major) (ucast minor) s) made))))"

definition sys_chdir :: "'a conss_scheme \<Rightarrow> (int \<times> 'a conss_scheme) res" where
  "sys_chdir s =
     bindR (begin_op s) (\<lambda>s.
     bindR (argstr 0 s) (\<lambda>r. case r of None \<Rightarrow> fail_op s | Some path \<Rightarrow>
     bindR (namei path s) (\<lambda>(ipo, s). case ipo of None \<Rightarrow> fail_op s | Some ip \<Rightarrow>
     bindR (ilock (Some ip) s) (\<lambda>s.
       if d_type (idata ip s) \<noteq> T_DIR then bindR (iunlockput ip s) fail_op
       else bindR (iunlock (Some ip) s) (\<lambda>s.
            bindR (case p_cwd (myproc s) of None \<Rightarrow> Inl Fault | Some cwd \<Rightarrow> iput cwd s) (\<lambda>s.
            bindR (end_op s) (\<lambda>s.
              Inr (0, upd_proc (curproc s) (\<lambda>x. x\<lparr>p_cwd := Some ip\<rparr>) s))))))))"

section \<open>Programs and pipes\<close>

text \<open>The loop of \<open>sys_exec\<close> over the user's \<open>argv\<close>, with \<open>n\<close> entries of the kernel's array left.\<close>

fun sys_exec_args :: "nat \<Rightarrow> u32 \<Rightarrow> 'a procs_scheme \<Rightarrow> byte list list option res" where
  "sys_exec_args 0 uargv s = Inr None"
| "sys_exec_args (Suc n) uargv s =
     bindR (fetchint uargv s) (\<lambda>r. case r of None \<Rightarrow> Inr None | Some uarg \<Rightarrow>
       if uarg = 0 then Inr (Some [])
       else bindR (fetchstr uarg s) (\<lambda>r. case r of None \<Rightarrow> Inr None | Some a \<Rightarrow>
            bindR (sys_exec_args n (uargv + 4) s) (\<lambda>r. Inr (map_option (Cons a) r))))"

definition sys_exec :: "'a conss_scheme \<Rightarrow> (int \<times> 'a conss_scheme) res" where
  "sys_exec s =
     bindR (argstr 0 s) (\<lambda>r. case r of None \<Rightarrow> Inr (- 1, s) | Some path \<Rightarrow>
     bindR (argint 1 s) (\<lambda>r. case r of None \<Rightarrow> Inr (- 1, s) | Some uargv \<Rightarrow>
     bindR (sys_exec_args MAXARG uargv s) (\<lambda>r. case r of None \<Rightarrow> Inr (- 1, s) | Some argv \<Rightarrow> exec path argv s)))"

definition sys_pipe :: "'a filest_scheme \<Rightarrow> (int \<times> 'a filest_scheme) res" where
  "sys_pipe s =
     bindR (argptr 0 8 s) (\<lambda>r. case r of None \<Rightarrow> Inr (- 1, s) | Some p \<Rightarrow>
     bindR (pipealloc s) (\<lambda>(r, s). case r of None \<Rightarrow> Inr (- 1, s) | Some (f0, f1) \<Rightarrow>
       let bad = (\<lambda>s. bindR (fileclose f0 s) (\<lambda>s. bindR (fileclose f1 s) (\<lambda>s. Inr (- 1, s))))
       in (case fdalloc f0 s of
            (None, s) \<Rightarrow> bad s
          | (Some fd0, s) \<Rightarrow>
              (case fdalloc f1 s of
                 (None, s) \<Rightarrow> bad (upd_proc (curproc s) (\<lambda>x. x\<lparr>p_ofile := (p_ofile x)(fd0 := None)\<rparr>) s)
               | (Some fd1, s) \<Rightarrow>
                   bindR (store_user (word_bytes (of_nat fd0)) p s) (\<lambda>s.
                   bindR (store_user (word_bytes (of_nat fd1)) (p + 4) s) (\<lambda>s. Inr (0, s)))))))"


section \<open>Properties\<close>

lemma argptr_bounds:
  assumes "argptr n len s = Inr (Some a)" "p_sz (myproc s) \<le> KERNBASE" "len < 2 ^ 31"
  shows "0 \<le> len \<and> unat a + nat len \<le> unat (p_sz (myproc s))"
proof -
  have l: "0 \<le> len" "a < p_sz (myproc s)" "a + of_int len \<le> p_sz (myproc s)"
    using assms(1) by (auto simp: argptr_def res_simps not_le not_less split: option.splits if_splits)
  have "of_int len = (of_nat (nat len) :: u32)" using l(1) by simp
  then have "unat (of_int len :: u32) = nat len" using assms(3) by (simp only: unat_of_nat) simp
  moreover have "unat a < 2 ^ 31" using l(2) assms(2) by (simp add: word_less_nat_alt word_le_nat_alt)
  moreover have "nat len < 2 ^ 31" using assms(3) by simp
  ultimately have "unat (a + of_int len) = unat a + nat len" by (simp add: unat_word_ariths)
  then show ?thesis using l by (simp add: word_le_nat_alt)
qed

text \<open>What \<open>read\<close> and \<open>write\<close> are given as a buffer lies in the memory of the process, for every number and address
  that the process passes: no combination wraps around past the test. The file is one that the process has
  open. \<open>read\<close> gets at most as many bytes as the buffer has room for, and unless it fails its result is their
  number.\<close>

lemma rw_args_in_bounds:
  assumes "p_sz (myproc s) \<le> KERNBASE" "rw_args s = Inr (Some (f, n, p))" "fileread f n s = Inr (r, bs, t)"
  shows "unat p + n \<le> unat (p_sz (myproc s)) \<and> (\<exists>fd < NOFILE. p_ofile (myproc s) fd = Some f) \<and>
    length bs \<le> n \<and> (r = - 1 \<or> r = int (length bs))"
proof -
  obtain fd and v :: u32 where a: "argfd 0 s = Inr (Some (fd, f))" "argptr 1 (sint v) s = Inr (Some p)" "n = nat (sint v)"
    using assms(2) by (fastforce simp: rw_args_def res_simps split: option.splits prod.splits)
  have "sint v < 2 ^ 31" using sint_less [of v] by simp
  then have "unat p + n \<le> unat (p_sz (myproc s))" using argptr_bounds [OF a(2) assms(1)] a(3) by simp
  moreover have "fd < NOFILE \<and> p_ofile (myproc s) fd = Some f"
    using a(1) by (auto simp: argfd_def res_simps Let_def nat_less_iff split: option.splits if_splits)
  ultimately show ?thesis using fileread_length [OF assms(3)] by blast
qed

text \<open>A process that reads 4 bytes at address \<open>0x200\<close> from a pipe in which there are two.\<close>

definition ex_read :: filest where
  "ex_read = ex_kernel\<lparr>cr3 := 0x400000,
     ram := store32 (store32 (store32 (store32 (store32 (\<lambda>_. 0) 0x80400000 0x401007) 0x80401000 0x402007) 0x80402104 0) 0x80402108 0x200) 0x8040210C 4,
     ptable := (ptable ex_kernel)(0 := (ptable ex_kernel 0)\<lparr>p_tf := (p_tf ex_proc)\<lparr>tf_esp := 0x100\<rparr>\<rparr>),
     ftable := (ftable ex_kernel)(0 := (ftable ex_kernel 0)\<lparr>f_type := FD_PIPE, f_pipe := 0x80500000\<rparr>),
     pipes := \<lambda>_. \<lparr>pi_data = (\<lambda>i. if i = 0 then 7 else 8), nread = 0, nwrite = 2, readopen = True, writeopen = True\<rparr>\<rparr>"

lemma ex_read_addr: "va \<in> {0x104..<0x110} \<Longrightarrow> user_addr va ex_read = Inr (0x80402000 + va)"
proof -
  assume "va \<in> {0x104..<0x110}"
  then have va: "0x104 \<le> va" "va < 0x110" by simp_all
  then have u: "unat va < 4096" by (simp add: word_less_nat_alt)
  then have "PDX va = 0 \<and> PTX va = 0" using same_pte [of va 0] by (simp add: PDX_def PTX_def)
  moreover have "va AND 0xFFF = va" using u by (simp add: and_masks(2) word_unat_eq_iff unat_mod_distrib)
  ultimately show ?thesis
    by (simp add: user_addr_def pte_at_def pde_at_def entry_def pgtab_of_def present_def PTE_ADDR_def P2V_def Let_def)
      (simp add: ex_read_def load32_def store32_def byte_of_def)
qed

lemma rw_args_in_bounds_witness:
  "\<exists>t. rw_args ex_read = Inr (Some (0, 4, 0x200)) \<and> fileread 0 4 ex_read = Inr (2, [7, 8], t) \<and>
     unat (0x200 :: u32) + 4 \<le> unat (p_sz (myproc ex_read))"
proof -
  have p: "myproc ex_read = (ptable ex_kernel 0)\<lparr>p_tf := (p_tf ex_proc)\<lparr>tf_esp := 0x100\<rparr>\<rparr>"
    "p_sz (ptable ex_kernel 0) = 0x1000" "p_ofile (ptable ex_kernel 0) 0 = Some 0"
    by (simp_all add: ex_read_def ex_kernel_def)
  have "map (ram ex_read) [0x80402104, 0x80402105, 0x80402106, 0x80402107] = [0, 0, 0, 0]"
    "map (ram ex_read) [0x80402108, 0x80402109, 0x8040210A, 0x8040210B] = [0, 2, 0, 0]"
    "map (ram ex_read) [0x8040210C, 0x8040210D, 0x8040210E, 0x8040210F] = [4, 0, 0, 0]"
    by (simp_all add: ex_read_def store32_def byte_of_def)
  then have "argint 0 ex_read = Inr (Some 0)" "argint 1 ex_read = Inr (Some 0x200)" "argint 2 ex_read = Inr (Some 4)"
    by (simp_all add: argint_def fetchint_def p load_user_word ex_read_addr word_at_def word16_at_def)
  then have a: "rw_args ex_read = Inr (Some (0, 4, 0x200))"
    by (simp add: rw_args_def argfd_def argptr_def p)
  let ?q = "\<lparr>pi_data = (\<lambda>i. if i = 0 then 7 else 8), nread = 0, nwrite = 2, readopen = True, writeopen = True\<rparr>"
  have "piperead_copy (Suc (Suc (Suc (Suc 0)))) ?q = ([7, 8], ?q\<lparr>nread := 2\<rparr>)" by simp
  moreover have "Suc (Suc (Suc (Suc 0))) = 4" by simp
  ultimately have "piperead_loop False 4 ?q = (PR_data [7, 8], ?q\<lparr>nread := 2\<rparr>)" by (simp add: piperead_loop_def)
  moreover have "f_readable (ftable ex_read 0)" "f_type (ftable ex_read 0) = FD_PIPE" "pipes ex_read x = ?q" "\<not> p_killed (myproc ex_read)" for x
    by (simp_all add: ex_read_def ex_kernel_def ex_proc_def)
  ultimately have "\<exists>t. fileread 0 4 ex_read = Inr (2, [7, 8], t)" by (simp add: fileread_def piperead_def)
  then obtain t where t: "fileread 0 4 ex_read = Inr (2, [7, 8], t)" by blast
  show ?thesis using rw_args_in_bounds [OF _ a t] a t p by auto
qed

end
