(* ===== verification/Xv6_Kbd.thy ===== *)
theory Xv6_Kbd
  imports Xv6_Console
begin

text \<open>
  The keyboard (\<open>kbd.c\<close>, \<open>kbd.h\<close>): the tables from scan codes to characters, the decoding of scan codes with the
  modifier keys, and the interrupt handler, which feeds the characters to the console.
\<close>

section \<open>Tables\<close>

text \<open>A table is its first entries in order and the entries given by index; every other one is 0.\<close>

definition table :: "byte list \<Rightarrow> (nat \<times> byte) list \<Rightarrow> nat \<Rightarrow> byte" where
  "table xs ys i = (if i < length xs then xs ! i else case map_of ys i of Some c \<Rightarrow> c | None \<Rightarrow> 0)"

definition normalmap :: "nat \<Rightarrow> byte" where
  "normalmap = table [0, 27, 49, 50, 51, 52, 53, 54, 55, 56, 57, 48, 45, 61, 8, 9,
   113, 119, 101, 114, 116, 121, 117, 105, 111, 112, 91, 93, 10, 0, 97, 115,
   100, 102, 103, 104, 106, 107, 108, 59, 39, 96, 0, 92, 122, 120, 99, 118,
   98, 110, 109, 44, 46, 47, 0, 42, 0, 32, 0, 0, 0, 0, 0, 0,
   0, 0, 0, 0, 0, 0, 0, 55, 56, 57, 45, 52, 53, 54, 43, 49,
   50, 51, 48, 46, 0, 0, 0, 0]
  [(0x9C, 10), (0xB5, 47), (0xC8, 226), (0xD0, 227), (0xC9, 230), (0xD1, 231),
   (0xCB, 228), (0xCD, 229), (0x97, 224), (0xCF, 225), (0xD2, 232), (0xD3, 233)]"

definition shiftmap :: "nat \<Rightarrow> byte" where
  "shiftmap = table [0, 27, 33, 64, 35, 36, 37, 94, 38, 42, 40, 41, 95, 43, 8, 9,
   81, 87, 69, 82, 84, 89, 85, 73, 79, 80, 123, 125, 10, 0, 65, 83,
   68, 70, 71, 72, 74, 75, 76, 58, 34, 126, 0, 124, 90, 88, 67, 86,
   66, 78, 77, 60, 62, 63, 0, 42, 0, 32, 0, 0, 0, 0, 0, 0,
   0, 0, 0, 0, 0, 0, 0, 55, 56, 57, 45, 52, 53, 54, 43, 49,
   50, 51, 48, 46, 0, 0, 0, 0]
  [(0x9C, 10), (0xB5, 47), (0xC8, 226), (0xD0, 227), (0xC9, 230), (0xD1, 231),
   (0xCB, 228), (0xCD, 229), (0x97, 224), (0xCF, 225), (0xD2, 232), (0xD3, 233)]"

definition ctlmap :: "nat \<Rightarrow> byte" where
  "ctlmap = table [0, 0, 0, 0, 0, 0, 0, 0, 0, 0, 0, 0, 0, 0, 0, 0,
   17, 23, 5, 18, 20, 25, 21, 9, 15, 16, 0, 0, 13, 0, 1, 19,
   4, 6, 7, 8, 10, 11, 12, 0, 0, 0, 0, 28, 26, 24, 3, 22,
   2, 14, 13, 0, 0, 239, 0, 0]
  [(0x9C, 13), (0xB5, 239), (0xC8, 226), (0xD0, 227), (0xC9, 230), (0xD1, 231),
   (0xCB, 228), (0xCD, 229), (0x97, 224), (0xCF, 225), (0xD2, 232), (0xD3, 233)]"

definition shiftcode :: "nat \<Rightarrow> byte" where
  "shiftcode = table [] [(0x1D, 2), (0x2A, 1), (0x36, 1), (0x38, 4), (0x9D, 2), (0xB8, 4)]"

definition togglecode :: "nat \<Rightarrow> byte" where
  "togglecode = table [] [(0x3A, 8), (0x45, 16), (0x46, 32)]"

abbreviation SHIFT :: byte where "SHIFT \<equiv> 1"
abbreviation CTL :: byte where "CTL \<equiv> 2"
abbreviation CAPSLOCK :: byte where "CAPSLOCK \<equiv> 8"
abbreviation E0ESC :: byte where "E0ESC \<equiv> 64"

section \<open>Decoding\<close>

text \<open>\<open>kbdgetc\<close> on the scan code \<open>data\<close> in the state \<open>shift\<close> of the modifiers: the character and the new state.\<close>

definition charcode :: "byte \<Rightarrow> nat \<Rightarrow> byte" where
  "charcode sh = (if sh = 0 then normalmap else if sh = 1 then shiftmap else ctlmap)"

definition caps :: "byte \<Rightarrow> byte" where
  "caps c = (if 97 \<le> c \<and> c \<le> 122 then c - 32 else if 65 \<le> c \<and> c \<le> 90 then c + 32 else c)"

definition kbdgetc :: "byte \<Rightarrow> byte \<Rightarrow> byte \<times> byte" where
  "kbdgetc data shift =
     (if data = 0xE0 then (0, shift OR E0ESC)
      else if data AND 0x80 \<noteq> 0
      then let data = (if shift AND E0ESC \<noteq> 0 then data else data AND 0x7F)
           in (0, shift AND NOT (shiftcode (unat data) OR E0ESC))
      else let (data, shift) = (if shift AND E0ESC \<noteq> 0 then (data OR 0x80, shift AND NOT E0ESC) else (data, shift));
               shift = (shift OR shiftcode (unat data)) XOR togglecode (unat data);
               c = charcode (shift AND (CTL OR SHIFT)) (unat data)
           in (if shift AND CAPSLOCK \<noteq> 0 then caps c else c, shift))"

text \<open>The characters of a sequence of scan codes.\<close>

fun kbd_chars :: "byte list \<Rightarrow> byte \<Rightarrow> nat list \<times> byte" where
  "kbd_chars [] shift = ([], shift)"
| "kbd_chars (d # ds) shift =
     (case kbdgetc d shift of (c, shift) \<Rightarrow> case kbd_chars ds shift of (cs, shift) \<Rightarrow> (unat c # cs, shift))"

definition kbdintr :: "byte list \<Rightarrow> byte \<Rightarrow> 'a conss_scheme \<Rightarrow> (byte \<times> 'a conss_scheme) res" where
  "kbdintr ds shift s =
     (case kbd_chars ds shift of (cs, shift) \<Rightarrow> bindR (consoleintr cs s) (\<lambda>s. Inr (shift, s)))"

end
