(* ===== verification/Xv6_Trap.thy ===== *)
theory Xv6_Trap
  imports Xv6_Sysfile Xv6_Kbd
begin

text \<open>
  The system calls on processes (\<open>sysproc.c\<close>), the dispatch of system calls (\<open>syscall.c\<close>) and the handling of traps
  (\<open>trap.c\<close>). Acknowledging an interrupt at the local APIC has no effect on the state of the kernel.
\<close>

section \<open>System calls on processes\<close>

definition sys_fork :: "'a filest_scheme \<Rightarrow> (int \<times> 'a filest_scheme) res" where
  "sys_fork s = fork s"

definition sys_wait :: "'a procs_scheme \<Rightarrow> (int \<times> 'a procs_scheme) res" where
  "sys_wait s = wait s"

definition sys_kill :: "'a procs_scheme \<Rightarrow> (int \<times> 'a procs_scheme) res" where
  "sys_kill s =
     bindR (argint 0 s) (\<lambda>r. case r of None \<Rightarrow> Inr (- 1, s) | Some pid \<Rightarrow> Inr (kill (sint pid) s))"

definition sys_getpid :: "'a procs_scheme \<Rightarrow> (int \<times> 'a procs_scheme) res" where
  "sys_getpid s = Inr (int (p_pid (myproc s)), s)"

definition sys_sbrk :: "'a procs_scheme \<Rightarrow> (int \<times> 'a procs_scheme) res" where
  "sys_sbrk s =
     bindR (argint 0 s) (\<lambda>r. case r of None \<Rightarrow> Inr (- 1, s)
       | Some n \<Rightarrow>
           let addr = sint (p_sz (myproc s))
           in bindR (growproc (sint n) s) (\<lambda>(r, s). Inr (if r < 0 then - 1 else addr, s)))"

text \<open>
  The loop of \<open>sys_sleep\<close>: the result, or \<open>None\<close> when it goes to sleep until the next tick. The comparison is one
  of unsigned numbers.
\<close>

definition sys_sleep_loop :: "u32 \<Rightarrow> u32 \<Rightarrow> 'a kernel_scheme \<Rightarrow> int option" where
  "sys_sleep_loop n ticks0 s =
     (if ticks s - ticks0 < n then if p_killed (myproc s) then Some (- 1) else None else Some 0)"

definition sys_sleep :: "'a kernel_scheme \<Rightarrow> (int \<times> 'a kernel_scheme) res" where
  "sys_sleep s =
     bindR (argint 0 s) (\<lambda>r. case r of None \<Rightarrow> Inr (- 1, s)
       | Some n \<Rightarrow>
           (case sys_sleep_loop n (ticks s) s of
              Some r \<Rightarrow> Inr (r, s) | None \<Rightarrow> Inl (Blocked (''ticks'', 0))))"

definition sys_uptime :: "'a kernel_scheme \<Rightarrow> (int \<times> 'a kernel_scheme) res" where
  "sys_uptime s = Inr (sint (ticks s), s)"

definition sys_clone :: "'a filest_scheme \<Rightarrow> (int \<times> 'a filest_scheme) res" where
  "sys_clone s =
     bindR (argint 0 s) (\<lambda>r. case r of None \<Rightarrow> Inr (- 1, s) | Some stackptr \<Rightarrow>
     bindR (argint 1 s) (\<lambda>r. case r of None \<Rightarrow> Inr (- 1, s) | Some stacksize \<Rightarrow> clone stackptr (sint stacksize) s))"

section \<open>Dispatch\<close>

text \<open>The result of a system call that returns is \<open>Some\<close>; \<open>exit\<close> does not return.\<close>

definition returning :: "('s \<Rightarrow> (int \<times> 's) res) \<Rightarrow> 's \<Rightarrow> (int option \<times> 's) res" where
  "returning f s = bindR (f s) (\<lambda>(r, s). Inr (Some r, s))"

definition sys_exit :: "'a filest_scheme \<Rightarrow> (int option \<times> 'a filest_scheme) res" where
  "sys_exit s = bindR (exit s) (\<lambda>s. Inr (None, s))"

definition syscalls :: "('a kernel_scheme \<Rightarrow> (int option \<times> 'a kernel_scheme) res) option list" where
  "syscalls =
     None #
     map Some
       [returning sys_fork, sys_exit, returning sys_wait, returning sys_pipe, returning sys_read, returning sys_kill,
        returning sys_exec, returning sys_fstat, returning sys_chdir, returning sys_dup, returning sys_getpid,
        returning sys_sbrk, returning sys_sleep, returning sys_uptime, returning sys_open, returning sys_write,
        returning sys_mknod, returning sys_unlink, returning sys_link, returning sys_mkdir, returning sys_close,
        returning sys_clone]"

definition set_eax :: "nat \<Rightarrow> u32 \<Rightarrow> 'a procs_scheme \<Rightarrow> 'a procs_scheme" where
  "set_eax p v s = upd_proc p (\<lambda>x. x\<lparr>p_tf := (p_tf x)\<lparr>tf_eax := v\<rparr>\<rparr>) s"

text \<open>Whether the system call returned, and the state.\<close>

definition syscall :: "'a kernel_scheme \<Rightarrow> (bool \<times> 'a kernel_scheme) res" where
  "syscall s =
     (let me = curproc s; num = sint (tf_eax (p_tf (myproc s)));
          handler = (if num > 0 \<and> num < int (length (syscalls :: ('a kernel_scheme \<Rightarrow> _) option list))
                     then syscalls ! nat num else None)
      in case handler of
           Some f \<Rightarrow>
             bindR (f s) (\<lambda>(r, s).
               case r of Some v \<Rightarrow> Inr (True, set_eax me (of_int v) s) | None \<Rightarrow> Inr (False, s))
         | None \<Rightarrow>
             bindR (cprintf (map of_char ''%d %s: unknown sys call %d\<newline>'')
                      [CNum (of_nat (p_pid (myproc s))), CStr (Some (p_name (myproc s))), CNum (of_int num)] s) (\<lambda>s.
               Inr (True, set_eax me (- 1) s)))"

section \<open>Traps\<close>

abbreviation T_SYSCALL :: u32 where "T_SYSCALL \<equiv> 64"
abbreviation T_IRQ0 :: u32 where "T_IRQ0 \<equiv> 32"
abbreviation IRQ_TIMER :: u32 where "IRQ_TIMER \<equiv> 0"
abbreviation IRQ_KBD :: u32 where "IRQ_KBD \<equiv> 1"
abbreviation IRQ_COM1 :: u32 where "IRQ_COM1 \<equiv> 4"
abbreviation IRQ_IDE :: u32 where "IRQ_IDE \<equiv> 14"
abbreviation IRQ_SPURIOUS :: u32 where "IRQ_SPURIOUS \<equiv> 31"

record machine = kernel +
  kbd_shift :: byte

text \<open>What the hardware delivers with a trap: the CPU, the scan codes, the serial input, and \<open>%cr2\<close>.\<close>

record hardware =
  hw_cpu :: nat
  hw_kbd :: "byte list"
  hw_uart :: "nat list"
  hw_cr2 :: u32

definition uartintr :: "nat list \<Rightarrow> 'a conss_scheme \<Rightarrow> 'a conss_scheme res" where
  "uartintr cs s = consoleintr (if uart s then cs else []) s"

definition ideintr :: "'a machine_scheme \<Rightarrow> 'a machine_scheme" where
  "ideintr s = s"

definition user_mode :: "trapframe \<Rightarrow> bool" where
  "user_mode tf \<longleftrightarrow> tf_cs tf AND 3 = DPL_USER"

definition trap_default :: "hardware \<Rightarrow> trapframe \<Rightarrow> 'a machine_scheme \<Rightarrow> 'a machine_scheme res" where
  "trap_default hw tf s =
     (if cpu_proc s = None \<or> tf_cs tf AND 3 = 0
      then bindR (cprintf (map of_char ''unexpected trap %d from cpu %d eip %x (cr2=0x%x)\<newline>'')
                    [CNum (tf_trapno tf), CNum (of_nat (hw_cpu hw)), CNum (tf_eip tf), CNum (hw_cr2 hw)] s)
             (\<lambda>_. Inl (Panic ''trap''))
      else bindR (cprintf (map of_char ''pid %d %s: trap %d err %d on cpu %d eip 0x%x addr 0x%x--kill proc\<newline>'')
                    [CNum (of_nat (p_pid (myproc s))), CStr (Some (p_name (myproc s))), CNum (tf_trapno tf),
                     CNum (tf_err tf), CNum (of_nat (hw_cpu hw)), CNum (tf_eip tf), CNum (hw_cr2 hw)] s)
             (\<lambda>s. Inr (upd_proc (curproc s) (\<lambda>x. x\<lparr>p_killed := True\<rparr>) s)))"

definition trap_device :: "hardware \<Rightarrow> trapframe \<Rightarrow> 'a machine_scheme \<Rightarrow> 'a machine_scheme res" where
  "trap_device hw tf s =
     (let no = tf_trapno tf
      in if no = T_IRQ0 + IRQ_TIMER
         then Inr (if hw_cpu hw = 0 then wakeup (''ticks'', 0) (s\<lparr>ticks := ticks s + 1\<rparr>) else s)
         else if no = T_IRQ0 + IRQ_IDE then Inr (ideintr s)
         else if no = T_IRQ0 + IRQ_IDE + 1 then Inr s
         else if no = T_IRQ0 + IRQ_KBD
         then bindR (kbdintr (hw_kbd hw) (kbd_shift s) s) (\<lambda>(shift, s). Inr (s\<lparr>kbd_shift := shift\<rparr>))
         else if no = T_IRQ0 + IRQ_COM1 then uartintr (hw_uart hw) s
         else if no = T_IRQ0 + 7 \<or> no = T_IRQ0 + IRQ_SPURIOUS
         then cprintf (map of_char ''cpu%d: spurious interrupt at %x:%x\<newline>'')
                [CNum (of_nat (hw_cpu hw)), CNum (ucast (tf_cs tf)), CNum (tf_eip tf)] s
         else trap_default hw tf s)"

text \<open>
  How \<open>trap\<close> ends: it returns, the process has exited, or it has given up the CPU and goes on with \<open>trap_resume\<close>.
\<close>

datatype trap_end = TReturn | TExit | TYield

definition exiting :: "'a machine_scheme \<Rightarrow> (trap_end \<times> 'a machine_scheme) res" where
  "exiting s = bindR (exit s) (\<lambda>s. Inr (TExit, s))"

definition trap_resume :: "trapframe \<Rightarrow> 'a machine_scheme \<Rightarrow> (trap_end \<times> 'a machine_scheme) res" where
  "trap_resume tf s =
     (if cpu_proc s \<noteq> None \<and> p_killed (myproc s) \<and> user_mode tf then exiting s else Inr (TReturn, s))"

definition trap :: "hardware \<Rightarrow> trapframe \<Rightarrow> 'a machine_scheme \<Rightarrow> (trap_end \<times> 'a machine_scheme) res" where
  "trap hw tf s =
     (if tf_trapno tf = T_SYSCALL
      then if p_killed (myproc s) then exiting s
           else bindR (syscall (upd_proc (curproc s) (\<lambda>x. x\<lparr>p_tf := tf\<rparr>) s)) (\<lambda>(returned, s).
                if \<not> returned then Inr (TExit, s)
                else if p_killed (myproc s) then exiting s else Inr (TReturn, s))
      else bindR (trap_device hw tf s) (\<lambda>s.
           if cpu_proc s \<noteq> None \<and> p_killed (myproc s) \<and> user_mode tf then exiting s
           else if cpu_proc s \<noteq> None \<and> p_state (myproc s) = RUNNING \<and> tf_trapno tf = T_IRQ0 + IRQ_TIMER
           then bindR (yield s) (\<lambda>s. Inr (TYield, s))
           else trap_resume tf s))"


section \<open>Properties\<close>

text \<open>A process that has been killed does not get back to its program: when \<open>trap\<close> returns from a system call, or
  from any trap taken in user mode, the process that it returns to is not marked as killed.\<close>

lemma trap_not_killed:
  assumes "trap hw tf s = Inr (TReturn, t)" "tf_trapno tf = T_SYSCALL \<or> user_mode tf" "cpu_proc t = Some p"
  shows "\<not> p_killed (ptable t p)"
  using assms
  by (auto simp: trap_def trap_resume_def exiting_def res_simps split: if_splits prod.splits)

definition ex_machine :: machine where
  "ex_machine = filest.extend ex_kernel (kernel_ext 0 False (machine_ext 0 ()))"

text \<open>The system call \<open>getpid\<close>.\<close>

lemma trap_not_killed_witness:
  "\<exists>t. trap \<lparr>hw_cpu = 0, hw_kbd = [], hw_uart = [], hw_cr2 = 0\<rparr> ((p_tf ex_proc)\<lparr>tf_trapno := 64, tf_eax := 11\<rparr>) ex_machine =
     Inr (TReturn, t) \<and> tf_eax (p_tf (myproc t)) = 1 \<and> \<not> p_killed (myproc t)"
proof -
  let ?tf = "(p_tf ex_proc)\<lparr>tf_trapno := 64, tf_eax := 11\<rparr>"
  let ?s = "upd_proc 0 (\<lambda>x. x\<lparr>p_tf := ?tf\<rparr>) ex_machine"
  have f: "cpu_proc ex_machine = Some 0" "p_pid (ptable ex_machine 0) = 1" "\<not> p_killed (ptable ex_machine 0)"
    by (simp_all add: ex_machine_def ex_kernel_def filest.defs ex_proc_def)
  have "syscalls ! 11 = Some (returning sys_getpid)" by (simp add: syscalls_def)
  then have "syscall ?s = Inr (True, set_eax 0 1 ?s)"
    using f by (simp add: syscall_def returning_def sys_getpid_def syscalls_def)
  then obtain t where t: "trap \<lparr>hw_cpu = 0, hw_kbd = [], hw_uart = [], hw_cr2 = 0\<rparr> ?tf ex_machine = Inr (TReturn, t)"
    "t = set_eax 0 1 ?s" using f by (simp add: trap_def set_eax_def)
  then show ?thesis using trap_not_killed [OF t(1)] f by (auto simp: set_eax_def)
qed

text \<open>\<open>sleep(n)\<close> waits for \<open>n\<close> ticks, counted as an unsigned number, also when the counter of ticks wraps around
  meanwhile: after \<open>k\<close> ticks the loop goes on exactly when \<open>k < n\<close> and the process is not killed, and ends with -1
  when it is.\<close>

lemma sleep_ticks:
  assumes "k < 2 ^ 32"
  shows "sys_sleep_loop n start (s\<lparr>ticks := start + of_nat k\<rparr>) =
    (if k < unat n then if p_killed (myproc s) then Some (- 1) else None else Some 0)"
proof -
  have "unat (of_nat k :: u32) = k" using assms by (simp only: unat_of_nat) simp
  then show ?thesis by (simp add: sys_sleep_loop_def word_less_nat_alt)
qed

lemma sleep_ticks_witness:
  "sys_sleep_loop 10 0xFFFFFFFE (ex_machine\<lparr>ticks := 0xFFFFFFFE + of_nat 9\<rparr>) = None \<and>
   sys_sleep_loop 10 0xFFFFFFFE (ex_machine\<lparr>ticks := 0xFFFFFFFE + of_nat 10\<rparr>) = Some 0"
proof -
  have "\<not> p_killed (myproc ex_machine)" by (simp add: ex_machine_def ex_kernel_def filest.defs ex_proc_def)
  then show ?thesis
    using sleep_ticks [where k = 9 and n = 10 and start = "0xFFFFFFFE" and s = ex_machine]
      sleep_ticks [where k = 10 and n = 10 and start = "0xFFFFFFFE" and s = ex_machine] by simp
qed

end
