(* ===== verification/Xv6_Contents.thy ===== *)
theory Xv6_Contents
  imports Xv6_Fs
begin

text \<open>
  What a file holds: the bytes of an inode as one array, and that \<open>bmap\<close>, \<open>readi\<close> and \<open>writei\<close> of \<open>fs.c\<close> implement reading and writing of
  this array over direct and indirect blocks, the free map, the log and the cache.
\<close>

section \<open>A well-formed file system and a well-formed inode\<close>

text \<open>The layout that \<open>mkfs\<close> makes: log, inodes, free map, data. All blocks before the data are in use.\<close>

definition data_start :: "superblock \<Rightarrow> nat" where
  "data_start x = bmapstart x + sb_size x div BPB + 1"

definition fs_ok :: "'a fsst_scheme \<Rightarrow> bool" where
  "fs_ok s \<longleftrightarrow> log_inv s \<and> log_start s + log_size s \<le> inodestart (sb s) \<and> inodestart (sb s) + ninodes (sb s) div IPB < bmapstart (sb s) \<and>
     data_start (sb s) \<le> sb_size (sb s) \<and> sb_size (sb s) \<le> disksize s \<and> (\<forall>b < data_start (sb s). in_use s b) \<and>
     (\<forall>b \<in> busy s. data_start (sb s) \<le> b \<and> b < sb_size (sb s) \<and> in_use s b)"

text \<open>
  The addresses in an inode: slots 0 to 11 have the direct blocks, slot 12 the indirect block, and the others the entries of the
  indirect block.
\<close>

definition slot :: "'a fsst_scheme \<Rightarrow> nat \<Rightarrow> nat \<Rightarrow> nat" where
  "slot s ip j =
     (let as = d_addrs (idata ip s)
      in if j \<le> NDIRECT then as ! j
         else if as ! NDIRECT = 0 then 0 else unat (get32 (view s (as ! NDIRECT)) (4 * (j - NDIRECT - 1))))"

definition slot_of :: "nat \<Rightarrow> nat" where
  "slot_of bn = (if bn < NDIRECT then bn else bn + 1)"

definition data_block :: "'a fsst_scheme \<Rightarrow> nat \<Rightarrow> bool" where
  "data_block s b \<longleftrightarrow> data_start (sb s) \<le> b \<and> b < sb_size (sb s) \<and> in_use s b \<and> b \<notin> busy s"

definition inode_ok :: "'a fsst_scheme \<Rightarrow> nat \<Rightarrow> bool" where
  "inode_ok s ip \<longleftrightarrow> i_dev (icache s ip) = 1 \<and> i_inum (icache s ip) < ninodes (sb s) \<and> dinode_ok (idata ip s) \<and>
     (\<forall>j \<le> MAXFILE. slot s ip j \<noteq> 0 \<longrightarrow> data_block s (slot s ip j)) \<and>
     (\<forall>j \<le> MAXFILE. \<forall>j' \<le> MAXFILE. slot s ip j \<noteq> 0 \<longrightarrow> slot s ip j = slot s ip j' \<longrightarrow> j = j')"

text \<open>Byte \<open>k\<close> of the file; a block that is not there reads as zeros.\<close>

definition fbyte :: "'a fsst_scheme \<Rightarrow> nat \<Rightarrow> nat \<Rightarrow> byte" where
  "fbyte s ip k = (let a = slot s ip (slot_of (k div BSIZE)) in if a = 0 then 0 else view s a (k mod BSIZE))"

definition nfree :: "'a fsst_scheme \<Rightarrow> nat" where
  "nfree s = card {b. b < sb_size (sb s) \<and> \<not> in_use s b}"

lemma fs_okD:
  assumes "fs_ok s"
  shows "log_inv s" "log_start s + log_size s \<le> inodestart (sb s)" "inodestart (sb s) + ninodes (sb s) div IPB < bmapstart (sb s)"
    "data_start (sb s) \<le> sb_size (sb s)" "sb_size (sb s) \<le> disksize s" "\<And>b. b < data_start (sb s) \<Longrightarrow> in_use s b"
    "\<And>b. b \<in> busy s \<Longrightarrow> data_start (sb s) \<le> b \<and> b < sb_size (sb s) \<and> in_use s b"
  using assms by (auto simp: fs_ok_def)

lemma inode_okD:
  assumes "inode_ok s ip"
  shows "i_dev (icache s ip) = 1" "i_inum (icache s ip) < ninodes (sb s)" "dinode_ok (idata ip s)"
    "\<And>j. j \<le> MAXFILE \<Longrightarrow> slot s ip j \<noteq> 0 \<Longrightarrow> data_block s (slot s ip j)"
    "\<And>j j'. j \<le> MAXFILE \<Longrightarrow> j' \<le> MAXFILE \<Longrightarrow> slot s ip j \<noteq> 0 \<Longrightarrow> slot s ip j = slot s ip j' \<Longrightarrow> j = j'"
  using assms unfolding inode_ok_def by blast+

lemma BBLOCK_bounds: "b < sb_size x \<Longrightarrow> bmapstart x \<le> BBLOCK b x \<and> BBLOCK b x < data_start x"
  using div_le_mono [of b "sb_size x" BPB] by (simp add: BBLOCK_def data_start_def)

lemma fs_ok_map:
  assumes "fs_ok s" "outstanding s \<ge> 1"
  shows "map_ok s"
proof -
  note f = fs_okD [OF assms(1)]
  have l: "loggable s b" if "inodestart (sb s) \<le> b" "b < sb_size (sb s)" for b
    using that f(2,5) assms(2) by (simp add: loggable_def)
  have "loggable s (BBLOCK b (sb s)) \<and> BBLOCK b (sb s) \<notin> busy s" if "b < sb_size (sb s)" for b
    using BBLOCK_bounds [OF that] f(3,4) f(7) [of "BBLOCK b (sb s)"] l [of "BBLOCK b (sb s)"] by linarith
  moreover have "loggable s b \<and> b \<notin> busy s \<and> b \<notin> (\<lambda>c. BBLOCK c (sb s)) ` {..<sb_size (sb s)}" if "b < sb_size (sb s)" "\<not> in_use s b" for b
  proof -
    have b: "data_start (sb s) \<le> b" using f(6) [of b] that(2) by (metis not_le)
    then have "inodestart (sb s) \<le> b" using f(3) by (simp add: data_start_def)
    then show ?thesis using l that f(7) BBLOCK_bounds b by (auto simp: not_less [symmetric])
  qed
  ultimately show ?thesis using f(1) by (auto simp: map_ok_def)
qed


section \<open>Reading\<close>

definition same_blocks :: "'a fsst_scheme \<Rightarrow> 'a fsst_scheme \<Rightarrow> bool" where
  "same_blocks s t \<longleftrightarrow> log_inv t \<and> off_log t = off_log s \<and> room t = room s \<and> view t = view s \<and> busy t = busy s"

lemma same_blocks_trans: "same_blocks s t \<Longrightarrow> same_blocks t u \<Longrightarrow> same_blocks s u"
  by (simp add: same_blocks_def)

lemma same_blocks_ok:
  assumes "same_blocks s t"
  shows "fs_ok s \<Longrightarrow> fs_ok t" "slot t = slot s" "fbyte t = fbyte s" "inode_ok t = inode_ok s" "icache t = icache s" "room t = room s" "busy t = busy s"
proof -
  have t: "log_inv t" "off_log t = off_log s" "view t = view s" "busy t = busy s" "room t = room s" using assms by (simp_all add: same_blocks_def)
  note f = off_log_fs [OF t(2)] off_log_fields [OF t(2)]
  have i: "in_use t = in_use s" using t(3) f(1) by (intro ext) (simp add: in_use_def)
  show sl: "slot t = slot s" using t(3) f(2) by (intro ext) (simp add: slot_def Let_def)
  show "fbyte t = fbyte s" using t(3) sl by (intro ext) (simp add: fbyte_def Let_def)
  show "fs_ok s \<Longrightarrow> fs_ok t" using t f i unfolding fs_ok_def by simp
  show "inode_ok t = inode_ok s" unfolding inode_ok_def data_block_def fun_eq_iff sl i t(4) f(1,2) by simp
  show "icache t = icache s" "room t = room s" "busy t = busy s" by (fact f(2) t(4,5))+
qed

lemma slot_bound:
  assumes "fs_ok s" "inode_ok s ip" "j \<le> MAXFILE" "slot s ip j \<noteq> 0"
  shows "slot s ip j < disksize s" "slot s ip j \<notin> busy s"
  using inode_okD(4) [OF assms(2-4)] fs_okD(5) [OF assms(1)] by (auto simp: data_block_def)

lemma slot_simps:
  "j \<le> NDIRECT \<Longrightarrow> slot s ip j = d_addrs (idata ip s) ! j"
  "NDIRECT \<le> bn \<Longrightarrow> slot s ip (bn + 1) =
    (if slot s ip NDIRECT = 0 then 0 else unat (get32 (view s (slot s ip NDIRECT)) (4 * (bn - NDIRECT))))"
  by (simp_all add: slot_def Let_def)

lemma bmap_mapped:
  assumes "fs_ok s" "inode_ok s ip" "bn < MAXFILE" "slot s ip (slot_of bn) \<noteq> 0" "card (busy s) \<le> room s"
  shows "runs (bmap ip bn s) (\<lambda>(a, t). a = slot s ip (slot_of bn) \<and> same_blocks s t)"
proof (cases "bn < NDIRECT")
  case True
  then show ?thesis
    using assms(4) fs_okD(1) [OF assms(1)] by (simp add: bmap_def Let_def slot_of_def slot_simps(1) same_blocks_def)
next
  case False
  let ?i = "slot s ip NDIRECT"
  have sl: "slot_of bn = bn + 1" using False by (simp add: slot_of_def)
  then have e: "slot s ip (slot_of bn) = unat (get32 (view s ?i) (4 * (bn - NDIRECT)))" "?i \<noteq> 0"
    using assms(4) False slot_simps(2) [of bn s ip] by (auto split: if_splits)
  have a: "d_addrs (idata ip s) ! NDIRECT = ?i" by (simp add: slot_simps(1))
  have nz: "get32 (view s ?i) (4 * (bn - NDIRECT)) \<noteq> 0" using assms(4) e(1) by (auto simp: unat_eq_0)
  have "runs (bread 1 ?i s) (\<lambda>(bp, t). bdata bp t = view s ?i \<and> (\<exists>u. brelse bp t = Inr u \<and> same_blocks s u))"
    by (rule bread_brelse) (use assms(1,5) fs_okD(1) slot_bound [OF assms(1,2) _ e(2)] in \<open>auto simp: same_blocks_def\<close>)
  then obtain bp t u where "bread 1 ?i s = Inr (bp, t)" "bdata bp t = view s ?i" "brelse bp t = Inr u" "same_blocks s u"
    by (auto simp: runs_def)
  then show ?thesis
    using False assms(3) e nz a inode_okD(1) [OF assms(2)] by (simp add: bmap_def Let_def)
qed

text \<open>The chunks of a range cover it in order, and each lies in one block.\<close>

lemma chunk_block:
  assumes "m \<le> BSIZE - off mod BSIZE" "i < m"
  shows "(off + i) div BSIZE = off div BSIZE" "(off + i) mod BSIZE = off mod BSIZE + i"
proof -
  have i: "off mod BSIZE + i < BSIZE" using assms by linarith
  have "off + i = off div BSIZE * BSIZE + (off mod BSIZE + i)" by simp
  then show "(off + i) div BSIZE = off div BSIZE" "(off + i) mod BSIZE = off mod BSIZE + i"
    using i by (metis div_mult_self3 div_less add.right_neutral less_nat_zero_code mult.commute div_mult_self1_is_m, metis mod_mult_self3 mod_less)
qed

lemma readi_loop_runs:
  assumes "fs_ok s" "inode_ok s ip" "card (busy s) \<le> room s" "off + n \<le> MAXFILE * BSIZE"
    "\<And>k. off \<le> k \<Longrightarrow> k < off + n \<Longrightarrow> slot s ip (slot_of (k div BSIZE)) \<noteq> 0"
  shows "runs (readi_loop ip (chunks off n) s) (\<lambda>(bs, t). bs = map (fbyte s ip) [off..<off + n] \<and> same_blocks s t)"
  using assms
proof (induction off n arbitrary: s rule: chunks.induct)
  case (1 off n)
  show ?case
  proof (cases "n = 0")
    case True
    then show ?thesis using fs_okD(1) [OF "1.prems"(1)] by (subst chunks.simps) (simp add: same_blocks_def)
  next
    case False
    define m where "m = min n (BSIZE - off mod BSIZE)"
    have m: "0 < m" "m \<le> n" "m \<le> BSIZE - off mod BSIZE" using False by (auto simp: m_def)
    let ?a = "slot s ip (slot_of (off div BSIZE))"
    have a: "?a \<noteq> 0" using "1.prems"(5) [of off] False by simp
    have bn: "off div BSIZE < MAXFILE" using "1.prems"(4) False by (simp add: less_mult_imp_div_less)
    then have so: "slot_of (off div BSIZE) \<le> MAXFILE" by (simp add: slot_of_def)
    have bytes: "map (\<lambda>i. view s ?a (off mod BSIZE + i)) [0..<m] = map (fbyte s ip) [off..<off + m]"
      by (rule nth_equalityI) (use a chunk_block [OF m(3)] in \<open>simp_all add: fbyte_def Let_def\<close>)
    have IH: "runs (readi_loop ip (chunks (off + m) (n - m)) u) (\<lambda>(bs, t). bs = map (fbyte s ip) [off + m..<off + n] \<and> same_blocks s t)"
      if u: "same_blocks s u" for u
    proof -
      have "runs (readi_loop ip (chunks (off + m) (n - m)) u) (\<lambda>(bs, t). bs = map (fbyte u ip) [off + m..<off + m + (n - m)] \<and> same_blocks u t)"
        by (rule "1.IH" [OF False m_def]) (use "1.prems" same_blocks_ok [OF u] m(2) in auto)
      then show ?thesis
        by (rule runs_mono) (use same_blocks_ok(3) [OF u] same_blocks_trans [OF u] m(2) in auto)
    qed
    have all: "[off..<off + n] = [off..<off + m] @ [off + m..<off + n]" using m(2) upt_add_eq_append [of off "off + m" "n - m"] by simp
    show ?thesis
      unfolding chunks.simps [of off n] m_def [symmetric] Let_def if_not_P [OF False] readi_loop.simps runs_bind [of "bmap _ _ _"]
    proof (rule runs_mono [OF bmap_mapped [OF "1.prems"(1,2) bn a "1.prems"(3)]], clarify)
      fix t
      assume t: "same_blocks s t"
      note k = same_blocks_ok [OF t]
      have "runs (bread 1 ?a t) (\<lambda>(bp, t'). bdata bp t' = view s ?a \<and> (\<exists>u. brelse bp t' = Inr u \<and> same_blocks s u))"
        by (rule bread_brelse)
          (use k(1) [OF "1.prems"(1)] "1.prems"(3) slot_bound [OF "1.prems"(1,2) so a] t off_log_fs(4) [of t s] in \<open>auto simp: same_blocks_def\<close>)
      then obtain bp t' u where u: "bread 1 ?a t = Inr (bp, t')" "bdata bp t' = view s ?a" "brelse bp t' = Inr u" "same_blocks s u"
        by (auto simp: runs_def)
      obtain bs v where "readi_loop ip (chunks (off + m) (n - m)) u = Inr (bs, v)" "bs = map (fbyte s ip) [off + m..<off + n]" "same_blocks s v"
        using IH [OF u(4)] by (auto simp: runs_def)
      then show "runs (bindR (bread (i_dev (icache t ip)) ?a t) (\<lambda>(bp, s). bindR (brelse bp s) (\<lambda>sa.
          bindR (readi_loop ip (chunks (off + m) (n - m)) sa) (\<lambda>(bs, sa). Inr (map (\<lambda>i. bdata bp s (off mod BSIZE + i)) [0..<m] @ bs, sa)))))
          (\<lambda>(bs, t). bs = map (fbyte s ip) [off..<off + n] \<and> same_blocks s t)"
        using u k(5) inode_okD(1) [OF "1.prems"(2)] bytes by (simp add: all)
    qed
  qed
qed


section \<open>Growing\<close>

text \<open>
  The inode has been changed: it has at most \<open>f\<close> more blocks from the free map, at most \<open>r\<close> blocks of the log have been used, and its bytes
  are now those of \<open>F\<close>. No block of the inode has moved, and no other block in use has changed but those of the free map.
\<close>

definition edited :: "nat \<Rightarrow> nat \<Rightarrow> nat \<Rightarrow> (nat \<Rightarrow> byte) \<Rightarrow> 'a fsst_scheme \<Rightarrow> 'a fsst_scheme \<Rightarrow> bool" where
  "edited ip r f F s t \<longleftrightarrow> fs_ok t \<and> inode_ok t ip \<and> busy t = busy s \<and> room s \<le> room t + r \<and> nfree s \<le> nfree t + f \<and>
     off_log (t\<lparr>icache := icache s\<rparr>) = off_log s \<and>
     (\<exists>as. icache t = (icache s)(ip := (icache s ip)\<lparr>i_dinode := (idata ip s)\<lparr>d_addrs := as\<rparr>\<rparr>)) \<and>
     (\<forall>k < MAXFILE * BSIZE. fbyte t ip k = F k) \<and> (\<forall>b < sb_size (sb s). in_use s b \<longrightarrow> in_use t b) \<and>
     (\<forall>j \<le> MAXFILE. slot t ip j = slot s ip j \<or> slot s ip j = 0 \<and> \<not> in_use s (slot t ip j)) \<and>
     (\<forall>b. data_block s b \<longrightarrow> b \<notin> slot s ip ` {..MAXFILE} \<longrightarrow> view t b = view s b) \<and> (\<forall>b < bmapstart (sb s). view t b = view s b)"

text \<open>More blocks, but the same bytes.\<close>

abbreviation grown :: "nat \<Rightarrow> nat \<Rightarrow> nat \<Rightarrow> 'a fsst_scheme \<Rightarrow> 'a fsst_scheme \<Rightarrow> bool" where
  "grown ip r f s t \<equiv> edited ip r f (fbyte s ip) s t"

lemma editedD:
  assumes "edited ip r f F s t"
  shows "fs_ok t" "inode_ok t ip" "busy t = busy s" "room s \<le> room t + r" "nfree s \<le> nfree t + f"
    "\<And>k. k < MAXFILE * BSIZE \<Longrightarrow> fbyte t ip k = F k" "\<And>b. b < sb_size (sb s) \<Longrightarrow> in_use s b \<Longrightarrow> in_use t b"
    "\<And>j. j \<le> MAXFILE \<Longrightarrow> slot t ip j = slot s ip j \<or> slot s ip j = 0 \<and> \<not> in_use s (slot t ip j)"
    "\<And>b. data_block s b \<Longrightarrow> b \<notin> slot s ip ` {..MAXFILE} \<Longrightarrow> view t b = view s b" "\<And>b. b < bmapstart (sb s) \<Longrightarrow> view t b = view s b"
  using assms unfolding edited_def by blast+

lemma off_log_icache: "off_log (s\<lparr>icache := x\<rparr>) = (off_log s)\<lparr>icache := x\<rparr>"
  by (simp add: off_log_def off_bio_def)

lemma i_dinode_upd: "i_dinode_update f x = x\<lparr>i_dinode := f (i_dinode x)\<rparr>"
  by (cases x) simp

lemma off_log_same: "(off_log s)\<lparr>icache := icache s\<rparr> = off_log s"
  using off_log_icache [where s = s and x = "icache s"] by simp

lemma grown_refl: "fs_ok s \<Longrightarrow> inode_ok s ip \<Longrightarrow> grown ip r f s s"
  unfolding edited_def by (auto intro!: exI [of _ "d_addrs (idata ip s)"])

lemma edited_frame:
  assumes "edited ip r f F s t"
  shows "sb t = sb s" "disksize t = disksize s" "mypid t = mypid s" "outstanding t = outstanding s" "loggable t = loggable s"
    "jp \<noteq> ip \<Longrightarrow> icache t jp = icache s jp" "i_inum (icache t ip) = i_inum (icache s ip)" "i_dev (icache t ip) = i_dev (icache s ip)"
    "d_size (idata ip t) = d_size (idata ip s)" "d_type (idata ip t) = d_type (idata ip s)"
proof -
  obtain as where i: "icache t = (icache s)(ip := (icache s ip)\<lparr>i_dinode := (idata ip s)\<lparr>d_addrs := as\<rparr>\<rparr>)"
    and o: "off_log (t\<lparr>icache := icache s\<rparr>) = off_log s" using assms by (auto simp: edited_def)
  note f = i off_log_fs [OF o] off_log_fields [OF o]
  show "sb t = sb s" "disksize t = disksize s" "mypid t = mypid s" "outstanding t = outstanding s" "loggable t = loggable s"
    "jp \<noteq> ip \<Longrightarrow> icache t jp = icache s jp" "i_inum (icache t ip) = i_inum (icache s ip)" "i_dev (icache t ip) = i_dev (icache s ip)"
    "d_size (idata ip t) = d_size (idata ip s)" "d_type (idata ip t) = d_type (idata ip s)"
    using f by simp_all
qed

lemma edited_trans:
  assumes "fs_ok s" "edited ip r f F s t" "edited ip r' f' G t u"
  shows "edited ip (r + r') (f + f') G s u"
proof -
  note g = editedD [OF assms(2)] and h = editedD [OF assms(3)] and e = edited_frame(1) [OF assms(2)]
  have db: "data_block t b" if "data_block s b" for b
    using that g(3) g(7) [of b] e by (simp add: data_block_def)
  have "slot u ip j = slot s ip j \<or> slot s ip j = 0 \<and> \<not> in_use s (slot u ip j)" if "j \<le> MAXFILE" for j
  proof -
    have "slot u ip j < sb_size (sb s)" if "slot u ip j \<noteq> 0"
      using inode_okD(4) [OF h(2) \<open>j \<le> MAXFILE\<close> that] edited_frame(1) [OF assms(3)] e by (simp add: data_block_def)
    moreover have "in_use s 0" using fs_okD(6) [OF assms(1)] by (simp add: data_start_def)
    ultimately show ?thesis using g(8) [OF that] h(8) [OF that] g(7) by metis
  qed
  moreover have "view u b = view s b" if "data_block s b" "b \<notin> slot s ip ` {..MAXFILE}" for b
  proof -
    have "b \<notin> slot t ip ` {..MAXFILE}" using that g(8) by (fastforce simp: data_block_def)
    then show ?thesis using g(9) [OF that] h(9) [OF db [OF that(1)]] by simp
  qed
  moreover have "off_log (u\<lparr>icache := icache s\<rparr>) = off_log s"
  proof -
    have "off_log (t\<lparr>icache := icache s\<rparr>) = off_log s" "off_log (u\<lparr>icache := icache t\<rparr>) = off_log t" using assms(2,3) by (simp_all add: edited_def)
    then have "off_log (u\<lparr>icache := icache t\<rparr>)\<lparr>icache := icache s\<rparr> = off_log s" by (simp only: off_log_icache)
    then show ?thesis by (simp add: off_log_icache)
  qed
  moreover have "\<exists>as. icache u = (icache s)(ip := (icache s ip)\<lparr>i_dinode := (idata ip s)\<lparr>d_addrs := as\<rparr>\<rparr>)"
    using assms(2,3) by (auto simp: edited_def)
  ultimately show ?thesis unfolding edited_def using g h e by auto
qed


text \<open>One free block \<open>c\<close> has become slot \<open>j\<close> of the inode.\<close>

lemma slot_added:
  assumes s: "fs_ok s" "inode_ok s ip" and c: "c < sb_size (sb s)" "\<not> in_use s c"
    and t: "log_inv t" "off_log (t\<lparr>icache := icache s\<rparr>) = off_log s" "busy t = busy s" "room s \<le> room t + r"
      "\<And>b. b < sb_size (sb s) \<Longrightarrow> in_use t b \<longleftrightarrow> b = c \<or> in_use s b"
      "icache t = (icache s)(ip := (icache s ip)\<lparr>i_dinode := (idata ip s)\<lparr>d_addrs := as\<rparr>\<rparr>)" "dinode_ok (idata ip t)"
      "j \<le> MAXFILE" "slot s ip j = 0" "\<And>j'. j' \<le> MAXFILE \<Longrightarrow> slot t ip j' = (if j' = j then c else slot s ip j')"
      "\<And>k. k < BSIZE \<Longrightarrow> view t c k = 0" "\<And>b. data_block s b \<Longrightarrow> b \<noteq> slot s ip NDIRECT \<Longrightarrow> view t b = view s b"
      "\<And>b. b < bmapstart (sb s) \<Longrightarrow> view t b = view s b"
  shows "grown ip r 1 s t"
proof -
  note f = off_log_fs [OF t(2)] off_log_fields [OF t(2)] and k = fs_okD [OF s(1)] and i = inode_okD [OF s(2)]
  have sb: "sb t = sb s" "disksize t = disksize s" "log_start t = log_start s" "log_size t = log_size s" using f by simp_all
  have cd: "data_start (sb s) \<le> c" using k(6) [of c] c(2) by (metis not_le)
  have cb: "c \<notin> busy s" using k(7) c(2) by blast
  have db: "data_block t b \<longleftrightarrow> b = c \<or> data_block s b" for b
    using t(3) t(5) [of b] c cd cb sb by (auto simp: data_block_def)
  have fs: "fs_ok t"
    unfolding fs_ok_def sb t(3) using k t(1) t(5) less_le_trans [OF _ k(4)] by auto
  have "slot t ip a = slot t ip b \<Longrightarrow> slot t ip a \<noteq> 0 \<Longrightarrow> a \<le> MAXFILE \<Longrightarrow> b \<le> MAXFILE \<Longrightarrow> a = b" for a b
    using t(10) [of a] t(10) [of b] i(4) [of a] i(4) [of b] i(5) [of a b] c(2) by (auto simp: data_block_def split: if_splits)
  moreover have "data_block t (slot t ip a)" if "a \<le> MAXFILE" "slot t ip a \<noteq> 0" for a
    using that t(10) [of a] i(4) [of a] db by (auto split: if_splits)
  ultimately have ino: "inode_ok t ip" unfolding inode_ok_def using t(6,7) i(1,2) sb(1) by auto
  have bytes: "fbyte t ip x = fbyte s ip x" if "x < MAXFILE * BSIZE" for x
  proof -
    let ?a = "slot_of (x div BSIZE)"
    have "x div BSIZE < MAXFILE" using that by (simp add: less_mult_imp_div_less)
    then have a: "?a \<le> MAXFILE" "?a \<noteq> NDIRECT" by (auto simp: slot_of_def)
    have "view t (slot s ip ?a) = view s (slot s ip ?a)" if "slot s ip ?a \<noteq> 0"
      using t(12) [OF i(4) [OF a(1) that]] i(5) [OF a(1), of NDIRECT] that a(2) by auto
    then show ?thesis using t(9,11) t(10) [OF a(1)] by (auto simp: fbyte_def Let_def)
  qed
  have "{b. b < sb_size (sb s) \<and> \<not> in_use s b} = insert c {b. b < sb_size (sb t) \<and> \<not> in_use t b}" using t(5) sb(1) c by auto
  moreover have "c \<notin> {b. b < sb_size (sb t) \<and> \<not> in_use t b}" using t(5) [OF c(1)] by simp
  ultimately have "nfree s = nfree t + 1" by (simp add: nfree_def)
  then show ?thesis
    unfolding edited_def using fs ino bytes t(2-6,9,10,13) c(2) t(12) by (auto simp: image_iff)
qed

lemma get32_zero: "(\<And>i. k \<le> i \<Longrightarrow> i < k + 4 \<Longrightarrow> d i = 0) \<Longrightarrow> get32 d k = 0"
  by (simp add: get32_def)

lemma data_not_map:
  assumes "data_block s b" "c < sb_size (sb s)"
  shows "b \<noteq> BBLOCK c (sb s)"
  using assms BBLOCK_bounds [OF assms(2)] by (auto simp: data_block_def)

text \<open>What \<open>balloc\<close> leaves as it is.\<close>

lemma taken_views:
  assumes "fs_ok s" "outstanding s \<ge> 1" "c < sb_size (sb s)" "\<not> in_use s c" "taken c s t"
  shows "data_start (sb s) \<le> b \<Longrightarrow> in_use s b \<Longrightarrow> view t b = view s b" "b < bmapstart (sb s) \<Longrightarrow> view t b = view s b"
    "k < BSIZE \<Longrightarrow> view t c k = 0"
proof -
  have v: "view t = (view s)(BBLOCK c (sb s) := set_bit_of (c mod BPB) (view s (BBLOCK c (sb s))), c := zero_block (view s c))"
    using assms(5) by (simp add: taken_def)
  have c: "data_start (sb s) \<le> c" using fs_okD(6) [OF assms(1), of c] assms(4) by (metis not_le)
  note m = BBLOCK_bounds [OF assms(3)]
  show "data_start (sb s) \<le> b \<Longrightarrow> in_use s b \<Longrightarrow> view t b = view s b" using assms(4) m by (auto simp: v)
  show "b < bmapstart (sb s) \<Longrightarrow> view t b = view s b" using m c by (auto simp: v)
  show "k < BSIZE \<Longrightarrow> view t c k = 0" by (simp add: v zero_block_def)
qed

lemma free_exists:
  assumes "0 < nfree s"
  obtains c where "find (\<lambda>b. \<not> in_use s b) [0..<sb_size (sb s)] = Some c"
proof (cases "find (\<lambda>b. \<not> in_use s b) [0..<sb_size (sb s)]")
  case None
  then have "{b. b < sb_size (sb s) \<and> \<not> in_use s b} = {}" unfolding find_None_iff by auto
  then have "nfree s = 0" unfolding nfree_def by (metis card.empty)
  then show ?thesis using assms by simp
qed (rule that)

lemma alloc_addr:
  assumes "fs_ok s" "inode_ok s ip" "outstanding s \<ge> 1" "card (busy s) + 2 \<le> room s" "0 < nfree s" "i \<le> NDIRECT"
  shows "runs (if d_addrs (idata ip s) ! i = 0
      then bindR (balloc 1 s) (\<lambda>(addr, s). Inr (addr, upd_dinode ip (\<lambda>x. x\<lparr>d_addrs := (d_addrs x)[i := addr]\<rparr>) s))
      else Inr (d_addrs (idata ip s) ! i, s))
    (\<lambda>(a, t). a = slot t ip i \<and> a \<noteq> 0 \<and> grown ip 2 1 s t)"
proof (cases "d_addrs (idata ip s) ! i = 0")
  case False
  then show ?thesis using grown_refl [OF assms(1,2)] assms(6) by (simp add: slot_simps(1))
next
  case True
  note k = fs_okD [OF assms(1)] and n = inode_okD [OF assms(2)] and m = fs_ok_map [OF assms(1,3)]
  obtain c where c: "find (\<lambda>b. \<not> in_use s b) [0..<sb_size (sb s)] = Some c" using free_exists [OF assms(5)] .
  note b = balloc_runs [OF m assms(4) c]
  obtain u where u: "balloc 1 s = Inr (c, u)" "taken c s u" using b(1) by (auto simp: runs_def)
  then have o: "off_log u = off_log s" "log_inv u" "busy u = busy s" "room s \<le> room u + 2" by (simp_all add: taken_def)
  let ?t = "upd_dinode ip (\<lambda>x. x\<lparr>d_addrs := (d_addrs x)[i := c]\<rparr>) u"
  note f = off_log_fs [OF o(1)] and v = taken_views [OF assms(1,3) b(2,3) u(2)]
  have len: "length (d_addrs (idata ip s)) = NDIRECT + 1" using n(3) by (simp add: dinode_ok_def)
  have "c < 2 ^ 32" using b(2) k(5) log_invD(9) [OF k(1)] by linarith
  then have d: "dinode_ok (idata ip ?t)" using n(3) f(2) by (auto simp: dinode_ok_def dest!: subsetD [OF set_update_subset_insert])
  have ind: "view u x = view s x" if "x = d_addrs (idata ip s) ! NDIRECT" "x \<noteq> 0" for x
    using n(4) [of NDIRECT] that v(1) [of x] by (simp add: slot_simps(1) data_block_def)
  have sl: "slot ?t ip j = (if j = i then c else slot s ip j)" if "j \<le> MAXFILE" for j
  proof (cases "j \<le> NDIRECT")
    case True
    then show ?thesis using assms(6) len f(2) by (simp add: slot_simps(1) nth_list_update)
  next
    case False
    have z: "get32 (view u c) (4 * (j - NDIRECT - 1)) = 0" using v(3) that by (intro get32_zero) auto
    show ?thesis
      using False assms(6) len f(2) True z ind by (cases "i = NDIRECT") (auto simp: slot_def Let_def nth_list_update)
  qed
  have "grown ip 2 1 s ?t"
  proof (rule slot_added [OF assms(1,2) b(2,3)])
    show "icache ?t = (icache s)(ip := (icache s ip)\<lparr>i_dinode := (idata ip s)\<lparr>d_addrs := (d_addrs (idata ip s))[i := c]\<rparr>\<rparr>)"
      using f(2) by (simp add: i_dinode_upd [of "\<lambda>x. x\<lparr>d_addrs := (d_addrs x)[i := c]\<rparr>"])
    show "off_log (?t\<lparr>icache := icache s\<rparr>) = off_log s" using o(1) f(2) by (simp add: off_log_icache off_log_same)
    show "in_use ?t b \<longleftrightarrow> b = c \<or> in_use s b" if "b < sb_size (sb s)" for b
      using taken_in_use [OF m b(2,3) u(2) that] by (simp add: in_use_def)
    show "slot s ip i = 0" using True assms(6) by (simp add: slot_simps(1))
    show "view ?t b = view s b" if "data_block s b" for b using that v(1) by (simp add: data_block_def)
  qed (use o d sl v assms(6) in simp_all)
  moreover have "in_use s 0" using k(6) by (simp add: data_start_def)
  then have "c \<noteq> 0" using b(3) by metis
  ultimately show ?thesis using True u(1) sl [of i] assms(6) by simp
qed


lemma same_in_use: "off_log t = off_log s \<Longrightarrow> view t = view s \<Longrightarrow> in_use t = in_use s \<and> nfree t = nfree s"
proof -
  assume "off_log t = off_log s" "view t = view s"
  then have "in_use t = in_use s" "sb t = sb s" using off_log_fs(1) [of t s] by (auto intro!: ext simp: in_use_def)
  then show ?thesis by (simp add: nfree_def)
qed

lemma same_blocks_grown:
  assumes "same_blocks s t" "fs_ok s" "inode_ok s ip"
  shows "grown ip r f s t"
proof -
  note k = same_blocks_ok [OF assms(1)]
  have o: "off_log t = off_log s" "view t = view s" using assms(1) by (simp_all add: same_blocks_def)
  have "off_log (t\<lparr>icache := icache s\<rparr>) = off_log s" using o(1) by (simp add: off_log_icache off_log_same)
  then show ?thesis
    unfolding edited_def using k assms(2,3) o(2) same_in_use [OF o] by (auto intro!: exI [of _ "d_addrs (idata ip s)"])
qed

text \<open>The free block \<open>c\<close> has become an entry of the indirect block \<open>ind\<close>.\<close>

lemma entry_added:
  assumes s: "fs_ok s" "inode_ok s ip" "NDIRECT \<le> bn" "bn < MAXFILE" "slot s ip NDIRECT = ind" "ind \<noteq> 0" "slot s ip (bn + 1) = 0"
    and c: "c < sb_size (sb s)" "\<not> in_use s c"
    and w: "log_inv w" "off_log w = off_log s" "room s \<le> room w + 3" "busy w = busy s"
      "\<And>b. b < sb_size (sb s) \<Longrightarrow> in_use w b \<longleftrightarrow> b = c \<or> in_use s b"
      "view w ind = put32 (4 * (bn - NDIRECT)) (of_nat c) (view s ind)" "\<And>k. k < BSIZE \<Longrightarrow> view w c k = 0"
      "\<And>b. data_start (sb s) \<le> b \<Longrightarrow> in_use s b \<Longrightarrow> b \<noteq> ind \<Longrightarrow> view w b = view s b"
      "\<And>b. b < bmapstart (sb s) \<Longrightarrow> view w b = view s b"
  shows "c = slot w ip (bn + 1) \<and> c \<noteq> 0 \<and> grown ip 3 1 s w"
proof -
  note k = fs_okD [OF s(1)] and h = off_log_fs [OF w(2)]
  have c32: "unat (of_nat c :: u32) = c" using c(1) k(5) log_invD(9) [OF k(1)] by (simp add: unat_of_nat)
  have sl: "slot w ip j = (if j = bn + 1 then c else slot s ip j)" if "j \<le> MAXFILE" for j
  proof (cases "j \<le> NDIRECT")
    case True
    then show ?thesis using s(3) h(2) by (simp add: slot_simps(1))
  next
    case False
    define e where "e = j - 1"
    have e: "j = e + 1" "NDIRECT \<le> e" using False by (auto simp: e_def)
    have i: "slot w ip NDIRECT = ind" using s(5) h(2) by (simp add: slot_simps(1))
    show ?thesis
    proof (cases "e = bn")
      case True
      then show ?thesis using slot_simps(2) [OF e(2), of w ip] e(1) i s(6) w(6) c32 by simp
    next
      case False
      then have "4 * (bn - NDIRECT) + 4 \<le> 4 * (e - NDIRECT) \<or> 4 * (e - NDIRECT) + 4 \<le> 4 * (bn - NDIRECT)" using s(3) e(2) by linarith
      then show ?thesis
        using slot_simps(2) [OF e(2), of w ip] slot_simps(2) [OF e(2), of s ip] e(1) i s(5,6) w(6) False by (simp add: get_put32_other)
    qed
  qed
  have "grown ip 3 1 s w"
  proof (rule slot_added [OF s(1,2) c, where as = "d_addrs (idata ip s)"])
    show "off_log (w\<lparr>icache := icache s\<rparr>) = off_log s" using w(2) by (simp add: off_log_icache off_log_same)
    show "view w b = view s b" if "data_block s b" "b \<noteq> slot s ip NDIRECT" for b using that w(8) s(5) by (simp add: data_block_def)
  qed (use w h(2) inode_okD(3) [OF s(2)] sl s(4,7) in simp_all)
  moreover have "in_use s 0" using k(6) by (simp add: data_start_def)
  then have "c \<noteq> 0" using c(2) by metis
  ultimately show ?thesis using sl [of "bn + 1"] s(4) by simp
qed

text \<open>An entry of the indirect block \<open>ind\<close>, which the caller holds, is filled in.\<close>

lemma fill_entry:
  assumes s: "fs_ok s" "inode_ok s ip" "NDIRECT \<le> bn" "bn < MAXFILE" "slot s ip NDIRECT = ind" "ind \<noteq> 0" "slot s ip (bn + 1) = 0"
    and r: "outstanding s \<ge> 1" "card (busy s) + 3 \<le> room s" "0 < nfree s"
    and t: "log_inv t" "off_log t = off_log s" "room t = room s" "view t = view s" "busy t = insert ind (busy s)" "holds t i ind"
  shows "runs (balloc 1 t) (\<lambda>(c, u). runs (bindR (log_write i (bset i (put32 (4 * (bn - NDIRECT)) (of_nat c) (bdata i u)) u)) (brelse i))
    (\<lambda>v. c = slot v ip (bn + 1) \<and> c \<noteq> 0 \<and> grown ip 3 1 s v))"
proof -
  note k = fs_okD [OF s(1)] and f = off_log_fs [OF t(2)] off_log_fields [OF t(2)] and iu = same_in_use [OF t(2,4)]
  have ind: "data_start (sb s) \<le> ind" "ind < sb_size (sb s)" "in_use s ind" "ind \<notin> busy s"
    using inode_okD(4) [OF s(2), of NDIRECT] s(5,6) by (auto simp: data_block_def)
  have tk: "fs_ok t" using k t(1,5) f iu ind unfolding fs_ok_def by auto
  have out: "outstanding t \<ge> 1" using r(1) f by simp
  have room: "card (busy t) + 2 \<le> room t" using r(2) t(3,5) by (simp add: card_insert_if finite_blocks_with)
  note m = fs_ok_map [OF tk out]
  obtain c where c: "find (\<lambda>b. \<not> in_use t b) [0..<sb_size (sb t)] = Some c" using free_exists [of t] r(3) iu by auto
  note b = balloc_runs [OF m room c]
  obtain u where u: "balloc 1 t = Inr (c, u)" "taken c t u" using b(1) by (auto simp: runs_def)
  have o: "off_log u = off_log s" "log_inv u" "busy u = busy t" "room t \<le> room u + 2" "holds u i ind"
    using u(2) t(2,6) by (simp_all add: taken_def)
  note v = taken_views [OF tk out b(2,3) u(2)] and g = off_log_fs [OF o(1)]
  have cs: "c < sb_size (sb s)" "\<not> in_use s c" "c \<noteq> ind" using b(2,3) f(1) iu ind(3) by auto
  have d: "bdata i u = view s ind"
    using bcache.data_ok [OF log_invD(1) [OF o(2)] o(5)] v(1) [of ind] ind f(1) iu t(4) by (simp add: bdev_of_simps)
  have l: "loggable u ind" using g(3) k(2,3,5) ind(1,2) r(1) by (simp add: loggable_def data_start_def)
  have "0 < room u" using o(4) r(2) t(3) by linarith
  from log_write_brelse [OF o(2,5) l this] show ?thesis
    unfolding u(1) runs_simps prod.case d
  proof (rule runs_mono, goal_cases)
    case (1 w)
    have ow: "off_log w = off_log s" using 1 o(1) by simp
    note h = off_log_fs [OF ow]
    have vw: "view w = (view u)(ind := put32 (4 * (bn - NDIRECT)) (of_nat c) (view s ind))" using 1 by simp
    have "in_use w b \<longleftrightarrow> b = c \<or> in_use s b" if "b < sb_size (sb s)" for b
    proof -
      have "BBLOCK b (sb s) \<noteq> ind" using BBLOCK_bounds [OF that] ind(1) by auto
      then have "in_use w b = in_use u b" using h(1) g(1) by (simp add: in_use_def vw)
      then show ?thesis using taken_in_use [OF m b(2,3) u(2)] that f(1) iu by simp
    qed
    moreover have "b < bmapstart (sb s) \<Longrightarrow> b \<noteq> ind" for b using ind(1) by (auto simp: data_start_def)
    ultimately show ?case
      using 1 ow o(3,4) t(3-5) v f(1) iu ind(4) cs(3) by (intro entry_added [OF s cs(1,2)]) (auto simp: vw)
  qed
qed


lemma edited_mono: "edited ip r f F s t \<Longrightarrow> r \<le> r' \<Longrightarrow> f \<le> f' \<Longrightarrow> edited ip r' f' F s t"
  unfolding edited_def by auto

lemma edited_cong: "edited ip r f F s t \<Longrightarrow> (\<And>k. k < MAXFILE * BSIZE \<Longrightarrow> F k = G k) \<Longrightarrow> edited ip r f G s t"
  unfolding edited_def by simp

lemma bmap_entry:
  assumes s: "fs_ok s" "inode_ok s ip" "NDIRECT \<le> bn" "bn < MAXFILE" "slot s ip NDIRECT = ind" "ind \<noteq> 0"
    and r: "outstanding s \<ge> 1" "card (busy s) + 3 \<le> room s" "0 < nfree s"
  shows "runs (bindR (bread 1 ind s) (\<lambda>(bp, s).
      if get32 (bdata bp s) (4 * (bn - NDIRECT)) = 0
      then bindR (balloc 1 s) (\<lambda>(addr, s).
           bindR (log_write bp (bset bp (put32 (4 * (bn - NDIRECT)) (of_nat addr) (bdata bp s)) s)) (\<lambda>s.
           bindR (brelse bp s) (\<lambda>s. Inr (addr, s))))
      else bindR (brelse bp s) (\<lambda>sa. Inr (unat (get32 (bdata bp s) (4 * (bn - NDIRECT))), sa))))
    (\<lambda>(a, t). a = slot t ip (bn + 1) \<and> a \<noteq> 0 \<and> grown ip 3 1 s t)"
proof -
  note k = fs_okD [OF s(1)]
  have "slot s ip NDIRECT \<noteq> 0" using s(5,6) by simp
  from slot_bound [OF s(1,2) _ this] have ind: "ind < disksize s" "ind \<notin> busy s" using s(5) by simp_all
  have e: "slot s ip (bn + 1) = unat (get32 (view s ind) (4 * (bn - NDIRECT)))" using slot_simps(2) [OF s(3), of s ip] s(5,6) by simp
  have rm: "card (busy s) \<le> room s" using r(2) by simp
  show ?thesis
  proof (cases "get32 (view s ind) (4 * (bn - NDIRECT)) = 0")
    case True
    then have z: "slot s ip (bn + 1) = 0" using e by simp
    show ?thesis
      unfolding runs_bind [of "bread _ _ _"]
    proof (rule bread_log [OF k(1) ind(2,1) rm], goal_cases)
      case (1 i t)
      show ?case
        unfolding prod.case 1(8) if_P [OF True] runs_bind [of "balloc _ _"]
        by (rule runs_mono [OF fill_entry [OF s z r 1(1-6)]]) (auto simp: runs_bind)
    qed
  next
    case False
    then have nz: "0 < unat (get32 (view s ind) (4 * (bn - NDIRECT)))" by (simp add: unat_eq_0 flip: neq0_conv)
    show ?thesis
      unfolding runs_bind [of "bread _ _ _"]
    proof (rule bread_brelse [OF k(1) ind(2,1) rm], goal_cases)
      case (1 i t u)
      then have "same_blocks s u" by (simp add: same_blocks_def)
      then show ?case
        using same_blocks_grown [OF _ s(1,2)] same_blocks_ok(2) [of s u] 1(2,3) False e nz by simp
    qed
  qed
qed

lemma bmap_grows:
  assumes "fs_ok s" "inode_ok s ip" "outstanding s \<ge> 1" "card (busy s) + 5 \<le> room s" "2 \<le> nfree s" "bn < MAXFILE"
  shows "runs (bmap ip bn s) (\<lambda>(a, t). a = slot t ip (slot_of bn) \<and> a \<noteq> 0 \<and> grown ip 5 2 s t)"
proof -
  have r: "card (busy s) + 2 \<le> room s" "0 < nfree s" using assms(4,5) by simp_all
  note a = alloc_addr [OF assms(1-3) r]
  have dev: "i_dev (icache s ip) = 1" using inode_okD(1) [OF assms(2)] .
  show ?thesis
  proof (cases "bn < NDIRECT")
    case True
    have "runs (if d_addrs (idata ip s) ! bn = 0
      then bindR (balloc 1 s) (\<lambda>(addr, s). Inr (addr, upd_dinode ip (\<lambda>x. x\<lparr>d_addrs := (d_addrs x)[bn := addr]\<rparr>) s))
      else Inr (d_addrs (idata ip s) ! bn, s)) (\<lambda>(a, t). a = slot t ip (slot_of bn) \<and> a \<noteq> 0 \<and> grown ip 5 2 s t)"
      by (rule runs_mono [OF a]) (use True in \<open>auto simp: slot_of_def intro: edited_mono\<close>)
    then show ?thesis unfolding bmap_def Let_def dev if_P [OF True] .
  next
    case False
    then have sl: "slot_of bn = bn + 1" and bn: "NDIRECT \<le> bn" by (simp_all add: slot_of_def)
    have i: "bn - NDIRECT < NINDIRECT" using assms(6) bn by simp
    show ?thesis
      unfolding bmap_def Let_def dev if_not_P [OF False] if_P [OF i] sl runs_bind [of "if _ then _ else _"]
    proof (rule runs_mono [OF a [OF order_refl]], goal_cases)
      case (1 x)
      obtain c t where x: "x = (c, t)" by fastforce
      then have t: "slot t ip NDIRECT \<noteq> 0" "grown ip 2 1 s t" "c = slot t ip NDIRECT" using 1 by auto
      note g = editedD [OF t(2)] and h = edited_frame [OF t(2)]
      have q: "outstanding t \<ge> 1" "card (busy t) + 3 \<le> room t" "0 < nfree t" using assms(3-5) g(3-5) h(4) by simp_all
      have "grown ip 5 2 s u" if "grown ip 3 1 t u" for u
        by (rule edited_mono [OF edited_cong [OF edited_trans [OF assms(1) t(2) that]]]) (simp_all add: g(6))
      then show ?case
        unfolding x prod.case t(3) by (intro runs_mono [OF bmap_entry [OF g(1,2) bn assms(6) refl t(1) q]]) auto
    qed
  qed
qed


section \<open>Writing\<close>

lemma slot_of_inj: "slot_of a = slot_of b \<longleftrightarrow> a = b"
  by (auto simp: slot_of_def)

lemma slot_of_bounds: "slot_of bn \<noteq> NDIRECT" "bn < MAXFILE \<Longrightarrow> slot_of bn \<le> MAXFILE"
  by (auto simp: slot_of_def)

lemma same_div: "x div BSIZE = y div BSIZE \<Longrightarrow> x \<le> y \<longleftrightarrow> x mod BSIZE \<le> y mod BSIZE" "x div BSIZE = y div BSIZE \<Longrightarrow> y - x = y mod BSIZE - x mod BSIZE"
  using div_mult_mod_eq [of x BSIZE] div_mult_mod_eq [of y BSIZE] by linarith+

lemma put_bytes_chunk:
  assumes "length bs \<le> BSIZE - off mod BSIZE"
  shows "x div BSIZE = off div BSIZE \<Longrightarrow> put_bytes (off mod BSIZE) bs d (x mod BSIZE) = (if off \<le> x \<and> x < off + length bs then bs ! (x - off) else d (x mod BSIZE))"
    "x div BSIZE \<noteq> off div BSIZE \<Longrightarrow> \<not> (off \<le> x \<and> x < off + length bs)"
proof -
  show "x div BSIZE \<noteq> off div BSIZE \<Longrightarrow> \<not> (off \<le> x \<and> x < off + length bs)"
  proof
    assume n: "x div BSIZE \<noteq> off div BSIZE" and x: "off \<le> x \<and> x < off + length bs"
    have "x - off < length bs" using x by linarith
    from chunk_block(1) [OF assms this] show False using n x by simp
  qed
  assume e: "x div BSIZE = off div BSIZE"
  have "off \<le> x \<Longrightarrow> x < off + length bs \<longleftrightarrow> x mod BSIZE < off mod BSIZE + length bs"
    using same_div(2) [OF e [symmetric]] same_div(1) [OF e [symmetric]] by linarith
  then show "put_bytes (off mod BSIZE) bs d (x mod BSIZE) = (if off \<le> x \<and> x < off + length bs then bs ! (x - off) else d (x mod BSIZE))"
    using same_div [OF e [symmetric]] by (auto simp: put_bytes_def)
qed

text \<open>One block of the inode has been changed.\<close>

lemma block_changed:
  assumes t: "fs_ok t" "inode_ok t ip" and a: "a = slot t ip (slot_of bn)" "a \<noteq> 0" "bn < MAXFILE"
    and u: "log_inv u" "off_log u = off_log t" "room t \<le> room u + 1" "busy u = busy t" "view u = (view t)(a := d)"
  shows "edited ip 1 0 (\<lambda>x. if x div BSIZE = bn then d (x mod BSIZE) else fbyte t ip x) t u"
proof -
  note k = fs_okD [OF t(1)] and n = inode_okD [OF t(2)] and f = off_log_fs [OF u(2)] off_log_fields [OF u(2)]
  have so: "slot_of bn \<le> MAXFILE" using slot_of_bounds a(3) by simp
  have db: "data_block t a" using n(4) [OF so] a by simp
  then have "BBLOCK b (sb t) \<noteq> a" if "b < sb_size (sb t)" for b using data_not_map that by blast
  then have iu: "in_use u b = in_use t b" if "b < sb_size (sb t)" for b using that f(1) by (simp add: in_use_def u(5))
  then have "{b. b < sb_size (sb u) \<and> \<not> in_use u b} = {b. b < sb_size (sb t) \<and> \<not> in_use t b}" using f(1) by auto
  then have nf: "nfree u = nfree t" by (simp add: nfree_def)
  have "slot t ip NDIRECT \<noteq> a" using n(5) [OF so, of NDIRECT] a(1,2) slot_of_bounds(1) [of bn] by auto
  then have sl: "slot u ip j = slot t ip j" for j using f(2) by (simp add: slot_def Let_def u(5))
  have dbu: "data_block u b = data_block t b" for b using f(1) iu u(4) by (auto simp: data_block_def)
  have fs: "fs_ok u" unfolding fs_ok_def f u(4) using k u(1) iu less_le_trans [OF _ k(4)] by auto
  have ino: "inode_ok u ip" using t(2) unfolding inode_ok_def sl dbu f by blast
  have "fbyte u ip x = (if x div BSIZE = bn then d (x mod BSIZE) else fbyte t ip x)" if x: "x < MAXFILE * BSIZE" for x
  proof (cases "x div BSIZE = bn")
    case True
    then show ?thesis using a(1,2) by (simp add: fbyte_def Let_def sl u(5))
  next
    case False
    have "slot_of (x div BSIZE) \<le> MAXFILE" using x slot_of_bounds(2) [of "x div BSIZE"] by (simp add: less_mult_imp_div_less)
    then have "slot t ip (slot_of (x div BSIZE)) \<noteq> a" using n(5) [OF _ so, of "slot_of (x div BSIZE)"] a(1,2) False slot_of_inj by auto
    then show ?thesis using False by (simp add: fbyte_def Let_def sl u(5))
  qed
  moreover have "view u b = view t b" if "b \<notin> slot t ip ` {..MAXFILE}" for b using that a(1) so by (auto simp: u(5))
  moreover have "view u b = view t b" if "b < bmapstart (sb t)" for b using that db by (auto simp: u(5) data_block_def data_start_def)
  moreover have "off_log (u\<lparr>icache := icache t\<rparr>) = off_log t" using u(2) by (simp add: off_log_icache off_log_same)
  ultimately show ?thesis
    unfolding edited_def using fs ino u(3,4) nf iu sl f(2) by (auto intro!: exI [of _ "d_addrs (idata ip t)"])
qed

lemma data_loggable: "fs_ok s \<Longrightarrow> outstanding s \<ge> 1 \<Longrightarrow> data_block s b \<Longrightarrow> loggable s b"
  by (auto simp: fs_ok_def data_block_def loggable_def data_start_def)

lemma chunk_written:
  assumes t: "fs_ok t" "inode_ok t ip" "outstanding t \<ge> 1" "card (busy t) < room t"
    and a: "a = slot t ip (slot_of (off div BSIZE))" "a \<noteq> 0" "off div BSIZE < MAXFILE" "length bs \<le> BSIZE - off mod BSIZE"
  shows "runs (log_update 1 a (put_bytes (off mod BSIZE) bs) t) (edited ip 1 0 (put_bytes off bs (fbyte t ip)) t)"
proof -
  have db: "data_block t a" using inode_okD(4) [OF t(2)] slot_of_bounds a by simp
  have "log_inv t" "a \<notin> busy t" "loggable t a" using fs_okD(1) [OF t(1)] data_loggable [OF t(1,3) db] db by (simp_all add: data_block_def)
  from log_update_runs [OF this t(4), of "put_bytes (off mod BSIZE) bs"] show ?thesis
  proof (rule runs_mono, goal_cases)
    case (1 u)
    then have "edited ip 1 0 (\<lambda>x. if x div BSIZE = off div BSIZE then put_bytes (off mod BSIZE) bs (view t a) (x mod BSIZE) else fbyte t ip x) t u"
      by (intro block_changed [OF t(1,2) a(1-3)]) simp_all
    then show ?case
    proof (rule edited_cong)
      fix x
      show "(if x div BSIZE = off div BSIZE then put_bytes (off mod BSIZE) bs (view t a) (x mod BSIZE) else fbyte t ip x) = put_bytes off bs (fbyte t ip) x"
        using put_bytes_chunk(1) [OF a(4), of x "view t a"] put_bytes_chunk(2) [OF a(4), of x] a(1,2)
        by (auto simp: put_bytes_def [of off] fbyte_def Let_def)
    qed
  qed
qed


lemma put_bytes_append: "put_bytes (off + length as) bs (put_bytes off as F) = put_bytes off (as @ bs) F"
  by (auto simp: put_bytes_def fun_eq_iff nth_append)

lemma put_bytes_cong: "F k = G k \<Longrightarrow> put_bytes off bs F k = put_bytes off bs G k"
  by (simp add: put_bytes_def)

lemma edited_slot: "edited ip r f F s t \<Longrightarrow> j \<le> MAXFILE \<Longrightarrow> slot s ip j \<noteq> 0 \<Longrightarrow> slot t ip j \<noteq> 0"
  using editedD(8) [of ip r f F s t j] by auto

lemma writei_chunk:
  assumes "fs_ok s" "inode_ok s ip" "outstanding s \<ge> 1" "card (busy s) + 6 \<le> room s" "2 \<le> nfree s" "off div BSIZE < MAXFILE"
    "length bs \<le> BSIZE - off mod BSIZE"
  shows "runs (bmap ip (off div BSIZE) s) (\<lambda>(a, t). runs (log_update (i_dev (icache t ip)) a (put_bytes (off mod BSIZE) bs) t)
    (\<lambda>u. edited ip 6 2 (put_bytes off bs (fbyte s ip)) s u \<and> slot u ip (slot_of (off div BSIZE)) \<noteq> 0))"
proof -
  have r: "card (busy s) + 5 \<le> room s" using assms(4) by simp
  show ?thesis
  proof (rule runs_pair [OF bmap_grows [OF assms(1-3) r assms(5,6)]], goal_cases)
    case (1 a t)
    then have t: "a = slot t ip (slot_of (off div BSIZE))" "a \<noteq> 0" "grown ip 5 2 s t" by simp_all
    note g = editedD [OF t(3)] and h = edited_frame [OF t(3)]
    have q: "outstanding t \<ge> 1" "card (busy t) < room t" using assms(3,4) g(3,4) h(4) by simp_all
    have "edited ip 6 2 (put_bytes off bs (fbyte s ip)) s u \<and> slot u ip (slot_of (off div BSIZE)) \<noteq> 0"
      if u: "edited ip 1 0 (put_bytes off bs (fbyte t ip)) t u" for u
    proof
      show "edited ip 6 2 (put_bytes off bs (fbyte s ip)) s u"
        by (rule edited_cong [OF edited_mono [OF edited_trans [OF assms(1) t(3) u]]]) (simp_all add: put_bytes_def g(6))
      show "slot u ip (slot_of (off div BSIZE)) \<noteq> 0" using edited_slot [OF u slot_of_bounds(2) [OF assms(6)]] t(1,2) by simp
    qed
    then show ?case
      unfolding prod.case inode_okD(1) [OF g(2)] by (rule runs_mono [OF chunk_written [OF g(1,2) q t(1,2) assms(6,7)]])
  qed
qed

lemma writei_loop_runs:
  assumes "fs_ok s" "inode_ok s ip" "outstanding s \<ge> 1" "off + length bs \<le> MAXFILE * BSIZE" "n = length (chunks off (length bs))"
    "card (busy s) + 6 * n \<le> room s" "2 * n \<le> nfree s"
  shows "runs (writei_loop ip (chunks off (length bs)) bs s) (\<lambda>t. edited ip (6 * n) (2 * n) (put_bytes off bs (fbyte s ip)) s t \<and>
    (\<forall>k. off \<le> k \<longrightarrow> k < off + length bs \<longrightarrow> slot t ip (slot_of (k div BSIZE)) \<noteq> 0))"
  using assms
proof (induction n arbitrary: off bs s)
  case 0
  then have "bs = []" by (subst (asm) chunks.simps) (auto simp: Let_def split: if_splits)
  moreover have "put_bytes off [] (fbyte s ip) = fbyte s ip" by (auto simp: put_bytes_def fun_eq_iff)
  ultimately show ?case using grown_refl [OF "0.prems"(1,2)] by (simp add: chunks.simps)
next
  case (Suc n)
  define m where "m = min (length bs) (BSIZE - off mod BSIZE)"
  let ?a = "take m bs" and ?b = "drop m bs"
  have ne: "length bs \<noteq> 0" using Suc.prems(5) by (auto simp: chunks.simps)
  have m: "length ?a = m" "length ?b = length bs - m" "m \<le> length bs" "length ?a \<le> BSIZE - off mod BSIZE" by (simp_all add: m_def)
  have ch: "chunks off (length bs) = (off, m) # chunks (off + m) (length ?b)" using ne by (subst chunks.simps) (simp add: Let_def m_def)
  have "off < MAXFILE * BSIZE" using Suc.prems(4) ne by linarith
  then have bn: "off div BSIZE < MAXFILE" by (rule less_mult_imp_div_less)
  have r: "card (busy s) + 6 \<le> room s" "2 \<le> nfree s" using Suc.prems(6,7) by simp_all
  have step: "runs (writei_loop ip (chunks (off + m) (length ?b)) ?b u) (\<lambda>t. edited ip (6 * Suc n) (2 * Suc n) (put_bytes off bs (fbyte s ip)) s t \<and>
      (\<forall>k. off \<le> k \<longrightarrow> k < off + length bs \<longrightarrow> slot t ip (slot_of (k div BSIZE)) \<noteq> 0))"
    if u: "edited ip 6 2 (put_bytes off ?a (fbyte s ip)) s u" "slot u ip (slot_of (off div BSIZE)) \<noteq> 0" for u :: "'a conss_scheme"
  proof -
    note c = editedD [OF u(1)]
    have "outstanding u \<ge> 1" using Suc.prems(3) edited_frame(4) [OF u(1)] by simp
    moreover have "(off + m) + length ?b \<le> MAXFILE * BSIZE" using Suc.prems(4) m(2,3) by linarith
    moreover have "n = length (chunks (off + m) (length ?b))" using Suc.prems(5) unfolding ch by simp
    moreover have "card (busy u) + 6 * n \<le> room u" "2 * n \<le> nfree u" using Suc.prems(6,7) c(3-5) by simp_all
    ultimately show ?thesis
    proof (rule_tac runs_mono [OF Suc.IH [OF c(1,2)]], goal_cases)
      case (6 v)
      then have v: "edited ip (6 * n) (2 * n) (put_bytes (off + m) ?b (fbyte u ip)) u v"
        "\<And>k. off + m \<le> k \<Longrightarrow> k < off + m + length ?b \<Longrightarrow> slot v ip (slot_of (k div BSIZE)) \<noteq> 0" by blast+
      have "edited ip (6 * Suc n) (2 * Suc n) (put_bytes off bs (fbyte s ip)) s v"
      proof (rule edited_cong [OF edited_mono [OF edited_trans [OF Suc.prems(1) u(1) v(1)]]])
        fix k
        assume "k < MAXFILE * BSIZE"
        then have "put_bytes (off + m) ?b (fbyte u ip) k = put_bytes (off + m) ?b (put_bytes off ?a (fbyte s ip)) k"
          using c(6) by (intro put_bytes_cong)
        then show "put_bytes (off + m) ?b (fbyte u ip) k = put_bytes off bs (fbyte s ip) k"
          using put_bytes_append [of off ?a ?b "fbyte s ip"] m(1) by simp
      qed simp_all
      moreover have "slot v ip (slot_of (k div BSIZE)) \<noteq> 0" if k: "off \<le> k" "k < off + length bs" for k
      proof (cases "k < off + m")
        case True
        then have "k div BSIZE = off div BSIZE" using put_bytes_chunk(2) [OF m(4), of k] k(1) m(1) by auto
        then show ?thesis using edited_slot [OF v(1) slot_of_bounds(2) [OF bn] u(2)] by simp
      qed (use v(2) k m(2,3) in simp)
      ultimately show ?case by blast
    qed
  qed
  show ?case
    unfolding ch writei_loop.simps runs_bind
  proof (rule runs_pair [OF writei_chunk [OF Suc.prems(1-3) r bn m(4)]], goal_cases)
    case (1 a t)
    then show ?case unfolding prod.case runs_bind by (rule runs_mono) (use step in blast)
  qed
qed


section \<open>Files as lists of bytes\<close>

definition file_bytes :: "'a fsst_scheme \<Rightarrow> nat \<Rightarrow> byte list" where
  "file_bytes s ip = map (fbyte s ip) [0..<d_size (idata ip s)]"

text \<open>A file or directory: not a device, and no block of it is missing.\<close>

definition file_ok :: "'a fsst_scheme \<Rightarrow> nat \<Rightarrow> bool" where
  "file_ok s ip \<longleftrightarrow> inode_ok s ip \<and> d_type (idata ip s) \<noteq> T_DEV \<and> d_size (idata ip s) \<le> MAXFILE * BSIZE \<and>
     (\<forall>k < d_size (idata ip s). slot s ip (slot_of (k div BSIZE)) \<noteq> 0)"

lemma length_file_bytes [simp]: "length (file_bytes s ip) = d_size (idata ip s)"
  by (simp add: file_bytes_def)

lemma icache_fs [simp]:
  "fs_ok (s\<lparr>icache := x\<rparr>) = fs_ok s" "in_use (s\<lparr>icache := x\<rparr>) = in_use s" "data_block (s\<lparr>icache := x\<rparr>) = data_block s"
  by (auto simp: fs_ok_def in_use_def data_block_def fun_eq_iff)

lemma resize_slot [simp]: "slot (upd_dinode ip (\<lambda>x. x\<lparr>d_size := n\<rparr>) s) ip = slot s ip"
  by (intro ext) (simp add: slot_def Let_def)

lemma resize_ok: "inode_ok s ip \<Longrightarrow> n < 2 ^ 32 \<Longrightarrow> inode_ok (upd_dinode ip (\<lambda>x. x\<lparr>d_size := n\<rparr>) s) ip"
  unfolding inode_ok_def resize_slot by (simp add: dinode_ok_def)

lemma iupdate_keeps:
  assumes "fs_ok s" "inode_ok s ip" "outstanding s \<ge> 1" "card (busy s) < room s"
  shows "runs (iupdate ip s) (\<lambda>t. fs_ok t \<and> inode_ok t ip \<and> busy t = busy s \<and> room s \<le> room t + 1 \<and> slot t ip = slot s ip \<and> icache t = icache s \<and>
    (\<forall>k < MAXFILE * BSIZE. fbyte t ip k = fbyte s ip k) \<and> (\<forall>b. data_block s b \<longrightarrow> view t b = view s b))"
proof -
  let ?b = "IBLOCK (i_inum (icache s ip)) (sb s)"
  note k = fs_okD [OF assms(1)] and n = inode_okD [OF assms(2)]
  have "i_inum (icache s ip) div IPB \<le> ninodes (sb s) div IPB" using n(2) by (simp add: div_le_mono)
  then have b: "inodestart (sb s) \<le> ?b" "?b < bmapstart (sb s)" using k(3) by (simp_all add: IBLOCK_def)
  then have d: "?b < data_start (sb s)" by (simp add: data_start_def)
  have l: "loggable s ?b" "?b \<notin> busy s"
    using b(1) d k(2,4,5) k(7) [of ?b] assms(3) by (auto simp: loggable_def)
  show ?thesis
  proof (rule runs_mono [OF iupdate_runs [OF k(1) n(1) l assms(4)]], goal_cases)
    case (1 t)
    let ?v = "put_dinode (i_inum (icache s ip) mod IPB) (idata ip s) (view s ?b)"
    have t: "log_inv t" "off_log t = off_log s" "busy t = busy s" "view t = (view s)(?b := ?v)" "room s \<le> room t + 1" using 1 by simp_all
    note f = off_log_fs [OF t(2)] off_log_fields [OF t(2)]
    have v: "view t x = view s x" if "bmapstart (sb s) \<le> x" for x using that b(2) by (simp add: t(4))
    then have dv: "view t x = view s x" if "data_block s x" for x using that by (simp add: data_block_def data_start_def)
    have iu: "in_use t x = in_use s x" for x using v [of "BBLOCK x (sb s)"] f(1) by (simp add: in_use_def BBLOCK_def)
    have sl: "slot t ip j = slot s ip j" for j using dv [OF n(4) [of NDIRECT]] f(2) by (simp add: slot_def Let_def)
    have db: "data_block t x = data_block s x" for x using f(1) iu t(3) by (simp add: data_block_def)
    have "fs_ok t" unfolding fs_ok_def f t(3) iu using k t(1) by auto
    moreover have "inode_ok t ip" using assms(2) unfolding inode_ok_def sl db f .
    moreover have "fbyte t ip x = fbyte s ip x" if "x < MAXFILE * BSIZE" for x
      using dv [OF n(4) [OF slot_of_bounds(2) [OF less_mult_imp_div_less [OF that]]]] by (simp add: fbyte_def Let_def sl)
    ultimately show ?case using sl dv f(2) t(3,5) by auto
  qed
qed


text \<open>The file \<open>jp\<close> shares no block with \<open>ip\<close>.\<close>

definition apart :: "'a fsst_scheme \<Rightarrow> nat \<Rightarrow> nat \<Rightarrow> bool" where
  "apart s ip jp \<longleftrightarrow> jp \<noteq> ip \<and> (\<forall>j \<le> MAXFILE. slot s jp j \<noteq> 0 \<longrightarrow> slot s jp j \<notin> slot s ip ` {..MAXFILE})"

lemma other_file:
  assumes "file_ok s jp" "apart s ip jp" "icache t jp = icache s jp"
    and v: "\<And>b. data_block s b \<Longrightarrow> b \<notin> slot s ip ` {..MAXFILE} \<Longrightarrow> view t b = view s b"
  shows "file_bytes t jp = file_bytes s jp"
proof -
  note n = inode_okD [of s jp]
  have w: "view t (slot s jp j) = view s (slot s jp j)" if "j \<le> MAXFILE" "slot s jp j \<noteq> 0" for j
    using v [OF n(4)] assms(1,2) that by (simp add: file_ok_def apart_def)
  have sl: "slot t jp j = slot s jp j" for j
    using w [of NDIRECT] assms(3) by (simp add: slot_def Let_def)
  have "fbyte t jp k = fbyte s jp k" if "k < d_size (idata jp s)" for k
  proof -
    have "k < MAXFILE * BSIZE" using that assms(1) by (simp add: file_ok_def)
    from w [OF slot_of_bounds(2) [OF less_mult_imp_div_less [OF this]]] show ?thesis by (simp add: fbyte_def Let_def sl)
  qed
  then show ?thesis using assms(3) by (simp add: file_bytes_def)
qed

lemma file_bytes_upto:
  assumes "n = max sz (off + length bs)" "off \<le> sz" "\<And>k. k < n \<Longrightarrow> G k = put_bytes off bs F k"
  shows "map G [0..<n] = take off (map F [0..<sz]) @ bs @ drop (off + length bs) (map F [0..<sz])"
proof (rule nth_equalityI)
  fix i
  assume "i < length (map G [0..<n])"
  then show "map G [0..<n] ! i = (take off (map F [0..<sz]) @ bs @ drop (off + length bs) (map F [0..<sz])) ! i"
    using assms by (auto simp: put_bytes_def nth_append)
qed (use assms in auto)

lemma readi_runs:
  assumes "fs_ok s" "file_ok s ip" "card (busy s) \<le> room s" "off + n < 2 ^ 32" "off \<le> length (file_bytes s ip)"
  shows "\<exists>t. readi ip off n s = Inr (int (length (take n (drop off (file_bytes s ip)))), take n (drop off (file_bytes s ip)), t) \<and> same_blocks s t"
proof -
  let ?sz = "d_size (idata ip s)"
  define m where "m = (if off + n > ?sz then ?sz - off else n)"
  have m: "m \<le> n" "off + m \<le> ?sz" using assms(5) by (auto simp: m_def)
  have f: "inode_ok s ip" "d_type (idata ip s) \<noteq> T_DEV" "?sz \<le> MAXFILE * BSIZE" "\<And>k. k < ?sz \<Longrightarrow> slot s ip (slot_of (k div BSIZE)) \<noteq> 0"
    using assms(2) by (auto simp: file_ok_def)
  have "runs (readi_loop ip (chunks off m) s) (\<lambda>(bs, t). bs = map (fbyte s ip) [off..<off + m] \<and> same_blocks s t)"
    by (rule readi_loop_runs [OF assms(1) f(1) assms(3)]) (use m f(3,4) in auto)
  then obtain t where t: "readi_loop ip (chunks off m) s = Inr (map (fbyte s ip) [off..<off + m], t)" "same_blocks s t" by (auto simp: runs_def)
  have e: "map (fbyte s ip) [off..<off + m] = take n (drop off (file_bytes s ip))"
    by (rule nth_equalityI) (use assms(5) in \<open>auto simp: file_bytes_def m_def split: if_splits\<close>)
  have "readi ip off n s = Inr (int m, map (fbyte s ip) [off..<off + m], t)"
    using t(1) assms(5) f(2) assms(4) by (simp add: readi_def Let_def m_def [symmetric])
  moreover have "m = length (take n (drop off (file_bytes s ip)))" using e by (metis length_map length_upt add_diff_cancel_left')
  ultimately show ?thesis using t(2) e by auto
qed

text \<open>C14: \<open>readi\<close> returns the bytes of the file from the given offset on, as many as were asked for or as there are up to the end, across
  direct and indirect blocks, and changes nothing; reading from beyond the end is an error. The number returned is that of
  the bytes.\<close>

theorem readi_reads:
  assumes "fs_ok s" "file_ok s ip" "card (busy s) \<le> room s" "off + n < 2 ^ 32"
  shows "if off \<le> length (file_bytes s ip)
    then \<exists>t. readi ip off n s = Inr (int (length (take n (drop off (file_bytes s ip)))), take n (drop off (file_bytes s ip)), t) \<and> same_blocks s t
    else readi ip off n s = Inr (- 1, [], s)"
  using readi_runs [OF assms] assms(2) by (auto simp: readi_def file_ok_def)

lemma writei_runs:
  assumes "fs_ok s" "file_ok s ip" "outstanding s \<ge> 1" "off \<le> d_size (idata ip s)" "off + length bs \<le> MAXFILE * BSIZE"
    "card (busy s) + 6 * length (chunks off (length bs)) < room s" "2 * length (chunks off (length bs)) \<le> nfree s"
  shows "runs (writei ip off bs s) (\<lambda>(r, t). r = int (length bs) \<and> fs_ok t \<and> file_ok t ip \<and>
    busy t = busy s \<and> room s \<le> room t + 6 * length (chunks off (length bs)) + 1 \<and> d_type (idata ip t) = d_type (idata ip s) \<and>
    file_bytes t ip = take off (file_bytes s ip) @ bs @ drop (off + length bs) (file_bytes s ip) \<and>
    (\<forall>jp. jp \<noteq> ip \<longrightarrow> icache t jp = icache s jp) \<and> (\<forall>b. data_block s b \<longrightarrow> b \<notin> slot s ip ` {..MAXFILE} \<longrightarrow> view t b = view s b))"
proof -
  let ?n = "length (chunks off (length bs))" and ?sz = "d_size (idata ip s)"
  have f: "inode_ok s ip" "d_type (idata ip s) \<noteq> T_DEV" "?sz \<le> MAXFILE * BSIZE" "\<And>k. k < ?sz \<Longrightarrow> slot s ip (slot_of (k div BSIZE)) \<noteq> 0"
    using assms(2) by (auto simp: file_ok_def)
  have r: "card (busy s) + 6 * ?n \<le> room s" using assms(6) by simp
  obtain t where t: "writei_loop ip (chunks off (length bs)) bs s = Inr t" "edited ip (6 * ?n) (2 * ?n) (put_bytes off bs (fbyte s ip)) s t"
    "\<And>k. off \<le> k \<Longrightarrow> k < off + length bs \<Longrightarrow> slot t ip (slot_of (k div BSIZE)) \<noteq> 0"
    using writei_loop_runs [OF assms(1) f(1) assms(3,5) refl r assms(7)] by (auto simp: runs_def)
  note g = editedD [OF t(2)] and h = edited_frame [OF t(2)]
  have db: "data_block s b \<Longrightarrow> data_block t b" for b using g(3) g(7) [of b] h(1) by (simp add: data_block_def)
  have sl: "slot t ip (slot_of (k div BSIZE)) \<noteq> 0" if "k < max ?sz (off + length bs)" for k
  proof (cases "off \<le> k \<and> k < off + length bs")
    case False
    then have k: "k < ?sz" using that assms(4) by auto
    then have "k < MAXFILE * BSIZE" using f(3) by simp
    from slot_of_bounds(2) [OF less_mult_imp_div_less [OF this]] show ?thesis using edited_slot [OF t(2)] f(4) [OF k] by simp
  qed (use t(3) in blast)
  have w: "writei ip off bs s = (if 0 < length bs \<and> ?sz < off + length bs
      then bindR (iupdate ip (upd_dinode ip (\<lambda>x. x\<lparr>d_size := off + length bs\<rparr>) t)) (\<lambda>s. Inr (int (length bs), s)) else Inr (int (length bs), t))"
    using t(1) f(2) assms(4,5) h(9) by (simp add: writei_def Let_def)
  have bytes: "map F [0..<max ?sz (off + length bs)] = take off (file_bytes s ip) @ bs @ drop (off + length bs) (file_bytes s ip)"
    if "\<And>k. k < MAXFILE * BSIZE \<Longrightarrow> F k = put_bytes off bs (fbyte s ip) k" for F
    unfolding file_bytes_def by (rule file_bytes_upto [OF refl assms(4)]) (use that assms(5) f(3) in simp)
  show ?thesis
  proof (cases "0 < length bs \<and> ?sz < off + length bs")
    case True
    let ?t = "upd_dinode ip (\<lambda>x. x\<lparr>d_size := off + length bs\<rparr>) t"
    have "off + length bs < 2 ^ 32" using assms(5) by simp
    note ri = resize_ok [OF g(2) this]
    have q: "outstanding ?t \<ge> 1" "card (busy ?t) < room ?t" using assms(3,6) g(3,4) h(4) by simp_all
    have fb: "fbyte ?t ip k = fbyte t ip k" for k by (simp add: fbyte_def Let_def)
    have "fs_ok ?t" using g(1) by simp
    show ?thesis
      unfolding w if_P [OF True] runs_bind
    proof (rule runs_mono [OF iupdate_keeps [OF \<open>fs_ok ?t\<close> ri q]], goal_cases)
      case (1 u)
      then have u: "busy u = busy t" "room t \<le> room u + 1" "fs_ok u" "inode_ok u ip" "slot u ip = slot t ip" "icache u = icache ?t" "\<And>k. k < MAXFILE * BSIZE \<Longrightarrow> fbyte u ip k = put_bytes off bs (fbyte s ip) k"
        "\<And>b. data_block s b \<Longrightarrow> view u b = view t b" using g(6) fb db by simp_all
      have "max ?sz (off + length bs) = off + length bs" using True by simp
      then show ?case
        using u g(3,4,9) h(6,10) f(2) sl bytes [of "fbyte u ip"] assms(5) by (simp add: file_ok_def file_bytes_def)
    qed
  next
    case False
    then have "max ?sz (off + length bs) = ?sz" using assms(4) by auto
    then show ?thesis
      unfolding w if_not_P [OF False] using g h(6,9,10) f(2,3) sl bytes [of "fbyte t ip"] by (simp add: file_ok_def file_bytes_def)
  qed
qed

text \<open>C1: \<open>writei\<close> replaces the bytes of the file from the given offset on by those given and extends the file if they go past its end, when
  there is room in the log and on the disk; it allocates direct and indirect blocks as it needs them. The file system and the file stay
  well-formed, and no other file, that is none with blocks of its own, changes. Writing from beyond the end is an error.\<close>

theorem writei_writes:
  assumes "fs_ok s" "file_ok s ip" "outstanding s \<ge> 1" "off + length bs \<le> MAXFILE * BSIZE"
    "card (busy s) + 6 * length (chunks off (length bs)) < room s" "2 * length (chunks off (length bs)) \<le> nfree s"
  shows "if off \<le> length (file_bytes s ip)
    then \<exists>t. writei ip off bs s = Inr (int (length bs), t) \<and> fs_ok t \<and> file_ok t ip \<and>
      file_bytes t ip = take off (file_bytes s ip) @ bs @ drop (off + length bs) (file_bytes s ip) \<and>
      (\<forall>jp. file_ok s jp \<and> apart s ip jp \<longrightarrow> file_bytes t jp = file_bytes s jp)
    else writei ip off bs s = Inr (- 1, s)"
proof (cases "off \<le> d_size (idata ip s)")
  case True
  from writei_runs [OF assms(1-3) True assms(4-6)] obtain t where t: "writei ip off bs s = Inr (int (length bs), t)" "fs_ok t" "file_ok t ip"
    "file_bytes t ip = take off (file_bytes s ip) @ bs @ drop (off + length bs) (file_bytes s ip)" "\<And>jp. jp \<noteq> ip \<Longrightarrow> icache t jp = icache s jp"
    "\<And>b. data_block s b \<Longrightarrow> b \<notin> slot s ip ` {..MAXFILE} \<Longrightarrow> view t b = view s b" by (auto simp: runs_def)
  moreover have "file_bytes t jp = file_bytes s jp" if "file_ok s jp" "apart s ip jp" for jp
    using other_file [OF that t(5) t(6)] that(2) by (simp add: apart_def)
  ultimately show ?thesis using True by auto
next
  case False
  then show ?thesis using assms(2) by (simp add: writei_def file_ok_def Let_def)
qed


text \<open>An empty file or directory, inode 1, on the small file system: two bytes are written to it, and the second is read back.\<close>

definition ex_inode :: "u16 \<Rightarrow> conss" where
  "ex_inode ty = binit (ex_cons\<lparr>disk := ex_fsdisk, outstanding := 1, sb := ex_super,
     icache := (\<lambda>i. \<lparr>i_dev = 1, i_inum = i, i_ref = (if i = 1 then 1 else 0), i_lock = initsleeplock, i_valid = True, i_dinode = zero_dinode\<lparr>d_type := ty\<rparr>\<rparr>)\<rparr>)"

lemma ex_file_facts:
  assumes "ty \<noteq> T_DEV"
  shows "fs_ok (ex_inode ty)" "file_ok (ex_inode ty) 1" "outstanding (ex_inode ty) = 1" "busy (ex_inode ty) = {}" "room (ex_inode ty) = 29" "nfree (ex_inode ty) = 941"
  "d_size (idata 1 (ex_inode ty)) = 0" "i_ref (icache (ex_inode ty) 0) = 0" "d_type (idata 1 (ex_inode ty)) = ty"
proof -
  let ?s = "ex_cons\<lparr>disk := ex_fsdisk, outstanding := 1, sb := ex_super,
     icache := (\<lambda>i. \<lparr>i_dev = 1, i_inum = i, i_ref = (if i = 1 then 1 else 0), i_lock = initsleeplock, i_valid = True, i_dinode = zero_dinode\<lparr>d_type := ty\<rparr>\<rparr>)\<rparr>"
  have b: "ex_booted ?s" by (simp add: ex_booted_def ex_cons_def)
  note f = ex_booted_facts [OF b, folded ex_inode_def] and u = ex_booted_in_use [OF b, folded ex_inode_def]
  note o = off_log_fields [OF f(9)]
  have g: "log_start (ex_inode ty) = 2" "log_size (ex_inode ty) = 30" using o by (simp_all add: ex_cons_def)
  show "outstanding (ex_inode ty) = 1" "busy (ex_inode ty) = {}" "room (ex_inode ty) = 29" using f o by simp_all
  have e: "sb_size ex_super = 1000" "data_start ex_super = 59" "inodestart ex_super = 32" "ninodes ex_super = 200" "bmapstart ex_super = 58"
    by (simp_all add: ex_super_def data_start_def)
  show "fs_ok (ex_inode ty)" unfolding fs_ok_def f(5) g e using f(1,3,8) u by auto
  have "{b. b < 1000 \<and> \<not> in_use (ex_inode ty) b} = {59..<1000}" using u by auto
  then show "nfree (ex_inode ty) = 941" by (simp add: nfree_def f(5) e)
  have i: "icache (ex_inode ty) 1 = \<lparr>i_dev = 1, i_inum = 1, i_ref = 1, i_lock = initsleeplock, i_valid = True, i_dinode = zero_dinode\<lparr>d_type := ty\<rparr>\<rparr>"
    by (simp add: f(6))
  note i = i [simplified]
  show "i_ref (icache (ex_inode ty) 0) = 0" by (simp add: f(6))
  show "d_type (idata 1 (ex_inode ty)) = ty" using i by simp
  show "d_size (idata 1 (ex_inode ty)) = 0" using i by (simp add: zero_dinode_def)
  have "slot (ex_inode ty) 1 j = 0" for j using i by (simp add: slot_def Let_def zero_dinode_def nth_Cons split: nat.splits)
  then have "inode_ok (ex_inode ty) 1" unfolding inode_ok_def by (simp add: i f(5) e dinode_ok_def zero_dinode_def)
  then show "file_ok (ex_inode ty) 1" using assms by (simp add: file_ok_def i zero_dinode_def)
qed

definition ex_file :: conss where
  "ex_file = ex_inode T_FILE"

lemma ex_chunks: "length (chunks 0 (Suc (Suc 0))) = 1" "file_bytes ex_file (Suc 0) = []"
  using ex_file_facts(7) [of T_FILE] by (simp_all add: chunks.simps file_bytes_def ex_file_def)

theorem writei_writes_witness:
  "\<exists>t. writei 1 0 [104, 105] ex_file = Inr (2, t) \<and> file_ok t 1 \<and> file_bytes t 1 = [104, 105]"
  using writei_writes [of ex_file 1 0 "[104, 105]"] ex_file_facts [of T_FILE, folded ex_file_def] ex_chunks by auto

theorem readi_reads_witness:
  "\<exists>t u. writei 1 0 [104, 105] ex_file = Inr (2, t) \<and> readi 1 1 10 t = Inr (1, [105], u)"
proof -
  from writei_runs [of ex_file 1 0 "[104, 105]"] obtain t where t: "writei 1 0 [104, 105] ex_file = Inr (2, t)" "fs_ok t" "file_ok t 1"
    "busy t = {}" "file_bytes t 1 = [104, 105]" using ex_file_facts [of T_FILE, folded ex_file_def] ex_chunks by (auto simp: runs_def)
  then show ?thesis using readi_reads [of t 1 1 10] by auto
qed

end
