(* ===== verification/Xv6_Dir.thy ===== *)
theory Xv6_Dir
  imports Xv6_Contents
begin

text \<open>
  Directories (\<open>dirlookup\<close> and \<open>dirlink\<close> of \<open>fs.c\<close>) as maps from names to inode numbers, on top of the contents of files; and path names
  as lists of elements (\<open>skipelem\<close>).
\<close>

section \<open>Directory entries\<close>

definition decode :: "byte list \<Rightarrow> nat \<times> byte list" where
  "decode de = (de_inum de, cstrn (de_name de) DIRSIZ)"

definition dirents :: "byte list \<Rightarrow> (nat \<times> byte list) list" where
  "dirents c = map (\<lambda>i. decode (take 16 (drop (16 * i) c))) [0..<length c div 16]"

lemma length_dirents [simp]: "length (dirents c) = length c div 16"
  by (simp add: dirents_def)

lemma nth_dirents: "i < length c div 16 \<Longrightarrow> dirents c ! i = decode (take 16 (drop (16 * i) c))"
  by (simp add: dirents_def)

text \<open>Writing one entry.\<close>

lemma dirents_put:
  assumes "16 dvd length c" "k \<le> length c div 16" "length de = 16"
  shows "dirents (take (16 * k) c @ de @ drop (16 * k + 16) c) =
    (if k < length c div 16 then (dirents c)[k := decode de] else dirents c @ [decode de])"
proof -
  obtain m where m: "length c = 16 * m" using assms(1) by blast
  let ?c = "take (16 * k) c @ de @ drop (16 * k + 16) c"
  have l: "length ?c = 16 * (if k < m then m else m + 1)" using m assms(2,3) by (auto simp: min_def)
  have e: "take 16 (drop (16 * i) ?c) = (if i = k then de else take 16 (drop (16 * i) c))" if "i < (if k < m then m else m + 1)" for i
  proof (cases i k rule: linorder_cases)
    case less
    then have "16 * i + 16 \<le> length (take (16 * k) c)" using m assms(2) by simp
    then have "take 16 (drop (16 * i) ?c) = take 16 (drop (16 * i) (take (16 * k) c))" by simp
    also have "\<dots> = take 16 (drop (16 * i) c)" using less by (simp add: drop_take min_def)
    finally show ?thesis using less by simp
  next
    case equal
    then show ?thesis using m assms(2,3) by simp
  next
    case greater
    then have k: "k < m" "i < m" using that by (auto split: if_splits)
    have "drop (16 * i) ?c = drop (16 * (i - k - 1)) (drop (16 * k + 16) c)"
      using greater m k assms(3) by (simp add: diff_mult_distrib2)
    also have "\<dots> = drop (16 * i) c" using greater by (simp add: algebra_simps flip: drop_drop) (simp add: algebra_simps)
    finally show ?thesis using greater by simp
  qed
  have "dirents ?c ! i = (if k < m then (dirents c)[k := decode de] else dirents c @ [decode de]) ! i" if "i < (if k < m then m else m + 1)" for i
    using that e [OF that] l m assms(2) by (auto simp: nth_dirents nth_append nth_list_update split: if_splits)
  then show ?thesis using l m assms(2) by (intro nth_equalityI) auto
qed

lemma cstrn_cstr: "0 \<notin> set name \<Longrightarrow> cstrn (cstr name) n = take n name"
proof (induction name arbitrary: n)
  case Nil
  show ?case by (cases n) (simp_all add: cstrn_Suc cstr_def)
next
  case (Cons b name)
  then show ?case by (cases n) (simp_all add: cstrn_Suc)
qed

lemma decode_mk_dirent:
  assumes "inum < 2 ^ 16" "0 \<notin> set name"
  shows "decode (mk_dirent inum name) = (inum, take DIRSIZ name)" "length (mk_dirent inum name) = 16"
proof -
  have "inum mod 256 + 256 * (inum div 256 mod 256) = inum" using assms(1) by (simp add: less_mult_imp_div_less)
  then have "de_inum (mk_dirent inum name) = inum" by (simp add: de_inum_def mk_dirent_def unat_of_nat)
  moreover have "map (de_name (mk_dirent inum name)) [0..<DIRSIZ] = map (cstr name) [0..<DIRSIZ]"
    by (rule nth_equalityI) (simp_all add: de_name_def mk_dirent_def del: upt_rec_numeral)
  then have "cstrn (de_name (mk_dirent inum name)) DIRSIZ = take DIRSIZ name" using cstrn_cstr [OF assms(2)] by (simp only: cstrn_def)
  ultimately show "decode (mk_dirent inum name) = (inum, take DIRSIZ name)" by (simp add: decode_def)
  show "length (mk_dirent inum name) = 16" by (simp add: mk_dirent_def)
qed

section \<open>A directory as a map\<close>

text \<open>The first entry in use with the name: its index and inode number.\<close>

fun dir_find :: "nat \<Rightarrow> (nat \<times> byte list) list \<Rightarrow> byte list \<Rightarrow> (nat \<times> nat) option" where
  "dir_find i [] n = None"
| "dir_find i ((inum, x) # es) n = (if inum \<noteq> 0 \<and> x = n then Some (i, inum) else dir_find (i + 1) es n)"

definition dir_get :: "(nat \<times> byte list) list \<Rightarrow> byte list \<Rightarrow> nat option" where
  "dir_get es n = map_option snd (dir_find 0 es n)"

fun first_free :: "(nat \<times> byte list) list \<Rightarrow> nat" where
  "first_free [] = 0"
| "first_free ((inum, x) # es) = (if inum = 0 then 0 else first_free es + 1)"

lemma dir_find_shift: "map_option snd (dir_find i es n) = map_option snd (dir_find j es n)"
  by (induction es arbitrary: i j) auto

lemma dir_get_Cons: "dir_get ((inum, x) # es) n = (if inum \<noteq> 0 \<and> x = n then Some inum else dir_get es n)"
  using dir_find_shift [of 1 es n 0] by (simp add: dir_get_def)

lemma dir_get_Nil [simp]: "dir_get [] n = None"
  by (simp add: dir_get_def)

lemma dir_get_put:
  assumes "dir_get es x = None" "inum \<noteq> 0"
  shows "dir_get (if first_free es < length es then es[first_free es := (inum, x)] else es @ [(inum, x)]) n =
    (if n = x then Some inum else dir_get es n)"
  using assms(1)
proof (induction es)
  case Nil
  then show ?case using assms(2) by (simp add: dir_get_Cons)
next
  case (Cons e es)
  then show ?case using assms(2) by (cases e) (auto simp: dir_get_Cons split: if_splits)
qed

lemma first_free_le: "first_free es \<le> length es"
  by (induction es rule: first_free.induct) auto

definition dir_ok :: "'a fsst_scheme \<Rightarrow> nat \<Rightarrow> bool" where
  "dir_ok s dp \<longleftrightarrow> file_ok s dp \<and> d_type (idata dp s) = T_DIR \<and> 16 dvd d_size (idata dp s)"

lemma same_blocks_dir:
  assumes "same_blocks s t"
  shows "file_bytes t = file_bytes s" "file_ok t = file_ok s" "dir_ok t = dir_ok s" "nfree t = nfree s" "outstanding t = outstanding s"
proof -
  note k = same_blocks_ok [OF assms]
  have o: "off_log t = off_log s" "view t = view s" using assms by (simp_all add: same_blocks_def)
  show "file_bytes t = file_bytes s" "file_ok t = file_ok s" "dir_ok t = dir_ok s"
    using k by (auto simp: file_bytes_def file_ok_def dir_ok_def fun_eq_iff)
  show "nfree t = nfree s" "outstanding t = outstanding s" using same_in_use [OF o] off_log_fields(4) [OF o(1)] by simp_all
qed

text \<open>Reading one entry.\<close>

lemma read_entry:
  assumes "fs_ok s" "dir_ok s dp" "card (busy s) \<le> room s" "i < length (dirents (file_bytes s dp))"
  obtains de t where "readi dp (16 * i) 16 s = Inr (16, de, t)" "same_blocks s t" "decode de = dirents (file_bytes s dp) ! i"
proof -
  have f: "file_ok s dp" "d_size (idata dp s) \<le> MAXFILE * BSIZE" using assms(2) by (simp_all add: dir_ok_def file_ok_def)
  have i: "16 * i + 16 \<le> d_size (idata dp s)" using assms(4) by (simp add: less_eq_div_iff_mult_less_eq Suc_le_eq [symmetric])
  then have "16 * i + 16 < 2 ^ 32" "16 * i \<le> length (file_bytes s dp)" using f(2) by simp_all
  from readi_runs [OF assms(1) f(1) assms(3) this] show ?thesis
    using that [of "take 16 (drop (16 * i) (file_bytes s dp))"] nth_dirents assms(4) i by auto
qed

lemma dirlookup_from_runs:
  assumes "fs_ok s" "dir_ok s dp" "card (busy s) \<le> room s" "0 \<notin> set name" "i + n = length (dirents (file_bytes s dp))"
  shows "\<exists>t. same_blocks s t \<and> dirlookup_from n (16 * i) dp name s =
    (case dir_find i (drop i (dirents (file_bytes s dp))) (take DIRSIZ name) of None \<Rightarrow> Inr (None, t)
     | Some (k, inum) \<Rightarrow> bindR (iget 1 inum t) (\<lambda>(ip, u). Inr (Some (ip, 16 * k), u)))"
  using assms
proof (induction n arbitrary: i s)
  case 0
  then show ?case using fs_okD(1) [OF "0.prems"(1)] by (auto intro!: exI [of _ s] simp: same_blocks_def)
next
  case (Suc n)
  let ?es = "dirents (file_bytes s dp)"
  have i: "i < length ?es" using Suc.prems(5) by simp
  obtain de t where t: "readi dp (16 * i) 16 s = Inr (16, de, t)" "same_blocks s t" "decode de = ?es ! i"
    using read_entry [OF Suc.prems(1-3) i] .
  note k = same_blocks_ok [OF t(2)] and d = same_blocks_dir [OF t(2)]
  have e: "drop i ?es = decode de # drop (i + 1) ?es" using t(3) i by (simp add: Cons_nth_drop_Suc)
  have dev: "i_dev (icache t dp) = 1" using Suc.prems(2) k(5) by (simp add: dir_ok_def file_ok_def inode_ok_def)
  have cmp: "namecmp (cstr name) (de_name de) = 0 \<longleftrightarrow> cstrn (de_name de) DIRSIZ = take DIRSIZ name"
    using cstrn_cstr [OF Suc.prems(4)] by (auto simp: namecmp_def strncmp_zero_iff)
  show ?case
  proof (cases "de_inum de \<noteq> 0 \<and> cstrn (de_name de) DIRSIZ = take DIRSIZ name")
    case True
    then show ?thesis using t(1,2) dev cmp by (intro exI [of _ t]) (simp add: e decode_def)
  next
    case False
    have "\<exists>u. same_blocks t u \<and> dirlookup_from n (16 * (i + 1)) dp name t =
      (case dir_find (i + 1) (drop (i + 1) (dirents (file_bytes t dp))) (take DIRSIZ name) of None \<Rightarrow> Inr (None, u)
       | Some (k, inum) \<Rightarrow> bindR (iget 1 inum u) (\<lambda>(ip, u). Inr (Some (ip, 16 * k), u)))"
      by (rule Suc.IH) (use k d Suc.prems in simp_all)
    then show ?thesis
      using t(1) False cmp d(1) same_blocks_trans [OF t(2)] by (auto simp: e decode_def algebra_simps)
  qed
qed


lemma empty_dirent_runs:
  assumes "fs_ok s" "dir_ok s dp" "card (busy s) \<le> room s" "i + n = length (dirents (file_bytes s dp))"
  shows "\<exists>t. same_blocks s t \<and> empty_dirent_from n (16 * i) dp s = Inr (16 * (i + first_free (drop i (dirents (file_bytes s dp)))), t)"
  using assms
proof (induction n arbitrary: i s)
  case 0
  then show ?case using fs_okD(1) [OF "0.prems"(1)] by (auto intro!: exI [of _ s] simp: same_blocks_def)
next
  case (Suc n)
  let ?es = "dirents (file_bytes s dp)"
  have i: "i < length ?es" using Suc.prems(4) by simp
  obtain de t where t: "readi dp (16 * i) 16 s = Inr (16, de, t)" "same_blocks s t" "decode de = ?es ! i"
    using read_entry [OF Suc.prems(1-3) i] .
  note k = same_blocks_ok [OF t(2)] and d = same_blocks_dir [OF t(2)]
  have e: "drop i ?es = decode de # drop (i + 1) ?es" using t(3) i by (simp add: Cons_nth_drop_Suc)
  show ?case
  proof (cases "de_inum de = 0")
    case True
    then show ?thesis using t(1,2) by (intro exI [of _ t]) (simp add: e decode_def)
  next
    case False
    have "\<exists>u. same_blocks t u \<and> empty_dirent_from n (16 * (i + 1)) dp t = Inr (16 * (i + 1 + first_free (drop (i + 1) (dirents (file_bytes t dp)))), u)"
      by (rule Suc.IH) (use k d Suc.prems in simp_all)
    then show ?thesis
      using t(1) False d(1) same_blocks_trans [OF t(2)] by (auto simp: e decode_def algebra_simps)
  qed
qed

lemma entries_eq: "16 dvd sz \<Longrightarrow> entries sz = sz div 16"
  by (auto simp: entries_def elim!: dvdE)

lemma dirlookup_runs:
  assumes "fs_ok s" "dir_ok s dp" "card (busy s) \<le> room s" "0 \<notin> set name"
  shows "\<exists>t. same_blocks s t \<and> dirlookup dp name s =
    (case dir_find 0 (dirents (file_bytes s dp)) (take DIRSIZ name) of None \<Rightarrow> Inr (None, t)
     | Some (k, inum) \<Rightarrow> bindR (iget 1 inum t) (\<lambda>(ip, u). Inr (Some (ip, 16 * k), u)))"
proof -
  have "T_DIR = d_type (idata dp s)" "16 dvd d_size (idata dp s)" using assms(2) by (simp_all add: dir_ok_def)
  then show ?thesis
    using dirlookup_from_runs [OF assms, of 0 "d_size (idata dp s) div 16"] by (simp add: dirlookup_def entries_eq)
qed

lemma iget_gets:
  assumes "\<exists>i < NINODE. i_ref (icache s i) = 0"
  obtains ip u where "iget dev inum s = Inr (ip, u)" "ip < NINODE" "i_dev (icache u ip) = dev" "i_inum (icache u ip) = inum" "i_ref (icache u ip) > 0"
    "view u = view s"
proof (cases "find (\<lambda>i. i_ref (icache s i) > 0 \<and> i_dev (icache s i) = dev \<and> i_inum (icache s i) = inum) [0..<NINODE]")
  case None
  obtain ip where "find (\<lambda>i. i_ref (icache s i) = 0) [0..<NINODE] = Some ip"
    using assms by (cases "find (\<lambda>i. i_ref (icache s i) = 0) [0..<NINODE]") (auto simp: find_None_iff)
  moreover from this have "ip < NINODE" by (auto simp: find_Some_iff)
  ultimately show ?thesis using None
    by (intro that [of ip "upd_inode ip (\<lambda>x. x\<lparr>i_dev := dev, i_inum := inum, i_ref := 1, i_valid := False\<rparr>) s"]) (simp_all add: iget_def)
next
  case (Some ip)
  then have "ip < NINODE" "i_ref (icache s ip) > 0" "i_dev (icache s ip) = dev" "i_inum (icache s ip) = inum" by (auto simp: find_Some_iff)
  then show ?thesis using Some by (intro that [of ip "upd_inode ip (\<lambda>x. x\<lparr>i_ref := i_ref x + 1\<rparr>) s"]) (simp_all add: iget_def)
qed

lemma dir_find_index: "dir_find i es n = Some (k, inum) \<Longrightarrow> i \<le> k \<and> k < i + length es \<and> es ! (k - i) = (inum, n)"
  by (induction i es n rule: dir_find.induct) (auto simp: nth_Cons' split: if_splits)

text \<open>C25: \<open>dirlookup\<close> finds a name exactly when the directory, as a map from names to inode numbers, has it: names are compared up to
  14 characters, unused entries are skipped and the first entry counts. It returns a reference to the cached inode with that number,
  and the offset of the entry; the blocks stay as they are.\<close>

theorem dirlookup_finds:
  assumes "fs_ok s" "dir_ok s dp" "card (busy s) \<le> room s" "0 \<notin> set name" "\<exists>i < NINODE. i_ref (icache s i) = 0"
  shows "case dir_get (dirents (file_bytes s dp)) (take DIRSIZ name) of
      None \<Rightarrow> \<exists>t. dirlookup dp name s = Inr (None, t) \<and> same_blocks s t
    | Some inum \<Rightarrow> \<exists>ip k t. dirlookup dp name s = Inr (Some (ip, 16 * k), t) \<and> i_dev (icache t ip) = 1 \<and> i_inum (icache t ip) = inum \<and>
        i_ref (icache t ip) > 0 \<and> view t = view s \<and> k < length (dirents (file_bytes s dp)) \<and> dirents (file_bytes s dp) ! k = (inum, take DIRSIZ name)"
proof -
  let ?es = "dirents (file_bytes s dp)"
  obtain t where t: "same_blocks s t" "dirlookup dp name s = (case dir_find 0 ?es (take DIRSIZ name) of None \<Rightarrow> Inr (None, t)
     | Some (k, inum) \<Rightarrow> bindR (iget 1 inum t) (\<lambda>(ip, u). Inr (Some (ip, 16 * k), u)))" using dirlookup_runs [OF assms(1-4)] by blast
  show ?thesis
  proof (cases "dir_find 0 ?es (take DIRSIZ name)")
    case None
    then show ?thesis using t by (simp add: dir_get_def)
  next
    case (Some x)
    then obtain k inum where x: "dir_find 0 ?es (take DIRSIZ name) = Some (k, inum)" by (cases x) auto
    have "\<exists>i < NINODE. i_ref (icache t i) = 0" using assms(5) same_blocks_ok(5) [OF t(1)] by simp
    then obtain ip u where u: "iget 1 inum t = Inr (ip, u)" "i_dev (icache u ip) = 1" "i_inum (icache u ip) = inum" "i_ref (icache u ip) > 0" "view u = view t"
      by (rule iget_gets)
    have "view t = view s" using t(1) by (simp add: same_blocks_def)
    then show ?thesis using t(2) u dir_find_index [OF x] by (auto simp: x dir_get_def)
  qed
qed

lemma one_chunk: "16 dvd off \<Longrightarrow> length (chunks off 16) = 1"
proof -
  assume "16 dvd off"
  then obtain k where k: "off = 16 * k" by (elim dvdE)
  have "16 * k mod (16 * 32) = 16 * (k mod 32)" by (simp only: mult_mod_right)
  moreover have "k mod 32 \<le> 31" using mod_less_divisor [of 32 k] by linarith
  ultimately have "off mod BSIZE \<le> 496" using k by simp
  then show ?thesis by (simp add: chunks.simps [of off 16] chunks.simps [of _ 0] min_def)
qed

lemma dirlink_runs:
  assumes "fs_ok s" "dir_ok s dp" "outstanding s \<ge> 1" "card (busy s) + 6 < room s" "2 \<le> nfree s" "d_size (idata dp s) + 16 \<le> MAXFILE * BSIZE"
    "0 \<notin> set name" "0 < inum" "inum < 2 ^ 16" "dir_get (dirents (file_bytes s dp)) (take DIRSIZ name) = None"
  shows "\<exists>t. dirlink dp name inum s = Inr (0, t) \<and> fs_ok t \<and> dir_ok t dp \<and> busy t = busy s \<and> room s \<le> room t + 7 \<and>
    (\<forall>jp. jp \<noteq> dp \<longrightarrow> icache t jp = icache s jp) \<and>
    (\<forall>n. dir_get (dirents (file_bytes t dp)) n = (if n = take DIRSIZ name then Some inum else dir_get (dirents (file_bytes s dp)) n))"
proof -
  let ?es = "dirents (file_bytes s dp)" and ?de = "mk_dirent inum name" and ?sz = "d_size (idata dp s)"
  let ?k = "first_free ?es"
  have r: "card (busy s) \<le> room s" using assms(4) by simp
  have d: "file_ok s dp" "d_type (idata dp s) = T_DIR" "16 dvd ?sz" using assms(2) by (simp_all add: dir_ok_def)
  note de = decode_mk_dirent [OF assms(9,7)]
  have "dir_find 0 ?es (take DIRSIZ name) = None" using assms(10) by (simp add: dir_get_def)
  with dirlookup_runs [OF assms(1,2) r assms(7)] obtain t where t: "dirlookup dp name s = Inr (None, t)" "same_blocks s t" by auto
  note tk = same_blocks_ok [OF t(2)] same_blocks_dir [OF t(2)]
  obtain u where u: "empty_dirent_from (entries ?sz) 0 dp t = Inr (16 * ?k, u)" "same_blocks t u"
    using empty_dirent_runs [of t dp 0 "?sz div 16"] tk assms(1,2) r d(3) by (auto simp: entries_eq)
  note uk = same_blocks_ok [OF same_blocks_trans [OF t(2) u(2)]] same_blocks_dir [OF same_blocks_trans [OF t(2) u(2)]]
  have k: "16 * ?k \<le> ?sz" "?k \<le> length (file_bytes s dp) div 16" using first_free_le [of ?es] d(3) by (auto elim!: dvdE)
  have ch: "length (chunks (16 * ?k) (length ?de)) = 1" using one_chunk de(2) by simp
  have "runs (writei dp (16 * ?k) ?de u) (\<lambda>(r, v). r = int (length ?de) \<and> fs_ok v \<and> file_ok v dp \<and>
    busy v = busy u \<and> room u \<le> room v + 6 * length (chunks (16 * ?k) (length ?de)) + 1 \<and> d_type (idata dp v) = d_type (idata dp u) \<and>
    file_bytes v dp = take (16 * ?k) (file_bytes u dp) @ ?de @ drop (16 * ?k + length ?de) (file_bytes u dp) \<and>
    (\<forall>jp. jp \<noteq> dp \<longrightarrow> icache v jp = icache u jp) \<and> (\<forall>b. data_block u b \<longrightarrow> b \<notin> slot u dp ` {..MAXFILE} \<longrightarrow> view v b = view u b))"
    by (rule writei_runs) (use uk assms(1-6) d k(1) de(2) ch in auto)
  then obtain v where v: "writei dp (16 * ?k) ?de u = Inr (16, v)" "fs_ok v" "file_ok v dp" "d_type (idata dp v) = T_DIR" "busy v = busy s" "room s \<le> room v + 7"
    "\<And>jp. jp \<noteq> dp \<Longrightarrow> icache v jp = icache s jp"
    "file_bytes v dp = take (16 * ?k) (file_bytes s dp) @ ?de @ drop (16 * ?k + 16) (file_bytes s dp)" using uk(5-8) de(2) d(2) ch by (auto simp: runs_def)
  have es: "dirents (file_bytes v dp) = (if ?k < length ?es then ?es[?k := (inum, take DIRSIZ name)] else ?es @ [(inum, take DIRSIZ name)])"
    using dirents_put [OF _ k(2) de(2)] d(3) de(1) by (simp add: v(8))
  have "length (file_bytes v dp) = 16 * (if ?k < length ?es then length ?es else length ?es + 1)" using v(8) de(2) k d(3) by (auto elim!: dvdE)
  then have "dir_ok v dp" using v(3,4) by (simp add: dir_ok_def)
  moreover have "dirlink dp name inum s = Inr (0, v)" using t(1) u(1) v(1) tk(5) by (simp add: dirlink_def)
  ultimately show ?thesis using v(2,5-7) dir_get_put [OF assms(10), of inum] assms(8) es by auto
qed

text \<open>C13: \<open>dirlink\<close> adds a name to a directory that does not have it: as a map from names to inode numbers, the directory afterwards has the
  new name, cut at 14 characters, with its number, and all other names as before. It reuses the first unused entry or extends the
  directory by one.\<close>

theorem dirlink_adds:
  assumes "fs_ok s" "dir_ok s dp" "outstanding s \<ge> 1" "card (busy s) + 6 < room s" "2 \<le> nfree s" "d_size (idata dp s) + 16 \<le> MAXFILE * BSIZE"
    "0 \<notin> set name" "0 < inum" "inum < 2 ^ 16" "dir_get (dirents (file_bytes s dp)) (take DIRSIZ name) = None"
  shows "\<exists>t. dirlink dp name inum s = Inr (0, t) \<and> fs_ok t \<and> dir_ok t dp \<and>
    (\<forall>n. dir_get (dirents (file_bytes t dp)) n = (if n = take DIRSIZ name then Some inum else dir_get (dirents (file_bytes s dp)) n))"
  using dirlink_runs [OF assms] by blast


text \<open>The name \<open>a\<close> is added to an empty directory as inode 7, and then looked up.\<close>

lemma ex_dir_facts:
  "dir_ok (ex_inode T_DIR) (Suc 0)" "file_bytes (ex_inode T_DIR) (Suc 0) = []"
  using ex_file_facts [of T_DIR] by (auto simp: dir_ok_def file_bytes_def)

theorem dirlink_adds_witness:
  "\<exists>t. dirlink 1 [97] 7 (ex_inode T_DIR) = Inr (0, t) \<and> dir_get (dirents (file_bytes t 1)) [97] = Some 7 \<and>
    dir_get (dirents (file_bytes t 1)) [98] = None"
  using dirlink_adds [of "ex_inode T_DIR" 1 "[97]" 7] ex_file_facts [of T_DIR] ex_dir_facts by (auto simp: dirents_def)

theorem dirlookup_finds_witness:
  "\<exists>t ip off u. dirlink 1 [97] 7 (ex_inode T_DIR) = Inr (0, t) \<and> dirlookup 1 [97] t = Inr (Some (ip, off), u) \<and> i_inum (icache u ip) = 7"
proof -
  from dirlink_runs [of "ex_inode T_DIR" 1 "[97]" 7] obtain t where t: "dirlink 1 [97] 7 (ex_inode T_DIR) = Inr (0, t)" "fs_ok t" "dir_ok t 1"
    "busy t = {}" "icache t 0 = icache (ex_inode T_DIR) 0" "dir_get (dirents (file_bytes t 1)) [97] = Some 7"
    using ex_file_facts [of T_DIR] ex_dir_facts by (auto simp: dirents_def)
  have "\<exists>i < NINODE. i_ref (icache t i) = 0" using t(5) ex_file_facts(8) [of T_DIR] by (intro exI [of _ 0]) simp
  with dirlookup_finds [OF t(2,3), of "[97]"] t show ?thesis by auto
qed


section \<open>Path names\<close>

text \<open>The elements of a path: the non-empty parts between slashes.\<close>

fun split_slash :: "byte list \<Rightarrow> byte list list" where
  "split_slash [] = [[]]"
| "split_slash (c # cs) = (if c = slash then [] # split_slash cs else case split_slash cs of x # xs \<Rightarrow> (c # x) # xs | [] \<Rightarrow> [[c]])"

definition path_elems :: "byte list \<Rightarrow> byte list list" where
  "path_elems path = map (take DIRSIZ) (filter (\<lambda>x. x \<noteq> []) (split_slash path))"

text \<open>What the loop of \<open>namex\<close> sees: the elements that \<open>skipelem\<close> returns one after the other.\<close>

function skip_all :: "byte list \<Rightarrow> byte list list" where
  "skip_all path = (case skipelem path of None \<Rightarrow> [] | Some (name, rest) \<Rightarrow> name # skip_all rest)"
  by pat_completeness auto
termination
  by (relation "measure length") (use skipelem_shorter in auto)

declare skip_all.simps [simp del]

lemma split_slash_ne [simp]: "split_slash p \<noteq> []"
  by (induction p) (auto split: list.splits)

lemma split_slash_drop: "filter (\<lambda>x. x \<noteq> []) (split_slash (dropWhile (\<lambda>c. c = slash) p)) = filter (\<lambda>x. x \<noteq> []) (split_slash p)"
  by (induction p) auto

lemma split_slash_take:
  "split_slash p = takeWhile (\<lambda>c. c \<noteq> slash) p # (case dropWhile (\<lambda>c. c \<noteq> slash) p of [] \<Rightarrow> [] | c # cs \<Rightarrow> split_slash cs)"
  by (induction p) auto

lemma split_slash_rest:
  "filter (\<lambda>x. x \<noteq> []) (case dropWhile (\<lambda>c. c \<noteq> slash) p of [] \<Rightarrow> [] | c # cs \<Rightarrow> split_slash cs) =
    filter (\<lambda>x. x \<noteq> []) (split_slash (dropWhile (\<lambda>c. c \<noteq> slash) p))"
  by (induction p) auto

lemma dropWhile_slash: "dropWhile P p = drop (length (takeWhile P p)) p"
  by (induction p) auto

text \<open>\<open>skipelem\<close> cuts a path into its elements: called again and again on the rest it returns, it yields exactly the non-empty parts of the
  path between slashes, in order and each cut at 14 characters, and then stops; repeated, leading and trailing slashes do not
  matter.\<close>

lemma skipelem_elems: "skip_all path = path_elems path"
proof (induction path rule: skip_all.induct)
  case (1 path)
  let ?p = "dropWhile (\<lambda>c. c = slash) path"
  let ?e = "takeWhile (\<lambda>c. c \<noteq> slash) ?p" and ?r = "dropWhile (\<lambda>c. c \<noteq> slash) ?p"
  show ?case
  proof (cases "?p = []")
    case True
    have "filter (\<lambda>x. x \<noteq> []) (split_slash path) = []" using split_slash_drop [of path] unfolding True by simp
    moreover have "skipelem path = None" using True by (simp add: skipelem_def)
    ultimately show ?thesis by (subst skip_all.simps) (simp add: path_elems_def)
  next
    case False
    then have "hd ?p \<noteq> slash" using hd_dropWhile [of "\<lambda>c. c = slash" path] by blast
    then have e: "?e \<noteq> []" using False by (cases ?p) auto
    have sk: "skipelem path = Some (take DIRSIZ ?e, dropWhile (\<lambda>c. c = slash) ?r)"
      using False dropWhile_slash [of "\<lambda>c. c \<noteq> slash" ?p] by (simp add: skipelem_def Let_def)
    have "skip_all path = take DIRSIZ ?e # path_elems (dropWhile (\<lambda>c. c = slash) ?r)"
      using "1.IH" [OF sk refl] sk by (subst skip_all.simps) simp
    also have "\<dots> = take DIRSIZ ?e # map (take DIRSIZ) (filter (\<lambda>x. x \<noteq> []) (split_slash ?r))"
      by (simp only: path_elems_def split_slash_drop)
    also have "\<dots> = map (take DIRSIZ) (filter (\<lambda>x. x \<noteq> []) (split_slash ?p))"
      using e split_slash_rest [of ?p] by (subst (2) split_slash_take) simp
    finally show ?thesis unfolding split_slash_drop path_elems_def .
  qed
qed

end
