(* ===== verification/Xv6_Filter.thy ===== *)
theory Xv6_Filter
  imports Xv6_Print
begin

text \<open>
  User programs that read descriptors to their end and print: \<open>cat.c\<close>, \<open>wc.c\<close> and \<open>echo.c\<close>. The system calls are parameters:
  a descriptor open for reading is the list of what its reads return, and \<open>open\<close> and \<open>write\<close> are functions.
\<close>

section \<open>Descriptors\<close>

text \<open>
  What the reads of a descriptor return, in order: bytes, or \<open>None\<close> for an error. A read takes no more than it asks for and leaves
  the rest for the next one; after the last item every read returns 0 bytes.
\<close>

type_synonym input = "byte list option list"

fun read_fd :: "nat \<Rightarrow> input \<Rightarrow> byte list option \<times> input" where
  "read_fd k [] = (Some [], [])"
| "read_fd k (None # inp) = (None, inp)"
| "read_fd k (Some c # inp) = (if length c \<le> k then (Some c, inp) else (Some (take k c), Some (drop k c) # inp))"

text \<open>A loop that reads until a read returns nothing ends: every read before that takes something away.\<close>

definition input_size :: "input \<Rightarrow> nat" where
  "input_size inp = sum_list (map (case_option 1 (\<lambda>c. Suc (length c))) inp)"

lemma read_fd_size: "read_fd k inp = (Some c, inp') \<Longrightarrow> c \<noteq> [] \<Longrightarrow> input_size inp' < input_size inp"
  by (induction k inp rule: read_fd.induct) (auto simp: input_size_def split: if_splits)

text \<open>What is read before an error or the end, and whether an error ends it. An empty read is the end.\<close>

fun contents :: "input \<Rightarrow> byte list" where
  "contents [] = []"
| "contents (None # inp) = []"
| "contents (Some c # inp) = (if c = [] then [] else c @ contents inp)"

fun read_error :: "input \<Rightarrow> bool" where
  "read_error [] = False"
| "read_error (None # inp) = True"
| "read_error (Some c # inp) = (c \<noteq> [] \<and> read_error inp)"

lemma read_fd_cases:
  assumes "0 < k" "read_fd k inp = (r, inp')"
  shows "r = None \<Longrightarrow> contents inp = [] \<and> read_error inp" "r = Some [] \<Longrightarrow> contents inp = [] \<and> \<not> read_error inp"
    "r = Some c \<Longrightarrow> c \<noteq> [] \<Longrightarrow> contents inp = c @ contents inp' \<and> read_error inp = read_error inp'"
  using assms by (cases "(k, inp)" rule: read_fd.cases; auto split: if_splits)+

text \<open>\<open>strchr(set, c) != 0\<close>.\<close>

definition in_chars :: "byte list \<Rightarrow> byte \<Rightarrow> bool" where
  "in_chars cs c = (case strchr (cstr cs) c of Some (Some i) \<Rightarrow> True | _ \<Rightarrow> False)"

lemma in_chars_list [code]: "in_chars cs c \<longleftrightarrow> c \<in> set (takeWhile (\<lambda>x. x \<noteq> 0) cs)"
  using scan_None_iff [of "\<lambda>x. x = c" "takeWhile (\<lambda>x. x \<noteq> 0) cs"]
  by (auto simp: in_chars_def strchr_list split: option.splits)

lemma in_chars_iff: "0 \<notin> set cs \<Longrightarrow> in_chars cs c \<longleftrightarrow> c \<in> set cs"
  by (metis (mono_tags, lifting) in_chars_list takeWhile_eq_all_conv)

section \<open>cat\<close>

text \<open>
  The programs return what they have written to descriptor 1, \<open>Inl\<close> if they exit early. \<open>wr out c\<close> is what \<open>write\<close> of \<open>c\<close> returns
  when \<open>out\<close> has been written before: the number of bytes written, or -1.
\<close>

definition cat_write_error :: "byte list" where
  "cat_write_error = [99, 97, 116, 58, 32, 119, 114, 105, 116, 101, 32, 101, 114, 114, 111, 114, 10]"

definition cat_read_error :: "byte list" where
  "cat_read_error = [99, 97, 116, 58, 32, 114, 101, 97, 100, 32, 101, 114, 114, 111, 114, 10]"

function cat :: "(byte list \<Rightarrow> byte list \<Rightarrow> int) \<Rightarrow> input \<Rightarrow> byte list \<Rightarrow> byte list + byte list" where
  "cat wr inp out =
     (case read_fd 512 inp of
        (None, inp') \<Rightarrow> Inl (out @ cat_read_error)
      | (Some c, inp') \<Rightarrow>
          if c = [] then Inr out
          else if wr out c \<noteq> int (length c) then Inl (out @ take (nat (wr out c)) c @ cat_write_error)
          else cat wr inp' (out @ c))"
  by pat_completeness auto
termination
  by (relation "measure (\<lambda>(wr, inp, out). input_size inp)") (auto intro: read_fd_size [OF sym])

declare cat.simps [simp del]

definition cannot_open :: "byte list \<Rightarrow> byte list \<Rightarrow> byte list" where
  "cannot_open prog name = prog @ [58, 32, 99, 97, 110, 110, 111, 116, 32, 111, 112, 101, 110, 32] @ name @ [10]"

fun cat_files :: "(byte list \<Rightarrow> byte list \<Rightarrow> int) \<Rightarrow> (byte list \<Rightarrow> input option) \<Rightarrow> byte list list \<Rightarrow> byte list \<Rightarrow> byte list" where
  "cat_files wr op [] out = out"
| "cat_files wr op (a # as) out =
     (case op a of
        None \<Rightarrow> out @ cannot_open [99, 97, 116] a
      | Some inp \<Rightarrow> (case cat wr inp out of Inl out \<Rightarrow> out | Inr out \<Rightarrow> cat_files wr op as out))"

definition cat_main :: "(byte list \<Rightarrow> byte list \<Rightarrow> int) \<Rightarrow> (byte list \<Rightarrow> input option) \<Rightarrow> input \<Rightarrow> byte list list \<Rightarrow> byte list" where
  "cat_main wr op stdin argv =
     (if length argv \<le> 1 then (case cat wr stdin [] of Inl out \<Rightarrow> out | Inr out \<Rightarrow> out)
      else cat_files wr op (tl argv) [])"

section \<open>wc\<close>

text \<open>The state of the loop: \<open>l\<close>, \<open>w\<close>, \<open>c\<close> and \<open>inword\<close>.\<close>

type_synonym counts = "u32 \<times> u32 \<times> u32 \<times> bool"

definition wc_blanks :: "byte list" where
  "wc_blanks = [32, 13, 9, 10, 11]"

definition wc_char :: "byte \<Rightarrow> counts \<Rightarrow> counts" where
  "wc_char b n =
     (case n of (l, w, c, inword) \<Rightarrow>
        let c = c + 1; l = (if b = 10 then l + 1 else l)
        in if in_chars wc_blanks b then (l, w, c, False)
           else if \<not> inword then (l, w + 1, c, True)
           else (l, w, c, inword))"

function wc_loop :: "input \<Rightarrow> counts \<Rightarrow> counts option" where
  "wc_loop inp n =
     (case read_fd 512 inp of
        (None, inp') \<Rightarrow> None
      | (Some c, inp') \<Rightarrow> if c = [] then Some n else wc_loop inp' (fold wc_char c n))"
  by pat_completeness auto
termination
  by (relation "measure (\<lambda>(inp, n). input_size inp)") (auto intro: read_fd_size [OF sym])

declare wc_loop.simps [simp del]

definition wc_read_error :: "byte list" where
  "wc_read_error = [119, 99, 58, 32, 114, 101, 97, 100, 32, 101, 114, 114, 111, 114, 10]"

definition wc :: "input \<Rightarrow> byte list \<Rightarrow> byte list + byte list" where
  "wc inp name =
     (case wc_loop inp (0, 0, 0, False) of
        None \<Rightarrow> Inl wc_read_error
      | Some (l, w, c, inword) \<Rightarrow>
          Inr (uprintint l 10 True @ [32] @ uprintint w 10 True @ [32] @ uprintint c 10 True @ [32] @ name @ [10]))"

fun wc_files :: "(byte list \<Rightarrow> input option) \<Rightarrow> byte list list \<Rightarrow> byte list" where
  "wc_files op [] = []"
| "wc_files op (a # as) =
     (case op a of
        None \<Rightarrow> cannot_open [119, 99] a
      | Some inp \<Rightarrow> (case wc inp a of Inl out \<Rightarrow> out | Inr out \<Rightarrow> out @ wc_files op as))"

definition wc_main :: "(byte list \<Rightarrow> input option) \<Rightarrow> input \<Rightarrow> byte list list \<Rightarrow> byte list" where
  "wc_main op stdin argv =
     (if length argv \<le> 1 then (case wc stdin [] of Inl out \<Rightarrow> out | Inr out \<Rightarrow> out) else wc_files op (tl argv))"

section \<open>echo\<close>

fun echo_args :: "byte list list \<Rightarrow> byte list" where
  "echo_args [] = []"
| "echo_args (a # as) = a @ (if as \<noteq> [] then [32] else [10]) @ echo_args as"

definition echo_main :: "byte list list \<Rightarrow> byte list" where
  "echo_main argv = echo_args (tl argv)"

section \<open>Reference definitions\<close>

text \<open>The parts of a text between the bytes that satisfy \<open>P\<close>.\<close>

fun split_at :: "(byte \<Rightarrow> bool) \<Rightarrow> byte list \<Rightarrow> byte list list" where
  "split_at P [] = [[]]"
| "split_at P (c # cs) = (if P c then [] # split_at P cs else (c # hd (split_at P cs)) # tl (split_at P cs))"

lemma split_at_Nil [simp]: "split_at P cs \<noteq> []"
  by (cases cs) auto

definition words_of :: "byte list \<Rightarrow> byte list list" where
  "words_of cs = filter (\<lambda>w. w \<noteq> []) (split_at (\<lambda>c. c \<in> set wc_blanks) cs)"

definition lines_of :: "byte list \<Rightarrow> byte list list" where
  "lines_of cs = butlast (split_at (\<lambda>c. c = 10) cs)"

lemma words_of_Cons:
  "length (words_of (b # cs)) =
     (if b \<in> set wc_blanks then length (words_of cs)
      else length (words_of cs) + (if hd (split_at (\<lambda>c. c \<in> set wc_blanks) cs) = [] then 1 else 0))"
  by (cases "split_at (\<lambda>c. c \<in> set wc_blanks) cs") (auto simp: words_of_def)

lemma wc_char_step:
  "wc_char b (l, w, c, v) =
     (if b = 10 then l + 1 else l, if b \<in> set wc_blanks \<or> v then w else w + 1, c + 1, b \<notin> set wc_blanks)"
  using in_chars_iff [of wc_blanks b] by (auto simp: wc_char_def wc_blanks_def Let_def)

text \<open>What the loop over a buffer adds; a word that goes on at its start is not counted again.\<close>

lemma fold_wc_char:
  "\<exists>v'. fold wc_char cs (l, w, c, v) =
     (l + of_nat (count_list cs 10),
      w + of_nat (length (words_of cs)) - (if v \<and> hd (split_at (\<lambda>c. c \<in> set wc_blanks) cs) \<noteq> [] then 1 else 0),
      c + of_nat (length cs), v')"
proof (induction cs arbitrary: l w c v)
  case (Cons b cs)
  show ?case
    using Cons.IH [of "if b = 10 then l + 1 else l" "if b \<in> set wc_blanks \<or> v then w else w + 1" "c + 1" "b \<notin> set wc_blanks"]
    unfolding fold_Cons comp_def wc_char_step words_of_Cons by (auto simp: algebra_simps)
qed (simp add: words_of_def)

lemma wc_loop_fold: "wc_loop inp n = (if read_error inp then None else Some (fold wc_char (contents inp) n))"
proof (induction inp n rule: wc_loop.induct)
  case (1 inp n)
  obtain r inp' where r: "read_fd 512 inp = (r, inp')" by fastforce
  note c = read_fd_cases [OF _ r]
  show ?case
  proof (cases r)
    case None
    then show ?thesis using r c(1) by (simp add: wc_loop.simps [of inp])
  next
    case (Some cs)
    then show ?thesis
      using r c(2) c(3) [OF _ Some] 1 [OF r [symmetric], of cs] by (cases "cs = []") (simp_all add: wc_loop.simps [of inp])
  qed
qed

section \<open>Properties\<close>

text \<open>\<open>wc\<close> prints the numbers of newlines, words and bytes of its input, however the reads cut the input into pieces: a word that spans
  two reads is counted once. The counters are 32-bit; the words are the non-empty parts between blanks.\<close>

lemma wc_counts:
  "wc inp name =
     (if read_error inp then Inl wc_read_error
      else Inr (uprintint (of_nat (count_list (contents inp) 10)) 10 True @ [32]
        @ uprintint (of_nat (length (words_of (contents inp)))) 10 True @ [32]
        @ uprintint (of_nat (length (contents inp))) 10 True @ [32] @ name @ [10]))"
  using fold_wc_char [of "contents inp" 0 0 0 False] by (auto simp: wc_def wc_loop_fold)

text \<open>\<open>cat\<close> writes what it reads, as long as the writes are complete.\<close>

lemma cat_copies:
  assumes "\<And>out c. wr out c = int (length c)"
  shows "cat wr inp out = (if read_error inp then Inl (out @ contents inp @ cat_read_error) else Inr (out @ contents inp))"
  using assms
proof (induction wr inp out rule: cat.induct)
  case (1 wr inp out)
  obtain r inp' where r: "read_fd 512 inp = (r, inp')" by fastforce
  note c = read_fd_cases [OF _ r]
  show ?case
  proof (cases r)
    case None
    then show ?thesis using r c(1) by (simp add: cat.simps [of _ inp])
  next
    case (Some cs)
    then show ?thesis
      using r c(2) c(3) [OF _ Some] "1.IH" [OF r [symmetric], of cs] "1.prems" by (cases "cs = []") (simp_all add: cat.simps [of _ inp])
  qed
qed

end
