(* ===== verification/Xv6_Grep.thy ===== *)
theory Xv6_Grep
  imports Xv6_Filter
begin

text \<open>
  The program \<open>grep.c\<close>: the matcher for regular expressions with \<open>^ . * $\<close>, which is equivalent to a declarative meaning of patterns,
  and the loop over the input. C strings are the lists of their bytes up to the NUL.
\<close>

section \<open>The matcher\<close>

abbreviation caret :: byte where "caret \<equiv> 94"
abbreviation dollar :: byte where "dollar \<equiv> 36"
abbreviation star :: byte where "star \<equiv> 42"
abbreviation dot :: byte where "dot \<equiv> 46"
abbreviation newline :: byte where "newline \<equiv> 10"

function matchhere :: "byte list \<Rightarrow> byte list \<Rightarrow> bool"
  and matchstar :: "byte \<Rightarrow> byte list \<Rightarrow> byte list \<Rightarrow> bool" where
  "matchhere re tx =
     (if cstr re 0 = 0 then True
      else if cstr re 1 = star then matchstar (cstr re 0) (drop 2 re) tx
      else if cstr re 0 = dollar \<and> cstr re 1 = 0 then cstr tx 0 = 0
      else if cstr tx 0 \<noteq> 0 \<and> (cstr re 0 = dot \<or> cstr re 0 = cstr tx 0) then matchhere (drop 1 re) (drop 1 tx)
      else False)"
| "matchstar c re tx =
     (if matchhere re tx then True
      else if cstr tx 0 \<noteq> 0 \<and> (cstr tx 0 = c \<or> c = dot) then matchstar c re (drop 1 tx)
      else False)"
  by pat_completeness auto
termination
proof (relation "inv_image (less_than <*lex*> less_than <*lex*> less_than)
    (\<lambda>x. case x of Inl (re, tx) \<Rightarrow> (length re, length tx, 0) | Inr (c, re, tx) \<Rightarrow> (length re, length tx, 1 :: nat))", goal_cases)
qed (auto simp: cstr_def split: if_splits)

declare matchhere.simps [simp del] matchstar.simps [simp del]

text \<open>The loop of \<open>match\<close> over the suffixes of the text, the empty one included.\<close>

fun match_from :: "byte list \<Rightarrow> byte list \<Rightarrow> bool" where
  "match_from re [] = matchhere re []"
| "match_from re (c # tx) = (if matchhere re (c # tx) then True else match_from re tx)"

definition match :: "byte list \<Rightarrow> byte list \<Rightarrow> bool" where
  "match re tx = (if cstr re 0 = caret then matchhere (drop 1 re) tx else match_from re tx)"

section \<open>The meaning of patterns\<close>

datatype item = One byte | Many byte

definition fits :: "byte \<Rightarrow> byte \<Rightarrow> bool" where
  "fits c t \<longleftrightarrow> c = dot \<or> c = t"

text \<open>The items of a pattern, and whether it ends in \<open>$\<close>.\<close>

fun pattern :: "byte list \<Rightarrow> item list \<times> bool" where
  "pattern [] = ([], False)"
| "pattern [c] = (if c = dollar then ([], True) else ([One c], False))"
| "pattern (c # d # re) = (if d = star then apfst (Cons (Many c)) (pattern re) else apfst (Cons (One c)) (pattern (d # re)))"

fun lang :: "item list \<Rightarrow> byte list \<Rightarrow> bool" where
  "lang [] w \<longleftrightarrow> w = []"
| "lang (One c # p) w \<longleftrightarrow> (\<exists>t v. w = t # v \<and> fits c t \<and> lang p v)"
| "lang (Many c # p) w \<longleftrightarrow> (\<exists>u v. w = u @ v \<and> list_all (fits c) u \<and> lang p v)"

text \<open>A prefix of the text belongs to the pattern, the whole text if the pattern ends in \<open>$\<close>.\<close>

definition starts :: "item list \<times> bool \<Rightarrow> byte list \<Rightarrow> bool" where
  "starts p tx \<longleftrightarrow> (\<exists>w v. tx = w @ v \<and> lang (fst p) w \<and> (snd p \<longrightarrow> v = []))"

definition matches :: "byte list \<Rightarrow> byte list \<Rightarrow> bool" where
  "matches re tx \<longleftrightarrow>
     (case re of c # re' \<Rightarrow> if c = caret then starts (pattern re') tx else \<exists>pre suf. tx = pre @ suf \<and> starts (pattern re) suf
      | [] \<Rightarrow> True)"

lemma starts_One: "starts (One c # p, e) tx \<longleftrightarrow> (\<exists>t ts. tx = t # ts \<and> fits c t \<and> starts (p, e) ts)"
proof
  assume "starts (One c # p, e) tx"
  then obtain t w v where "tx = (t # w) @ v" "fits c t" "lang p w" "e \<longrightarrow> v = []"
    unfolding starts_def fst_conv snd_conv lang.simps by blast
  then show "\<exists>t ts. tx = t # ts \<and> fits c t \<and> starts (p, e) ts" by (auto simp: starts_def)
next
  assume "\<exists>t ts. tx = t # ts \<and> fits c t \<and> starts (p, e) ts"
  then obtain t w v where "tx = t # w @ v" "fits c t" "lang p w" "e \<longrightarrow> v = []" by (auto simp: starts_def)
  then show "starts (One c # p, e) tx" unfolding starts_def by (intro exI [of _ "t # w"] exI [of _ v]) simp
qed

lemma starts_Many: "starts (Many c # p, e) tx \<longleftrightarrow> (\<exists>u v. tx = u @ v \<and> list_all (fits c) u \<and> starts (p, e) v)"
proof
  assume "starts (Many c # p, e) tx"
  then obtain u w v where "tx = (u @ w) @ v" "list_all (fits c) u" "lang p w" "e \<longrightarrow> v = []"
    unfolding starts_def fst_conv snd_conv lang.simps by blast
  then show "\<exists>u v. tx = u @ v \<and> list_all (fits c) u \<and> starts (p, e) v"
    by (intro exI [of _ u] exI [of _ "w @ v"]) (auto simp: starts_def)
next
  assume "\<exists>u v. tx = u @ v \<and> list_all (fits c) u \<and> starts (p, e) v"
  then obtain u w v where "tx = u @ w @ v" "list_all (fits c) u" "lang p w" "e \<longrightarrow> v = []" by (auto simp: starts_def)
  then show "starts (Many c # p, e) tx" unfolding starts_def by (intro exI [of _ "u @ w"] exI [of _ v]) auto
qed

lemma starts_Many_step:
  "starts (Many c # p, e) tx \<longleftrightarrow> starts (p, e) tx \<or> (\<exists>t ts. tx = t # ts \<and> fits c t \<and> starts (Many c # p, e) ts)"
proof
  assume "starts (Many c # p, e) tx"
  then obtain u v where "tx = u @ v" "list_all (fits c) u" "starts (p, e) v" by (auto simp: starts_Many)
  then show "starts (p, e) tx \<or> (\<exists>t ts. tx = t # ts \<and> fits c t \<and> starts (Many c # p, e) ts)"
    by (cases u) (auto simp: starts_Many)
next
  assume "starts (p, e) tx \<or> (\<exists>t ts. tx = t # ts \<and> fits c t \<and> starts (Many c # p, e) ts)"
  then show "starts (Many c # p, e) tx"
  proof (elim disjE exE conjE)
    assume "starts (p, e) tx"
    then show ?thesis unfolding starts_Many by (intro exI [of _ "[]"] exI [of _ tx]) simp
  next
    fix t ts
    assume t: "tx = t # ts" "fits c t" "starts (Many c # p, e) ts"
    then obtain u v where "ts = u @ v" "list_all (fits c) u" "starts (p, e) v" by (auto simp: starts_Many)
    then show ?thesis unfolding starts_Many using t by (intro exI [of _ "t # u"] exI [of _ v]) simp
  qed
qed

lemma starts_apfst:
  "starts (apfst (Cons (One c)) p) tx \<longleftrightarrow> (\<exists>t ts. tx = t # ts \<and> fits c t \<and> starts p ts)"
  "starts (apfst (Cons (Many c)) p) tx \<longleftrightarrow> starts p tx \<or> (\<exists>t ts. tx = t # ts \<and> fits c t \<and> starts (apfst (Cons (Many c)) p) ts)"
  using starts_One [of c "fst p" "snd p" tx] starts_Many_step [of c "fst p" "snd p" tx] by (cases p; simp)+

lemma starts_end [simp]: "starts ([], True) tx \<longleftrightarrow> tx = []" "starts ([], False) tx"
  by (auto simp: starts_def)

lemma matcher_meaning:
  "0 \<notin> set re \<Longrightarrow> 0 \<notin> set tx \<Longrightarrow> matchhere re tx \<longleftrightarrow> starts (pattern re) tx"
  "0 \<notin> set re \<Longrightarrow> 0 \<notin> set tx \<Longrightarrow> matchstar c re tx \<longleftrightarrow> starts (apfst (Cons (Many c)) (pattern re)) tx"
proof (induction re tx and c re tx rule: matchhere_matchstar.induct)
  case (1 re tx)
  show ?case
  proof (cases re rule: pattern.cases)
    case 1
    then show ?thesis by (simp add: matchhere.simps)
  next
    case (2 c)
    show ?thesis
    proof (cases tx)
      case Nil
      then show ?thesis using 2 "1.prems" starts_apfst(1) [of c "([], False)"] by (simp add: matchhere.simps)
    next
      case (Cons t ts)
      then show ?thesis
        using 2 "1.prems" starts_apfst(1) [of c "([], False)" tx] matchhere.simps [of "[]" ts] by (auto simp: matchhere.simps [of "[c]"] fits_def)
    qed
  next
    case (3 c d r)
    then have c: "c \<noteq> 0" "d \<noteq> 0" "0 \<notin> set r" using "1.prems" by auto
    show ?thesis
    proof (cases "d = star")
      case True
      have "matchhere re tx = matchstar c r tx" unfolding 3 matchhere.simps [of "c # d # r"] using True c by simp
      then show ?thesis using "1.IH"(1) "1.prems" 3 c True by simp
    next
      case False
      then have m: "matchhere re tx \<longleftrightarrow> (\<exists>t ts. tx = t # ts \<and> fits c t \<and> matchhere (d # r) ts)"
        using 3 c "1.prems"(2) by (cases tx) (auto simp: matchhere.simps [of "c # d # r"] fits_def)
      have "matchhere (d # r) ts \<longleftrightarrow> starts (pattern (d # r)) ts" if "tx = t # ts" "fits c t" for t ts
        using "1.IH"(2) "1.prems" 3 c False that by (auto simp: fits_def)
      then show ?thesis using m False 3 starts_apfst(1) [of c "pattern (d # r)" tx] by auto
    qed
  qed
next
  case (2 c re tx)
  have m: "matchstar c re tx \<longleftrightarrow> matchhere re tx \<or> (\<exists>t ts. tx = t # ts \<and> fits c t \<and> matchstar c re ts)"
    unfolding matchstar.simps [of c re tx] using "2.prems"(2) by (cases tx) (auto simp: fits_def)
  have "matchstar c re ts \<longleftrightarrow> starts (apfst (Cons (Many c)) (pattern re)) ts" if "tx = t # ts" "fits c t" "\<not> matchhere re tx" for t ts
    using "2.IH"(2) "2.prems" that by (auto simp: fits_def)
  then show ?case using m "2.IH"(1) [OF "2.prems"] starts_apfst(2) [of c "pattern re" tx] by blast
qed

lemma match_from_iff: "match_from re tx \<longleftrightarrow> (\<exists>pre suf. tx = pre @ suf \<and> matchhere re suf)"
proof (induction tx)
  case (Cons t tx)
  then show ?case by (auto simp: Cons_eq_append_conv)
qed simp

text \<open>C32: \<open>match\<close> finds exactly what the pattern means: \<open>c*\<close> stands for any number of bytes \<open>c\<close>, a dot for any byte, \<open>^\<close> at the start and \<open>$\<close> at the
  end tie the match to the start and the end of the text, and without \<open>^\<close> the match may start anywhere. The search ends for every
  pattern and text.\<close>

theorem match_meaning:
  assumes "0 \<notin> set re" "0 \<notin> set tx"
  shows "match re tx \<longleftrightarrow> matches re tx"
proof (cases re)
  case Nil
  then show ?thesis by (cases tx) (simp_all add: match_def matches_def matchhere.simps)
next
  case (Cons c r)
  have "matchhere re suf \<longleftrightarrow> starts (pattern re) suf" if "tx = pre @ suf" for pre suf using that assms by (intro matcher_meaning(1)) auto
  moreover have "matchhere r tx \<longleftrightarrow> starts (pattern r) tx" using assms Cons by (intro matcher_meaning(1)) auto
  ultimately show ?thesis unfolding match_def matches_def match_from_iff using Cons by auto
qed

text \<open>The pattern \<open>a.*c$\<close> matches \<open>xabc\<close>.\<close>

theorem match_meaning_witness: "match [97, 46, 42, 99, 36] [120, 97, 98, 99] \<and> matches [97, 46, 42, 99, 36] [120, 97, 98, 99]"
  using match_meaning [of "[97, 46, 42, 99, 36]" "[120, 97, 98, 99]"] by (simp add: match_def matchhere.simps matchstar.simps)

section \<open>The loop over the input\<close>

text \<open>
  The inner loop: the lines of the buffer from \<open>p\<close> on that end in a newline, up to a NUL. It returns what is written and the
  rest of the buffer from the last \<open>p\<close> on.
\<close>

lemma strchr_less: "strchr (cstr p) c = Some (Some n) \<Longrightarrow> n < length p"
  using scan_SomeD(1) [of "\<lambda>x. x = c" "takeWhile (\<lambda>x. x \<noteq> 0) p" n] length_takeWhile_le [of "\<lambda>x. x \<noteq> 0" p] by (simp add: strchr_list)

function grep_scan :: "byte list \<Rightarrow> byte list \<Rightarrow> byte list \<times> byte list" where
  "grep_scan pat p =
     (case strchr (cstr p) newline of
        Some (Some n) \<Rightarrow>
          (case grep_scan pat (drop (n + 1) p) of
             (out, r) \<Rightarrow> ((if match pat (take n p) then take (n + 1) p else []) @ out, r))
      | _ \<Rightarrow> ([], p))"
  by pat_completeness auto
termination
  by (relation "measure (\<lambda>(pat, p). length p)") (auto dest: strchr_less)

declare grep_scan.simps [simp del]

text \<open>
  The outer loop; \<open>held\<close> are the first \<open>m\<close> bytes of the buffer. When no line was found (\<open>p == buf\<close>) they are dropped.
\<close>

function grep :: "byte list \<Rightarrow> input \<Rightarrow> byte list \<Rightarrow> byte list" where
  "grep pat inp held =
     (case read_fd (1024 - length held - 1) inp of
        (None, inp') \<Rightarrow> []
      | (Some c, inp') \<Rightarrow>
          if c = [] then []
          else (case grep_scan pat (held @ c) of
                  (out, p) \<Rightarrow> out @ grep pat inp' (if length p = length (held @ c) then [] else p)))"
  by pat_completeness auto
termination
  by (relation "measure (\<lambda>(pat, inp, held). input_size inp)") (auto intro: read_fd_size [OF sym])

declare grep.simps [simp del]

fun grep_files :: "(byte list \<Rightarrow> input option) \<Rightarrow> byte list \<Rightarrow> byte list list \<Rightarrow> byte list" where
  "grep_files op pat [] = []"
| "grep_files op pat (a # as) =
     (case op a of
        None \<Rightarrow> cannot_open [103, 114, 101, 112] a
      | Some inp \<Rightarrow> grep pat inp [] @ grep_files op pat as)"

text \<open>\<open>main\<close> with at least one argument; without, it prints its usage to descriptor 2.\<close>

definition grep_main :: "(byte list \<Rightarrow> input option) \<Rightarrow> input \<Rightarrow> byte list list \<Rightarrow> byte list" where
  "grep_main op stdin argv =
     (if length argv \<le> 1 then []
      else if length argv \<le> 2 then grep (argv ! 1) stdin []
      else grep_files op (argv ! 1) (drop 2 argv))"

abbreviation split_lines :: "byte list \<Rightarrow> byte list list" where
  "split_lines \<equiv> split_at (\<lambda>c. c = newline)"

lemma split_at_Some: "scan P xs = Some n \<Longrightarrow> split_at P xs = take n xs # split_at P (drop (n + 1) xs)"
  by (induction xs arbitrary: n) (auto split: if_splits)

lemma split_at_None: "scan P xs = None \<Longrightarrow> split_at P xs = [xs]"
  by (induction xs) (auto split: if_splits)

lemma split_at_append: "split_at P (xs @ ys) = butlast (split_at P xs) @ split_at P (last (split_at P xs) @ ys)"
proof (induction xs)
  case (Cons x xs)
  then show ?case by (cases "split_at P xs") auto
qed simp

definition printed :: "byte list \<Rightarrow> byte list list \<Rightarrow> byte list" where
  "printed pat ls = concat (map (\<lambda>l. l @ [newline]) (filter (match pat) ls))"

lemma grep_scan_lines: "0 \<notin> set p \<Longrightarrow> grep_scan pat p = (printed pat (lines_of p), last (split_lines p))"
proof (induction pat p rule: grep_scan.induct)
  case (1 pat p)
  show ?case
  proof (cases "scan (\<lambda>x. x = newline) p")
    case None
    then show ?thesis
      using 1 by (simp add: grep_scan.simps [of pat p] strchr_cstr split_at_None printed_def lines_of_def)
  next
    case (Some n)
    have n: "take (n + 1) p = take n p @ [newline]" using scan_SomeD [OF Some] by (simp add: take_Suc_conv_app_nth)
    have "grep_scan pat (drop (n + 1) p) = (printed pat (lines_of (drop (n + 1) p)), last (split_lines (drop (n + 1) p)))"
      using 1 Some by (intro "1.IH" [of "Some n" n]) (auto simp: strchr_cstr dest: in_set_dropD)
    then show ?thesis
      using "1.prems" Some n by (simp add: grep_scan.simps [of pat p] strchr_cstr split_at_Some printed_def lines_of_def)
  qed
qed

lemma printed_append: "printed pat (xs @ ys) = printed pat xs @ printed pat ys"
  by (simp add: printed_def)

lemma split_at_sep: "P y \<Longrightarrow> split_at P (us @ y # zs) = split_at P us @ split_at P zs"
  by (induction us) simp_all

lemma split_lines_one: "newline \<notin> set c \<Longrightarrow> split_lines c = [c]"
  by (rule split_at_None) (auto simp: scan_None_iff)

lemma split_last:
  assumes "x \<in> set xs" "P x"
  shows "\<exists>ys y zs. xs = ys @ y # zs \<and> P y \<and> last (split_at P xs) = zs \<and> (\<forall>z \<in> set zs. \<not> P z)"
proof -
  from assms obtain ys y zs where xs: "xs = ys @ y # zs" "P y" "\<forall>z \<in> set zs. \<not> P z"
    using split_list_last_prop [of xs P] by blast
  then have "split_at P zs = [zs]" by (simp add: split_at_None scan_None_iff)
  then show ?thesis using xs split_at_sep [of P y ys zs] by auto
qed

text \<open>One turn of the loop, when the buffer then has a newline: it prints the lines of the buffer and keeps what follows the last newline.\<close>

lemma lines_append:
  "lines_of (xs @ ys) = lines_of xs @ lines_of (last (split_lines xs) @ ys)"
  using split_at_append [of "\<lambda>x. x = newline" xs ys] by (simp add: lines_of_def butlast_append)

lemma last_split_lines: "newline \<notin> set (last (split_lines xs))" "set (last (split_lines xs)) \<subseteq> set xs"
proof -
  have "newline \<notin> set (last (split_lines xs)) \<and> set (last (split_lines xs)) \<subseteq> set xs"
  proof (cases "newline \<in> set xs")
    case True
    then obtain ys zs where "xs = ys @ newline # zs" "last (split_lines xs) = zs" "newline \<notin> set zs"
      using split_last [of newline xs "\<lambda>x. x = newline"] by auto
    then show ?thesis by auto
  qed (simp add: split_lines_one)
  then show "newline \<notin> set (last (split_lines xs))" "set (last (split_lines xs)) \<subseteq> set xs" by simp_all
qed

lemma lines_of_one: "newline \<notin> set c \<Longrightarrow> lines_of c = []"
  by (simp add: lines_of_def split_lines_one)

lemma last_split_less: "newline \<in> set xs \<Longrightarrow> length (last (split_lines xs)) < length xs"
proof -
  assume "newline \<in> set xs"
  then obtain ys zs where "xs = ys @ newline # zs" "last (split_lines xs) = zs"
    using split_last [of newline xs "\<lambda>x. x = newline"] by auto
  then show ?thesis by simp
qed

lemma first_part: "xs @ ys = us @ y # zs \<Longrightarrow> y \<notin> set xs \<Longrightarrow> length xs \<le> length us"
proof (rule ccontr)
  assume e: "xs @ ys = us @ y # zs" "y \<notin> set xs" "\<not> length xs \<le> length us"
  then have "xs ! length us = y" by (metis not_le nth_append nth_append_length)
  then show False using e(2,3) by (metis not_le nth_mem)
qed

lemma grep_turn:
  assumes "read_fd (1023 - length held) inp = (Some c, inp')" "c \<noteq> []" "newline \<in> set (held @ c)" "0 \<notin> set (held @ c)"
  shows "grep pat inp held = printed pat (lines_of (held @ c)) @ grep pat inp' (last (split_lines (held @ c)))"
proof -
  have "grep_scan pat (held @ c) = (printed pat (lines_of (held @ c)), last (split_lines (held @ c)))" by (rule grep_scan_lines [OF assms(4)])
  moreover have "length (last (split_lines (held @ c))) \<noteq> length (held @ c)" using last_split_less [OF assms(3)] by simp
  ultimately show ?thesis using assms(1,2) by (subst grep.simps) (simp add: diff_diff_eq)
qed

text \<open>
  A buffer that is full has a newline when the lines fit into it: \<open>held\<close> is the start of a line of at most 1022 bytes, for which 1023 bytes are enough.
\<close>

lemma line_in_buffer:
  assumes "newline \<in> set (held @ r)" "\<forall>l \<in> set (lines_of (held @ r)). length l \<le> 1022" "newline \<notin> set held" "1023 - length held < length r"
  shows "length held \<le> 1022" "newline \<in> set (held @ take (1023 - length held) r)"
proof -
  obtain l zs where l: "held @ r = l @ newline # zs" "newline \<notin> set l" using split_list_first [OF assms(1)] by blast
  then have "l \<in> set (lines_of (held @ r))" by (simp add: l(1) lines_of_def split_at_sep split_lines_one butlast_append)
  then have b: "length l \<le> 1022" using assms(2) by blast
  have "length held \<le> length l" by (rule first_part [OF l(1) assms(3)])
  then show h: "length held \<le> 1022" using b by simp
  have "take 1023 (held @ r) = l @ newline # take (1022 - length l) zs" using b by (simp add: l(1) take_Cons')
  moreover have "take 1023 (held @ r) = held @ take (1023 - length held) r" using h by simp
  ultimately show "newline \<in> set (held @ take (1023 - length held) r)" by (metis in_set_conv_decomp)
qed

text \<open>A piece of input that ends in a newline, however long: it is read in as many turns as it takes, and nothing is held at its end.\<close>

lemma grep_whole_lines:
  assumes "c \<noteq> []" "last c = newline" "newline \<notin> set held" "0 \<notin> set (held @ c)" "\<forall>l \<in> set (lines_of (held @ c)). length l \<le> 1022"
  shows "grep pat (Some c # inp) held = printed pat (lines_of (held @ c)) @ grep pat inp []"
  using assms
proof (induction "length c" arbitrary: c held rule: less_induct)
  case less
  have nl: "newline \<in> set (held @ c)" using less.prems(1,2) last_in_set by fastforce
  show ?case
  proof (cases "length c \<le> 1023 - length held")
    case True
    obtain ys where c: "c = ys @ [newline]" using less.prems(1,2) by (metis append_butlast_last_id)
    have "last (split_lines (held @ c)) = []" using split_at_sep [of "\<lambda>x. x = newline" newline "held @ ys" "[]"] by (simp add: c)
    then show ?thesis using grep_turn [of held "Some c # inp" c inp pat] True nl less.prems by simp
  next
    case False
    let ?k = "1023 - length held"
    let ?zs = "last (split_lines (held @ take ?k c))"
    have k: "length held \<le> 1022" "newline \<in> set (held @ take ?k c)" using line_in_buffer [OF nl less.prems(5,3)] False by simp_all
    have ne: "drop ?k c \<noteq> []" "last (drop ?k c) = newline" "take ?k c \<noteq> []" "length (drop ?k c) < length c" using False k(1) less.prems(1,2) by auto
    have l: "lines_of (held @ c) = lines_of (held @ take ?k c) @ lines_of (?zs @ drop ?k c)"
      using lines_append [of "held @ take ?k c" "drop ?k c"] by simp
    have z: "newline \<notin> set ?zs" "0 \<notin> set (?zs @ drop ?k c)" "\<forall>l \<in> set (lines_of (?zs @ drop ?k c)). length l \<le> 1022"
      using last_split_lines [of "held @ take ?k c"] less.prems(4,5) l by (auto dest: in_set_takeD in_set_dropD)
    have "grep pat (Some (drop ?k c) # inp) ?zs = printed pat (lines_of (?zs @ drop ?k c)) @ grep pat inp []"
      by (rule less.hyps [OF ne(4,1,2) z])
    moreover have "grep pat (Some c # inp) held = printed pat (lines_of (held @ take ?k c)) @ grep pat (Some (drop ?k c) # inp) ?zs"
      using grep_turn [of held "Some c # inp" "take ?k c" "Some (drop ?k c) # inp" pat] False ne(3) k(2) less.prems(4) by (auto dest: in_set_takeD)
    ultimately show ?thesis by (simp add: l printed_append)
  qed
qed

text \<open>The last piece of the input may end in the middle of a line, which is not printed.\<close>

lemma grep_no_newline: "newline \<notin> set (held @ c) \<Longrightarrow> 0 \<notin> set (held @ c) \<Longrightarrow> grep pat [Some c] held = []"
proof (induction "length c" arbitrary: c held rule: less_induct)
  case less
  let ?k = "1023 - length held"
  have e: "grep pat [] h = []" for h by (simp add: grep.simps)
  have s: "grep_scan pat (held @ x) = ([], held @ x)" if "set x \<subseteq> set c" for x
  proof -
    have "newline \<notin> set (held @ x)" "0 \<notin> set (held @ x)" using that less.prems by auto
    then show ?thesis using grep_scan_lines [of "held @ x" pat] by (simp only: split_lines_one lines_of_one) (simp add: printed_def)
  qed
  show ?case
  proof (cases "length c \<le> ?k")
    case True
    then show ?thesis using s [of c] e by (subst grep.simps) (simp add: diff_diff_eq)
  next
    case False
    have "grep pat [Some (drop ?k c)] [] = []" if "?k \<noteq> 0"
      using that False less.prems by (intro less.hyps) (auto dest: in_set_dropD)
    then show ?thesis using False s [OF set_take_subset [of ?k c]] by (subst grep.simps) (auto simp: diff_diff_eq)
  qed
qed

lemma grep_last_piece:
  assumes "newline \<notin> set held" "0 \<notin> set (held @ c)" "\<forall>l \<in> set (lines_of (held @ c)). length l \<le> 1022"
  shows "grep pat [Some c] held = printed pat (lines_of (held @ c))"
  using assms
proof (induction "length c" arbitrary: c held rule: less_induct)
  case less
  have e: "grep pat [] h = []" for h by (simp add: grep.simps)
  show ?case
  proof (cases "newline \<in> set (held @ c)")
    case False
    then show ?thesis using grep_no_newline less.prems(2) by (simp add: lines_of_one printed_def)
  next
    case nl: True
    then have c: "c \<noteq> []" using less.prems(1) by auto
    show ?thesis
    proof (cases "length c \<le> 1023 - length held")
      case True
      then show ?thesis using grep_turn [of held "[Some c]" c "[]" pat] c nl less.prems e by simp
    next
      case False
      let ?k = "1023 - length held"
      let ?zs = "last (split_lines (held @ take ?k c))"
      have k: "length held \<le> 1022" "newline \<in> set (held @ take ?k c)" using line_in_buffer [OF nl less.prems(3,1)] False by simp_all
      have ne: "take ?k c \<noteq> []" "length (drop ?k c) < length c" using False k(1) c by auto
      have l: "lines_of (held @ c) = lines_of (held @ take ?k c) @ lines_of (?zs @ drop ?k c)"
        using lines_append [of "held @ take ?k c" "drop ?k c"] by simp
      have z: "newline \<notin> set ?zs" "0 \<notin> set (?zs @ drop ?k c)" "\<forall>l \<in> set (lines_of (?zs @ drop ?k c)). length l \<le> 1022"
        using last_split_lines [of "held @ take ?k c"] less.prems(2,3) l by (auto dest: in_set_takeD in_set_dropD)
      have "grep pat [Some (drop ?k c)] ?zs = printed pat (lines_of (?zs @ drop ?k c))" by (rule less.hyps [OF ne(2) z])
      moreover have "grep pat [Some c] held = printed pat (lines_of (held @ take ?k c)) @ grep pat [Some (drop ?k c)] ?zs"
        using grep_turn [of held "[Some c]" "take ?k c" "[Some (drop ?k c)]" pat] False ne(1) k(2) less.prems(2) by (auto dest: in_set_takeD)
      ultimately show ?thesis by (simp add: l printed_append)
    qed
  qed
qed

text \<open>With the bytes \<open>held\<close> of a last line in the buffer, the loop goes on as it would with them in front of its input.\<close>

lemma grep_lines:
  assumes "\<forall>c \<in> set cs. newline \<in> set c \<and> (last c = newline \<or> length c \<le> 512)" "0 \<notin> set (held @ concat cs @ d)"
    and "\<forall>l \<in> set (lines_of (held @ concat cs @ d)). length l \<le> 1022" "newline \<notin> set held" "length held < 512"
  shows "grep pat (map Some cs @ [Some d]) held = printed pat (lines_of (held @ concat cs @ d))"
  using assms
proof (induction cs arbitrary: held)
  case Nil
  then show ?case using grep_last_piece [of held d pat] by simp
next
  case (Cons c cs)
  let ?zs = "last (split_lines (held @ c))"
  have nl: "newline \<in> set (held @ c)" and c: "c \<noteq> []" using Cons.prems(1) by force+
  have l: "lines_of (held @ concat (c # cs) @ d) = lines_of (held @ c) @ lines_of (?zs @ concat cs @ d)"
    using lines_append [of "held @ c" "concat cs @ d"] by simp
  have z: "newline \<notin> set ?zs" "0 \<notin> set (?zs @ concat cs @ d)" "\<forall>l \<in> set (lines_of (?zs @ concat cs @ d)). length l \<le> 1022"
    using last_split_lines [of "held @ c"] Cons.prems(2,3) l by auto
  have IH: "length ?zs < 512 \<Longrightarrow> grep pat (map Some cs @ [Some d]) ?zs = printed pat (lines_of (?zs @ concat cs @ d))"
    using Cons.IH [OF _ z(2,3,1)] Cons.prems(1) by simp
  show ?case
  proof (cases "last c = newline")
    case True
    then obtain ys where "c = ys @ [newline]" using c by (metis append_butlast_last_id)
    then have e: "?zs = []" using split_at_sep [of "\<lambda>x. x = newline" newline "held @ ys" "[]"] by simp
    have "grep pat (Some c # map Some cs @ [Some d]) held = printed pat (lines_of (held @ c)) @ grep pat (map Some cs @ [Some d]) []"
      by (rule grep_whole_lines [OF c True Cons.prems(4)]) (use Cons.prems(2,3) l in auto)
    then show ?thesis using IH e l by (simp add: printed_append)
  next
    case False
    then have len: "length c \<le> 512" using Cons.prems(1) by simp
    obtain ys zs where z: "held @ c = ys @ newline # zs" "?zs = zs"
      using split_last [of newline "held @ c" "\<lambda>x. x = newline"] nl by auto
    have "length held + length c = length ys + Suc (length zs)" using arg_cong [OF z(1), of length] by simp
    then have "length ?zs < length c" using first_part [OF z(1) Cons.prems(4)] z(2) by simp
    then have "length ?zs < 512" using len by simp
    moreover have "grep pat (Some c # map Some cs @ [Some d]) held = printed pat (lines_of (held @ c)) @ grep pat (map Some cs @ [Some d]) ?zs"
      using grep_turn [of held "Some c # map Some cs @ [Some d]" c "map Some cs @ [Some d]" pat] c nl len Cons.prems(2,5) by simp
    ultimately show ?thesis using IH l by (simp add: printed_append)
  qed
qed

text \<open>
  C33: \<open>grep\<close> prints exactly the lines of its input that match, in order and whole, also those that span several turns of its loop, for text without
  NUL bytes whose lines have at most 1022 bytes, so that a line and its newline fit into the buffer. The input may come in any pieces of which
  all but the last end in a newline, or contain one and have at most 512 bytes: a file, which is one piece and which \<open>grep\<close> reads in turns of
  up to 1023 bytes; the console, which returns lines; a pipe, which returns at most 512 bytes. What follows the last newline of the
  input is not a line, and is not printed.
\<close>

theorem grep_prints_lines:
  assumes "\<forall>c \<in> set cs. newline \<in> set c \<and> (last c = newline \<or> length c \<le> 512)" "0 \<notin> set (concat cs @ d)"
    "\<forall>l \<in> set (lines_of (concat cs @ d)). length l \<le> 1022"
  shows "grep pat (map Some cs @ [Some d]) [] = concat (map (\<lambda>l. l @ [newline]) (filter (match pat) (lines_of (concat cs @ d))))"
  using grep_lines [OF assms(1), of "[]" d pat] assms(2,3) by (simp add: printed_def)

text \<open>
  The pattern \<open>b\<close> on the text \<open>x\<close>, newline, \<open>ab\<close>, newline, which comes in two pieces, and on a file with a line of 700 bytes \<open>b\<close> between two of 600
  bytes \<open>x\<close>, which is more than the buffer holds.
\<close>

definition ex_text :: "byte list" where
  "ex_text = replicate 600 120 @ [10] @ replicate 700 98 @ [10] @ replicate 600 120 @ [10]"

lemma ex_text_lines: "lines_of ex_text = [replicate 600 120, replicate 700 98, replicate 600 120]"
  by (simp add: ex_text_def lines_of_def split_at_sep split_lines_one)

lemma match_byte: "match [c] tx \<longleftrightarrow> c \<in> set tx" if "c \<noteq> 0" "c \<noteq> 94" "c \<noteq> 36" "c \<noteq> 42" "c \<noteq> 46"
proof -
  have "match_from [c] tx \<longleftrightarrow> c \<in> set tx" using that by (induction tx) (auto simp: matchhere.simps)
  then show ?thesis using that by (simp add: match_def)
qed

theorem grep_prints_lines_witness:
  "grep [98] (map Some [[120, 10, 97]] @ [Some [98, 10]]) [] = [97, 98, 10] \<and> grep [98] [Some ex_text] [] = replicate 700 98 @ [10]"
proof
  show "grep [98] (map Some [[120, 10, 97]] @ [Some [98, 10]]) [] = [97, 98, 10]"
    using grep_prints_lines [of "[[120, 10, 97]]" "[98, 10]" "[98]"] by (simp add: lines_of_def match_byte)
  have "grep [98] (map Some [] @ [Some ex_text]) [] = concat (map (\<lambda>l. l @ [newline]) (filter (match [98]) (lines_of (concat [] @ ex_text))))"
    by (rule grep_prints_lines) (simp_all add: ex_text_lines, simp add: ex_text_def)
  then show "grep [98] [Some ex_text] [] = replicate 700 98 @ [10]"
    by (simp add: ex_text_lines match_byte)
qed

text \<open>A read without a newline is lost: \<open>grep\<close> goes on as if it had not been there, and prints the rest of the line, if at all,
  without its start.\<close>

lemma grep_drops_partial:
  assumes "c \<noteq> []" "newline \<notin> set c" "0 \<notin> set c" "length c \<le> 1023"
  shows "grep pat (Some c # inp) [] = grep pat inp []"
proof -
  have "grep_scan pat c = ([], c)" using grep_scan_lines [OF assms(3)] split_lines_one [OF assms(2)] by (simp add: lines_of_def printed_def)
  then show ?thesis using assms by (simp add: grep.simps [of pat "Some c # inp"])
qed

text \<open>The line \<open>ab\<close> in two reads does not match \<open>a\<close>.\<close>

lemma grep_drops_partial_witness: "grep [97] [Some [97], Some [98, 10]] [] = []"
proof -
  have "grep [97] [Some [98, 10]] [] = []"
    using grep_last_piece [of "[]" "[98, 10]" "[97]"] by (simp add: lines_of_def printed_def match_byte)
  then show ?thesis using grep_drops_partial [of "[97]" "[97]" "[Some [98, 10]]"] by simp
qed

end
