(* ===== verification/Xv6_Shell.thy ===== *)
theory Xv6_Shell
  imports Xv6_Filter
begin

text \<open>
  The parser of the shell (\<open>sh.c\<close>): tokens, the recursive descent over a command line, and \<open>nulterminate\<close>, which ends the strings of
  the parsed command in the line itself. A position is an offset into the line, whose bytes before the NUL are a list; the
  parser stores positions in the command, as the code stores pointers.
\<close>

section \<open>Commands\<close>

text \<open>A string of a command: the offsets of its start and of the byte after its end.\<close>

type_synonym span = "nat \<times> nat"

datatype cmd =
    ExecCmd "span list"                    \<comment> \<open>\<open>argv\<close> and \<open>eargv\<close>, up to the null pointer\<close>
  | RedirCmd cmd span int nat              \<comment> \<open>\<open>cmd\<close>, \<open>file\<close> and \<open>efile\<close>, \<open>mode\<close>, \<open>fd\<close>\<close>
  | PipeCmd cmd cmd
  | ListCmd cmd cmd
  | BackCmd cmd

definition MAXARGS :: nat where "MAXARGS = 10"

abbreviation O_RDONLY :: int where "O_RDONLY \<equiv> 0"
abbreviation O_WRONLY_CREATE :: int where "O_WRONLY_CREATE \<equiv> 0x201"

text \<open>A panic of the shell, which prints the message and exits; \<open>parsecmd\<close> first prints what is left of the line.\<close>

datatype sherror = Shpanic string | Leftovers "byte list" | No_fuel

type_synonym 'a sh = "sherror + 'a"

fun bindS :: "'a sh \<Rightarrow> ('a \<Rightarrow> 'b sh) \<Rightarrow> 'b sh" where
  "bindS (Inl e) f = Inl e"
| "bindS (Inr x) f = f x"

section \<open>Tokens\<close>

definition whitespace :: "byte list" where
  "whitespace = [32, 9, 13, 10, 11]"

definition symbols :: "byte list" where
  "symbols = [60, 124, 62, 38, 59, 40, 41]"

abbreviation blank :: "byte \<Rightarrow> bool" where "blank c \<equiv> in_chars whitespace c"

abbreviation wordchar :: "byte \<Rightarrow> bool" where "wordchar c \<equiv> \<not> in_chars whitespace c \<and> \<not> in_chars symbols c"

text \<open>The loops \<open>while(s < es && \<dots>) s++\<close>; \<open>es\<close> is the end of the line.\<close>

function skip_while :: "(byte \<Rightarrow> bool) \<Rightarrow> byte list \<Rightarrow> nat \<Rightarrow> nat" where
  "skip_while P cs s = (if s < length cs \<and> P (cstr cs s) then skip_while P cs (s + 1) else s)"
  by pat_completeness auto
termination
  by (relation "measure (\<lambda>(P, cs, s). length cs - s)") auto

declare skip_while.simps [simp del]

text \<open>
  \<open>gettoken\<close> returns the kind of the token (its character, \<open>+\<close> for \<open>>>\<close>, \<open>a\<close> for a word and 0 at the end), \<open>*q\<close> and \<open>*eq\<close>, and the
  new position \<open>*ps\<close>.
\<close>

definition gettoken :: "byte list \<Rightarrow> nat \<Rightarrow> byte \<times> span \<times> nat" where
  "gettoken cs s =
     (let s = skip_while blank cs s;
          q = s;
          (ret, s) =
            (if cstr cs s = 0 then (0, s)
             else if cstr cs s \<in> {124, 40, 41, 59, 38, 60} then (cstr cs s, s + 1)
             else if cstr cs s = 62 then (if cstr cs (s + 1) = 62 then (43, s + 2) else (62, s + 1))
             else (97, skip_while wordchar cs s))
      in (ret, (q, s), skip_while blank cs s))"

definition peek :: "byte list \<Rightarrow> nat \<Rightarrow> byte list \<Rightarrow> bool \<times> nat" where
  "peek cs s toks =
     (let s = skip_while blank cs s in (cstr cs s \<noteq> 0 \<and> in_chars toks (cstr cs s), s))"

section \<open>What the tokens are\<close>

lemma skip_while_eq: "skip_while P cs s = s + length (takeWhile P (drop s cs))"
proof (induction P cs s rule: skip_while.induct)
  case (1 P cs s)
  show ?case
  proof (cases "s < length cs \<and> P (cstr cs s)")
    case True
    then have "drop s cs = cs ! s # drop (Suc s) cs" "P (cs ! s)" by (auto simp: Cons_nth_drop_Suc cstr_def)
    then show ?thesis using 1 True by (simp add: skip_while.simps [of P cs s])
  next
    case False
    then show ?thesis by (cases "s < length cs") (auto simp: skip_while.simps [of P cs s] cstr_def Cons_nth_drop_Suc [symmetric])
  qed
qed

lemma drop_skip_while: "drop (skip_while P cs s) cs = dropWhile P (drop s cs)"
  by (simp add: skip_while_eq dropWhile_eq_drop add.commute)

lemma cstr_drop: "cstr cs s = cstr (drop s cs) 0"
  by (cases "s < length cs") (simp_all add: cstr_def)

lemma skip_while_ge: "s \<le> skip_while P cs s"
  by (simp add: skip_while_eq)

lemma skip_while_le: "s \<le> length cs \<Longrightarrow> skip_while P cs s \<le> length cs"
  using length_takeWhile_le [of P "drop s cs"] by (simp add: skip_while_eq)

lemma cstr_less: "cstr cs s \<noteq> 0 \<Longrightarrow> s < length cs"
  by (simp add: cstr_def split: if_splits)

lemma skip_while_stop: "skip_while P cs s < length cs \<Longrightarrow> \<not> P (cstr cs (skip_while P cs s))"
  using hd_dropWhile [of P "drop s cs"] by (simp add: drop_skip_while [symmetric] cstr_def hd_drop_conv_nth)

lemma skip_while_all: "s \<le> i \<Longrightarrow> i < skip_while P cs s \<Longrightarrow> P (cstr cs i)"
proof -
  assume i: "s \<le> i" "i < skip_while P cs s"
  then have k: "i - s < length (takeWhile P (drop s cs))" by (simp add: skip_while_eq)
  then have "i < length cs" using length_takeWhile_le [of P "drop s cs"] by simp
  moreover have "takeWhile P (drop s cs) ! (i - s) = cs ! i" using k i \<open>i < length cs\<close> by (simp add: takeWhile_nth)
  ultimately show ?thesis using set_takeWhileD [OF nth_mem [OF k]] by (simp add: cstr_def)
qed

lemma blank_iff: "blank c \<longleftrightarrow> c \<in> {32, 9, 13, 10, 11}"
  by (subst in_chars_iff) (auto simp: whitespace_def)

lemma symbol_iff: "in_chars symbols c \<longleftrightarrow> c \<in> {60, 124, 62, 38, 59, 40, 41}"
  by (subst in_chars_iff) (auto simp: symbols_def)

text \<open>A span is a word of the line: not empty, without blanks, symbols and NULs, and followed by a byte that no word has.\<close>

definition word_at :: "byte list \<Rightarrow> span \<Rightarrow> bool" where
  "word_at cs t \<longleftrightarrow> fst t < snd t \<and> snd t \<le> length cs \<and> (\<forall>i. fst t \<le> i \<and> i < snd t \<longrightarrow> wordchar (cstr cs i))
     \<and> \<not> (snd t < length cs \<and> wordchar (cstr cs (snd t)))"

lemma gettoken_word:
  assumes "gettoken cs s = (97, t, s')"
  shows "word_at cs t"
proof -
  let ?q = "skip_while blank cs s"
  have q: "cstr cs ?q \<noteq> 0" "\<not> in_chars symbols (cstr cs ?q)" and t: "t = (?q, skip_while wordchar cs ?q)"
    using assms by (auto simp: gettoken_def Let_def symbol_iff split: if_splits)
  have l: "?q < length cs" using q(1) by (rule cstr_less)
  have "wordchar (cstr cs ?q)" using skip_while_stop [OF l] q(2) by simp
  then have "?q < skip_while wordchar cs ?q" using l skip_while_ge [of "?q + 1" wordchar cs] by (simp add: skip_while.simps [of wordchar cs ?q])
  then show ?thesis
    using l t skip_while_le [of ?q cs wordchar] skip_while_stop [of wordchar cs ?q] skip_while_all [of ?q _ wordchar cs] by (auto simp: word_at_def)
qed

lemma gettoken_le:
  assumes "gettoken cs s = (r, t, s')"
  shows "s \<le> s'" "s \<le> length cs \<Longrightarrow> s' \<le> length cs" "r \<noteq> 0 \<Longrightarrow> s < s'"
proof -
  let ?q = "skip_while blank cs s"
  obtain e where e: "s' = skip_while blank cs e" "?q \<le> e" "?q \<le> length cs \<Longrightarrow> e \<le> length cs" "r \<noteq> 0 \<Longrightarrow> ?q < e"
  proof (cases "r = 97")
    case True
    with assms gettoken_word [of cs s t s'] show thesis
      by (intro that [of "snd t"]) (auto simp: gettoken_def Let_def word_at_def split: if_splits)
  next
    case False
    with assms cstr_less [of cs ?q] cstr_less [of cs "?q + 1"] show thesis
      by (intro that [of "snd t"]) (auto simp: gettoken_def Let_def Suc_le_eq split: if_splits)
  qed
  show "s \<le> s'" "s \<le> length cs \<Longrightarrow> s' \<le> length cs" "r \<noteq> 0 \<Longrightarrow> s < s'"
    using e skip_while_ge [of s blank cs] skip_while_ge [of e blank cs] skip_while_le [of s cs blank] skip_while_le [of e cs blank] by auto
qed

lemma gettoken_nonzero: "gettoken cs s = (r, t, s') \<Longrightarrow> cstr cs s \<noteq> 0 \<Longrightarrow> \<not> blank (cstr cs s) \<Longrightarrow> r \<noteq> 0"
  by (auto simp: gettoken_def Let_def skip_while.simps [of blank cs s] split: if_splits)

lemma peek_le:
  assumes "peek cs s toks = (b, s')"
  shows "s \<le> s'" "s \<le> length cs \<Longrightarrow> s' \<le> length cs" "b \<Longrightarrow> cstr cs s' \<noteq> 0 \<and> in_chars toks (cstr cs s')" "b \<Longrightarrow> \<not> blank (cstr cs s')"
  using assms skip_while_ge [of s blank cs] skip_while_le [of s cs blank] skip_while_stop [of blank cs s] cstr_less [of cs "skip_while blank cs s"]
  by (auto simp: peek_def Let_def)

section \<open>The parser\<close>

lemma bindS_cong [fundef_cong]: "m = m' \<Longrightarrow> (\<And>x. m' = Inr x \<Longrightarrow> f x = f' x) \<Longrightarrow> bindS m f = bindS m' f'"
  by (cases m') auto

lemma bindS_eq: "bindS m f = Inr y \<longleftrightarrow> (\<exists>x. m = Inr x \<and> f x = Inr y)" "bindS m f = Inl e \<longleftrightarrow> m = Inl e \<or> (\<exists>x. m = Inr x \<and> f x = Inl e)"
  by (cases m; auto)+

lemma peek_less: "fst (peek cs s toks) \<Longrightarrow> s < length cs"
  using skip_while_ge [of s blank cs] cstr_less [of cs "skip_while blank cs s"] by (simp add: peek_def Let_def)

lemma token_moves: "(True, s1) = peek cs s toks \<Longrightarrow> (tok, t, s2) = gettoken cs s1 \<Longrightarrow> length cs - s2 < length cs - s"
  using peek_le [of cs s toks True s1] gettoken_le [of cs s1 tok t s2] gettoken_nonzero [of cs s1 tok t s2] cstr_less [of cs s1] by simp

lemma redir_moves:
  "(True, s1) = peek cs s toks \<Longrightarrow> (tok, t0, s2) = gettoken cs s1 \<Longrightarrow> (r, t, s3) = gettoken cs s2 \<Longrightarrow> length cs - s3 < length cs - s"
  using token_moves [of s1 cs s toks tok t0 s2] gettoken_le(1) [of cs s2 r t s3] by simp

function parseredirs :: "byte list \<Rightarrow> cmd \<Rightarrow> nat \<Rightarrow> (cmd \<times> nat) sh" where
  "parseredirs cs cmd s =
     (case peek cs s [60, 62] of (b, s) \<Rightarrow>
        if \<not> b then Inr (cmd, s)
        else (case gettoken cs s of (tok, t0, s) \<Rightarrow>
          (case gettoken cs s of (r, t, s) \<Rightarrow>
             if r \<noteq> 97 then Inl (Shpanic ''missing file for redirection'')
             else parseredirs cs
                    (if tok = 60 then RedirCmd cmd t O_RDONLY 0
                     else if tok = 62 then RedirCmd cmd t O_WRONLY_CREATE 1
                     else if tok = 43 then RedirCmd cmd t O_WRONLY_CREATE 1
                     else cmd) s)))"
  by pat_completeness auto
termination
  by (relation "measure (\<lambda>(cs, cmd, s). length cs - s)") (auto intro: redir_moves)

declare parseredirs.simps [simp del]

text \<open>
  \<open>parseexec\<close> stores the arguments in the \<open>execcmd\<close> that the redirections parsed so far may have been wrapped around.
\<close>

fun add_arg :: "span \<Rightarrow> cmd \<Rightarrow> cmd" where
  "add_arg t (ExecCmd ts) = ExecCmd (ts @ [t])"
| "add_arg t (RedirCmd c f m fd) = RedirCmd (add_arg t c) f m fd"
| "add_arg t c = c"

function parse_args :: "byte list \<Rightarrow> cmd \<Rightarrow> nat \<Rightarrow> nat \<Rightarrow> (cmd \<times> nat) sh" where
  "parse_args cs ret argc s =
     (case peek cs s [124, 41, 38, 59] of (b, s) \<Rightarrow>
        if b then Inr (ret, s)
        else (case gettoken cs s of (tok, t, s) \<Rightarrow>
          if tok = 0 then Inr (ret, s)
          else if tok \<noteq> 97 then Inl (Shpanic ''syntax'')
          else if argc + 1 \<ge> MAXARGS then Inl (Shpanic ''too many args'')
          else bindS (parseredirs cs (add_arg t ret) s) (\<lambda>(ret, s). parse_args cs ret (argc + 1) s)))"
  by pat_completeness auto
termination
  by (relation "measure (\<lambda>(cs, ret, argc, s). MAXARGS - argc)") auto

declare parse_args.simps [simp del]

text \<open>\<open>while(peek(ps, es, "&"))\<close> of \<open>parseline\<close>.\<close>

function parseback :: "byte list \<Rightarrow> cmd \<Rightarrow> nat \<Rightarrow> cmd \<times> nat" where
  "parseback cs cmd s =
     (case peek cs s [38] of (b, s) \<Rightarrow>
        if b then (case gettoken cs s of (tok, t, s) \<Rightarrow> parseback cs (BackCmd cmd) s) else (cmd, s))"
  by pat_completeness auto
termination
  by (relation "measure (\<lambda>(cs, cmd, s). length cs - s)") (auto intro: token_moves)

declare parseback.simps [simp del]

text \<open>The mutually recursive functions, with fuel: \<open>No_fuel\<close> stands for a recursion that did not end.\<close>

fun parseline :: "nat \<Rightarrow> byte list \<Rightarrow> nat \<Rightarrow> (cmd \<times> nat) sh"
  and parsepipe :: "nat \<Rightarrow> byte list \<Rightarrow> nat \<Rightarrow> (cmd \<times> nat) sh"
  and parseexec :: "nat \<Rightarrow> byte list \<Rightarrow> nat \<Rightarrow> (cmd \<times> nat) sh"
  and parseblock :: "nat \<Rightarrow> byte list \<Rightarrow> nat \<Rightarrow> (cmd \<times> nat) sh" where
  "parseline 0 cs s = Inl No_fuel"
| "parseline (Suc n) cs s =
     bindS (parsepipe n cs s) (\<lambda>(cmd, s).
       case parseback cs cmd s of (cmd, s) \<Rightarrow>
       case peek cs s [59] of (b, s) \<Rightarrow>
         if b then (case gettoken cs s of (tok, t, s) \<Rightarrow> bindS (parseline n cs s) (\<lambda>(r, s). Inr (ListCmd cmd r, s)))
         else Inr (cmd, s))"
| "parsepipe 0 cs s = Inl No_fuel"
| "parsepipe (Suc n) cs s =
     bindS (parseexec n cs s) (\<lambda>(cmd, s).
       case peek cs s [124] of (b, s) \<Rightarrow>
         if b then (case gettoken cs s of (tok, t, s) \<Rightarrow> bindS (parsepipe n cs s) (\<lambda>(r, s). Inr (PipeCmd cmd r, s)))
         else Inr (cmd, s))"
| "parseexec 0 cs s = Inl No_fuel"
| "parseexec (Suc n) cs s =
     (case peek cs s [40] of (b, s) \<Rightarrow>
        if b then parseblock n cs s
        else bindS (parseredirs cs (ExecCmd []) s) (\<lambda>(ret, s). parse_args cs ret 0 s))"
| "parseblock 0 cs s = Inl No_fuel"
| "parseblock (Suc n) cs s =
     (case peek cs s [40] of (b, s) \<Rightarrow>
        if \<not> b then Inl (Shpanic ''parseblock'')
        else (case gettoken cs s of (tok, t, s) \<Rightarrow>
          bindS (parseline n cs s) (\<lambda>(cmd, s).
            case peek cs s [41] of (b, s) \<Rightarrow>
              if \<not> b then Inl (Shpanic ''syntax - missing )'')
              else (case gettoken cs s of (tok, t, s) \<Rightarrow> parseredirs cs cmd s))))"

primrec nulterminate :: "cmd \<Rightarrow> cbuf \<Rightarrow> cbuf" where
  "nulterminate (ExecCmd ts) m = fold (\<lambda>t m. m(snd t := 0)) ts m"
| "nulterminate (RedirCmd c f md fd) m = (nulterminate c m)(snd f := 0)"
| "nulterminate (PipeCmd l r) m = nulterminate r (nulterminate l m)"
| "nulterminate (ListCmd l r) m = nulterminate r (nulterminate l m)"
| "nulterminate (BackCmd c) m = nulterminate c m"

text \<open>The command and the line with its strings ended. Four calls deep, the position has moved on by at least one byte.\<close>

definition parsecmd :: "byte list \<Rightarrow> (cmd \<times> cbuf) sh" where
  "parsecmd cs =
     bindS (parseline (4 * length cs + 3) cs 0) (\<lambda>(cmd, s).
       case peek cs s [] of (b, s) \<Rightarrow>
         if s \<noteq> length cs then Inl (Leftovers (drop s cs)) else Inr (cmd, nulterminate cmd (cstr cs)))"

section \<open>Well-formed commands\<close>

text \<open>What the parser builds: \<open>ExecCmd\<close>s with fewer than \<open>MAXARGS\<close> arguments, every string a word of the line, and the two kinds of redirection.\<close>

definition redir_ok :: "byte list \<Rightarrow> span \<Rightarrow> int \<Rightarrow> nat \<Rightarrow> bool" where
  "redir_ok cs t m fd \<longleftrightarrow> word_at cs t \<and> (m, fd) \<in> {(O_RDONLY, 0), (O_WRONLY_CREATE, 1)}"

primrec cmd_ok :: "byte list \<Rightarrow> cmd \<Rightarrow> bool" where
  "cmd_ok cs (ExecCmd ts) \<longleftrightarrow> length ts < MAXARGS \<and> list_all (word_at cs) ts"
| "cmd_ok cs (RedirCmd c t m fd) \<longleftrightarrow> cmd_ok cs c \<and> redir_ok cs t m fd"
| "cmd_ok cs (PipeCmd l r) \<longleftrightarrow> cmd_ok cs l \<and> cmd_ok cs r"
| "cmd_ok cs (ListCmd l r) \<longleftrightarrow> cmd_ok cs l \<and> cmd_ok cs r"
| "cmd_ok cs (BackCmd c) \<longleftrightarrow> cmd_ok cs c"

text \<open>A position reached from another one: the parser never goes back, and never over the end of the line.\<close>

definition after :: "byte list \<Rightarrow> nat \<Rightarrow> nat \<Rightarrow> bool" where
  "after cs s s' \<longleftrightarrow> s \<le> s' \<and> (s \<le> length cs \<longrightarrow> s' \<le> length cs)"

lemma after_trans [trans]: "after cs s t \<Longrightarrow> after cs t u \<Longrightarrow> after cs s u"
  by (auto simp: after_def)

lemma after_refl [simp]: "after cs s s"
  by (simp add: after_def)

lemma after_peek: "peek cs s toks = (b, s') \<Longrightarrow> after cs s s'"
  using peek_le(1,2) by (simp add: after_def)

lemma after_token: "gettoken cs s = (r, t, s') \<Longrightarrow> after cs s s'"
  using gettoken_le(1,2) by (simp add: after_def)

lemma parseredirs_keeps:
  assumes "parseredirs cs cmd s = Inr (c, s')" "Q cmd"
    and "\<And>c t m fd. Q c \<Longrightarrow> redir_ok cs t m fd \<Longrightarrow> Q (RedirCmd c t m fd)"
  shows "Q c \<and> after cs s s'"
  using assms
proof (induction cs cmd s rule: parseredirs.induct)
  case (1 cs cmd s)
  obtain b s1 where p: "peek cs s [60, 62] = (b, s1)" by fastforce
  obtain tok t0 s2 where g: "gettoken cs s1 = (tok, t0, s2)" by (metis prod_cases3)
  obtain r t s3 where h: "gettoken cs s2 = (r, t, s3)" by (metis prod_cases3)
  show ?case
  proof (cases b)
    case False
    then show ?thesis using "1.prems" p after_peek [OF p] by (simp add: parseredirs.simps [of cs cmd s])
  next
    case True
    then have r: "r = 97" using "1.prems" p g h by (auto simp: parseredirs.simps [of cs cmd s] split: if_splits)
    let ?c = "if tok = 60 then RedirCmd cmd t O_RDONLY 0 else if tok = 62 then RedirCmd cmd t O_WRONLY_CREATE 1
      else if tok = 43 then RedirCmd cmd t O_WRONLY_CREATE 1 else cmd"
    have "Q ?c" using "1.prems"(2) gettoken_word [of cs s2 t s3] h r by (auto simp: redir_ok_def intro!: "1.prems"(3))
    then have "Q c \<and> after cs s3 s'"
      using 1(1) [OF p [symmetric] _ g [symmetric] refl h [symmetric] refl] "1.prems"(1,3) True r p g h
      by (simp add: parseredirs.simps [of cs cmd s])
    then show ?thesis using after_peek [OF p] after_token [OF g] after_token [OF h] after_trans by blast
  qed
qed

lemma parse_args_keeps:
  assumes "parse_args cs ret argc s = Inr (c, s')" "Q argc ret"
    and "\<And>n c t m fd. Q n c \<Longrightarrow> redir_ok cs t m fd \<Longrightarrow> Q n (RedirCmd c t m fd)"
    and "\<And>n c t. Q n c \<Longrightarrow> word_at cs t \<Longrightarrow> n + 1 < MAXARGS \<Longrightarrow> Q (n + 1) (add_arg t c)"
  shows "(\<exists>n. Q n c) \<and> after cs s s'"
  using assms
proof (induction cs ret argc s rule: parse_args.induct)
  case (1 cs ret argc s)
  obtain b s1 where p: "peek cs s [124, 41, 38, 59] = (b, s1)" by fastforce
  obtain tok t s2 where g: "gettoken cs s1 = (tok, t, s2)" by (metis prod_cases3)
  note unf = parse_args.simps [of cs ret argc s]
  show ?case
  proof (cases "b \<or> tok = 0")
    case True
    then show ?thesis
      using "1.prems"(1,2) p g after_peek [OF p] after_trans [OF after_peek [OF p] after_token [OF g]] by (auto simp: unf split: if_splits)
  next
    case False
    with "1.prems"(1) p g obtain ret' s3 where r: "parseredirs cs (add_arg t ret) s2 = Inr (ret', s3)"
      and a: "parse_args cs ret' (argc + 1) s3 = Inr (c, s')" and tok: "tok = 97" "\<not> MAXARGS \<le> argc + 1"
      by (auto simp: unf bindS_eq split: if_splits)
    have "Q (argc + 1) (add_arg t ret)" using "1.prems"(4) [OF "1.prems"(2)] gettoken_word [of cs s1 t s2] g tok by simp
    then have q: "Q (argc + 1) ret' \<and> after cs s2 s3" using parseredirs_keeps [OF r, of "Q (argc + 1)"] "1.prems"(3) by blast
    have "(\<exists>n. Q n c) \<and> after cs s3 s'"
      using "1.IH" [OF p [symmetric] _ g [symmetric] refl _ _ _ r refl a] False tok q "1.prems"(3,4) by blast
    then show ?thesis using q after_peek [OF p] after_token [OF g] after_trans by blast
  qed
qed

text \<open>The number of arguments of the \<open>execcmd\<close> under the redirections.\<close>

fun argc_of :: "cmd \<Rightarrow> nat option" where
  "argc_of (ExecCmd ts) = Some (length ts)"
| "argc_of (RedirCmd c t m fd) = argc_of c"
| "argc_of c = None"

lemma add_arg_ok:
  "cmd_ok cs c \<Longrightarrow> argc_of c = Some n \<Longrightarrow> word_at cs t \<Longrightarrow> n + 1 < MAXARGS \<Longrightarrow>
     cmd_ok cs (add_arg t c) \<and> argc_of (add_arg t c) = Some (n + 1)"
  by (induction t c rule: add_arg.induct) auto

lemma parseback_ok: "parseback cs cmd s = (c, s') \<Longrightarrow> cmd_ok cs cmd \<Longrightarrow> cmd_ok cs c \<and> after cs s s'"
proof (induction cs cmd s rule: parseback.induct)
  case (1 cs cmd s)
  obtain b s1 where p: "peek cs s [38] = (b, s1)" by fastforce
  obtain tok t s2 where g: "gettoken cs s1 = (tok, t, s2)" by (metis prod_cases3)
  note af = after_trans [OF after_peek [OF p] after_token [OF g]]
  show ?case
    using "1.IH" [OF p [symmetric] _ g [symmetric] refl] "1.prems" p g after_peek [OF p] after_trans [OF af]
    by (cases b) (auto simp: parseback.simps [of cs cmd s])
qed

abbreviation parsed :: "byte list \<Rightarrow> nat \<Rightarrow> (cmd \<times> nat) sh \<Rightarrow> bool" where
  "parsed cs s m \<equiv> \<forall>c s'. m = Inr (c, s') \<longrightarrow> cmd_ok cs c \<and> after cs s s'"

lemma parseexec_ok:
  assumes "\<And>s. parsed cs s (parseblock n cs s)"
  shows "parsed cs s (parseexec (Suc n) cs s)"
proof (intro allI impI)
  fix c s'
  assume e: "parseexec (Suc n) cs s = Inr (c, s')"
  obtain b s1 where p: "peek cs s [40] = (b, s1)" by fastforce
  show "cmd_ok cs c \<and> after cs s s'"
  proof (cases b)
    case True
    then show ?thesis using e p assms after_trans [OF after_peek [OF p]] by simp
  next
    case False
    let ?Q = "\<lambda>n c. cmd_ok cs c \<and> argc_of c = Some n"
    obtain ret s2 where r: "parseredirs cs (ExecCmd []) s1 = Inr (ret, s2)" and a: "parse_args cs ret 0 s2 = Inr (c, s')"
      using e p False by (auto simp: bindS_eq)
    have "?Q 0 ret \<and> after cs s1 s2" by (rule parseredirs_keeps [OF r]) (auto simp: MAXARGS_def)
    moreover from this have "(\<exists>n. ?Q n c) \<and> after cs s2 s'" by (intro parse_args_keeps [OF a]) (auto simp: add_arg_ok)
    ultimately show ?thesis using after_trans after_peek [OF p] by blast
  qed
qed

lemma parseblock_ok:
  assumes "\<And>s. parsed cs s (parseline n cs s)"
  shows "parsed cs s (parseblock (Suc n) cs s)"
proof (intro allI impI)
  fix c s'
  assume e: "parseblock (Suc n) cs s = Inr (c, s')"
  obtain b s1 where p: "peek cs s [40] = (b, s1)" by fastforce
  obtain tok t s2 where g: "gettoken cs s1 = (tok, t, s2)" by (metis prod_cases3)
  obtain cmd s3 where l: "parseline n cs s2 = Inr (cmd, s3)" using e p g by (auto simp: bindS_eq split: if_splits)
  obtain b' s4 where p': "peek cs s3 [41] = (b', s4)" by fastforce
  obtain tok' t' s5 where g': "gettoken cs s4 = (tok', t', s5)" by (metis prod_cases3)
  have r: "parseredirs cs cmd s5 = Inr (c, s')" using e p g l p' g' by (auto split: if_splits)
  have ok: "cmd_ok cs cmd" "after cs s2 s3" using assms l by blast+
  have "cmd_ok cs c \<and> after cs s5 s'" by (rule parseredirs_keeps [OF r]) (simp_all add: ok)
  then show "cmd_ok cs c \<and> after cs s s'"
    using ok after_peek [OF p] after_token [OF g] after_peek [OF p'] after_token [OF g'] after_trans by blast
qed

lemma parsepipe_ok:
  assumes "\<And>s. parsed cs s (parseexec n cs s)" "\<And>s. parsed cs s (parsepipe n cs s)"
  shows "parsed cs s (parsepipe (Suc n) cs s)"
proof (intro allI impI)
  fix c s'
  assume e: "parsepipe (Suc n) cs s = Inr (c, s')"
  obtain cmd s1 where l: "parseexec n cs s = Inr (cmd, s1)" using e by (auto simp: bindS_eq)
  obtain b s2 where p: "peek cs s1 [124] = (b, s2)" by fastforce
  obtain tok t s3 where g: "gettoken cs s2 = (tok, t, s3)" by (metis prod_cases3)
  note ok = assms(1) [rule_format, OF l] after_peek [OF p] after_token [OF g]
  show "cmd_ok cs c \<and> after cs s s'"
  proof (cases b)
    case True
    then obtain r s4 where r: "parsepipe n cs s3 = Inr (r, s4)" "c = PipeCmd cmd r" "s' = s4" using e l p g by (auto simp: bindS_eq)
    then show ?thesis using ok assms(2) [rule_format, OF r(1)] after_trans by (metis cmd_ok.simps(3))
  next
    case False
    then have "c = cmd" "s' = s2" using e l p by auto
    then show ?thesis using ok after_trans by blast
  qed
qed

lemma parseline_ok:
  assumes "\<And>s. parsed cs s (parsepipe n cs s)" "\<And>s. parsed cs s (parseline n cs s)"
  shows "parsed cs s (parseline (Suc n) cs s)"
proof (intro allI impI)
  fix c s'
  assume e: "parseline (Suc n) cs s = Inr (c, s')"
  obtain cmd0 s0 where l: "parsepipe n cs s = Inr (cmd0, s0)" using e by (auto simp: bindS_eq)
  obtain cmd s1 where k: "parseback cs cmd0 s0 = (cmd, s1)" by fastforce
  obtain b s2 where p: "peek cs s1 [59] = (b, s2)" by fastforce
  obtain tok t s3 where g: "gettoken cs s2 = (tok, t, s3)" by (metis prod_cases3)
  have "cmd_ok cs cmd" "after cs s s1" using assms(1) [rule_format, OF l] parseback_ok [OF k] after_trans by blast+
  note ok = this after_peek [OF p] after_token [OF g]
  show "cmd_ok cs c \<and> after cs s s'"
  proof (cases b)
    case True
    then obtain r s4 where r: "parseline n cs s3 = Inr (r, s4)" "c = ListCmd cmd r" "s' = s4" using e l k p g by (auto simp: bindS_eq)
    then show ?thesis using ok assms(2) [rule_format, OF r(1)] after_trans by (metis cmd_ok.simps(4))
  next
    case False
    then have "c = cmd" "s' = s2" using e l k p by auto
    then show ?thesis using ok after_trans by blast
  qed
qed

lemma parse_ok:
  "parsed cs s (parseline n cs s)" "parsed cs s (parsepipe n cs s)" "parsed cs s (parseexec n cs s)" "parsed cs s (parseblock n cs s)"
proof (induction n arbitrary: s)
  case (Suc n)
  case 1 show ?case by (rule parseline_ok [OF Suc(2) Suc(1)])
  case 2 show ?case by (rule parsepipe_ok [OF Suc(3) Suc(2)])
  case 3 show ?case by (rule parseexec_ok [OF Suc(4)])
  case 4 show ?case by (rule parseblock_ok [OF Suc(1)])
qed simp_all

section \<open>The recursion ends\<close>

lemma parseredirs_fuel: "parseredirs cs cmd s \<noteq> Inl No_fuel"
proof (induction cs cmd s rule: parseredirs.induct)
  case (1 cs cmd s)
  obtain b s1 where p: "peek cs s [60, 62] = (b, s1)" by fastforce
  obtain tok t0 s2 where g: "gettoken cs s1 = (tok, t0, s2)" by (metis prod_cases3)
  obtain r t s3 where h: "gettoken cs s2 = (r, t, s3)" by (metis prod_cases3)
  show ?case
    using 1 [OF p [symmetric] _ g [symmetric] refl h [symmetric] refl] p g h by (simp add: parseredirs.simps [of cs cmd s])
qed

lemma parse_args_fuel: "parse_args cs ret argc s \<noteq> Inl No_fuel"
proof (induction cs ret argc s rule: parse_args.induct)
  case (1 cs ret argc s)
  obtain b s1 where p: "peek cs s [124, 41, 38, 59] = (b, s1)" by fastforce
  obtain tok t s2 where g: "gettoken cs s1 = (tok, t, s2)" by (metis prod_cases3)
  show ?case
    using 1 [OF p [symmetric] _ g [symmetric] refl] p g parseredirs_fuel [of cs "add_arg t ret" s2]
    by (auto simp: parse_args.simps [of cs ret argc s] bindS_eq)
qed

lemma parse_fuel:
  "4 * (length cs - s) + 3 \<le> n \<Longrightarrow> parseline n cs s \<noteq> Inl No_fuel"
  "4 * (length cs - s) + 2 \<le> n \<Longrightarrow> parsepipe n cs s \<noteq> Inl No_fuel"
  "4 * (length cs - s) + 1 \<le> n \<Longrightarrow> parseexec n cs s \<noteq> Inl No_fuel"
  "4 * (length cs - s) \<le> n \<Longrightarrow> fst (peek cs s [40]) \<Longrightarrow> parseblock n cs s \<noteq> Inl No_fuel"
proof (induction n arbitrary: s)
  case (Suc n)
  have later: "length cs - s' \<le> length cs - s" if "after cs s s'" for s s' using that by (auto simp: after_def)
  note moves = token_moves [OF sym sym]
  {
    case 1
    show ?case
    proof
      assume e: "parseline (Suc n) cs s = Inl No_fuel"
      then obtain cmd0 s0 where l: "parsepipe n cs s = Inr (cmd0, s0)" using Suc.IH(2) [of s] 1 by (auto simp: bindS_eq)
      obtain cmd s1 where k: "parseback cs cmd0 s0 = (cmd, s1)" by fastforce
      obtain b s2 where p: "peek cs s1 [59] = (b, s2)" by fastforce
      obtain tok t s3 where g: "gettoken cs s2 = (tok, t, s3)" by (metis prod_cases3)
      have "cmd_ok cs cmd0" "after cs s s0" using parse_ok(2) l by blast+
      then have "length cs - s1 \<le> length cs - s" using parseback_ok [OF k] later by (meson order.trans)
      then have "b \<Longrightarrow> 4 * (length cs - s3) + 3 \<le> n" using moves [of cs s1 "[59]" s2] p g 1 by fastforce
      then show False using e l k p g Suc.IH(1) [of s3] by (auto simp: bindS_eq split: if_splits)
    qed
  next
    case 2
    show ?case
    proof
      assume e: "parsepipe (Suc n) cs s = Inl No_fuel"
      then obtain cmd s1 where l: "parseexec n cs s = Inr (cmd, s1)" using Suc.IH(3) [of s] 2 by (auto simp: bindS_eq)
      obtain b s2 where p: "peek cs s1 [124] = (b, s2)" by fastforce
      obtain tok t s3 where g: "gettoken cs s2 = (tok, t, s3)" by (metis prod_cases3)
      have "length cs - s1 \<le> length cs - s" using parse_ok(3) l later by blast
      then have "b \<Longrightarrow> 4 * (length cs - s3) + 2 \<le> n" using moves [of cs s1 "[124]" s2] p g 2 by fastforce
      then show False using e l p g Suc.IH(2) [of s3] by (auto simp: bindS_eq split: if_splits)
    qed
  next
    case 3
    obtain b s1 where p: "peek cs s [40] = (b, s1)" by fastforce
    then have "b \<Longrightarrow> fst (peek cs s1 [40])"
      using peek_le(3,4) [OF p] by (simp add: peek_def skip_while.simps [of blank cs s1])
    then show ?case
      using Suc.IH(4) [of s1] 3 later [OF after_peek [OF p]] p parseredirs_fuel parse_args_fuel by (auto simp: bindS_eq)
  next
    case 4
    obtain s1 where p: "peek cs s [40] = (True, s1)" using 4 by (metis (full_types) prod.collapse)
    obtain tok t s2 where g: "gettoken cs s1 = (tok, t, s2)" by (metis prod_cases3)
    have "4 * (length cs - s2) + 3 \<le> n" using moves [OF p g] 4 by simp
    then have "parseline n cs s2 \<noteq> Inl No_fuel" by (rule Suc.IH(1))
    then show ?case using p g parseredirs_fuel by (auto simp: bindS_eq split: prod.splits)
  }
qed (use peek_less in \<open>auto simp: not_le [symmetric]\<close>)

text \<open>More fuel does not change a result.\<close>

definition more :: "'a sh \<Rightarrow> 'a sh \<Rightarrow> bool" where
  "more m m' \<longleftrightarrow> m = Inl No_fuel \<or> m' = m"

lemma more_refl [simp]: "more m m" "more (Inl No_fuel) m"
  by (simp_all add: more_def)

lemma more_bind: "more m m' \<Longrightarrow> (\<And>x. more (f x) (f' x)) \<Longrightarrow> more (bindS m f) (bindS m' f')"
  by (cases m) (auto simp: more_def)

lemma parse_Suc:
  "more (parseline n cs s) (parseline (Suc n) cs s)" "more (parsepipe n cs s) (parsepipe (Suc n) cs s)"
  "more (parseexec n cs s) (parseexec (Suc n) cs s)" "more (parseblock n cs s) (parseblock (Suc n) cs s)"
proof (induction n arbitrary: s)
  case (Suc n)
  {
    case 1 show ?case
      unfolding parseline.simps(2) [of "Suc n" cs s] parseline.simps(2) [of n cs s]
      by (intro more_bind Suc.IH) (simp add: Suc.IH more_bind split: prod.split del: parseline.simps)
  next
    case 2 show ?case
      unfolding parsepipe.simps(2) [of "Suc n" cs s] parsepipe.simps(2) [of n cs s]
      by (intro more_bind Suc.IH) (simp add: Suc.IH more_bind split: prod.split del: parsepipe.simps)
  next
    case 3 show ?case
      unfolding parseexec.simps(2) [of "Suc n" cs s] parseexec.simps(2) [of n cs s] by (simp add: Suc.IH split: prod.split del: parseblock.simps)
  next
    case 4 show ?case
      unfolding parseblock.simps(2) [of "Suc n" cs s] parseblock.simps(2) [of n cs s] by (simp add: Suc.IH more_bind split: prod.split del: parseline.simps)
  }
qed simp_all

lemma parseline_more:
  assumes "parseline n cs s \<noteq> Inl No_fuel" "n \<le> m"
  shows "parseline m cs s = parseline n cs s"
  using assms(2)
proof (induction rule: dec_induct)
  case (step k)
  then show ?case using parse_Suc(1) [of k cs s] assms(1) by (auto simp: more_def)
qed simp

section \<open>The strings of a command\<close>

primrec spans :: "cmd \<Rightarrow> span set" where
  "spans (ExecCmd ts) = set ts"
| "spans (RedirCmd c t m fd) = insert t (spans c)"
| "spans (PipeCmd l r) = spans l \<union> spans r"
| "spans (ListCmd l r) = spans l \<union> spans r"
| "spans (BackCmd c) = spans c"

definition span_text :: "byte list \<Rightarrow> span \<Rightarrow> byte list" where
  "span_text cs t = take (snd t - fst t) (drop (fst t) cs)"

text \<open>The C string at offset \<open>q\<close> of a buffer is \<open>w\<close>.\<close>

definition string_at :: "cbuf \<Rightarrow> nat \<Rightarrow> byte list \<Rightarrow> bool" where
  "string_at m q w \<longleftrightarrow> (\<forall>i < length w. m (q + i) = w ! i \<and> w ! i \<noteq> 0) \<and> m (q + length w) = 0"

lemma fold_zero: "fold (\<lambda>t m. m(snd t := 0)) ts m i = (if i \<in> snd ` set ts then 0 else m i)" for m :: cbuf
  by (induction ts arbitrary: m) auto

lemma nulterminate_eq: "nulterminate c m i = (if i \<in> snd ` spans c then 0 else m i)"
  by (induction c arbitrary: m) (auto simp: fold_zero)

lemma spans_ok: "cmd_ok cs c \<Longrightarrow> t \<in> spans c \<Longrightarrow> word_at cs t"
  by (induction c) (auto simp: redir_ok_def list_all_iff)

lemma word_at_string:
  assumes "word_at cs t" "\<forall>u \<in> T. word_at cs u" "t \<in> T" "0 \<notin> set cs"
    and "\<And>i. m i = (if i \<in> snd ` T then 0 else cstr cs i)"
  shows "string_at m (fst t) (span_text cs t)"
proof -
  obtain q e where t: "t = (q, e)" by fastforce
  have w: "q < e" "e \<le> length cs" "\<And>i. q \<le> i \<Longrightarrow> i < e \<Longrightarrow> wordchar (cstr cs i)" using assms(1) by (auto simp: word_at_def t)
  have l: "length (span_text cs t) = e - q" using w by (simp add: span_text_def t)
  have "m (q + i) = span_text cs t ! i \<and> span_text cs t ! i \<noteq> 0" if i: "i < e - q" for i
  proof -
    have "span_text cs t ! i = cs ! (q + i)" "q + i < length cs" using i w by (simp_all add: span_text_def t)
    moreover have "q + i \<notin> snd ` T"
    proof
      assume "q + i \<in> snd ` T"
      then obtain u where "u \<in> T" "snd u = q + i" by force
      then have "\<not> wordchar (cstr cs (q + i))" using assms(2) \<open>q + i < length cs\<close> by (auto simp: word_at_def)
      then show False using w(3) [of "q + i"] i by simp
    qed
    moreover have "cs ! (q + i) \<noteq> 0" using assms(4) \<open>q + i < length cs\<close> nth_mem by metis
    ultimately show ?thesis by (simp add: assms(5) cstr_def)
  qed
  moreover have "m e = 0" using assms(3,5) t by force
  ultimately show ?thesis using w(1) l by (simp add: string_at_def t)
qed

text \<open>C22: Whatever line the shell reads, the command that the parser builds is well-formed: every \<open>execcmd\<close> has fewer than \<open>MAXARGS\<close>
  arguments, redirections are to descriptor 0 for reading or 1 for writing, all strings lie inside the line; and after
  \<open>nulterminate\<close>, which writes NULs into the line itself, each string is exactly the word that was read: no NUL hits another word.\<close>

theorem parsecmd_well_formed:
  assumes "parsecmd cs = Inr (cmd, m)" "0 \<notin> set cs"
  shows "cmd_ok cs cmd \<and> (\<forall>t \<in> spans cmd. string_at m (fst t) (span_text cs t))"
proof -
  obtain s where l: "parseline (4 * length cs + 3) cs 0 = Inr (cmd, s)" and m: "m = nulterminate cmd (cstr cs)"
    using assms(1) by (auto simp: parsecmd_def bindS_eq case_prod_unfold split: if_splits)
  have ok: "cmd_ok cs cmd" using parse_ok(1) l by blast
  have "string_at m (fst t) (span_text cs t)" if "t \<in> spans cmd" for t
    by (rule word_at_string [of cs t "spans cmd"]) (use that ok spans_ok assms(2) nulterminate_eq m in auto)
  then show ?thesis using ok by blast
qed

text \<open>The line \<open>a>f\<close>.\<close>

theorem parsecmd_well_formed_witness:
  "\<exists>cmd m. parsecmd [97, 62, 102] = Inr (cmd, m) \<and> cmd_ok [97, 62, 102] cmd \<and> (\<forall>t \<in> spans cmd. string_at m (fst t) (span_text [97, 62, 102] t))"
proof -
  have "parseline 15 [97, 62, 102] 0 = Inr (RedirCmd (ExecCmd [(0, 1)]) (2, 3) O_WRONLY_CREATE 1, 3)" by code_simp
  moreover have "peek [97, 62, 102] 3 [] = (False, 3)" by code_simp
  ultimately have "\<exists>cmd m. parsecmd [97, 62, 102] = Inr (cmd, m)" by (simp add: parsecmd_def)
  then show ?thesis using parsecmd_well_formed [of "[97, 62, 102]"] by fastforce
qed

text \<open>C23: The recursion of the parser ends on every line: \<open>parsecmd\<close> returns a command or panics. A line of \<open>n\<close> bytes needs calls
  no more than \<open>4 n + 3\<close> deep, and deeper recursion would not change the result.\<close>

theorem parsecmd_terminates:
  "parsecmd cs \<noteq> Inl No_fuel \<and> parseline (4 * length cs + 3 + k) cs 0 = parseline (4 * length cs + 3) cs 0"
proof -
  have l: "parseline (4 * length cs + 3) cs 0 \<noteq> Inl No_fuel" by (rule parse_fuel(1)) simp
  then show ?thesis using parseline_more [OF l, of "4 * length cs + 3 + k"] by (auto simp: parsecmd_def bindS_eq split: prod.splits if_splits)
qed

end
