(* ===== verification/Xv6_Reparse.thy ===== *)
theory Xv6_Reparse
  imports Xv6_Shell
begin

text \<open>
  The shell's parser read against the grammar it implements: commands as abstract syntax, the tokens that spell a command, and
  the round trip: the parser returns the command that the tokens of a line spell.
\<close>

section \<open>Abstract commands and their tokens\<close>

text \<open>A redirection has the kind of its token: \<open><\<close>, \<open>>\<close> or \<open>+\<close> for \<open>>>\<close>.\<close>

datatype scmd =
    SExec "byte list list"
  | SRedir scmd byte "byte list"
  | SPipe scmd scmd
  | SList scmd scmd
  | SBack scmd

datatype tok = W "byte list" | S byte

definition rtoks :: "(byte \<times> byte list) list \<Rightarrow> tok list" where
  "rtoks rs = concat (map (\<lambda>(c, f). [S c, W f]) rs)"

definition paren :: "bool \<Rightarrow> tok list \<Rightarrow> tok list" where
  "paren b ts = (if b then [S 40] @ ts @ [S 41] else ts)"

text \<open>
  The tokens of a command on the four levels of the grammar, 0 for \<open>parseexec\<close>, 1 for \<open>parsepipe\<close>, 2 for the part of \<open>parseline\<close>
  before a semicolon and 3 for the whole of it: a command of a higher level is put in parentheses.
\<close>

fun toks :: "nat \<Rightarrow> scmd \<Rightarrow> tok list" where
  "toks p (SExec ws) = map W ws"
| "toks p (SRedir c k f) = toks 0 c @ [S k, W f]"
| "toks p (SPipe l r) = paren (p < 1) (toks 0 l @ [S 124] @ toks 1 r)"
| "toks p (SBack c) = paren (p < 2) (toks 2 c @ [S 38])"
| "toks p (SList l r) = paren (p < 3) (toks 2 l @ [S 59] @ toks 3 r)"

text \<open>Commands that fit into an \<open>execcmd\<close>, with the redirections there are.\<close>

primrec good :: "scmd \<Rightarrow> bool" where
  "good (SExec ws) \<longleftrightarrow> length ws < MAXARGS"
| "good (SRedir c k f) \<longleftrightarrow> good c \<and> k \<in> {60, 62, 43}"
| "good (SPipe l r) \<longleftrightarrow> good l \<and> good r"
| "good (SList l r) \<longleftrightarrow> good l \<and> good r"
| "good (SBack c) \<longleftrightarrow> good c"

definition redir_mode :: "byte \<Rightarrow> int" where
  "redir_mode k = (if k = 60 then O_RDONLY else O_WRONLY_CREATE)"

definition redir_fd :: "byte \<Rightarrow> nat" where
  "redir_fd k = (if k = 60 then 0 else 1)"

text \<open>A parsed command stands for an abstract one, when \<open>P\<close> says which string a span stands for.\<close>

primrec means :: "(span \<Rightarrow> byte list \<Rightarrow> bool) \<Rightarrow> scmd \<Rightarrow> cmd \<Rightarrow> bool" where
  "means P (SExec ws) cmd \<longleftrightarrow> (\<exists>ts. cmd = ExecCmd ts \<and> list_all2 P ts ws)"
| "means P (SRedir c k f) cmd \<longleftrightarrow> (\<exists>cmd' t. cmd = RedirCmd cmd' t (redir_mode k) (redir_fd k) \<and> P t f \<and> means P c cmd')"
| "means P (SPipe l r) cmd \<longleftrightarrow> (\<exists>cl cr. cmd = PipeCmd cl cr \<and> means P l cl \<and> means P r cr)"
| "means P (SList l r) cmd \<longleftrightarrow> (\<exists>cl cr. cmd = ListCmd cl cr \<and> means P l cl \<and> means P r cr)"
| "means P (SBack c) cmd \<longleftrightarrow> (\<exists>cmd'. cmd = BackCmd cmd' \<and> means P c cmd')"

definition wrap :: "scmd \<Rightarrow> (byte \<times> byte list) list \<Rightarrow> scmd" where
  "wrap c rs = foldl (\<lambda>c (k, f). SRedir c k f) c rs"

abbreviation reads :: "byte list \<Rightarrow> span \<Rightarrow> byte list \<Rightarrow> bool" where
  "reads cs t w \<equiv> span_text cs t = w"

section \<open>The tokens of a line\<close>

text \<open>The tokens that \<open>gettoken\<close> returns from a position on, up to the end of the line.\<close>

fun lexes :: "byte list \<Rightarrow> nat \<Rightarrow> tok list \<Rightarrow> bool" where
  "lexes cs s [] \<longleftrightarrow> fst (gettoken cs s) = 0"
| "lexes cs s (W w # ts) \<longleftrightarrow> (case gettoken cs s of (r, t, s') \<Rightarrow> r = 97 \<and> span_text cs t = w \<and> lexes cs s' ts)"
| "lexes cs s (S c # ts) \<longleftrightarrow> (case gettoken cs s of (r, t, s') \<Rightarrow> r = c \<and> c \<noteq> 0 \<and> c \<noteq> 97 \<and> lexes cs s' ts)"

text \<open>Whether the next token starts with one of the given symbols, as \<open>peek\<close> tests it.\<close>

fun begins :: "byte list \<Rightarrow> tok list \<Rightarrow> bool" where
  "begins F (S c # ts) \<longleftrightarrow> (if c = 43 then 62 else c) \<in> set F"
| "begins F ts \<longleftrightarrow> False"

lemma begins_append [simp]: "begins F (ts @ x) \<longleftrightarrow> (if ts = [] then begins F x else begins F ts)"
  by (cases "(F, ts)" rule: begins.cases) auto

lemma skip_while_idem [simp]: "skip_while P cs (skip_while P cs s) = skip_while P cs s"
  using skip_while_stop [of P cs s] by (subst skip_while.simps) auto

lemma gettoken_skip: "gettoken cs (skip_while blank cs s) = gettoken cs s"
  by (simp add: gettoken_def)

lemma peek_lexes:
  assumes "lexes cs s ts" "set F \<subseteq> set symbols"
  shows "\<exists>s'. peek cs s F = (begins F ts, s') \<and> lexes cs s' ts"
proof -
  let ?s = "skip_while blank cs s"
  have F: "in_chars F c \<longleftrightarrow> c \<in> set F" for c using assms(2) by (subst in_chars_iff) (auto simp: symbols_def)
  have sub: "c \<in> set F \<Longrightarrow> c \<in> {60, 124, 62, 38, 59, 40, 41}" for c using assms(2) by (auto simp: symbols_def)
  have "lexes cs ?s ts" using assms(1) by (cases "(cs, s, ts)" rule: lexes.cases) (simp_all add: gettoken_skip)
  moreover have "(cstr cs ?s \<noteq> 0 \<and> cstr cs ?s \<in> set F) = begins F ts"
    using assms(1) sub [of "cstr cs ?s"]
    by (cases "(cs, s, ts)" rule: lexes.cases) (auto simp: gettoken_def Let_def split: if_splits)
  ultimately show ?thesis by (auto simp: peek_def Let_def F)
qed

lemma lexes_W: "lexes cs s (W w # ts) \<longleftrightarrow> (\<exists>t s'. gettoken cs s = (97, t, s') \<and> span_text cs t = w \<and> lexes cs s' ts)"
  by (auto split: prod.splits)

lemma lexes_S: "lexes cs s (S c # ts) \<longleftrightarrow> (\<exists>t s'. gettoken cs s = (c, t, s') \<and> c \<noteq> 0 \<and> c \<noteq> 97 \<and> lexes cs s' ts)"
  by (auto split: prod.splits)

lemma lexes_end: "gettoken cs s = (0, t, s') \<Longrightarrow> lexes cs s' []"
  by (auto simp: gettoken_def Let_def split: if_splits)

declare lexes.simps [simp del]

abbreviation ends0 :: "byte list" where "ends0 \<equiv> [124, 41, 38, 59]"
abbreviation ends1 :: "byte list" where "ends1 \<equiv> [41, 38, 59]"
abbreviation ends3 :: "byte list" where "ends3 \<equiv> [41]"

definition follow :: "byte list \<Rightarrow> tok list \<Rightarrow> bool" where
  "follow F x \<longleftrightarrow> x = [] \<or> begins F x"

lemma follow_begins: "follow F x \<Longrightarrow> set F \<inter> set G = {} \<Longrightarrow> \<not> begins G x"
  by (cases "(F, x)" rule: begins.cases) (auto simp: follow_def)

lemma follow_mono: "follow F x \<Longrightarrow> set F \<subseteq> set G \<Longrightarrow> follow G x"
  by (cases "(F, x)" rule: begins.cases) (auto simp: follow_def)

lemma follow_S [simp]: "follow F (S c # x) \<longleftrightarrow> (if c = 43 then 62 else c) \<in> set F"
  by (simp add: follow_def)

lemma begins_map_W [simp]: "\<not> begins F (map W ws)"
  by (cases ws) simp_all

section \<open>The levels of the grammar\<close>

definition redirs_good :: "(byte \<times> byte list) list \<Rightarrow> bool" where
  "redirs_good rs \<longleftrightarrow> list_all (\<lambda>(k, f). k \<in> {60, 62, 43}) rs"

lemma redirs_simps [simp]:
  "rtoks [] = []" "rtoks ((k, f) # rs) = S k # W f # rtoks rs" "wrap c [] = c" "wrap c ((k, f) # rs) = wrap (SRedir c k f) rs"
  "redirs_good []" "redirs_good ((k, f) # rs) \<longleftrightarrow> k \<in> {60, 62, 43} \<and> redirs_good rs"
  by (auto simp: rtoks_def wrap_def redirs_good_def)

lemma parseredirs_stop:
  assumes "lexes cs s x" "\<not> begins [60, 62] x"
  shows "\<exists>s'. parseredirs cs cmd s = Inr (cmd, s') \<and> lexes cs s' x"
  using peek_lexes [OF assms(1), of "[60, 62]"] assms(2) by (auto simp: symbols_def parseredirs.simps [of cs cmd s])

lemma parseredirs_toks:
  assumes "lexes cs s (rtoks rs @ x)" "redirs_good rs" "\<not> begins [60, 62] x" "means (reads cs) c cmd"
  shows "\<exists>cmd' s'. parseredirs cs cmd s = Inr (cmd', s') \<and> lexes cs s' x \<and> means (reads cs) (wrap c rs) cmd'"
  using assms
proof (induction rs arbitrary: s c cmd)
  case Nil
  then show ?case using parseredirs_stop [of cs s x cmd] by auto
next
  case (Cons r rs)
  obtain k f where r: "r = (k, f)" by fastforce
  have k: "k \<in> {60, 62, 43}" "redirs_good rs" using Cons.prems(2) r by simp_all
  obtain s1 where p: "peek cs s [60, 62] = (True, s1)" "lexes cs s1 (S k # W f # rtoks rs @ x)"
    using peek_lexes [OF Cons.prems(1), of "[60, 62]"] r k by (auto simp: symbols_def)
  then obtain t0 s2 t s3 where g: "gettoken cs s1 = (k, t0, s2)" "gettoken cs s2 = (97, t, s3)" "span_text cs t = f" "lexes cs s3 (rtoks rs @ x)"
    by (auto simp: lexes_S lexes_W)
  let ?cmd = "RedirCmd cmd t (redir_mode k) (redir_fd k)"
  have "means (reads cs) (SRedir c k f) ?cmd" using Cons.prems(4) g(3) by auto
  then obtain cmd' s' where "parseredirs cs ?cmd s3 = Inr (cmd', s')" "lexes cs s' x" "means (reads cs) (wrap (SRedir c k f) rs) cmd'"
    using Cons.IH [OF g(4) k(2) Cons.prems(3), of "SRedir c k f" ?cmd] by blast
  moreover have "parseredirs cs cmd s = parseredirs cs ?cmd s3"
    using k(1) by (auto simp: parseredirs.simps [of cs cmd s] p g redir_mode_def redir_fd_def)
  ultimately show ?case by (simp add: r)
qed

lemma parse_args_stop:
  assumes "lexes cs s x" "follow ends0 x"
  shows "\<exists>s'. parse_args cs ret argc s = Inr (ret, s') \<and> lexes cs s' x"
proof -
  obtain s1 where p: "peek cs s ends0 = (begins ends0 x, s1)" "lexes cs s1 x"
    using peek_lexes [OF assms(1), of ends0] by (auto simp: symbols_def)
  show ?thesis
  proof (cases "x = []")
    case True
    then obtain t s2 where g: "gettoken cs s1 = (0, t, s2)" using p by (metis fst_conv lexes.simps(1) prod.collapse)
    then show ?thesis using lexes_end [OF g] p True by (simp add: parse_args.simps [of cs ret argc s])
  next
    case False
    then show ?thesis using p assms(2) by (simp add: parse_args.simps [of cs ret argc s] follow_def)
  qed
qed

lemma parse_args_toks:
  assumes "lexes cs s (map W ws @ rtoks rs @ x)" "ws \<noteq> []" "redirs_good rs" "follow ends0 x" "list_all2 (reads cs) ts us" "length ts + length ws < MAXARGS"
  shows "\<exists>cmd s'. parse_args cs (ExecCmd ts) (length ts) s = Inr (cmd, s') \<and> lexes cs s' x \<and> means (reads cs) (wrap (SExec (us @ ws)) rs) cmd"
  using assms
proof (induction ws arbitrary: s ts us)
  case (Cons w ws)
  have x: "\<not> begins [60, 62] x" using Cons.prems(4) by (rule follow_begins) simp
  obtain s1 where p: "peek cs s ends0 = (False, s1)" "lexes cs s1 (W w # map W ws @ rtoks rs @ x)"
    using peek_lexes [OF Cons.prems(1), of ends0] by (auto simp: symbols_def)
  then obtain t s2 where g: "gettoken cs s1 = (97, t, s2)" "span_text cs t = w" "lexes cs s2 (map W ws @ rtoks rs @ x)" by (auto simp: lexes_W)
  have ts: "list_all2 (reads cs) (ts @ [t]) (us @ [w])" using Cons.prems(5) g(2) by (simp add: list_all2_appendI)
  have unf: "parse_args cs (ExecCmd ts) (length ts) s =
      bindS (parseredirs cs (ExecCmd (ts @ [t])) s2) (\<lambda>(ret, s). parse_args cs ret (length (ts @ [t])) s)"
    using Cons.prems(6) by (simp add: parse_args.simps [of cs "ExecCmd ts"] p g(1))
  show ?case
  proof (cases "ws = []")
    case True
    then have "lexes cs s2 (rtoks rs @ x)" "means (reads cs) (SExec (us @ [w])) (ExecCmd (ts @ [t]))" using g(3) ts by simp_all
    from parseredirs_toks [OF this(1) Cons.prems(3) x this(2)] parse_args_stop [OF _ Cons.prems(4)]
    show ?thesis using unf True by fastforce
  next
    case False
    then have "\<not> begins [60, 62] (map W ws @ rtoks rs @ x)" by simp
    from parseredirs_stop [OF g(3) this] obtain s3 where
      "parseredirs cs (ExecCmd (ts @ [t])) s2 = Inr (ExecCmd (ts @ [t]), s3)" "lexes cs s3 (map W ws @ rtoks rs @ x)" by blast
    moreover have "length (ts @ [t]) + length ws < MAXARGS" using Cons.prems(6) by simp
    ultimately show ?thesis using Cons.IH [OF _ False Cons.prems(3,4) ts] unf by simp
  qed
qed simp

text \<open>What each level of the parser does with the tokens of its level.\<close>

definition parses :: "(nat \<Rightarrow> byte list \<Rightarrow> nat \<Rightarrow> (cmd \<times> nat) sh) \<Rightarrow> byte list \<Rightarrow> tok list \<Rightarrow> scmd \<Rightarrow> bool" where
  "parses f F y c \<longleftrightarrow> (\<forall>cs s x. lexes cs s (y @ x) \<and> follow F x \<longrightarrow>
     (\<exists>N cmd s'. (\<forall>n \<ge> N. f n cs s = Inr (cmd, s')) \<and> lexes cs s' x \<and> means (reads cs) c cmd))"

definition parses_redirs :: "scmd \<Rightarrow> bool" where
  "parses_redirs c \<longleftrightarrow> (\<forall>rs. redirs_good rs \<longrightarrow> parses parseexec ends0 (toks 0 c @ rtoks rs) (wrap c rs))"

text \<open>\<open>parsepipe\<close> and the loop over \<open>&\<close> that follows it; on the tokens of level 2 the loop may go on.\<close>

definition pipe_back :: "nat \<Rightarrow> byte list \<Rightarrow> nat \<Rightarrow> (cmd \<times> nat) sh" where
  "pipe_back n cs s = bindS (parsepipe n cs s) (\<lambda>(cmd, s). Inr (parseback cs cmd s))"

definition parses_back :: "scmd \<Rightarrow> bool" where
  "parses_back c \<longleftrightarrow> (\<forall>cs s x. lexes cs s (toks 2 c @ x) \<and> follow ends1 x \<longrightarrow>
     (\<exists>N cmd s'. (\<forall>n \<ge> N. pipe_back n cs s = Inr (parseback cs cmd s')) \<and> lexes cs s' x \<and> means (reads cs) c cmd))"

lemma parses_I:
  assumes "\<And>cs s x. lexes cs s (y @ x) \<Longrightarrow> follow F x \<Longrightarrow>
    \<exists>N cmd s'. (\<forall>n \<ge> N. f n cs s = Inr (cmd, s')) \<and> lexes cs s' x \<and> means (reads cs) c cmd"
  shows "parses f F y c"
  using assms unfolding parses_def by blast

lemma parses_D:
  assumes "parses f F y c" "lexes cs s (y @ x)" "follow F x"
  shows "\<exists>N cmd s'. (\<forall>n \<ge> N. f n cs s = Inr (cmd, s')) \<and> lexes cs s' x \<and> means (reads cs) c cmd"
  using assms unfolding parses_def by blast

lemma peek_no: "lexes cs s x \<Longrightarrow> follow F x \<Longrightarrow> set F \<inter> set G = {} \<Longrightarrow> set G \<subseteq> set symbols \<Longrightarrow> \<exists>s'. peek cs s G = (False, s') \<and> lexes cs s' x"
  using peek_lexes [of cs s x G] follow_begins [of F x G] by auto

lemma peek_yes:
  assumes "lexes cs s (S c # x)" "c \<in> {124, 40, 41, 59, 38}"
  shows "\<exists>s1 t s2. peek cs s [c] = (True, s1) \<and> gettoken cs s1 = (c, t, s2) \<and> lexes cs s1 (S c # x) \<and> lexes cs s2 x"
  using peek_lexes [OF assms(1), of "[c]"] assms(2) by (auto simp: symbols_def lexes_S)

lemma exec_toks:
  assumes "length ws < MAXARGS"
  shows "parses_redirs (SExec ws)"
  unfolding parses_redirs_def
proof (intro allI impI parses_I)
  fix rs cs s x
  assume rs: "redirs_good rs" and d: "lexes cs s ((toks 0 (SExec ws) @ rtoks rs) @ x)" and f: "follow ends0 x"
  let ?x = "map W ws @ rtoks rs @ x"
  have x: "\<not> begins [60, 62] x" "\<not> begins [40] x" using follow_begins [OF f, of "[60, 62]"] follow_begins [OF f, of "[40]"] by simp_all
  then have "\<not> begins [40] ?x" using rs by (cases rs) auto
  then obtain s1 where p: "peek cs s [40] = (False, s1)" "lexes cs s1 ?x"
    using peek_lexes [of cs s ?x "[40]"] d by (auto simp: symbols_def)
  have "\<exists>cmd s'. bindS (parseredirs cs (ExecCmd []) s1) (\<lambda>(ret, s). parse_args cs ret 0 s) = Inr (cmd, s')
      \<and> lexes cs s' x \<and> means (reads cs) (wrap (SExec ws) rs) cmd"
  proof (cases "ws = []")
    case True
    then show ?thesis
      using parseredirs_toks [of cs s1 rs x "SExec []" "ExecCmd []"] p(2) rs x(1) parse_args_stop [OF _ f] by fastforce
  next
    case False
    then have "\<not> begins [60, 62] ?x" by simp
    from parseredirs_stop [OF p(2) this] obtain s2 where "parseredirs cs (ExecCmd []) s1 = Inr (ExecCmd [], s2)" "lexes cs s2 ?x" by blast
    then show ?thesis using parse_args_toks [OF _ False rs f, of cs s2 "[]" "[]"] assms by simp
  qed
  then obtain cmd s' where e: "bindS (parseredirs cs (ExecCmd []) s1) (\<lambda>(ret, s). parse_args cs ret 0 s) = Inr (cmd, s')"
    "lexes cs s' x" "means (reads cs) (wrap (SExec ws) rs) cmd" by blast
  have "parseexec n cs s = Inr (cmd, s')" if "1 \<le> n" for n using that p e(1) by (cases n) simp_all
  then show "\<exists>N cmd s'. (\<forall>n \<ge> N. parseexec n cs s = Inr (cmd, s')) \<and> lexes cs s' x \<and> means (reads cs) (wrap (SExec ws) rs) cmd" using e by blast
qed

text \<open>A line in parentheses.\<close>

lemma block_toks:
  assumes "parses parseline ends3 y c" "toks 0 c = [S 40] @ y @ [S 41]"
  shows "parses_redirs c"
  unfolding parses_redirs_def
proof (intro allI impI parses_I)
  fix rs cs s x
  assume rs: "redirs_good rs" and d: "lexes cs s ((toks 0 c @ rtoks rs) @ x)" and f: "follow ends0 x"
  let ?y = "S 41 # rtoks rs @ x"
  have x: "\<not> begins [60, 62] x" by (rule follow_begins [OF f]) simp
  have "lexes cs s (S 40 # y @ ?y)" using d assms(2) by simp
  from peek_yes [OF this] obtain s1 t s2 where p: "peek cs s [40] = (True, s1)" "gettoken cs s1 = (40, t, s2)" "lexes cs s1 (S 40 # y @ ?y)" "lexes cs s2 (y @ ?y)" by auto
  from peek_yes [OF p(3)] obtain s1' t' s2' where p': "peek cs s1 [40] = (True, s1')" "gettoken cs s1' = (40, t', s2')" "lexes cs s2' (y @ ?y)" by auto
  have "follow ends3 ?y" by simp
  from parses_D [OF assms(1) p'(3) this] obtain N cmd s3 where
    l: "\<And>n. N \<le> n \<Longrightarrow> parseline n cs s2' = Inr (cmd, s3)" "lexes cs s3 ?y" "means (reads cs) c cmd" by blast
  from peek_yes [OF l(2)] obtain s4 t2 s5 where q: "peek cs s3 [41] = (True, s4)" "gettoken cs s4 = (41, t2, s5)" "lexes cs s5 (rtoks rs @ x)" by auto
  from parseredirs_toks [OF q(3) rs x l(3)] obtain cmd' s' where
    r: "parseredirs cs cmd s5 = Inr (cmd', s')" "lexes cs s' x" "means (reads cs) (wrap c rs) cmd'" by blast
  have "parseexec n cs s = Inr (cmd', s')" if n: "N + 2 \<le> n" for n
  proof -
    obtain k where k: "n = Suc (Suc k)" "N \<le> k" using le_Suc_ex [OF n] by auto
    show ?thesis unfolding k(1) by (simp add: p(1) p'(1,2) l(1) [OF k(2)] q(1,2) r(1))
  qed
  then show "\<exists>N cmd s'. (\<forall>n \<ge> N. parseexec n cs s = Inr (cmd, s')) \<and> lexes cs s' x \<and> means (reads cs) (wrap c rs) cmd" using r(2,3) by blast
qed

lemma redir_toks:
  assumes "parses_redirs c" "k \<in> {60, 62, 43}"
  shows "parses_redirs (SRedir c k f)"
  unfolding parses_redirs_def
proof (intro allI impI)
  fix rs
  assume "redirs_good rs"
  then have "redirs_good ((k, f) # rs)" using assms(2) by simp
  from assms(1) [unfolded parses_redirs_def, rule_format, OF this]
  show "parses parseexec ends0 (toks 0 (SRedir c k f) @ rtoks rs) (wrap (SRedir c k f) rs)" by simp
qed

lemma parses_exec: "parses_redirs c \<Longrightarrow> parses parseexec ends0 (toks 0 c) c"
  unfolding parses_redirs_def by (metis append_Nil2 redirs_simps(1,3,5))

text \<open>The tokens of a level are also tokens of the next.\<close>

lemma level_pipe:
  assumes "parses_redirs c" "toks 1 c = toks 0 c"
  shows "parses parsepipe ends1 (toks 1 c) c"
proof (rule parses_I)
  fix cs s x
  assume d: "lexes cs s (toks 1 c @ x)" and f: "follow ends1 x"
  have "follow ends0 x" by (rule follow_mono [OF f]) auto
  from parses_D [OF parses_exec [OF assms(1)] d [unfolded assms(2)] this] obtain N cmd s1 where
    e: "\<And>n. N \<le> n \<Longrightarrow> parseexec n cs s = Inr (cmd, s1)" "lexes cs s1 x" "means (reads cs) c cmd" by blast
  obtain s' where p: "peek cs s1 [124] = (False, s')" "lexes cs s' x" using peek_no [OF e(2) f, of "[124]"] by (auto simp: symbols_def)
  have "parsepipe n cs s = Inr (cmd, s')" if "N + 1 \<le> n" for n using that e(1) p by (cases n) simp_all
  then show "\<exists>N cmd s'. (\<forall>n \<ge> N. parsepipe n cs s = Inr (cmd, s')) \<and> lexes cs s' x \<and> means (reads cs) c cmd" using p(2) e(3) by blast
qed

lemma level_back:
  assumes "parses parsepipe ends1 (toks 1 c) c" "toks 2 c = toks 1 c"
  shows "parses_back c"
  unfolding parses_back_def
proof (intro allI impI, elim conjE)
  fix cs s x
  assume d: "lexes cs s (toks 2 c @ x)" and f: "follow ends1 x"
  from parses_D [OF assms(1) d [unfolded assms(2)] f] obtain N cmd s' where
    e: "\<And>n. N \<le> n \<Longrightarrow> parsepipe n cs s = Inr (cmd, s')" "lexes cs s' x" "means (reads cs) c cmd" by blast
  then have "pipe_back n cs s = Inr (parseback cs cmd s')" if "N \<le> n" for n using that by (simp add: pipe_back_def)
  then show "\<exists>N cmd s'. (\<forall>n \<ge> N. pipe_back n cs s = Inr (parseback cs cmd s')) \<and> lexes cs s' x \<and> means (reads cs) c cmd"
    using e(2,3) by blast
qed

lemma parses_back_D:
  assumes "parses_back c" "lexes cs s (toks 2 c @ x)" "follow [41, 59] x"
  shows "\<exists>N cmd s'. (\<forall>n \<ge> N. pipe_back n cs s = Inr (cmd, s')) \<and> lexes cs s' x \<and> means (reads cs) c cmd"
proof -
  have "follow ends1 x" by (rule follow_mono [OF assms(3)]) auto
  then obtain N cmd s1 where e: "\<forall>n \<ge> N. pipe_back n cs s = Inr (parseback cs cmd s1)" "lexes cs s1 x" "means (reads cs) c cmd"
    using assms(1,2) unfolding parses_back_def by metis
  obtain s' where "peek cs s1 [38] = (False, s')" "lexes cs s' x" using peek_no [OF e(2) assms(3), of "[38]"] by (auto simp: symbols_def)
  then show ?thesis using e by (auto simp: parseback.simps [of cs cmd s1])
qed

lemma parseline_split:
  assumes "pipe_back n cs s = Inr (cmd, s1)"
  shows "parseline (Suc n) cs s = (case peek cs s1 [59] of (b, s) \<Rightarrow>
    if b then (case gettoken cs s of (tok, t, s) \<Rightarrow> bindS (parseline n cs s) (\<lambda>(r, s). Inr (ListCmd cmd r, s))) else Inr (cmd, s))"
  using assms by (cases "parsepipe n cs s") (auto simp: pipe_back_def split: prod.splits)

lemma level_line:
  assumes "parses_back c" "toks 3 c = toks 2 c"
  shows "parses parseline ends3 (toks 3 c) c"
proof (rule parses_I)
  fix cs s x
  assume d: "lexes cs s (toks 3 c @ x)" and f: "follow ends3 x"
  have "follow [41, 59] x" by (rule follow_mono [OF f]) auto
  from parses_back_D [OF assms(1) d [unfolded assms(2)] this] obtain N cmd s1 where
    e: "\<And>n. N \<le> n \<Longrightarrow> pipe_back n cs s = Inr (cmd, s1)" "lexes cs s1 x" "means (reads cs) c cmd" by blast
  obtain s' where p: "peek cs s1 [59] = (False, s')" "lexes cs s' x" using peek_no [OF e(2) f, of "[59]"] by (auto simp: symbols_def)
  have "parseline n cs s = Inr (cmd, s')" if n: "N + 1 \<le> n" for n
  proof -
    obtain k where k: "n = Suc k" "N \<le> k" using n by (cases n) auto
    show ?thesis unfolding k(1) using parseline_split [OF e(1) [OF k(2)]] p by simp
  qed
  then show "\<exists>N cmd s'. (\<forall>n \<ge> N. parseline n cs s = Inr (cmd, s')) \<and> lexes cs s' x \<and> means (reads cs) c cmd" using p(2) e(3) by blast
qed

text \<open>Tokens that use a level of the grammar.\<close>

lemma pipe_toks:
  assumes "parses_redirs l" "parses parsepipe ends1 (toks 1 r) r"
  shows "parses parsepipe ends1 (toks 1 (SPipe l r)) (SPipe l r)"
proof (rule parses_I)
  fix cs s x
  assume d: "lexes cs s (toks 1 (SPipe l r) @ x)" and f: "follow ends1 x"
  have "lexes cs s (toks 0 l @ S 124 # toks 1 r @ x)" "follow ends0 (S 124 # toks 1 r @ x)" using d by (simp_all add: paren_def)
  from parses_D [OF parses_exec [OF assms(1)] this] obtain N cmd s1 where
    e: "\<And>n. N \<le> n \<Longrightarrow> parseexec n cs s = Inr (cmd, s1)" "lexes cs s1 (S 124 # toks 1 r @ x)" "means (reads cs) l cmd" by blast
  from peek_yes [OF e(2)] obtain s2 t s3 where p: "peek cs s1 [124] = (True, s2)" "gettoken cs s2 = (124, t, s3)" "lexes cs s3 (toks 1 r @ x)" by auto
  from parses_D [OF assms(2) p(3) f] obtain M cmd' s' where
    e': "\<And>n. M \<le> n \<Longrightarrow> parsepipe n cs s3 = Inr (cmd', s')" "lexes cs s' x" "means (reads cs) r cmd'" by blast
  have "parsepipe n cs s = Inr (PipeCmd cmd cmd', s')" if n: "N + M + 1 \<le> n" for n
  proof -
    obtain k where k: "n = Suc k" "N \<le> k" "M \<le> k" using le_Suc_ex [OF n] by auto
    show ?thesis unfolding k(1) by (simp add: e(1) [OF k(2)] p(1,2) e'(1) [OF k(3)])
  qed
  moreover have "means (reads cs) (SPipe l r) (PipeCmd cmd cmd')" using e(3) e'(3) by simp
  ultimately show "\<exists>N cmd s'. (\<forall>n \<ge> N. parsepipe n cs s = Inr (cmd, s')) \<and> lexes cs s' x \<and> means (reads cs) (SPipe l r) cmd" using e'(2) by blast
qed

lemma back_toks:
  assumes "parses_back c"
  shows "parses_back (SBack c)"
  unfolding parses_back_def
proof (intro allI impI, elim conjE)
  fix cs s x
  assume d: "lexes cs s (toks 2 (SBack c) @ x)" and f: "follow ends1 x"
  have "lexes cs s (toks 2 c @ S 38 # x)" "follow ends1 (S 38 # x)" using d by (simp_all add: paren_def)
  then obtain N cmd s1 where e: "\<forall>n \<ge> N. pipe_back n cs s = Inr (parseback cs cmd s1)" "lexes cs s1 (S 38 # x)" "means (reads cs) c cmd"
    using assms unfolding parses_back_def by metis
  from peek_yes [OF e(2)] obtain s2 t s3 where p: "peek cs s1 [38] = (True, s2)" "gettoken cs s2 = (38, t, s3)" "lexes cs s3 x" by auto
  have "parseback cs cmd s1 = parseback cs (BackCmd cmd) s3" by (simp add: parseback.simps [of cs cmd s1] p)
  moreover have "means (reads cs) (SBack c) (BackCmd cmd)" using e(3) by simp
  ultimately show "\<exists>N cmd s'. (\<forall>n \<ge> N. pipe_back n cs s = Inr (parseback cs cmd s')) \<and> lexes cs s' x \<and> means (reads cs) (SBack c) cmd"
    using e(1) p(3) by metis
qed

lemma list_toks:
  assumes "parses_back l" "parses parseline ends3 (toks 3 r) r"
  shows "parses parseline ends3 (toks 3 (SList l r)) (SList l r)"
proof (rule parses_I)
  fix cs s x
  assume d: "lexes cs s (toks 3 (SList l r) @ x)" and f: "follow ends3 x"
  have "lexes cs s (toks 2 l @ S 59 # toks 3 r @ x)" "follow [41, 59] (S 59 # toks 3 r @ x)" using d by (simp_all add: paren_def)
  from parses_back_D [OF assms(1) this] obtain N cmd s1 where
    e: "\<And>n. N \<le> n \<Longrightarrow> pipe_back n cs s = Inr (cmd, s1)" "lexes cs s1 (S 59 # toks 3 r @ x)" "means (reads cs) l cmd" by blast
  from peek_yes [OF e(2)] obtain s2 t s3 where p: "peek cs s1 [59] = (True, s2)" "gettoken cs s2 = (59, t, s3)" "lexes cs s3 (toks 3 r @ x)" by auto
  from parses_D [OF assms(2) p(3) f] obtain M cmd' s' where
    e': "\<And>n. M \<le> n \<Longrightarrow> parseline n cs s3 = Inr (cmd', s')" "lexes cs s' x" "means (reads cs) r cmd'" by blast
  have "parseline n cs s = Inr (ListCmd cmd cmd', s')" if n: "N + M + 1 \<le> n" for n
  proof -
    obtain k where k: "n = Suc k" "N \<le> k" "M \<le> k" using le_Suc_ex [OF n] by auto
    show ?thesis unfolding k(1) using parseline_split [OF e(1) [OF k(2)]] by (simp add: p(1,2) e'(1) [OF k(3)])
  qed
  moreover have "means (reads cs) (SList l r) (ListCmd cmd cmd')" using e(3) e'(3) by simp
  ultimately show "\<exists>N cmd s'. (\<forall>n \<ge> N. parseline n cs s = Inr (cmd, s')) \<and> lexes cs s' x \<and> means (reads cs) (SList l r) cmd" using e'(2) by blast
qed

abbreviation all_parse :: "scmd \<Rightarrow> bool" where
  "all_parse c \<equiv> parses_redirs c \<and> parses parsepipe ends1 (toks 1 c) c \<and> parses_back c \<and> parses parseline ends3 (toks 3 c) c"

lemma levels_up:
  assumes "parses_redirs c" "\<And>p q. toks p c = toks q c"
  shows "all_parse c"
  using level_pipe [OF assms(1) assms(2)] level_back [OF _ assms(2)] level_line [OF _ assms(2)] assms(1) by blast

lemma all_levels: "good c \<Longrightarrow> all_parse c"
proof (induction c)
  case (SExec ws)
  then have "parses_redirs (SExec ws)" using exec_toks by simp
  then show ?case by (rule levels_up) simp
next
  case (SRedir c k f)
  then have "parses_redirs (SRedir c k f)" using redir_toks by simp
  then show ?case by (rule levels_up) simp
next
  case (SPipe l r)
  then have p: "parses parsepipe ends1 (toks 1 (SPipe l r)) (SPipe l r)" using pipe_toks by simp
  then have b: "parses_back (SPipe l r)" by (rule level_back) (simp add: paren_def)
  then have l: "parses parseline ends3 (toks 3 (SPipe l r)) (SPipe l r)" by (rule level_line) (simp add: paren_def)
  then have "parses_redirs (SPipe l r)" by (rule block_toks) (simp add: paren_def)
  then show ?case using p b l by blast
next
  case (SBack c)
  then have b: "parses_back (SBack c)" using back_toks by simp
  then have l: "parses parseline ends3 (toks 3 (SBack c)) (SBack c)" by (rule level_line) (simp add: paren_def)
  then have e: "parses_redirs (SBack c)" by (rule block_toks) (simp add: paren_def)
  then have "parses parsepipe ends1 (toks 1 (SBack c)) (SBack c)" by (rule level_pipe) (simp add: paren_def)
  then show ?case using b l e by blast
next
  case (SList l r)
  then have l: "parses parseline ends3 (toks 3 (SList l r)) (SList l r)" using list_toks by simp
  then have e: "parses_redirs (SList l r)" by (rule block_toks) (simp add: paren_def)
  then have p: "parses parsepipe ends1 (toks 1 (SList l r)) (SList l r)" by (rule level_pipe) (simp add: paren_def)
  then have "parses_back (SList l r)" by (rule level_back) (simp add: paren_def)
  then show ?case using l e p by blast
qed

section \<open>The round trip\<close>

lemma means_mono: "means P c cmd \<Longrightarrow> (\<And>t w. t \<in> spans cmd \<Longrightarrow> P t w \<Longrightarrow> Q t w) \<Longrightarrow> means Q c cmd"
proof (induction c arbitrary: cmd)
  case (SExec ws)
  then show ?case by (auto elim!: list.rel_mono_strong)
qed auto

lemma lexes_end_peek:
  assumes "lexes cs s []" "0 \<notin> set cs" "s \<le> length cs"
  shows "peek cs s [] = (False, length cs)"
proof -
  let ?s = "skip_while blank cs s"
  have "cstr cs ?s = 0" using assms(1) by (auto simp: lexes.simps gettoken_def Let_def split: if_splits)
  then have "\<not> ?s < length cs" using assms(2) nth_mem by (fastforce simp: cstr_def)
  then show ?thesis using skip_while_le [OF assms(3), of blank] \<open>cstr cs ?s = 0\<close> by (simp add: peek_def)
qed

lemma parsecmd_lexes:
  assumes "lexes cs 0 (toks 3 c)" "good c" "0 \<notin> set cs"
  shows "\<exists>cmd m. parsecmd cs = Inr (cmd, m) \<and> means (\<lambda>t w. string_at m (fst t) w) c cmd"
proof -
  have "lexes cs 0 (toks 3 c @ [])" "follow ends3 []" using assms(1) by (simp_all add: follow_def)
  from parses_D [OF _ this] all_levels [OF assms(2)] obtain N cmd s where
    l: "\<And>n. N \<le> n \<Longrightarrow> parseline n cs 0 = Inr (cmd, s)" "lexes cs s []" "means (reads cs) c cmd" by blast
  let ?F = "4 * length cs + 3" and ?m = "nulterminate cmd (cstr cs)"
  have "parseline ?F cs 0 \<noteq> Inl No_fuel" by (rule parse_fuel(1)) simp
  then have p: "parseline ?F cs 0 = Inr (cmd, s)" using parseline_more [of ?F cs 0 "?F + N"] l(1) [of "?F + N"] by simp
  then have ok: "cmd_ok cs cmd" "after cs 0 s" using parse_ok(1) by blast+
  then have m: "parsecmd cs = Inr (cmd, ?m)" using p lexes_end_peek [OF l(2) assms(3)] by (simp add: parsecmd_def after_def)
  have "string_at ?m (fst t) w" if t: "t \<in> spans cmd" "reads cs t w" for t w
    unfolding t(2) [symmetric]
  proof (rule word_at_string [of cs t "spans cmd"])
    show "word_at cs t" "\<forall>u \<in> spans cmd. word_at cs u" using spans_ok [OF ok(1)] t(1) by blast+
    show "?m i = (if i \<in> snd ` spans cmd then 0 else cstr cs i)" for i by (rule nulterminate_eq)
  qed (rule t(1) assms(3))+
  then have "means (\<lambda>t w. string_at ?m (fst t) w) c cmd" by (rule means_mono [OF l(3)])
  then show ?thesis using m by blast
qed

text \<open>C21: The parser inverts the grammar: a line whose tokens spell a command (words, redirections, pipes, lists, background commands, with
  parentheses where the levels of the grammar ask for them) is parsed into that command, and the strings of the parsed
  command, ended by NULs in the line, are the words of the command.\<close>

theorem parsecmd_inverts:
  assumes "lexes cs 0 (toks 3 c)" "good c" "0 \<notin> set cs"
  shows "\<exists>cmd m. parsecmd cs = Inr (cmd, m) \<and> means (\<lambda>t w. string_at m (fst t) w) c cmd"
  using assms by (rule parsecmd_lexes)

text \<open>The line \<open>(a;b>f)|c &\<close> with its newline.\<close>

theorem parsecmd_inverts_witness:
  "\<exists>cmd m. parsecmd [40, 97, 59, 98, 62, 102, 41, 124, 99, 32, 38, 10] = Inr (cmd, m)
     \<and> means (\<lambda>t w. string_at m (fst t) w) (SBack (SPipe (SList (SExec [[97]]) (SRedir (SExec [[98]]) 62 [102])) (SExec [[99]]))) cmd"
proof -
  have "lexes [40, 97, 59, 98, 62, 102, 41, 124, 99, 32, 38, 10] 0
    (toks 3 (SBack (SPipe (SList (SExec [[97]]) (SRedir (SExec [[98]]) 62 [102])) (SExec [[99]]))))" by code_simp
  from parsecmd_inverts [OF this] show ?thesis by (simp add: MAXARGS_def)
qed

end
