(* ===== verification/Xv6_Runcmd.thy ===== *)
theory Xv6_Runcmd
  imports Xv6_Reparse
begin

text \<open>
  The shell as a process (\<open>sh.c\<close>): \<open>runcmd\<close> as the tree of its system calls, the main loop, and what the system calls do to the
  table of descriptors, so that the descriptors of every program that a command line starts are known.
\<close>

section \<open>The system calls of the shell\<close>

text \<open>A program is what it does next, for every result that its system call may return; \<open>fork\<close> returns twice.\<close>

datatype sysc =
    Close nat
  | Dup nat
  | Open "byte list" int
  | Exec "byte list" "byte list list"
  | Chdir "byte list"
  | Fork
  | Wait
  | Print "byte list"        \<comment> \<open>\<open>printf\<close> to descriptor 2\<close>

datatype prog =
    Exits
  | Call sysc "int \<Rightarrow> prog"
  | Pipes "int \<Rightarrow> nat \<Rightarrow> nat \<Rightarrow> prog"      \<comment> \<open>\<open>pipe(p)\<close>, with \<open>p[0]\<close> and \<open>p[1]\<close>\<close>

text \<open>The C string at an offset.\<close>

definition str_of :: "cbuf \<Rightarrow> nat \<Rightarrow> byte list" where
  "str_of m q = (case strlen (\<lambda>i. m (q + i)) of Some n \<Rightarrow> map (\<lambda>i. m (q + i)) [0..<n] | None \<Rightarrow> [])"

definition sh_panic :: "byte list \<Rightarrow> prog" where
  "sh_panic msg = Call (Print (msg @ [10])) (\<lambda>r. Exits)"

definition fork1 :: "(int \<Rightarrow> prog) \<Rightarrow> prog" where
  "fork1 k = Call Fork (\<lambda>pid. if pid = -1 then sh_panic [102, 111, 114, 107] else k pid)"

text \<open>\<open>exec \<dots> failed\<close> and \<open>open \<dots> failed\<close>.\<close>

definition failed :: "byte list \<Rightarrow> byte list \<Rightarrow> byte list" where
  "failed call name = call @ [32] @ name @ [32, 102, 97, 105, 108, 101, 100, 10]"

primrec runcmd :: "cbuf \<Rightarrow> cmd \<Rightarrow> prog" where
  "runcmd m (ExecCmd ts) =
     (if ts = [] then Exits
      else Call (Exec (str_of m (fst (hd ts))) (map (\<lambda>t. str_of m (fst t)) ts))
        (\<lambda>r. Call (Print (failed [101, 120, 101, 99] (str_of m (fst (hd ts))))) (\<lambda>r. Exits)))"
| "runcmd m (RedirCmd c t mode fd) =
     Call (Close fd) (\<lambda>r. Call (Open (str_of m (fst t)) mode) (\<lambda>r.
       if r < 0 then Call (Print (failed [111, 112, 101, 110] (str_of m (fst t)))) (\<lambda>r. Exits)
       else runcmd m c))"
| "runcmd m (ListCmd l r) =
     fork1 (\<lambda>pid. if pid = 0 then runcmd m l else Call Wait (\<lambda>x. runcmd m r))"
| "runcmd m (PipeCmd l r) =
     Pipes (\<lambda>res p0 p1.
       if res < 0 then sh_panic [112, 105, 112, 101]
       else fork1 (\<lambda>pid.
         if pid = 0 then Call (Close 1) (\<lambda>x. Call (Dup p1) (\<lambda>x. Call (Close p0) (\<lambda>x. Call (Close p1) (\<lambda>x. runcmd m l))))
         else fork1 (\<lambda>pid.
           if pid = 0 then Call (Close 0) (\<lambda>x. Call (Dup p0) (\<lambda>x. Call (Close p0) (\<lambda>x. Call (Close p1) (\<lambda>x. runcmd m r))))
           else Call (Close p0) (\<lambda>x. Call (Close p1) (\<lambda>x. Call Wait (\<lambda>x. Call Wait (\<lambda>x. Exits)))))))"
| "runcmd m (BackCmd c) = fork1 (\<lambda>pid. if pid = 0 then runcmd m c else Exits)"

section \<open>The main loop\<close>

text \<open>\<open>gets\<close> of \<open>ulib.c\<close>; \<open>acc\<close> are the bytes of the buffer so far.\<close>

function gets :: "nat \<Rightarrow> input \<Rightarrow> byte list \<Rightarrow> byte list \<times> input" where
  "gets nmax inp acc =
     (if length acc + 1 < nmax
      then (case read_fd 1 inp of
              (Some (c # cs), inp') \<Rightarrow> if c = 10 \<or> c = 13 then (acc @ [c], inp') else gets nmax inp' (acc @ [c])
            | (r, inp') \<Rightarrow> (acc, inp'))
      else (acc, inp))"
  by pat_completeness auto
termination
  by (relation "measure (\<lambda>(nmax, inp, acc). nmax - length acc)") auto

declare gets.simps [simp del]

definition sh_prompt :: "byte list" where
  "sh_prompt = [36, 32]"

text \<open>\<open>getcmd\<close> with the prompt on descriptor 2: \<open>None\<close> is its result -1.\<close>

definition getcmd :: "nat \<Rightarrow> input \<Rightarrow> byte list option \<times> input" where
  "getcmd nbuf inp = (case gets nbuf inp [] of (b, inp') \<Rightarrow> (if cstr b 0 = 0 then None else Some b, inp'))"

definition syntax_msg :: "byte list" where
  "syntax_msg = [115, 121, 110, 116, 97, 120]"

text \<open>\<open>leftovers: \<close> and what is left.\<close>

definition leftovers :: "byte list \<Rightarrow> byte list" where
  "leftovers s = [108, 101, 102, 116, 111, 118, 101, 114, 115, 58, 32] @ s @ [10]"

definition sh_child :: "byte list \<Rightarrow> prog" where
  "sh_child b =
     (case parsecmd (takeWhile (\<lambda>c. c \<noteq> 0) b) of
        Inr (cmd, m) \<Rightarrow> runcmd m cmd
      | Inl (Shpanic msg) \<Rightarrow> sh_panic (map of_char msg)
      | Inl (Leftovers s) \<Rightarrow> Call (Print (leftovers s)) (\<lambda>r. sh_panic syntax_msg)
      | Inl No_fuel \<Rightarrow> Exits)"

text \<open>\<open>cannot cd \<close> and the path.\<close>

definition cannot_cd :: "byte list \<Rightarrow> byte list" where
  "cannot_cd path = [99, 97, 110, 110, 111, 116, 32, 99, 100, 32] @ path @ [10]"

lemma read_fd_le: "read_fd k inp = (r, inp') \<Longrightarrow> input_size inp' \<le> input_size inp"
  by (induction k inp rule: read_fd.induct) (auto simp: input_size_def split: if_splits)

lemma gets_le: "input_size (snd (gets nmax inp acc)) \<le> input_size inp"
proof (induction nmax inp acc rule: gets.induct)
  case (1 nmax inp acc)
  obtain r inp1 where r: "read_fd 1 inp = (r, inp1)" by fastforce
  show ?case
    using 1 [OF _ r [symmetric]] r read_fd_le [OF r]
    by (auto simp: gets.simps [of nmax inp acc] split: option.split list.split intro: order.trans)
qed

lemma gets_size:
  assumes "gets nmax inp [] = (b, inp')" "b \<noteq> []"
  shows "input_size inp' < input_size inp"
proof -
  obtain r inp1 where r: "read_fd 1 inp = (r, inp1)" by fastforce
  then obtain c cs where c: "r = Some (c # cs)" "1 < nmax"
    using assms by (auto simp: gets.simps [of nmax inp "[]"] split: if_splits option.splits list.splits)
  have "input_size inp' \<le> input_size inp1"
    using assms r c gets_le [of nmax inp1 "[c]"] by (auto simp: gets.simps [of nmax inp "[]"] split: if_splits)
  then show ?thesis using read_fd_size [of 1 inp "c # cs" inp1] r c by simp
qed

lemma getcmd_size: "(Some b, inp') = getcmd nbuf inp \<Longrightarrow> input_size inp' < input_size inp"
  using gets_size [of nbuf inp b inp'] by (cases b) (auto simp: getcmd_def split: prod.splits if_splits)

text \<open>
  The loop over the lines; the buffer has 100 bytes. It ends at an empty read or a line that starts with a NUL. The prompt of
  \<open>getcmd\<close> comes first.
\<close>

function sh_main :: "input \<Rightarrow> prog" where
  "sh_main inp =
     Call (Print sh_prompt) (\<lambda>r.
       case getcmd 100 inp of (b, inp') \<Rightarrow>
       (case b of
          None \<Rightarrow> Exits
        | Some b \<Rightarrow>
            if cstr b 0 = 99 \<and> cstr b 1 = 100 \<and> cstr b 2 = 32
            then (let path = drop 3 (butlast (takeWhile (\<lambda>c. c \<noteq> 0) b))
                  in Call (Chdir path) (\<lambda>r. if r < 0 then Call (Print (cannot_cd path)) (\<lambda>r. sh_main inp') else sh_main inp'))
            else fork1 (\<lambda>pid. if pid = 0 then sh_child b else Call Wait (\<lambda>r. sh_main inp'))))"
  by pat_completeness auto
termination
  by (relation "measure input_size") (auto intro: getcmd_size)

declare sh_main.simps [simp del]

section \<open>Descriptors\<close>

text \<open>
  What the system calls do to the table of descriptors: \<open>open\<close>, \<open>dup\<close> and \<open>pipe\<close> take the lowest free ones (\<open>fdalloc\<close> of \<open>sysfile.c\<close>),
  and a child starts with a copy of the table.
\<close>

datatype obj = Console | File "byte list" int | PipeRead nat | PipeWrite nat

type_synonym fdtab = "obj option list"

definition lowest :: "fdtab \<Rightarrow> nat option" where
  "lowest tab = scan (\<lambda>x. x = None) tab"

text \<open>
  The programs that a process and its children start, each with its arguments and descriptors, in the order of a run in which
  children go first; \<open>n\<close> counts the pipes. \<open>opn\<close> and \<open>exc\<close> say which \<open>open\<close>s and \<open>exec\<close>s succeed; a \<open>chdir\<close> changes no descriptor.
\<close>

type_synonym started = "(byte list list \<times> fdtab) list \<times> nat"

primrec run :: "(byte list \<Rightarrow> int \<Rightarrow> bool) \<Rightarrow> (byte list \<Rightarrow> bool) \<Rightarrow> prog \<Rightarrow> fdtab \<Rightarrow> nat \<Rightarrow> started" where
  "run opn exc Exits tab n = ([], n)"
| "run opn exc (Call c k) tab n =
     (case c of
        Close fd \<Rightarrow> run opn exc (k 0) (tab[fd := None]) n
      | Dup fd \<Rightarrow>
          (case lowest tab of None \<Rightarrow> run opn exc (k (-1)) tab n | Some i \<Rightarrow> run opn exc (k (int i)) (tab[i := tab ! fd]) n)
      | Open f mode \<Rightarrow>
          (case lowest tab of
             None \<Rightarrow> run opn exc (k (-1)) tab n
           | Some i \<Rightarrow> if opn f mode then run opn exc (k (int i)) (tab[i := Some (File f mode)]) n else run opn exc (k (-1)) tab n)
      | Exec path argv \<Rightarrow>
          (case if exc path then ([], n) else run opn exc (k (-1)) tab n of (es, n) \<Rightarrow> ((argv, tab) # es, n))
      | Fork \<Rightarrow> (case run opn exc (k 0) tab n of (es, n) \<Rightarrow> (case run opn exc (k 1) tab n of (es', n) \<Rightarrow> (es @ es', n)))
      | Wait \<Rightarrow> run opn exc (k 1) tab n
      | Chdir path \<Rightarrow> run opn exc (k (if opn path 0 then 0 else -1)) tab n
      | Print s \<Rightarrow> run opn exc (k 0) tab n)"
| "run opn exc (Pipes k) tab n =
     (case lowest tab of
        None \<Rightarrow> run opn exc (k (-1) 0 0) tab n
      | Some i \<Rightarrow>
          (case lowest (tab[i := Some (PipeRead n)]) of
             None \<Rightarrow> run opn exc (k (-1) 0 0) tab n
           | Some j \<Rightarrow> run opn exc (k 0 i j) (tab[i := Some (PipeRead n), j := Some (PipeWrite n)]) (n + 1)))"

text \<open>
  What should be started: the left side of a pipe with the pipe for descriptor 1, the right side with it for descriptor 0, both with no
  other end of it; a redirected command with the file for its descriptor; all other descriptors as they were.
\<close>

primrec wires :: "(byte list \<Rightarrow> int \<Rightarrow> bool) \<Rightarrow> scmd \<Rightarrow> fdtab \<Rightarrow> nat \<Rightarrow> started" where
  "wires opn (SExec ws) tab n = (if ws = [] then [] else [(ws, tab)], n)"
| "wires opn (SRedir c k f) tab n =
     (if opn f (redir_mode k) then wires opn c (tab[redir_fd k := Some (File f (redir_mode k))]) n else ([], n))"
| "wires opn (SPipe l r) tab n =
     (case wires opn l (tab[1 := Some (PipeWrite n)]) (n + 1) of (es, n') \<Rightarrow>
        (case wires opn r (tab[0 := Some (PipeRead n)]) n' of (es', n') \<Rightarrow> (es @ es', n')))"
| "wires opn (SList l r) tab n =
     (case wires opn l tab n of (es, n) \<Rightarrow> (case wires opn r tab n of (es', n) \<Rightarrow> (es @ es', n)))"
| "wires opn (SBack c) tab n = wires opn c tab n"

text \<open>Descriptors 0 and 1 are open, and a pipe still fits.\<close>

definition roomy :: "fdtab \<Rightarrow> bool" where
  "roomy tab \<longleftrightarrow> 2 < length tab \<and> tab ! 0 \<noteq> None \<and> tab ! 1 \<noteq> None \<and>
     (\<exists>i j. i < j \<and> j < length tab \<and> tab ! i = None \<and> tab ! j = None)"

lemma str_of_string: "string_at m q w \<Longrightarrow> str_of m q = w"
  using strlen_spec [of "\<lambda>i. m (q + i)" "length w"]
  by (auto simp: string_at_def str_of_def intro!: nth_equalityI)

lemma lowest_Some: "lowest tab = Some i \<Longrightarrow> i < length tab \<and> tab ! i = None"
  unfolding lowest_def using scan_SomeD [of "\<lambda>x. x = None" tab i] by blast

lemma lowest_exists: "a < length tab \<Longrightarrow> tab ! a = None \<Longrightarrow> \<exists>i. lowest tab = Some i"
  unfolding lowest_def using scan_exists [of a tab "\<lambda>x. x = None"] by blast

lemma lowest_0: "2 < length tab \<Longrightarrow> lowest (tab[0 := None]) = Some 0"
  by (cases tab) (simp_all add: lowest_def)

lemma lowest_1: "2 < length tab \<Longrightarrow> tab ! 0 \<noteq> None \<Longrightarrow> lowest (tab[Suc 0 := None]) = Some 1"
  unfolding lowest_def scan_Some_iff by (auto simp: less_Suc_eq)

lemma roomy_update:
  assumes "roomy tab" "x \<noteq> None" "fd < 2"
  shows "roomy (tab[fd := x])"
proof -
  obtain i j where ij: "i < j" "j < length tab" "tab ! i = None" "tab ! j = None" using assms(1) by (auto simp: roomy_def)
  then have "i \<noteq> fd" "j \<noteq> fd" using assms by (auto simp: roomy_def less_2_cases_iff)
  then have "i < j \<and> j < length (tab[fd := x]) \<and> tab[fd := x] ! i = None \<and> tab[fd := x] ! j = None" using ij by simp
  moreover have "2 < length (tab[fd := x]) \<and> tab[fd := x] ! 0 \<noteq> None \<and> tab[fd := x] ! 1 \<noteq> None"
    using assms by (simp add: roomy_def nth_list_update)
  ultimately show ?thesis unfolding roomy_def by blast
qed

lemma roomy_pipe:
  assumes "roomy tab" "x \<noteq> None"
  obtains i j where "lowest tab = Some i" "lowest (tab[i := x]) = Some j" "1 < i" "1 < j" "i \<noteq> j" "i < length tab" "j < length tab"
    "tab ! i = None" "tab ! j = None"
proof -
  obtain a b where ab: "a < b" "b < length tab" "tab ! a = None" "tab ! b = None" using assms(1) by (auto simp: roomy_def)
  obtain i where i: "lowest tab = Some i" using lowest_exists [of b] ab by blast
  define c where "c = (if a = i then b else a)"
  have "c < length (tab[i := x])" "tab[i := x] ! c = None" using ab by (auto simp: c_def)
  then obtain j where j: "lowest (tab[i := x]) = Some j" using lowest_exists by blast
  note li = lowest_Some [OF i] and lj = lowest_Some [OF j]
  have ji: "j \<noteq> i" using lj li assms(2) by auto
  have big: "1 < k" if "tab ! k = None" for k
  proof -
    have "k \<noteq> 0" "k \<noteq> 1" using that assms(1) by (metis roomy_def)+
    then show ?thesis by simp
  qed
  show thesis using that [OF i j] li lj ji big by simp
qed

lemma pipe_tables:
  assumes "1 < i" "1 < j" "i \<noteq> j" "i < length tab" "j < length tab" "tab ! i = None" "tab ! j = None" "fd < 2"
  shows "tab[i := x, j := y, fd := z, i := None, j := None] = tab[fd := z]"
proof (rule nth_equalityI)
  fix k
  show "tab[i := x, j := y, fd := z, i := None, j := None] ! k = tab[fd := z] ! k" using assms by (cases "k < length tab") (auto simp: nth_list_update)
qed simp

text \<open>The processes of a command and their descriptors.\<close>

lemma run_runcmd:
  "means (\<lambda>t w. string_at m (fst t) w) c cmd \<Longrightarrow> roomy tab \<Longrightarrow> run opn exc (runcmd m cmd) tab n = wires opn c tab n"
proof (induction c arbitrary: cmd tab n)
  case (SExec ws)
  then obtain ts where ts: "cmd = ExecCmd ts" "list_all2 (\<lambda>t w. string_at m (fst t) w) ts ws" by auto
  then have "map (\<lambda>t. str_of m (fst t)) ts = ws"
    by (auto simp: list_all2_conv_all_nth str_of_string intro!: nth_equalityI)
  then show ?case using ts(1) by (auto simp: split: prod.splits)
next
  case (SRedir c k f)
  then obtain cmd' t where t: "cmd = RedirCmd cmd' t (redir_mode k) (redir_fd k)"
    "string_at m (fst t) f" "means (\<lambda>t w. string_at m (fst t) w) c cmd'" by auto
  have "lowest (tab[redir_fd k := None]) = Some (redir_fd k)"
    using SRedir.prems(2) lowest_0 [of tab] lowest_1 [of tab] by (auto simp: roomy_def redir_fd_def)
  moreover have "roomy (tab[redir_fd k := Some x])" for x using roomy_update [OF SRedir.prems(2), of "Some x" "redir_fd k"] by (simp add: redir_fd_def)
  ultimately show ?case
    using t SRedir.IH [OF t(3)] str_of_string [OF t(2)] by auto
next
  case (SPipe l r)
  then obtain cl cr where c: "cmd = PipeCmd cl cr" "means (\<lambda>t w. string_at m (fst t) w) l cl" "means (\<lambda>t w. string_at m (fst t) w) r cr" by auto
  obtain i j where ij: "lowest tab = Some i" "lowest (tab[i := Some (PipeRead n)]) = Some j" "1 < i" "1 < j" "i \<noteq> j" "i < length tab" "j < length tab"
    "tab ! i = None" "tab ! j = None" by (rule roomy_pipe [OF SPipe.prems(2), of "Some (PipeRead n)"]) simp
  let ?T = "tab[i := Some (PipeRead n), j := Some (PipeWrite n)]"
  have T: "?T ! 0 \<noteq> None" "2 < length ?T" "?T ! i = Some (PipeRead n)" "?T ! j = Some (PipeWrite n)"
    using SPipe.prems(2) ij by (simp_all add: roomy_def)
  have lo: "lowest (?T[1 := None]) = Some 1" "lowest (?T[0 := None]) = Some 0" using lowest_0 [of ?T] lowest_1 [of ?T] T by simp_all
  have D: "?T[Suc 0 := None] ! j = Some (PipeWrite n)" "?T[0 := None] ! i = Some (PipeRead n)" using ij by simp_all
  note tabs = pipe_tables [OF ij(3-9), of 1] pipe_tables [OF ij(3-9), of 0]
  have "roomy (tab[1 := Some (PipeWrite n)])" "roomy (tab[0 := Some (PipeRead n)])" using SPipe.prems(2) roomy_update by simp_all
  then have IH: "run opn exc (runcmd m cl) (tab[1 := Some (PipeWrite n)]) k = wires opn l (tab[1 := Some (PipeWrite n)]) k"
      "run opn exc (runcmd m cr) (tab[0 := Some (PipeRead n)]) k = wires opn r (tab[0 := Some (PipeRead n)]) k" for k
    using SPipe.IH c by blast+
  show ?case
    using lo IH by (simp add: c(1) fork1_def ij(1,2) D tabs [simplified] split: prod.splits)
next
  case (SList l r)
  then show ?case by (fastforce simp: fork1_def split: prod.splits)
next
  case (SBack c)
  then show ?case by (fastforce simp: fork1_def split: prod.splits)
qed

lemma run_child:
  assumes "lexes (takeWhile (\<lambda>c. c \<noteq> 0) b) 0 (toks 3 c)" "good c" "roomy tab"
  shows "run opn exc (sh_child b) tab n = wires opn c tab n"
proof -
  have "0 \<notin> set (takeWhile (\<lambda>c. c \<noteq> 0) b)" by (auto dest: set_takeWhileD)
  from parsecmd_lexes [OF assms(1,2) this] obtain cmd m where
    "parsecmd (takeWhile (\<lambda>c. c \<noteq> 0) b) = Inr (cmd, m)" "means (\<lambda>t w. string_at m (fst t) w) c cmd" by blast
  then show ?thesis using run_runcmd [OF _ assms(3)] by (simp add: sh_child_def)
qed

section \<open>A session\<close>

text \<open>
  An input that spells the commands of a list, one on each line: a line fits the buffer, has no NUL and no carriage return, and is
  not a \<open>cd\<close>, which the shell runs itself.
\<close>

fun session :: "byte list \<Rightarrow> scmd list \<Rightarrow> bool" where
  "session cs [] \<longleftrightarrow> cs = []"
| "session cs (c # rest) \<longleftrightarrow>
     (let line = takeWhile (\<lambda>b. b \<noteq> 10) cs
      in length line < length cs \<and> length line < 99 \<and> 0 \<notin> set line \<and> 13 \<notin> set line \<and> take 3 line \<noteq> [99, 100, 32]
         \<and> lexes (line @ [10]) 0 (toks 3 c) \<and> good c \<and> session (drop (length line + 1) cs) rest)"

fun wires_all :: "(byte list \<Rightarrow> int \<Rightarrow> bool) \<Rightarrow> scmd list \<Rightarrow> fdtab \<Rightarrow> nat \<Rightarrow> started" where
  "wires_all opn [] tab n = ([], n)"
| "wires_all opn (c # cs) tab n = (case wires opn c tab n of (es, n) \<Rightarrow> (case wires_all opn cs tab n of (es', n) \<Rightarrow> (es @ es', n)))"

lemma read_fd_one:
  assumes "contents inp = x # cs"
  shows "\<exists>inp'. read_fd 1 inp = (Some [x], inp') \<and> contents inp' = cs"
  using assms
proof (cases "(1 :: nat, inp)" rule: read_fd.cases)
  case (3 k c inp')
  then show ?thesis using assms by (cases c) (auto split: if_splits)
qed auto

lemma gets_line:
  "contents inp = line @ 10 # rest \<Longrightarrow> 10 \<notin> set line \<Longrightarrow> 13 \<notin> set line \<Longrightarrow> length acc + length line + 1 < nmax \<Longrightarrow>
     \<exists>inp'. gets nmax inp acc = (acc @ line @ [10], inp') \<and> contents inp' = rest"
proof (induction line arbitrary: inp acc)
  case Nil
  then obtain inp' where "read_fd 1 inp = (Some [10], inp')" "contents inp' = rest" using read_fd_one [of inp 10 rest] by auto
  then show ?case using Nil.prems(4) by (simp add: gets.simps [of nmax inp acc])
next
  case (Cons x line)
  then obtain inp' where r: "read_fd 1 inp = (Some [x], inp')" "contents inp' = line @ 10 # rest" using read_fd_one [of inp x "line @ 10 # rest"] by auto
  then show ?case using Cons.IH [OF r(2), of "acc @ [x]"] Cons.prems(2-4) by (auto simp: gets.simps [of nmax inp acc])
qed

lemma gets_end: "contents inp = [] \<Longrightarrow> \<exists>inp'. gets nmax inp [] = ([], inp')"
  by (cases "(1 :: nat, inp)" rule: read_fd.cases) (auto simp: gets.simps [of nmax _ "[]"] split: if_splits)

text \<open>
  C3: The shell connects what it runs. For an input that spells commands, one on each line, the shell starts exactly the programs of the
  commands with their words as arguments, line by line: the left side of a pipe writing to it and the right side reading from it,
  redirections on the descriptors they name. No program keeps an end of a pipe that is not its own, so that readers see the end of the
  input, and what a line redirects does not reach the next line. A file that cannot be opened stops its command only.
\<close>

theorem shell_wires:
  "session (contents inp) cs \<Longrightarrow> roomy tab \<Longrightarrow> run opn exc (sh_main inp) tab n = wires_all opn cs tab n"
proof (induction cs arbitrary: inp n)
  case Nil
  then obtain inp' where "gets 100 inp [] = ([], inp')" using gets_end [of inp 100] by auto
  then show ?case by (simp add: sh_main.simps [of inp] getcmd_def)
next
  case (Cons c cs)
  define line where "line = takeWhile (\<lambda>b. b \<noteq> 10) (contents inp)"
  have l: "length line < length (contents inp)" "length line < 99" "0 \<notin> set line" "13 \<notin> set line" "take 3 line \<noteq> [99, 100, 32]"
    "lexes (line @ [10]) 0 (toks 3 c)" "good c" "session (drop (length line + 1) (contents inp)) cs"
    using Cons.prems(1) by (auto simp: Let_def line_def)
  have n: "10 \<notin> set line" unfolding line_def by (auto dest: set_takeWhileD)
  have "contents inp = line @ 10 # drop (length line + 1) (contents inp)"
    using l(1) nth_length_takeWhile [of "\<lambda>b. b \<noteq> 10" "contents inp"] id_take_nth_drop [of "length line" "contents inp"]
    by (simp add: line_def takeWhile_eq_take [symmetric])
  from gets_line [OF this n l(4), of "[]" 100] l(2)
  obtain inp' where g: "gets 100 inp [] = (line @ [10], inp')" "contents inp' = drop (length line + 1) (contents inp)" by auto
  have c0: "cstr (line @ [10]) 0 \<noteq> 0" using l(3) by (cases line) auto
  have cd: "\<not> (cstr (line @ [10]) 0 = 99 \<and> cstr (line @ [10]) 1 = 100 \<and> cstr (line @ [10]) 2 = 32)"
    using l(5) by (cases line; cases "tl line"; cases "tl (tl line)") (auto simp: cstr_def split: if_splits)
  have "takeWhile (\<lambda>c. c \<noteq> 0) (line @ [10]) = line @ [10]" using l(3) by (auto simp: takeWhile_eq_all_conv)
  then have "run opn exc (sh_child (line @ [10])) tab k = wires opn c tab k" for k using run_child [OF _ l(7) Cons.prems(2)] l(6) by simp
  moreover have "run opn exc (sh_main inp') tab k = wires_all opn cs tab k" for k using Cons.IH [OF _ Cons.prems(2), of inp'] l(8) g(2) by simp
  ultimately show ?case using c0 cd by (auto simp: sh_main.simps [of inp] getcmd_def g(1) fork1_def split: prod.splits)
qed

text \<open>The lines \<open>a|b>f\<close> and \<open>c\<close> with three descriptors on the console.\<close>

theorem shell_wires_witness:
  "run (\<lambda>f mode. True) (\<lambda>path. True) (sh_main [Some [97, 124, 98, 62], Some [102, 10, 99, 10]])
       ([Some Console, Some Console, Some Console] @ replicate 13 None) 0 =
     ([([[97]], [Some Console, Some (PipeWrite 0), Some Console] @ replicate 13 None),
       ([[98]], [Some (PipeRead 0), Some (File [102] O_WRONLY_CREATE), Some Console] @ replicate 13 None),
       ([[99]], [Some Console, Some Console, Some Console] @ replicate 13 None)], 1)"
proof -
  let ?cs = "[SPipe (SExec [[97]]) (SRedir (SExec [[98]]) 62 [102]), SExec [[99]]]"
  have "session (contents [Some [97, 124, 98, 62], Some [102, 10, 99, 10]]) ?cs" by code_simp
  moreover have "roomy ([Some Console, Some Console, Some Console] @ replicate 13 None)"
    unfolding roomy_def by (intro conjI exI [of _ 3] exI [of _ 4]) (simp_all add: numeral_eq_Suc)
  ultimately show ?thesis
    using shell_wires [of "[Some [97, 124, 98, 62], Some [102, 10, 99, 10]]" ?cs
        "[Some Console, Some Console, Some Console] @ replicate 13 None" "\<lambda>f mode. True" "\<lambda>path. True" 0]
    by (simp add: redir_mode_def redir_fd_def)
qed

section \<open>The console\<close>

lemma filter_update_less:
  "fd < length tab \<Longrightarrow> tab ! fd = None \<Longrightarrow> length (filter (\<lambda>x. x = None) (tab[fd := Some x])) < length (filter (\<lambda>x. x = None) tab)"
proof (induction tab arbitrary: fd)
  case (Cons y tab)
  then show ?case by (cases fd) auto
qed simp

text \<open>\<open>main\<close> opens the console until it gets a descriptor above 2, which it closes; \<open>ok\<close> says whether the \<open>open\<close>s succeed.\<close>

function open_console :: "bool \<Rightarrow> fdtab \<Rightarrow> fdtab" where
  "open_console ok tab =
     (case lowest tab of
        None \<Rightarrow> tab
      | Some fd \<Rightarrow>
          if \<not> ok then tab
          else if fd \<ge> 3 then tab[fd := None]
          else open_console ok (tab[fd := Some Console]))"
  by pat_completeness auto
termination
proof (relation "measure (\<lambda>(ok, tab). length (filter (\<lambda>x. x = None) tab))", goal_cases)
  case (2 ok tab fd)
  then show ?case using lowest_Some [of tab fd] filter_update_less [of fd tab] by simp
qed simp

declare open_console.simps [simp del]

text \<open>After it, the first three descriptors are open, and the others are as they were.\<close>

lemma open_console_open:
  assumes "3 \<le> length tab"
  shows "length (open_console True tab) = length tab \<and> (\<forall>k < 3. open_console True tab ! k \<noteq> None)
    \<and> (\<forall>k \<ge> 3. open_console True tab ! k = tab ! k)"
  using assms
proof (induction True tab rule: open_console.induct)
  case (1 tab)
  show ?case
  proof (cases "lowest tab")
    case None
    then have "\<forall>k < length tab. tab ! k \<noteq> None" using lowest_exists [of _ tab] by fastforce
    then show ?thesis using None "1.prems" by (simp add: open_console.simps [of True tab])
  next
    case (Some fd)
    note l = lowest_Some [OF Some]
    show ?thesis
    proof (cases "3 \<le> fd")
      case True
      have "\<forall>k < fd. tab ! k \<noteq> None" using Some by (simp add: lowest_def scan_Some_iff)
      moreover have "tab[fd := None] = tab" using l by (metis list_update_id)
      ultimately show ?thesis using True Some "1.prems" by (simp add: open_console.simps [of True tab])
    next
      case False
      then show ?thesis using "1.hyps" [OF Some _ False] "1.prems" Some by (simp add: open_console.simps [of True tab])
    qed
  qed
qed

end
