(* ===== verification/Xv6_Umalloc.thy ===== *)
theory Xv6_Umalloc
  imports Xv6_Prelude
begin

text \<open>
  The allocator of the user library (\<open>umalloc.c\<close>, after Kernighan and Ritchie): a circular list of free blocks in order of address, kept
  in the blocks themselves. A header is 8 bytes of memory, a pointer and a size in units of 8 bytes.
\<close>

section \<open>The code\<close>

abbreviation hptr :: "mem \<Rightarrow> u32 \<Rightarrow> u32" where "hptr m p \<equiv> load32 m p"
abbreviation hsize :: "mem \<Rightarrow> u32 \<Rightarrow> u32" where "hsize m p \<equiv> load32 m (p + 4)"
abbreviation set_ptr :: "mem \<Rightarrow> u32 \<Rightarrow> u32 \<Rightarrow> mem" where "set_ptr m p v \<equiv> store32 m p v"
abbreviation set_size :: "mem \<Rightarrow> u32 \<Rightarrow> u32 \<Rightarrow> mem" where "set_size m p v \<equiv> store32 m (p + 4) v"

text \<open>The memory of the process, \<open>freep\<close>, and the break, which \<open>sbrk\<close> moves.\<close>

record uheap =
  u_mem :: mem
  u_freep :: u32
  u_brk :: u32

text \<open>The loop of \<open>free\<close>, which runs round the list to the block after which \<open>bp\<close> belongs.\<close>

definition free_here :: "mem \<Rightarrow> u32 \<Rightarrow> u32 \<Rightarrow> bool" where
  "free_here m bp p \<longleftrightarrow> p < bp \<and> bp < hptr m p \<or> hptr m p \<le> p \<and> (p < bp \<or> bp < hptr m p)"

partial_function (option) free_find :: "mem \<Rightarrow> u32 \<Rightarrow> u32 \<Rightarrow> u32 option" where
  "free_find m bp p = (if free_here m bp p then Some p else free_find m bp (hptr m p))"

text \<open>Putting \<open>bp\<close> between \<open>p\<close> and its successor, and joining it with those of them that it touches.\<close>

definition join_next :: "mem \<Rightarrow> u32 \<Rightarrow> u32 \<Rightarrow> mem" where
  "join_next m p bp =
     (if bp + 8 * hsize m bp = hptr m p
      then (let m = set_size m bp (hsize m bp + hsize m (hptr m p)) in set_ptr m bp (hptr m (hptr m p)))
      else set_ptr m bp (hptr m p))"

definition join_prev :: "mem \<Rightarrow> u32 \<Rightarrow> u32 \<Rightarrow> mem" where
  "join_prev m p bp =
     (if p + 8 * hsize m p = bp
      then (let m = set_size m p (hsize m p + hsize m bp) in set_ptr m p (hptr m bp))
      else set_ptr m p bp)"

definition ufree :: "u32 \<Rightarrow> uheap \<Rightarrow> uheap option" where
  "ufree ap s =
     (let bp = ap - 8
      in map_option (\<lambda>p. s\<lparr>u_mem := join_prev (join_next (u_mem s) p bp) p bp, u_freep := p\<rparr>)
           (free_find (u_mem s) bp (u_freep s)))"

text \<open>
  \<open>sbrk\<close> is a system call: \<open>sbrk b n\<close> is the new break when the process asks for \<open>n\<close> bytes more at break \<open>b\<close>, \<open>None\<close> if the kernel
  refuses. \<open>morecore\<close> returns 0 then; the outer \<open>None\<close> is a loop that does not end.
\<close>

type_synonym sbrk = "u32 \<Rightarrow> u32 \<Rightarrow> u32 option"

definition morecore :: "sbrk \<Rightarrow> u32 \<Rightarrow> uheap \<Rightarrow> (uheap \<times> u32) option" where
  "morecore sbrk nu s =
     (let nu = (if nu < 4096 then 4096 else nu)
      in case sbrk (u_brk s) (nu * 8) of
           None \<Rightarrow> Some (s, 0)
         | Some b \<Rightarrow>
             (let hp = u_brk s
              in map_option (\<lambda>s. (s, u_freep s)) (ufree (hp + 8) (s\<lparr>u_brk := b, u_mem := set_size (u_mem s) hp nu\<rparr>))))"

text \<open>Taking \<open>nunits\<close> units from block \<open>p\<close>, the successor of \<open>prevp\<close>: all of it, or its tail.\<close>

definition take_block :: "u32 \<Rightarrow> u32 \<Rightarrow> u32 \<Rightarrow> uheap \<Rightarrow> uheap \<times> u32" where
  "take_block nunits prevp p s =
     (let m = u_mem s
      in if hsize m p = nunits then (s\<lparr>u_mem := set_ptr m prevp (hptr m p), u_freep := prevp\<rparr>, p + 8)
         else (let m = set_size m p (hsize m p - nunits);
                   q = p + 8 * hsize m p
               in (s\<lparr>u_mem := set_size m q nunits, u_freep := prevp\<rparr>, q + 8)))"

partial_function (option) malloc_loop :: "sbrk \<Rightarrow> u32 \<Rightarrow> u32 \<Rightarrow> u32 \<Rightarrow> uheap \<Rightarrow> (uheap \<times> u32) option" where
  "malloc_loop sbrk nunits prevp p s =
     (if nunits \<le> hsize (u_mem s) p then Some (take_block nunits prevp p s)
      else if p = u_freep s
      then Option.bind (morecore sbrk nunits s) (\<lambda>(s, p).
             if p = 0 then Some (s, 0) else malloc_loop sbrk nunits p (hptr (u_mem s) p) s)
      else malloc_loop sbrk nunits p (hptr (u_mem s) p) s)"

text \<open>\<open>base\<close> is the address of the static header; \<open>freep\<close> is 0 before the first call.\<close>

definition malloc :: "u32 \<Rightarrow> sbrk \<Rightarrow> u32 \<Rightarrow> uheap \<Rightarrow> (uheap \<times> u32) option" where
  "malloc base sbrk nbytes s =
     (let nunits = (nbytes + 8 - 1) div 8 + 1;
          s = (if u_freep s = 0 then s\<lparr>u_mem := set_size (set_ptr (u_mem s) base base) base 0, u_freep := base\<rparr> else s)
      in malloc_loop sbrk nunits (u_freep s) (hptr (u_mem s) (u_freep s)) s)"

section \<open>Headers in memory\<close>

text \<open>Two headers that do not overlap, with no wrap-around.\<close>

definition apart :: "u32 \<Rightarrow> u32 \<Rightarrow> bool" where
  "apart p q \<longleftrightarrow> unat p + 8 \<le> unat q \<or> unat q + 8 \<le> unat p"

definition low :: "u32 \<Rightarrow> bool" where
  "low p \<longleftrightarrow> unat p + 8 \<le> 2 ^ 31"

lemma unat_add_small: "unat a + k < 2 ^ 32 \<Longrightarrow> unat (a + of_nat k) = unat a + k" for a :: u32
  by (simp add: unat_word_ariths(1) unsigned_of_nat take_bit_eq_mod)

lemma store32_byte: "unat a + 4 \<le> 2 ^ 32 \<Longrightarrow> unat c < unat a \<or> unat a + 4 \<le> unat c \<Longrightarrow> store32 m a v c = m c" for c :: u32
  using unat_add_small [of a 1] unat_add_small [of a 2] unat_add_small [of a 3] by (auto simp: store32_def)

lemma load32_other:
  assumes "unat a + 4 \<le> unat b \<or> unat b + 4 \<le> unat a" "unat a + 4 \<le> 2 ^ 32" "unat b + 4 \<le> 2 ^ 32"
  shows "load32 (store32 m a v) b = load32 m b"
proof -
  have "store32 m a v (b + of_nat k) = m (b + of_nat k)" if "k < 4" for k
    using assms that unat_add_small [of b k] by (intro store32_byte) auto
  from this [of 0] this [of 1] this [of 2] this [of 3] show ?thesis by (simp add: load32_def)
qed

lemma low_add: "low p \<Longrightarrow> unat (p + 4) = unat p + 4" "low p \<Longrightarrow> unat (p + 8) = unat p + 8"
  using unat_add_small [of p 4] unat_add_small [of p 8] by (simp_all add: low_def)

definition clear :: "u32 \<Rightarrow> u32 \<Rightarrow> bool" where
  "clear p q \<longleftrightarrow> low p \<and> low q \<and> (p = q \<or> apart p q)"

lemma clear_refl: "clear p q \<Longrightarrow> clear p p"
  by (simp add: clear_def)

lemma header_simps:
  assumes "clear p q"
  shows "hptr (set_ptr m p v) q = (if q = p then v else hptr m q)" "hptr (set_size m p v) q = hptr m q"
    "hsize (set_ptr m p v) q = hsize m q" "hsize (set_size m p v) q = (if q = p then v else hsize m q)"
proof -
  have l: "low p" "low q" using assms by (auto simp: clear_def)
  note a = low_add(1) [OF l(1)] low_add(1) [OF l(2)]
  have b: "unat p + 8 \<le> 2 ^ 31" "unat q + 8 \<le> 2 ^ 31" using l by (simp_all add: low_def)
  have c: "q \<noteq> p \<Longrightarrow> unat p + 8 \<le> unat q \<or> unat q + 8 \<le> unat p" using assms by (auto simp: clear_def apart_def)
  show "hptr (set_ptr m p v) q = (if q = p then v else hptr m q)" using c b by (cases "q = p") (auto simp: load32_other)
  show "hptr (set_size m p v) q = hptr m q" using c b a by (cases "q = p") (auto simp: load32_other)
  show "hsize (set_ptr m p v) q = hsize m q" using c b a by (cases "q = p") (auto simp: load32_other)
  show "hsize (set_size m p v) q = (if q = p then v else hsize m q)" using c b a by (cases "q = p") (auto simp: load32_other)
qed

lemma header_byte: "low p \<Longrightarrow> unat c < unat p \<or> unat p + 8 \<le> unat c \<Longrightarrow> set_ptr m p v c = m c \<and> set_size m p v c = m c"
  using low_add(1) [of p] by (auto simp: low_def intro!: store32_byte)

section \<open>The list of free blocks\<close>

text \<open>
  The fields of headers as functions \<open>P\<close> (pointer) and \<open>Z\<close> (size). \<open>chain\<close>: the pointers lead from \<open>x\<close> along a list; \<open>past\<close>: the end of a block.
\<close>

fun chain :: "(u32 \<Rightarrow> u32) \<Rightarrow> u32 \<Rightarrow> u32 list \<Rightarrow> bool" where
  "chain P x [] \<longleftrightarrow> True"
| "chain P x (y # ys) \<longleftrightarrow> P x = y \<and> chain P y ys"

definition past :: "(u32 \<Rightarrow> u32) \<Rightarrow> u32 \<Rightarrow> nat" where
  "past Z x = unat x + 8 * unat (Z x)"

text \<open>\<open>xs\<close> are the free blocks after the static header, in order of address and no two of them adjacent; the pointers lead round them.\<close>

definition ring :: "u32 \<Rightarrow> (u32 \<Rightarrow> u32) \<Rightarrow> (u32 \<Rightarrow> u32) \<Rightarrow> u32 list \<Rightarrow> bool" where
  "ring base P Z xs \<longleftrightarrow> Z base = 0 \<and> chain P (last (base # xs)) (base # xs) \<and> sorted_wrt (\<lambda>x y. past Z x < unat y) xs
     \<and> (\<forall>x \<in> set xs. unat base + 8 \<le> unat x \<and> 0 < unat (Z x))"

lemma chain_append [simp]: "chain P x (ys @ zs) \<longleftrightarrow> chain P x ys \<and> chain P (last (x # ys)) zs"
  by (induction ys arbitrary: x) auto

lemma chain_eq: "(\<And>y. y \<in> set (butlast (x # ys)) \<Longrightarrow> P y = P' y) \<Longrightarrow> chain P x ys \<longleftrightarrow> chain P' x ys"
  by (induction ys arbitrary: x) auto

lemma ring_cong:
  assumes "ring base P Z xs" "\<And>x. x \<in> set (base # xs) \<Longrightarrow> P' x = P x \<and> Z' x = Z x"
  shows "ring base P' Z' xs"
proof -
  have "chain P' (last (base # xs)) (base # xs) \<longleftrightarrow> chain P (last (base # xs)) (base # xs)"
    by (rule chain_eq) (use assms(2) in \<open>auto dest: in_set_butlastD split: if_splits\<close>)
  moreover have "sorted_wrt (\<lambda>x y. past Z' x < unat y) xs"
    using assms by (auto simp: ring_def past_def intro: sorted_wrt_mono_rel [rotated])
  ultimately show ?thesis using assms by (simp add: ring_def)
qed

lemma ring_sorted: "ring base P Z xs \<Longrightarrow> sorted_wrt (\<lambda>x y. unat x < unat y) (base # xs)"
  by (auto simp: ring_def past_def elim: sorted_wrt_mono_rel [rotated])

lemma sorted_distinct: "sorted_wrt (\<lambda>x y. unat x < unat y) xs \<Longrightarrow> distinct xs"
  by (induction xs) auto

lemma ring_distinct: "ring base P Z xs \<Longrightarrow> distinct (base # xs)"
  by (rule sorted_distinct [OF ring_sorted])

lemma ring_split: "ring base P Z (as @ bs) \<longleftrightarrow>
   Z base = 0 \<and> chain P base as \<and> chain P (last (base # as)) (bs @ [base])
     \<and> sorted_wrt (\<lambda>x y. past Z x < unat y) (as @ bs) \<and> (\<forall>x \<in> set (as @ bs). unat base + 8 \<le> unat x \<and> 0 < unat (Z x))"
  by (auto simp: ring_def)

lemma chain_upd_last: "distinct (x # ys) \<Longrightarrow> chain (P(last (x # ys) := v)) x ys \<longleftrightarrow> chain P x ys"
proof (rule chain_eq)
  fix y
  assume d: "distinct (x # ys)" "y \<in> set (butlast (x # ys))"
  then have "y \<noteq> last (x # ys)" by (metis append_butlast_last_id distinct_append disjoint_iff list.distinct(1) list.set_intros(1))
  then show "(P(last (x # ys) := v)) y = P y" by simp
qed

lemma chain_upd: "c \<notin> set (x # ys) \<Longrightarrow> chain (P(c := v)) x (ys @ [z]) \<longleftrightarrow> chain P x (ys @ [z])"
  by (rule chain_eq) (auto split: if_splits)

lemma chain_hd: "chain P x (ys @ [z]) \<Longrightarrow> P x = hd (ys @ [z])"
  by (cases ys) auto

lemma ring_next: "ring base P Z (as @ bs) \<Longrightarrow> P (last (base # as)) = hd (bs @ [base])"
  unfolding ring_split by (intro chain_hd) blast

lemma ring_remove:
  assumes "ring base P Z (as @ c # bs)"
  shows "ring base (P(last (base # as) := P c)) Z (as @ bs)"
proof -
  let ?l = "last (base # as)"
  have d: "distinct (base # as @ c # bs)" by (rule ring_distinct [OF assms])
  then have dl: "?l \<notin> set bs" "distinct (base # as)" by (auto simp: disjoint_iff split: if_splits)
  have c: "chain P base as" "chain P c (bs @ [base])" "P c = hd (bs @ [base])" using assms chain_hd [of P c bs base] by (auto simp: ring_split)
  have "chain (P(?l := P c)) ?l (bs @ [base])"
  proof (cases bs)
    case Nil
    then show ?thesis using c(3) by simp
  next
    case (Cons b bs')
    then show ?thesis using c(2,3) dl(1) chain_upd [of ?l b bs' P "P c" base] by simp
  qed
  moreover have "chain (P(?l := P c)) base as" using c(1) chain_upd_last [OF dl(2)] by blast
  ultimately show ?thesis using assms by (auto simp: ring_split sorted_wrt_append)
qed

lemma ring_insert:
  assumes "ring base P Z (as @ bs)" "\<forall>a \<in> set as. past Z a < unat bp" "unat base + 8 \<le> unat bp" "0 < unat (Z bp)" "\<forall>b \<in> set bs. past Z bp < unat b"
  shows "ring base (P(last (base # as) := bp, bp := hd (bs @ [base]))) Z (as @ bp # bs)"
proof -
  let ?l = "last (base # as)" and ?P = "P(last (base # as) := bp, bp := hd (bs @ [base]))"
  have n: "bp \<notin> set (base # as @ bs)" using assms(2-5) by (fastforce simp: past_def)
  have d: "distinct (base # as @ bs)" by (rule ring_distinct [OF assms(1)])
  then have dl: "?l \<notin> set bs" "distinct (base # as)" "?l \<noteq> bp" using n by (auto simp: disjoint_iff split: if_splits)
  have c: "chain P base as" "chain P ?l (bs @ [base])" using assms(1) by (auto simp: ring_split)
  have "chain ?P base as \<longleftrightarrow> chain (P(?l := bp)) base as"
    by (rule chain_eq) (use n in \<open>auto dest: in_set_butlastD split: if_splits\<close>)
  then have "chain ?P base as" using c(1) chain_upd_last [OF dl(2)] by blast
  moreover have "chain ?P bp (bs @ [base])"
  proof (cases bs)
    case (Cons b bs')
    have "chain ?P b (bs' @ [base]) \<longleftrightarrow> chain P b (bs' @ [base])" by (rule chain_eq) (use n dl(1) Cons in \<open>auto split: if_splits\<close>)
    then show ?thesis using c(2) Cons by simp
  qed simp
  ultimately show ?thesis using assms dl(3) by (auto simp: ring_split sorted_wrt_append)
qed

lemma ring_resize:
  assumes "ring base P Z (as @ c # bs)" "0 < unat k" "\<forall>b \<in> set bs. unat c + 8 * unat k < unat b"
  shows "ring base P (Z(c := k)) (as @ c # bs)"
proof -
  have d: "c \<notin> set as" "c \<notin> set bs" "c \<noteq> base" using ring_distinct [OF assms(1)] by auto
  have "sorted_wrt (\<lambda>x y. past (Z(c := k)) x < unat y) as" "sorted_wrt (\<lambda>x y. past (Z(c := k)) x < unat y) bs"
    using assms(1) d by (auto simp: ring_def past_def sorted_wrt_append elim!: sorted_wrt_mono_rel [rotated])
  then show ?thesis using assms d by (auto simp: ring_def sorted_wrt_append past_def)
qed

section \<open>Walking round the list\<close>

lemma ring_rotate:
  assumes "ring base P Z xs" "f \<in> set (base # xs)"
  obtains ws where "chain P f (ws @ [f])" "set (ws @ [f]) = set (base # xs)" "distinct (ws @ [f])"
proof -
  obtain us vs where uv: "base # xs = us @ f # vs" using split_list [OF assms(2)] by blast
  have c: "chain P (last (base # xs)) (base # xs)" using assms(1) by (simp add: ring_def)
  then have "chain P f vs" "chain P (last (us @ f # vs)) (us @ [f])" unfolding uv by (auto split: if_splits)
  then have "chain P f (vs @ us @ [f])" by (cases vs) (auto split: if_splits)
  moreover have "distinct (vs @ us @ [f])" "set (vs @ us @ [f]) = set (base # xs)" using ring_distinct [OF assms(1)] by (auto simp: uv)
  ultimately show thesis using that [of "vs @ us"] by simp
qed

lemma ring_succ:
  assumes "ring base P Z xs" "base # xs = us @ z # vs"
  shows "P z = hd (vs @ [base])"
proof (cases us)
  case Nil
  then show ?thesis using assms ring_next [of base P Z "[]" xs] by simp
next
  case (Cons u us')
  then show ?thesis using assms ring_next [of base P Z "us' @ [z]" vs] by simp
qed

text \<open>The loop of \<open>free\<close> stops at the last block before \<open>bp\<close> and nowhere else.\<close>

lemma free_here_iff:
  assumes "ring base (load32 m) Z (as @ bs)" "\<forall>a \<in> set (base # as). unat a < unat bp" "\<forall>b \<in> set bs. unat bp < unat b" "z \<in> set (base # as @ bs)"
  shows "free_here m bp z \<longleftrightarrow> z = last (base # as)"
proof -
  note less = word_less_nat_alt word_le_nat_alt
  obtain us vs where uv: "base # as @ bs = us @ z # vs" using split_list [OF assms(4)] by auto
  have P: "hptr m z = hd (vs @ [base])" by (rule ring_succ [OF assms(1) uv])
  have srt: "sorted_wrt (\<lambda>x y. unat x < unat y) (us @ z # vs)" using ring_sorted [OF assms(1)] uv by simp
  show ?thesis
  proof (cases "z \<in> set (base # as)")
    case True
    then obtain us1 vs1 where a: "base # as = us1 @ z # vs1" using split_list [OF True] by blast
    then have P: "hptr m z = hd (vs1 @ bs @ [base])" using ring_succ [OF assms(1), of us1 z "vs1 @ bs"] by simp
    have s1: "sorted_wrt (\<lambda>x y. unat x < unat y) (us1 @ z # vs1 @ bs)" using ring_sorted [OF assms(1)] a by (metis append.assoc append_Cons)
    show ?thesis
    proof (cases vs1)
      case Nil
      then have l: "z = last (base # as)" unfolding a by simp
      moreover have "unat z < unat bp" "unat base \<le> unat z" using True assms(2) ring_sorted [OF assms(1)] by (auto simp: sorted_wrt_append less_imp_le)
      moreover have "bs \<noteq> [] \<Longrightarrow> unat bp < unat (hd bs)" using assms(3) by simp
      ultimately show ?thesis using P Nil by (cases bs) (auto simp: free_here_def less)
    next
      case (Cons v vs2)
      have "v \<in> set (base # as)" unfolding a using Cons by simp
      then have "unat v < unat bp" using assms(2) by blast
      moreover have "unat z < unat v" "z \<noteq> last (base # as)" using s1 Cons unfolding a by (auto simp: sorted_wrt_append)
      ultimately show ?thesis using P Cons by (auto simp: free_here_def less)
    qed
  next
    case False
    then have z: "unat bp < unat z" using assms(3,4) by auto
    have "z \<noteq> last (base # as)" using False by (metis last_in_set list.distinct(1))
    moreover have "unat base < unat bp" using assms(2) by simp
    ultimately show ?thesis using P z srt by (cases vs) (auto simp: free_here_def less sorted_wrt_append)
  qed
qed

lemma free_find_walk:
  "chain (load32 m) x ys \<Longrightarrow> p \<in> set (x # ys) \<Longrightarrow> (\<And>z. z \<in> set (x # ys) \<Longrightarrow> free_here m bp z \<longleftrightarrow> z = p) \<Longrightarrow> free_find m bp x = Some p"
proof (induction ys arbitrary: x)
  case Nil
  then show ?case by (subst free_find.simps) auto
next
  case (Cons y ys)
  show ?case
  proof (cases "x = p")
    case True
    then show ?thesis using Cons.prems(3) [of x] by (subst free_find.simps) simp
  next
    case False
    have "free_find m bp y = Some p" using Cons.prems False by (intro Cons.IH) auto
    then show ?thesis using Cons.prems(1) Cons.prems(3) [of x] False by (subst free_find.simps) simp
  qed
qed

lemma free_find_ring:
  assumes "ring base (load32 m) Z (as @ bs)" "\<forall>a \<in> set (base # as). unat a < unat bp" "\<forall>b \<in> set bs. unat bp < unat b" "f \<in> set (base # as @ bs)"
  shows "free_find m bp f = Some (last (base # as))"
proof -
  obtain ws where w: "chain (load32 m) f (ws @ [f])" "set (ws @ [f]) = set (base # as @ bs)" using ring_rotate [OF assms(1,4)] by blast
  have l: "last (base # as) \<in> set (base # as)" by (rule last_in_set) simp
  have s: "set (f # ws @ [f]) = set (base # as @ bs)" using w(2) by auto
  show ?thesis
  proof (rule free_find_walk [OF w(1)])
    show "last (base # as) \<in> set (f # ws @ [f])" unfolding s using l by auto
    show "free_here m bp z \<longleftrightarrow> z = last (base # as)" if "z \<in> set (f # ws @ [f])" for z
      using that free_here_iff [OF assms(1-3)] unfolding s by blast
  qed
qed

section \<open>The invariant of the heap\<close>

text \<open>\<open>L\<close> are the blocks in use, with their units: their headers have their size, and nothing overlaps anything.\<close>

definition blocks_apart :: "(u32 \<times> nat) list \<Rightarrow> bool" where
  "blocks_apart L \<longleftrightarrow> sorted_wrt (\<lambda>(b, n) (c, k). unat b + 8 * n \<le> unat c \<or> unat c + 8 * k \<le> unat b) L"

definition block_ok :: "u32 \<Rightarrow> u32 list \<Rightarrow> uheap \<Rightarrow> u32 \<times> nat \<Rightarrow> bool" where
  "block_ok base xs s = (\<lambda>(b, n). 0 < n \<and> unat (hsize (u_mem s) b) = n \<and> unat base + 8 \<le> unat b \<and> unat b + 8 * n \<le> unat (u_brk s)
     \<and> (\<forall>x \<in> set xs. past (hsize (u_mem s)) x \<le> unat b \<or> unat b + 8 * n \<le> unat x))"

definition heap_ok :: "u32 \<Rightarrow> u32 list \<Rightarrow> (u32 \<times> nat) list \<Rightarrow> uheap \<Rightarrow> bool" where
  "heap_ok base xs L s \<longleftrightarrow> ring base (load32 (u_mem s)) (hsize (u_mem s)) xs \<and> u_freep s \<in> set (base # xs)
     \<and> base \<noteq> 0 \<and> unat base + 8 \<le> unat (u_brk s) \<and> unat (u_brk s) \<le> 2 ^ 31
     \<and> (\<forall>x \<in> set xs. past (hsize (u_mem s)) x \<le> unat (u_brk s))
     \<and> list_all (block_ok base xs s) L \<and> blocks_apart L"

text \<open>The bytes of the blocks in use, their headers included, are as they were.\<close>

definition keeps :: "(u32 \<times> nat) list \<Rightarrow> mem \<Rightarrow> mem \<Rightarrow> bool" where
  "keeps L m m' \<longleftrightarrow> (\<forall>(b, n) \<in> set L. \<forall>c. unat b \<le> unat c \<and> unat c < unat b + 8 * n \<longrightarrow> m' c = m c)"

lemma keeps_size:
  assumes "keeps L m m'" "(b, n) \<in> set L" "0 < n" "unat b + 8 * n \<le> 2 ^ 31"
  shows "hsize m' b = hsize m b"
proof -
  have "m' (b + of_nat k) = m (b + of_nat k)" if "k < 8" for k
    using assms that unat_add_small [of b k] by (fastforce simp: keeps_def)
  from this [of 4] this [of 5] this [of 6] this [of 7] show ?thesis by (simp add: load32_def add.commute add.assoc)
qed

text \<open>Free blocks and the static header are clear of one another.\<close>

lemma ring_clear:
  assumes "ring base P Z xs" "\<forall>x \<in> set xs. past Z x \<le> 2 ^ 31" "low base" "x \<in> set (base # xs)" "y \<in> set (base # xs)"
  shows "clear x y"
proof -
  have lo: "low z" if "z \<in> set (base # xs)" for z
    using that assms(1-3) by (fastforce simp: ring_def low_def past_def)
  have "apart x y" if "x \<noteq> y"
  proof (cases "x = base \<or> y = base")
    case True
    then show ?thesis using that assms(1,4,5) by (auto simp: ring_def apart_def)
  next
    case False
    then have xy: "x \<in> set xs" "y \<in> set xs" using assms(4,5) by auto
    have "sorted_wrt (\<lambda>x y. past Z x < unat y) xs" using assms(1) by (simp add: ring_def)
    then have "past Z x < unat y \<or> past Z y < unat x"
      using xy that by (metis in_set_conv_nth linorder_neqE_nat sorted_wrt_nth_less)
    moreover have "0 < unat (Z x)" "0 < unat (Z y)" using xy assms(1) by (auto simp: ring_def)
    ultimately show ?thesis by (auto simp: apart_def past_def)
  qed
  then show ?thesis using lo assms(4,5) by (auto simp: clear_def)
qed

section \<open>free\<close>

lemma unat_end: "unat x + 8 * unat z < 2 ^ 32 \<Longrightarrow> unat (x + 8 * z) = unat x + 8 * unat z" for x z :: u32
  by (simp add: unat_word_ariths)

lemma join_next_fields:
  assumes "clear bp p" "clear bp (hptr m p)" "clear bp y"
  shows "hptr (join_next m p bp) y =
      (if y = bp then if bp + 8 * hsize m bp = hptr m p then hptr m (hptr m p) else hptr m p else hptr m y)"
    "hsize (join_next m p bp) y = (if y = bp \<and> bp + 8 * hsize m bp = hptr m p then hsize m bp + hsize m (hptr m p) else hsize m y)"
  using assms clear_refl [OF assms(1)] by (simp_all add: join_next_def Let_def header_simps)

lemma join_prev_fields:
  assumes "clear p bp" "clear p y"
  shows "hptr (join_prev m p bp) y = (if y = p then if p + 8 * hsize m p = bp then hptr m bp else bp else hptr m y)"
    "hsize (join_prev m p bp) y = (if y = p \<and> p + 8 * hsize m p = bp then hsize m p + hsize m bp else hsize m y)"
  using assms clear_refl [OF assms(1)] by (simp_all add: join_prev_def Let_def header_simps)

lemma join_bytes:
  assumes "low p" "low bp" "unat c < unat p \<or> unat p + 8 \<le> unat c" "unat c < unat bp \<or> unat bp + 8 \<le> unat c"
  shows "join_prev (join_next m p bp) p bp c = m c"
  using header_byte [OF assms(1,3)] header_byte [OF assms(2,4)] by (simp add: join_prev_def join_next_def Let_def)

lemma chunk_split:
  assumes "sorted_wrt (\<lambda>x y. unat x < unat y) xs" "\<forall>x \<in> set xs. unat x \<noteq> k"
  obtains as bs where "xs = as @ bs" "\<forall>a \<in> set as. unat a < k" "\<forall>b \<in> set bs. k < unat (b :: u32)"
proof -
  let ?as = "takeWhile (\<lambda>x. unat x < k) xs" and ?bs = "dropWhile (\<lambda>x. unat x < k) xs"
  have "k < unat b" if b: "b \<in> set ?bs" for b
  proof -
    obtain c cs where c: "?bs = c # cs" using b by (cases ?bs) auto
    then have "\<not> unat c < k" by (metis hd_dropWhile list.distinct(1) list.sel(1))
    moreover have "sorted_wrt (\<lambda>x y. unat x < unat y) (?as @ c # cs)" using assms(1) c by (metis takeWhile_dropWhile_id)
    then have "b = c \<or> unat c < unat b" using b c by (auto simp: sorted_wrt_append)
    moreover have "unat b \<noteq> k" using b assms(2) by (metis set_dropWhileD)
    ultimately show ?thesis by auto
  qed
  moreover have "\<forall>a \<in> set ?as. unat a < k" by (auto dest: set_takeWhileD)
  ultimately show thesis using that [of ?as ?bs] by simp
qed

text \<open>What \<open>free\<close> knows when it joins: \<open>bp\<close> is a block between the free blocks \<open>as\<close> and \<open>bs\<close>.\<close>

definition between :: "u32 \<Rightarrow> mem \<Rightarrow> u32 list \<Rightarrow> u32 \<Rightarrow> u32 list \<Rightarrow> bool" where
  "between base m as bp bs \<longleftrightarrow> ring base (load32 m) (hsize m) (as @ bs) \<and> 0 < unat (hsize m bp) \<and> unat base + 8 \<le> unat bp
     \<and> (\<forall>a \<in> set as. past (hsize m) a \<le> unat bp) \<and> (\<forall>b \<in> set bs. past (hsize m) bp \<le> unat b)
     \<and> (\<forall>x \<in> set (bp # as @ bs). past (hsize m) x \<le> 2 ^ 31)"

lemma between_low: "between base m as bp bs \<Longrightarrow> low base \<and> low bp"
  by (auto simp: between_def low_def past_def)

lemma between_clear:
  assumes "between base m as bp bs" "x \<in> set (base # bp # as @ bs)" "y \<in> set (base # bp # as @ bs)"
  shows "clear x y"
proof -
  have r: "clear x y" if "x \<in> set (base # as @ bs)" "y \<in> set (base # as @ bs)" for x y
    by (rule ring_clear [of base "load32 m" "hsize m" "as @ bs"]) (use assms(1) between_low that in \<open>auto simp: between_def\<close>)
  have "clear bp z \<and> clear z bp" if z: "z \<in> set (base # as @ bs)" for z
  proof -
    have "low z" using r [OF z z] by (simp add: clear_def)
    moreover have "apart bp z"
    proof -
      consider "z = base" | "z \<in> set as" | "z \<in> set bs" using z by auto
      then show ?thesis
      proof cases
        case 1
        then show ?thesis using assms(1) by (simp add: between_def apart_def)
      next
        case 2
        then have "past (hsize m) z \<le> unat bp" "0 < unat (hsize m z)" using assms(1) by (auto simp: between_def ring_def)
        then show ?thesis by (simp add: apart_def past_def)
      next
        case 3
        then have "past (hsize m) bp \<le> unat z" "0 < unat (hsize m bp)" using assms(1) by (auto simp: between_def)
        then show ?thesis by (simp add: apart_def past_def)
      qed
    qed
    ultimately show ?thesis using between_low [OF assms(1)] by (auto simp: clear_def apart_def)
  qed
  then show ?thesis using assms(2,3) r between_low [OF assms(1)] by (auto simp: clear_def)
qed

text \<open>
  The list after \<open>free\<close>: \<open>bp\<close> takes in the block after it and is taken in by the one before it where they touch. What is outside
  \<open>bp\<close> and the free blocks, a range of addresses from \<open>u\<close> to below \<open>v\<close>, stays outside.
\<close>

definition outside :: "(u32 \<Rightarrow> u32) \<Rightarrow> u32 list \<Rightarrow> nat \<Rightarrow> nat \<Rightarrow> bool" where
  "outside Z xs u v \<longleftrightarrow> (\<forall>x \<in> set xs. past Z x \<le> u \<or> v \<le> unat x)"

text \<open>
  \<open>P1\<close> and \<open>Z1\<close>: pointer and size of \<open>bp\<close> once it has taken in the block after it, if it touches it. Seen with \<open>bp\<close> grown and that
  block taken out, the list is still a ring.
\<close>

definition taken :: "mem \<Rightarrow> u32 \<Rightarrow> u32 \<Rightarrow> u32 \<Rightarrow> u32 \<Rightarrow> bool" where
  "taken m bp c P1 Z1 \<longleftrightarrow>
     (if bp + 8 * hsize m bp = c then P1 = hptr m c \<and> Z1 = hsize m bp + hsize m c else P1 = c \<and> Z1 = hsize m bp)"

lemma taken_ex: "\<exists>P1 Z1. taken m bp c P1 Z1"
  by (cases "bp + 8 * hsize m bp = c") (simp_all add: taken_def)

lemma next_taken:
  assumes "between base m as bp bs" "p = last (base # as)" "taken m bp (hptr m p) P1 Z1"
  shows "\<exists>bs'. ring base ((load32 m)(p := P1)) ((hsize m)(bp := Z1)) (as @ bs') \<and> (\<forall>b \<in> set bs'. unat bp + 8 * unat Z1 < unat b)
    \<and> set bs' \<subseteq> set bs \<and> hd (bs' @ [base]) = P1 \<and> unat (hsize m bp) \<le> unat Z1 \<and> unat bp + 8 * unat Z1 \<le> 2 ^ 31
    \<and> (\<forall>u v. u < v \<and> outside (hsize m) (bp # bs) u v \<longrightarrow> unat bp + 8 * unat Z1 \<le> u \<or> v \<le> unat bp)"
proof -
  let ?Z = "hsize m" and ?P = "load32 m"
  define c where "c = hptr m p"
  have r: "ring base ?P ?Z (as @ bs)" using assms(1) by (simp add: between_def)
  have n: "bp \<notin> set (base # as @ bs)" using assms(1) by (fastforce simp: between_def ring_def past_def)
  have c: "c = hd (bs @ [base])" using ring_next [OF r] assms(2) by (simp add: c_def)
  have bb: "past ?Z bp \<le> 2 ^ 31" using assms(1) by (simp add: between_def)
  have e: "unat (bp + 8 * ?Z bp) = past ?Z bp" unfolding past_def by (rule unat_end) (use bb in \<open>simp add: past_def\<close>)
  show ?thesis
  proof (cases "bp + 8 * ?Z bp = c")
    case True
    then have 1: "P1 = hptr m c" "Z1 = ?Z bp + ?Z c" using assms(3) by (simp_all add: taken_def c_def)
    have cu: "unat c = past ?Z bp" using e True by simp
    have "c \<noteq> base" using cu assms(1) by (auto simp: between_def past_def)
    then obtain bs' where bs: "bs = c # bs'" using c by (cases bs) auto
    have rc: "ring base ?P ?Z (as @ c # bs')" using r bs by simp
    have cc: "past ?Z c \<le> 2 ^ 31" using assms(1) bs by (simp add: between_def)
    then have u: "unat Z1 = unat (?Z bp) + unat (?Z c)" using cu 1 by (simp add: past_def unat_word_ariths)
    then have pc: "unat bp + 8 * unat Z1 = past ?Z c" using cu by (simp add: past_def)
    have "ring base (?P(p := P1)) ?Z (as @ bs')" using ring_remove [OF rc] assms(2) 1 by simp
    then have "ring base (?P(p := P1)) (?Z(bp := Z1)) (as @ bs')" by (rule ring_cong) (use n bs in auto)
    moreover have "\<forall>b \<in> set bs'. past ?Z c < unat b" using rc by (auto simp: ring_def sorted_wrt_append)
    moreover have "hd (bs' @ [base]) = P1" using ring_next [of base ?P ?Z "as @ [c]" bs'] rc 1 by simp
    moreover have "past ?Z c \<le> u \<or> v \<le> unat bp" if "u < v" "outside ?Z (bp # bs) u v" for u v
      using that cu bs by (auto simp: outside_def)
    ultimately show ?thesis using pc cc u bs by (intro exI [of _ bs']) auto
  next
    case False
    then have 1: "P1 = c" "Z1 = ?Z bp" using assms(3) by (simp_all add: taken_def c_def)
    have ne: "unat c \<noteq> past ?Z bp" using e False word_unat_eq_iff by metis
    have "past ?Z bp < unat b" if b: "b \<in> set bs" for b
    proof -
      have "unat c \<le> unat b" "c \<in> set bs" using b c r by (cases bs; auto simp: ring_def sorted_wrt_append past_def)+
      moreover have "past ?Z bp \<le> unat c" using assms(1) calculation(2) by (simp add: between_def)
      ultimately show ?thesis using ne by simp
    qed
    moreover have "?P(p := P1) = ?P" "?Z(bp := Z1) = ?Z" using 1 by (simp_all add: fun_upd_idem c_def)
    ultimately show ?thesis using r c 1 bb by (intro exI [of _ bs]) (auto simp: past_def outside_def)
  qed
qed

text \<open>The fields after both steps.\<close>

lemma join_fields:
  assumes "between base m as bp bs" "p = last (base # as)" "taken m bp (hptr m p) P1 Z1" "y \<in> set (base # bp # as @ bs)"
  shows "hptr (join_prev (join_next m p bp) p bp) y =
      (if y = p then if p + 8 * hsize m p = bp then P1 else bp else if y = bp then P1 else hptr m y)"
    "hsize (join_prev (join_next m p bp) p bp) y =
      (if y = p \<and> p + 8 * hsize m p = bp then hsize m p + Z1 else if y = bp then Z1 else hsize m y)"
proof -
  have r: "ring base (load32 m) (hsize m) (as @ bs)" using assms(1) by (simp add: between_def)
  have p: "p \<in> set (base # as)" unfolding assms(2) by (rule last_in_set) simp
  have "hptr m p = hd (bs @ [base])" using ring_next [OF r] assms(2) by simp
  then have c: "hptr m p \<in> set (base # bs)" by (cases bs) auto
  have n: "p \<noteq> bp" using p assms(1) by (fastforce simp: between_def ring_def past_def)
  have cl: "clear bp p" "clear bp (hptr m p)" "clear bp y" "clear p bp" "clear p y" "clear bp bp"
    using between_clear [OF assms(1)] p c assms(4) by auto
  note f = join_next_fields [OF cl(1,2)]
  show "hptr (join_prev (join_next m p bp) p bp) y =
      (if y = p then if p + 8 * hsize m p = bp then P1 else bp else if y = bp then P1 else hptr m y)"
    "hsize (join_prev (join_next m p bp) p bp) y =
      (if y = p \<and> p + 8 * hsize m p = bp then hsize m p + Z1 else if y = bp then Z1 else hsize m y)"
    unfolding join_prev_fields [OF cl(4,5)] f [OF cl(6)] f [OF cl(3)] f [OF cl(1)] using n assms(3) by (auto simp: taken_def)
qed

lemma join_ring:
  assumes "between base m as bp bs" "p = last (base # as)" "m' = join_prev (join_next m p bp) p bp"
  shows "\<exists>xs. ring base (load32 m') (hsize m') xs \<and> p \<in> set (base # xs) \<and> (\<exists>x \<in> set xs. unat (hsize m bp) \<le> unat (hsize m' x))
    \<and> set xs \<subseteq> insert bp (set (as @ bs)) \<and> (\<forall>u v. u < v \<and> outside (hsize m) (bp # as @ bs) u v \<longrightarrow> outside (hsize m') xs u v)"
proof -
  let ?P = "load32 m" and ?Z = "hsize m"
  obtain P1 Z1 where t1: "taken m bp (hptr m p) P1 Z1" using taken_ex by blast
  obtain bs' where t: "ring base (?P(p := P1)) (?Z(bp := Z1)) (as @ bs')" "\<forall>b \<in> set bs'. unat bp + 8 * unat Z1 < unat b"
    "set bs' \<subseteq> set bs" "hd (bs' @ [base]) = P1" "unat (hsize m bp) \<le> unat Z1" "unat bp + 8 * unat Z1 \<le> 2 ^ 31"
    "\<And>u v. u < v \<Longrightarrow> outside ?Z (bp # bs) u v \<Longrightarrow> unat bp + 8 * unat Z1 \<le> u \<or> v \<le> unat bp"
    using next_taken [OF assms(1,2) t1] by blast
  have f: "hptr m' y = (if y = p then if p + 8 * ?Z p = bp then P1 else bp else if y = bp then P1 else ?P y)"
    "hsize m' y = (if y = p \<and> p + 8 * ?Z p = bp then ?Z p + Z1 else if y = bp then Z1 else ?Z y)" if "y \<in> set (base # bp # as @ bs)" for y
    using join_fields [OF assms(1,2) t1 that] assms(3) by simp_all
  have n: "bp \<notin> set (base # as @ bs)" using assms(1) by (fastforce simp: between_def ring_def past_def)
  have p: "p \<in> set (base # as)" unfolding assms(2) by (rule last_in_set) simp
  then have pn: "p \<noteq> bp" and pin: "p \<in> set (base # bp # as @ bs)" using n by auto
  have r: "ring base ?P ?Z (as @ bs)" using assms(1) by (simp add: between_def)
  have pp: "unat (p + 8 * ?Z p) = past ?Z p"
    unfolding past_def by (rule unat_end) (use p assms(1) between_low [OF assms(1)] in \<open>auto simp: between_def past_def ring_def low_def\<close>)
  show ?thesis
  proof (cases "p + 8 * ?Z p = bp")
    case False
    have lt: "past ?Z a < unat bp" if a: "a \<in> set as" for a
    proof -
      obtain as0 where as0: "as = as0 @ [p]" using a assms(2) by (metis append_butlast_last_id empty_iff empty_set last_ConsR)
      have "past ?Z p \<le> unat bp" using assms(1) as0 by (simp add: between_def)
      moreover have "past ?Z p \<noteq> unat bp" using False pp by (metis word_unat_eq_iff)
      moreover have "a \<noteq> p \<Longrightarrow> past ?Z a < unat p" using a as0 r by (auto simp: ring_def sorted_wrt_append)
      moreover have "unat p \<le> past ?Z p" by (simp add: past_def)
      ultimately show ?thesis by (cases "a = p") auto
    qed
    then have "\<forall>a \<in> set as. past (?Z(bp := Z1)) a < unat bp" using n by (auto simp: past_def)
    then have "ring base (?P(p := P1, p := bp, bp := P1)) (?Z(bp := Z1)) (as @ bp # bs')"
      using ring_insert [OF t(1), of bp] t(2,4,5) assms(1,2) by (simp add: between_def past_def)
    then have "ring base (load32 m') (hsize m') (as @ bp # bs')"
    proof (rule ring_cong)
      fix y
      assume "y \<in> set (base # as @ bp # bs')"
      then have "y \<in> set (base # bp # as @ bs)" using t(3) by auto
      from f [OF this] False show "load32 m' y = (?P(p := P1, p := bp, bp := P1)) y \<and> hsize m' y = (?Z(bp := Z1)) y" using pn by simp
    qed
    moreover have "unat (?Z bp) \<le> unat (hsize m' bp)" using f(2) [of bp] t(5) False pn by simp
    moreover have "outside (hsize m') (as @ bp # bs') u v" if o: "u < v" "outside ?Z (bp # as @ bs) u v" for u v
    proof -
      have "past (hsize m') x = past ?Z x" if "x \<in> set (as @ bs)" for x using f(2) [of x] False n that by (auto simp: past_def)
      moreover have "past (hsize m') bp = unat bp + 8 * unat Z1" using f(2) [of bp] False pn by (simp add: past_def)
      moreover have "unat bp + 8 * unat Z1 \<le> u \<or> v \<le> unat bp" using t(7) [OF o(1)] o(2) by (simp add: outside_def)
      ultimately show ?thesis using o(2) t(3) unfolding outside_def by fastforce
    qed
    ultimately show ?thesis using t(3) p by (intro exI [of _ "as @ bp # bs'"]) auto
  next
    case True
    have "p \<noteq> base" using True r n by (auto simp: ring_def)
    then obtain as0 where as0: "as = as0 @ [p]" using assms(2) by (metis append_butlast_last_id last.simps)
    have pb: "past ?Z p = unat bp" using pp True by simp
    let ?k = "?Z p + Z1"
    have k: "unat ?k = unat (?Z p) + unat Z1" using pb t(6) by (simp add: past_def unat_word_ariths)
    then have kb: "unat p + 8 * unat ?k = unat bp + 8 * unat Z1" using pb by (simp add: past_def)
    have "ring base (?P(p := P1)) (?Z(bp := Z1, p := ?k)) (as0 @ p # bs')"
      by (rule ring_resize) (use t(1,2,5) as0 kb k assms(1) in \<open>auto simp: between_def\<close>)
    then have "ring base (load32 m') (hsize m') (as0 @ p # bs')"
    proof (rule ring_cong)
      fix y
      assume y: "y \<in> set (base # as0 @ p # bs')"
      then have "y \<in> set (base # bp # as @ bs)" "y \<noteq> bp" using t(3) n as0 by auto
      with f [of y] True show "load32 m' y = (?P(p := P1)) y \<and> hsize m' y = (?Z(bp := Z1, p := ?k)) y" by simp
    qed
    moreover have "unat (?Z bp) \<le> unat (hsize m' p)" using f(2) [OF pin] t(5) True k by simp
    moreover have "outside (hsize m') (as0 @ p # bs') u v" if o: "u < v" "outside ?Z (bp # as @ bs) u v" for u v
    proof -
      have "past (hsize m') x = past ?Z x" if "x \<in> set (as @ bs)" "x \<noteq> p" for x using f(2) [of x] n that by (auto simp: past_def)
      moreover have "past (hsize m') p = unat bp + 8 * unat Z1" using f(2) [OF pin] True kb by (simp add: past_def)
      moreover have "unat bp + 8 * unat Z1 \<le> u \<or> v \<le> unat bp" using t(7) [OF o(1)] o(2) by (simp add: outside_def)
      moreover have "unat bp \<le> u \<or> v \<le> unat p" using o(2) as0 pb by (simp add: outside_def)
      ultimately show ?thesis using o t(3) as0 unfolding outside_def by fastforce
    qed
    ultimately show ?thesis using t(3) as0 by (intro exI [of _ "as0 @ p # bs'"]) auto
  qed
qed

lemma block_keeps:
  assumes "list_all (block_ok base xs s) L" "unat (u_brk s) \<le> 2 ^ 31" "keeps L (u_mem s) (u_mem s')" "unat (u_brk s) \<le> unat (u_brk s')"
    and "\<And>b n. (b, n) \<in> set L \<Longrightarrow> outside (hsize (u_mem s')) xs' (unat b) (unat b + 8 * n)"
  shows "list_all (block_ok base xs' s') L"
  unfolding list_all_iff
proof (rule ballI)
  fix bn
  assume bn: "bn \<in> set L"
  obtain b n where e: "bn = (b, n)" by fastforce
  have ok: "block_ok base xs s (b, n)" using assms(1) bn e by (simp add: list_all_iff)
  then have "hsize (u_mem s') b = hsize (u_mem s) b" using keeps_size [OF assms(3), of b n] bn e assms(2) by (simp add: block_ok_def)
  then show "block_ok base xs' s' bn" using ok assms(4) assms(5) [of b n] bn e by (simp add: block_ok_def outside_def)
qed

lemma free_between:
  assumes "heap_ok base xs ((bp, n) # L) s"
  obtains as bs where "xs = as @ bs" "between base (u_mem s) as bp bs" "\<forall>a \<in> set (base # as). unat a < unat bp" "\<forall>b \<in> set bs. unat bp < unat b"
proof -
  let ?Z = "hsize (u_mem s)"
  have r: "ring base (load32 (u_mem s)) ?Z xs" using assms by (simp add: heap_ok_def)
  have bk: "block_ok base xs s (bp, n)" using assms by (simp add: heap_ok_def)
  have d: "past ?Z x \<le> unat bp \<or> past ?Z bp \<le> unat x" if "x \<in> set xs" for x using bk that by (auto simp: block_ok_def past_def)
  have z: "0 < unat (?Z bp)" "\<And>x. x \<in> set xs \<Longrightarrow> 0 < unat (?Z x)" using bk r by (auto simp: block_ok_def ring_def)
  have "sorted_wrt (\<lambda>x y. unat x < unat y) xs" using ring_sorted [OF r] by simp
  moreover have "\<forall>x \<in> set xs. unat x \<noteq> unat bp"
  proof
    fix x
    assume x: "x \<in> set xs"
    show "unat x \<noteq> unat bp" using d [OF x] z(1) z(2) [OF x] unfolding past_def by linarith
  qed
  ultimately obtain as bs where ab: "xs = as @ bs" "\<forall>a \<in> set as. unat a < unat bp" "\<forall>b \<in> set bs. unat bp < unat b" by (rule chunk_split)
  have "past ?Z a \<le> unat bp" if "a \<in> set as" for a using d [of a] ab(1) bspec [OF ab(2) that] that by (auto simp: past_def)
  moreover have "past ?Z bp \<le> unat b" if "b \<in> set bs" for b using d [of b] ab(1) bspec [OF ab(3) that] that by (auto simp: past_def)
  moreover have "past ?Z bp \<le> unat (u_brk s)" "\<forall>x \<in> set (as @ bs). past ?Z x \<le> unat (u_brk s)" "unat (u_brk s) \<le> 2 ^ 31"
    using assms ab(1) bk by (auto simp: heap_ok_def block_ok_def past_def)
  then have "past ?Z x \<le> 2 ^ 31" if "x \<in> set (bp # as @ bs)" for x
    using that by (cases "x = bp") (auto intro: order.trans [of _ "unat (u_brk s)"])
  ultimately have "between base (u_mem s) as bp bs" using r z ab(1) bk by (simp add: between_def block_ok_def)
  then show thesis using that [OF ab(1)] ab bk by (simp add: block_ok_def)
qed

lemma ufree_ok:
  assumes "heap_ok base xs ((bp, n) # L) s"
  shows "\<exists>xs' s'. ufree (bp + 8) s = Some s' \<and> heap_ok base xs' L s' \<and> keeps L (u_mem s) (u_mem s') \<and> u_brk s' = u_brk s
    \<and> (\<exists>x \<in> set xs'. n \<le> unat (hsize (u_mem s') x))"
proof -
  obtain as bs where ab: "xs = as @ bs" "between base (u_mem s) as bp bs" "\<forall>a \<in> set (base # as). unat a < unat bp" "\<forall>b \<in> set bs. unat bp < unat b"
    by (rule free_between [OF assms])
  let ?m = "u_mem s" and ?p = "last (base # as)"
  let ?m' = "join_prev (join_next ?m ?p bp) ?p bp"
  let ?s = "s\<lparr>u_mem := ?m', u_freep := ?p\<rparr>"
  have r: "ring base (load32 ?m) (hsize ?m) (as @ bs)" using ab(2) by (simp add: between_def)
  have f: "u_freep s \<in> set (base # as @ bs)" using assms ab(1) by (simp add: heap_ok_def)
  have u: "ufree (bp + 8) s = Some ?s" using free_find_ring [OF r ab(3,4) f] by (simp add: ufree_def Let_def)
  have bk: "block_ok base xs s (bp, n)" "\<And>b k. (b, k) \<in> set L \<Longrightarrow> block_ok base xs s (b, k)" using assms by (auto simp: heap_ok_def list_all_iff)
  have n: "unat (hsize ?m bp) = n" "0 < n" using bk(1) by (simp_all add: block_ok_def)
  obtain xs' where x: "ring base (load32 ?m') (hsize ?m') xs'" "?p \<in> set (base # xs')" "\<exists>x \<in> set xs'. n \<le> unat (hsize ?m' x)"
    "set xs' \<subseteq> insert bp (set (as @ bs))" "\<And>u v. u < v \<Longrightarrow> outside (hsize ?m) (bp # as @ bs) u v \<Longrightarrow> outside (hsize ?m') xs' u v"
    using join_ring [OF ab(2) refl refl] n(1) by blast
  have p: "?p \<in> set (base # as)" by (rule last_in_set) simp
  have brk: "past (hsize ?m) x \<le> unat (u_brk s)" if "x \<in> set (bp # as @ bs)" for x
    using that assms ab(1) bk(1) by (auto simp: heap_ok_def block_ok_def past_def)
  have ap: "unat bp + 8 * n \<le> unat b \<or> unat b + 8 * k \<le> unat bp" if "(b, k) \<in> set L" for b k
    using that assms by (fastforce simp: heap_ok_def blocks_apart_def)
  have k: "keeps L ?m ?m'"
    unfolding keeps_def
  proof (intro ballI, clarify)
    fix b k and c :: u32
    assume b: "(b, k) \<in> set L" "unat b \<le> unat c" "unat c < unat b + 8 * k"
    have "low ?p" "low bp" using between_clear [OF ab(2), of ?p bp] p by (auto simp: clear_def)
    moreover have "unat c < unat bp \<or> unat bp + 8 \<le> unat c" using ap [OF b(1)] b n(2) by auto
    moreover have "unat c < unat ?p \<or> unat ?p + 8 \<le> unat c"
    proof (cases "?p = base")
      case True
      then show ?thesis using bk(2) [OF b(1)] b(2) by (simp add: block_ok_def)
    next
      case False
      then have "?p \<in> set xs" using p ab(1) by auto
      then have "past (hsize ?m) ?p \<le> unat b \<or> unat b + 8 * k \<le> unat ?p" "0 < unat (hsize ?m ?p)"
        using bk(2) [OF b(1)] r ab(1) by (auto simp: block_ok_def ring_def)
      then show ?thesis using b by (auto simp: past_def)
    qed
    ultimately show "?m' c = ?m c" by (intro join_bytes)
  qed
  have "list_all (block_ok base xs' ?s) L"
  proof (rule block_keeps [of base xs s])
    fix b k
    assume b: "(b, k) \<in> set L"
    have "outside (hsize ?m) (bp # as @ bs) (unat b) (unat b + 8 * k)"
      using bk(2) [OF b] ap [OF b] ab(1) n(1) by (auto simp: outside_def block_ok_def past_def)
    moreover have "0 < k" using bk(2) [OF b] by (simp add: block_ok_def)
    ultimately show "outside (hsize (u_mem ?s)) xs' (unat b) (unat b + 8 * k)" using x(5) [of "unat b" "unat b + 8 * k"] by simp
  qed (use assms k in \<open>auto simp: heap_ok_def\<close>)
  moreover have "past (hsize ?m') y \<le> unat (u_brk s)" if y: "y \<in> set xs'" for y
  proof -
    have "outside (hsize ?m) (bp # as @ bs) (unat (u_brk s)) (unat (u_brk s) + 1)" using brk by (auto simp: outside_def)
    then have "past (hsize ?m') y \<le> unat (u_brk s) \<or> unat (u_brk s) + 1 \<le> unat y" using x(5) [of "unat (u_brk s)" "unat (u_brk s) + 1"] y by (auto simp: outside_def)
    moreover have "unat y \<le> unat (u_brk s)" using brk [of y] x(4) y by (auto simp: past_def)
    ultimately show ?thesis by simp
  qed
  ultimately have "heap_ok base xs' L ?s" using assms x(1,2) by (simp add: heap_ok_def blocks_apart_def)
  then show ?thesis using u k x(3) by (intro exI [of _ xs'] exI [of _ ?s]) simp
qed

section \<open>malloc\<close>

lemma heap_bounds:
  assumes "heap_ok base xs L s"
  shows "(\<forall>x \<in> set xs. past (hsize (u_mem s)) x \<le> 2 ^ 31) \<and> low base"
proof (intro conjI ballI)
  fix x
  assume "x \<in> set xs"
  then have "past (hsize (u_mem s)) x \<le> unat (u_brk s)" "unat (u_brk s) \<le> 2 ^ 31" using assms by (simp_all add: heap_ok_def)
  then show "past (hsize (u_mem s)) x \<le> 2 ^ 31" by (rule order.trans)
qed (use assms in \<open>simp add: heap_ok_def low_def\<close>)

text \<open>
  What taking a block from the free block \<open>p\<close> does: the block taken is the tail of \<open>p\<close>, the rest of \<open>p\<close> if any stays free, and no byte
  outside the free blocks and the static header changes.
\<close>

definition took :: "u32 \<Rightarrow> u32 list \<Rightarrow> u32 \<Rightarrow> u32 \<Rightarrow> uheap \<Rightarrow> uheap \<Rightarrow> u32 list \<Rightarrow> u32 \<Rightarrow> bool" where
  "took base xs p nunits s s' xs' q \<longleftrightarrow>
     unat p \<le> unat q \<and> unat q + 8 * unat nunits = past (hsize (u_mem s)) p
     \<and> ring base (load32 (u_mem s')) (hsize (u_mem s')) xs' \<and> hsize (u_mem s') q = nunits \<and> u_freep s' \<in> set (base # xs') \<and> u_brk s' = u_brk s
     \<and> (\<forall>x \<in> set xs'. x = p \<and> past (hsize (u_mem s')) p = unat q \<or> x \<in> set xs \<and> x \<noteq> p \<and> hsize (u_mem s') x = hsize (u_mem s) x)
     \<and> (\<forall>c. unat base + 8 \<le> unat c \<and> outside (hsize (u_mem s)) xs (unat c) (Suc (unat c)) \<longrightarrow> u_mem s' c = u_mem s c)"

lemma outside_header:
  assumes "ring base P Z xs" "unat base + 8 \<le> u" "outside Z xs u (Suc u)" "x \<in> set (base # xs)"
  shows "u < unat x \<or> unat x + 8 \<le> u"
proof (cases "x = base")
  case False
  then have x: "x \<in> set xs" using assms(4) by simp
  then have "0 < unat (Z x)" using assms(1) by (simp add: ring_def)
  then show ?thesis using assms(3) x by (auto simp: outside_def past_def)
qed (use assms(2) in simp)

lemma take_whole:
  assumes "heap_ok base (as @ p # bs) L s" "prevp = last (base # as)" "hsize (u_mem s) p = nunits"
  shows "took base (as @ p # bs) p nunits s (s\<lparr>u_mem := set_ptr (u_mem s) prevp (hptr (u_mem s) p), u_freep := prevp\<rparr>) (as @ bs) p"
proof -
  let ?m = "u_mem s" and ?Z = "hsize (u_mem s)" and ?P = "load32 (u_mem s)"
  let ?m' = "set_ptr ?m prevp (hptr ?m p)"
  have r: "ring base ?P ?Z (as @ p # bs)" using assms(1) by (simp add: heap_ok_def)
  have prev: "prevp \<in> set (base # as)" unfolding assms(2) by (rule last_in_set) simp
  have c: "clear prevp x" if "x \<in> set (base # as @ p # bs)" for x
    by (rule ring_clear [OF r]) (use heap_bounds [OF assms(1)] that prev in auto)
  have Z: "hsize ?m' x = ?Z x" if "x \<in> set (base # as @ p # bs)" for x using c [OF that] by (simp add: header_simps)
  have "ring base (load32 ?m') (hsize ?m') (as @ bs)"
  proof (rule ring_cong [OF ring_remove [OF r]])
    fix x
    assume "x \<in> set (base # as @ bs)"
    then have "clear prevp x" using c by auto
    then show "load32 ?m' x = (?P(last (base # as) := ?P p)) x \<and> hsize ?m' x = ?Z x" by (simp add: header_simps assms(2))
  qed
  moreover have "?m' c = ?m c" if o: "unat base + 8 \<le> unat c" "outside ?Z (as @ p # bs) (unat c) (Suc (unat c))" for c
  proof -
    have "low prevp" using c [of p] by (auto simp: clear_def)
    then show ?thesis using header_byte outside_header [OF r o, of prevp] prev by auto
  qed
  moreover have "p \<notin> set (as @ bs)" using ring_distinct [OF r] by auto
  ultimately show ?thesis using prev Z assms(3) by (auto simp: took_def past_def)
qed

lemma take_tail:
  assumes "heap_ok base (as @ p # bs) L s" "nunits < hsize (u_mem s) p" "0 < unat nunits" "k = hsize (u_mem s) p - nunits" "prevp \<in> set (base # as)"
  shows "took base (as @ p # bs) p nunits s (s\<lparr>u_mem := set_size (set_size (u_mem s) p k) (p + 8 * k) nunits, u_freep := prevp\<rparr>) (as @ p # bs) (p + 8 * k)"
proof -
  let ?m = "u_mem s" and ?Z = "hsize (u_mem s)" and ?P = "load32 (u_mem s)"
  define q where "q = p + 8 * k"
  define m' where "m' = set_size (set_size ?m p k) q nunits"
  have r: "ring base ?P ?Z (as @ p # bs)" and pb: "past ?Z p \<le> 2 ^ 31" using assms(1) heap_bounds [OF assms(1)] by (auto simp: heap_ok_def)
  have pc: "clear p x" if "x \<in> set (base # as @ p # bs)" for x
    by (rule ring_clear [OF r]) (use heap_bounds [OF assms(1)] that in auto)
  have k: "unat k = unat (?Z p) - unat nunits" "unat nunits < unat (?Z p)" using assms(2,4) by (simp_all add: unat_sub word_less_nat_alt order_less_imp_le)
  have qu: "unat q = unat p + 8 * unat k" unfolding q_def by (rule unat_end) (use pb k in \<open>simp add: past_def\<close>)
  have qe: "unat q + 8 * unat nunits = past ?Z p" using qu k by (simp add: past_def)
  have lq: "low q" using qe pb assms(3) by (simp add: low_def)
  have ap: "apart q x" if x: "x \<in> set (base # as @ p # bs)" for x
  proof -
    consider "x = base \<or> x = p" | "x \<in> set as" | "x \<in> set bs" using x by auto
    then show ?thesis
    proof cases
      case 1
      moreover have "unat base + 8 \<le> unat p" using r by (simp add: ring_def)
      ultimately show ?thesis using qu k by (auto simp: apart_def)
    next
      case 2
      then have "past ?Z x < unat p" "0 < unat (?Z x)" using r by (auto simp: ring_def sorted_wrt_append)
      then show ?thesis using qu by (auto simp: apart_def past_def)
    next
      case 3
      then have "past ?Z p < unat x" using r by (auto simp: ring_def sorted_wrt_append)
      then show ?thesis using qe assms(3) by (auto simp: apart_def)
    qed
  qed
  have qc: "clear q x" "x \<noteq> q" if "x \<in> set (base # as @ p # bs)" for x
    using ap [OF that] lq pc [OF that] by (auto simp: clear_def apart_def)
  have f: "load32 m' x = ?P x" "hsize m' x = (?Z(p := k)) x" if "x \<in> set (base # as @ p # bs)" for x
    using qc [OF that] pc [OF that] by (simp_all add: m'_def header_simps)
  have pq: "clear p q" "clear q q" using qc [of p] lq by (auto simp: clear_def apart_def)
  have "ring base ?P (?Z(p := k)) (as @ p # bs)"
  proof (rule ring_resize [OF r])
    have "past ?Z p < unat b" if "b \<in> set bs" for b using r that by (auto simp: ring_def sorted_wrt_append)
    then show "\<forall>b \<in> set bs. unat p + 8 * unat k < unat b" using qe qu by fastforce
  qed (use k in simp)
  then have "ring base (load32 m') (hsize m') (as @ p # bs)" by (rule ring_cong) (use f in blast)
  moreover have "m' c = ?m c" if o: "unat base + 8 \<le> unat c" "outside ?Z (as @ p # bs) (unat c) (Suc (unat c))" for c
  proof -
    have "unat c < unat p \<or> past ?Z p \<le> unat c" using o(2) by (auto simp: outside_def)
    then have "unat c < unat q \<or> unat q + 8 \<le> unat c" "unat c < unat p \<or> unat p + 8 \<le> unat c" using qe qu k assms(3) by (auto simp: past_def)
    then show ?thesis using header_byte [OF lq] header_byte [of p c] pc [of p] by (simp add: m'_def clear_def)
  qed
  moreover have "hsize m' q = nunits" using pq by (simp add: m'_def header_simps)
  moreover have "past (hsize m') p = unat q" using f(2) [of p] qu by (simp add: past_def)
  ultimately show ?thesis using qu qe f(2) assms(5) unfolding q_def [symmetric] m'_def [symmetric] by (auto simp: took_def)
qed

lemma take_block_took:
  assumes "heap_ok base (as @ p # bs) L s" "prevp = last (base # as)" "nunits \<le> hsize (u_mem s) p" "0 < unat nunits"
  shows "\<exists>s' xs' q. take_block nunits prevp p s = (s', q + 8) \<and> took base (as @ p # bs) p nunits s s' xs' q"
proof (cases "hsize (u_mem s) p = nunits")
  case True
  from take_whole [OF assms(1,2) True] show ?thesis using True by (auto simp: take_block_def Let_def)
next
  case False
  then have lt: "nunits < hsize (u_mem s) p" using assms(3) by simp
  have prev: "prevp \<in> set (base # as)" unfolding assms(2) by (rule last_in_set) simp
  have r: "ring base (load32 (u_mem s)) (hsize (u_mem s)) (as @ p # bs)" using assms(1) by (simp add: heap_ok_def)
  have "clear p p" by (rule ring_clear [OF r]) (use heap_bounds [OF assms(1)] in auto)
  then have "hsize (set_size (u_mem s) p v) p = v" for v by (simp add: header_simps)
  then show ?thesis using take_tail [OF assms(1) lt assms(4) refl prev] False by (auto simp: take_block_def Let_def)
qed

lemma took_ok:
  assumes "heap_ok base xs L s" "took base xs p nunits s s' xs' q" "p \<in> set xs" "0 < unat nunits"
  shows "heap_ok base xs' ((q, unat nunits) # L) s' \<and> keeps L (u_mem s) (u_mem s')"
proof -
  let ?Z = "hsize (u_mem s)" and ?Z' = "hsize (u_mem s')"
  have t: "unat p \<le> unat q" "unat q + 8 * unat nunits = past ?Z p" "\<And>x. x \<in> set xs' \<Longrightarrow> x = p \<and> past ?Z' p = unat q \<or> x \<in> set xs \<and> x \<noteq> p \<and> ?Z' x = ?Z x"
    "u_brk s' = u_brk s" "\<And>c. unat base + 8 \<le> unat c \<Longrightarrow> outside ?Z xs (unat c) (Suc (unat c)) \<Longrightarrow> u_mem s' c = u_mem s c"
    using assms(2) by (auto simp: took_def)
  have bk: "block_ok base xs s (b, k)" if "(b, k) \<in> set L" for b k using assms(1) that by (auto simp: heap_ok_def list_all_iff)
  have r: "ring base (load32 (u_mem s)) ?Z xs" and brk: "\<And>x. x \<in> set xs \<Longrightarrow> past ?Z x \<le> unat (u_brk s)" using assms(1) by (auto simp: heap_ok_def)
  have keep: "keeps L (u_mem s) (u_mem s')"
    unfolding keeps_def
  proof (intro ballI, clarify)
    fix b k and c :: u32
    assume b: "(b, k) \<in> set L" "unat b \<le> unat c" "unat c < unat b + 8 * k"
    show "u_mem s' c = u_mem s c" by (rule t(5)) (use bk [OF b(1)] b in \<open>auto simp: block_ok_def outside_def\<close>)
  qed
  have ends: "past ?Z' x \<le> past ?Z x" if "x \<in> set xs'" for x using t(2) t(3) [OF that] by (auto simp: past_def)
  have sub: "x \<in> set xs" if "x \<in> set xs'" for x using t(3) [OF that] assms(3) by auto
  have "list_all (block_ok base xs' s') L"
  proof (rule block_keeps [of base xs s])
    fix b k
    assume "(b, k) \<in> set L"
    then show "outside ?Z' xs' (unat b) (unat b + 8 * k)" using bk [of b k] ends sub by (fastforce simp: block_ok_def outside_def)
  qed (use assms(1) keep t(4) in \<open>auto simp: heap_ok_def\<close>)
  moreover have "block_ok base xs' s' (q, unat nunits)"
  proof -
    have "past ?Z' x \<le> unat q \<or> unat q + 8 * unat nunits \<le> unat x" if x: "x \<in> set xs'" for x
    proof (cases "x = p")
      case False
      then have xx: "x \<in> set xs" "?Z' x = ?Z x" using t(3) [OF x] by auto
      have "sorted_wrt (\<lambda>x y. past ?Z x < unat y) xs" using r by (simp add: ring_def)
      then have "past ?Z x < unat p \<or> past ?Z p < unat x"
        using xx(1) assms(3) False by (metis in_set_conv_nth linorder_neqE_nat sorted_wrt_nth_less)
      then show ?thesis using t(1,2) xx(2) by (auto simp: past_def)
    qed (use t(3) [OF x] in auto)
    moreover have "unat base + 8 \<le> unat p" using r assms(3) by (simp add: ring_def)
    ultimately show ?thesis using assms(2,4) t(1,2,4) brk [OF assms(3)] by (simp add: block_ok_def took_def)
  qed
  moreover have "blocks_apart ((q, unat nunits) # L)"
    using assms(1,3) t(1,2) by (fastforce simp: heap_ok_def blocks_apart_def list_all_iff block_ok_def)
  moreover have "past ?Z' x \<le> unat (u_brk s)" if "x \<in> set xs'" for x using ends [OF that] brk [OF sub [OF that]] by simp
  ultimately show ?thesis using assms(1,2) keep by (simp add: heap_ok_def took_def)
qed

text \<open>The loop of \<open>malloc\<close> goes once round the list: it takes a block that is large enough if there is one.\<close>

lemma malloc_walk:
  assumes "chain (load32 (u_mem s)) x ws" "ws \<noteq> []" "last ws = u_freep s" "distinct ws" "\<exists>w \<in> set ws. nunits \<le> hsize (u_mem s) w"
  shows "\<exists>prevp p. p \<in> set ws \<and> prevp \<in> set (x # ws) \<and> hptr (u_mem s) prevp = p \<and> nunits \<le> hsize (u_mem s) p
    \<and> malloc_loop sbrk nunits x (hd ws) s = Some (take_block nunits prevp p s)"
  using assms
proof (induction ws arbitrary: x)
  case (Cons y ws)
  show ?case
  proof (cases "nunits \<le> hsize (u_mem s) y")
    case True
    then show ?thesis using Cons.prems(1) by (subst malloc_loop.simps) auto
  next
    case False
    then have ws: "ws \<noteq> []" "\<exists>w \<in> set ws. nunits \<le> hsize (u_mem s) w" using Cons.prems(5) by auto
    then have "y \<noteq> u_freep s" "hptr (u_mem s) y = hd ws" using Cons.prems by (auto dest: last_in_set) (cases ws; auto)
    then have "malloc_loop sbrk nunits x y s = malloc_loop sbrk nunits y (hd ws) s" using False by (subst malloc_loop.simps) simp
    then show ?thesis using Cons.IH [OF _ ws(1) _ _ ws(2), of y] Cons.prems ws(1) by auto
  qed
qed simp

lemma malloc_round:
  assumes "chain (load32 (u_mem s)) x ws" "ws \<noteq> []" "last ws = u_freep s" "distinct ws" "\<not> (\<exists>w \<in> set ws. nunits \<le> hsize (u_mem s) w)"
  shows "malloc_loop sbrk nunits x (hd ws) s =
    Option.bind (morecore sbrk nunits s) (\<lambda>(s, p). if p = 0 then Some (s, 0) else malloc_loop sbrk nunits p (hptr (u_mem s) p) s)"
  using assms
proof (induction ws arbitrary: x)
  case (Cons y ws)
  have no: "\<not> nunits \<le> hsize (u_mem s) y" using Cons.prems(5) by simp
  show ?case
  proof (cases "ws = []")
    case True
    then show ?thesis using Cons.prems(3) no by (subst malloc_loop.simps) simp
  next
    case False
    then have "u_freep s \<in> set ws" using Cons.prems(3) last_in_set [of ws] by simp
    then have y: "y \<noteq> u_freep s" using Cons.prems(4) by auto
    have "hptr (u_mem s) y = hd ws" using Cons.prems(1) False by (cases ws) simp_all
    then have "malloc_loop sbrk nunits x y s = malloc_loop sbrk nunits y (hd ws) s" using no y by (subst malloc_loop.simps) simp
    then show ?thesis using Cons.IH [of y] Cons.prems False by simp
  qed
qed simp

lemma ring_pred:
  assumes "ring base P Z xs" "x \<in> set (base # xs)" "P x \<noteq> base"
  obtains as bs where "xs = as @ P x # bs" "x = last (base # as)"
proof -
  obtain us vs where uv: "base # xs = us @ x # vs" using split_list [OF assms(2)] by auto
  have "P x = hd (vs @ [base])" by (rule ring_succ [OF assms(1) uv])
  then obtain bs where "vs = P x # bs" using assms(3) by (cases vs) auto
  then have e: "base # xs = (us @ [x]) @ P x # bs" using uv by simp
  show thesis
  proof (rule that [of "tl (us @ [x])" bs])
    show "xs = tl (us @ [x]) @ P x # bs" using e by (cases us) auto
    show "x = last (base # tl (us @ [x]))" using e by (cases us) auto
  qed
qed

lemma heap_round:
  assumes "heap_ok base xs L s"
  obtains ws where "chain (load32 (u_mem s)) (u_freep s) ws" "ws \<noteq> []" "last ws = u_freep s" "distinct ws" "set ws = set (base # xs)"
    "hd ws = hptr (u_mem s) (u_freep s)"
proof -
  have h: "ring base (load32 (u_mem s)) (hsize (u_mem s)) xs" "u_freep s \<in> set (base # xs)" using assms by (simp_all add: heap_ok_def)
  obtain ws where ws: "chain (load32 (u_mem s)) (u_freep s) (ws @ [u_freep s])" "set (ws @ [u_freep s]) = set (base # xs)" "distinct (ws @ [u_freep s])"
    by (rule ring_rotate [OF h])
  show thesis by (rule that [OF ws(1) _ _ ws(3,2)]) (use chain_hd [OF ws(1)] in simp_all)
qed

lemma malloc_search:
  assumes "heap_ok base xs L s" "0 < unat nunits" "\<exists>x \<in> set xs. nunits \<le> hsize (u_mem s) x"
  shows "\<exists>s' xs' q. malloc_loop sbrk nunits (u_freep s) (hptr (u_mem s) (u_freep s)) s = Some (s', q + 8)
    \<and> heap_ok base xs' ((q, unat nunits) # L) s' \<and> keeps L (u_mem s) (u_mem s')"
proof -
  obtain ws where ws: "chain (load32 (u_mem s)) (u_freep s) ws" "ws \<noteq> []" "last ws = u_freep s" "distinct ws" "set ws = set (base # xs)"
    "hd ws = hptr (u_mem s) (u_freep s)" by (rule heap_round [OF assms(1)])
  have "\<exists>w \<in> set ws. nunits \<le> hsize (u_mem s) w" using assms(3) ws(5) by auto
  from malloc_walk [OF ws(1-4) this, of sbrk] ws(6)
  obtain prevp where w: "hptr (u_mem s) prevp \<in> set ws" "prevp \<in> set (u_freep s # ws)" "nunits \<le> hsize (u_mem s) (hptr (u_mem s) prevp)"
    "malloc_loop sbrk nunits (u_freep s) (hptr (u_mem s) (u_freep s)) s = Some (take_block nunits prevp (hptr (u_mem s) prevp) s)" by auto
  have r: "ring base (load32 (u_mem s)) (hsize (u_mem s)) xs" using assms(1) by (simp add: heap_ok_def)
  have "hsize (u_mem s) base = 0" using r by (simp add: ring_def)
  then have nb: "hptr (u_mem s) prevp \<noteq> base" using w(3) assms(2) by (auto simp: word_le_nat_alt)
  have "prevp \<in> set (base # xs)" using w(2) ws(2,3,5) last_in_set [OF ws(2)] by auto
  from ring_pred [OF r this nb] obtain as bs where ab: "xs = as @ hptr (u_mem s) prevp # bs" "prevp = last (base # as)" by blast
  have ok: "heap_ok base (as @ hptr (u_mem s) prevp # bs) L s" using assms(1) ab(1) by simp
  obtain s' xs' q where t: "take_block nunits prevp (hptr (u_mem s) prevp) s = (s', q + 8)" "took base (as @ hptr (u_mem s) prevp # bs) (hptr (u_mem s) prevp) nunits s s' xs' q"
    using take_block_took [OF ok ab(2) w(3) assms(2)] by blast
  show ?thesis using took_ok [OF ok t(2) _ assms(2)] w(4) t(1) by auto
qed

text \<open>The kernel's promise on \<open>sbrk\<close>: the break moves by what was asked for and stays below \<open>KERNBASE\<close>.\<close>

definition sbrk_ok :: "sbrk \<Rightarrow> bool" where
  "sbrk_ok sbrk \<longleftrightarrow> (\<forall>b n b'. sbrk b n = Some b' \<longrightarrow> unat b' = unat b + unat n \<and> unat b' \<le> 2 ^ 31)"

lemma grow_ok:
  assumes "heap_ok base xs L s" "unat b = unat (u_brk s) + 8 * unat nu" "unat b \<le> 2 ^ 31" "0 < unat nu"
  shows "heap_ok base xs ((u_brk s, unat nu) # L) (s\<lparr>u_brk := b, u_mem := set_size (u_mem s) (u_brk s) nu\<rparr>) \<and> keeps L (u_mem s) (set_size (u_mem s) (u_brk s) nu)"
proof -
  let ?m = "u_mem s" and ?hp = "u_brk s" and ?m' = "set_size (u_mem s) (u_brk s) nu" and ?s = "s\<lparr>u_brk := b, u_mem := set_size (u_mem s) (u_brk s) nu\<rparr>"
  have r: "ring base (load32 ?m) (hsize ?m) xs" and bk: "\<And>x. x \<in> set xs \<Longrightarrow> past (hsize ?m) x \<le> unat ?hp" "unat base + 8 \<le> unat ?hp"
    and live: "list_all (block_ok base xs s) L" "blocks_apart L"
    using assms(1) by (auto simp: heap_ok_def)
  have low: "low ?hp" using assms(2-4) by (simp add: low_def)
  have cl: "clear ?hp x" "x \<noteq> ?hp" if x: "x \<in> set (base # xs)" for x
  proof -
    have "clear x x" by (rule ring_clear [OF r]) (use heap_bounds [OF assms(1)] x in auto)
    moreover have "unat x + 8 \<le> unat ?hp" using x bk r by (fastforce simp: ring_def past_def)
    ultimately show "clear ?hp x" "x \<noteq> ?hp" using low by (auto simp: clear_def apart_def)
  qed
  have Z: "hsize ?m' x = hsize ?m x \<and> load32 ?m' x = load32 ?m x" if "x \<in> set (base # xs)" for x using cl [OF that] by (simp add: header_simps)
  have r': "ring base (load32 ?m') (hsize ?m') xs" by (rule ring_cong [OF r]) (use Z in blast)
  have Zh: "hsize ?m' ?hp = nu" using low by (simp add: header_simps clear_def)
  have ends: "past (hsize ?m') x \<le> unat ?hp" if "x \<in> set xs" for x using bk(1) [OF that] Z [of x] that by (simp add: past_def)
  have keep: "keeps L ?m ?m'" unfolding keeps_def
    using live(1) header_byte [OF low] by (auto simp: list_all_iff block_ok_def)
  have "list_all (block_ok base xs ?s) L"
    by (rule block_keeps [OF live(1)]) (use assms(1-3) keep live(1) Z in \<open>auto simp: heap_ok_def list_all_iff block_ok_def outside_def past_def\<close>)
  moreover have "block_ok base xs ?s (?hp, unat nu)" using ends Zh assms(2,4) bk(2) by (simp add: block_ok_def)
  moreover have "blocks_apart ((?hp, unat nu) # L)" using live by (auto simp: blocks_apart_def list_all_iff block_ok_def)
  moreover have "past (hsize ?m') x \<le> unat b" if "x \<in> set xs" for x using ends [OF that] assms(2) by simp
  ultimately show ?thesis using r' keep assms(1-3) bk(2) by (simp add: heap_ok_def)
qed

lemma keeps_trans: "keeps L m1 m2 \<Longrightarrow> keeps L m2 m3 \<Longrightarrow> keeps L m1 m3"
  by (fastforce simp: keeps_def)

lemma keeps_refl [simp]: "keeps L m m"
  by (simp add: keeps_def)

lemma heap_freep: "heap_ok base xs L s \<Longrightarrow> u_freep s \<noteq> 0"
  by (auto simp: heap_ok_def ring_def)

lemma block_addr: "heap_ok base xs ((q, n) # L) s \<Longrightarrow> unat (q + 8) = unat q + 8 \<and> unat base + 8 \<le> unat q \<and> unat q + 8 * n \<le> unat (u_brk s)"
  by (auto simp: heap_ok_def block_ok_def low_def intro!: low_add(2))

definition more_units :: "u32 \<Rightarrow> u32" where
  "more_units nunits = (if nunits < 4096 then 4096 else nunits)"

lemma morecore_ok:
  assumes "heap_ok base xs L s" "sbrk_ok sbrk" "unat nunits < 2 ^ 28"
  shows "morecore sbrk nunits s = Some (s, 0) \<and> sbrk (u_brk s) (more_units nunits * 8) = None
    \<or> (\<exists>s' xs'. morecore sbrk nunits s = Some (s', u_freep s') \<and> heap_ok base xs' L s' \<and> keeps L (u_mem s) (u_mem s')
         \<and> (\<exists>x \<in> set xs'. nunits \<le> hsize (u_mem s') x))"
proof -
  define nu :: u32 where "nu = more_units nunits"
  have nu: "nunits \<le> nu" "0 < unat nu" "unat (nu * 8) = 8 * unat nu"
    using assms(3) by (auto simp: nu_def more_units_def unat_word_ariths word_less_nat_alt word_le_nat_alt)
  show ?thesis
  proof (cases "sbrk (u_brk s) (nu * 8)")
    case None
    then show ?thesis by (auto simp: morecore_def Let_def nu_def more_units_def)
  next
    case (Some b)
    have "unat b = unat (u_brk s) + unat (nu * 8) \<and> unat b \<le> 2 ^ 31" using Some assms(2) unfolding sbrk_ok_def by blast
    then have b: "unat b = unat (u_brk s) + 8 * unat nu" "unat b \<le> 2 ^ 31" using nu(3) by simp_all
    let ?s = "s\<lparr>u_brk := b, u_mem := set_size (u_mem s) (u_brk s) nu\<rparr>"
    have g: "heap_ok base xs ((u_brk s, unat nu) # L) ?s" "keeps L (u_mem s) (u_mem ?s)" using grow_ok [OF assms(1) b nu(2)] by simp_all
    from ufree_ok [OF g(1)] obtain xs' s' where u: "ufree (u_brk s + 8) ?s = Some s'" "heap_ok base xs' L s'" "keeps L (u_mem ?s) (u_mem s')"
      "\<exists>x \<in> set xs'. unat nu \<le> unat (hsize (u_mem s') x)" by blast
    have "morecore sbrk nunits s = Some (s', u_freep s')" using Some u(1) unfolding morecore_def more_units_def [symmetric] nu_def [symmetric] by (simp add: Let_def)
    moreover have "\<exists>x \<in> set xs'. nunits \<le> hsize (u_mem s') x" using u(4) nu(1) by (auto simp: word_le_nat_alt dest: order.trans)
    ultimately show ?thesis using u(2) keeps_trans [OF g(2) u(3)] by blast
  qed
qed

text \<open>With a list of free blocks in order, \<open>malloc\<close> returns: 0 if the kernel refused memory, or a block that is now in use.\<close>

lemma malloc_loop_ok:
  assumes "heap_ok base xs L s" "sbrk_ok sbrk" "0 < unat nunits" "unat nunits < 2 ^ 28"
  shows "\<exists>s' r xs'. malloc_loop sbrk nunits (u_freep s) (hptr (u_mem s) (u_freep s)) s = Some (s', r) \<and> keeps L (u_mem s) (u_mem s')
    \<and> (r = 0 \<and> heap_ok base xs' L s' \<and> sbrk (u_brk s) (more_units nunits * 8) = None \<or> r \<noteq> 0 \<and> heap_ok base xs' ((r - 8, unat nunits) # L) s')"
proof -
  have found: "\<exists>s' r xs'. malloc_loop sbrk nunits (u_freep t) (hptr (u_mem t) (u_freep t)) t = Some (s', r) \<and> keeps L (u_mem t) (u_mem s')
      \<and> r \<noteq> 0 \<and> heap_ok base xs' ((r - 8, unat nunits) # L) s'"
    if t: "heap_ok base ys L t" "\<exists>x \<in> set ys. nunits \<le> hsize (u_mem t) x" for ys t
  proof -
    obtain s' xs' q where q: "malloc_loop sbrk nunits (u_freep t) (hptr (u_mem t) (u_freep t)) t = Some (s', q + 8)"
      "heap_ok base xs' ((q, unat nunits) # L) s'" "keeps L (u_mem t) (u_mem s')" using malloc_search [OF t(1) assms(3) t(2)] by blast
    have "q + 8 \<noteq> 0" using block_addr [OF q(2)] by (metis add_is_0 unat_0 zero_neq_numeral)
    then show ?thesis using q by auto
  qed
  show ?thesis
  proof (cases "\<exists>x \<in> set (base # xs). nunits \<le> hsize (u_mem s) x")
    case True
    have "hsize (u_mem s) base = 0" using assms(1) by (simp add: heap_ok_def ring_def)
    then have "\<not> nunits \<le> hsize (u_mem s) base" using assms(3) by (auto simp: word_le_nat_alt)
    then show ?thesis using found [OF assms(1)] True by auto
  next
    case False
    obtain ws where ws: "chain (load32 (u_mem s)) (u_freep s) ws" "ws \<noteq> []" "last ws = u_freep s" "distinct ws" "set ws = set (base # xs)"
      "hd ws = hptr (u_mem s) (u_freep s)" by (rule heap_round [OF assms(1)])
    have m: "malloc_loop sbrk nunits (u_freep s) (hptr (u_mem s) (u_freep s)) s =
        Option.bind (morecore sbrk nunits s) (\<lambda>(s, p). if p = 0 then Some (s, 0) else malloc_loop sbrk nunits p (hptr (u_mem s) p) s)"
      using malloc_round [OF ws(1-4), of nunits sbrk] False ws(5,6) by simp
    consider "morecore sbrk nunits s = Some (s, 0)" "sbrk (u_brk s) (more_units nunits * 8) = None"
      | t xs' where "morecore sbrk nunits s = Some (t, u_freep t)" "heap_ok base xs' L t" "keeps L (u_mem s) (u_mem t)" "\<exists>x \<in> set xs'. nunits \<le> hsize (u_mem t) x"
      using morecore_ok [OF assms(1,2,4)] by (elim disjE conjE exE) blast+
    then show ?thesis
    proof cases
      case 1
      then show ?thesis using m assms(1) by auto
    next
      case 2
      obtain s' r ys where "malloc_loop sbrk nunits (u_freep t) (hptr (u_mem t) (u_freep t)) t = Some (s', r)" "keeps L (u_mem t) (u_mem s')"
        "r \<noteq> 0" "heap_ok base ys ((r - 8, unat nunits) # L) s'" using found [OF 2(2,4)] by blast
      then show ?thesis using m 2(1) heap_freep [OF 2(2)] keeps_trans [OF 2(3)] by auto
    qed
  qed
qed

section \<open>A program that uses the allocator\<close>

text \<open>
  The blocks a program holds, as the address and the number of bytes it asked for, and what it may do: call \<open>malloc\<close>, give a block
  back to \<open>free\<close>, and store into the bytes of its blocks.
\<close>

inductive client :: "u32 \<Rightarrow> sbrk \<Rightarrow> (u32 \<times> nat) list \<Rightarrow> uheap \<Rightarrow> bool" for base sbrk where
  start: "base \<noteq> 0 \<Longrightarrow> unat base + 8 \<le> unat (u_brk s) \<Longrightarrow> unat (u_brk s) \<le> 2 ^ 31 \<Longrightarrow> u_freep s = 0 \<Longrightarrow> client base sbrk [] s"
| alloc: "client base sbrk L s \<Longrightarrow> unat nbytes \<le> 2 ^ 31 - 16 \<Longrightarrow> malloc base sbrk nbytes s = Some (s', r) \<Longrightarrow>
    client base sbrk (if r = 0 then L else (r, unat nbytes) # L) s'"
| release: "client base sbrk (L1 @ (r, n) # L2) s \<Longrightarrow> ufree r s = Some s' \<Longrightarrow> client base sbrk (L1 @ L2) s'"
| assign: "client base sbrk L s \<Longrightarrow> (r, n) \<in> set L \<Longrightarrow> unat r \<le> unat c \<Longrightarrow> unat c < unat r + n \<Longrightarrow>
    client base sbrk L (s\<lparr>u_mem := (u_mem s)(c := v)\<rparr>)"

text \<open>The block in the heap behind one that the program holds.\<close>

definition unit_block :: "u32 \<times> nat \<Rightarrow> u32 \<times> nat" where
  "unit_block = (\<lambda>(r, n). (r - 8, (n + 7) div 8 + 1))"

definition client_ok :: "u32 \<Rightarrow> (u32 \<times> nat) list \<Rightarrow> uheap \<Rightarrow> bool" where
  "client_ok base L s \<longleftrightarrow> (\<exists>xs. heap_ok base xs (map unit_block L) s)
     \<or> L = [] \<and> base \<noteq> 0 \<and> unat base + 8 \<le> unat (u_brk s) \<and> unat (u_brk s) \<le> 2 ^ 31 \<and> u_freep s = 0"

lemma malloc_units: "unat nbytes \<le> 2 ^ 31 - 16 \<Longrightarrow> unat ((nbytes + 8 - 1) div 8 + 1) = (unat nbytes + 7) div 8 + 1" for nbytes :: u32
  by (simp add: unat_word_ariths unat_div)

lemma malloc_start:
  assumes "base \<noteq> 0" "unat base + 8 \<le> unat (u_brk s)" "unat (u_brk s) \<le> 2 ^ 31"
  shows "heap_ok base [] [] (s\<lparr>u_mem := set_size (set_ptr (u_mem s) base base) base 0, u_freep := base\<rparr>)"
proof -
  have "clear base base" using assms by (simp add: clear_def low_def)
  then show ?thesis using assms by (simp add: heap_ok_def ring_def header_simps blocks_apart_def)
qed

lemma client_malloc:
  assumes "client_ok base L s" "sbrk_ok sbrk" "unat nbytes \<le> 2 ^ 31 - 16"
  shows "\<exists>s' r. malloc base sbrk nbytes s = Some (s', r) \<and> keeps (map unit_block L) (u_mem s) (u_mem s')
    \<and> client_ok base (if r = 0 then L else (r, unat nbytes) # L) s' \<and> (r = 0 \<longrightarrow> sbrk (u_brk s) (more_units ((nbytes + 7) div 8 + 1) * 8) = None)"
proof -
  let ?n = "(nbytes + 8 - 1) div 8 + 1"
  have n: "unat ?n = (unat nbytes + 7) div 8 + 1" by (rule malloc_units [OF assms(3)])
  then have n': "0 < unat ?n" "unat ?n < 2 ^ 28" using assms(3) by simp_all
  define s0 where "s0 = (if u_freep s = 0 then s\<lparr>u_mem := set_size (set_ptr (u_mem s) base base) base 0, u_freep := base\<rparr> else s)"
  have "\<exists>xs. heap_ok base xs (map unit_block L) s0" "keeps (map unit_block L) (u_mem s) (u_mem s0)"
  proof -
    consider xs where "heap_ok base xs (map unit_block L) s"
      | "L = []" "base \<noteq> 0" "unat base + 8 \<le> unat (u_brk s)" "unat (u_brk s) \<le> 2 ^ 31" "u_freep s = 0"
      using assms(1) by (auto simp: client_ok_def)
    then have "(\<exists>xs. heap_ok base xs (map unit_block L) s0) \<and> keeps (map unit_block L) (u_mem s) (u_mem s0)"
    proof cases
      case 1
      then show ?thesis using heap_freep [OF 1] by (auto simp: s0_def)
    next
      case 2
      then show ?thesis using malloc_start [of base s] by (auto simp: s0_def keeps_def)
    qed
    then show "\<exists>xs. heap_ok base xs (map unit_block L) s0" "keeps (map unit_block L) (u_mem s) (u_mem s0)" by simp_all
  qed
  then obtain xs where h: "heap_ok base xs (map unit_block L) s0" and k: "keeps (map unit_block L) (u_mem s) (u_mem s0)" by blast
  have e: "malloc base sbrk nbytes s = malloc_loop sbrk ?n (u_freep s0) (hptr (u_mem s0) (u_freep s0)) s0" by (simp add: malloc_def Let_def s0_def)
  obtain s' r xs' where m: "malloc_loop sbrk ?n (u_freep s0) (hptr (u_mem s0) (u_freep s0)) s0 = Some (s', r)" "keeps (map unit_block L) (u_mem s0) (u_mem s')"
    "r = 0 \<and> heap_ok base xs' (map unit_block L) s' \<and> sbrk (u_brk s0) (more_units ?n * 8) = None \<or> r \<noteq> 0 \<and> heap_ok base xs' ((r - 8, unat ?n) # map unit_block L) s'"
    using malloc_loop_ok [OF h assms(2) n'] by blast
  have "u_brk s0 = u_brk s" by (simp add: s0_def)
  then show ?thesis using e m(1,3) n keeps_trans [OF k m(2)] by (intro exI [of _ s'] exI [of _ r]) (auto simp: client_ok_def unit_block_def add.commute)
qed

lemma blocks_apartD:
  "blocks_apart L \<Longrightarrow> (b, n) \<in> set L \<Longrightarrow> (c, k) \<in> set L \<Longrightarrow> (b, n) \<noteq> (c, k) \<Longrightarrow> unat b + 8 * n \<le> unat c \<or> unat c + 8 * k \<le> unat b"
  by (induction L) (fastforce simp: blocks_apart_def)+

lemma blocks_apart_move: "blocks_apart (L1 @ x # L2) \<Longrightarrow> blocks_apart (x # L1 @ L2)"
  by (auto simp: blocks_apart_def sorted_wrt_append)

lemma client_free:
  assumes "client_ok base (L1 @ (r, n) # L2) s"
  shows "\<exists>s' xs. ufree r s = Some s' \<and> heap_ok base xs (map unit_block (L1 @ L2)) s' \<and> keeps (map unit_block (L1 @ L2)) (u_mem s) (u_mem s')
    \<and> (\<exists>x \<in> set xs. (n + 7) div 8 + 1 \<le> unat (hsize (u_mem s') x))"
proof -
  obtain xs where "heap_ok base xs (map unit_block (L1 @ (r, n) # L2)) s" using assms by (auto simp: client_ok_def)
  then have h: "heap_ok base xs ((r - 8, (n + 7) div 8 + 1) # map unit_block (L1 @ L2)) s"
    using blocks_apart_move [of "map unit_block L1" "(r - 8, (n + 7) div 8 + 1)" "map unit_block L2"]
    by (auto simp: heap_ok_def unit_block_def)
  from ufree_ok [OF h] show ?thesis by auto
qed

text \<open>A store into a block in use touches no header.\<close>

lemma load32_upd: "unat c < unat a \<or> unat a + 4 \<le> unat c \<Longrightarrow> unat a + 4 \<le> 2 ^ 32 \<Longrightarrow> load32 (m(c := v)) a = load32 m a" for c :: u32
  using unat_add_small [of a 1] unat_add_small [of a 2] unat_add_small [of a 3] by (auto simp: load32_def)

lemma header_upd:
  assumes "unat c < unat p \<or> unat p + 8 \<le> unat c" "low p"
  shows "hptr (m(c := v)) p = hptr m p" "hsize (m(c := v)) p = hsize m p"
  using assms low_add(1) [OF assms(2)] by (auto simp: low_def intro!: load32_upd)

lemma heap_assign:
  assumes "heap_ok base xs L s" "(b, k) \<in> set L" "unat b + 8 \<le> unat c" "unat c < unat b + 8 * k"
  shows "heap_ok base xs L (s\<lparr>u_mem := (u_mem s)(c := v)\<rparr>)"
proof -
  let ?m = "u_mem s" and ?m' = "(u_mem s)(c := v)"
  have r: "ring base (load32 ?m) (hsize ?m) xs" using assms(1) by (simp add: heap_ok_def)
  have bk: "block_ok base xs s (b', k')" if "(b', k') \<in> set L" for b' k' using assms(1) that by (auto simp: heap_ok_def list_all_iff)
  have x: "hptr ?m' x = hptr ?m x" "hsize ?m' x = hsize ?m x" if x: "x \<in> set (base # xs)" for x
  proof -
    have "outside (hsize ?m) xs (unat c) (Suc (unat c))" "unat base + 8 \<le> unat c" using bk [OF assms(2)] assms(3,4) by (auto simp: block_ok_def outside_def)
    then have "unat c < unat x \<or> unat x + 8 \<le> unat c" using outside_header [OF r] x by blast
    moreover have "clear x x" by (rule ring_clear [OF r]) (use heap_bounds [OF assms(1)] x in auto)
    ultimately show "hptr ?m' x = hptr ?m x" "hsize ?m' x = hsize ?m x" by (simp_all add: header_upd clear_def)
  qed
  have l: "hsize ?m' b' = hsize ?m b'" if b': "(b', k') \<in> set L" for b' k'
  proof -
    have "unat c < unat b' \<or> unat b' + 8 \<le> unat c"
    proof (cases "(b', k') = (b, k)")
      case False
      have "unat b + 8 * k \<le> unat b' \<or> unat b' + 8 * k' \<le> unat b"
        using assms(1) False by (intro blocks_apartD [OF _ assms(2) b']) (auto simp: heap_ok_def)
      then show ?thesis using assms(3,4) bk [OF b'] by (auto simp: block_ok_def)
    qed (use assms(3) in simp)
    moreover have "low b'" using bk [OF b'] assms(1) by (auto simp: block_ok_def heap_ok_def low_def)
    ultimately show ?thesis by (simp add: header_upd)
  qed
  have "ring base (load32 ?m') (hsize ?m') xs" by (rule ring_cong [OF r]) (use x in blast)
  moreover have p: "past (hsize ?m') x = past (hsize ?m) x" if "x \<in> set xs" for x using x(2) that by (simp add: past_def)
  moreover have "list_all (block_ok base xs (s\<lparr>u_mem := ?m'\<rparr>)) L"
    using bk l p by (fastforce simp: list_all_iff block_ok_def)
  ultimately show ?thesis using assms(1) by (simp add: heap_ok_def)
qed

lemma client_safe:
  assumes "sbrk_ok sbrk" "client base sbrk L s"
  shows "client_ok base L s"
  using assms(2)
proof (induction rule: client.induct)
  case (start s)
  then show ?case by (simp add: client_ok_def)
next
  case (alloc L s nbytes s' r)
  from client_malloc [OF alloc.IH assms(1) alloc.hyps(2)] alloc.hyps(3) show ?case by auto
next
  case (release L1 r n L2 s s')
  from client_free [OF release.IH] release.hyps(2) show ?case by (auto simp: client_ok_def)
next
  case (assign L s r n c v)
  then obtain xs where h: "heap_ok base xs (map unit_block L) s" by (auto simp: client_ok_def)
  have m: "(r - 8, (n + 7) div 8 + 1) \<in> set (map unit_block L)" using assign.hyps(2) by (force simp: unit_block_def)
  then have "block_ok base xs s (r - 8, (n + 7) div 8 + 1)" using h by (auto simp: heap_ok_def list_all_iff)
  then have "unat (r - 8 + 8) = unat (r - 8) + 8" using h by (intro low_add(2)) (auto simp: block_ok_def heap_ok_def low_def)
  then have "heap_ok base xs (map unit_block L) (s\<lparr>u_mem := (u_mem s)(c := v)\<rparr>)"
    using assign.hyps(3,4) by (intro heap_assign [OF h m]) (auto simp: )
  then show ?case by (auto simp: client_ok_def)
qed

lemma client_block:
  assumes "heap_ok base xs (map unit_block L) s" "(b, n) \<in> set L"
  shows "unat b = unat (b - 8) + 8" "unat base + 8 \<le> unat (b - 8)" "unat (b - 8) + 8 * ((n + 7) div 8 + 1) \<le> unat (u_brk s)"
proof -
  have m: "(b - 8, (n + 7) div 8 + 1) \<in> set (map unit_block L)" using assms(2) by (force simp: unit_block_def)
  then have bk: "block_ok base xs s (b - 8, (n + 7) div 8 + 1)" using assms(1) by (auto simp: heap_ok_def list_all_iff)
  then have "unat (b - 8 + 8) = unat (b - 8) + 8" using assms(1) by (intro low_add(2)) (auto simp: block_ok_def heap_ok_def low_def)
  then show "unat b = unat (b - 8) + 8" by simp
  show "unat base + 8 \<le> unat (b - 8)" "unat (b - 8) + 8 * ((n + 7) div 8 + 1) \<le> unat (u_brk s)" using bk by (simp_all add: block_ok_def)
qed

lemma client_keeps:
  assumes "client_ok base L' s" "keeps (map unit_block L) (u_mem s) m'" "set L \<subseteq> set L'"
  shows "\<forall>(b, n) \<in> set L. \<forall>c. unat b \<le> unat c \<and> unat c < unat b + n \<longrightarrow> m' c = u_mem s c"
proof (clarify)
  fix b n and c :: u32
  assume b: "(b, n) \<in> set L" "unat b \<le> unat c" "unat c < unat b + n"
  then obtain xs where h: "heap_ok base xs (map unit_block L') s" using assms(1,3) by (auto simp: client_ok_def)
  have "(b, n) \<in> set L'" using b(1) assms(3) by blast
  from client_block(1) [OF h this] have "unat (b - 8) \<le> unat c \<and> unat c < unat (b - 8) + 8 * ((n + 7) div 8 + 1)" using b by simp
  moreover have "(b - 8, (n + 7) div 8 + 1) \<in> set (map unit_block L)" using b(1) by (force simp: unit_block_def)
  ultimately show "m' c = u_mem s c" using assms(2) unfolding keeps_def by blast
qed

lemma client_apart:
  assumes "client_ok base ((r, k) # L) s" "(b, n) \<in> set L"
  shows "unat r + k \<le> unat b \<or> unat b + n \<le> unat r"
proof -
  obtain xs where h: "heap_ok base xs (map unit_block ((r, k) # L)) s" using assms(1) by (auto simp: client_ok_def)
  have "(b - 8, (n + 7) div 8 + 1) \<in> set (map unit_block L)" using assms(2) by (force simp: unit_block_def)
  then have "unat (r - 8) + 8 * ((k + 7) div 8 + 1) \<le> unat (b - 8) \<or> unat (b - 8) + 8 * ((n + 7) div 8 + 1) \<le> unat (r - 8)"
    using h by (fastforce simp: heap_ok_def blocks_apart_def unit_block_def)
  then show ?thesis using client_block(1) [OF h, of b n] client_block(1) [OF h, of r k] assms(2) by auto
qed

section \<open>Properties\<close>

text \<open>
  C4: \<open>malloc\<close> returns, after any sequence of calls to \<open>malloc\<close> and \<open>free\<close> and of stores into the blocks the program holds. If the
  result is not 0, the bytes asked for lie between the static header and the break and overlap no block the program holds; it is 0
  only if the kernel refused the memory that \<open>morecore\<close> asked for. No byte of the blocks the program holds changes.
\<close>

theorem malloc_safe:
  assumes "sbrk_ok sbrk" "client base sbrk L s" "unat nbytes \<le> 2 ^ 31 - 16"
  shows "\<exists>s' r. malloc base sbrk nbytes s = Some (s', r)
    \<and> (\<forall>(b, n) \<in> set L. \<forall>c. unat b \<le> unat c \<and> unat c < unat b + n \<longrightarrow> u_mem s' c = u_mem s c)
    \<and> (if r = 0 then sbrk (u_brk s) (more_units ((nbytes + 7) div 8 + 1) * 8) = None
       else unat base + 8 \<le> unat r \<and> unat r + unat nbytes \<le> unat (u_brk s')
         \<and> (\<forall>(b, n) \<in> set L. unat r + unat nbytes \<le> unat b \<or> unat b + n \<le> unat r))"
proof -
  have ok: "client_ok base L s" by (rule client_safe [OF assms(1,2)])
  obtain s' r where m: "malloc base sbrk nbytes s = Some (s', r)" "keeps (map unit_block L) (u_mem s) (u_mem s')"
    "client_ok base (if r = 0 then L else (r, unat nbytes) # L) s'" "r = 0 \<longrightarrow> sbrk (u_brk s) (more_units ((nbytes + 7) div 8 + 1) * 8) = None"
    using client_malloc [OF ok assms(1,3)] by blast
  have "unat base + 8 \<le> unat r \<and> unat r + unat nbytes \<le> unat (u_brk s')" if r: "r \<noteq> 0"
  proof -
    obtain xs where h: "heap_ok base xs (map unit_block ((r, unat nbytes) # L)) s'" using m(3) r by (auto simp: client_ok_def)
    from client_block [OF h, of r "unat nbytes"] show ?thesis by simp
  qed
  moreover have "\<forall>(b, n) \<in> set L. unat r + unat nbytes \<le> unat b \<or> unat b + n \<le> unat r" if "r \<noteq> 0"
    using client_apart [of base r "unat nbytes" L s'] m(3) that by auto
  ultimately show ?thesis using m(1,4) client_keeps [OF ok m(2) order_refl] by auto
qed

text \<open>A kernel that grants memory up to a megabyte, and a heap before the first call, for concrete runs.\<close>

definition ex_sbrk :: sbrk where
  "ex_sbrk b n = (if unat b + unat n \<le> 2 ^ 20 then Some (b + n) else None)"

definition ex_heap :: uheap where
  "ex_heap = \<lparr>u_mem = \<lambda>_. 0, u_freep = 0, u_brk = 0x2000\<rparr>"

lemma ex_client: "sbrk_ok ex_sbrk" "client 0x1000 ex_sbrk [] ex_heap"
  by (auto simp: sbrk_ok_def ex_sbrk_def unat_word_ariths split: if_splits) (rule client.start; simp add: ex_heap_def)

lemma ex_malloc: obtains s r where "malloc 0x1000 ex_sbrk 100 ex_heap = Some (s, r)" "r \<noteq> 0"
proof -
  have ok: "client_ok 0x1000 [] ex_heap" by (rule client_safe [OF ex_client])
  show thesis using client_malloc [OF ok ex_client(1), of 100] that by (auto simp: ex_sbrk_def ex_heap_def more_units_def split: if_splits)
qed

text \<open>The program holds a block of 100 bytes and asks for 50 more.\<close>

theorem malloc_safe_witness:
  "\<exists>s r s' r'. client 0x1000 ex_sbrk [(r, 100)] s \<and> malloc 0x1000 ex_sbrk 50 s = Some (s', r')
     \<and> (r' = 0 \<or> unat r' + 50 \<le> unat r \<or> unat r + 100 \<le> unat r')"
proof -
  obtain s r where m: "malloc 0x1000 ex_sbrk 100 ex_heap = Some (s, r)" "r \<noteq> 0" by (rule ex_malloc)
  have c: "client 0x1000 ex_sbrk [(r, 100)] s" using client.alloc [OF ex_client(2) _ m(1)] m(2) by simp
  from malloc_safe [OF ex_client(1) c, of 50] obtain s' r' where "malloc 0x1000 ex_sbrk 50 s = Some (s', r')"
    "r' = 0 \<or> unat r' + 50 \<le> unat r \<or> unat r + 100 \<le> unat r'" by (auto split: if_splits)
  with c show ?thesis by blast
qed

text \<open>
  C24: \<open>free\<close> returns, no byte of the other blocks changes, and what is given back can be had again: a \<open>malloc\<close> of no more bytes than
  the block had succeeds with no help from the kernel.
\<close>

theorem free_reuse:
  assumes "sbrk_ok sbrk" "client base sbrk (L1 @ (r, n) # L2) s"
  shows "\<exists>s'. ufree r s = Some s'
    \<and> (\<forall>(b, k) \<in> set (L1 @ L2). \<forall>c. unat b \<le> unat c \<and> unat c < unat b + k \<longrightarrow> u_mem s' c = u_mem s c)
    \<and> (\<forall>nbytes. unat nbytes \<le> n \<longrightarrow> (\<exists>s'' r'. malloc base (\<lambda>_ _. None) nbytes s' = Some (s'', r') \<and> r' \<noteq> 0))"
proof -
  have ok: "client_ok base (L1 @ (r, n) # L2) s" by (rule client_safe [OF assms])
  obtain s' xs where f: "ufree r s = Some s'" "heap_ok base xs (map unit_block (L1 @ L2)) s'" "keeps (map unit_block (L1 @ L2)) (u_mem s) (u_mem s')"
    "\<exists>x \<in> set xs. (n + 7) div 8 + 1 \<le> unat (hsize (u_mem s') x)" using client_free [OF ok] by blast
  obtain ys where h: "heap_ok base ys (map unit_block (L1 @ (r, n) # L2)) s" using ok by (auto simp: client_ok_def)
  have "unat (u_brk s) \<le> 2 ^ 31" using h by (simp add: heap_ok_def)
  moreover have "n + 8 \<le> 8 * ((n + 7) div 8 + 1)" by simp
  ultimately have n: "n \<le> 2 ^ 31 - 16" using client_block(2,3) [OF h, of r n] by simp
  have "\<exists>s'' r'. malloc base (\<lambda>_ _. None) nbytes s' = Some (s'', r') \<and> r' \<noteq> 0" if b: "unat nbytes \<le> n" for nbytes
  proof -
    let ?k = "(nbytes + 8 - 1) div 8 + 1"
    have k: "unat ?k = (unat nbytes + 7) div 8 + 1" by (rule malloc_units) (use b n in linarith)
    then have "\<exists>x \<in> set xs. ?k \<le> hsize (u_mem s') x" using f(4) b by (auto simp: word_le_nat_alt intro!: bexI elim!: order.trans [rotated])
    from malloc_search [OF f(2) _ this] k obtain s'' xs' q where q: "malloc_loop (\<lambda>_ _. None) ?k (u_freep s') (hptr (u_mem s') (u_freep s')) s' = Some (s'', q + 8)"
      "heap_ok base xs' ((q, unat ?k) # map unit_block (L1 @ L2)) s''" by force
    have "q + 8 \<noteq> 0" using block_addr [OF q(2)] by (metis add_is_0 unat_0 zero_neq_numeral)
    then show ?thesis using q(1) heap_freep [OF f(2)] by (simp add: malloc_def Let_def)
  qed
  moreover have "\<forall>(b, k) \<in> set (L1 @ L2). \<forall>c. unat b \<le> unat c \<and> unat c < unat b + k \<longrightarrow> u_mem s' c = u_mem s c"
    by (rule client_keeps [OF ok f(3)]) auto
  ultimately show ?thesis using f(1) by blast
qed

theorem free_reuse_witness:
  "\<exists>s r s'. client 0x1000 ex_sbrk [(r, 100)] s \<and> ufree r s = Some s' \<and> (\<exists>s'' r'. malloc 0x1000 (\<lambda>_ _. None) 60 s' = Some (s'', r') \<and> r' \<noteq> 0)"
proof -
  obtain s r where m: "malloc 0x1000 ex_sbrk 100 ex_heap = Some (s, r)" "r \<noteq> 0" by (rule ex_malloc)
  have c: "client 0x1000 ex_sbrk ([] @ (r, 100) # []) s" using client.alloc [OF ex_client(2) _ m(1)] m(2) by simp
  from free_reuse [OF ex_client(1) c] obtain s' where "ufree r s = Some s'" "\<exists>s'' r'. malloc 0x1000 (\<lambda>_ _. None) 60 s' = Some (s'', r') \<and> r' \<noteq> 0" by force
  moreover have "client 0x1000 ex_sbrk [(r, 100)] s" using c by simp
  ultimately show ?thesis by blast
qed

text \<open>A request so large that the rounding to units wraps round to nothing is served with a block of no bytes.\<close>

lemma malloc_wraps: "- 7 \<le> nbytes \<Longrightarrow> malloc base sbrk nbytes s = malloc base sbrk 0 s"
proof -
  assume "- 7 \<le> nbytes"
  then have "2 ^ 32 \<le> unat nbytes + 7" by (simp add: word_le_nat_alt)
  then obtain k where "unat nbytes + 7 = 2 ^ 32 + k" using le_Suc_ex by blast
  moreover have "unat nbytes < 2 ^ 32" using unsigned_less [of nbytes] by simp
  ultimately have "(unat nbytes + 7) mod 2 ^ 32 < 8" by simp
  then have "unat (nbytes + 7) < 8" by (simp add: unat_word_ariths)
  then have "(nbytes + 7) div 8 = 0" by (simp add: word_unat_eq_iff unat_div)
  moreover have "nbytes + 8 - 1 = nbytes + 7" by simp
  ultimately have "(nbytes + 8 - 1) div 8 = 0" by (simp only:)
  moreover have "(0 + 8 - 1) div 8 = (0 :: u32)" by (simp add: word_unat_eq_iff unat_div)
  ultimately show ?thesis by (simp only: malloc_def Let_def)
qed

end
