(* ===== verification/Xv6_Mp.thy ===== *)
theory Xv6_Mp
  imports Xv6_Kalloc
begin

text \<open>
  Finding the processors (\<open>mp.c\<close>): the search of memory for the table that the BIOS leaves, and the walk over its entries. The memory is
  that of the kernel, at the addresses it has there. A loop that does not end is \<open>None\<close>.
\<close>

section \<open>The code\<close>

text \<open>The globals \<open>cpus\<close> (the field \<open>apicid\<close>), \<open>ncpu\<close>, \<open>ioapicid\<close> and \<open>lapic\<close>, and the bytes written to ports.\<close>

record mpinfo =
  cpu_apicid :: "nat \<Rightarrow> byte"
  ncpu :: nat
  ioapicid :: byte
  lapic :: u32
  mp_out :: "(nat \<times> byte) list"

abbreviation NCPU :: nat where "NCPU \<equiv> 8"

text \<open>\<open>sum\<close>: the \<open>int\<close> that adds up the bytes is cut to a byte when it is returned.\<close>

primrec mp_sum_loop :: "mem \<Rightarrow> u32 \<Rightarrow> nat \<Rightarrow> u32" where
  "mp_sum_loop m a 0 = 0"
| "mp_sum_loop m a (Suc i) = mp_sum_loop m a i + ucast (m (a + of_nat i))"

definition mp_sum :: "mem \<Rightarrow> u32 \<Rightarrow> nat \<Rightarrow> byte" where
  "mp_sum m a len = ucast (mp_sum_loop m a len)"

text \<open>\<open>memcmp(p, s, 4) == 0\<close>.\<close>

definition mp_signature :: "mem \<Rightarrow> u32 \<Rightarrow> byte list \<Rightarrow> bool" where
  "mp_signature m p s \<longleftrightarrow> memcmp (\<lambda>i. m (p + of_nat i)) (cstr s) 4 = 0"

text \<open>The sizes are those of \<open>struct mp\<close> (16), \<open>struct mpconf\<close> (44), \<open>struct mpproc\<close> (20) and \<open>struct mpioapic\<close> (8).\<close>

partial_function (option) mpsearch1_loop :: "mem \<Rightarrow> u32 \<Rightarrow> u32 \<Rightarrow> u32 option" where
  "mpsearch1_loop m p e =
     (if p < e
      then if mp_signature m p [95, 77, 80, 95] \<and> mp_sum m p 16 = 0 then Some p else mpsearch1_loop m (p + 16) e
      else Some 0)"

definition mpsearch1 :: "mem \<Rightarrow> u32 \<Rightarrow> u32 \<Rightarrow> u32 option" where
  "mpsearch1 m a len = (let addr = P2V a in mpsearch1_loop m addr (addr + len))"

definition mpsearch :: "mem \<Rightarrow> u32 option" where
  "mpsearch m =
     (let bda = P2V 0x400;
          p = push_bit 4 (push_bit 8 (ucast (m (bda + 0x0F))) OR ucast (m (bda + 0x0E)))
      in if p \<noteq> 0
         then Option.bind (mpsearch1 m p 1024) (\<lambda>mp. if mp \<noteq> 0 then Some mp else mpsearch1 m 0xF0000 0x10000)
         else let p = (push_bit 8 (ucast (m (bda + 0x14))) OR ucast (m (bda + 0x13))) * 1024
              in Option.bind (mpsearch1 m (p - 1024) 1024) (\<lambda>mp. if mp \<noteq> 0 then Some mp else mpsearch1 m 0xF0000 0x10000))"

definition conf_length :: "mem \<Rightarrow> u32 \<Rightarrow> nat" where
  "conf_length m conf = unat (m (conf + 4)) + 256 * unat (m (conf + 5))"

text \<open>\<open>mpconfig\<close> returns \<open>*pmp\<close> and the table, \<open>None\<close> for 0.\<close>

definition mpconfig :: "mem \<Rightarrow> (u32 \<times> u32) option option" where
  "mpconfig m =
     map_option (\<lambda>mp.
       if mp = 0 \<or> load32 m (mp + 4) = 0 then None
       else let conf = P2V (load32 m (mp + 4))
            in if \<not> mp_signature m conf [80, 67, 77, 80] then None
               else if m (conf + 6) \<noteq> 1 \<and> m (conf + 6) \<noteq> 4 then None
               else if mp_sum m conf (conf_length m conf) \<noteq> 0 then None
               else Some (mp, conf)) (mpsearch m)"

text \<open>The loop of \<open>mpinit\<close>. The \<open>break\<close> of the default case leaves the \<open>switch\<close> only.\<close>

partial_function (option) mp_entries :: "mem \<Rightarrow> u32 \<Rightarrow> u32 \<Rightarrow> bool \<Rightarrow> mpinfo \<Rightarrow> (bool \<times> mpinfo) option" where
  "mp_entries m p e ismp s =
     (if p < e
      then if m p = 0
        then mp_entries m (p + 20) e ismp
               (if ncpu s < NCPU then s\<lparr>cpu_apicid := (cpu_apicid s)(ncpu s := m (p + 1)), ncpu := ncpu s + 1\<rparr> else s)
      else if m p = 2 then mp_entries m (p + 8) e ismp (s\<lparr>ioapicid := m (p + 1)\<rparr>)
      else if m p = 1 \<or> m p = 3 \<or> m p = 4 then mp_entries m (p + 8) e ismp s
      else mp_entries m p e False s
      else Some (ismp, s))"

text \<open>\<open>inb23\<close> is what \<open>inb(0x23)\<close> returns.\<close>

definition mpinit :: "mem \<Rightarrow> byte \<Rightarrow> mpinfo \<Rightarrow> mpinfo res option" where
  "mpinit m inb23 s =
     Option.bind (mpconfig m) (\<lambda>c.
       case c of
         None \<Rightarrow> Some (Inl (Panic ''Expect to run on an SMP''))
       | Some (mp, conf) \<Rightarrow>
           Option.bind (mp_entries m (conf + 44) (conf + of_nat (conf_length m conf)) True (s\<lparr>lapic := load32 m (conf + 36)\<rparr>)) (\<lambda>(ismp, s).
             if \<not> ismp then Some (Inl (Panic ''Didn't find a suitable machine''))
             else if m (mp + 12) \<noteq> 0 then Some (Inr (s\<lparr>mp_out := mp_out s @ [(0x22, 0x70), (0x23, inb23 OR 1)]\<rparr>))
             else Some (Inr s)))"

section \<open>The search\<close>

text \<open>A floating pointer structure: its signature, and bytes that add up to 0.\<close>

definition mp_here :: "mem \<Rightarrow> u32 \<Rightarrow> bool" where
  "mp_here m p \<longleftrightarrow> (\<forall>i < 4. m (p + of_nat i) = [95, 77, 80, 95] ! i) \<and> (\<Sum>i < 16. m (p + of_nat i)) = 0"

lemma ucast_byte_add: "(ucast (a + b) :: byte) = ucast a + ucast b" for a b :: u32
  by (simp add: word_uint_eq_iff uint_word_ariths unsigned_ucast_eq take_bit_eq_mod mod_mod_cancel mod_add_eq)

lemma mp_sum_eq: "mp_sum m a n = (\<Sum>i < n. m (a + of_nat i))"
proof (induction n)
  case (Suc n)
  then show ?case by (simp add: mp_sum_def ucast_byte_add)
qed (simp add: mp_sum_def)

lemma mp_here_iff: "mp_signature m p [95, 77, 80, 95] \<and> mp_sum m p 16 = 0 \<longleftrightarrow> mp_here m p"
  by (auto simp: mp_signature_def memcmp_zero_iff mp_sum_eq mp_here_def cstr_def)

lemma mpsearch1_loop_scan:
  assumes "unat p + 16 * k < 2 ^ 32"
  shows "mpsearch1_loop m p (p + of_nat (16 * k)) =
    Some (case scan (mp_here m) (map (\<lambda>i. p + of_nat (16 * i)) [0..<k]) of None \<Rightarrow> 0 | Some i \<Rightarrow> p + of_nat (16 * i))"
  using assms
proof (induction k arbitrary: p)
  case 0
  then show ?case by (subst mpsearch1_loop.simps) simp
next
  case (Suc k)
  let ?e = "p + of_nat (16 * Suc k)"
  have e: "?e = (p + 16) + of_nat (16 * k)" by simp
  have u: "unat (p + 16) = unat p + 16" "unat ?e = unat p + 16 * Suc k"
    using Suc.prems by (simp_all add: unat_word_ariths unsigned_of_nat take_bit_eq_mod)
  have less: "p < ?e" using u(2) by (simp add: word_less_nat_alt)
  have IH: "mpsearch1_loop m (p + 16) ?e =
      Some (case scan (mp_here m) (map (\<lambda>i. p + 16 + of_nat (16 * i)) [0..<k]) of None \<Rightarrow> 0 | Some i \<Rightarrow> p + 16 + of_nat (16 * i))"
    using Suc.IH [of "p + 16"] Suc.prems u(1) unfolding e by simp
  have m: "map (\<lambda>i. p + of_nat (16 * i)) [0..<Suc k] = p # map (\<lambda>i. p + 16 + of_nat (16 * i)) [0..<k]"
    by (simp add: upt_conv_Cons map_Suc_upt [symmetric] o_def del: upt_Suc)
  show ?case
    unfolding m using less IH by (subst mpsearch1_loop.simps) (auto simp: mp_here_iff split: option.splits)
qed

text \<open>\<open>mpsearch1\<close> returns the first place, in steps of 16 bytes, where there is a floating pointer structure, and 0 if there is none.\<close>

lemma mpsearch1_first:
  assumes "unat (P2V a) + 16 * k < 2 ^ 32"
  shows "mpsearch1 m a (of_nat (16 * k)) =
    Some (case scan (mp_here m) (map (\<lambda>i. P2V a + of_nat (16 * i)) [0..<k]) of None \<Rightarrow> 0 | Some i \<Rightarrow> P2V a + of_nat (16 * i))"
  unfolding mpsearch1_def Let_def by (rule mpsearch1_loop_scan [OF assms])

section \<open>The entries\<close>

text \<open>The table as a list of entries: a processor or an I/O APIC with its id, and the kinds that are skipped.\<close>

datatype mpentry = Mproc byte | Mioapic byte | Mother byte

fun mp_at :: "mem \<Rightarrow> u32 \<Rightarrow> u32 \<Rightarrow> mpentry list \<Rightarrow> u32 \<Rightarrow> bool" where
  "mp_at m e p [] q \<longleftrightarrow> p = q"
| "mp_at m e p (Mproc a # es) q \<longleftrightarrow> p < e \<and> m p = 0 \<and> m (p + 1) = a \<and> mp_at m e (p + 20) es q"
| "mp_at m e p (Mioapic a # es) q \<longleftrightarrow> p < e \<and> m p = 2 \<and> m (p + 1) = a \<and> mp_at m e (p + 8) es q"
| "mp_at m e p (Mother t # es) q \<longleftrightarrow> p < e \<and> m p = t \<and> t \<in> {1, 3, 4} \<and> mp_at m e (p + 8) es q"

text \<open>What the walk over entries leaves: up to \<open>NCPU\<close> processors in the order of the table, and the last I/O APIC.\<close>

fun mp_procs :: "mpentry list \<Rightarrow> byte list" where
  "mp_procs [] = []"
| "mp_procs (Mproc a # es) = a # mp_procs es"
| "mp_procs (_ # es) = mp_procs es"

fun mp_ioapic :: "byte \<Rightarrow> mpentry list \<Rightarrow> byte" where
  "mp_ioapic a [] = a"
| "mp_ioapic a (Mioapic b # es) = mp_ioapic b es"
| "mp_ioapic a (_ # es) = mp_ioapic a es"

definition cpu_list :: "mpinfo \<Rightarrow> byte list" where
  "cpu_list s = map (cpu_apicid s) [0..<ncpu s]"

lemma mp_entries_walk:
  "mp_at m e p es q \<Longrightarrow> ncpu s \<le> NCPU \<Longrightarrow>
     \<exists>s'. mp_entries m p e ismp s = mp_entries m q e ismp s' \<and> cpu_list s' = take NCPU (cpu_list s @ mp_procs es)
       \<and> ioapicid s' = mp_ioapic (ioapicid s) es \<and> lapic s' = lapic s \<and> mp_out s' = mp_out s \<and> ncpu s' \<le> NCPU"
proof (induction m e p es q arbitrary: s rule: mp_at.induct)
  case (1 m e p q)
  then show ?case by (intro exI [of _ s]) (simp add: cpu_list_def)
next
  case (2 m e p a es q)
  define t where "t = (if ncpu s < NCPU then s\<lparr>cpu_apicid := (cpu_apicid s)(ncpu s := a), ncpu := ncpu s + 1\<rparr> else s)"
  have "mp_entries m p e ismp s = mp_entries m (p + 20) e ismp t" using 2 by (subst mp_entries.simps) (simp add: t_def)
  moreover have "take NCPU (cpu_list t @ mp_procs es) = take NCPU (cpu_list s @ a # mp_procs es)" "ncpu t \<le> NCPU"
    using 2(3) by (auto simp: t_def cpu_list_def take_Cons')
  moreover have "ioapicid t = ioapicid s" "lapic t = lapic s" "mp_out t = mp_out s" by (simp_all add: t_def)
  ultimately show ?case using "2.IH" [of t] 2(2) by auto
next
  case (3 m e p a es q)
  have "mp_entries m p e ismp s = mp_entries m (p + 8) e ismp (s\<lparr>ioapicid := a\<rparr>)" using 3 by (subst mp_entries.simps) simp
  then show ?case using "3.IH" [of "s\<lparr>ioapicid := a\<rparr>"] 3(2,3) by (auto simp: cpu_list_def)
next
  case (4 m e p t es q)
  have "mp_entries m p e ismp s = mp_entries m (p + 8) e ismp s" using 4 by (subst mp_entries.simps) auto
  then show ?case using "4.IH" [of s] 4(2,3) by auto
qed

text \<open>At an entry of another kind the loop stays where it is.\<close>

lemma mp_entries_stuck: "mp_entries m p e ismp s = Some r \<Longrightarrow> \<not> (p < e \<and> 4 < m p)"
proof (rule mp_entries.raw_induct [where P = "\<lambda>m p e ismp s r. \<not> (p < e \<and> 4 < m p)"])
  fix f m p e ismp s r
  assume IH: "\<And>m p e ismp s r. f m p e ismp s = Some r \<Longrightarrow> \<not> (p < e \<and> 4 < m p)"
    and body: "(if p < e then if m p = 0
        then f m (p + 20) e ismp
               (if ncpu s < NCPU then s\<lparr>cpu_apicid := (cpu_apicid s)(ncpu s := m (p + 1)), ncpu := ncpu s + 1\<rparr> else s)
      else if m p = 2 then f m (p + 8) e ismp (s\<lparr>ioapicid := m (p + 1)\<rparr>)
      else if m p = 1 \<or> m p = 3 \<or> m p = 4 then f m (p + 8) e ismp s
      else f m p e False s
      else Some (ismp, s)) = Some r"
  show "\<not> (p < e \<and> 4 < m p)"
  proof
    assume p: "p < e \<and> 4 < m p"
    then have "m p \<noteq> 0" "m p \<noteq> 1" "m p \<noteq> 2" "m p \<noteq> 3" "m p \<noteq> 4" by auto
    then have "f m p e False s = Some r" using body p by simp
    from IH [OF this] p show False by blast
  qed
qed

text \<open>A memory with a table of one processor, one I/O APIC and an entry of kind \<open>t\<close>; \<open>chk\<close> is the checksum of the table.\<close>

definition ex_mp :: "byte \<Rightarrow> byte \<Rightarrow> mem" where
  "ex_mp t chk a =
     (if a = 0x8000040F then 0x9F
      else if 0x8009F000 \<le> a \<and> a < 0x8009F010
      then [95, 77, 80, 95, 0, 0xF1, 9, 0, 1, 4, 166, 0, 0, 0, 0, 0] ! unat (a - 0x8009F000)
      else if 0x8009F100 \<le> a \<and> a < 0x8009F150
      then ([80, 67, 77, 80, 80, 0, 4, chk] @ replicate 26 0 @ [3, 0, 0, 0, 0xE0, 0xFE, 0, 0, 0, 0] @ [0, 5] @ replicate 18 0
            @ [2, 9] @ replicate 6 0 @ [t, 0, 0, 0, 0, 0, 0, 0]) ! unat (a - 0x8009F100)
      else 0)"

definition ex_mpinfo :: mpinfo where
  "ex_mpinfo = \<lparr>cpu_apicid = \<lambda>_. 0, ncpu = 0, ioapicid = 0, lapic = 0, mp_out = []\<rparr>"

lemma ex_mp_search: "mpsearch1_loop (ex_mp t chk) 0x8009F000 0x8009F400 = Some 0x8009F000"
proof -
  have "mp_signature (ex_mp t chk) 0x8009F000 [95, 77, 80, 95]" "mp_sum (ex_mp t chk) 0x8009F000 16 = 0" by code_simp+
  then show ?thesis by (subst mpsearch1_loop.simps) simp
qed

lemma ex_mp_mp: "mpsearch (ex_mp t chk) = Some 0x8009F000"
proof -
  have "push_bit 4 (push_bit 8 (ucast (ex_mp t chk (P2V 0x400 + 0x0F))) OR ucast (ex_mp t chk (P2V 0x400 + 0x0E))) = (0x9F000 :: u32)" by code_simp
  moreover have "P2V 0x9F000 = 0x8009F000" "(0x8009F000 :: u32) + 1024 = 0x8009F400" by code_simp+
  ultimately show ?thesis using ex_mp_search [of t chk] by (simp add: mpsearch_def mpsearch1_def)
qed

lemma ex_mp_found: "mpconfig (ex_mp 1 138) = Some (Some (0x8009F000, 0x8009F100))" "mpconfig (ex_mp 7 132) = Some (Some (0x8009F000, 0x8009F100))"
  unfolding mpconfig_def ex_mp_mp by code_simp+

section \<open>Properties\<close>

text \<open>
  C31: On a table whose entries are of the five kinds, \<open>mpinit\<close> returns with the processors in the order of the table, at most \<open>NCPU\<close> of
  them, the id of the last I/O APIC and the address of the local APIC.
\<close>

theorem mpinit_finds_cpus:
  assumes "mpconfig m = Some (Some (mp, conf))" "mp_at m e (conf + 44) es e" "e = conf + of_nat (conf_length m conf)" "ncpu s = 0"
  shows "\<exists>s'. mpinit m inb23 s = Some (Inr s') \<and> cpu_list s' = take NCPU (mp_procs es) \<and> ioapicid s' = mp_ioapic (ioapicid s) es
    \<and> lapic s' = load32 m (conf + 36)
    \<and> mp_out s' = mp_out s @ (if m (mp + 12) \<noteq> 0 then [(0x22, 0x70), (0x23, inb23 OR 1)] else [])"
proof -
  let ?s = "s\<lparr>lapic := load32 m (conf + 36)\<rparr>"
  obtain t where t: "mp_entries m (conf + 44) e True ?s = mp_entries m e e True t" "cpu_list t = take NCPU (cpu_list ?s @ mp_procs es)"
    "ioapicid t = mp_ioapic (ioapicid ?s) es" "lapic t = lapic ?s" "mp_out t = mp_out ?s"
    using mp_entries_walk [OF assms(2), of ?s True] assms(4) by auto
  have "mp_entries m e e True t = Some (True, t)" by (subst mp_entries.simps) simp
  then show ?thesis using t assms(1,4) unfolding assms(3) by (auto simp: mpinit_def cpu_list_def)
qed

theorem mpinit_finds_cpus_witness:
  "\<exists>s'. mpinit (ex_mp 1 138) 0 ex_mpinfo = Some (Inr s') \<and> cpu_list s' = [5] \<and> ioapicid s' = 9 \<and> lapic s' = 0xFEE00000"
proof -
  have a: "mp_at (ex_mp 1 138) 0x8009F150 (0x8009F100 + 44) [Mproc 5, Mioapic 9, Mother 1] 0x8009F150" by code_simp
  have e: "0x8009F150 = (0x8009F100 :: u32) + of_nat (conf_length (ex_mp 1 138) 0x8009F100)" by code_simp
  have l: "load32 (ex_mp 1 138) (0x8009F100 + 36) = 0xFEE00000" by code_simp
  have n: "ncpu ex_mpinfo = 0" by (simp add: ex_mpinfo_def)
  from mpinit_finds_cpus [OF ex_mp_found(1) a e n, of 0] obtain s' where
    "mpinit (ex_mp 1 138) 0 ex_mpinfo = Some (Inr s')" "cpu_list s' = take NCPU (mp_procs [Mproc 5, Mioapic 9, Mother 1])"
    "ioapicid s' = mp_ioapic (ioapicid ex_mpinfo) [Mproc 5, Mioapic 9, Mother 1]" "lapic s' = 0xFEE00000" unfolding l by blast
  then show ?thesis by (intro exI [of _ s'] conjI) simp_all
qed

text \<open>
  C39: When the walk comes to an entry of another kind, \<open>mpinit\<close> does not return: the panic that is meant for this case is not reached.
\<close>

theorem mpinit_hangs:
  assumes "mpconfig m = Some (Some (mp, conf))" "mp_at m e (conf + 44) es q" "e = conf + of_nat (conf_length m conf)" "q < e" "4 < m q" "ncpu s = 0"
  shows "mpinit m inb23 s = None"
proof -
  let ?s = "s\<lparr>lapic := load32 m (conf + 36)\<rparr>"
  obtain t where "mp_entries m (conf + 44) e True ?s = mp_entries m q e True t" using mp_entries_walk [OF assms(2), of ?s True] assms(6) by auto
  moreover have "mp_entries m q e True t = None" using mp_entries_stuck [of m q e True t] assms(4,5) by (cases "mp_entries m q e True t") auto
  ultimately show ?thesis using assms(1) unfolding assms(3) by (simp add: mpinit_def)
qed

theorem mpinit_hangs_witness: "mpinit (ex_mp 7 132) 0 ex_mpinfo = None"
proof -
  have a: "mp_at (ex_mp 7 132) 0x8009F150 (0x8009F100 + 44) [Mproc 5, Mioapic 9] 0x8009F148" by code_simp
  have e: "0x8009F150 = (0x8009F100 :: u32) + of_nat (conf_length (ex_mp 7 132) 0x8009F100)" by code_simp
  have l: "(0x8009F148 :: u32) < 0x8009F150" "4 < ex_mp 7 132 0x8009F148" by code_simp+
  show ?thesis by (rule mpinit_hangs [OF ex_mp_found(2) a e l]) (simp add: ex_mpinfo_def)
qed

end
