(* ===== verification/Xv6_Ata.thy ===== *)
theory Xv6_Ata
  imports Xv6_Bio
begin

text \<open>
  The disk controller as the drivers see it: the registers behind ports 0x1f2 to 0x1f7, the data that is sent with \<open>outsl\<close>, and
  the sector that the registers address. \<open>ide.c\<close> and \<open>bootmain.c\<close> both program it.
\<close>

section \<open>Ports\<close>

text \<open>
  \<open>regs\<close> is the last byte written to each port, \<open>a_cmd\<close> the command that the controller works on, and \<open>a_sent\<close> the data sent for it.
\<close>

record ata =
  regs :: "nat \<Rightarrow> byte"
  a_cmd :: "byte option"
  a_sent :: "block option"

definition outb :: "nat \<Rightarrow> byte \<Rightarrow> ata \<Rightarrow> ata" where
  "outb port v a =
     (if port = 0x1f7 then a\<lparr>a_cmd := Some v, a_sent := None\<rparr> else a\<lparr>regs := (regs a)(port := v)\<rparr>)"

definition outsl :: "block \<Rightarrow> ata \<Rightarrow> ata" where
  "outsl data a = a\<lparr>a_sent := Some data\<rparr>"

text \<open>The drive and the sector that the registers address, in linear addressing with 28 bits.\<close>

definition ata_drive :: "ata \<Rightarrow> nat" where
  "ata_drive a = (unat (regs a 0x1f6) div 16) mod 2"

definition ata_sector :: "ata \<Rightarrow> nat" where
  "ata_sector a = unat (regs a 0x1f3) + 256 * unat (regs a 0x1f4) + 65536 * unat (regs a 0x1f5) + 16777216 * (unat (regs a 0x1f6) mod 16)"

lemma outb_regs [simp]:
  "regs (outb p v a) = (if p = 0x1f7 then regs a else (regs a)(p := v))" "a_cmd (outb p v a) = (if p = 0x1f7 then Some v else a_cmd a)"
  "a_sent (outb p v a) = (if p = 0x1f7 then None else a_sent a)" "regs (outsl d a) = regs a" "a_cmd (outsl d a) = a_cmd a" "a_sent (outsl d a) = Some d"
  by (simp_all add: outb_def outsl_def)

section \<open>Sectors in bytes\<close>

text \<open>A sector number written to the registers byte by byte is the sector they address.\<close>

lemma unat_byte: "unat (ucast (drop_bit k x) :: byte) = (unat x div 2 ^ k) mod 256" for x :: u32
proof -
  have "unat (drop_bit k x) = drop_bit k (unat x)" by (rule unat_drop_bit_eq)
  also have "\<dots> = unat x div 2 ^ k" by (rule drop_bit_eq_div)
  finally show ?thesis by (simp add: unsigned_ucast_eq take_bit_eq_mod)
qed

lemma split_sector:
  fixes n :: nat
  assumes "n < 2 ^ 28"
  shows "n mod 256 + 256 * (n div 256 mod 256) + 65536 * (n div 65536 mod 256) + 16777216 * (n div 16777216) = n"
proof -
  define a where "a = n div 256"
  define b where "b = a div 256"
  have e: "n div 65536 = b" "n div 16777216 = b div 256" unfolding a_def b_def by (simp_all flip: div_mult2_eq)
  have "n mod 256 + 256 * a = n" "a mod 256 + 256 * b = a" "b mod 256 + 256 * (b div 256) = b"
    unfolding a_def b_def by (rule mod_mult_div_eq)+
  then show ?thesis unfolding a_def [symmetric] e by linarith
qed

end
