(* ===== verification/Xv6_Ide.thy ===== *)
theory Xv6_Ide
  imports Xv6_Ata
begin

text \<open>
  The disk driver (\<open>ide.c\<close>): the queue of requests, linked through the buffers, the commands it gives to the controller, and the interrupt
  handler. Code under \<open>idelock\<close> is one step; a process that waits for its request is between two steps.
\<close>

section \<open>The code\<close>

text \<open>\<open>struct buf\<close> with its link in the queue.\<close>

record qbuf = buf +
  b_qnext :: "nat option"

text \<open>The globals of the driver, and the controller.\<close>

record ide = procs +
  qbufs :: "nat \<Rightarrow> qbuf"
  idequeue :: "nat option"
  havedisk1 :: bool
  ctl :: ata

abbreviation FSSIZE :: nat where "FSSIZE \<equiv> 1000"
abbreviation SECTOR_SIZE :: nat where "SECTOR_SIZE \<equiv> 512"
abbreviation IDE_BSY :: byte where "IDE_BSY \<equiv> 0x80"
abbreviation IDE_DRDY :: byte where "IDE_DRDY \<equiv> 0x40"
abbreviation IDE_DF :: byte where "IDE_DF \<equiv> 0x20"
abbreviation IDE_ERR :: byte where "IDE_ERR \<equiv> 0x01"
abbreviation IDE_CMD_READ :: byte where "IDE_CMD_READ \<equiv> 0x20"
abbreviation IDE_CMD_WRITE :: byte where "IDE_CMD_WRITE \<equiv> 0x30"
abbreviation IDE_CMD_RDMUL :: byte where "IDE_CMD_RDMUL \<equiv> 0xc4"
abbreviation IDE_CMD_WRMUL :: byte where "IDE_CMD_WRMUL \<equiv> 0xc5"

text \<open>
  \<open>sts\<close> are the bytes that the status register will return; what is left of them is passed on. \<open>None\<close>: the loop is still waiting when they
  are used up.
\<close>

fun idewait :: "bool \<Rightarrow> byte list \<Rightarrow> (int \<times> byte list) option" where
  "idewait checkerr [] = None"
| "idewait checkerr (r # sts) =
     (if r AND (IDE_BSY OR IDE_DRDY) \<noteq> IDE_DRDY then idewait checkerr sts
      else if checkerr \<and> r AND (IDE_DF OR IDE_ERR) \<noteq> 0 then Some (- 1, sts)
      else Some (0, sts))"

text \<open>The loop of \<open>ideinit\<close> that looks for disk 1, with \<open>n\<close> turns left.\<close>

fun ide_probe :: "nat \<Rightarrow> byte list \<Rightarrow> (bool \<times> byte list) option" where
  "ide_probe 0 sts = Some (False, sts)"
| "ide_probe (Suc n) [] = None"
| "ide_probe (Suc n) (r # sts) = (if r \<noteq> 0 then Some (True, sts) else ide_probe n sts)"

definition ide_init :: "byte list \<Rightarrow> 'a ide_scheme \<Rightarrow> ('a ide_scheme \<times> byte list) option" where
  "ide_init sts s =
     Option.bind (idewait False sts) (\<lambda>(r, sts).
       Option.bind (ide_probe 1000 sts) (\<lambda>(found, sts).
         Some (s\<lparr>havedisk1 := havedisk1 s \<or> found,
                 ctl := outb 0x1f6 (0xe0 OR push_bit 4 0) (outb 0x1f6 (0xe0 OR push_bit 4 1) (ctl s))\<rparr>, sts)))"

text \<open>The bytes that \<open>idestart\<close> sends to the controller.\<close>

definition ide_command :: "qbuf \<Rightarrow> ata \<Rightarrow> ata" where
  "ide_command b c =
     (let sector_per_block = BSIZE div SECTOR_SIZE;
          sector = (of_nat (b_blockno b * sector_per_block) :: u32);
          read_cmd = (if sector_per_block = 1 then IDE_CMD_READ else IDE_CMD_RDMUL);
          write_cmd = (if sector_per_block = 1 then IDE_CMD_WRITE else IDE_CMD_WRMUL);
          c = outb 0x3f6 0 c;
          c = outb 0x1f2 (of_nat sector_per_block) c;
          c = outb 0x1f3 (ucast (sector AND 0xff)) c;
          c = outb 0x1f4 (ucast (drop_bit 8 sector AND 0xff)) c;
          c = outb 0x1f5 (ucast (drop_bit 16 sector AND 0xff)) c;
          c = outb 0x1f6 (0xe0 OR push_bit 4 (of_nat (b_dev b) AND 1) OR ucast (drop_bit 24 sector AND 0x0f)) c
      in if b_dirty b then outsl (b_data b) (outb 0x1f7 write_cmd c) else outb 0x1f7 read_cmd c)"

definition idestart :: "nat option \<Rightarrow> byte list \<Rightarrow> 'a ide_scheme \<Rightarrow> ('a ide_scheme \<times> byte list) res option" where
  "idestart b sts s =
     (case b of
        None \<Rightarrow> Some (Inl (Panic ''idestart''))
      | Some i \<Rightarrow>
          if b_blockno (qbufs s i) \<ge> FSSIZE then Some (Inl (Panic ''incorrect blockno''))
          else if BSIZE div SECTOR_SIZE > 7 then Some (Inl (Panic ''idestart''))
          else Option.bind (idewait False sts) (\<lambda>(r, sts). Some (Inr (s\<lparr>ctl := ide_command (qbufs s i) (ctl s)\<rparr>, sts))))"

text \<open>The interrupt handler; \<open>data\<close> is what \<open>insl\<close> reads. Its second part marks the buffer and goes on to the next.\<close>

definition ide_done :: "nat \<Rightarrow> qbuf \<Rightarrow> byte list \<Rightarrow> 'a ide_scheme \<Rightarrow> ('a ide_scheme \<times> byte list) res option" where
  "ide_done i b sts s =
     (let s = wakeup (''ide'', i) (s\<lparr>qbufs := (qbufs s)(i := b\<lparr>b_valid := True, b_dirty := False\<rparr>)\<rparr>)
      in if idequeue s \<noteq> None then idestart (idequeue s) sts s else Some (Inr (s, sts)))"

definition ideintr :: "byte list \<Rightarrow> block \<Rightarrow> 'a ide_scheme \<Rightarrow> ('a ide_scheme \<times> byte list) res option" where
  "ideintr sts data s =
     (case idequeue s of
        None \<Rightarrow> Some (Inr (s, sts))
      | Some i \<Rightarrow>
          let b = qbufs s i;
              s = s\<lparr>idequeue := b_qnext b\<rparr>
          in if \<not> b_dirty b
             then Option.bind (idewait True sts) (\<lambda>(r, sts). ide_done i (if r \<ge> 0 then b\<lparr>b_data := data\<rparr> else b) sts s)
             else ide_done i b sts s)"

text \<open>
  \<open>iderw\<close>. The pointer \<open>pp\<close> points to \<open>idequeue\<close> (\<open>None\<close>) or to the link of a buffer. The first part ends when the request is in the queue, the
  second is the loop that sleeps.
\<close>

definition ide_deref :: "nat option \<Rightarrow> 'a ide_scheme \<Rightarrow> nat option" where
  "ide_deref pp s = (case pp of None \<Rightarrow> idequeue s | Some j \<Rightarrow> b_qnext (qbufs s j))"

partial_function (option) ide_end :: "nat option \<Rightarrow> 'a ide_scheme \<Rightarrow> nat option option" where
  "ide_end pp s = (case ide_deref pp s of None \<Rightarrow> Some pp | Some j \<Rightarrow> ide_end (Some j) s)"

definition ide_assign :: "nat option \<Rightarrow> nat \<Rightarrow> 'a ide_scheme \<Rightarrow> 'a ide_scheme" where
  "ide_assign pp i s =
     (case pp of
        None \<Rightarrow> s\<lparr>idequeue := Some i\<rparr>
      | Some j \<Rightarrow> s\<lparr>qbufs := (qbufs s)(j := (qbufs s j)\<lparr>b_qnext := Some i\<rparr>)\<rparr>)"

definition ide_submit :: "nat \<Rightarrow> byte list \<Rightarrow> 'a ide_scheme \<Rightarrow> ('a ide_scheme \<times> byte list) res option" where
  "ide_submit i sts s =
     (let b = qbufs s i
      in if \<not> holdingsleep (mypid s) (b_lock b) then Some (Inl (Panic ''iderw: buf not locked''))
         else if b_valid b \<and> \<not> b_dirty b then Some (Inl (Panic ''iderw: nothing to do''))
         else if b_dev b \<noteq> 0 \<and> \<not> havedisk1 s then Some (Inl (Panic ''iderw: ide disk 1 not present''))
         else let s = s\<lparr>qbufs := (qbufs s)(i := b\<lparr>b_qnext := None\<rparr>)\<rparr>
              in Option.bind (ide_end None s) (\<lambda>pp.
                   let s = ide_assign pp i s
                   in if idequeue s = Some i then idestart (Some i) sts s else Some (Inr (s, sts))))"

definition ide_wait :: "nat \<Rightarrow> 'a ide_scheme \<Rightarrow> 'a ide_scheme res" where
  "ide_wait i s = (if b_valid (qbufs s i) \<and> \<not> b_dirty (qbufs s i) then Inr s else Inl (Blocked (''ide'', i)))"

definition ide_rw :: "nat \<Rightarrow> byte list \<Rightarrow> 'a ide_scheme \<Rightarrow> 'a ide_scheme res option" where
  "ide_rw i sts s = map_option (\<lambda>r. bindR r (\<lambda>(s, sts). ide_wait i s)) (ide_submit i sts s)"

section \<open>Commands\<close>

text \<open>The controller works on the request of buffer \<open>b\<close>.\<close>

definition programmed :: "qbuf \<Rightarrow> ata \<Rightarrow> bool" where
  "programmed b c \<longleftrightarrow> ata_drive c = b_dev b mod 2 \<and> ata_sector c = b_blockno b \<and> a_cmd c = Some (if b_dirty b then IDE_CMD_WRITE else IDE_CMD_READ)
     \<and> a_sent c = (if b_dirty b then Some (b_data b) else None)"

lemma ucast_byte_mask: "(ucast (w AND 0xff) :: byte) = ucast w" for w :: u32
proof -
  have "w AND 0xff = take_bit 8 w" by (simp add: take_bit_eq_mask mask_eq_exp_minus_1)
  then show ?thesis by (simp add: unsigned_ucast_eq word_uint_eq_iff unsigned_take_bit_eq)
qed

lemma drive_bit: "(of_nat d AND 1 :: byte) = of_nat (d mod 2)"
  by (simp add: and_one_eq mod_2_eq_odd bit_simps flip: bit_0)

lemma ide_command_programs:
  assumes "b_blockno b < FSSIZE"
  shows "programmed b (ide_command b c)"
proof -
  let ?n = "of_nat (b_blockno b) :: u32"
  define drv :: byte where "drv = (if b_dev b mod 2 = 0 then 0xe0 else 0xf0)"
  have u: "unat ?n = b_blockno b" using assms by (simp add: unsigned_of_nat take_bit_eq_mod)
  have "unat (drop_bit 24 ?n) = drop_bit 24 (unat ?n)" by (rule unat_drop_bit_eq)
  also have "\<dots> = 0" using u assms by (simp add: drop_bit_eq_div)
  finally have z: "drop_bit 24 ?n = 0" by (simp only: unat_eq_zero)
  have d: "0xe0 OR push_bit 4 (of_nat (b_dev b) AND 1) = drv"
    unfolding drive_bit drv_def by (cases "b_dev b mod 2 = 0") (auto simp: odd_iff_mod_2_eq_one)
  have bytes: "unat (ucast ?n :: byte) = b_blockno b mod 256" "unat (ucast (drop_bit 8 ?n) :: byte) = b_blockno b div 256 mod 256"
    "unat (ucast (drop_bit 16 ?n) :: byte) = b_blockno b div 65536 mod 256"
    using unat_byte [of 0 ?n] unat_byte [of 8 ?n] unat_byte [of 16 ?n] u by simp_all
  have s: "b_blockno b mod 256 + 256 * (b_blockno b div 256 mod 256) + 65536 * (b_blockno b div 65536 mod 256) = b_blockno b"
    using split_sector [of "b_blockno b"] assms by simp
  have drive: "unat drv div 16 mod 2 = b_dev b mod 2" "unat drv mod 16 = 0" by (auto simp: drv_def)
  have cmd: "ide_command b c =
      (let c = outb 0x1f6 drv (outb 0x1f5 (ucast (drop_bit 16 ?n)) (outb 0x1f4 (ucast (drop_bit 8 ?n)) (outb 0x1f3 (ucast ?n) (outb 0x1f2 1 (outb 0x3f6 0 c)))))
       in if b_dirty b then outsl (b_data b) (outb 0x1f7 IDE_CMD_WRITE c) else outb 0x1f7 IDE_CMD_READ c)"
    unfolding ide_command_def using d by (simp add: Let_def ucast_byte_mask z)
  show ?thesis unfolding cmd Let_def programmed_def ata_drive_def ata_sector_def using s drive bytes by auto
qed

lemma idestart_programs:
  assumes "idestart (Some i) sts s = Some (Inr (s', sts'))"
  shows "s' = s\<lparr>ctl := ide_command (qbufs s i) (ctl s)\<rparr>" "b_blockno (qbufs s i) < FSSIZE"
  using assms by (auto simp: idestart_def bind_eq_Some_conv split: if_splits)

section \<open>The queue\<close>

text \<open>The links lead from \<open>p\<close> along \<open>q\<close> to the end.\<close>

fun linked :: "(nat \<Rightarrow> qbuf) \<Rightarrow> nat option \<Rightarrow> nat list \<Rightarrow> bool" where
  "linked m p [] \<longleftrightarrow> p = None"
| "linked m p (i # q) \<longleftrightarrow> p = Some i \<and> linked m (b_qnext (m i)) q"

lemma linked_cong: "(\<And>i. i \<in> set q \<Longrightarrow> b_qnext (m i) = b_qnext (m' i)) \<Longrightarrow> linked m p q \<longleftrightarrow> linked m' p q"
  by (induction q arbitrary: p) auto

lemma ide_end_last: "linked (qbufs s) (ide_deref pp s) q \<Longrightarrow> ide_end pp s = Some (if q = [] then pp else Some (last q))"
proof (induction q arbitrary: pp)
  case Nil
  then show ?case by (subst ide_end.simps) simp
next
  case (Cons i q)
  then have "ide_end (Some i) s = Some (if q = [] then Some i else Some (last q))" by (simp add: ide_deref_def)
  then show ?case using Cons.prems by (subst ide_end.simps) simp
qed

lemma linked_snoc:
  "linked m p q \<Longrightarrow> q \<noteq> [] \<Longrightarrow> distinct q \<Longrightarrow> i \<notin> set q \<Longrightarrow> b_qnext (m i) = None \<Longrightarrow>
     linked (m(last q := (m (last q))\<lparr>b_qnext := Some i\<rparr>)) p (q @ [i])"
proof (induction q arbitrary: p)
  case (Cons j q)
  show ?case
  proof (cases "q = []")
    case True
    then show ?thesis using Cons.prems by simp
  next
    case False
    then have "last q \<noteq> j" using Cons.prems by auto
    then show ?thesis using Cons False by simp
  qed
qed simp

text \<open>Buffers that differ in their links only.\<close>

definition same_but_qnext :: "(nat \<Rightarrow> qbuf) \<Rightarrow> (nat \<Rightarrow> qbuf) \<Rightarrow> bool" where
  "same_but_qnext m m' \<longleftrightarrow> (\<forall>j. m' j = (m j)\<lparr>b_qnext := b_qnext (m' j)\<rparr>)"

lemma same_but_qnext_trans: "same_but_qnext m m' \<Longrightarrow> same_but_qnext m' m'' \<Longrightarrow> same_but_qnext m m''"
  unfolding same_but_qnext_def by (metis qbuf.surjective qbuf.update_convs(1))

text \<open>Appending to the queue, as \<open>iderw\<close> does it through \<open>pp\<close>.\<close>

lemma ide_append:
  assumes "linked (qbufs s) (idequeue s) q" "distinct q" "i \<notin> set q" "b_qnext (qbufs s i) = None" "ide_end None s = Some pp"
  shows "linked (qbufs (ide_assign pp i s)) (idequeue (ide_assign pp i s)) (q @ [i])" "(idequeue (ide_assign pp i s) = Some i) = (q = [])"
    "same_but_qnext (qbufs s) (qbufs (ide_assign pp i s))" "ctl (ide_assign pp i s) = ctl s"
proof -
  have pp: "pp = (if q = [] then None else Some (last q))" using ide_end_last [of s None q] assms(1,5) by (simp add: ide_deref_def)
  have "linked (qbufs (ide_assign pp i s)) (idequeue (ide_assign pp i s)) (q @ [i]) \<and> (idequeue (ide_assign pp i s) = Some i) = (q = [])"
  proof (cases "q = []")
    case True
    then show ?thesis using pp assms(4) by (simp add: ide_assign_def)
  next
    case False
    then have "idequeue s \<noteq> Some i" using assms(1,3) by (cases q) auto
    then show ?thesis using False pp linked_snoc [OF assms(1) False assms(2-4)] by (simp add: ide_assign_def)
  qed
  then show "linked (qbufs (ide_assign pp i s)) (idequeue (ide_assign pp i s)) (q @ [i])" "(idequeue (ide_assign pp i s) = Some i) = (q = [])" by simp_all
  show "same_but_qnext (qbufs s) (qbufs (ide_assign pp i s))" "ctl (ide_assign pp i s) = ctl s"
    by (auto simp: ide_assign_def same_but_qnext_def split: option.splits)
qed

section \<open>The driver, the processes and the disks\<close>

text \<open>
  A request, as made by \<open>iderw\<close>: the buffer, drive and sector, and the data of a write. An event, as the disk sees it: the request, whether the
  command succeeded, and what the sector holds afterwards.
\<close>

type_synonym ide_request = "nat \<times> nat \<times> nat \<times> block option"
type_synonym ide_event = "nat \<times> nat \<times> nat \<times> block option \<times> bool \<times> block"

definition request_of :: "(nat \<Rightarrow> qbuf) \<Rightarrow> nat \<Rightarrow> ide_request" where
  "request_of m i = (i, b_dev (m i) mod 2, b_blockno (m i), if b_dirty (m i) then Some (b_data (m i)) else None)"

definition event_request :: "ide_event \<Rightarrow> ide_request" where
  "event_request = (\<lambda>(i, d, n, wd, ok, x). (i, d, n, wd))"

text \<open>
  What a command leaves in a sector that held \<open>old\<close>: a read changes nothing, a write that succeeds leaves its data, and one that fails may leave
  anything.
\<close>

definition sector_after :: "block option \<Rightarrow> bool \<Rightarrow> block \<Rightarrow> block \<Rightarrow> bool" where
  "sector_after wd ok old x \<longleftrightarrow> (case wd of None \<Rightarrow> x = old | Some b \<Rightarrow> ok \<longrightarrow> x = b)"

text \<open>The disk after a sequence of events, \<open>None\<close> if one of them leaves something else in its sector.\<close>

fun replay :: "(nat \<Rightarrow> nat \<Rightarrow> block) \<Rightarrow> ide_event list \<Rightarrow> (nat \<Rightarrow> nat \<Rightarrow> block) option" where
  "replay D [] = Some D"
| "replay D ((i, d, n, wd, ok, x) # es) = (if sector_after wd ok (D d n) x then replay (D(d := (D d)(n := x))) es else None)"

text \<open>The system: the kernel, the disks, the buffers whose \<open>iderw\<close> is in its loop, and what has been asked for and served.\<close>

record idesys =
  kern :: ide
  drives :: "nat \<Rightarrow> nat \<Rightarrow> block"
  in_loop :: "nat set"
  asked :: "ide_request list"
  served :: "ide_event list"

text \<open>What the controller may do for its command before it interrupts.\<close>

definition ata_serves :: "nat \<Rightarrow> ata \<Rightarrow> (nat \<Rightarrow> nat \<Rightarrow> block) \<Rightarrow> ide_event \<Rightarrow> bool" where
  "ata_serves i c D = (\<lambda>(j, d, n, wd, ok, x). j = i \<and> d = ata_drive c \<and> n = ata_sector c \<and>
     wd = (if a_cmd c = Some IDE_CMD_WRITE then a_sent c else None) \<and> sector_after wd ok (D d n) x)"

text \<open>
  The status that \<open>ideintr\<close> reads after a read command tells whether the command failed. After a write command the code does not look at the status.
\<close>

inductive ide_step :: "idesys \<Rightarrow> idesys \<Rightarrow> bool" where
  submit: "i \<notin> in_loop t \<Longrightarrow> ide_submit i sts (kern t) = Some (Inr (k, sts')) \<Longrightarrow>
    ide_step t (t\<lparr>kern := k, in_loop := insert i (in_loop t), asked := asked t @ [request_of (qbufs (kern t)) i]\<rparr>)"
| interrupt: "idequeue (kern t) = Some i \<Longrightarrow> a_cmd (ctl (kern t)) \<noteq> None \<Longrightarrow> ata_serves i (ctl (kern t)) (drives t) (i, d, n, wd, ok, x) \<Longrightarrow>
    (\<And>r sts1. wd = None \<Longrightarrow> idewait True sts = Some (r, sts1) \<Longrightarrow> (r = 0) = ok) \<Longrightarrow>
    ideintr sts x (kern t\<lparr>ctl := (ctl (kern t))\<lparr>a_cmd := None\<rparr>\<rparr>) = Some (Inr (k, sts')) \<Longrightarrow>
    ide_step t (t\<lparr>kern := k, drives := (drives t)(d := (drives t d)(n := x)), served := served t @ [(i, d, n, wd, ok, x)]\<rparr>)"
| leave: "i \<in> in_loop t \<Longrightarrow> ide_wait i (kern t) = Inr k \<Longrightarrow> ide_step t (t\<lparr>kern := k, in_loop := in_loop t - {i}\<rparr>)"
| change: "i \<notin> in_loop t \<Longrightarrow> ide_step t (t\<lparr>kern := kern t\<lparr>qbufs := (qbufs (kern t))(i := b)\<rparr>\<rparr>)"
| switch: "ide_step t (t\<lparr>kern := kern t\<lparr>cpu_proc := p\<rparr>\<rparr>)"

definition ide_start :: "(nat \<Rightarrow> nat \<Rightarrow> block) \<Rightarrow> idesys \<Rightarrow> bool" where
  "ide_start D t \<longleftrightarrow> idequeue (kern t) = None \<and> a_cmd (ctl (kern t)) = None \<and> drives t = D \<and> in_loop t = {} \<and> asked t = [] \<and> served t = []"

definition has_data :: "block option \<Rightarrow> bool \<Rightarrow> block \<Rightarrow> block \<Rightarrow> bool" where
  "has_data wd ok x b \<longleftrightarrow> (case wd of None \<Rightarrow> ok \<longrightarrow> b = x | Some b' \<Rightarrow> b = b')"

text \<open>
  The last event for the buffer was one for its block, and the buffer has the data of that write, or what the disk had for that read unless it
  failed.
\<close>

definition done_by :: "ide_event list \<Rightarrow> (nat \<Rightarrow> qbuf) \<Rightarrow> nat \<Rightarrow> bool" where
  "done_by es m i \<longleftrightarrow> (\<exists>wd ok x. find (\<lambda>e. fst e = i) (rev es) = Some (i, b_dev (m i) mod 2, b_blockno (m i), wd, ok, x) \<and>
     has_data wd ok x (b_data (m i)))"

definition ide_inv :: "(nat \<Rightarrow> nat \<Rightarrow> block) \<Rightarrow> idesys \<Rightarrow> nat list \<Rightarrow> bool" where
  "ide_inv D t q \<longleftrightarrow> linked (qbufs (kern t)) (idequeue (kern t)) q \<and> distinct q \<and> set q \<subseteq> in_loop t
     \<and> (\<forall>i \<in> in_loop t. i \<in> set q \<longleftrightarrow> \<not> (b_valid (qbufs (kern t) i) \<and> \<not> b_dirty (qbufs (kern t) i)))
     \<and> (\<forall>i \<in> in_loop t - set q. done_by (served t) (qbufs (kern t)) i)
     \<and> (if q = [] then a_cmd (ctl (kern t)) = None else programmed (qbufs (kern t) (hd q)) (ctl (kern t)))
     \<and> asked t = map event_request (served t) @ map (request_of (qbufs (kern t))) q \<and> replay D (served t) = Some (drives t)"

section \<open>The invariant\<close>

lemma replay_snoc: "replay D (es @ [e]) = Option.bind (replay D es) (\<lambda>D. replay D [e])"
proof (induction es arbitrary: D)
  case (Cons a es)
  then show ?case by (cases a) (simp add: fun_upd_def)
qed simp

lemma same_but_qnext_fields:
  assumes "same_but_qnext m m'"
  shows "b_valid (m' j) = b_valid (m j)" "b_dirty (m' j) = b_dirty (m j)" "request_of m' j = request_of m j" "programmed (m' j) c = programmed (m j) c" "done_by es m' j = done_by es m j"
proof -
  have e: "m' j = (m j)\<lparr>b_qnext := b_qnext (m' j)\<rparr>" using assms by (simp add: same_but_qnext_def)
  have f: "b_valid (m' j) = b_valid (m j)" "b_dirty (m' j) = b_dirty (m j)" "b_dev (m' j) = b_dev (m j)" "b_blockno (m' j) = b_blockno (m j)"
    "b_data (m' j) = b_data (m j)" by (subst e; simp)+
  then show "b_valid (m' j) = b_valid (m j)" "b_dirty (m' j) = b_dirty (m j)" "request_of m' j = request_of m j" "programmed (m' j) c = programmed (m j) c" "done_by es m' j = done_by es m j"
    by (simp_all add: request_of_def programmed_def done_by_def)
qed

lemma ide_inv_submit:
  assumes "ide_inv D t q" "i \<notin> in_loop t" "ide_submit i sts (kern t) = Some (Inr (k, sts'))"
  shows "ide_inv D (t\<lparr>kern := k, in_loop := insert i (in_loop t), asked := asked t @ [request_of (qbufs (kern t)) i]\<rparr>) (q @ [i])"
proof -
  let ?m = "qbufs (kern t)"
  define s1 where "s1 = kern t\<lparr>qbufs := ?m(i := (?m i)\<lparr>b_qnext := None\<rparr>)\<rparr>"
  have q: "linked ?m (idequeue (kern t)) q" "distinct q" "i \<notin> set q" using assms(1,2) by (auto simp: ide_inv_def)
  have "linked (qbufs s1) (idequeue s1) q \<longleftrightarrow> linked ?m (idequeue s1) q" by (rule linked_cong) (use q(3) in \<open>auto simp: s1_def\<close>)
  then have l1: "linked (qbufs s1) (idequeue s1) q" using q(1) by (simp add: s1_def)
  obtain pp where pp: "ide_end None s1 = Some pp" and u: "\<not> (b_valid (?m i) \<and> \<not> b_dirty (?m i))"
    and k: "(if idequeue (ide_assign pp i s1) = Some i then idestart (Some i) sts (ide_assign pp i s1) else Some (Inr (ide_assign pp i s1, sts))) = Some (Inr (k, sts'))"
    using assms(3) by (auto simp: ide_submit_def Let_def s1_def bind_eq_Some_conv split: if_splits)
  note ap = ide_append [OF l1 q(2,3) _ pp]
  have n: "b_qnext (qbufs s1 i) = None" by (simp add: s1_def)
  define s2 where "s2 = ide_assign pp i s1"
  have s2: "linked (qbufs s2) (idequeue s2) (q @ [i])" "(idequeue s2 = Some i) = (q = [])" "ctl s2 = ctl (kern t)" "same_but_qnext (qbufs s1) (qbufs s2)"
    using ap [OF n] by (simp_all add: s2_def s1_def)
  have same: "same_but_qnext ?m (qbufs s2)" by (rule same_but_qnext_trans [OF _ s2(4)]) (simp add: same_but_qnext_def s1_def)
  have k2: "qbufs k = qbufs s2" "idequeue k = idequeue s2" "q \<noteq> [] \<Longrightarrow> ctl k = ctl (kern t)" "q = [] \<Longrightarrow> programmed (qbufs s2 i) (ctl k)"
    using k s2(2,3) idestart_programs [of i sts s2 k sts'] ide_command_programs [of "qbufs s2 i" "ctl s2"] by (auto simp: s2_def split: if_splits)
  note f = same_but_qnext_fields [OF same]
  have "programmed (qbufs k (hd (q @ [i]))) (ctl k)" using k2 f(4) assms(1) by (cases q) (auto simp: ide_inv_def)
  moreover have "map (request_of (qbufs k)) (q @ [i]) = map (request_of ?m) q @ [request_of ?m i]" using f(3) k2(1) by simp
  moreover have "\<forall>j \<in> insert i (in_loop t). j \<in> set (q @ [i]) \<longleftrightarrow> \<not> (b_valid (qbufs k j) \<and> \<not> b_dirty (qbufs k j))"
    using assms(1,2) u f(1,2) k2(1) by (auto simp: ide_inv_def)
  moreover have "\<forall>j \<in> insert i (in_loop t) - set (q @ [i]). done_by (served t) (qbufs k) j" using assms(1) f(5) k2(1) by (auto simp: ide_inv_def)
  moreover have "set q \<subseteq> in_loop t" "asked t = map event_request (served t) @ map (request_of ?m) q" "replay D (served t) = Some (drives t)"
    using assms(1) by (simp_all add: ide_inv_def)
  ultimately show ?thesis unfolding ide_inv_def using s2(1) k2(1,2) q by auto
qed

lemma idewait_result: "idewait c sts = Some (r, sts') \<Longrightarrow> r = 0 \<or> r = - 1"
  by (induction c sts rule: idewait.induct) (auto split: if_splits)

definition new_data :: "qbuf \<Rightarrow> bool \<Rightarrow> block \<Rightarrow> block" where
  "new_data b ok x = (if \<not> b_dirty b \<and> ok then x else b_data b)"

lemma ideintr_head:
  assumes "idequeue s = Some i" "ideintr sts data s = Some (Inr (k, sts'))"
    "\<And>r sts1. \<not> b_dirty (qbufs s i) \<Longrightarrow> idewait True sts = Some (r, sts1) \<Longrightarrow> (r = 0) = ok"
  shows "\<exists>sts1. ide_done i ((qbufs s i)\<lparr>b_data := new_data (qbufs s i) ok data\<rparr>) sts1
    (s\<lparr>idequeue := b_qnext (qbufs s i)\<rparr>) = Some (Inr (k, sts'))"
proof (cases "b_dirty (qbufs s i)")
  case True
  then show ?thesis using assms(1,2) by (intro exI [of _ sts]) (simp add: ideintr_def Let_def new_data_def)
next
  case False
  then obtain r sts1 where r: "idewait True sts = Some (r, sts1)" using assms(1,2) by (cases "idewait True sts") (auto simp: ideintr_def Let_def)
  have "0 \<le> r \<longleftrightarrow> ok" using idewait_result [OF r] assms(3) [OF False r] by auto
  then show ?thesis using False r assms(1,2) by (intro exI [of _ sts1]) (auto simp: ideintr_def Let_def new_data_def split: if_splits)
qed

lemma idestart_next:
  assumes "(if idequeue s \<noteq> None then idestart (idequeue s) sts s else Some (Inr (s, sts))) = Some (Inr (k, sts'))" "linked (qbufs s) (idequeue s) q"
  shows "qbufs k = qbufs s" "idequeue k = idequeue s" "q = [] \<Longrightarrow> ctl k = ctl s" "q \<noteq> [] \<Longrightarrow> programmed (qbufs s (hd q)) (ctl k)"
proof -
  have "qbufs k = qbufs s \<and> idequeue k = idequeue s \<and> (q = [] \<longrightarrow> ctl k = ctl s) \<and> (q \<noteq> [] \<longrightarrow> programmed (qbufs s (hd q)) (ctl k))"
  proof (cases q)
    case Nil
    then show ?thesis using assms by simp
  next
    case (Cons i q')
    then have "idestart (Some i) sts s = Some (Inr (k, sts'))" using assms by simp
    from idestart_programs [OF this] Cons show ?thesis by (simp add: ide_command_programs)
  qed
  then show "qbufs k = qbufs s" "idequeue k = idequeue s" "q = [] \<Longrightarrow> ctl k = ctl s" "q \<noteq> [] \<Longrightarrow> programmed (qbufs s (hd q)) (ctl k)" by auto
qed

lemma ide_inv_interrupt:
  assumes "ide_inv D t q" "idequeue (kern t) = Some i" "ata_serves i (ctl (kern t)) (drives t) (i, d, n, wd, ok, x)"
    "\<And>r sts1. wd = None \<Longrightarrow> idewait True sts = Some (r, sts1) \<Longrightarrow> (r = 0) = ok"
    "ideintr sts x (kern t\<lparr>ctl := (ctl (kern t))\<lparr>a_cmd := None\<rparr>\<rparr>) = Some (Inr (k, sts'))"
  shows "ide_inv D (t\<lparr>kern := k, drives := (drives t)(d := (drives t d)(n := x)), served := served t @ [(i, d, n, wd, ok, x)]\<rparr>) (tl q)"
proof -
  let ?m = "qbufs (kern t)" and ?c = "ctl (kern t)"
  let ?data = "new_data (?m i) ok x"
  let ?b = "(?m i)\<lparr>b_data := ?data, b_valid := True, b_dirty := False\<rparr>"
  obtain q' where q: "q = i # q'" "linked ?m (b_qnext (?m i)) q'" "distinct q" "set q \<subseteq> in_loop t" "programmed (?m i) ?c"
    using assms(1,2) by (cases q) (auto simp: ide_inv_def)
  have ev: "d = b_dev (?m i) mod 2" "n = b_blockno (?m i)" "wd = (if b_dirty (?m i) then Some (b_data (?m i)) else None)"
    "sector_after wd ok (drives t d n) x"
    using assms(3) q(5) by (auto simp: ata_serves_def programmed_def)
  let ?s = "kern t\<lparr>ctl := ?c\<lparr>a_cmd := None\<rparr>\<rparr>"
  have "\<exists>sts1. ide_done i ((qbufs ?s i)\<lparr>b_data := new_data (qbufs ?s i) ok x\<rparr>) sts1
      (?s\<lparr>idequeue := b_qnext (qbufs ?s i)\<rparr>) = Some (Inr (k, sts'))"
    by (rule ideintr_head [OF _ assms(5)]) (use assms(2,4) ev(3) in simp_all)
  then obtain sts1 where d: "ide_done i ((?m i)\<lparr>b_data := ?data\<rparr>) sts1 (?s\<lparr>idequeue := b_qnext (?m i)\<rparr>) = Some (Inr (k, sts'))" by auto
  let ?s1 = "?s\<lparr>idequeue := b_qnext (?m i)\<rparr>"
  define s2 where "s2 = wakeup (''ide'', i) (?s1\<lparr>qbufs := (qbufs ?s1)(i := (?m i)\<lparr>b_data := ?data\<rparr>\<lparr>b_valid := True, b_dirty := False\<rparr>)\<rparr>)"
  have st: "(if idequeue s2 \<noteq> None then idestart (idequeue s2) sts1 s2 else Some (Inr (s2, sts1))) = Some (Inr (k, sts'))"
    using d unfolding ide_done_def Let_def s2_def .
  have s2: "qbufs s2 = ?m(i := ?b)" "idequeue s2 = b_qnext (?m i)" "ctl s2 = ?c\<lparr>a_cmd := None\<rparr>" by (simp_all add: s2_def wakeup_def)
  have l: "linked (qbufs s2) (idequeue s2) q'"
  proof -
    have "linked (qbufs s2) (idequeue s2) q' \<longleftrightarrow> linked ?m (idequeue s2) q'" by (rule linked_cong) (use q(1,3) s2(1) in auto)
    then show ?thesis using q(2) s2(2) by simp
  qed
  note k = idestart_next [OF st l]
  have "\<forall>j \<in> in_loop t. j \<in> set q' \<longleftrightarrow> \<not> (b_valid (qbufs k j) \<and> \<not> b_dirty (qbufs k j))"
    using assms(1) q k(1) s2(1) by (auto simp: ide_inv_def)
  moreover have "map (request_of (qbufs k)) q' = map (request_of ?m) q'" using q k(1) s2(1) by (auto simp: request_of_def)
  moreover have "request_of ?m i = event_request (i, d, n, wd, ok, x)" using ev by (simp add: request_of_def event_request_def)
  moreover have "replay D (served t @ [(i, d, n, wd, ok, x)]) = Some ((drives t)(d := (drives t d)(n := x)))"
    using assms(1) ev(4) by (simp add: ide_inv_def replay_snoc)
  moreover have "done_by (served t @ [(i, d, n, wd, ok, x)]) (qbufs k) j" if "j \<in> in_loop t - set q'" for j
  proof (cases "j = i")
    case False
    then have "done_by (served t) ?m j" using assms(1) that q(1) by (simp add: ide_inv_def)
    then show ?thesis using False k(1) s2(1) by (simp add: done_by_def)
  qed (use ev k(1) s2(1) in \<open>simp add: done_by_def has_data_def new_data_def\<close>)
  moreover have "asked t = map event_request (served t) @ map (request_of ?m) q" using assms(1) by (simp add: ide_inv_def)
  ultimately show ?thesis unfolding ide_inv_def using q k l s2(3) by auto
qed

lemma ide_inv_step:
  assumes "\<exists>q. ide_inv D t q" "ide_step t t'"
  shows "\<exists>q. ide_inv D t' q"
proof -
  obtain q where q: "ide_inv D t q" using assms(1) by blast
  from assms(2) show ?thesis
  proof cases
    case (submit i sts k sts')
    then show ?thesis using ide_inv_submit [OF q] by blast
  next
    case (interrupt i d n wd ok x sts k sts')
    have "ide_inv D t' (tl q)" unfolding interrupt(1)
      by (rule ide_inv_interrupt [OF q interrupt(2,4) _ interrupt(6)]) (use interrupt(5) in blast)
    then show ?thesis by blast
  next
    case (leave i k)
    then have "k = kern t" "b_valid (qbufs (kern t) i)" "\<not> b_dirty (qbufs (kern t) i)" by (auto simp: ide_wait_def split: if_splits)
    then have "ide_inv D t' q" using q leave by (auto simp: ide_inv_def)
    then show ?thesis by blast
  next
    case (change i b)
    have i: "i \<notin> set q" using q change(2) by (auto simp: ide_inv_def)
    have "linked ((qbufs (kern t))(i := b)) (idequeue (kern t)) q \<longleftrightarrow> linked (qbufs (kern t)) (idequeue (kern t)) q"
      by (rule linked_cong) (use i in auto)
    moreover have "map (request_of ((qbufs (kern t))(i := b))) q = map (request_of (qbufs (kern t))) q" using i by (auto simp: request_of_def)
    moreover have "q \<noteq> [] \<Longrightarrow> hd q \<noteq> i" using i by (cases q) auto
    ultimately have "ide_inv D t' q" using q change by (auto simp: ide_inv_def done_by_def)
    then show ?thesis by blast
  next
    case (switch p)
    then have "ide_inv D t' q" using q by (simp add: ide_inv_def)
    then show ?thesis by blast
  qed
qed

interpretation idesys: invariant_system "ide_start D" ide_step "\<lambda>t. \<exists>q. ide_inv D t q" for D
proof
  show "\<exists>q. ide_inv D t q" if "ide_start D t" for t using that by (intro exI [of _ "[]"]) (simp add: ide_start_def ide_inv_def)
qed (rule ide_inv_step)

section \<open>Progress\<close>





section \<open>Properties\<close>


text \<open>A process that holds buffers of block 5: the first has data to write, the others are to be read.\<close>

definition ex_qbuf :: "nat \<Rightarrow> qbuf" where
  "ex_qbuf i = \<lparr>b_valid = False, b_dirty = (i = 0), b_dev = 0, b_blockno = 5, b_lock = \<lparr>sl_locked = True, sl_pid = 1\<rparr>, b_refcnt = 1,
     b_prev = 0, b_next = 0, b_data = (\<lambda>_. if i = 0 then 7 else 3), b_qnext = None\<rparr>"

definition ex_ide :: ide where
  "ex_ide = \<lparr>ram = (\<lambda>_. 0), freelist = 0, use_lock = True, kend = 0, kpgdir = 0, cr3 = 0, tss_esp0 = 0, kdata = 0,
     ptable = (\<lambda>_. ex_proc), nextpid = 2, initproc = Some 0, cpu_proc = Some 0,
     qbufs = ex_qbuf, idequeue = None, havedisk1 = True, ctl = \<lparr>regs = (\<lambda>_. 0), a_cmd = None, a_sent = None\<rparr>\<rparr>"




text \<open>
  C40: When the controller reports an error for a read, \<open>ideintr\<close> marks the buffer as valid all the same, and \<open>iderw\<close> returns with the bytes that were in
  it before.
\<close>

theorem ide_read_error:
  assumes "idequeue s = Some i" "\<not> b_dirty (qbufs s i)" "b_qnext (qbufs s i) = None" "idewait True sts = Some (- 1, sts')"
  shows "\<exists>s'. ideintr sts data s = Some (Inr (s', sts')) \<and> b_valid (qbufs s' i) \<and> b_data (qbufs s' i) = b_data (qbufs s i) \<and> ide_wait i s' = Inr s'"
  using assms by (simp add: ideintr_def ide_done_def Let_def wakeup_def ide_wait_def)

theorem ide_read_error_witness:
  "\<exists>s'. ideintr [0x41] (\<lambda>_. 9) (ex_ide\<lparr>idequeue := Some 1\<rparr>) = Some (Inr (s', [])) \<and> b_valid (qbufs s' 1) \<and> b_data (qbufs s' 1) = (\<lambda>_. 3)"
  using ide_read_error [of "ex_ide\<lparr>idequeue := Some 1\<rparr>" 1 "[0x41]" "[]" "\<lambda>_. 9"] by (auto simp: ex_ide_def ex_qbuf_def)

end
