(* ===== verification/Xv6_Boot.thy ===== *)
theory Xv6_Boot
  imports Xv6_Ata
begin

text \<open>
  The boot loader (\<open>bootmain.c\<close>): it reads the kernel, an ELF file that starts at sector 1 of the disk, into memory segment by segment.
  \<open>img\<close> are the sectors of the drives; a loop that waits for the disk uses up the bytes that its status register returns.
\<close>

section \<open>The code\<close>













section \<open>Reading sectors\<close>







section \<open>Segments\<close>
















section \<open>The headers\<close>







section \<open>Properties\<close>








end
