(* ===== verification/Xv6_Mkfs.thy ===== *)
theory Xv6_Mkfs
  imports Xv6_Dir Xv6_Filter
begin

text \<open>
  The program of the build host that makes the initial file system (\<open>mkfs.c\<close>): the model of the whole program on the blocks of the image
  file, and what it keeps true of the image while it appends to files. \<open>exit(1)\<close> and a failed \<open>assert\<close> are \<open>None\<close>. Fields that the program
  uses without converting them back, as in \<open>IBLOCK(inum, sb)\<close>, are read as on a little-endian host.
\<close>

section \<open>The program\<close>

abbreviation FSSIZE :: nat where "FSSIZE \<equiv> 1000"
abbreviation NINODES :: nat where "NINODES \<equiv> 200"
abbreviation nbitmap :: nat where "nbitmap \<equiv> FSSIZE div (BSIZE * 8) + 1"
abbreviation ninodeblocks :: nat where "ninodeblocks \<equiv> NINODES div IPB + 1"
abbreviation nmeta :: nat where "nmeta \<equiv> 2 + LOGSIZE + ninodeblocks + nbitmap"

text \<open>The image file: its blocks, and how many sectors it has.\<close>

record mkfs =
  m_img :: "nat \<Rightarrow> block"
  m_size :: nat
  m_sb :: superblock
  freeinode :: nat
  freeblock :: nat

text \<open>The bytes of a number in Intel order, whatever the host.\<close>

definition xshort :: "u16 \<Rightarrow> byte list" where
  "xshort x = [ucast x, ucast (drop_bit 8 x)]"

definition xint :: "u32 \<Rightarrow> byte list" where
  "xint x = [ucast x, ucast (drop_bit 8 x), ucast (drop_bit 16 x), ucast (drop_bit 24 x)]"

definition wsect :: "nat \<Rightarrow> block \<Rightarrow> mkfs \<Rightarrow> mkfs" where
  "wsect sec buf s = s\<lparr>m_img := (m_img s)(sec := buf), m_size := max (m_size s) (sec + 1)\<rparr>"

definition rsect :: "nat \<Rightarrow> mkfs \<Rightarrow> block option" where
  "rsect sec s = (if sec < m_size s then Some (m_img s sec) else None)"

definition winode :: "nat \<Rightarrow> dinode \<Rightarrow> mkfs \<Rightarrow> mkfs option" where
  "winode inum din s =
     (let bn = IBLOCK inum (m_sb s)
      in Option.bind (rsect bn s) (\<lambda>buf. Some (wsect bn (put_dinode (inum mod IPB) din buf) s)))"

definition rinode :: "nat \<Rightarrow> mkfs \<Rightarrow> dinode option" where
  "rinode inum s = Option.bind (rsect (IBLOCK inum (m_sb s)) s) (\<lambda>buf. Some (get_dinode (inum mod IPB) buf))"

definition mkfs_ialloc :: "u16 \<Rightarrow> mkfs \<Rightarrow> (nat \<times> mkfs) option" where
  "mkfs_ialloc type s =
     (let inum = freeinode s;
          din = \<lparr>d_type = type, d_major = 0, d_minor = 0, d_nlink = 1, d_size = 0, d_addrs = replicate (NDIRECT + 1) 0\<rparr>
      in Option.bind (winode inum din (s\<lparr>freeinode := inum + 1\<rparr>)) (\<lambda>s. Some (inum, s)))"

definition mkfs_balloc :: "nat \<Rightarrow> mkfs \<Rightarrow> mkfs option" where
  "mkfs_balloc used s =
     (if used < BSIZE * 8 then Some (wsect (bmapstart (m_sb s)) (fold set_bit_of [0..<used] (\<lambda>_. 0)) s) else None)"

text \<open>The block for block \<open>fbn\<close> of a file in \<open>iappend\<close>: allocated, with the indirect block, if it is not there.\<close>

definition iappend_addr :: "nat \<Rightarrow> dinode \<Rightarrow> mkfs \<Rightarrow> (nat \<times> dinode \<times> mkfs) option" where
  "iappend_addr fbn din s =
     (let alloc = (\<lambda>i din s. if d_addrs din ! i = 0
                             then (din\<lparr>d_addrs := (d_addrs din)[i := freeblock s]\<rparr>, s\<lparr>freeblock := freeblock s + 1\<rparr>)
                             else (din, s))
      in if fbn < NDIRECT
         then (let (din, s) = alloc fbn din s in Some (d_addrs din ! fbn, din, s))
         else (let (din, s) = alloc NDIRECT din s;
                   k = 4 * (fbn - NDIRECT)
               in Option.bind (rsect (d_addrs din ! NDIRECT) s) (\<lambda>indirect.
                    if get32 indirect k = 0
                    then (let indirect = put32 k (of_nat (freeblock s)) indirect;
                              s = wsect (d_addrs din ! NDIRECT) indirect (s\<lparr>freeblock := freeblock s + 1\<rparr>)
                          in Some (unat (get32 indirect k), din, s))
                    else Some (unat (get32 indirect k), din, s))))"

text \<open>The loop of \<open>iappend\<close>: the bytes that are left, the offset, the inode and the image.\<close>

function iappend_loop :: "byte list \<Rightarrow> nat \<Rightarrow> dinode \<Rightarrow> mkfs \<Rightarrow> (nat \<times> dinode \<times> mkfs) option" where
  "iappend_loop p off din s =
     (if p = [] then Some (off, din, s)
      else let fbn = off div BSIZE
           in if fbn < MAXFILE
              then Option.bind (iappend_addr fbn din s) (\<lambda>(x, din, s).
                   let n1 = min (length p) ((fbn + 1) * BSIZE - off)
                   in Option.bind (rsect x s) (\<lambda>buf.
                        iappend_loop (drop n1 p) (off + n1) din (wsect x (put_bytes (off - fbn * BSIZE) (take n1 p) buf) s)))
              else None)"
  by pat_completeness auto
termination
proof (relation "measure (\<lambda>(p, off, din, s). length p)")
  fix p :: "byte list" and off fbn n1 :: nat and x d d' s s' b
  assume a: "p \<noteq> []" "fbn = off div BSIZE" "n1 = min (length p) ((fbn + 1) * BSIZE - off)"
  have "off < (fbn + 1) * BSIZE" using div_mult_mod_eq [of off BSIZE] mod_less_divisor [of BSIZE off] by (simp add: a(2))
  then have "0 < n1" using a(1,3) by simp
  then show "((drop n1 p, off + n1, d, wsect x (put_bytes (off - fbn * BSIZE) (take n1 p) b) s'), p, off, d', s)
      \<in> measure (\<lambda>(p, off, din, s). length p)"
    using a(1) by simp
qed simp

declare iappend_loop.simps [simp del]

definition iappend :: "nat \<Rightarrow> byte list \<Rightarrow> mkfs \<Rightarrow> mkfs option" where
  "iappend inum p s =
     Option.bind (rinode inum s) (\<lambda>din.
     Option.bind (iappend_loop p (d_size din) din s) (\<lambda>(off, din, s). winode inum (din\<lparr>d_size := off\<rparr>) s))"

text \<open>Copying a file until a read returns nothing, or fails.\<close>

function mkfs_copy :: "nat \<Rightarrow> input \<Rightarrow> mkfs \<Rightarrow> mkfs option" where
  "mkfs_copy inum inp s =
     (case read_fd BSIZE inp of
        (None, _) \<Rightarrow> Some s
      | (Some c, inp') \<Rightarrow> if c = [] then Some s else Option.bind (iappend inum c s) (mkfs_copy inum inp'))"
  by pat_completeness auto
termination
  by (relation "measure (\<lambda>(inum, inp, s). input_size inp)") (auto dest: read_fd_size [OF sym])

declare mkfs_copy.simps [simp del]

text \<open>The name in the file system: without a leading underscore.\<close>

definition fs_name :: "byte list \<Rightarrow> byte list" where
  "fs_name name = (if name \<noteq> [] \<and> hd name = 0x5F then tl name else name)"

text \<open>The files of the command line; a file that cannot be opened has no input.\<close>

fun mkfs_files :: "nat \<Rightarrow> (byte list \<times> input option) list \<Rightarrow> mkfs \<Rightarrow> mkfs option" where
  "mkfs_files rootino [] s = Some s"
| "mkfs_files rootino ((name, fd) # files) s =
     (if 0x2F \<in> set name then None
      else Option.bind fd (\<lambda>inp.
           Option.bind (mkfs_ialloc T_FILE s) (\<lambda>(inum, s).
           Option.bind (iappend rootino (mk_dirent inum (fs_name name)) s) (\<lambda>s.
           Option.bind (mkfs_copy inum inp s) (mkfs_files rootino files)))))"

definition sb_block :: "superblock \<Rightarrow> block" where
  "sb_block x =
     put32 0 (of_nat (sb_size x)) (put32 4 (of_nat (nblocks x)) (put32 8 (of_nat (ninodes x)) (put32 12 (of_nat (nlog x))
       (put32 16 (of_nat (logstart x)) (put32 20 (of_nat (inodestart x)) (put32 24 (of_nat (bmapstart x)) (\<lambda>_. 0)))))))"

definition mkfs_sb :: superblock where
  "mkfs_sb = \<lparr>sb_size = FSSIZE, nblocks = FSSIZE - nmeta, ninodes = NINODES, nlog = LOGSIZE, logstart = 2,
     inodestart = 2 + LOGSIZE, bmapstart = 2 + LOGSIZE + ninodeblocks\<rparr>"

definition mkfs_main :: "(byte list \<times> input option) list \<Rightarrow> mkfs option" where
  "mkfs_main files =
     (let s = \<lparr>m_img = (\<lambda>_ _. 0), m_size = 0, m_sb = mkfs_sb, freeinode = 1, freeblock = nmeta\<rparr>;
          s = fold (\<lambda>i. wsect i (\<lambda>_. 0)) [0..<FSSIZE] s;
          s = wsect 1 (sb_block (m_sb s)) s
      in Option.bind (mkfs_ialloc T_DIR s) (\<lambda>(rootino, s).
         if rootino \<noteq> ROOTINO then None
         else Option.bind (iappend rootino (mk_dirent rootino [0x2E]) s) (\<lambda>s.
              Option.bind (iappend rootino (mk_dirent rootino [0x2E, 0x2E]) s) (\<lambda>s.
              Option.bind (mkfs_files rootino files s) (\<lambda>s.
              Option.bind (rinode rootino s) (\<lambda>din.
              Option.bind (winode rootino (din\<lparr>d_size := (d_size din div BSIZE + 1) * BSIZE\<rparr>) s) (\<lambda>s.
                mkfs_balloc (freeblock s) s)))))))"

text \<open>The fields that the program writes with \<open>xint\<close> and \<open>xshort\<close> are those that the kernel reads.\<close>

lemma put_xint: "put_bytes k (xint v) d = put32 k v d"
proof
  fix i
  consider "i < k" | "i = k" | "i = k + 1" | "i = k + 2" | "i = k + 3" | "k + 4 \<le> i" by linarith
  then show "put_bytes k (xint v) d i = put32 k v d i"
    by cases (simp_all add: put_bytes_def put32_def xint_def byte_of_def)
qed

lemma put_xshort: "put_bytes k (xshort v) d = put16 k v d"
proof
  fix i
  consider "i < k" | "i = k" | "i = k + 1" | "k + 2 \<le> i" by linarith
  then show "put_bytes k (xshort v) d i = put16 k v d i"
    by cases (simp_all add: put_bytes_def put16_def xshort_def)
qed

section \<open>The blocks of a file\<close>

text \<open>The addresses of an inode and its bytes, as in the kernel but on the blocks of an image.\<close>

definition dslot :: "(nat \<Rightarrow> block) \<Rightarrow> dinode \<Rightarrow> nat \<Rightarrow> nat" where
  "dslot m din j =
     (let as = d_addrs din
      in if j \<le> NDIRECT then as ! j
         else if as ! NDIRECT = 0 then 0 else unat (get32 (m (as ! NDIRECT)) (4 * (j - NDIRECT - 1))))"

definition dbyte :: "(nat \<Rightarrow> block) \<Rightarrow> dinode \<Rightarrow> nat \<Rightarrow> byte" where
  "dbyte m din k = (let a = dslot m din (slot_of (k div BSIZE)) in if a = 0 then 0 else m a (k mod BSIZE))"

definition own :: "(nat \<Rightarrow> block) \<Rightarrow> dinode \<Rightarrow> nat set" where
  "own m din = dslot m din ` {..MAXFILE} - {0}"

text \<open>The blocks of a file are different blocks below \<open>fb\<close>, the first one that is not allocated.\<close>

definition slots_ok :: "(nat \<Rightarrow> block) \<Rightarrow> nat \<Rightarrow> dinode \<Rightarrow> bool" where
  "slots_ok m fb din \<longleftrightarrow> length (d_addrs din) = NDIRECT + 1
     \<and> (\<forall>j \<le> MAXFILE. dslot m din j \<noteq> 0 \<longrightarrow> nmeta \<le> dslot m din j \<and> dslot m din j < fb)
     \<and> (\<forall>i \<le> MAXFILE. \<forall>j \<le> MAXFILE. dslot m din i \<noteq> 0 \<longrightarrow> dslot m din i = dslot m din j \<longrightarrow> i = j)"

lemma slots_okD:
  assumes "slots_ok m fb din"
  shows "length (d_addrs din) = NDIRECT + 1" "\<And>j. j \<le> MAXFILE \<Longrightarrow> dslot m din j \<noteq> 0 \<Longrightarrow> nmeta \<le> dslot m din j \<and> dslot m din j < fb"
    "\<And>i j. i \<le> MAXFILE \<Longrightarrow> j \<le> MAXFILE \<Longrightarrow> dslot m din i \<noteq> 0 \<Longrightarrow> dslot m din i = dslot m din j \<Longrightarrow> i = j"
  using assms unfolding slots_ok_def by blast+

lemma own_bounds: "slots_ok m fb din \<Longrightarrow> own m din \<subseteq> {nmeta..<fb}"
  by (auto simp: own_def dest: slots_okD(2) [of m fb din])

lemma in_own: "j \<le> MAXFILE \<Longrightarrow> dslot m din j \<noteq> 0 \<Longrightarrow> dslot m din j \<in> own m din"
  by (auto simp: own_def)

lemma dslot_simps:
  "j \<le> NDIRECT \<Longrightarrow> dslot m din j = d_addrs din ! j"
  "dslot m din (NDIRECT + 1 + e) =
    (if dslot m din NDIRECT = 0 then 0 else unat (get32 (m (dslot m din NDIRECT)) (4 * e)))"
  by (simp_all add: dslot_def Let_def)

text \<open>Only the indirect block decides where the blocks of a file are.\<close>

lemma dslot_cong:
  assumes "d_addrs din' = d_addrs din" "dslot m din NDIRECT \<noteq> 0 \<Longrightarrow> m' (dslot m din NDIRECT) = m (dslot m din NDIRECT)"
  shows "dslot m' din' = dslot m din"
  using assms by (intro ext) (simp add: dslot_def Let_def)

lemma file_cong:
  assumes "d_addrs din' = d_addrs din" "\<And>b. b \<in> own m din \<Longrightarrow> m' b = m b"
  shows "dslot m' din' = dslot m din" "own m' din' = own m din" "k < MAXFILE * BSIZE \<Longrightarrow> dbyte m' din' k = dbyte m din k"
proof -
  show s: "dslot m' din' = dslot m din" using assms in_own [of NDIRECT m din] by (intro dslot_cong) auto
  then show "own m' din' = own m din" by (simp add: own_def)
  show "dbyte m' din' k = dbyte m din k" if k: "k < MAXFILE * BSIZE"
  proof -
    have "k div BSIZE < MAXFILE" using k by (simp add: less_mult_imp_div_less)
    then have "dslot m din (slot_of (k div BSIZE)) \<noteq> 0 \<Longrightarrow> m' (dslot m din (slot_of (k div BSIZE))) = m (dslot m din (slot_of (k div BSIZE)))"
      using slot_of_bounds(2) in_own assms(2) by blast
    then show ?thesis by (simp add: dbyte_def Let_def s)
  qed
qed

text \<open>An address put into an empty slot: in the inode, or in the indirect block.\<close>

lemma dslot_addr:
  assumes "length (d_addrs din) = NDIRECT + 1" "j \<le> NDIRECT" "j = NDIRECT \<Longrightarrow> dslot m din NDIRECT = 0 \<and> m fb = (\<lambda>_. 0)"
  shows "dslot m (din\<lparr>d_addrs := (d_addrs din)[j := fb]\<rparr>) i = (if i = j then fb else dslot m din i)"
  using assms by (cases "j = NDIRECT") (auto simp: dslot_def Let_def get32_zero nth_list_update)

lemma dslot_entry:
  assumes "dslot m din NDIRECT = x" "x \<noteq> 0" "fb < 2 ^ 32"
  shows "dslot (m(x := put32 (4 * e) (of_nat fb) (m x))) din i = (if i = NDIRECT + 1 + e then fb else dslot m din i)"
proof (cases "i \<le> NDIRECT")
  case False
  then obtain f where f: "i = NDIRECT + 1 + f" using le_Suc_ex by (metis Suc_eq_plus1 not_less_eq_eq)
  have x: "d_addrs din ! NDIRECT = x" using assms(1) by (simp add: dslot_simps(1))
  show ?thesis
  proof (cases "f = e")
    case True
    then show ?thesis using assms(2,3) by (simp add: f dslot_def Let_def x unat_of_nat)
  next
    case False
    then have "4 * e + 4 \<le> 4 * f \<or> 4 * f + 4 \<le> 4 * e" by linarith
    then show ?thesis using False assms(2) by (simp add: f dslot_def Let_def x get_put32_other)
  qed
qed (simp add: dslot_def Let_def)

text \<open>
  What an operation on a file may do to an image: it changes only blocks of the file, takes new ones from \<open>fb\<close> up to \<open>fb'\<close>, and leaves zeros
  above.
\<close>

definition edits :: "(nat \<Rightarrow> block) \<Rightarrow> nat \<Rightarrow> dinode \<Rightarrow> (nat \<Rightarrow> block) \<Rightarrow> nat \<Rightarrow> dinode \<Rightarrow> bool" where
  "edits m fb din m' fb' din' \<longleftrightarrow> fb \<le> fb' \<and> slots_ok m' fb' din' \<and> (\<forall>b < fb. b \<notin> own m din \<longrightarrow> m' b = m b)
     \<and> own m' din' \<subseteq> own m din \<union> {fb..<fb'} \<and> (\<forall>b \<ge> fb'. m' b = (\<lambda>_. 0)) \<and> din'\<lparr>d_addrs := []\<rparr> = din\<lparr>d_addrs := []\<rparr>"

lemma edits_refl: "slots_ok m fb din \<Longrightarrow> \<forall>b \<ge> fb. m b = (\<lambda>_. 0) \<Longrightarrow> edits m fb din m fb din"
  by (simp add: edits_def)

lemma edits_trans:
  assumes "edits m fb din m' fb' din'" "edits m' fb' din' m'' fb'' din''"
  shows "edits m fb din m'' fb'' din''"
proof -
  note a = assms [unfolded edits_def]
  have "m'' b = m b" if "b < fb" "b \<notin> own m din" for b
  proof -
    have "b \<notin> own m' din'" using a(1) that by auto
    then show ?thesis using a that by (metis order_less_le_trans)
  qed
  moreover have "own m'' din'' \<subseteq> own m din \<union> {fb..<fb''}"
  proof
    fix x assume "x \<in> own m'' din''"
    then consider "x \<in> own m' din'" | "fb' \<le> x" "x < fb''" using a(2) by auto
    then show "x \<in> own m din \<union> {fb..<fb''}"
    proof cases
      case 1
      then have "x \<in> own m din \<union> {fb..<fb'}" using a(1) by blast
      then show ?thesis using a(2) by auto
    qed (use a(1) in auto)
  qed
  ultimately show ?thesis unfolding edits_def using a by simp
qed

text \<open>One more block.\<close>

lemma edits_slot:
  assumes s: "slots_ok m fb din" and z: "\<forall>b \<ge> fb. m b = (\<lambda>_. 0)" and n: "nmeta \<le> fb"
    and l: "length (d_addrs din') = NDIRECT + 1" "din'\<lparr>d_addrs := []\<rparr> = din\<lparr>d_addrs := []\<rparr>"
    and j: "j \<le> MAXFILE" "dslot m din j = 0" and d: "\<And>i. dslot m' din' i = (if i = j then fb else dslot m din i)"
    and m: "\<And>b. b \<noteq> dslot m din NDIRECT \<or> b = 0 \<Longrightarrow> m' b = m b"
  shows "edits m fb din m' (fb + 1) din'" "k < MAXFILE * BSIZE \<Longrightarrow> dbyte m' din' k = dbyte m din k"
proof -
  note k = slots_okD [OF s]
  have lt: "dslot m din i \<noteq> fb" if "i \<le> MAXFILE" for i using k(2) [OF that] n by (cases "dslot m din i = 0") auto
  have "slots_ok m' (fb + 1) din'" unfolding slots_ok_def d
  proof (intro conjI allI impI)
    fix i assume "i \<le> MAXFILE" "(if i = j then fb else dslot m din i) \<noteq> 0"
    then show "nmeta \<le> (if i = j then fb else dslot m din i)" "(if i = j then fb else dslot m din i) < fb + 1"
      using k(2) [of i] n by (auto split: if_splits)
  next
    fix h i assume "h \<le> MAXFILE" "i \<le> MAXFILE" "(if h = j then fb else dslot m din h) \<noteq> 0"
      "(if h = j then fb else dslot m din h) = (if i = j then fb else dslot m din i)"
    then show "h = i" using k(3) [of h i] lt [of h] lt [of i] by (auto split: if_splits)
  qed (fact l(1))
  moreover have "m' b = m b" if "b < fb" "b \<notin> own m din" for b using m [of b] in_own [of NDIRECT m din] that by auto
  moreover have "own m' din' \<subseteq> own m din \<union> {fb..<fb + 1}" by (auto simp: own_def d)
  moreover have "m' b = (\<lambda>_. 0)" if "b \<ge> fb + 1" for b
    using m [of b] z that k(2) [of NDIRECT] by (cases "b = dslot m din NDIRECT") auto
  ultimately show "edits m fb din m' (fb + 1) din'" using l(2) by (simp add: edits_def)
  assume "k < MAXFILE * BSIZE"
  then have i: "slot_of (k div BSIZE) \<le> MAXFILE" "slot_of (k div BSIZE) \<noteq> NDIRECT"
    using slot_of_bounds [of "k div BSIZE"] by (simp_all add: less_mult_imp_div_less)
  have f: "m' fb = (\<lambda>_. 0)" using m [of fb] lt [of NDIRECT] z by simp
  have "m' (dslot m din (slot_of (k div BSIZE))) = m (dslot m din (slot_of (k div BSIZE)))"
    using m k(3) [of "slot_of (k div BSIZE)" NDIRECT] i by auto
  then show "dbyte m' din' k = dbyte m din k" using f j(2) by (simp add: dbyte_def Let_def d)
qed

section \<open>Appending to a file\<close>

text \<open>The blocks that a file of \<open>n\<close> bytes has: which slots are in use, and how many blocks that is.\<close>

definition live :: "nat \<Rightarrow> nat \<Rightarrow> bool" where
  "live n j \<longleftrightarrow> BSIZE * (if j \<le> NDIRECT then j else j - 1) < n"

definition need :: "nat \<Rightarrow> nat" where
  "need n = (n + 511) div BSIZE + (if NDIRECT * BSIZE < n then 1 else 0)"

lemma need_0 [simp]: "need 0 = 0"
  by (simp add: need_def)

lemma need_mono: "n \<le> n' \<Longrightarrow> need n \<le> need n'"
  using div_le_mono [of "n + 511" "n' + 511" BSIZE] by (simp add: need_def)

text \<open>Within a block nothing changes; the first byte of a block needs that block, and at block 12 the indirect block too.\<close>

lemma chunk_need:
  assumes "0 < n" "n \<le> BSIZE - off mod BSIZE"
  shows "need (off + n) = need (off + 1)" "live (off + n) = live (off + 1)"
    "off mod BSIZE \<noteq> 0 \<Longrightarrow> need (off + 1) = need off" "off mod BSIZE \<noteq> 0 \<Longrightarrow> live (off + 1) = live off"
    "off mod BSIZE = 0 \<Longrightarrow> need (off + 1) = need off + (if off div BSIZE = NDIRECT then 2 else 1)"
    "off mod BSIZE = 0 \<Longrightarrow> live (off + 1) j \<longleftrightarrow> live off j \<or> j = slot_of (off div BSIZE) \<or> j = NDIRECT \<and> off div BSIZE = NDIRECT"
proof -
  obtain q r where o: "off = BSIZE * q + r" "r < BSIZE" by (metis div_mult_mod_eq mod_less_divisor mult.commute zero_less_numeral)
  then have qr: "off div BSIZE = q" "off mod BSIZE = r" by simp_all
  have n: "0 < n" "r + n \<le> BSIZE" using assms o qr by auto
  have up: "(BSIZE * q + r + k + 511) div BSIZE = q + 1" if "0 < k" "r + k \<le> BSIZE" for k
    using that by (intro div_nat_eqI) auto
  have at: "(BSIZE * q + r + 511) div BSIZE = (if r = 0 then q else q + 1)" using o(2) by (auto intro!: div_nat_eqI)
  have lt: "BSIZE * a < BSIZE * q + r + k \<longleftrightarrow> a \<le> q" if "0 < k" "r + k \<le> BSIZE" for a k using that by linarith
  have le: "BSIZE * a < BSIZE * q + r \<longleftrightarrow> (if r = 0 then a < q else a \<le> q)" for a using o(2) by auto
  have l: "live (off + k) j \<longleftrightarrow> (if j \<le> NDIRECT then j else j - 1) \<le> q" if "0 < k" "r + k \<le> BSIZE" for j k
    unfolding live_def o(1) by (rule lt [OF that])
  have l0: "live off j \<longleftrightarrow> (let a = if j \<le> NDIRECT then j else j - 1 in if r = 0 then a < q else a \<le> q)" for j
    unfolding live_def o(1) Let_def by (rule le)
  have d: "need (off + k) = q + 1 + (if NDIRECT \<le> q then 1 else 0)" if "0 < k" "r + k \<le> BSIZE" for k
    using up [OF that] lt [OF that, of NDIRECT] by (simp add: need_def o(1))
  have d0: "need off = (if r = 0 then q + (if NDIRECT < q then 1 else 0) else q + 1 + (if NDIRECT \<le> q then 1 else 0))"
    using at le [of NDIRECT] by (simp add: need_def o(1))
  have one: "0 < (1 :: nat)" "r + 1 \<le> BSIZE" using o(2) by simp_all
  show "need (off + n) = need (off + 1)" unfolding d [OF n] d [OF one] ..
  show "live (off + n) = live (off + 1)" unfolding fun_eq_iff l [OF n] l [OF one] by simp
  show "off mod BSIZE \<noteq> 0 \<Longrightarrow> need (off + 1) = need off" unfolding d [OF one] d0 qr by simp
  show "off mod BSIZE \<noteq> 0 \<Longrightarrow> live (off + 1) = live off" unfolding fun_eq_iff l [OF one] l0 qr by simp
  show "off mod BSIZE = 0 \<Longrightarrow> need (off + 1) = need off + (if off div BSIZE = NDIRECT then 2 else 1)" unfolding d [OF one] d0 qr by simp
  show "off mod BSIZE = 0 \<Longrightarrow> live (off + 1) j \<longleftrightarrow> live off j \<or> j = slot_of (off div BSIZE) \<or> j = NDIRECT \<and> off div BSIZE = NDIRECT"
    unfolding l [OF one] l0 qr slot_of_def Let_def by auto
qed

text \<open>The state of the program while it adds files.\<close>

abbreviation mkst :: "(nat \<Rightarrow> block) \<Rightarrow> nat \<Rightarrow> nat \<Rightarrow> mkfs" where
  "mkst m fi fb \<equiv> \<lparr>m_img = m, m_size = FSSIZE, m_sb = mkfs_sb, freeinode = fi, freeblock = fb\<rparr>"

definition addr_done :: "(nat \<Rightarrow> block) \<Rightarrow> nat \<Rightarrow> nat \<Rightarrow> dinode \<Rightarrow> nat \<Rightarrow> (nat \<times> dinode \<times> mkfs) option \<Rightarrow> bool" where
  "addr_done m fi fb din off r \<longleftrightarrow> (\<exists>m' din'. r = Some (dslot m' din' (slot_of (off div BSIZE)), din', mkst m' fi (fb + need (off + 1) - need off))
     \<and> edits m fb din m' (fb + need (off + 1) - need off) din' \<and> (\<forall>j \<le> MAXFILE. dslot m' din' j \<noteq> 0 \<longleftrightarrow> live (off + 1) j)
     \<and> (\<forall>k < MAXFILE * BSIZE. dbyte m' din' k = dbyte m din k))"

text \<open>The entry of the indirect block, when there is one.\<close>

lemma addr_entry:
  assumes s: "slots_ok m fb din" and z: "\<forall>b \<ge> fb. m b = (\<lambda>_. 0)" and n: "nmeta \<le> fb" "fb < FSSIZE"
    and e: "e < NINDIRECT" "dslot m din (NDIRECT + 1 + e) = 0" and x: "dslot m din NDIRECT = x" "x \<noteq> 0"
  defines "m' \<equiv> m(x := put32 (4 * e) (of_nat fb) (m x))"
  shows "edits m fb din m' (fb + 1) din" "dslot m' din i = (if i = NDIRECT + 1 + e then fb else dslot m din i)"
    "k < MAXFILE * BSIZE \<Longrightarrow> dbyte m' din k = dbyte m din k"
proof -
  show d: "dslot m' din i = (if i = NDIRECT + 1 + e then fb else dslot m din i)" for i
    unfolding m'_def using dslot_entry [OF x] n by simp
  note g = edits_slot [OF s z n(1) slots_okD(1) [OF s] refl _ e(2) d]
  show "edits m fb din m' (fb + 1) din" "k < MAXFILE * BSIZE \<Longrightarrow> dbyte m' din k = dbyte m din k"
    by (rule g; use e x in \<open>auto simp: m'_def\<close>)+
qed

lemma addr_direct:
  assumes s: "slots_ok m fb din" and z: "\<forall>b \<ge> fb. m b = (\<lambda>_. 0)" and n: "nmeta \<le> fb" and j: "j \<le> NDIRECT" "dslot m din j = 0"
  defines "din' \<equiv> din\<lparr>d_addrs := (d_addrs din)[j := fb]\<rparr>"
  shows "edits m fb din m (fb + 1) din'" "dslot m din' i = (if i = j then fb else dslot m din i)"
    "k < MAXFILE * BSIZE \<Longrightarrow> dbyte m din' k = dbyte m din k"
proof -
  show d: "dslot m din' i = (if i = j then fb else dslot m din i)" for i
    unfolding din'_def using slots_okD(1) [OF s] j z by (intro dslot_addr) auto
  have l: "length (d_addrs din') = NDIRECT + 1" "din'\<lparr>d_addrs := []\<rparr> = din\<lparr>d_addrs := []\<rparr>"
    using slots_okD(1) [OF s] by (simp_all add: din'_def)
  note g = edits_slot [OF s z n l _ j(2) d]
  show "edits m fb din m (fb + 1) din'" "k < MAXFILE * BSIZE \<Longrightarrow> dbyte m din' k = dbyte m din k"
    by (rule g; use j in simp)+
qed

lemma iappend_addr_simps:
  assumes l: "length (d_addrs din) = NDIRECT + 1"
  shows "fbn < NDIRECT \<Longrightarrow> iappend_addr fbn din (mkst m fi fb) =
      (if dslot m din fbn = 0 then Some (fb, din\<lparr>d_addrs := (d_addrs din)[fbn := fb]\<rparr>, mkst m fi (fb + 1)) else Some (dslot m din fbn, din, mkst m fi fb))"
    "dslot m din NDIRECT = 0 \<Longrightarrow> fb \<noteq> 0 \<Longrightarrow>
      iappend_addr (NDIRECT + e) din (mkst m fi fb) = iappend_addr (NDIRECT + e) (din\<lparr>d_addrs := (d_addrs din)[NDIRECT := fb]\<rparr>) (mkst m fi (fb + 1))"
    "dslot m din NDIRECT = x \<Longrightarrow> x \<noteq> 0 \<Longrightarrow> x < FSSIZE \<Longrightarrow> fb < FSSIZE \<Longrightarrow> iappend_addr (NDIRECT + e) din (mkst m fi fb) =
      (if dslot m din (NDIRECT + 1 + e) = 0 then Some (fb, din, mkst (m(x := put32 (4 * e) (of_nat fb) (m x))) fi (fb + 1))
       else Some (dslot m din (NDIRECT + 1 + e), din, mkst m fi fb))"
proof -
  show "fbn < NDIRECT \<Longrightarrow> iappend_addr fbn din (mkst m fi fb) =
      (if dslot m din fbn = 0 then Some (fb, din\<lparr>d_addrs := (d_addrs din)[fbn := fb]\<rparr>, mkst m fi (fb + 1)) else Some (dslot m din fbn, din, mkst m fi fb))"
    using l by (simp add: iappend_addr_def dslot_simps(1))
  show "dslot m din NDIRECT = 0 \<Longrightarrow> fb \<noteq> 0 \<Longrightarrow>
      iappend_addr (NDIRECT + e) din (mkst m fi fb) = iappend_addr (NDIRECT + e) (din\<lparr>d_addrs := (d_addrs din)[NDIRECT := fb]\<rparr>) (mkst m fi (fb + 1))"
    using l by (simp add: iappend_addr_def dslot_simps(1))
  assume x: "dslot m din NDIRECT = x" "x \<noteq> 0" "x < FSSIZE" "fb < FSSIZE"
  have a: "d_addrs din ! NDIRECT = x" using x(1) by (simp add: dslot_simps(1))
  have e: "dslot m din (NDIRECT + 1 + e) = unat (get32 (m x) (4 * e))" unfolding dslot_simps(2) x(1) using x(2) by simp
  show "iappend_addr (NDIRECT + e) din (mkst m fi fb) =
      (if dslot m din (NDIRECT + 1 + e) = 0 then Some (fb, din, mkst (m(x := put32 (4 * e) (of_nat fb) (m x))) fi (fb + 1))
       else Some (dslot m din (NDIRECT + 1 + e), din, mkst m fi fb))"
    unfolding e using x(2-4) by (simp add: iappend_addr_def a rsect_def wsect_def unat_of_nat unat_eq_zero)
qed

lemma addr_doneI:
  assumes "r = Some (dslot m' din' (slot_of (off div BSIZE)), din', mkst m' fi fb')" "fb' = fb + need (off + 1) - need off"
    "edits m fb din m' fb' din'" "\<And>j. j \<le> MAXFILE \<Longrightarrow> dslot m' din' j \<noteq> 0 \<longleftrightarrow> live (off + 1) j"
    "\<And>k. k < MAXFILE * BSIZE \<Longrightarrow> dbyte m' din' k = dbyte m din k"
  shows "addr_done m fi fb din off r"
  using assms unfolding addr_done_def by blast

lemma live_at:
  "live off j \<longleftrightarrow> (if off mod BSIZE = 0 then (if j \<le> NDIRECT then j else j - 1) < off div BSIZE else (if j \<le> NDIRECT then j else j - 1) \<le> off div BSIZE)"
proof -
  define a where "a = (if j \<le> NDIRECT then j else j - 1)"
  have "BSIZE * a < off \<longleftrightarrow> (if off mod BSIZE = 0 then a < off div BSIZE else a \<le> off div BSIZE)"
  proof (cases "off mod BSIZE = 0")
    case True
    then show ?thesis using div_mult_mod_eq [of off BSIZE] by auto
  next
    case False
    have "BSIZE * a < off \<longleftrightarrow> a \<le> off div BSIZE" using False div_mult_mod_eq [of off BSIZE] mod_less_divisor [of BSIZE off] by linarith
    then show ?thesis using False by simp
  qed
  then show ?thesis by (simp add: live_def flip: a_def)
qed

lemma addr_same:
  assumes s: "slots_ok m fb din" and z: "\<forall>b \<ge> fb. m b = (\<lambda>_. 0)" and n: "fb \<le> FSSIZE" and l: "\<forall>j \<le> MAXFILE. dslot m din j \<noteq> 0 \<longleftrightarrow> live off j"
    and o: "off mod BSIZE \<noteq> 0" "off div BSIZE < MAXFILE"
  shows "addr_done m fi fb din off (iappend_addr (off div BSIZE) din (mkst m fi fb))"
proof -
  let ?q = "off div BSIZE" and ?r = "iappend_addr (off div BSIZE) din (mkst m fi fb)"
  note k = slots_okD [OF s] and b = slot_of_bounds(2) [OF o(2)]
  have d: "need (off + 1) = need off" "live (off + 1) = live off" using chunk_need(3,4) [of 1 off] o(1) by simp_all
  have "live off (slot_of ?q)" using o(1) by (simp add: live_at slot_of_def)
  then have sl: "dslot m din (slot_of ?q) \<noteq> 0" using l b by simp
  have "?r = Some (dslot m din (slot_of ?q), din, mkst m fi fb)"
  proof (cases "?q < NDIRECT")
    case True
    then show ?thesis using iappend_addr_simps(1) [OF k(1)] sl by (simp add: slot_of_def)
  next
    case False
    then obtain e where e: "?q = NDIRECT + e" using le_Suc_ex not_less by blast
    have "live off NDIRECT" using o(1) e by (simp add: live_at)
    then have "dslot m din NDIRECT \<noteq> 0" using l by simp
    then have x: "dslot m din NDIRECT \<noteq> 0" "dslot m din NDIRECT < fb" using k(2) [of NDIRECT] by simp_all
    have "slot_of ?q = NDIRECT + 1 + e" using e by (simp add: slot_of_def)
    then have "dslot m din (NDIRECT + 1 + e) \<noteq> 0" using sl by simp
    then show ?thesis using x n \<open>slot_of ?q = NDIRECT + 1 + e\<close> e by (auto simp: iappend_addr_def Let_def dslot_def rsect_def)
  qed
  then show ?thesis by (rule addr_doneI) (use edits_refl [OF s z] d l in simp_all)
qed

lemma addr_new_direct:
  assumes s: "slots_ok m fb din" and z: "\<forall>b \<ge> fb. m b = (\<lambda>_. 0)" and n: "nmeta \<le> fb" and l: "\<forall>j \<le> MAXFILE. dslot m din j \<noteq> 0 \<longleftrightarrow> live off j"
    and o: "off mod BSIZE = 0" "off div BSIZE < NDIRECT"
  shows "addr_done m fi fb din off (iappend_addr (off div BSIZE) din (mkst m fi fb))"
proof -
  let ?q = "off div BSIZE" and ?d = "din\<lparr>d_addrs := (d_addrs din)[off div BSIZE := fb]\<rparr>"
  have sl: "slot_of ?q = ?q" using o(2) by (simp add: slot_of_def)
  have "\<not> live off ?q" using o by (simp add: live_at)
  then have z0: "dslot m din ?q = 0" using l [rule_format, of ?q] o(2) by simp
  note g = addr_direct [OF s z n less_imp_le [OF o(2)] z0]
  show ?thesis
  proof (rule addr_doneI)
    show "iappend_addr ?q din (mkst m fi fb) = Some (dslot m ?d (slot_of ?q), ?d, mkst m fi (fb + 1))"
      using iappend_addr_simps(1) [OF slots_okD(1) [OF s] o(2)] z0 by (simp add: g(2) sl)
    show "fb + 1 = fb + need (off + 1) - need off" using chunk_need(5) [of 1 off] o by simp
    show "dslot m ?d j \<noteq> 0 \<longleftrightarrow> live (off + 1) j" if "j \<le> MAXFILE" for j
      using chunk_need(6) [of 1 off j] o l n that unfolding g(2) sl by simp
  qed (fact g(1), fact g(3))
qed

lemma addr_new_entry:
  assumes s: "slots_ok m fb din" and z: "\<forall>b \<ge> fb. m b = (\<lambda>_. 0)" and n: "nmeta \<le> fb" "fb < FSSIZE"
    and e: "off div BSIZE = NDIRECT + e" "e < NINDIRECT" "dslot m din (NDIRECT + 1 + e) = 0" "dslot m din NDIRECT \<noteq> 0"
  defines "m' \<equiv> m(dslot m din NDIRECT := put32 (4 * e) (of_nat fb) (m (dslot m din NDIRECT)))"
  shows "iappend_addr (off div BSIZE) din (mkst m fi fb) = Some (dslot m' din (slot_of (off div BSIZE)), din, mkst m' fi (fb + 1))"
    "edits m fb din m' (fb + 1) din" "dslot m' din j = (if j = slot_of (off div BSIZE) then fb else dslot m din j)"
    "k < MAXFILE * BSIZE \<Longrightarrow> dbyte m' din k = dbyte m din k"
proof -
  have sl: "slot_of (off div BSIZE) = NDIRECT + 1 + e" using e(1) by (simp add: slot_of_def)
  note g = addr_entry [OF s z n e(2,3) refl e(4), folded m'_def]
  have x: "dslot m din NDIRECT < FSSIZE" using slots_okD(2) [OF s _ e(4)] n by simp
  show "iappend_addr (off div BSIZE) din (mkst m fi fb) = Some (dslot m' din (slot_of (off div BSIZE)), din, mkst m' fi (fb + 1))"
    unfolding sl g(2) unfolding e(1) iappend_addr_simps(3) [OF slots_okD(1) [OF s] refl e(4) x n(2)] using e(3) by (simp add: m'_def)
  show "dslot m' din j = (if j = slot_of (off div BSIZE) then fb else dslot m din j)" unfolding sl by (rule g(2))
  show "edits m fb din m' (fb + 1) din" "k < MAXFILE * BSIZE \<Longrightarrow> dbyte m' din k = dbyte m din k" by (fact g(1), fact g(3))
qed

lemma iappend_addr_ok:
  assumes s: "slots_ok m fb din" and z: "\<forall>b \<ge> fb. m b = (\<lambda>_. 0)" and n: "nmeta \<le> fb" "fb + need (off + 1) - need off \<le> FSSIZE"
    and l: "\<forall>j \<le> MAXFILE. dslot m din j \<noteq> 0 \<longleftrightarrow> live off j" and o: "off < MAXFILE * BSIZE"
  shows "addr_done m fi fb din off (iappend_addr (off div BSIZE) din (mkst m fi fb))"
proof -
  let ?q = "off div BSIZE" and ?r = "iappend_addr (off div BSIZE) din (mkst m fi fb)"
  have q: "?q < MAXFILE" using o by (simp add: less_mult_imp_div_less)
  have n': "need off \<le> need (off + 1)" by (rule need_mono) simp
  consider (old) "off mod BSIZE \<noteq> 0" | (direct) "off mod BSIZE = 0" "?q < NDIRECT" | (indirect) "off mod BSIZE = 0" "?q = NDIRECT"
    | (entry) "off mod BSIZE = 0" "?q > NDIRECT" by linarith
  then show ?thesis
  proof cases
    case old
    then show ?thesis using addr_same [OF s z _ l old q] n(2) n' by simp
  next
    case direct
    then show ?thesis using addr_new_direct [OF s z n(1) l] by simp
  next
    case indirect
    have nd: "need (off + 1) = need off + 2" using chunk_need(5) [of 1 off] indirect by simp
    have "\<not> live off NDIRECT" "\<not> live off (NDIRECT + 1)" using indirect by (simp_all add: live_at)
    then have z0: "dslot m din NDIRECT = 0" "dslot m din (NDIRECT + 1) = 0" using l [rule_format, of NDIRECT] l [rule_format, of "NDIRECT + 1"] by simp_all
    let ?d = "din\<lparr>d_addrs := (d_addrs din)[NDIRECT := fb]\<rparr>"
    note g = addr_direct [OF s z n(1) order.refl z0(1)]
    have s': "slots_ok m (fb + 1) ?d" "\<forall>b \<ge> fb + 1. m b = (\<lambda>_. 0)" using g(1) by (simp_all add: edits_def)
    have e: "?q = NDIRECT + 0" "dslot m ?d (NDIRECT + 1 + 0) = 0" "dslot m ?d NDIRECT \<noteq> 0" unfolding g(2) using indirect z0 n(1) by simp_all
    let ?m = "m(dslot m ?d NDIRECT := put32 (4 * 0) (of_nat (fb + 1)) (m (dslot m ?d NDIRECT)))"
    have fb: "nmeta \<le> fb + 1" "fb + 1 < FSSIZE" "(0 :: nat) < NINDIRECT" using n nd by simp_all
    note h = addr_new_entry [OF s' fb(1,2) e(1) fb(3) e(2,3)]
    have "iappend_addr ?q din (mkst m fi fb) = iappend_addr ?q ?d (mkst m fi (fb + 1))"
      using iappend_addr_simps(2) [OF slots_okD(1) [OF s] z0(1), of fb 0 fi] n(1) indirect(2) by simp
    then have r: "?r = Some (dslot ?m ?d (slot_of ?q), ?d, mkst ?m fi (fb + 1 + 1))" using h(1) by simp
    show ?thesis
    proof (rule addr_doneI [OF r])
      show "fb + 1 + 1 = fb + need (off + 1) - need off" using nd by simp
      show "edits m fb din ?m (fb + 1 + 1) ?d" by (rule edits_trans [OF g(1) h(2)])
      show "dslot ?m ?d j \<noteq> 0 \<longleftrightarrow> live (off + 1) j" if "j \<le> MAXFILE" for j
      proof -
        have "dslot ?m ?d j = (if j = slot_of ?q then fb + 1 else if j = NDIRECT then fb else dslot m din j)"
          by (rule trans [OF h(3)]) (simp only: g(2))
        then show ?thesis using chunk_need(6) [of 1 off j] indirect l [rule_format, OF that] n(1) by simp
      qed
      show "dbyte ?m ?d k = dbyte m din k" if "k < MAXFILE * BSIZE" for k unfolding h(4) [OF that] by (rule g(3) [OF that])
    qed
  next
    case entry
    define e where "e = ?q - NDIRECT"
    then have e: "?q = NDIRECT + e" "0 < e" "e < NINDIRECT" using entry(2) q by simp_all
    have nd: "need (off + 1) = need off + 1" using chunk_need(5) [of 1 off] entry by simp
    have "live off NDIRECT" "\<not> live off (NDIRECT + 1 + e)" using entry e by (simp_all add: live_at)
    then have d: "dslot m din NDIRECT \<noteq> 0" "dslot m din (NDIRECT + 1 + e) = 0" using l [rule_format, of NDIRECT] l [rule_format, of "NDIRECT + 1 + e"] e by simp_all
    let ?m = "m(dslot m din NDIRECT := put32 (4 * e) (of_nat fb) (m (dslot m din NDIRECT)))"
    have "fb < FSSIZE" using n nd by simp
    note h = addr_new_entry [OF s z n(1) this e(1,3) d(2,1)]
    show ?thesis
    proof (rule addr_doneI [OF h(1) _ h(2)])
      show "fb + 1 = fb + need (off + 1) - need off" using nd by simp
      show "(dslot ?m din j \<noteq> 0) = live (off + 1) j" if "j \<le> MAXFILE" for j
        unfolding h(3) using chunk_need(6) [of 1 off j] entry l [rule_format, OF that] n(1) by simp
    qed (rule h(4))
  qed
qed

text \<open>An inode with the bytes of a file, and zeros after them.\<close>

definition holds_bytes :: "(nat \<Rightarrow> block) \<Rightarrow> nat \<Rightarrow> dinode \<Rightarrow> byte list \<Rightarrow> bool" where
  "holds_bytes m fb din bs \<longleftrightarrow> slots_ok m fb din \<and> (\<forall>j \<le> MAXFILE. dslot m din j \<noteq> 0 \<longleftrightarrow> live (length bs) j)
     \<and> (\<forall>k < MAXFILE * BSIZE. dbyte m din k = (if k < length bs then bs ! k else 0)) \<and> length bs \<le> MAXFILE * BSIZE"

lemma data_write:
  assumes s: "slots_ok m fb din" and z: "\<forall>b \<ge> fb. m b = (\<lambda>_. 0)" and x: "dslot m din (slot_of (off div BSIZE)) = x" "x \<noteq> 0"
    and o: "off div BSIZE < MAXFILE" "length p \<le> BSIZE - off mod BSIZE"
  defines "m' \<equiv> m(x := put_bytes (off mod BSIZE) p (m x))"
  shows "edits m fb din m' fb din" "dslot m' din = dslot m din"
    "k < MAXFILE * BSIZE \<Longrightarrow> dbyte m' din k = (if off \<le> k \<and> k < off + length p then p ! (k - off) else dbyte m din k)"
proof -
  let ?i = "slot_of (off div BSIZE)"
  note b = slot_of_bounds(2) [OF o(1)] and c = slots_okD [OF s]
  have "dslot m din NDIRECT \<noteq> x" using c(3) [OF b, of NDIRECT] slot_of_bounds(1) [of "off div BSIZE"] x by auto
  moreover have m': "m' b = (if b = x then put_bytes (off mod BSIZE) p (m x) else m b)" for b by (simp add: m'_def)
  ultimately show d: "dslot m' din = dslot m din" by (intro dslot_cong) (simp_all add: m')
  have "x < fb" "x \<in> own m din" using c(2) [OF b] x in_own [OF b] by auto
  moreover have "slots_ok m' fb din" using s by (simp add: slots_ok_def d)
  ultimately show "edits m fb din m' fb din" unfolding edits_def own_def d using z by (auto simp: m' own_def)
  assume "k < MAXFILE * BSIZE"
  then have k: "slot_of (k div BSIZE) \<le> MAXFILE" using slot_of_bounds(2) [of "k div BSIZE"] by (simp add: less_mult_imp_div_less)
  show "dbyte m' din k = (if off \<le> k \<and> k < off + length p then p ! (k - off) else dbyte m din k)"
  proof (cases "k div BSIZE = off div BSIZE")
    case True
    then show ?thesis using put_bytes_chunk(1) [OF o(2) True, of "m x"] x unfolding dbyte_def d by (simp add: m')
  next
    case False
    then have "dslot m din (slot_of (k div BSIZE)) \<noteq> x" using c(3) [OF b k] x slot_of_inj by metis
    then show ?thesis using put_bytes_chunk(2) [OF o(2) False] unfolding dbyte_def d Let_def m' by auto
  qed
qed

lemma append_chunk:
  assumes h: "holds_bytes m fb din bs" and z: "\<forall>b \<ge> fb. m b = (\<lambda>_. 0)" and n: "nmeta \<le> fb" "fb + need (length (bs @ p)) - need (length bs) \<le> FSSIZE"
    and p: "p \<noteq> []" "length (bs @ p) \<le> MAXFILE * BSIZE" "length p \<le> BSIZE - length bs mod BSIZE"
  defines "off \<equiv> length bs" and "fb' \<equiv> fb + need (length (bs @ p)) - need (length bs)"
  obtains x din' m' m'' where "iappend_addr (off div BSIZE) din (mkst m fi fb) = Some (x, din', mkst m' fi fb')"
    "rsect x (mkst m' fi fb') = Some (m' x)" "wsect x (put_bytes (off - off div BSIZE * BSIZE) p (m' x)) (mkst m' fi fb') = mkst m'' fi fb'"
    "edits m fb din m'' fb' din'" "holds_bytes m'' fb' din' (bs @ p)"
proof -
  note a = h [unfolded holds_bytes_def]
  have o: "off < MAXFILE * BSIZE" using p by (cases p) (auto simp: off_def)
  then have q: "off div BSIZE < MAXFILE" by (simp add: less_mult_imp_div_less)
  have e: "need (length (bs @ p)) = need (off + 1)" "live (length (bs @ p)) = live (off + 1)"
    using chunk_need(1,2) [of "length p" off] p by (simp_all add: off_def)
  have "addr_done m fi fb din off (iappend_addr (off div BSIZE) din (mkst m fi fb))"
    by (rule iappend_addr_ok [OF _ z n(1)]) (use a n(2) o e(1) in \<open>simp_all add: off_def\<close>)
  then obtain m' din' where r: "iappend_addr (off div BSIZE) din (mkst m fi fb) = Some (dslot m' din' (slot_of (off div BSIZE)), din', mkst m' fi fb')"
    and d: "edits m fb din m' fb' din'" "\<forall>j \<le> MAXFILE. dslot m' din' j \<noteq> 0 \<longleftrightarrow> live (off + 1) j" "\<forall>k < MAXFILE * BSIZE. dbyte m' din' k = dbyte m din k"
    unfolding addr_done_def fb'_def e(1) off_def by blast
  let ?x = "dslot m' din' (slot_of (off div BSIZE))"
  have s: "slots_ok m' fb' din'" "\<forall>b \<ge> fb'. m' b = (\<lambda>_. 0)" using d(1) by (simp_all add: edits_def)
  have "live (off + 1) (slot_of (off div BSIZE))" using div_mult_mod_eq [of off BSIZE] by (auto simp: live_def slot_of_def)
  then have x: "?x \<noteq> 0" using d(2) slot_of_bounds(2) [OF q] by simp
  then have xb: "?x < FSSIZE" using slots_okD(2) [OF s(1) slot_of_bounds(2) [OF q]] n(2) by (simp add: fb'_def)
  note w = data_write [OF s refl x q p(3) [folded off_def]]
  let ?m = "m'(?x := put_bytes (off mod BSIZE) p (m' ?x))"
  show thesis
  proof (rule that [OF r])
    show "rsect ?x (mkst m' fi fb') = Some (m' ?x)" using xb by (simp add: rsect_def)
    show "wsect ?x (put_bytes (off - off div BSIZE * BSIZE) p (m' ?x)) (mkst m' fi fb') = mkst ?m fi fb'"
      using xb by (simp add: wsect_def minus_div_mult_eq_mod max_def)
    show "edits m fb din ?m fb' din'" by (rule edits_trans [OF d(1) w(1)])
    have "dbyte ?m din' k = (if k < length (bs @ p) then (bs @ p) ! k else 0)" if "k < MAXFILE * BSIZE" for k
      using w(3) [OF that] d(3) a that by (auto simp: nth_append off_def)
    then show "holds_bytes ?m fb' din' (bs @ p)" using w(1) d(2) p(2) unfolding holds_bytes_def e(2) w(2) edits_def by blast
  qed
qed

lemma iappend_loop_ok:
  assumes "holds_bytes m fb din bs" "\<forall>b \<ge> fb. m b = (\<lambda>_. 0)" "nmeta \<le> fb" "fb + need (length (bs @ p)) - need (length bs) \<le> FSSIZE"
    "length (bs @ p) \<le> MAXFILE * BSIZE"
  shows "\<exists>m' din'. iappend_loop p (length bs) din (mkst m fi fb) = Some (length (bs @ p), din', mkst m' fi (fb + need (length (bs @ p)) - need (length bs)))
    \<and> edits m fb din m' (fb + need (length (bs @ p)) - need (length bs)) din' \<and> holds_bytes m' (fb + need (length (bs @ p)) - need (length bs)) din' (bs @ p)"
  using assms
proof (induction "length p" arbitrary: p m fb din bs rule: less_induct)
  case less
  show ?case
  proof (cases "p = []")
    case True
    have "edits m fb din m fb din" using less.prems(1,2) by (auto simp: holds_bytes_def intro: edits_refl)
    then show ?thesis using less.prems(1) by (simp add: True iappend_loop.simps [of "[]"])
  next
    case False
    let ?off = "length bs" and ?n = "min (length p) ((length bs div BSIZE + 1) * BSIZE - length bs)"
    let ?p = "take ?n p" and ?r = "drop ?n p"
    have "(q + 1) * BSIZE - (q * BSIZE + r) = BSIZE - r" for q r :: nat by simp
    from this [of "?off div BSIZE" "?off mod BSIZE"] have eq: "(?off div BSIZE + 1) * BSIZE - ?off = BSIZE - ?off mod BSIZE"
      unfolding div_mult_mod_eq .
    have lt: "?off mod BSIZE < BSIZE" by simp
    have p: "?p \<noteq> []" "length ?p = ?n" "length ?r < length p" using False lt unfolding eq by auto
    have m: "need ?off \<le> need (length (bs @ ?p))" "need (length (bs @ ?p)) \<le> need (length (bs @ p))" by (auto intro: need_mono)
    let ?fb = "fb + need (length (bs @ ?p)) - need ?off"
    have "length (bs @ ?p) \<le> MAXFILE * BSIZE" "length ?p \<le> BSIZE - ?off mod BSIZE" using less.prems(5) unfolding eq by auto
    moreover have "?fb \<le> FSSIZE" using m less.prems(4) by linarith
    ultimately obtain x din' m' m'' where r: "iappend_addr (?off div BSIZE) din (mkst m fi fb) = Some (x, din', mkst m' fi ?fb)"
      "rsect x (mkst m' fi ?fb) = Some (m' x)" "wsect x (put_bytes (?off - ?off div BSIZE * BSIZE) ?p (m' x)) (mkst m' fi ?fb) = mkst m'' fi ?fb"
      "edits m fb din m'' ?fb din'" "holds_bytes m'' ?fb din' (bs @ ?p)"
      using append_chunk [OF less.prems(1-3) _ p(1)] by metis
    have q: "?off div BSIZE < MAXFILE" using less.prems(5) False by (cases p) (auto simp: less_mult_imp_div_less)
    have st: "iappend_loop p ?off din (mkst m fi fb) = iappend_loop ?r (length (bs @ ?p)) din' (mkst m'' fi ?fb)"
      using False q r(1-3) p(2) by (simp add: iappend_loop.simps [of p] Let_def)
    have "?fb + need (length ((bs @ ?p) @ ?r)) - need (length (bs @ ?p)) = fb + need (length (bs @ p)) - need ?off" using m by simp
    moreover have "(bs @ ?p) @ ?r = bs @ p" by simp
    moreover have "\<forall>b \<ge> ?fb. m'' b = (\<lambda>_. 0)" "nmeta \<le> ?fb" using r(4) less.prems(3) m by (auto simp: edits_def)
    ultimately show ?thesis using less.hyps [OF p(3) r(5)] less.prems(4,5) edits_trans [OF r(4)] unfolding st by (metis (no_types, lifting))
  qed
qed

end
