(* ===== verification/Xv6_Image.thy ===== *)
theory Xv6_Image
  imports Xv6_Proc Xv6_Mkfs
begin

text \<open>
  What \<open>mkfs\<close> makes: the invariant of the image over the whole program, and that the kernel that boots on the image finds a well-formed
  file system with the files of the command line.
\<close>

section \<open>The image while files are added\<close>

definition dinode_at :: "(nat \<Rightarrow> block) \<Rightarrow> nat \<Rightarrow> dinode" where
  "dinode_at m n = get_dinode (n mod IPB) (m (IBLOCK n mkfs_sb))"

text \<open>Inode \<open>n\<close> is of the type \<open>ty\<close> and holds the bytes \<open>bs\<close>.\<close>

definition file_at :: "(nat \<Rightarrow> block) \<Rightarrow> nat \<Rightarrow> nat \<Rightarrow> u16 \<Rightarrow> byte list \<Rightarrow> bool" where
  "file_at m fb n ty bs \<longleftrightarrow> holds_bytes m fb (dinode_at m n) bs \<and> d_size (dinode_at m n) = length bs \<and> d_type (dinode_at m n) = ty"

definition apart :: "(nat \<Rightarrow> block) \<Rightarrow> nat \<Rightarrow> bool" where
  "apart m fi \<longleftrightarrow> (\<forall>n n'. 0 < n \<and> n < fi \<and> 0 < n' \<and> n' < fi \<and> n \<noteq> n' \<longrightarrow> own m (dinode_at m n) \<inter> own m (dinode_at m n') = {})"

definition image_inv :: "(nat \<Rightarrow> block) \<Rightarrow> nat \<Rightarrow> nat \<Rightarrow> (nat \<Rightarrow> u16 \<times> byte list) \<Rightarrow> bool" where
  "image_inv m fi fb F \<longleftrightarrow> nmeta \<le> fb \<and> fb \<le> FSSIZE \<and> 0 < fi \<and> fi \<le> NINODES \<and> (\<forall>b \<ge> fb. m b = (\<lambda>_. 0))
     \<and> (\<forall>b < inodestart mkfs_sb. m b = (if b = 1 then sb_block mkfs_sb else (\<lambda>_. 0)))
     \<and> (\<forall>n. 0 < n \<and> n < fi \<longrightarrow> file_at m fb n (fst (F n)) (snd (F n))) \<and> apart m fi"

lemma image_invD:
  assumes "image_inv m fi fb F"
  shows "nmeta \<le> fb" "fb \<le> FSSIZE" "0 < fi" "fi \<le> NINODES" "\<forall>b \<ge> fb. m b = (\<lambda>_. 0)"
    "\<forall>b < inodestart mkfs_sb. m b = (if b = 1 then sb_block mkfs_sb else (\<lambda>_. 0))"
    "\<And>n. 0 < n \<Longrightarrow> n < fi \<Longrightarrow> file_at m fb n (fst (F n)) (snd (F n))" "apart m fi"
  using assms unfolding image_inv_def by blast+

lemma inode_block:
  assumes "n \<le> NINODES"
  shows "inodestart mkfs_sb \<le> IBLOCK n mkfs_sb" "IBLOCK n mkfs_sb < bmapstart mkfs_sb" "IBLOCK n mkfs_sb < nmeta"
  using assms div_le_mono [of n NINODES IPB] by (simp_all add: IBLOCK_def mkfs_sb_def)

text \<open>An inode is put into its block: this one is changed, the others and their files are not.\<close>

lemma dinode_at_put:
  assumes "dinode_ok x"
  shows "dinode_at (m(IBLOCK n mkfs_sb := put_dinode (n mod IPB) x (m (IBLOCK n mkfs_sb)))) n' = (if n' = n then x else dinode_at m n')"
proof (cases "n' = n")
  case False
  then have "n' mod IPB \<noteq> n mod IPB" if "IBLOCK n' mkfs_sb = IBLOCK n mkfs_sb"
    using that div_mult_mod_eq [of n IPB] div_mult_mod_eq [of n' IPB] by (auto simp: IBLOCK_def)
  then show ?thesis using False by (auto simp: dinode_at_def get_put_dinode_other)
qed (simp add: dinode_at_def get_put_dinode [OF assms])

lemma slots_ok_mono: "slots_ok m fb din \<Longrightarrow> fb \<le> fb' \<Longrightarrow> slots_ok m fb' din"
  unfolding slots_ok_def by (meson order_less_le_trans)

lemma file_same:
  assumes "d_addrs din' = d_addrs din" "\<And>b. b \<in> own m din \<Longrightarrow> m' b = m b" "fb \<le> fb'"
  shows "holds_bytes m fb din bs \<Longrightarrow> holds_bytes m' fb' din' bs" "own m' din' = own m din"
proof -
  note c = file_cong [of din' din m m', OF assms(1,2), simplified]
  show "own m' din' = own m din" by (rule c(2))
  assume h: "holds_bytes m fb din bs"
  then have "slots_ok m fb' din" using slots_ok_mono assms(3) by (auto simp: holds_bytes_def)
  then have "slots_ok m' fb' din'" using assms(1) unfolding slots_ok_def c(1) by simp
  then show "holds_bytes m' fb' din' bs" using h c(3) unfolding holds_bytes_def c(1) by auto
qed

lemma bytes_dinode_ok:
  assumes "holds_bytes m fb din bs" "fb \<le> FSSIZE" "d_size din < 2 ^ 32"
  shows "dinode_ok din"
proof -
  have s: "slots_ok m fb din" using assms(1) by (simp add: holds_bytes_def)
  have "a < 2 ^ 32" if a: "a \<in> set (d_addrs din)" for a
  proof -
    obtain j where j: "j \<le> NDIRECT" "a = dslot m din j"
      using a slots_okD(1) [OF s] dslot_simps(1) [of _ m din] by (auto simp: in_set_conv_nth) (metis less_Suc_eq_le numeral_eq_Suc pred_numeral_simps(3) arith_simps(29))
    then show ?thesis using slots_okD(2) [OF s, of j] assms(2) by (cases "a = 0") auto
  qed
  then show ?thesis using slots_okD(1) [OF s] assms(3) by (simp add: dinode_ok_def)
qed

text \<open>The inode \<open>n\<close> of an image is replaced by one that holds \<open>bs\<close>, in blocks that no other file has.\<close>

lemma image_put:
  assumes i: "image_inv m fi fb F" and n: "0 < n" "n \<le> fi" "n < NINODES" and fi: "fi' = (if n < fi then fi else fi + 1)"
    and ow: "ow = (if n < fi then own m (dinode_at m n) else {})" and e: "fb \<le> fb'" "fb' \<le> FSSIZE"
    and z: "\<forall>b \<ge> fb'. m' b = (\<lambda>_. 0)"
    and h: "holds_bytes m' fb' din bs" "d_size din = length bs" "d_type din = ty"
    and m: "\<And>b. b < fb \<Longrightarrow> b \<notin> ow \<Longrightarrow> m' b = m b" and o: "own m' din \<subseteq> ow \<union> {fb..<fb'}"
  defines "m'' \<equiv> m'(IBLOCK n mkfs_sb := put_dinode (n mod IPB) din (m' (IBLOCK n mkfs_sb)))"
  shows "image_inv m'' fi' fb' (F(n := (ty, bs)))"
proof -
  note k = image_invD [OF i]
  have ds: "dinode_ok din" using bytes_dinode_ok [OF h(1) e(2)] h(1,2) by (simp add: holds_bytes_def)
  have nb: "n \<le> NINODES" using n by simp
  have lt: "n' < fi" if "n' < fi'" "n' \<noteq> n" for n' using that n(2) fi by (auto split: if_splits)
  note b = inode_block [OF nb]
  have ob: "ow \<subseteq> {nmeta..<fb}" using k(7) [of n] n own_bounds [of m fb "dinode_at m n"] by (simp add: file_at_def holds_bytes_def ow)
  have low: "m' c = m c" if "c < nmeta" for c
  proof -
    have "c \<notin> ow" using ob that by auto
    then show ?thesis using m [of c] that k(1) by simp
  qed
  have m'': "m'' c = m' c" if "nmeta \<le> c" for c using that b by (simp add: m''_def)
  have at': "dinode_at m' n' = dinode_at m n'" if "n' \<le> NINODES" for n'
    unfolding dinode_at_def using low [OF inode_block(3) [OF that]] by simp
  have at: "dinode_at m'' n' = (if n' = n then din else dinode_at m n')" if "n' \<le> NINODES" for n'
    unfolding m''_def dinode_at_put [OF ds] using at' [OF that] by simp
  have other: "own m (dinode_at m n') \<subseteq> {nmeta..<fb}" "own m (dinode_at m n') \<inter> ow = {}" if "0 < n'" "n' < fi" "n' \<noteq> n" for n'
    using k(7) [OF that(1,2)] k(8) that n(1) own_bounds [of m fb "dinode_at m n'"] by (simp_all add: file_at_def holds_bytes_def apart_def ow)
  have oth: "m'' c = m c" if "c \<in> own m (dinode_at m n')" "0 < n'" "n' < fi" "n' \<noteq> n" for c n'
  proof -
    have "c \<in> {nmeta..<fb}" "c \<notin> ow" using other [OF that(2-4)] that(1) by auto
    then show ?thesis using m [of c] m'' [of c] by simp
  qed
  have same: "holds_bytes m fb (dinode_at m n') xs \<Longrightarrow> holds_bytes m'' fb' (dinode_at m'' n') xs" "own m'' (dinode_at m'' n') = own m (dinode_at m n')"
    if "0 < n'" "n' < fi" "n' \<noteq> n" for n' xs
    using file_same [of "dinode_at m'' n'" "dinode_at m n'" m m'' fb fb'] at [of n'] that oth k(4) e(1) by simp_all
  have on: "own m' din \<subseteq> {nmeta..}" using h(1) own_bounds [of m' fb' din] by (auto simp: holds_bytes_def)
  then have new: "holds_bytes m'' fb' din bs" "own m'' din = own m' din"
    using file_same [of din din m' m'' fb' fb'] h(1) m'' by (simp_all add: subset_eq)
  have "file_at m'' fb' n' (fst ((F(n := (ty, bs))) n')) (snd ((F(n := (ty, bs))) n'))" if n': "0 < n'" "n' < fi'" for n'
  proof (cases "n' = n")
    case True
    then show ?thesis using new(1) h at [OF nb] by (simp add: file_at_def)
  next
    case False
    then have "n' < fi" using lt n' by simp
    then show ?thesis using k(7) [OF n'(1)] same(1) [OF n'(1) _ False] at [of n'] False k(4) by (simp add: file_at_def)
  qed
  moreover have "apart m'' fi'" unfolding apart_def
  proof (intro allI impI)
    have half: "own m'' (dinode_at m'' a) \<inter> own m'' (dinode_at m'' c) = {}" if "0 < a" "a < fi" "a \<noteq> n" "0 < c" "c < fi'" "c \<noteq> a" for a c
    proof (cases "c = n")
      case True
      then show ?thesis using other [OF that(1-3)] o at [OF nb] new(2) same(2) [OF that(1-3)] by fastforce
    next
      case False
      then have "c < fi" using lt that(5) by simp
      then show ?thesis using k(8) that False same(2) [OF that(1-3)] same(2) [of c] by (auto simp: apart_def)
    qed
    fix a c assume ac: "0 < a \<and> a < fi' \<and> 0 < c \<and> c < fi' \<and> a \<noteq> c"
    then consider "a < fi" "a \<noteq> n" | "c < fi" "c \<noteq> n" using lt by metis
    then show "own m'' (dinode_at m'' a) \<inter> own m'' (dinode_at m'' c) = {}"
    proof cases
      case 1
      then show ?thesis using half [of a c] ac by simp
    next
      case 2
      then show ?thesis using half [of c a] ac by (simp add: Int_commute)
    qed
  qed
  moreover have "m'' c = m c" if "c < inodestart mkfs_sb" for c using low [of c] that b by (simp add: m''_def mkfs_sb_def)
  moreover have "m'' c = (\<lambda>_. 0)" if "c \<ge> fb'" for c using m'' [of c] z k(1) e(1) that by simp
  ultimately show ?thesis unfolding image_inv_def using k(1-6) e fi n by simp
qed

section \<open>The operations of the program\<close>

lemma inode_io:
  assumes "n \<le> NINODES"
  shows "rinode n (mkst m fi fb) = Some (dinode_at m n)"
    "winode n din (mkst m fi fb) = Some (mkst (m(IBLOCK n mkfs_sb := put_dinode (n mod IPB) din (m (IBLOCK n mkfs_sb)))) fi fb)"
  using inode_block [OF assms] by (simp_all add: rinode_def winode_def rsect_def wsect_def dinode_at_def max_def Let_def)

lemma iappend_ok:
  assumes i: "image_inv m fi fb F" and n: "0 < n" "n < fi" and f: "F n = (ty, bs)" and l: "length (bs @ p) \<le> MAXFILE * BSIZE"
    and b: "fb' = fb + need (length (bs @ p)) - need (length bs)" "fb' \<le> FSSIZE"
  shows "\<exists>m'. iappend n p (mkst m fi fb) = Some (mkst m' fi fb') \<and> image_inv m' fi fb' (F(n := (ty, bs @ p)))"
proof -
  note k = image_invD [OF i]
  have fi: "n \<le> NINODES" "n < NINODES" using n k(4) by simp_all
  have h: "holds_bytes m fb (dinode_at m n) bs" "d_size (dinode_at m n) = length bs" "d_type (dinode_at m n) = ty"
    using k(7) [OF n] f by (simp_all add: file_at_def)
  obtain m' din' where r: "iappend_loop p (length bs) (dinode_at m n) (mkst m fi fb) = Some (length (bs @ p), din', mkst m' fi fb')"
    and e: "edits m fb (dinode_at m n) m' fb' din'" and h': "holds_bytes m' fb' din' (bs @ p)"
    using iappend_loop_ok [OF h(1) k(5,1)] l b by blast
  let ?d = "din'\<lparr>d_size := length (bs @ p)\<rparr>"
  have d: "holds_bytes m' fb' ?d (bs @ p)" "own m' ?d = own m' din'" using file_same [of ?d din' m' m' fb' fb'] h' by simp_all
  note ed = e [unfolded edits_def]
  have "d_type din' = ty" using ed h(3) by (metis dinode.simps(1) dinode.update_convs(6) dinode.surjective)
  then have "image_inv (m'(IBLOCK n mkfs_sb := put_dinode (n mod IPB) ?d (m' (IBLOCK n mkfs_sb)))) fi fb' (F(n := (ty, bs @ p)))"
    using ed n b(2) d fi by (intro image_put [OF i, where ow = "own m (dinode_at m n)"]) simp_all
  then show ?thesis using inode_io [OF fi(1)] r h(2) by (simp add: iappend_def)
qed

lemma empty_file:
  assumes "d_addrs din = replicate (NDIRECT + 1) 0"
  shows "holds_bytes m fb din []" "own m din = {}"
proof -
  have "dslot m din j = 0" for j using assms by (cases "j \<le> NDIRECT") (simp_all add: dslot_def)
  then show "holds_bytes m fb din []" "own m din = {}" using assms by (auto simp: holds_bytes_def slots_ok_def dbyte_def live_def own_def)
qed

lemma ialloc_ok:
  assumes i: "image_inv m fi fb F" and fi: "fi < NINODES"
  shows "\<exists>m'. mkfs_ialloc ty (mkst m fi fb) = Some (fi, mkst m' (fi + 1) fb) \<and> image_inv m' (fi + 1) fb (F(fi := (ty, [])))"
proof -
  let ?d = "\<lparr>d_type = ty, d_major = 0, d_minor = 0, d_nlink = 1, d_size = 0, d_addrs = replicate (NDIRECT + 1) 0\<rparr>"
  note k = image_invD [OF i]
  have "holds_bytes m fb ?d []" "own m ?d = {}" by (rule empty_file; simp)+
  then have "image_inv (m(IBLOCK fi mkfs_sb := put_dinode (fi mod IPB) ?d (m (IBLOCK fi mkfs_sb)))) (fi + 1) fb (F(fi := (ty, [])))"
    using k fi by (intro image_put [OF i, where ow = "{}"]) simp_all
  then show ?thesis using inode_io [of fi] fi by (simp add: mkfs_ialloc_def Let_def)
qed

lemma copy_ok:
  assumes "image_inv m fi fb F" "0 < n" "n < fi" "F n = (ty, bs)" "length (bs @ contents inp) \<le> MAXFILE * BSIZE"
    "fb' = fb + need (length (bs @ contents inp)) - need (length bs)" "fb' \<le> FSSIZE"
  shows "\<exists>m'. mkfs_copy n inp (mkst m fi fb) = Some (mkst m' fi fb') \<and> image_inv m' fi fb' (F(n := (ty, bs @ contents inp)))"
  using assms
proof (induction "input_size inp" arbitrary: inp m fb F bs rule: less_induct)
  case less
  obtain r inp' where rd: "read_fd BSIZE inp = (r, inp')" by fastforce
  show ?case
  proof (cases "r = None \<or> r = Some []")
    case True
    then have "contents inp = []" using rd by (cases inp rule: contents.cases) (auto split: if_splits)
    moreover from this have "F(n := (ty, bs @ contents inp)) = F" using less.prems(4) by auto
    ultimately show ?thesis using True rd less.prems by (auto simp: mkfs_copy.simps [of n inp])
  next
    case False
    then obtain c where c: "r = Some c" "c \<noteq> []" by auto
    have e: "contents inp = c @ contents inp'" using rd c by (cases inp rule: contents.cases) (auto split: if_splits)
    have m: "need (length bs) \<le> need (length (bs @ c))" "need (length (bs @ c)) \<le> need (length (bs @ contents inp))" by (auto simp: e intro: need_mono)
    let ?fb = "fb + need (length (bs @ c)) - need (length bs)"
    obtain m' where a: "iappend n c (mkst m fi fb) = Some (mkst m' fi ?fb)" "image_inv m' fi ?fb (F(n := (ty, bs @ c)))"
      using iappend_ok [OF less.prems(1-4) _ refl, of c] less.prems(5-7) m e by fastforce
    have "\<exists>m''. mkfs_copy n inp' (mkst m' fi ?fb) = Some (mkst m'' fi fb') \<and> image_inv m'' fi fb' ((F(n := (ty, bs @ c)))(n := (ty, (bs @ c) @ contents inp')))"
      by (rule less.hyps [OF _ a(2) less.prems(2,3)]) (use read_fd_size rd c less.prems(5-7) m e in \<open>auto\<close>)
    then show ?thesis using a(1) c rd by (simp add: mkfs_copy.simps [of n inp] e)
  qed
qed

text \<open>The entries of the root directory for the files, and what the files hold.\<close>

fun root_bytes :: "nat \<Rightarrow> (byte list \<times> input option) list \<Rightarrow> byte list" where
  "root_bytes i [] = []"
| "root_bytes i ((name, fd) # files) = mk_dirent i (fs_name name) @ root_bytes (i + 1) files"

definition file_of :: "byte list \<times> input option \<Rightarrow> u16 \<times> byte list" where
  "file_of f = (T_FILE, case snd f of None \<Rightarrow> [] | Some inp \<Rightarrow> contents inp)"

definition blocks_of :: "(byte list \<times> input option) list \<Rightarrow> nat" where
  "blocks_of files = sum_list (map (\<lambda>f. need (length (snd (file_of f)))) files)"

text \<open>Files that can be added: they can be opened, have a plain name and are not too long.\<close>

definition addable :: "(byte list \<times> input option) list \<Rightarrow> bool" where
  "addable files \<longleftrightarrow> (\<forall>(name, fd) \<in> set files. 0 \<notin> set name \<and> 0x2F \<notin> set name \<and> fd \<noteq> None \<and> length (snd (file_of (name, fd))) \<le> MAXFILE * BSIZE)"

definition with_files :: "nat \<Rightarrow> (byte list \<times> input option) list \<Rightarrow> (nat \<Rightarrow> u16 \<times> byte list) \<Rightarrow> nat \<Rightarrow> u16 \<times> byte list" where
  "with_files i files F n =
     (if n = ROOTINO then (fst (F ROOTINO), snd (F ROOTINO) @ root_bytes i files) else if i \<le> n \<and> n < i + length files then file_of (files ! (n - i)) else F n)"

lemma length_mk_dirent [simp]: "length (mk_dirent i name) = 16"
  by (simp add: mk_dirent_def)

lemma length_root_bytes [simp]: "length (root_bytes i files) = 16 * length files"
  by (induction i files rule: root_bytes.induct) simp_all

lemma with_files_Cons:
  assumes "1 < i"
  shows "with_files (i + 1) files (F(ROOTINO := (ty, bs @ mk_dirent i (fs_name name)), i := file_of (name, fd))) =
    with_files i ((name, fd) # files) (F(ROOTINO := (ty, bs)))"
proof
  fix n
  consider "n = ROOTINO" | "n = i" | "i < n" "n < i + 1 + length files" | "n \<noteq> ROOTINO" "n < i" | "i + 1 + length files \<le> n" by linarith
  then show "with_files (i + 1) files (F(ROOTINO := (ty, bs @ mk_dirent i (fs_name name)), i := file_of (name, fd))) n =
    with_files i ((name, fd) # files) (F(ROOTINO := (ty, bs))) n"
    using assms by cases (auto simp: with_files_def nth_Cons' )
qed

lemma files_ok:
  assumes "image_inv m fi fb F" "1 < fi" "fi + length files \<le> NINODES" "addable files" "F ROOTINO = (ty, bs)"
    "length bs + 16 * length files \<le> MAXFILE * BSIZE" "fb' = fb + need (length bs + 16 * length files) - need (length bs) + blocks_of files" "fb' \<le> FSSIZE"
  shows "\<exists>m'. mkfs_files ROOTINO files (mkst m fi fb) = Some (mkst m' (fi + length files) fb') \<and> image_inv m' (fi + length files) fb' (with_files fi files F)"
  using assms
proof (induction files arbitrary: m fi fb F bs)
  case Nil
  have "with_files fi [] F = F" by (rule ext) (simp add: with_files_def)
  then show ?case using Nil by (simp add: blocks_of_def)
next
  case (Cons f files)
  obtain name inp where f: "f = (name, Some inp)" using Cons.prems(4) by (cases f) (auto simp: addable_def)
  let ?c = "contents inp" and ?e = "mk_dirent fi (fs_name name)"
  have a: "0x2F \<notin> set name" "length ?c \<le> MAXFILE * BSIZE" "addable files" using Cons.prems(4) f by (auto simp: addable_def file_of_def)
  have b: "blocks_of (f # files) = need (length ?c) + blocks_of files" by (simp add: blocks_of_def file_of_def f)
  have n: "need (length bs) \<le> need (length bs + 16)" "need (length bs + 16) \<le> need (length bs + 16 * length (f # files))" by (auto intro: need_mono)
  obtain m1 where 1: "mkfs_ialloc T_FILE (mkst m fi fb) = Some (fi, mkst m1 (fi + 1) fb)" "image_inv m1 (fi + 1) fb (F(fi := (T_FILE, [])))"
    using ialloc_ok [OF Cons.prems(1)] Cons.prems(3) by fastforce
  let ?fb = "fb + need (length bs + 16) - need (length bs)"
  obtain m2 where 2: "iappend ROOTINO ?e (mkst m1 (fi + 1) fb) = Some (mkst m2 (fi + 1) ?fb)"
    "image_inv m2 (fi + 1) ?fb (F(fi := (T_FILE, []), ROOTINO := (ty, bs @ ?e)))"
    using iappend_ok [OF 1(2), of ROOTINO ty bs ?e ?fb] Cons.prems(2,5-8) n b by fastforce
  have le: "?fb + need (length ?c) \<le> FSSIZE" using Cons.prems(7,8) n b by simp
  have e: "length bs + 16 * length (f # files) = length bs + 16 + 16 * length files" "length (bs @ ?e) = length bs + 16" by simp_all
  have fb: "fb' = ?fb + need (length ?c) + need (length (bs @ ?e) + 16 * length files) - need (length (bs @ ?e)) + blocks_of files"
    using Cons.prems(7) n unfolding b e by linarith
  obtain m3 where 3: "mkfs_copy fi inp (mkst m2 (fi + 1) ?fb) = Some (mkst m3 (fi + 1) (?fb + need (length ?c)))"
    "image_inv m3 (fi + 1) (?fb + need (length ?c)) (F(fi := (T_FILE, []), ROOTINO := (ty, bs @ ?e), fi := (T_FILE, ?c)))"
    using copy_ok [OF 2(2), of fi T_FILE "[]" inp "?fb + need (length ?c)"] a(2) Cons.prems(2) le by auto
  have F: "F(fi := (T_FILE, []), ROOTINO := (ty, bs @ ?e), fi := (T_FILE, ?c)) = F(ROOTINO := (ty, bs @ ?e), fi := file_of f)"
    by (auto simp: f file_of_def)
  have "\<exists>m'. mkfs_files ROOTINO files (mkst m3 (fi + 1) (?fb + need (length ?c))) = Some (mkst m' (fi + 1 + length files) fb') \<and>
      image_inv m' (fi + 1 + length files) fb' (with_files (fi + 1) files (F(ROOTINO := (ty, bs @ ?e), fi := file_of f)))"
    by (rule Cons.IH [where bs = "bs @ ?e", OF 3(2) [unfolded F] _ _ a(3) _ _ fb]) (use Cons.prems(2,3,5,6,8) in simp_all)
  moreover have "with_files (fi + 1) files (F(ROOTINO := (ty, bs @ ?e), fi := file_of f)) = with_files fi (f # files) F"
    using with_files_Cons [OF Cons.prems(2), of files F ty bs name "Some inp"] Cons.prems(5) by (simp add: f fun_upd_idem)
  ultimately show ?case using 1(1) 2(1) 3(1) a(1) by (simp add: f)
qed

section \<open>The finished image\<close>

definition final_image :: "(nat \<Rightarrow> block) \<Rightarrow> nat \<Rightarrow> nat \<Rightarrow> block" where
  "final_image m fb =
     (let din = dinode_at m ROOTINO; ib = IBLOCK ROOTINO mkfs_sb;
          m = m(ib := put_dinode (ROOTINO mod IPB) (din\<lparr>d_size := (d_size din div BSIZE + 1) * BSIZE\<rparr>) (m ib))
      in m(bmapstart mkfs_sb := fold set_bit_of [0..<fb] (\<lambda>_. 0)))"

lemma zeroed: "fold (\<lambda>i. wsect i (\<lambda>_. 0)) [0..<n] \<lparr>m_img = (\<lambda>_ _. 0), m_size = 0, m_sb = x, freeinode = i, freeblock = b\<rparr> =
    \<lparr>m_img = (\<lambda>_ _. 0), m_size = n, m_sb = x, freeinode = i, freeblock = b\<rparr>"
  by (induction n) (simp_all add: wsect_def fun_upd_idem)

lemma image_inv_start: "image_inv ((\<lambda>_ _. 0)(1 := sb_block mkfs_sb)) 1 nmeta F"
  by (auto simp: image_inv_def apart_def)

definition root_file :: "(byte list \<times> input option) list \<Rightarrow> byte list" where
  "root_file files = mk_dirent ROOTINO [0x2E] @ mk_dirent ROOTINO [0x2E, 0x2E] @ root_bytes 2 files"

definition contents_of :: "(byte list \<times> input option) list \<Rightarrow> nat \<Rightarrow> u16 \<times> byte list" where
  "contents_of files n = (if n = ROOTINO then (T_DIR, root_file files) else file_of (files ! (n - 2)))"

definition image_size :: "(byte list \<times> input option) list \<Rightarrow> nat" where
  "image_size files = nmeta + need (16 * (length files + 2)) + blocks_of files"

lemma image_inv_cong: "image_inv m fi fb F \<Longrightarrow> (\<And>n. 0 < n \<Longrightarrow> n < fi \<Longrightarrow> F n = G n) \<Longrightarrow> image_inv m fi fb G"
  unfolding image_inv_def by simp

lemma mkfs_main_ok:
  assumes a: "addable files" and l: "length files + 2 \<le> NINODES" and b: "image_size files \<le> FSSIZE"
  shows "\<exists>m. mkfs_main files = Some (mkst (final_image m (image_size files)) (length files + 2) (image_size files)) \<and>
    image_inv m (length files + 2) (image_size files) (contents_of files)"
proof -
  let ?F = "\<lambda>_ :: nat. (0 :: u16, [] :: byte list)" and ?m = "(\<lambda>_ _. 0)(1 := sb_block mkfs_sb)" and ?e = "mk_dirent ROOTINO [0x2E]" and ?f = "mk_dirent ROOTINO [0x2E, 0x2E]"
  have n: "need 16 = 1" "need 32 = 1" by (simp_all add: need_def)
  have "1 \<le> need (16 * (length files + 2))" using need_mono [of 32 "16 * (length files + 2)"] n by simp
  then have fb: "nmeta + 1 \<le> FSSIZE" "image_size files = nmeta + 1 + need (length (?e @ ?f) + 16 * length files) - need (length (?e @ ?f)) + blocks_of files"
    using b n by (simp_all add: image_size_def)
  obtain m1 where 1: "mkfs_ialloc T_DIR (mkst ?m 1 nmeta) = Some (ROOTINO, mkst m1 2 nmeta)" "image_inv m1 2 nmeta (?F(1 := (T_DIR, [])))"
    using ialloc_ok [OF image_inv_start, of T_DIR ?F] by (auto simp: numeral_2_eq_2)
  obtain m2 where 2: "iappend ROOTINO ?e (mkst m1 2 nmeta) = Some (mkst m2 2 (nmeta + 1))" "image_inv m2 2 (nmeta + 1) (?F(1 := (T_DIR, ?e)))"
    using iappend_ok [OF 1(2), of ROOTINO T_DIR "[]" ?e "nmeta + 1"] fb n by auto
  obtain m3 where 3: "iappend ROOTINO ?f (mkst m2 2 (nmeta + 1)) = Some (mkst m3 2 (nmeta + 1))" "image_inv m3 2 (nmeta + 1) (?F(1 := (T_DIR, ?e @ ?f)))"
    using iappend_ok [OF 2(2), of ROOTINO T_DIR ?e ?f "nmeta + 1"] fb n by auto
  obtain m4 where 4: "mkfs_files ROOTINO files (mkst m3 2 (nmeta + 1)) = Some (mkst m4 (2 + length files) (image_size files))"
    "image_inv m4 (2 + length files) (image_size files) (with_files 2 files (?F(1 := (T_DIR, ?e @ ?f))))"
    using files_ok [OF 3(2) _ _ a, of T_DIR "?e @ ?f" "image_size files"] l b fb by auto
  have "image_inv m4 (2 + length files) (image_size files) (contents_of files)"
    by (rule image_inv_cong [OF 4(2)]) (auto simp: with_files_def contents_of_def root_file_def)
  moreover have "mkfs_main files = Some (mkst (final_image m4 (image_size files)) (2 + length files) (image_size files))"
  proof -
    let ?d = "dinode_at m4 ROOTINO" and ?fb = "image_size files"
    have s: "wsect 1 (sb_block mkfs_sb) (mkst (\<lambda>_ _. 0) 1 nmeta) = mkst ?m 1 nmeta" by (simp add: wsect_def)
    have u: "mkfs_balloc ?fb (mkst m i ?fb) = Some (mkst (m(bmapstart mkfs_sb := fold set_bit_of [0..<?fb] (\<lambda>_. 0))) i ?fb)" for m i
      using b by (simp add: mkfs_balloc_def wsect_def mkfs_sb_def)
    show ?thesis unfolding mkfs_main_def Let_def zeroed mkfs.simps s
      using 1(1) 2(1) 3(1) 4(1) by (simp add: inode_io u final_image_def Let_def)
  qed
  ultimately show ?thesis by (auto simp: add.commute)
qed

lemma bits_upto: "bit_set (fold set_bit_of [0..<n] (\<lambda>_. 0)) b \<longleftrightarrow> b < n"
  by (induction n) (auto simp: bit_set_set, simp add: bit_set_def)

lemma final_image_facts:
  assumes i: "image_inv m fi fb F" "1 < fi"
  defines "f \<equiv> final_image m fb"
  shows "f 1 = sb_block mkfs_sb" "f 2 = (\<lambda>_. 0)" "b < FSSIZE \<Longrightarrow> bit_set (f (BBLOCK b mkfs_sb)) (b mod BPB) \<longleftrightarrow> b < fb"
    "n \<le> NINODES \<Longrightarrow> dinode_at f n = (if n = ROOTINO then (dinode_at m n)\<lparr>d_size := (d_size (dinode_at m n) div BSIZE + 1) * BSIZE\<rparr> else dinode_at m n)"
    "0 < n \<Longrightarrow> n < fi \<Longrightarrow> holds_bytes f fb (dinode_at f n) (snd (F n))"
proof -
  note k = image_invD [OF i(1)]
  let ?d = "(dinode_at m ROOTINO)\<lparr>d_size := (d_size (dinode_at m ROOTINO) div BSIZE + 1) * BSIZE\<rparr>" and ?ib = "IBLOCK ROOTINO mkfs_sb"
  have h: "holds_bytes m fb (dinode_at m n) (snd (F n))" "d_size (dinode_at m n) = length (snd (F n))" if "0 < n" "n < fi" for n
    using k(7) [OF that] by (simp_all add: file_at_def)
  have "d_size (dinode_at m ROOTINO) \<le> MAXFILE * BSIZE" using h [of ROOTINO] i(2) by (simp add: holds_bytes_def)
  then have z: "d_size ?d < 2 ^ 32" by simp
  moreover have "holds_bytes m fb ?d (snd (F ROOTINO))" using file_same(1) [of ?d "dinode_at m ROOTINO" m m fb fb] h(1) [of ROOTINO] i(2) by simp
  ultimately have ok: "dinode_ok ?d" using bytes_dinode_ok k(2) by blast
  have f: "f b = (if b = bmapstart mkfs_sb then fold set_bit_of [0..<fb] (\<lambda>_. 0) else if b = ?ib then put_dinode (ROOTINO mod IPB) ?d (m b) else m b)" for b
    by (simp add: f_def final_image_def Let_def)
  show "f 1 = sb_block mkfs_sb" "f 2 = (\<lambda>_. 0)" using k(6) by (simp_all add: f mkfs_sb_def IBLOCK_def)
  show "b < FSSIZE \<Longrightarrow> bit_set (f (BBLOCK b mkfs_sb)) (b mod BPB) \<longleftrightarrow> b < fb" by (simp add: f BBLOCK_def bits_upto)
  show at: "dinode_at f n = (if n = ROOTINO then (dinode_at m n)\<lparr>d_size := (d_size (dinode_at m n) div BSIZE + 1) * BSIZE\<rparr> else dinode_at m n)"
    if "n \<le> NINODES" for n
  proof -
    have "dinode_at f n = dinode_at (m(?ib := put_dinode (ROOTINO mod IPB) ?d (m ?ib))) n"
      using inode_block [OF that] by (simp add: dinode_at_def f)
    then show ?thesis unfolding dinode_at_put [OF ok] by simp
  qed
  assume n: "0 < n" "n < fi"
  then have "d_addrs (dinode_at f n) = d_addrs (dinode_at m n)" using at [of n] k(4) by simp
  moreover have "f b = m b" if "b \<in> own m (dinode_at m n)" for b
  proof -
    have "nmeta \<le> b" using own_bounds [of m fb "dinode_at m n"] h(1) [OF n] that by (auto simp: holds_bytes_def)
    then show ?thesis by (simp add: f mkfs_sb_def IBLOCK_def)
  qed
  ultimately show "holds_bytes f fb (dinode_at f n) (snd (F n))" using file_same(1) h(1) [OF n] by blast
qed

section \<open>The kernel on the image\<close>

lemma sb_of_sb_block:
  assumes "sb_size x < 2 ^ 32" "nblocks x < 2 ^ 32" "ninodes x < 2 ^ 32" "nlog x < 2 ^ 32" "logstart x < 2 ^ 32" "inodestart x < 2 ^ 32" "bmapstart x < 2 ^ 32"
  shows "sb_of (sb_block x) = x"
  using assms by (simp add: sb_of_def sb_block_def get_put32_other unat_of_nat)

lemma sb_of_mkfs: "sb_of (sb_block mkfs_sb) = mkfs_sb"
  by (rule sb_of_sb_block) (simp_all add: mkfs_sb_def)

text \<open>\<open>initlog\<close> on a disk with an empty log changes nothing.\<close>

lemma off_bio_start: "off_bio (s\<lparr>log_start := a, log_size := c, log_dev := e\<rparr>) = (off_bio s)\<lparr>log_start := a, log_size := c, log_dev := e\<rparr>"
  by (simp add: off_bio_def)

lemma recover_clean:
  assumes "bio_inv s" "bdev_of s = D" "log_dev s = 1" "log_start s = 2" "dv_busy D = {}" "dv_pinned D = {}" "2 < dv_size D" "dv_view D 2 = (\<lambda>_. 0)"
  shows "runs (recover_from_log s) (\<lambda>t. bio_inv t \<and> off_bio t = (off_bio s)\<lparr>lh := []\<rparr> \<and> bdev_of t = store 2 (\<lambda>_. 0) D)"
proof -
  have z: "head_of (\<lambda>_. 0) = []" "get32 (\<lambda>_. 0) 0 = 0" by (simp_all add: head_of_def get32_zero)
  have hb: "head_block [] (\<lambda>_. 0) = (\<lambda>_. 0)" by (simp add: head_block_def put32_def byte_of_def fun_upd_idem)
  note v = bdev_of_simps [of s, unfolded assms(2)]
  show ?thesis unfolding recover_from_log_def runs_bind
  proof (rule runs_mono [OF read_head_runs], goal_cases)
    case (7 t)
    then have t: "bio_inv t" "off_bio t = off_bio (s\<lparr>lh := []\<rparr>)" "bdev_of t = D" using assms(2,4,8) v(1) z by simp_all
    note o = off_bio_log(1,2,4,7) [OF t(2)] and w = bdev_of_simps [of t, unfolded t(3)]
    have "install_trans t = Inr t" using o(3) by (simp add: install_trans_def)
    moreover have "runs (write_head (t\<lparr>lh := []\<rparr>)) (\<lambda>u. bio_inv u \<and> off_bio u = off_bio (t\<lparr>lh := []\<rparr>) \<and>
      bdev_of u = store (log_start (t\<lparr>lh := []\<rparr>)) (head_block (lh (t\<lparr>lh := []\<rparr>)) (view (t\<lparr>lh := []\<rparr>) (log_start (t\<lparr>lh := []\<rparr>)))) (bdev_of (t\<lparr>lh := []\<rparr>)))"
      by (rule write_head_runs) (use t o assms w v bdev_of_simps [of "t\<lparr>lh := []\<rparr>"] in simp_all)
    ultimately show ?case using o assms hb t w bdev_of_simps(1) [of "t\<lparr>lh := []\<rparr>"] by simp
  qed (use assms v z in simp_all)
qed

lemma initlog_clean:
  assumes "bio_inv t" "busy t = {}" "pinned t = {}" "disk t = view t" "disksize t = FSSIZE" "sb_of (view t 1) = mkfs_sb" "view t 2 = (\<lambda>_. 0)"
  shows "runs (initlog 1 t) (\<lambda>u. log_inv u \<and> view u = view t \<and> busy u = {} \<and> off_bio u = (off_bio t)\<lparr>log_start := 2, log_size := LOGSIZE, log_dev := 1, lh := []\<rparr>)"
proof -
  let ?up = "\<lambda>t. t\<lparr>log_start := 2, log_size := LOGSIZE, log_dev := 1\<rparr>"
  have sb: "logstart mkfs_sb = 2" "nlog mkfs_sb = LOGSIZE" by (simp_all add: mkfs_sb_def)
  note v = bdev_of_simps [of t]
  show ?thesis unfolding initlog_def runs_bind
  proof (rule runs_pair [OF readsb_runs], goal_cases)
    case (5 x u)
    then have u: "bio_inv (?up u)" "bdev_of (?up u) = bdev_of t" "off_bio (?up u) = ?up (off_bio t)" "x = mkfs_sb"
      using assms(6) by (simp_all add: off_bio_start)
    have "runs (recover_from_log (?up u)) (\<lambda>w. bio_inv w \<and> off_bio w = (off_bio (?up u))\<lparr>lh := []\<rparr> \<and> bdev_of w = store 2 (\<lambda>_. 0) (bdev_of t))"
      by (rule recover_clean [OF u(1,2)]) (use assms v in simp_all)
    then show ?case unfolding u(4) sb prod.case
    proof (rule runs_mono, goal_cases)
      case (1 w)
      then have w: "bio_inv w" "off_bio w = (?up (off_bio t))\<lparr>lh := []\<rparr>" "bdev_of w = store 2 (\<lambda>_. 0) (bdev_of t)" using u(3) by simp_all
      have "off_bio w = off_bio ((?up t)\<lparr>lh := []\<rparr>)" using w(2) by (simp add: off_bio_start)
      note o = off_bio_log [OF this]
      have "view w = view t" "disk w = view t" "busy w = {}" "pinned w = {}"
        using bdev_of_simps [of w] w(3) v assms by (simp_all add: fun_upd_idem)
      then show ?case using w o assms sb by (simp add: log_inv_def get32_zero)
    qed
  qed (use assms in simp_all)
qed

lemma sb_fields: "bio_inv (s\<lparr>sb := x\<rparr>) = bio_inv s" "bdev_of (s\<lparr>sb := x\<rparr>) = bdev_of s"
  by (auto simp: bio_inv_def bdev_of_def view_def fun_eq_iff cong: option.case_cong)

lemma forkret_clean:
  fixes s :: "'a kernel_scheme"
  assumes "bufs s = (\<lambda>_. zero_buf)" "disksize s = FSSIZE" "first s" "sb_of (disk s 1) = mkfs_sb" "disk s 2 = (\<lambda>_. 0)"
  shows "runs (forkret (binit s)) (\<lambda>t. log_inv t \<and> view t = disk s \<and> busy t = {} \<and> sb t = mkfs_sb \<and> log_start t = 2 \<and> log_size t = LOGSIZE \<and> disksize t = FSSIZE)"
proof -
  note b = binit_ok [OF assms(1)]
  define w where "w = (let s = (binit s)\<lparr>first := False\<rparr> in s\<lparr>icache := (\<lambda>i. if i < NINODE then (icache s i)\<lparr>i_lock := initsleeplock\<rparr> else icache s i)\<rparr>)"
  have f: "first (binit s)" using arg_cong [OF b(3), of first] assms(3) by (simp add: off_bio_def)
  have w: "bio_inv w" "bdev_of w = bdev_of (binit s)" unfolding w_def Let_def using b(1)
    by (auto simp: bio_inv_def bdev_of_def view_def fun_eq_iff cong: option.case_cong)
  note v = bdev_of_simps [of w, unfolded w(2) b(2), simplified]
  have "runs (readsb 1 w) (\<lambda>(x, t). x = sb_of (view w 1) \<and> bio_inv t \<and> off_bio t = off_bio w \<and> bdev_of t = bdev_of w)"
    by (rule readsb_runs [OF w(1)]) (use v assms(2) in simp_all)
  then have "runs (bindR (readsb 1 w) (\<lambda>(x, t). initlog 1 (t\<lparr>sb := x\<rparr>))) (\<lambda>t. log_inv t \<and> view t = disk s \<and> busy t = {} \<and> sb t = mkfs_sb \<and> log_start t = 2 \<and> log_size t = LOGSIZE \<and> disksize t = FSSIZE)"
    unfolding runs_bind
  proof (rule runs_mono, goal_cases)
    case (1 y)
    obtain x t where y: "y = (x, t)" by fastforce
    have t: "bio_inv (t\<lparr>sb := mkfs_sb\<rparr>)" "bdev_of (t\<lparr>sb := mkfs_sb\<rparr>) = bdev_of w" "x = mkfs_sb"
      using 1 y v assms(4) by (simp_all add: sb_fields)
    note z = bdev_of_simps [of "t\<lparr>sb := mkfs_sb\<rparr>", unfolded t(2) w(2) b(2), simplified]
    have "runs (initlog 1 (t\<lparr>sb := mkfs_sb\<rparr>)) (\<lambda>u. log_inv u \<and> view u = view (t\<lparr>sb := mkfs_sb\<rparr>) \<and> busy u = {} \<and>
        off_bio u = (off_bio (t\<lparr>sb := mkfs_sb\<rparr>))\<lparr>log_start := 2, log_size := LOGSIZE, log_dev := 1, lh := []\<rparr>)"
      by (rule initlog_clean [OF t(1)]) (use z assms in simp_all)
    then show ?case unfolding y t(3) prod.case
    proof (rule runs_mono, goal_cases)
      case (1 u)
      then have e: "off_bio u = (off_bio (t\<lparr>sb := mkfs_sb\<rparr>))\<lparr>log_start := 2, log_size := LOGSIZE, log_dev := 1, lh := []\<rparr>" by simp
      have "sb u = mkfs_sb" "log_start u = 2" "log_size u = LOGSIZE" "disksize u = disksize t"
        using arg_cong [OF e, of sb] arg_cong [OF e, of log_start] arg_cong [OF e, of log_size] arg_cong [OF e, of disksize]
        by (simp_all add: off_bio_def)
      then show ?case using 1 z assms(2) by simp
    qed
  qed
  then show ?thesis using f by (simp add: forkret_def iinit_def w_def Let_def bindR_assoc split_def)
qed

text \<open>An entry of the inode cache that has inode \<open>n\<close> of the disk, as \<open>ilock\<close> reads it.\<close>

definition cached :: "'a fsst_scheme \<Rightarrow> nat \<Rightarrow> nat \<Rightarrow> bool" where
  "cached s ip n \<longleftrightarrow> i_dev (icache s ip) = ROOTDEV \<and> i_inum (icache s ip) = n \<and> idata ip s = get_dinode (n mod IPB) (view s (IBLOCK n (sb s)))"

lemma kernel_slots: "slot s ip = dslot (view s) (idata ip s)" "fbyte s ip = dbyte (view s) (idata ip s)"
  by (auto simp: slot_def dslot_def fbyte_def dbyte_def Let_def)

text \<open>A file system whose first \<open>fb\<close> blocks are in use.\<close>

definition formatted :: "nat \<Rightarrow> 'a fsst_scheme \<Rightarrow> bool" where
  "formatted fb s \<longleftrightarrow> sb s = mkfs_sb \<and> busy s = {} \<and> (\<forall>b < FSSIZE. in_use s b \<longleftrightarrow> b < fb) \<and> nmeta \<le> fb \<and> fb \<le> FSSIZE"

lemma formatted_fs_ok:
  assumes "formatted fb s" "log_inv s" "log_start s = 2" "log_size s = LOGSIZE" "disksize s = FSSIZE"
  shows "fs_ok s"
proof -
  have "data_start mkfs_sb = nmeta" "sb_size mkfs_sb = FSSIZE" "inodestart mkfs_sb = 2 + LOGSIZE" "ninodes mkfs_sb = NINODES" "bmapstart mkfs_sb = 2 + LOGSIZE + ninodeblocks"
    by (simp_all add: data_start_def mkfs_sb_def)
  then show ?thesis using assms unfolding fs_ok_def formatted_def by simp
qed

lemma kernel_inode:
  assumes s: "formatted fb s" and h: "holds_bytes (view s) fb (idata ip s) bs"
    and i: "i_dev (icache s ip) = 1" "i_inum (icache s ip) < NINODES" "d_size (idata ip s) < 2 ^ 32"
  shows "inode_ok s ip" "k < MAXFILE * BSIZE \<Longrightarrow> slot s ip (slot_of (k div BSIZE)) \<noteq> 0 \<longleftrightarrow> BSIZE * (k div BSIZE) < length bs"
    "k < MAXFILE * BSIZE \<Longrightarrow> fbyte s ip k = (if k < length bs then bs ! k else 0)"
proof -
  note a = h [unfolded holds_bytes_def] and f = s [unfolded formatted_def]
  have b: "data_start mkfs_sb = nmeta" "sb_size mkfs_sb = FSSIZE" "ninodes mkfs_sb = NINODES" by (simp_all add: data_start_def mkfs_sb_def)
  have so: "slots_ok (view s) fb (idata ip s)" using a by simp
  have "data_block s (slot s ip j)" if "j \<le> MAXFILE" "slot s ip j \<noteq> 0" for j
    using slots_okD(2) [OF so that(1)] that(2) f unfolding data_block_def kernel_slots(1) by (simp add: b)
  then show "inode_ok s ip"
    unfolding inode_ok_def using slots_okD(3) [OF so] bytes_dinode_ok [OF h _ i(3)] f i(1,2) kernel_slots(1) [of s ip] b(3) by metis
  assume k: "k < MAXFILE * BSIZE"
  then have q: "k div BSIZE < MAXFILE" by (simp add: less_mult_imp_div_less)
  have "live (length bs) (slot_of (k div BSIZE)) \<longleftrightarrow> BSIZE * (k div BSIZE) < length bs" by (auto simp: live_def slot_of_def)
  then show "slot s ip (slot_of (k div BSIZE)) \<noteq> 0 \<longleftrightarrow> BSIZE * (k div BSIZE) < length bs"
    unfolding kernel_slots using a slot_of_bounds(2) [OF q] by blast
  show "fbyte s ip k = (if k < length bs then bs ! k else 0)" unfolding kernel_slots using a k by blast
qed

lemma kernel_file:
  assumes s: "formatted fb s" and h: "holds_bytes (view s) fb (idata ip s) bs" "d_size (idata ip s) = length bs" "d_type (idata ip s) \<noteq> T_DEV"
    and i: "i_dev (icache s ip) = 1" "i_inum (icache s ip) < NINODES"
  shows "file_ok s ip" "file_bytes s ip = bs"
proof -
  have l: "length bs \<le> MAXFILE * BSIZE" using h(1) by (simp add: holds_bytes_def)
  note k = kernel_inode [OF s h(1) i]
  have m: "BSIZE * (k div BSIZE) \<le> k" for k :: nat by simp
  have "slot s ip (slot_of (k div BSIZE)) \<noteq> 0" if "k < length bs" for k
  proof -
    have "BSIZE * (k div BSIZE) < length bs" using m [of k] that by linarith
    then show ?thesis using k(2) [of k] l that h(2) by simp
  qed
  then show "file_ok s ip" unfolding file_ok_def using k(1) l h(2,3) by simp
  have "fbyte s ip k = bs ! k" if "k < length bs" for k using k(3) [of k] l that h(2) by simp
  then show "file_bytes s ip = bs" unfolding file_bytes_def h(2) by (intro nth_equalityI) auto
qed

section \<open>The root directory\<close>

lemma dirents_append:
  assumes "length a = 16 * k"
  shows "dirents (a @ b) = dirents a @ dirents b"
proof (rule nth_equalityI)
  show l: "length (dirents (a @ b)) = length (dirents a @ dirents b)" using assms by simp
  fix i assume i: "i < length (dirents (a @ b))"
  then have i': "i < k + length b div 16" using assms by simp
  show "dirents (a @ b) ! i = (dirents a @ dirents b) ! i"
  proof (cases "i < k")
    case True
    then have "16 * i + 16 \<le> length a" using assms by simp
    then have "take 16 (drop (16 * i) (a @ b)) = take 16 (drop (16 * i) a)" by simp
    then show ?thesis using True assms i by (simp add: nth_append nth_dirents)
  next
    case False
    then have "drop (16 * i) (a @ b) = drop (16 * (i - k)) b" using assms by (simp add: diff_mult_distrib2)
    then show ?thesis using False assms i i' by (simp add: nth_append nth_dirents)
  qed
qed

lemma dirents_one: "i < 2 ^ 16 \<Longrightarrow> 0 \<notin> set name \<Longrightarrow> dirents (mk_dirent i name @ b) = (i, take DIRSIZ name) # dirents b"
  using dirents_append [of "mk_dirent i name" 1 b] decode_mk_dirent [of i name] by (simp add: dirents_def)

lemma dirents_zeros: "dirents (replicate (16 * k) 0) = replicate k (0, [])"
proof (induction k)
  case (Suc k)
  have "decode (replicate 16 0) = (0, [])" by code_simp
  then have "dirents (replicate 16 0) = [(0, [])]" by (simp add: dirents_def)
  then show ?case using dirents_append [of "replicate 16 0" 1 "replicate (16 * k) 0"] Suc by (simp add: replicate_add)
qed (simp add: dirents_def)

definition root_entries :: "(byte list \<times> input option) list \<Rightarrow> (nat \<times> byte list) list" where
  "root_entries files = (ROOTINO, [0x2E]) # (ROOTINO, [0x2E, 0x2E]) # map (\<lambda>i. (i + 2, take DIRSIZ (fs_name (fst (files ! i))))) [0..<length files]"

lemma dirents_root_bytes:
  assumes "addable files" "i + length files < 2 ^ 16"
  shows "dirents (root_bytes i files @ b) = map (\<lambda>j. (j + i, take DIRSIZ (fs_name (fst (files ! j))))) [0..<length files] @ dirents b"
  using assms
proof (induction i files rule: root_bytes.induct)
  case (2 i name fd files)
  have "0 \<notin> set (fs_name name)" using 2(2) by (auto simp: addable_def fs_name_def dest: list.set_sel(2))
  moreover have "addable files" using 2(2) by (simp add: addable_def)
  ultimately show ?case using 2(1,3) by (simp add: dirents_one upt_conv_Cons map_Suc_upt [symmetric] del: upt_Suc)
qed simp

lemma dirents_root:
  assumes "addable files" "length files + 2 \<le> NINODES"
  shows "dirents (root_file files @ b) = root_entries files @ dirents b"
  using assms by (simp add: root_file_def root_entries_def dirents_one dirents_root_bytes)

section \<open>Properties\<close>

text \<open>The state of the kernel after its first \<open>forkret\<close>, with any inode cache.\<close>

lemma kernel_files:
  fixes s :: "'a kernel_scheme"
  assumes i: "image_inv m fi fb F" "1 < fi" and v: "view s = final_image m fb" "sb s = mkfs_sb" "busy s = {}"
  shows "formatted fb s" "cached s ip n \<Longrightarrow> 0 < n \<Longrightarrow> n < fi \<Longrightarrow> holds_bytes (view s) fb (idata ip s) (snd (F n)) \<and> d_type (idata ip s) = fst (F n) \<and>
    d_size (idata ip s) = (if n = ROOTINO then (length (snd (F n)) div BSIZE + 1) * BSIZE else length (snd (F n))) \<and>
    i_dev (icache s ip) = 1 \<and> i_inum (icache s ip) < NINODES"
proof -
  note k = image_invD [OF i(1)] and f = final_image_facts [OF i, folded v(1)]
  show "formatted fb s" unfolding formatted_def in_use_def v(2,3) using f(3) k(1,2) by simp
  assume n: "cached s ip n" "0 < n" "n < fi"
  then have d: "idata ip s = dinode_at (view s) n" by (simp add: cached_def dinode_at_def v(2))
  have "file_at m fb n (fst (F n)) (snd (F n))" "n \<le> NINODES" "n < NINODES" using k(4,7) n by simp_all
  then show "holds_bytes (view s) fb (idata ip s) (snd (F n)) \<and> d_type (idata ip s) = fst (F n) \<and>
    d_size (idata ip s) = (if n = ROOTINO then (length (snd (F n)) div BSIZE + 1) * BSIZE else length (snd (F n))) \<and>
    i_dev (icache s ip) = 1 \<and> i_inum (icache s ip) < NINODES"
    using f(4) [of n] f(5) [OF n(2,3)] n(1) unfolding d by (cases "n = ROOTINO") (simp_all add: file_at_def cached_def)
qed

lemma kernel_root:
  assumes s: "formatted fb s" and h: "holds_bytes (view s) fb (idata ip s) (root_file files)" "d_type (idata ip s) = T_DIR"
    "d_size (idata ip s) = (length (root_file files) div BSIZE + 1) * BSIZE" "i_dev (icache s ip) = 1" "i_inum (icache s ip) < NINODES"
    and a: "addable files" "length files + 2 \<le> NINODES"
  shows "inode_ok s ip" "\<exists>k. dirents (file_bytes s ip) = root_entries files @ replicate k (0, [])"
    "file_ok s ip \<longleftrightarrow> (length files + 2) mod 32 \<noteq> 0"
proof -
  let ?l = "length (root_file files)" and ?z = "d_size (idata ip s)"
  have l: "?l = 16 * (length files + 2)" by (simp add: root_file_def)
  then have z: "?z \<le> MAXFILE * BSIZE" "?z < 2 ^ 32" "?l < ?z" "?z = ?l + (?z - ?l)" using a(2) h(3) div_mult_mod_eq [of ?l BSIZE] mod_less_divisor [of BSIZE ?l] by simp_all
  note k = kernel_inode [OF s h(1,4,5) z(2)]
  show "inode_ok s ip" by (rule k(1))
  have "16 dvd ?z" "16 dvd ?l" by (simp_all add: h(3) l)
  then obtain j where j: "?z - ?l = 16 * j" by (metis dvd_diff_nat dvdE)
  have "file_bytes s ip = root_file files @ replicate (16 * j) 0"
  proof (rule nth_equalityI)
    show "length (file_bytes s ip) = length (root_file files @ replicate (16 * j) 0)" using z(4) j by simp
    fix i assume "i < length (file_bytes s ip)"
    then show "file_bytes s ip ! i = (root_file files @ replicate (16 * j) 0) ! i"
      using k(3) [of i] z j by (auto simp: file_bytes_def nth_append)
  qed
  then show "\<exists>k. dirents (file_bytes s ip) = root_entries files @ replicate k (0, [])" using dirents_root [OF a] dirents_zeros by metis
  have m: "?l mod BSIZE = 0 \<longleftrightarrow> (length files + 2) mod 32 = 0" 
  proof -
    have "16 * ((length files + 2) mod 32) = ?l mod BSIZE" unfolding l using mult_mod_right [of 16 "length files + 2" 32] by simp
    then show ?thesis by (metis mult_is_0 zero_neq_numeral)
  qed
  have "file_ok s ip \<longleftrightarrow> (\<forall>i < ?z. BSIZE * (i div BSIZE) < ?l)" unfolding file_ok_def using k(1,2) z(1) h(2) by auto
  also have "\<dots> \<longleftrightarrow> ?l mod BSIZE \<noteq> 0"
  proof
    assume "\<forall>i < ?z. BSIZE * (i div BSIZE) < ?l"
    then have "BSIZE * (?l div BSIZE) < ?l" using z(3) by blast
    then show "?l mod BSIZE \<noteq> 0" using mult_div_mod_eq [of BSIZE ?l] by linarith
  next
    assume m: "?l mod BSIZE \<noteq> 0"
    show "\<forall>i < ?z. BSIZE * (i div BSIZE) < ?l"
    proof (intro allI impI)
      fix i assume "i < ?z"
      then have "i div BSIZE \<le> ?l div BSIZE" using less_mult_imp_div_less [of i "?l div BSIZE + 1" BSIZE] by (simp add: h(3))
      then have "BSIZE * (i div BSIZE) \<le> BSIZE * (?l div BSIZE)" by simp
      then show "BSIZE * (i div BSIZE) < ?l" using m mult_div_mod_eq [of BSIZE ?l] by linarith
    qed
  qed
  finally show "file_ok s ip \<longleftrightarrow> (length files + 2) mod 32 \<noteq> 0" using m by simp
qed

text \<open>
  C7: The image that \<open>mkfs\<close> makes boots. For files that fit, \<open>mkfs\<close> succeeds, and the kernel that finds the image on its disk comes through its first
  \<open>forkret\<close> (\<open>iinit\<close> and \<open>initlog\<close>) with a well-formed file system, in which exactly the blocks that \<open>mkfs\<close> handed out are in use. The root directory
  has the entries \<open>.\<close>, \<open>..\<close> and one for every file, and every file has the bytes of its input. The root directory has no missing block unless its
  entries fill their blocks exactly.
\<close>

theorem mkfs_boots:
  fixes s :: "'a kernel_scheme"
  assumes "addable files" "length files + 2 \<le> NINODES" "image_size files \<le> FSSIZE" "bufs s = (\<lambda>_. zero_buf)" "disksize s = FSSIZE" "first s"
  shows "\<exists>t. mkfs_main files = Some t \<and> runs (forkret (binit (s\<lparr>disk := m_img t\<rparr>))) (\<lambda>u.
    fs_ok u \<and> (\<forall>b < FSSIZE. in_use u b \<longleftrightarrow> b < image_size files)
    \<and> (\<forall>c ip. cached (u\<lparr>icache := c\<rparr>) ip ROOTINO \<longrightarrow> inode_ok (u\<lparr>icache := c\<rparr>) ip
        \<and> (\<exists>k. dirents (file_bytes (u\<lparr>icache := c\<rparr>) ip) = root_entries files @ replicate k (0, []))
        \<and> (file_ok (u\<lparr>icache := c\<rparr>) ip \<longleftrightarrow> (length files + 2) mod 32 \<noteq> 0))
    \<and> (\<forall>c ip i. i < length files \<and> cached (u\<lparr>icache := c\<rparr>) ip (i + 2) \<longrightarrow>
        file_ok (u\<lparr>icache := c\<rparr>) ip \<and> file_bytes (u\<lparr>icache := c\<rparr>) ip = snd (file_of (files ! i))))"
proof -
  obtain m where t: "mkfs_main files = Some (mkst (final_image m (image_size files)) (length files + 2) (image_size files))"
    and i: "image_inv m (length files + 2) (image_size files) (contents_of files)"
    using mkfs_main_ok [OF assms(1-3)] by blast
  let ?f = "final_image m (image_size files)"
  have fi: "1 < length files + 2" by simp
  note f = final_image_facts [OF i fi]
  show ?thesis
  proof (intro exI conjI, rule t, rule runs_mono [OF forkret_clean], goal_cases)
    case (6 u)
    then have u: "log_inv u" "view u = ?f" "busy u = {}" "sb u = mkfs_sb" "log_start u = 2" "log_size u = LOGSIZE" "disksize u = FSSIZE" by simp_all
    have v: "view (u\<lparr>icache := c\<rparr>) = ?f" "sb (u\<lparr>icache := c\<rparr>) = mkfs_sb" "busy (u\<lparr>icache := c\<rparr>) = {}" for c using u by simp_all
    note k = kernel_files [OF i fi v]
    have fm: "formatted (image_size files) u" using kernel_files(1) [OF i fi u(2,4,3)] .
    have root: "inode_ok (u\<lparr>icache := c\<rparr>) ip \<and> (\<exists>k. dirents (file_bytes (u\<lparr>icache := c\<rparr>) ip) = root_entries files @ replicate k (0, []))
        \<and> (file_ok (u\<lparr>icache := c\<rparr>) ip \<longleftrightarrow> (length files + 2) mod 32 \<noteq> 0)" if "cached (u\<lparr>icache := c\<rparr>) ip ROOTINO" for c ip
      using k(2) [OF that] kernel_root [OF k(1), of c ip files] assms(1,2) by (simp add: contents_of_def)
    have ord: "file_ok (u\<lparr>icache := c\<rparr>) ip \<and> file_bytes (u\<lparr>icache := c\<rparr>) ip = snd (file_of (files ! i))"
      if "i < length files" "cached (u\<lparr>icache := c\<rparr>) ip (i + 2)" for c ip i
      using k(2) [OF that(2)] that(1) kernel_file [OF k(1), of c ip "snd (file_of (files ! i))"] by (simp add: contents_of_def file_of_def)
    show ?case using formatted_fs_ok [OF fm u(1,5-7)] fm [unfolded formatted_def] root ord by blast
  qed (use assms(4-6) f(1,2) sb_of_mkfs in simp_all)
qed

definition ex_first :: kernel where
  "ex_first = filest.extend ex_kernel (kernel_ext 0 True ())\<lparr>bufs := (\<lambda>_. zero_buf), disksize := FSSIZE\<rparr>"

definition ex_files :: "(byte list \<times> input option) list" where
  "ex_files = [([0x5F, 0x73, 0x68], Some [Some [1, 2, 3]]), ([0x61], Some [])]"

theorem mkfs_boots_witness:
  "\<exists>t. mkfs_main ex_files = Some t \<and> runs (forkret (binit (ex_first\<lparr>disk := m_img t\<rparr>)))
    (\<lambda>u. fs_ok u \<and> in_use u 60 \<and> \<not> in_use u 61)"
proof -
  have f: "addable ex_files" "length ex_files + 2 \<le> NINODES" "image_size ex_files = 61"
    by (simp_all add: ex_files_def addable_def file_of_def image_size_def blocks_of_def need_def)
  have s: "bufs ex_first = (\<lambda>_. zero_buf)" "disksize ex_first = FSSIZE" "first ex_first" by (simp_all add: ex_first_def filest.defs)
  show ?thesis
  proof (rule exE [OF mkfs_boots [OF f(1,2) _ s]], goal_cases)
    case (2 t)
    have "runs (forkret (binit (ex_first\<lparr>disk := m_img t\<rparr>))) (\<lambda>u. fs_ok u \<and> in_use u 60 \<and> \<not> in_use u 61)"
      by (rule runs_mono [OF conjunct2 [OF 2]]) (simp add: f(3))
    then show ?case using 2 by blast
  qed (simp add: f(3))
qed

end
