(* ===== verification/Xv6_Clock.thy ===== *)
theory Xv6_Clock
  imports Xv6_Prelude
begin

text \<open>
  Reading the real-time clock (\<open>cmos_read\<close>, \<open>fill_rtcdate\<close> and \<open>cmostime\<close> of \<open>lapic.c\<close>). The clock runs while it is read, so the code
  reads it again until two readings agree.
\<close>

section \<open>The code\<close>









section \<open>A clock\<close>


















section \<open>Properties\<close>





end
