(* ===== verification/Xv6_Intr.thy ===== *)
theory Xv6_Intr
  imports Xv6_Spinlock
begin

text \<open>
  The tables and registers that decide where an interrupt goes: the descriptors of \<open>mmu.h\<close>, the interrupt table (\<open>tvinit\<close> of \<open>trap.c\<close>),
  the segments (\<open>seginit\<close> of \<open>vm.c\<close>), the I/O APIC (\<open>ioapic.c\<close>), the local APIC (\<open>lapic.c\<close>) and the old interrupt controllers (\<open>picirq.c\<close>).
\<close>

section \<open>Descriptors\<close>

record gatedesc =
  off_15_0 :: u16
  gd_cs :: u16
  gd_args :: "5 word"
  gd_rsv1 :: "3 word"
  gd_type :: "4 word"
  gd_s :: "1 word"
  gd_dpl :: "2 word"
  gd_p :: "1 word"
  off_31_16 :: u16

abbreviation STS_IG32 :: "4 word" where "STS_IG32 \<equiv> 0xE"
abbreviation STS_TG32 :: "4 word" where "STS_TG32 \<equiv> 0xF"

definition SETGATE :: "bool \<Rightarrow> u16 \<Rightarrow> u32 \<Rightarrow> 2 word \<Rightarrow> gatedesc" where
  "SETGATE istrap sel off d =
     \<lparr>off_15_0 = ucast (off AND 0xffff), gd_cs = sel, gd_args = 0, gd_rsv1 = 0, gd_type = (if istrap then STS_TG32 else STS_IG32),
      gd_s = 0, gd_dpl = d, gd_p = 1, off_31_16 = ucast (drop_bit 16 off)\<rparr>"

record segdesc =
  lim_15_0 :: u16
  base_15_0 :: u16
  base_23_16 :: byte
  sd_type :: "4 word"
  sd_s :: "1 word"
  sd_dpl :: "2 word"
  sd_p :: "1 word"
  lim_19_16 :: "4 word"
  sd_avl :: "1 word"
  sd_rsv1 :: "1 word"
  sd_db :: "1 word"
  sd_g :: "1 word"
  base_31_24 :: byte

definition SEG :: "4 word \<Rightarrow> u32 \<Rightarrow> u32 \<Rightarrow> 2 word \<Rightarrow> segdesc" where
  "SEG type base lim dpl =
     \<lparr>lim_15_0 = ucast (drop_bit 12 lim AND 0xffff), base_15_0 = ucast (base AND 0xffff), base_23_16 = ucast (drop_bit 16 base AND 0xff),
      sd_type = type, sd_s = 1, sd_dpl = dpl, sd_p = 1, lim_19_16 = ucast (drop_bit 28 lim), sd_avl = 0, sd_rsv1 = 0, sd_db = 1, sd_g = 1,
      base_31_24 = ucast (drop_bit 24 base)\<rparr>"

definition SEG16 :: "4 word \<Rightarrow> u32 \<Rightarrow> u32 \<Rightarrow> 2 word \<Rightarrow> segdesc" where
  "SEG16 type base lim dpl =
     \<lparr>lim_15_0 = ucast (lim AND 0xffff), base_15_0 = ucast (base AND 0xffff), base_23_16 = ucast (drop_bit 16 base AND 0xff),
      sd_type = type, sd_s = 1, sd_dpl = dpl, sd_p = 1, lim_19_16 = ucast (drop_bit 16 lim), sd_avl = 0, sd_rsv1 = 0, sd_db = 1, sd_g = 0,
      base_31_24 = ucast (drop_bit 24 base)\<rparr>"

text \<open>What the processor makes of them.\<close>

definition gate_offset :: "gatedesc \<Rightarrow> u32" where
  "gate_offset g = push_bit 16 (ucast (off_31_16 g)) OR ucast (off_15_0 g)"

definition seg_base :: "segdesc \<Rightarrow> u32" where
  "seg_base d = push_bit 24 (ucast (base_31_24 d)) OR push_bit 16 (ucast (base_23_16 d)) OR ucast (base_15_0 d)"

definition seg_limit :: "segdesc \<Rightarrow> u32" where
  "seg_limit d = (let l = push_bit 16 (ucast (lim_19_16 d)) OR ucast (lim_15_0 d) in if sd_g d = 1 then push_bit 12 l OR 0xfff else l)"

lemma gate_offset_SETGATE: "gate_offset (SETGATE t sel off d) = off"
proof (rule bit_word_eqI)
  have m: "(0xffff :: u32) = mask 16" by (simp add: mask_eq_exp_minus_1)
  fix n assume "n < LENGTH(32)"
  then show "bit (gate_offset (SETGATE t sel off d)) n = bit off n"
    unfolding gate_offset_def SETGATE_def m by (auto simp: bit_simps)
qed

lemma seg_base_SEG: "seg_base (SEG type base lim dpl) = base" "seg_base (SEG16 type base lim dpl) = base"
proof -
  have m: "(0xffff :: u32) = mask 16" "(0xff :: u32) = mask 8" by (simp_all add: mask_eq_exp_minus_1)
  have b: "push_bit 24 (ucast (ucast (drop_bit 24 base) :: byte)) OR push_bit 16 (ucast (ucast (drop_bit 16 base AND 0xff) :: byte)) OR
      ucast (ucast (base AND 0xffff) :: u16) = (base :: u32)" for base :: u32
  proof (rule bit_word_eqI)
    fix n assume "n < LENGTH(32)"
    then consider "n < 16" | "16 \<le> n" "n < 24" | "24 \<le> n" "n < 32" by fastforce
    then show "bit (push_bit 24 (ucast (ucast (drop_bit 24 base) :: byte)) OR push_bit 16 (ucast (ucast (drop_bit 16 base AND 0xff) :: byte)) OR
      ucast (ucast (base AND 0xffff) :: u16) :: u32) n = bit base n" unfolding m by cases (auto simp: bit_simps)
  qed
  then show "seg_base (SEG type base lim dpl) = base" "seg_base (SEG16 type base lim dpl) = base"
    by (simp_all add: seg_base_def SEG_def SEG16_def)
qed

text \<open>A limit in pages is rounded up to the end of its page; one in bytes has 20 bits.\<close>

lemma seg_limit_SEG: "seg_limit (SEG type base lim dpl) = lim OR 0xfff" "lim < 2 ^ 20 \<Longrightarrow> seg_limit (SEG16 type base lim dpl) = lim"
proof -
  have m: "(0xffff :: u32) = mask 16" "(0xfff :: u32) = mask 12" by (simp_all add: mask_eq_exp_minus_1)
  show "seg_limit (SEG type base lim dpl) = lim OR 0xfff"
  proof (rule bit_word_eqI)
    fix n assume "n < LENGTH(32)"
    then consider "n < 12" | "12 \<le> n" "n < 28" | "28 \<le> n" "n < 32" by fastforce
    then show "bit (seg_limit (SEG type base lim dpl)) n = bit (lim OR 0xfff) n"
      unfolding seg_limit_def SEG_def m by cases (auto simp: bit_simps Let_def)
  qed
  assume "lim < 2 ^ 20"
  then have l: "take_bit 20 lim = lim" by (simp add: word_less_nat_alt word_unat_eq_iff unsigned_take_bit_eq take_bit_nat_eq_self)
  show "seg_limit (SEG16 type base lim dpl) = lim"
  proof (rule bit_word_eqI)
    fix n assume "n < LENGTH(32)"
    then consider "n < 16" | "16 \<le> n" "n < 20" | "20 \<le> n" "n < 32" by fastforce
    then show "bit (seg_limit (SEG16 type base lim dpl)) n = bit lim n"
      using arg_cong [OF l, of "\<lambda>x. bit x n"] unfolding seg_limit_def SEG16_def m by cases (auto simp: bit_simps Let_def)
  qed
qed

section \<open>The tables of the kernel\<close>

abbreviation SEG_KCODE :: nat where "SEG_KCODE \<equiv> 1"
abbreviation SEG_KDATA :: nat where "SEG_KDATA \<equiv> 2"
abbreviation SEG_UCODE :: nat where "SEG_UCODE \<equiv> 3"
abbreviation SEG_UDATA :: nat where "SEG_UDATA \<equiv> 4"
abbreviation STA_X :: "4 word" where "STA_X \<equiv> 8"
abbreviation STA_W :: "4 word" where "STA_W \<equiv> 2"
abbreviation STA_R :: "4 word" where "STA_R \<equiv> 2"
abbreviation DPL_USER :: "2 word" where "DPL_USER \<equiv> 3"
abbreviation T_SYSCALL :: nat where "T_SYSCALL \<equiv> 64"
abbreviation T_IRQ0 :: nat where "T_IRQ0 \<equiv> 32"

text \<open>The operand of \<open>lgdt\<close> and \<open>lidt\<close>: three words in memory, with the size less one and the address.\<close>

definition lgdt :: "u32 \<Rightarrow> int \<Rightarrow> u16 list" where
  "lgdt p sz = [of_int (sz - 1), ucast p, ucast (drop_bit 16 p)]"

definition lidt :: "u32 \<Rightarrow> int \<Rightarrow> u16 list" where
  "lidt p sz = [of_int (sz - 1), ucast p, ucast (drop_bit 16 p)]"

definition tvinit :: "(nat \<Rightarrow> u32) \<Rightarrow> (nat \<Rightarrow> gatedesc) \<Rightarrow> (nat \<Rightarrow> gatedesc) \<times> spinlock" where
  "tvinit vectors idt =
     (let idt = fold (\<lambda>i idt. idt(i := SETGATE False (push_bit 3 (of_nat SEG_KCODE)) (vectors i) 0)) [0..<256] idt;
          idt = idt(T_SYSCALL := SETGATE True (push_bit 3 (of_nat SEG_KCODE)) (vectors T_SYSCALL) DPL_USER)
      in (idt, initlock))"

text \<open>\<open>idtinit\<close> gives the processor the table at its address, \<open>seginit\<close> the segments of the processor; a descriptor has 8 bytes.\<close>

definition idtinit :: "u32 \<Rightarrow> u16 list" where
  "idtinit idt = lidt idt (256 * 8)"

definition seginit :: "u32 \<Rightarrow> (nat \<Rightarrow> segdesc) \<Rightarrow> (nat \<Rightarrow> segdesc) \<times> u16 list" where
  "seginit addr gdt =
     (let gdt = gdt(SEG_KCODE := SEG (STA_X OR STA_R) 0 0xffffffff 0,
                    SEG_KDATA := SEG STA_W 0 0xffffffff 0,
                    SEG_UCODE := SEG (STA_X OR STA_R) 0 0xffffffff DPL_USER,
                    SEG_UDATA := SEG STA_W 0 0xffffffff DPL_USER)
      in (gdt, lgdt addr (6 * 8)))"

lemma tvinit_gate: "i < 256 \<Longrightarrow> fst (tvinit vectors idt) i = SETGATE (i = T_SYSCALL) 8 (vectors i) (if i = T_SYSCALL then DPL_USER else 0)"
proof -
  have "fold (\<lambda>i idt. idt(i := f i)) [0..<n] idt i = (if i < n then f i else idt i)" for f :: "nat \<Rightarrow> gatedesc" and n idt
    by (induction n) auto
  then show "i < 256 \<Longrightarrow> ?thesis" by (simp add: tvinit_def Let_def del: upt_rec_numeral)
qed

section \<open>The I/O APIC\<close>

text \<open>The device: the register that has been selected, and its registers.\<close>

record ioapic =
  io_reg :: nat
  io_data :: "nat \<Rightarrow> u32"

abbreviation REG_ID :: nat where "REG_ID \<equiv> 0"
abbreviation REG_VER :: nat where "REG_VER \<equiv> 1"
abbreviation REG_TABLE :: nat where "REG_TABLE \<equiv> 0x10"
abbreviation INT_DISABLED :: u32 where "INT_DISABLED \<equiv> 0x10000"

definition ioapicread :: "nat \<Rightarrow> ioapic \<Rightarrow> u32 \<times> ioapic" where
  "ioapicread reg d = (let d = d\<lparr>io_reg := reg\<rparr> in (io_data d (io_reg d), d))"

definition ioapicwrite :: "nat \<Rightarrow> u32 \<Rightarrow> ioapic \<Rightarrow> ioapic" where
  "ioapicwrite reg x d = (let d = d\<lparr>io_reg := reg\<rparr> in d\<lparr>io_data := (io_data d)(io_reg d := x)\<rparr>)"

text \<open>\<open>ioapicinit\<close> also returns whether it says that the id is not the one of the MP tables.\<close>

definition ioapicinit :: "byte \<Rightarrow> ioapic \<Rightarrow> bool \<times> ioapic" where
  "ioapicinit ioapicid d =
     (let (v, d) = ioapicread REG_VER d;
          maxintr = unat (drop_bit 16 v AND 0xFF);
          (x, d) = ioapicread REG_ID d;
          d' = fold (\<lambda>i d. ioapicwrite (REG_TABLE + 2 * i + 1) 0 (ioapicwrite (REG_TABLE + 2 * i) (INT_DISABLED OR of_nat (T_IRQ0 + i)) d))
                 [0..<maxintr + 1] d
      in (drop_bit 24 x \<noteq> ucast ioapicid, d'))"

definition ioapicenable :: "nat \<Rightarrow> nat \<Rightarrow> ioapic \<Rightarrow> ioapic" where
  "ioapicenable irq cpunum d =
     ioapicwrite (REG_TABLE + 2 * irq + 1) (push_bit 24 (of_nat cpunum)) (ioapicwrite (REG_TABLE + 2 * irq) (of_nat (T_IRQ0 + irq)) d)"

section \<open>The local APIC\<close>

text \<open>The registers of the local APIC, and what has been written to them.\<close>

record lapic =
  la_reg :: "nat \<Rightarrow> u32"
  la_log :: "(nat \<times> u32) list"

abbreviation LA_ID :: nat where "LA_ID \<equiv> 0x20 div 4"
abbreviation LA_VER :: nat where "LA_VER \<equiv> 0x30 div 4"
abbreviation LA_TPR :: nat where "LA_TPR \<equiv> 0x80 div 4"
abbreviation LA_EOI :: nat where "LA_EOI \<equiv> 0xB0 div 4"
abbreviation LA_SVR :: nat where "LA_SVR \<equiv> 0xF0 div 4"
abbreviation LA_ESR :: nat where "LA_ESR \<equiv> 0x280 div 4"
abbreviation LA_ICRLO :: nat where "LA_ICRLO \<equiv> 0x300 div 4"
abbreviation LA_ICRHI :: nat where "LA_ICRHI \<equiv> 0x310 div 4"
abbreviation LA_TIMER :: nat where "LA_TIMER \<equiv> 0x320 div 4"
abbreviation LA_PCINT :: nat where "LA_PCINT \<equiv> 0x340 div 4"
abbreviation LA_LINT0 :: nat where "LA_LINT0 \<equiv> 0x350 div 4"
abbreviation LA_LINT1 :: nat where "LA_LINT1 \<equiv> 0x360 div 4"
abbreviation LA_ERROR :: nat where "LA_ERROR \<equiv> 0x370 div 4"
abbreviation LA_TICR :: nat where "LA_TICR \<equiv> 0x380 div 4"
abbreviation LA_TDCR :: nat where "LA_TDCR \<equiv> 0x3E0 div 4"

definition lapicw :: "nat \<Rightarrow> u32 \<Rightarrow> lapic \<Rightarrow> lapic" where
  "lapicw index v s = s\<lparr>la_reg := (la_reg s)(index := v), la_log := la_log s @ [(index, v)]\<rparr>"

text \<open>
  The wait for \<open>DELIVS\<close> to clear, on what the reads of \<open>ICRLO\<close> return; \<open>None\<close> when it does not.
\<close>

fun icr_wait :: "u32 list \<Rightarrow> u32 list option" where
  "icr_wait [] = None"
| "icr_wait (x # xs) = (if x AND 0x1000 \<noteq> 0 then icr_wait xs else Some xs)"

text \<open>\<open>lapicinit\<close> does nothing when \<open>mpinit\<close> has not found a local APIC.\<close>

definition lapicinit :: "bool \<Rightarrow> u32 list \<Rightarrow> lapic \<Rightarrow> (lapic \<times> u32 list) option" where
  "lapicinit found icr s =
     (if \<not> found then Some (s, icr)
      else let s = lapicw LA_SVR (0x100 OR of_nat (T_IRQ0 + 31)) s;
               s = lapicw LA_TDCR 0xB s;
               s = lapicw LA_TIMER (0x20000 OR of_nat (T_IRQ0 + 0)) s;
               s = lapicw LA_TICR 10000000 s;
               s = lapicw LA_LINT0 0x10000 s;
               s = lapicw LA_LINT1 0x10000 s;
               s = (if 4 \<le> drop_bit 16 (la_reg s LA_VER) AND 0xFF then lapicw LA_PCINT 0x10000 s else s);
               s = lapicw LA_ERROR (of_nat (T_IRQ0 + 19)) s;
               s = lapicw LA_ESR 0 (lapicw LA_ESR 0 s);
               s = lapicw LA_EOI 0 s;
               s = lapicw LA_ICRHI 0 s;
               s = lapicw LA_ICRLO (0x80000 OR 0x500 OR 0x8000) s
           in Option.bind (icr_wait icr) (\<lambda>icr. Some (lapicw LA_TPR 0 s, icr)))"

definition lapicid :: "bool \<Rightarrow> lapic \<Rightarrow> u32" where
  "lapicid found s = (if \<not> found then 0 else drop_bit 24 (la_reg s LA_ID))"

definition lapiceoi :: "bool \<Rightarrow> lapic \<Rightarrow> lapic" where
  "lapiceoi found s = (if found then lapicw LA_EOI 0 s else s)"

text \<open>\<open>lapicstartap\<close> puts the shutdown code and the warm reset vector where the BIOS looks for them, and sends the interrupts.\<close>

definition store16 :: "mem \<Rightarrow> u32 \<Rightarrow> u16 \<Rightarrow> mem" where
  "store16 m a v = m(a := ucast v, a + 1 := ucast (drop_bit 8 v))"

definition lapicstartap :: "byte \<Rightarrow> u32 \<Rightarrow> mem \<Rightarrow> lapic \<Rightarrow> (u32 \<times> u32) list \<times> mem \<times> lapic" where
  "lapicstartap apicid addr m s =
     (let wrv = 0x80000000 + (0x400 OR 0x67);
          m = store16 (store16 m wrv 0) (wrv + 2) (ucast (drop_bit 4 addr));
          hi = push_bit 24 (ucast apicid);
          s = lapicw LA_ICRLO (0x500 OR 0x8000) (lapicw LA_ICRLO (0x500 OR 0x8000 OR 0x4000) (lapicw LA_ICRHI hi s));
          s = fold (\<lambda>_ s. lapicw LA_ICRLO (0x600 OR drop_bit 12 addr) (lapicw LA_ICRHI hi s)) [0..<2] s
      in ([(0x70, 0xF), (0x71, 0x0A)], m, s))"

section \<open>The old controllers\<close>

definition picinit :: "(u32 \<times> u32) list" where
  "picinit = [(0x20 + 1, 0xFF), (0xA0 + 1, 0xFF)]"
section \<open>What the controllers hold afterwards\<close>

lemma ioapicwrite_data: "io_data (ioapicwrite r x d) = (io_data d)(r := x)"
  by (simp add: ioapicwrite_def Let_def)

lemma ioapicread_data: "fst (ioapicread r d) = io_data d r" "io_data (snd (ioapicread r d)) = io_data d"
  by (simp_all add: ioapicread_def Let_def)

lemmas pin_regs [simp] = ioapicwrite_data ioapicread_data

abbreviation pin_low :: "ioapic \<Rightarrow> nat \<Rightarrow> u32" where "pin_low d i \<equiv> io_data d (REG_TABLE + 2 * i)"
abbreviation pin_high :: "ioapic \<Rightarrow> nat \<Rightarrow> u32" where "pin_high d i \<equiv> io_data d (REG_TABLE + 2 * i + 1)"
abbreviation maxintr_of :: "ioapic \<Rightarrow> nat" where "maxintr_of d \<equiv> unat (drop_bit 16 (io_data d REG_VER) AND 0xFF)"

lemma pin_write: "r < REG_TABLE + 2 * i \<Longrightarrow> io_data (ioapicwrite (REG_TABLE + 2 * i + 1) y (ioapicwrite (REG_TABLE + 2 * i) x d)) r = io_data d r"
  "pin_low (ioapicwrite (REG_TABLE + 2 * i + 1) y (ioapicwrite (REG_TABLE + 2 * i) x d)) j = (if i = j then x else pin_low d j)"
  "pin_high (ioapicwrite (REG_TABLE + 2 * i + 1) y (ioapicwrite (REG_TABLE + 2 * i) x d)) j = (if i = j then y else pin_high d j)"
  by (auto; presburger)+

lemma ioapicinit_pins:
  assumes "i \<le> maxintr_of d"
  shows "pin_low (snd (ioapicinit ident d)) i = INT_DISABLED OR of_nat (T_IRQ0 + i)" "pin_high (snd (ioapicinit ident d)) i = 0"
proof -
  let ?w = "\<lambda>i d. ioapicwrite (REG_TABLE + 2 * i + 1) 0 (ioapicwrite (REG_TABLE + 2 * i) (INT_DISABLED OR of_nat (T_IRQ0 + i)) d)"
  have f: "pin_low (fold ?w [0..<n] d) i = (if i < n then INT_DISABLED OR of_nat (T_IRQ0 + i) else pin_low d i)" for n d
    by (induction n) (auto simp: Suc_double_not_eq_double double_not_eq_Suc_double less_Suc_eq)
  have g: "pin_high (fold ?w [0..<n] d) i = (if i < n then 0 else pin_high d i)" for n d
    by (induction n) (auto simp: Suc_double_not_eq_double double_not_eq_Suc_double less_Suc_eq)
  have "snd (ioapicinit ident d) = fold ?w [0..<maxintr_of d + 1] (snd (ioapicread REG_ID (snd (ioapicread REG_VER d))))"
    by (simp add: ioapicinit_def ioapicread_def Let_def)
  then show "pin_low (snd (ioapicinit ident d)) i = INT_DISABLED OR of_nat (T_IRQ0 + i)" "pin_high (snd (ioapicinit ident d)) i = 0"
    using assms by (simp_all only: f g) simp_all
qed

definition enable_all :: "(nat \<times> nat) list \<Rightarrow> ioapic \<Rightarrow> ioapic" where
  "enable_all es d = fold (\<lambda>(irq, cpu). ioapicenable irq cpu) es d"

lemma enable_all_pins:
  "pin_low (enable_all es d) i = (if i \<in> fst ` set es then of_nat (T_IRQ0 + i) else pin_low d i)"
  "pin_high (enable_all es d) i = (case map_of (rev es) i of None \<Rightarrow> pin_high d i | Some cpu \<Rightarrow> push_bit 24 (of_nat cpu))"
proof (induction es rule: rev_induct)
  case (snoc e es)
  obtain irq cpu where e: "e = (irq, cpu)" by (cases e)
  have u: "enable_all (es @ [e]) d = ioapicenable irq cpu (enable_all es d)" by (simp add: enable_all_def e)
  { case 1 show ?case unfolding u ioapicenable_def pin_write using snoc by (auto simp: e) }
  { case 2 show ?case unfolding u ioapicenable_def pin_write using snoc by (auto simp: e) }
qed (simp_all add: enable_all_def)

lemma vector_bits:
  assumes "n < 256"
  shows "unat ((of_nat n :: u32) AND 0xFF) = n" "unat ((INT_DISABLED OR of_nat n) AND 0xFF) = n"
    "drop_bit 8 (of_nat n :: u32) = 0" "drop_bit 8 (INT_DISABLED OR of_nat n) = (0x100 :: u32)"
proof -
  let ?v = "of_nat n :: u32"
  have m: "(0xFF :: u32) = mask 8" by (simp add: mask_eq_exp_minus_1)
  have u: "unat ?v = n" using assms by (simp add: unat_of_nat)
  then have t: "take_bit 8 ?v = ?v" using assms by (simp add: word_unat_eq_iff unsigned_take_bit_eq take_bit_nat_eq_self)
  then show "unat (?v AND 0xFF) = n" using u by (simp add: m flip: take_bit_eq_mask)
  show "unat ((INT_DISABLED OR ?v) AND 0xFF) = n" using t u by (simp add: m flip: take_bit_eq_mask)
  have "drop_bit 8 ?v = drop_bit 8 (take_bit 8 ?v)" by (simp add: t)
  then show z: "drop_bit 8 ?v = 0" by (simp add: drop_bit_take_bit)
  show "drop_bit 8 (INT_DISABLED OR ?v) = 0x100" by (simp only: drop_bit_or z) (simp add: drop_bit_eq_div)
qed

text \<open>
  C8: an interrupt line of the I/O APIC reaches the kernel's entry for it. After \<open>ioapicinit\<close> and any sequence of calls of
  \<open>ioapicenable\<close>, every line the chip has and whose vector is in the table is masked unless it was enabled, is edge triggered,
  active high and in fixed mode, has the vector 32 above its number, and is sent to the processor of the last call for it (to processor
  0 without one); the gate that \<open>tvinit\<close> puts at that vector is present and enters the kernel's code segment at the entry point of
  that vector, with interrupts off unless the line is the one whose vector is that of system calls.
\<close>

theorem irq_reaches_vector:
  fixes vectors idt d es ident i
  assumes "i \<le> maxintr_of d" "i < 224"
  defines "d' \<equiv> enable_all es (snd (ioapicinit ident d))"
  defines "v \<equiv> unat (pin_low d' i AND 0xFF)"
  shows "v = T_IRQ0 + i \<and> drop_bit 8 (pin_low d' i) = (if i \<in> fst ` set es then 0 else drop_bit 8 INT_DISABLED) \<and>
    pin_high d' i = push_bit 24 (of_nat (case map_of (rev es) i of None \<Rightarrow> 0 | Some cpu \<Rightarrow> cpu)) \<and>
    gate_offset (fst (tvinit vectors idt) v) = vectors (T_IRQ0 + i) \<and> gd_p (fst (tvinit vectors idt) v) = 1 \<and>
    gd_cs (fst (tvinit vectors idt) v) = 8 * of_nat SEG_KCODE \<and> (gd_type (fst (tvinit vectors idt) v) = STS_IG32 \<longleftrightarrow> T_IRQ0 + i \<noteq> T_SYSCALL)"
proof -
  have b: "T_IRQ0 + i < 256" using assms by simp
  have v: "v = T_IRQ0 + i" and dr: "drop_bit 8 (pin_low d' i) = (if i \<in> fst ` set es then 0 else drop_bit 8 INT_DISABLED)"
    unfolding v_def d'_def enable_all_pins ioapicinit_pins [OF assms(1)] using vector_bits [OF b] by (auto simp: drop_bit_eq_div)
  have "pin_high d' i = push_bit 24 (of_nat (case map_of (rev es) i of None \<Rightarrow> 0 | Some cpu \<Rightarrow> cpu))"
    unfolding d'_def enable_all_pins ioapicinit_pins [OF assms(1)] by (simp split: option.split)
  then show ?thesis unfolding v using dr tvinit_gate [OF b] by (simp add: gate_offset_SETGATE) (simp add: SETGATE_def)
qed

text \<open>The lines that the kernel enables on a machine with two processors: keyboard and serial port at the first, disk at the last.\<close>

theorem irq_reaches_vector_witness:
  "let d' = enable_all [(1, 0), (4, 0), (14, 1)] (snd (ioapicinit 0 \<lparr>io_reg = 0, io_data = (\<lambda>_. 0)(REG_VER := 0x170011)\<rparr>))
   in unat (pin_low d' 14 AND 0xFF) = 46 \<and> drop_bit 8 (pin_low d' 14) = 0 \<and> pin_high d' 14 = 0x1000000"
  using irq_reaches_vector [of 14 "\<lparr>io_reg = 0, io_data = (\<lambda>_. 0)(REG_VER := 0x170011)\<rparr>" "[(1, 0), (4, 0), (14, 1)]" 0]
  by (simp add: Let_def drop_bit_eq_div)
text \<open>
  C19: user code enters the kernel by the system call gate only, and always at kernel privilege. After \<open>tvinit\<close> and \<open>seginit\<close>, the
  one gate of the table that an \<open>int\<close> instruction at user privilege may name is \<open>T_SYSCALL\<close>; every gate names a present code segment
  of privilege 0 that maps the whole address space to itself, and starts at the entry point of its number; the user's segments
  have the same addresses and privilege 3.
\<close>

theorem user_enters_by_syscall:
  fixes idt gdt vectors addr n
  defines "gate \<equiv> fst (tvinit vectors idt)" and "seg \<equiv> fst (seginit addr gdt)"
  assumes "n < 256"
  shows "(DPL_USER \<le> gd_dpl (gate n) \<longleftrightarrow> n = T_SYSCALL) \<and> gate_offset (gate n) = vectors n \<and>
    unat (drop_bit 3 (gd_cs (gate n))) = SEG_KCODE \<and>
    (\<forall>s \<in> {SEG_KCODE, SEG_KDATA, SEG_UCODE, SEG_UDATA}. seg_base (seg s) = 0 \<and> seg_limit (seg s) = 0xffffffff \<and> sd_p (seg s) = 1) \<and>
    bit (sd_type (seg SEG_KCODE)) 3 \<and> sd_dpl (seg SEG_KCODE) = 0 \<and> sd_dpl (seg SEG_KDATA) = 0 \<and>
    bit (sd_type (seg SEG_UCODE)) 3 \<and> sd_dpl (seg SEG_UCODE) = DPL_USER \<and> sd_dpl (seg SEG_UDATA) = DPL_USER"
proof -
  have "unat (drop_bit 3 (8 :: u16)) = 1" by (simp add: drop_bit_eq_div)
  then have "(DPL_USER \<le> gd_dpl (gate n) \<longleftrightarrow> n = T_SYSCALL) \<and> gate_offset (gate n) = vectors n \<and> unat (drop_bit 3 (gd_cs (gate n))) = SEG_KCODE"
    unfolding gate_def tvinit_gate [OF assms(3)] gate_offset_SETGATE by (simp add: SETGATE_def)
  moreover have "\<forall>s \<in> {SEG_KCODE, SEG_KDATA, SEG_UCODE, SEG_UDATA}. seg_base (seg s) = 0 \<and> seg_limit (seg s) = 0xffffffff \<and> sd_p (seg s) = 1"
    by (simp add: seg_def seginit_def seg_base_SEG seg_limit_SEG) (simp add: SEG_def)
  moreover have "bit (sd_type (seg SEG_KCODE)) 3" "bit (sd_type (seg SEG_UCODE)) 3" "sd_dpl (seg SEG_KCODE) = 0" "sd_dpl (seg SEG_KDATA) = 0"
    "sd_dpl (seg SEG_UCODE) = DPL_USER" "sd_dpl (seg SEG_UDATA) = DPL_USER"
    by (simp_all add: seg_def seginit_def SEG_def)
  ultimately show ?thesis by blast
qed

theorem user_enters_by_syscall_witness:
  "gate_offset (fst (tvinit (\<lambda>n. 0x80105000 + of_nat n) (\<lambda>_. SETGATE False 0 0 0)) 64) = 0x80105040"
  using user_enters_by_syscall [of 64 "\<lambda>n. 0x80105000 + of_nat n" "\<lambda>_. SETGATE False 0 0 0" 0 "\<lambda>_. SEG 0 0 0 0"] by simp

section \<open>The local APIC\<close>

text \<open>
  \<open>lapicinit\<close> returns once the interrupt command has been delivered. The unit is then enabled, the timer runs periodically with the
  vector of the clock interrupt, the two lines are masked, and every priority is let through.
\<close>

lemma icr_wait_delivered: "(\<exists>x \<in> set icr. x AND 0x1000 = 0) \<longleftrightarrow> icr_wait icr \<noteq> None"
  by (induction icr) auto

lemma lapicw_regs [simp]: "la_reg (lapicw i v s) j = (if i = j then v else la_reg s j)"
  "la_reg (if c then lapicw i v s else s) j = (if c \<and> i = j then v else la_reg s j)" "la_log (lapicw i v s) = la_log s @ [(i, v)]"
  by (auto simp: lapicw_def)

lemma lapicinit_set:
  assumes "\<exists>x \<in> set icr. x AND 0x1000 = 0"
  shows "\<exists>s' icr'. lapicinit True icr s = Some (s', icr') \<and> la_reg s' LA_SVR = 0x13f \<and> la_reg s' LA_TIMER = 0x20020 \<and>
    la_reg s' LA_TICR = 10000000 \<and> la_reg s' LA_LINT0 = 0x10000 \<and> la_reg s' LA_LINT1 = 0x10000 \<and> la_reg s' LA_ERROR = 51 \<and>
    la_reg s' LA_TPR = 0 \<and> last (la_log s') = (LA_TPR, 0) \<and> lapicid True s' = lapicid True s"
proof -
  obtain icr' where "icr_wait icr = Some icr'" using assms icr_wait_delivered by blast
  then show ?thesis by (simp add: lapicinit_def lapicid_def Let_def del: if_image_distrib split del: if_split)
qed

lemma unat_shifts: "unat (drop_bit n w) = unat w div 2 ^ n" "unat (take_bit n w) = unat w mod 2 ^ n"
  by (simp only: unat_drop_bit_eq, simp only: drop_bit_eq_div) (simp only: unsigned_take_bit_eq, simp only: take_bit_eq_mod)

lemma unat_ucast_mod: "unat (ucast w :: 'b :: len word) = unat w mod 2 ^ LENGTH('b)"
  by (simp add: unsigned_ucast_eq take_bit_eq_mod)

text \<open>
  A processor is told to start at one address in both ways: for a page-aligned address below one megabyte, the warm reset vector is the
  real-mode segment of it and the startup interrupts, both to the given processor, name its page.
\<close>

lemma lapicstartap_starts:
  assumes "unat addr < 2 ^ 20" "addr AND 0xfff = 0" "lapicstartap apicid addr m s = (outs, m', s')"
  shows "16 * (unat (m' 0x80000469) + 256 * unat (m' 0x8000046a)) + (unat (m' 0x80000467) + 256 * unat (m' 0x80000468)) = unat addr \<and>
    (\<exists>pre hi lo. la_log s' = la_log s @ pre @ [(LA_ICRHI, hi), (LA_ICRLO, lo), (LA_ICRHI, hi), (LA_ICRLO, lo)] \<and>
       drop_bit 24 hi = ucast apicid \<and> 4096 * unat (lo AND 0xFF) = unat addr)"
proof -
  have f: "0xfff = (mask 12 :: u32)" "0xFF = (mask 8 :: u32)" by (simp_all add: mask_eq_exp_minus_1)
  obtain q where q: "unat addr = 4096 * q" "q < 256"
  proof
    have "unat (addr AND 0xfff) = unat addr mod 4096" by (simp only: f flip: take_bit_eq_mask) (simp add: unat_shifts)
    then show "unat addr = 4096 * (unat addr div 4096)" "unat addr div 4096 < 256" using assms(1,2) by auto
  qed
  have d: "unat (drop_bit 12 addr) = q" "unat (drop_bit 4 addr) = 256 * q" using q by (simp_all add: unat_shifts)
  have c: "unat (ucast (drop_bit 4 addr) :: u16) = 256 * q" using d q by (simp add: unat_ucast_mod)
  have w: "unat (ucast (ucast (drop_bit 4 addr) :: u16) :: byte) = 0" "unat (ucast (drop_bit 8 (ucast (drop_bit 4 addr) :: u16)) :: byte) = q"
    using c q by (simp_all add: unat_ucast_mod unat_shifts)
  have l: "unat ((0x600 OR drop_bit 12 addr) AND 0xFF) = q"
    using d q by (simp add: f unsigned_take_bit_eq take_bit_nat_eq_self flip: take_bit_eq_mask)
  have h: "drop_bit 24 (push_bit 24 (ucast apicid) :: u32) = ucast apicid"
    by (rule bit_word_eqI) (auto simp: bit_simps dest: bit_imp_le_length)
  have m: "m' = store16 (store16 m 0x80000467 0) 0x80000469 (ucast (drop_bit 4 addr))"
    and s: "la_log s' = la_log s @ [(LA_ICRHI, push_bit 24 (ucast apicid)), (LA_ICRLO, 0x500 OR 0x8000 OR 0x4000), (LA_ICRLO, 0x500 OR 0x8000)] @
      [(LA_ICRHI, push_bit 24 (ucast apicid)), (LA_ICRLO, 0x600 OR drop_bit 12 addr), (LA_ICRHI, push_bit 24 (ucast apicid)),
       (LA_ICRLO, 0x600 OR drop_bit 12 addr)]"
    using assms(3) by (auto simp: lapicstartap_def Let_def upt_rec_numeral numeral_2_eq_2)
  have "16 * (unat (m' 0x80000469) + 256 * unat (m' 0x8000046a)) + (unat (m' 0x80000467) + 256 * unat (m' 0x80000468)) = unat addr"
    using q w by (simp add: m store16_def)
  then show ?thesis using s h l q by (intro conjI exI) auto
qed

end
