(* ===== verification/Xv6_Main.thy ===== *)
theory Xv6_Main
  imports Xv6_Intr Xv6_Kalloc
begin

text \<open>
  Starting the other processors (\<open>startothers\<close> of \<open>main.c\<close>) and the page table that they and the first one start on (\<open>entrypgdir\<close>).
\<close>

section \<open>The first page table\<close>

abbreviation PTE_P :: u32 where "PTE_P \<equiv> 1"
abbreviation PTE_W :: u32 where "PTE_W \<equiv> 2"
abbreviation PTE_PS :: u32 where "PTE_PS \<equiv> 0x80"

definition entrypgdir :: "nat \<Rightarrow> u32" where
  "entrypgdir = (\<lambda>_. 0)(0 := 0 OR PTE_P OR PTE_W OR PTE_PS, unat (drop_bit 22 KERNBASE) := 0 OR PTE_P OR PTE_W OR PTE_PS)"

text \<open>What the processor makes of a page directory with 4-megabyte pages.\<close>

definition big_walk :: "(nat \<Rightarrow> u32) \<Rightarrow> u32 \<Rightarrow> u32 option" where
  "big_walk dir va =
     (let pde = dir (unat (drop_bit 22 va))
      in if pde AND (PTE_P OR PTE_PS) = PTE_P OR PTE_PS then Some (push_bit 22 (drop_bit 22 pde) OR take_bit 22 va) else None)"

text \<open>The low four megabytes are at their own addresses and at those of the kernel, and nothing else is anywhere.\<close>

lemma entrypgdir_maps: "big_walk entrypgdir va = (if unat va < 2 ^ 22 then Some va else if unat (V2P va) < 2 ^ 22 then Some (V2P va) else None)"
proof -
  have d: "unat (drop_bit 22 va) = unat va div 2 ^ 22" by (rule unat_shifts)
  have t: "unat (take_bit 22 va) = unat va mod 2 ^ 22" by (rule unat_shifts)
  have e: "big_walk entrypgdir va = (if unat va div 2 ^ 22 \<in> {0, 512} then Some (take_bit 22 va) else None)"
    unfolding big_walk_def entrypgdir_def Let_def d by (simp add: drop_bit_eq_div)
  have u: "unat va < 2 ^ 32" using unsigned_less [of va] by simp
  have v: "unat (V2P va) = (if 2 ^ 31 \<le> unat va then unat va - 2 ^ 31 else unat va + 2 ^ 31)"
    using u by (auto simp: V2P_def unat_sub_if')
  have "unat va div 2 ^ 22 = 0 \<longleftrightarrow> unat va < 2 ^ 22" "unat va div 2 ^ 22 = 512 \<longleftrightarrow> 2 ^ 31 \<le> unat va \<and> unat va < 2 ^ 31 + 2 ^ 22" by auto
  moreover have "unat va mod 2 ^ 22 = unat va - 2 ^ 31" if "unat va div 2 ^ 22 = 512" using that minus_div_mult_eq_mod [of "unat va" "2 ^ 22"] by simp
  ultimately show ?thesis using u v t unfolding e by (auto simp: word_unat_eq_iff)
qed

section \<open>The other processors\<close>

text \<open>
  The allocator with the memory, the local APIC, the bytes written to ports, and for each processor that was told to start the memory that it
  starts on.
\<close>

record starting =
  st_kmem :: kmem
  st_lapic :: lapic
  st_ports :: "(u32 \<times> u32) list"
  st_told :: "(byte \<times> mem) list"

abbreviation KSTACKSIZE :: u32 where "KSTACKSIZE \<equiv> 4096"

text \<open>
  The loop over the processors, numbered and with their APIC ids. \<open>up\<close> says whether a processor sets \<open>started\<close> some time; for one that does not, the
  loop does not end.
\<close>

fun start_cpus :: "u32 \<Rightarrow> u32 \<Rightarrow> u32 \<Rightarrow> (nat \<Rightarrow> bool) \<Rightarrow> nat \<Rightarrow> (nat \<times> byte) list \<Rightarrow> starting \<Rightarrow> starting option" where
  "start_cpus code mpenter pgdir up me [] s = Some s"
| "start_cpus code mpenter pgdir up me ((c, apicid) # cs) s =
     (if c = me then start_cpus code mpenter pgdir up me cs s
      else let (stack, k) = kalloc (st_kmem s);
               m = store32 (ram k) (code - 4) (stack + KSTACKSIZE);
               m = store32 m (code - 8) mpenter;
               m = store32 m (code - 12) (V2P pgdir);
               (outs, m, la) = lapicstartap apicid (V2P code) m (st_lapic s);
               s = \<lparr>st_kmem = k\<lparr>ram := m\<rparr>, st_lapic = la, st_ports = st_ports s @ outs, st_told = st_told s @ [(apicid, m)]\<rparr>
           in if up c then start_cpus code mpenter pgdir up me cs s else None)"

definition startothers :: "u32 \<Rightarrow> u32 \<Rightarrow> u32 \<Rightarrow> u32 \<Rightarrow> (nat \<Rightarrow> bool) \<Rightarrow> nat \<Rightarrow> byte list \<Rightarrow> starting \<Rightarrow> starting option" where
  "startothers entryother sz mpenter pgdir up me apicids s =
     (let code = P2V 0x7000;
          k = st_kmem s
      in start_cpus code mpenter pgdir up me (enumerate 0 apicids) (s\<lparr>st_kmem := k\<lparr>ram := memmove (ram k) code entryother sz\<rparr>\<rparr>))"

text \<open>One processor: everything is written below the code, which is where no page of the allocator is.\<close>

abbreviation entry_code :: u32 where "entry_code \<equiv> 0x80007000"

definition told_mem :: "mem \<Rightarrow> u32 \<Rightarrow> u32 \<Rightarrow> u32 \<Rightarrow> mem" where
  "told_mem m stack mpenter pgdir =
     (let m = store32 (store32 (store32 m 0x80006ffc (stack + KSTACKSIZE)) 0x80006ff8 mpenter) 0x80006ff4 (V2P pgdir)
      in store16 (store16 m 0x80000467 0) 0x80000469 0x700)"

lemma told_mem_words:
  "load32 (told_mem m stack mpenter pgdir) 0x80006ffc = stack + KSTACKSIZE" "load32 (told_mem m stack mpenter pgdir) 0x80006ff8 = mpenter"
  "load32 (told_mem m stack mpenter pgdir) 0x80006ff4 = V2P pgdir"
  by (simp_all add: told_mem_def store16_def load32_def store32_def bytes_join [simplified])

lemma told_mem_above: "entry_code \<le> a \<Longrightarrow> told_mem m stack mpenter pgdir a = m a"
  by (auto simp: told_mem_def store16_def store32_def Let_def)

lemma start_cpus_Cons:
  assumes "c \<noteq> me" "up c" "free_pages (st_kmem s) (p # ps)"
  obtains la where "start_cpus entry_code mpenter pgdir up me ((c, apicid) # cs) s = start_cpus entry_code mpenter pgdir up me cs
    \<lparr>st_kmem = (snd (kalloc (st_kmem s)))\<lparr>ram := told_mem (ram (st_kmem s)) p mpenter pgdir\<rparr>, st_lapic = la,
     st_ports = st_ports s @ [(0x70, 0xF), (0x71, 0x0A)], st_told = st_told s @ [(apicid, told_mem (ram (st_kmem s)) p mpenter pgdir)]\<rparr>"
proof -
  obtain k where k: "kalloc (st_kmem s) = (p, k)" and "ram k = ram (st_kmem s)"
    using kalloc_free_pages [OF assms(3)] by (cases "kalloc (st_kmem s)") (auto simp: kalloc_def Let_def split: if_splits)
  then have "lapicstartap apicid (V2P entry_code) (store32 (store32 (store32 (ram k) (entry_code - 4) (p + KSTACKSIZE)) (entry_code - 8) mpenter)
      (entry_code - 12) (V2P pgdir)) (st_lapic s) =
    ([(0x70, 0xF), (0x71, 0x0A)], told_mem (ram (st_kmem s)) p mpenter pgdir, snd (snd (lapicstartap apicid (V2P entry_code) (ram k) (st_lapic s))))"
    by (simp add: lapicstartap_def told_mem_def Let_def V2P_def drop_bit_eq_div)
  with k assms(1,2) show ?thesis by (intro that) simp
qed

text \<open>What a processor with the stack page \<open>p\<close> is told on the memory \<open>m\<close>, where the \<open>n\<close> bytes \<open>img\<close> are the code.\<close>

definition told_ok :: "u32 \<Rightarrow> u32 \<Rightarrow> (nat \<Rightarrow> byte) \<Rightarrow> nat \<Rightarrow> u32 \<Rightarrow> mem \<Rightarrow> bool" where
  "told_ok mpenter pgdir img n p m \<longleftrightarrow>
     load32 m (entry_code - 4) = p + KSTACKSIZE \<and> load32 m (entry_code - 8) = mpenter \<and> load32 m (entry_code - 12) = V2P pgdir \<and>
     (\<forall>j < n. m (entry_code + of_nat j) = img j)"

lemma above_code: "n \<le> 4096 \<Longrightarrow> j < n \<Longrightarrow> entry_code \<le> entry_code + of_nat j"
  by (simp add: word_le_nat_alt unat_word_ariths unat_of_nat)

lemma free_pages_above:
  assumes "free_pages s ps" "entry_code + 4096 \<le> kend s" "p \<in> set ps" "in_page p a"
  shows "entry_code + 4096 \<le> a"
proof -
  have p: "p mod PGSIZE = 0" "kend s \<le> p" using assms(1,3) by (auto simp: free_pages_def kpage_def list_all_iff)
  then have "unat p mod 4096 = 0" using aligned_unat [of p] by simp
  then have "unat p \<le> unat a" using in_page_div [OF p(1), of a] assms(4) by (metis add.right_neutral div_mult_mod_eq div_times_less_eq_dividend)
  then show ?thesis using p(2) assms(2) by (simp add: word_le_nat_alt)
qed

lemma start_cpus_tells:
  assumes "free_pages (st_kmem s) ps" "entry_code + 4096 \<le> kend (st_kmem s)" "n \<le> 4096" "\<forall>j < n. ram (st_kmem s) (entry_code + of_nat j) = img j"
    "length (filter (\<lambda>(c, a). c \<noteq> me) cs) \<le> length ps" "\<forall>(c, a) \<in> set cs. up c"
  shows "\<exists>t ms. start_cpus entry_code mpenter pgdir up me cs s = Some t \<and>
    st_told t = st_told s @ zip (map snd (filter (\<lambda>(c, a). c \<noteq> me) cs)) ms \<and>
    length ms = length (filter (\<lambda>(c, a). c \<noteq> me) cs) \<and> list_all2 (told_ok mpenter pgdir img n) (take (length ms) ps) ms \<and>
    free_pages (st_kmem t) (drop (length ms) ps)"
  using assms
proof (induction cs arbitrary: s ps)
  case (Cons x cs)
  obtain c apicid where x: "x = (c, apicid)" by (cases x)
  show ?case
  proof (cases "c = me")
    case True
    then show ?thesis using Cons.IH [OF Cons.prems(1-4)] Cons.prems(5,6) by (simp add: x)
  next
    case False
    then obtain p qs where ps: "ps = p # qs" using Cons.prems(5) by (cases ps) (auto simp: x)
    have c: "c \<noteq> me" "up c" using False Cons.prems(6) by (auto simp: x)
    let ?m = "told_mem (ram (st_kmem s)) p mpenter pgdir"
    let ?k = "(snd (kalloc (st_kmem s)))\<lparr>ram := ?m\<rparr>"
    obtain la where s: "start_cpus entry_code mpenter pgdir up me ((c, apicid) # cs) s = start_cpus entry_code mpenter pgdir up me cs
      \<lparr>st_kmem = ?k, st_lapic = la, st_ports = st_ports s @ [(0x70, 0xF), (0x71, 0x0A)], st_told = st_told s @ [(apicid, ?m)]\<rparr>"
      using start_cpus_Cons [where up = up and c = c and me = me and s = s and p = p and ps = qs] c Cons.prems(1) ps by blast
    have q: "free_pages (snd (kalloc (st_kmem s))) qs" "kend (snd (kalloc (st_kmem s))) = kend (st_kmem s)"
        "ram (snd (kalloc (st_kmem s))) = ram (st_kmem s)"
      using kalloc_free_pages [OF Cons.prems(1)] by (auto simp: ps kalloc_def Let_def)
    then have f: "free_pages ?k qs"
    proof (intro free_pages_frame [OF q(1)])
      fix r a assume "r \<in> set qs" "in_page r a"
      then have "entry_code + 4096 \<le> a" using free_pages_above q Cons.prems(2) by metis
      then have "entry_code \<le> a" by (simp add: word_le_nat_alt)
      then show "ram ?k a = ram (snd (kalloc (st_kmem s))) a" using q(3) told_mem_above by simp
    qed simp_all
    have m: "\<forall>j < n. ?m (entry_code + of_nat j) = img j"
      using Cons.prems(3,4) above_code told_mem_above by simp
    then have ok: "told_ok mpenter pgdir img n p ?m" by (simp add: told_ok_def told_mem_words)
    obtain t ms where "start_cpus entry_code mpenter pgdir up me (x # cs) s = Some t"
      "st_told t = (st_told s @ [(apicid, ?m)]) @ zip (map snd (filter (\<lambda>(c, a). c \<noteq> me) cs)) ms"
      "length ms = length (filter (\<lambda>(c, a). c \<noteq> me) cs)" "list_all2 (told_ok mpenter pgdir img n) (take (length ms) qs) ms"
      "free_pages (st_kmem t) (drop (length ms) qs)"
      using Cons.IH [of "\<lparr>st_kmem = ?k, st_lapic = la, st_ports = st_ports s @ [(0x70, 0xF), (0x71, 0x0A)], st_told = st_told s @ [(apicid, ?m)]\<rparr>" qs]
        f q m Cons.prems(2,3,5,6) c(1) unfolding x s by (auto simp: ps)
    then show ?thesis using ok c(1) by (intro exI [of _ t] exI [of _ "?m # ms"]) (simp add: x ps)
  qed
qed simp

text \<open>
  When there are pages enough for their stacks and every processor comes up, \<open>startothers\<close> returns. It has told every processor but the one that
  runs it, in the order of the table and each once, to start at the copied code, with a stack of its own, the entry point and the page table
  in the three words before the code; the stacks are the first pages of the free list, which has lost them.
\<close>

lemma startothers_tells:
  assumes "free_pages (st_kmem s) ps" "entry_code + 4096 \<le> kend (st_kmem s)" "unat sz \<le> 4096" "unat entryother + unat sz < 2 ^ 32"
    "me < length apicids" "length apicids \<le> length ps + 1" "\<forall>c < length apicids. up c" "st_told s = []"
  shows "\<exists>t ms. startothers entryother sz mpenter pgdir up me apicids s = Some t \<and>
    st_told t = zip (take me apicids @ drop (Suc me) apicids) ms \<and> length ms = length apicids - 1 \<and>
    list_all2 (told_ok mpenter pgdir (\<lambda>j. ram (st_kmem s) (entryother + of_nat j)) (unat sz)) (take (length ms) ps) ms \<and>
    free_pages (st_kmem t) (drop (length ms) ps)"
proof -
  let ?k = "(st_kmem s)\<lparr>ram := moved (ram (st_kmem s)) entry_code entryother (unat sz)\<rparr>"
  have k: "startothers entryother sz mpenter pgdir up me apicids s =
      start_cpus entry_code mpenter pgdir up me (enumerate 0 apicids) (s\<lparr>st_kmem := ?k\<rparr>)"
    using memmove_moved [of entryother sz entry_code] assms(3,4) by (simp add: startothers_def P2V_def Let_def)
  have f: "map snd (filter (\<lambda>(c, a). c \<noteq> me) (enumerate 0 apicids)) = take me apicids @ drop (Suc me) apicids"
  proof -
    have "enumerate 0 apicids = enumerate 0 (take me apicids) @ (me, apicids ! me) # enumerate (Suc me) (drop (Suc me) apicids)"
      using assms(5) by (metis add_0 enumerate_append_eq enumerate_simps(2) id_take_nth_drop length_take min.absorb4)
    moreover have "filter (\<lambda>(c, a). c \<noteq> me) (enumerate 0 (take me apicids)) = enumerate 0 (take me apicids)"
      using assms(5) by (intro filter_True) (auto simp: in_set_enumerate_eq)
    moreover have "filter (\<lambda>(c, a). c \<noteq> me) (enumerate (Suc me) (drop (Suc me) apicids)) = enumerate (Suc me) (drop (Suc me) apicids)"
      by (intro filter_True) (auto simp: in_set_enumerate_eq)
    ultimately show ?thesis by simp
  qed
  have "length (map snd (filter (\<lambda>(c, a). c \<noteq> me) (enumerate 0 apicids))) = length apicids - 1" unfolding f using assms(5) by simp
  then have l: "length (filter (\<lambda>(c, a). c \<noteq> me) (enumerate 0 apicids)) = length apicids - 1" by simp
  have free: "free_pages ?k ps"
  proof (rule free_pages_frame [OF assms(1)])
    fix p a assume "p \<in> set ps" "in_page p a"
    then have "entry_code + 4096 \<le> a" using free_pages_above assms(1,2) by blast
    then have "4096 \<le> unat (a - entry_code)" by (simp add: word_le_nat_alt unat_sub_if')
    then show "ram ?k a = ram (st_kmem s) a" using assms(3) by (simp add: moved_def)
  qed simp_all
  have img: "\<forall>j < unat sz. ram ?k (entry_code + of_nat j) = ram (st_kmem s) (entryother + of_nat j)"
    using assms(3) by (auto simp: moved_def unat_of_nat)
  have "\<forall>(c, a) \<in> set (enumerate 0 apicids). up c" using assms(7) by (auto simp: in_set_enumerate_eq)
  then show ?thesis
    using start_cpus_tells [of "s\<lparr>st_kmem := ?k\<rparr>" ps "unat sz" "\<lambda>j. ram (st_kmem s) (entryother + of_nat j)" me "enumerate 0 apicids" up mpenter pgdir]
      free img assms(2,3,6,8) unfolding k f l by simp
qed

end
