(* ===== verification/Xv6_Utils.thy ===== *)
theory Xv6_Utils
  imports Xv6_Dir Xv6_Filter
begin

text \<open>
  The small user programs: \<open>ls.c\<close>, \<open>mkdir.c\<close>, \<open>rm.c\<close>, \<open>ln.c\<close>, \<open>kill.c\<close>, \<open>zombie.c\<close> and \<open>init.c\<close>, and \<open>stat\<close> of \<open>ulib.c\<close>. The system calls are
  parameters. Output is the list of the strings printed, each with its descriptor.
\<close>

definition str :: "string \<Rightarrow> byte list" where
  "str cs = map of_char cs"

type_synonym printed = "(nat \<times> byte list) list"

section \<open>ls\<close>

text \<open>
  The loop of \<open>fmtname\<close> from the end of the path down: the argument is \<open>p - path + 1\<close>, the result the offset of the name.
\<close>

fun name_start :: "byte list \<Rightarrow> nat \<Rightarrow> nat" where
  "name_start path 0 = 0"
| "name_start path (Suc n) = (if cstr path n \<noteq> ch CHR ''/'' then name_start path n else Suc n)"

definition fmtname :: "byte list \<Rightarrow> byte list" where
  "fmtname path =
     (let p = drop (name_start path (Suc (length path))) path
      in if DIRSIZ \<le> length p then p else p @ replicate (DIRSIZ - length p) 32)"

definition ls_line :: "byte list \<Rightarrow> stat \<Rightarrow> byte list" where
  "ls_line path st =
     fmtname path @ [32] @ uprintint (scast (st_type st)) 10 True @ [32] @ uprintint (of_nat (st_ino st)) 10 True @ [32] @
     uprintint (of_nat (st_size st)) 10 True @ [10]"

text \<open>
  A file that can be opened is what its reads return and what \<open>fstat\<close> does (\<open>None\<close> for an error).
\<close>

type_synonym opened = "input \<times> stat option"

definition ulib_stat :: "(byte list \<Rightarrow> opened option) \<Rightarrow> byte list \<Rightarrow> stat option" where
  "ulib_stat op n = (case op n of None \<Rightarrow> None | Some (inp, st) \<Rightarrow> st)"

text \<open>The loop over the entries; \<open>buf\<close> is the path with the slash.\<close>

function ls_entries :: "(byte list \<Rightarrow> opened option) \<Rightarrow> byte list \<Rightarrow> input \<Rightarrow> printed" where
  "ls_entries op buf inp =
     (case read_fd 16 inp of
        (None, inp') \<Rightarrow> []
      | (Some de, inp') \<Rightarrow>
          if length de \<noteq> 16 then []
          else if de_inum de = 0 then ls_entries op buf inp'
          else let path = buf @ cstrn (de_name de) DIRSIZ
               in (case ulib_stat op path of
                     None \<Rightarrow> (1, str ''ls: cannot stat '' @ path @ [10]) # ls_entries op buf inp'
                   | Some st \<Rightarrow> (1, ls_line path st) # ls_entries op buf inp'))"
  by pat_completeness auto
termination
  by (relation "measure (\<lambda>(op, buf, inp). input_size inp)") (auto intro: read_fd_size [OF sym])

declare ls_entries.simps [simp del]

abbreviation T_DIR :: u16 where "T_DIR \<equiv> 1"
abbreviation T_FILE :: u16 where "T_FILE \<equiv> 2"

definition ls :: "(byte list \<Rightarrow> opened option) \<Rightarrow> byte list \<Rightarrow> printed" where
  "ls op path =
     (case op path of
        None \<Rightarrow> [(2, str ''ls: cannot open '' @ path @ [10])]
      | Some (inp, None) \<Rightarrow> [(2, str ''ls: cannot stat '' @ path @ [10])]
      | Some (inp, Some st) \<Rightarrow>
          if st_type st = T_FILE then [(1, ls_line path st)]
          else if st_type st = T_DIR
          then if length path + 1 + DIRSIZ + 1 > 512 then [(1, str ''ls: path too long'' @ [10])]
               else ls_entries op (path @ [ch CHR ''/'']) inp
          else [])"

definition ls_main :: "(byte list \<Rightarrow> opened option) \<Rightarrow> byte list list \<Rightarrow> printed" where
  "ls_main op argv = (if length argv < 2 then ls op (str ''.'') else concat (map (ls op) (tl argv)))"

section \<open>mkdir, rm, ln, kill, zombie\<close>

text \<open>The loop of \<open>mkdir\<close> and \<open>rm\<close> over the names, with the system call on the state of the system and the text of the failure.\<close>

fun each_name :: "(byte list \<Rightarrow> 's \<Rightarrow> int \<times> 's) \<Rightarrow> (byte list \<Rightarrow> byte list) \<Rightarrow> byte list list \<Rightarrow> 's \<Rightarrow> printed \<times> 's" where
  "each_name call msg [] s = ([], s)"
| "each_name call msg (a # as) s =
     (case call a s of (r, s) \<Rightarrow> if r < 0 then ([(2, msg a)], s) else each_name call msg as s)"

definition mkdir_main :: "(byte list \<Rightarrow> 's \<Rightarrow> int \<times> 's) \<Rightarrow> byte list list \<Rightarrow> 's \<Rightarrow> printed \<times> 's" where
  "mkdir_main mkdir argv s =
     (if length argv < 2 then ([(2, str ''Usage: mkdir files...'' @ [10])], s)
      else each_name mkdir (\<lambda>a. str ''mkdir: '' @ a @ str '' failed to create'' @ [10]) (tl argv) s)"

definition rm_main :: "(byte list \<Rightarrow> 's \<Rightarrow> int \<times> 's) \<Rightarrow> byte list list \<Rightarrow> 's \<Rightarrow> printed \<times> 's" where
  "rm_main unl argv s =
     (if length argv < 2 then ([(2, str ''Usage: rm files...'' @ [10])], s)
      else each_name unl (\<lambda>a. str ''rm: '' @ a @ str '' failed to delete'' @ [10]) (tl argv) s)"

definition ln_main :: "(byte list \<Rightarrow> byte list \<Rightarrow> 's \<Rightarrow> int \<times> 's) \<Rightarrow> byte list list \<Rightarrow> 's \<Rightarrow> printed \<times> 's" where
  "ln_main link argv s =
     (case argv of
        [a0, a1, a2] \<Rightarrow>
          (case link a1 a2 s of (r, s) \<Rightarrow>
             (if r < 0 then [(2, str ''link '' @ a1 @ [32] @ a2 @ str '': failed'' @ [10])] else [], s))
      | _ \<Rightarrow> ([(2, str ''Usage: ln old new'' @ [10])], s))"

text \<open>\<open>kill\<close> ignores what the system call returns. The number that \<open>atoi\<close> computes is an \<open>int\<close>.\<close>

definition kill_main :: "(int \<Rightarrow> 's \<Rightarrow> int \<times> 's) \<Rightarrow> byte list list \<Rightarrow> 's \<Rightarrow> printed \<times> 's" where
  "kill_main kl argv s =
     (if length argv < 2 then ([(2, str ''usage: kill pid...'' @ [10])], s)
      else ([], fold (\<lambda>a s. case atoi (cstr a) of Some n \<Rightarrow> snd (kl n s) | None \<Rightarrow> s) (tl argv) s))"
definition zombie_main :: "('s \<Rightarrow> int \<times> 's) \<Rightarrow> (int \<Rightarrow> 's \<Rightarrow> int \<times> 's) \<Rightarrow> 's \<Rightarrow> 's" where
  "zombie_main fork sleep s = (case fork s of (r, s) \<Rightarrow> if r > 0 then snd (sleep 5 s) else s)"

section \<open>init\<close>

text \<open>Where \<open>main\<close> of \<open>init.c\<close> is: the system call it makes next.\<close>

datatype init_pc =
    I_open | I_mknod | I_reopen | I_dup_out | I_dup_err
  | I_starting | I_fork | I_fork_failed | I_exec | I_exec_failed
  | I_wait int       \<comment> \<open>with \<open>pid\<close>\<close>
  | I_zombie int
  | I_exit

datatype usys =
    Sys_open "byte list" int | Sys_mknod "byte list" int int | Sys_dup int
  | Sys_printf int "byte list" | Sys_fork | Sys_exec "byte list" "byte list list" | Sys_wait | Sys_exit

fun init_sys :: "init_pc \<Rightarrow> usys" where
  "init_sys I_open = Sys_open (str ''console'') 2"
| "init_sys I_mknod = Sys_mknod (str ''console'') 1 1"
| "init_sys I_reopen = Sys_open (str ''console'') 2"
| "init_sys I_dup_out = Sys_dup 0"
| "init_sys I_dup_err = Sys_dup 0"
| "init_sys I_starting = Sys_printf 1 (str ''init: starting sh'' @ [10])"
| "init_sys I_fork = Sys_fork"
| "init_sys I_fork_failed = Sys_printf 1 (str ''init: fork failed'' @ [10])"
| "init_sys I_exec = Sys_exec (str ''sh'') [str ''sh'']"
| "init_sys I_exec_failed = Sys_printf 1 (str ''init: exec sh failed'' @ [10])"
| "init_sys (I_wait pid) = Sys_wait"
| "init_sys (I_zombie pid) = Sys_printf 1 (str ''zombie!'' @ [10])"
| "init_sys I_exit = Sys_exit"

text \<open>Where it goes on when the call has returned \<open>r\<close>.\<close>

fun init_next :: "init_pc \<Rightarrow> int \<Rightarrow> init_pc" where
  "init_next I_open r = (if r < 0 then I_mknod else I_dup_out)"
| "init_next I_mknod r = I_reopen"
| "init_next I_reopen r = I_dup_out"
| "init_next I_dup_out r = I_dup_err"
| "init_next I_dup_err r = I_starting"
| "init_next I_starting r = I_fork"
| "init_next I_fork r = (if r < 0 then I_fork_failed else if r = 0 then I_exec else I_wait r)"
| "init_next I_fork_failed r = I_exit"
| "init_next I_exec r = I_exec_failed"
| "init_next I_exec_failed r = I_exit"
| "init_next (I_wait pid) r = (if r \<ge> 0 \<and> r \<noteq> pid then I_zombie pid else I_starting)"
| "init_next (I_zombie pid) r = I_wait pid"
| "init_next I_exit r = I_exit"

section \<open>What they do\<close>

text \<open>The name of a path is what follows its last slash, padded with blanks.\<close>

lemma name_start_slash: "ch CHR ''/'' \<notin> set name \<Longrightarrow> k \<le> Suc (length name) \<Longrightarrow>
    name_start (dir @ [ch CHR ''/''] @ name) (Suc (length dir) + k) = Suc (length dir)"
proof (induction k)
  case (Suc k)
  have "cstr (dir @ [ch CHR ''/''] @ name) (Suc (length dir) + k) \<noteq> ch CHR ''/''"
    using Suc.prems by (cases "k < length name") (auto simp: cstr_def nth_append dest: nth_mem)
  then show ?case using Suc by simp
qed (simp add: cstr_def nth_append)

lemma fmtname_slash: "ch CHR ''/'' \<notin> set name \<Longrightarrow>
    fmtname (dir @ [ch CHR ''/''] @ name) = name @ replicate (DIRSIZ - length name) 32"
  using name_start_slash [of name "Suc (length name)" dir] by (simp add: fmtname_def Let_def)

text \<open>
  \<open>ls\<close> of a directory prints one line for each entry in use, in the order of the directory, with what \<open>stat\<close> gives for it.
\<close>

definition ls_entry :: "(byte list \<Rightarrow> opened option) \<Rightarrow> byte list \<Rightarrow> byte list \<Rightarrow> nat \<times> byte list" where
  "ls_entry op dir name =
     (let path = dir @ [ch CHR ''/''] @ name
      in (1, case ulib_stat op path of None \<Rightarrow> str ''ls: cannot stat '' @ path @ [10] | Some st \<Rightarrow> ls_line path st))"

lemma dirents_Cons: "16 \<le> length c \<Longrightarrow> dirents c = decode (take 16 c) # dirents (drop 16 c)"
proof -
  assume "16 \<le> length c"
  then have "length c div 16 = Suc (length (drop 16 c) div 16)" by (simp add: div_le_mono le_div_geq)
  then show ?thesis by (simp add: dirents_def upt_conv_Cons map_Suc_upt [symmetric] del: upt_Suc) (simp add: algebra_simps)
qed

lemma ls_entries_dirents: "16 dvd length c \<Longrightarrow>
    ls_entries op (dir @ [ch CHR ''/'']) [Some c] = map (\<lambda>(inum, name). ls_entry op dir name) (filter (\<lambda>(inum, name). inum \<noteq> 0) (dirents c))"
proof (induction "length c" arbitrary: c rule: less_induct)
  case less
  have e: "ls_entries op buf [] = []" for buf by (simp add: ls_entries.simps)
  show ?case
  proof (cases "c = []")
    case True
    then show ?thesis by (simp add: ls_entries.simps dirents_def)
  next
    case False
    then have l: "16 \<le> length c" using less.prems by (auto dest: dvd_imp_le)
    have "16 dvd length (drop 16 c)" using less.prems l by (simp add: dvd_diff_nat)
    then have IH: "ls_entries op (dir @ [ch CHR ''/'']) [Some (drop 16 c)] =
        map (\<lambda>(inum, name). ls_entry op dir name) (filter (\<lambda>(inum, name). inum \<noteq> 0) (dirents (drop 16 c)))"
      using less.hyps [of "drop 16 c"] l by simp
    have r: "ls_entries op (dir @ [ch CHR ''/'']) (snd (read_fd 16 [Some c])) = ls_entries op (dir @ [ch CHR ''/'']) [Some (drop 16 c)]"
      using l by (cases "length c = 16") (auto simp: ls_entries.simps)
    have "fst (read_fd 16 [Some c]) = Some (take 16 c)" using l by simp
    then show ?thesis using l IH r
      by (subst ls_entries.simps) (auto simp: dirents_Cons [OF l] decode_def ls_entry_def Let_def split: prod.splits option.splits)
  qed
qed

text \<open>The loop of \<open>mkdir\<close> and \<open>rm\<close>: the names are done in order, up to the first that fails, which is the one that is reported.\<close>

lemma each_name_order:
  "each_name call msg (as @ bs) s =
     (case each_name call msg as s of (out, t) \<Rightarrow> if out = [] then each_name call msg bs t else (out, t))"
  by (induction as arbitrary: s) (auto split: prod.splits)
section \<open>init and its children\<close>

text \<open>
  \<open>init\<close> with its children: the shells it has started and the processes it has inherited, dead or alive, until \<open>wait\<close> returns them.
\<close>

record family =
  f_pc :: init_pc
  f_shells :: "int set"
  f_others :: "int set"

definition kids :: "family \<Rightarrow> int set" where
  "kids s = f_shells s \<union> f_others s"

text \<open>
  What the kernel promises of the calls: \<open>fork\<close> returns a new pid to the parent or fails, \<open>wait\<close> returns a child and forgets it, or fails when
  there is none; an orphan may be given to \<open>init\<close> at any time.
\<close>

inductive family_step :: "family \<Rightarrow> family \<Rightarrow> bool" where
  fork: "f_pc s = I_fork \<Longrightarrow> 0 < pid \<Longrightarrow> pid \<notin> kids s \<Longrightarrow>
    family_step s (s\<lparr>f_pc := init_next I_fork pid, f_shells := insert pid (f_shells s)\<rparr>)"
| fork_fails: "f_pc s = I_fork \<Longrightarrow> family_step s (s\<lparr>f_pc := init_next I_fork (- 1)\<rparr>)"
| wait: "init_sys (f_pc s) = Sys_wait \<Longrightarrow> p \<in> kids s \<Longrightarrow>
    family_step s (s\<lparr>f_pc := init_next (f_pc s) p, f_shells := f_shells s - {p}, f_others := f_others s - {p}\<rparr>)"
| wait_fails: "init_sys (f_pc s) = Sys_wait \<Longrightarrow> kids s = {} \<Longrightarrow> family_step s (s\<lparr>f_pc := init_next (f_pc s) (- 1)\<rparr>)"
| other: "init_sys (f_pc s) \<notin> {Sys_fork, Sys_wait, Sys_exit} \<Longrightarrow> family_step s (s\<lparr>f_pc := init_next (f_pc s) r\<rparr>)"
| orphan: "0 < p \<Longrightarrow> p \<notin> kids s \<Longrightarrow> family_step s (s\<lparr>f_others := insert p (f_others s)\<rparr>)"

definition family_start :: "family \<Rightarrow> bool" where
  "family_start s \<longleftrightarrow> f_pc s = I_open \<and> f_shells s = {} \<and> (\<forall>p \<in> f_others s. 0 < p)"

definition family_inv :: "family \<Rightarrow> bool" where
  "family_inv s \<longleftrightarrow> (\<forall>p \<in> kids s. 0 < p) \<and> f_shells s \<inter> f_others s = {} \<and>
     f_shells s = (case f_pc s of I_wait pid \<Rightarrow> {pid} | I_zombie pid \<Rightarrow> {pid} | _ \<Rightarrow> {}) \<and> f_pc s \<notin> {I_exec, I_exec_failed}"

interpretation initsys: invariant_system family_start family_step family_inv
proof
  show "family_start s \<Longrightarrow> family_inv s" for s by (simp add: family_start_def family_inv_def kids_def)
  fix s t assume inv: "family_inv s" and "family_step s t"
  from this(2) show "family_inv t"
  proof cases
    case (other r)
    then show ?thesis using inv by (cases "f_pc s") (auto simp: family_inv_def kids_def)
  next
    case (orphan p)
    then show ?thesis using inv by (cases "f_pc s") (auto simp: family_inv_def kids_def)
  next
    case (wait p)
    from wait(2) obtain pid where pid: "f_pc s = I_wait pid" by (cases "f_pc s") auto
    then have "f_shells s = {pid}" "\<forall>q \<in> insert pid (f_others s). 0 < q" "pid \<notin> f_others s" "0 < p"
      using wait(3) inv by (auto simp: family_inv_def kids_def)
    then show ?thesis unfolding wait(1) by (cases "p = pid") (auto simp: pid family_inv_def kids_def)
  next
    case wait_fails
    from wait_fails(2) obtain pid where "f_pc s = I_wait pid" by (cases "f_pc s") auto
    then show ?thesis using wait_fails inv by (auto simp: family_inv_def kids_def)
  qed (use inv in \<open>auto simp: family_inv_def kids_def\<close>)
qed

text \<open>
  \<open>init\<close> has at most one shell, and starts the next only when the last one has ended and been waited for; it gives up only when \<open>fork\<close> fails.
\<close>

lemma init_one_shell:
  assumes "reach family_start family_step s"
  shows "f_shells s = (case f_pc s of I_wait pid \<Rightarrow> {pid} | I_zombie pid \<Rightarrow> {pid} | _ \<Rightarrow> {})" "f_pc s = I_fork \<Longrightarrow> f_shells s = {}"
  using initsys.inv_reach [OF assms] by (auto simp: family_inv_def)

end
