(* ===== verification/Spec2Isabelle.thy ===== *)
theory Spec2Isabelle
  imports Xv6_Spinlock Xv6_Seqgame Xv6_Trap Xv6_Dir Xv6_Grep Xv6_Runcmd Xv6_Umalloc Xv6_Mp Xv6_Ide Xv6_Boot Xv6_Image Xv6_Clock Xv6_Main Xv6_Utils
begin

text \<open>
  The xv6 teaching kernel for x86 with the additions of a thread laboratory: the system call \<open>clone\<close>, a thread library with four kinds of
  locks, and the frisbee programs that use them. This development models the C code under \<open>src/\<close> and proves what makes each part correct.

  \<^bold>\<open>The program.\<close> The boot loader reads the kernel from the disk; the kernel finds the processors, sets up memory, interrupts and devices, and
  starts the first process. Processes enter the kernel by traps; the system calls work on the process table, on open files, which are pipes or
  inodes, and through inodes, the log and the buffer cache on the disk. User programs (the shell, the filters, the thread library) sit on the
  system calls. The image of the disk is made by a program of the build host.

  \<^bold>\<open>How the code is represented.\<close> Words keep their width and wrap around. Kernel memory is a function from 32-bit addresses to bytes wherever
  the code follows pointers in it (the page allocator, page tables, the MP tables, the user heap); a pointer into a table of fixed size is an index.
  A disk block is a function from offsets to bytes. Kernel code that can fail has the result type \<open>kerror + 'a\<close> of \<open>Xv6_Prelude\<close>: a panic, a
  fault, or \<open>Blocked\<close> with the channel where the process would sleep. The states of the kernel components are records that extend one another, in
  the order \<open>kmem\<close> (allocator), \<open>vm\<close>, \<open>ptable\<close>, buffer cache, log, inodes, console, files and pipes, processes, so that an operation of a lower
  component applies to the state of every higher one. Code under a kernel lock is one step of the model; code that runs concurrently without
  one (the locks themselves, the thread library, the games, the disk driver with its interrupts, writers and readers of a pipe) is a step relation
  with one shared access, or one critical section, per step, and the theorems hold for every interleaving.

  \<^bold>\<open>The theories, and the sources they model.\<close>

  Foundations. \<open>Xv6_Prelude\<close>: types, results, little-endian memory, the scan of a table, reachability, and the locales
  \<open>invariant_system\<close> and \<open>mutex\<close>, which are interpreted for every concurrent component. \<open>Xv6_String\<close>: \<open>string.c\<close> and the
  memory routines of \<open>ulib.c\<close>. \<open>Xv6_Print\<close>: \<open>printf.c\<close> and \<open>cprintf\<close>. \<open>Xv6_Ring\<close>: ring buffers with wrapping counters, the locale \<open>byte_ring\<close>, which
  is interpreted for pipes and for the console.

  Locks and threads. \<open>Xv6_Spinlock\<close>: \<open>spinlock.c\<close> on one CPU and on many. \<open>Xv6_Libthread\<close>, \<open>Xv6_Mcslock\<close>, \<open>Xv6_Arraylock\<close>: \<open>libthread.c\<close>, that is
  \<open>thread_create\<close>, the spin lock, the sequence lock, the MCS lock and the array lock. \<open>Xv6_Frisbee\<close> and \<open>Xv6_Seqgame\<close>: \<open>frisbee.c\<close>,
  \<open>frisbee_mcs.c\<close>, \<open>frisbee_array.c\<close> and \<open>frisbee_seq.c\<close>; the game is proved once, in the locale \<open>frisbee_game\<close>, for any lock that keeps its
  contract, and the locale is interpreted for the three programs.

  Memory. \<open>Xv6_Kalloc\<close>: \<open>kalloc.c\<close>, which implements a stack of pages (locale \<open>page_allocator\<close>). \<open>Xv6_Vm\<close>: \<open>vm.c\<close>. \<open>Xv6_Uvm\<close>: what
  \<open>setupkvm\<close> and \<open>copyuvm\<close> build. \<open>Xv6_Umalloc\<close>:
  \<open>umalloc.c\<close>.

  Storage. \<open>Xv6_Bio\<close>: \<open>sleeplock.c\<close>, \<open>memide.c\<close> and \<open>bio.c\<close>, with the locale \<open>block_cache\<close>. \<open>Xv6_Log\<close>: \<open>log.c\<close>, over the cache's contract (locale
  \<open>logged_cache\<close>). \<open>Xv6_Inode\<close> and \<open>Xv6_Fs\<close>: \<open>fs.c\<close>. \<open>Xv6_Contents\<close> and \<open>Xv6_Dir\<close>: what files and directories stand for, and that the
  operations of \<open>fs.c\<close> implement it. \<open>Xv6_Mkfs\<close> and \<open>Xv6_Image\<close>: \<open>mkfs.c\<close>, and the kernel that boots on its image. \<open>Xv6_Ata\<close> and \<open>Xv6_Ide\<close>: the
  disk controller and \<open>ide.c\<close>.

  Processes and system calls. \<open>Xv6_Ptable\<close> and \<open>Xv6_Proc\<close>: \<open>proc.c\<close>. \<open>Xv6_Pipe\<close> and \<open>Xv6_File\<close>: \<open>pipe.c\<close> and \<open>file.c\<close>. \<open>Xv6_Args\<close>: the
  arguments of system calls (\<open>syscall.c\<close>). \<open>Xv6_Exec\<close>: \<open>exec.c\<close>. \<open>Xv6_Sysfile\<close>: \<open>sysfile.c\<close>. \<open>Xv6_Trap\<close>: \<open>sysproc.c\<close>, the dispatch of
  \<open>syscall.c\<close>, and \<open>trap.c\<close>.

  Devices and start-up. \<open>Xv6_Console\<close>: \<open>console.c\<close> and \<open>uart.c\<close>. \<open>Xv6_Kbd\<close>: \<open>kbd.c\<close>. \<open>Xv6_Clock\<close>: the real-time clock of \<open>lapic.c\<close>. \<open>Xv6_Intr\<close>:
  the descriptor tables (\<open>mmu.h\<close>, \<open>tvinit\<close>, \<open>seginit\<close>) and the interrupt controllers (\<open>ioapic.c\<close>, \<open>lapic.c\<close>, \<open>picirq.c\<close>). \<open>Xv6_Mp\<close>: \<open>mp.c\<close>.
  \<open>Xv6_Boot\<close>: \<open>bootmain.c\<close>. \<open>Xv6_Main\<close>: \<open>startothers\<close> of \<open>main.c\<close>.

  User programs. \<open>Xv6_Filter\<close>: \<open>cat.c\<close>, \<open>wc.c\<close>, \<open>echo.c\<close>. \<open>Xv6_Grep\<close>: \<open>grep.c\<close>. \<open>Xv6_Shell\<close>, \<open>Xv6_Reparse\<close> and \<open>Xv6_Runcmd\<close>: \<open>sh.c\<close>, its parser, the
  grammar it implements, and its processes. \<open>Xv6_Utils\<close>: \<open>ls.c\<close>, \<open>mkdir.c\<close>, \<open>rm.c\<close>, \<open>ln.c\<close>, \<open>kill.c\<close>, \<open>zombie.c\<close>, \<open>init.c\<close>. Their system calls
  are parameters.

  \<^bold>\<open>What is shown.\<close>

  Files. \<open>writei\<close> and \<open>readi\<close> write and read the bytes of a file as one array, over direct and indirect blocks, the free map, the log and the
  cache, and touch no other file; \<open>dirlink\<close> and \<open>dirlookup\<close> add to and search a map from names to inodes; a block written through the cache reaches
  the disk; a crash at any point of a commit leaves the state before the transaction or after it; \<open>balloc\<close> takes the first free block. The image that
  \<open>mkfs\<close> makes is one on which the kernel finds a well-formed file system with the given files. The disk driver serves requests in
  order, with interrupts at any time and with a controller that may report errors.

  Memory and processes. \<open>mappages\<close> maps its range and nothing else; \<open>kalloc\<close> hands out different pages; \<open>malloc\<close> and \<open>free\<close> return and keep
  the blocks of the program apart whatever it stores in them. \<open>fork\<close> makes a copy of
  the caller, memory included, keeps the reference counts of files exact, and succeeds when there is an entry and memory enough; the scheduler gives every runnable
  process its turn within 128 steps.

  Locks and threads. Mutual exclusion of the kernel's spin lock, of the library's spin lock, of the MCS lock and of the array lock, the order of
  service of the array lock, the consistency of sequence-locked reads, and that the frisbee programs print the passes of their game in order. Pipes
  deliver the bytes written in order, each once.

  Start-up and interrupts. The boot loader puts every segment of the kernel in its place; \<open>mpinit\<close> finds the processors of the MP tables;
  \<open>startothers\<close> starts each with a stack of its own; an enabled interrupt line reaches its entry point; user code can enter by the system call
  vector only; \<open>cmostime\<close> returns a date that the clock showed.

  User programs. The shell's parser ends on every line, gives well-formed commands and inverts the spelling of commands; the shell
  starts exactly the programs of its input with their pipes and redirections; the matcher of \<open>grep\<close> decides the language of its pattern; the
  console edits lines as a pair of lists.

  Places where the code does not do what it means to are theorems as well: a release of the MCS lock can forget a waiter, \<open>clone\<close> does not count
  the files it copies, \<open>sbrk\<close> in a second thread panics, \<open>mpinit\<close> hangs on an unknown entry, and a failed disk read leaves a buffer valid.

  \<^bold>\<open>Loops and bounds.\<close> A loop whose end is not evident is a \<open>partial_function\<close> with \<open>None\<close> for not ending (string routines, \<open>malloc\<close>, \<open>free\<close>, the
  queue of the disk driver, the walks of \<open>mp.c\<close> and \<open>bootmain.c\<close>, the reading of the clock), and that it returns is part of the theorems about it.
  Waiting for a device uses up the list of what the device answers. The parser has fuel 4 times the length of the line plus 3, which
  \<open>parsecmd_terminates\<close> shows to be enough. The loops over pages of \<open>vm.c\<close> and \<open>exec.c\<close> have the number of pages of the address space as fuel; \<open>page_loops_end\<close> and
  \<open>loaduvm_loop_ends\<close> show that more changes nothing as long as the bound leaves out the end of the address space, where the addresses of the code would
  wrap around. The searches of the buffer cache have one more than the number of buffers as fuel, which is enough for a well-formed list. The
  tables have the sizes of \<open>param.h\<close>.

  \<^bold>\<open>Idealisations.\<close> Where the model is coarser than the machine:

  \<^item> Some counters and indices are unbounded numbers: process identifiers and \<open>nextpid\<close> (\<open>int\<close> in the code), \<open>ncli\<close>, the reference counts
    of buffers, inodes and files, device and block numbers of buffers, and the index register of the I/O APIC, of which the chip keeps 8 bits. A
    theorem about them says nothing past the range of the C type.
  \<^item> \<open>Blocked\<close> drops what the call had done before it slept; in particular \<open>lock_buf\<close> has not kept the reference that \<open>bget\<close> counts before it
    waits for the buffer. Where it matters what others do meanwhile (pipes, the disk driver, the scheduler) there is a step relation.
  \<^item> A log header that claims more than \<open>LOGSIZE\<close> blocks is a fault; \<open>log.c\<close> would copy past its array.
  \<^item> Messages on the console are left out of \<open>allocuvm\<close> and \<open>iinit\<close>. \<open>switchuvm\<close> keeps the page table and the stack of the task segment, and
    leaves out the bytes of its descriptor and the interrupts that it turns off meanwhile.
  \<^item> In the spin lock among many CPUs the two reads of \<open>holding\<close> are one step, as are clearing the owner and the steps around it that no other
    CPU can tell apart.
  \<^item> The slots of the array lock are a function on all indices; that the code stays within the array is part of the theorem.
  \<^item> \<open>trap\<close> calls the disk handler of \<open>memide.c\<close>, which does nothing; the handler of \<open>ide.c\<close> is in \<open>Xv6_Ide\<close>, with its own disk.
  \<^item> The boot loader's disk hands out the next sector whatever status it last gave.
  \<^item> The shell's constructors of commands do not fail for lack of memory.

  \<^bold>\<open>Not modelled.\<close> The assembly files (\<open>bootasm.S\<close>, \<open>entry.S\<close>, \<open>entryother.S\<close>, \<open>trapasm.S\<close>, \<open>swtch.S\<close>, \<open>usys.S\<close>, \<open>initcode.S\<close>) and the generator of
  the entry points (\<open>vectors.pl\<close>): a context switch is the end of one step and the start of another, and the entry points are a parameter. \<open>main\<close>,
  \<open>mpenter\<close> and \<open>mpmain\<close> of \<open>main.c\<close>, which only call the initialisations one after the other. The debugging aids (\<open>getcallerpcs\<close>, the names of locks), the
  time measurement and the messages of \<open>main\<close> in the frisbee programs. The test programs \<open>usertests.c\<close>, \<open>forktest.c\<close> and \<open>stressfs.c\<close>, which exercise the
  kernel and have no contract of their own.
\<close>

end
